(* ===== verification/Prelude.thy ===== *)
theory Prelude
  imports Main "HOL-Library.Multiset"
begin

text \<open>
  Shared vocabulary of the development: the collections of simplification rules the component
  theories fill, the type synonyms for the identifiers the models use in place of C++ references,
  and the generic facts on lists, sums over updated functions and bounded iteration that the
  component proofs rest on.
\<close>

section \<open>Collections\<close>

named_theorems future_simps \<open>evaluation rules of the future store\<close>
named_theorems frame_simps \<open>what an operation leaves unchanged\<close>
named_theorems inv_intros \<open>introduction rules for the component invariants\<close>

section \<open>Identifiers\<close>

type_synonym fid = nat
type_synonym fn_id = nat
type_synonym latch_id = nat
type_synonym timer_id = nat
type_synonym cb_id = nat

section \<open>Sums over a function updated at one point\<close>

lemma sum_fun_upd_below:
  fixes g :: "'b \<Rightarrow> nat"
  assumes "k < (n :: nat)"
  shows "(\<Sum>i<n. g ((F(k := y)) i)) + g (F k) = (\<Sum>i<n. g (F i)) + g y"
proof -
  have k: "k \<in> {..<n}" using assms by simp
  have "(\<Sum>i<n. g ((F(k := y)) i)) = g y + (\<Sum>i\<in>{..<n} - {k}. g ((F(k := y)) i))"
    using sum.remove [of "{..<n}" k "\<lambda>i. g ((F(k := y)) i)"] k by simp
  also have "(\<Sum>i\<in>{..<n} - {k}. g ((F(k := y)) i)) = (\<Sum>i\<in>{..<n} - {k}. g (F i))"
    by (rule sum.cong) auto
  finally show ?thesis
    using sum.remove [of "{..<n}" k "\<lambda>i. g (F i)"] k by simp
qed

lemma sum_fun_upd_fresh:
  fixes g :: "'b \<Rightarrow> nat"
  shows "(\<Sum>i<Suc n. g ((F(n := y)) i)) = (\<Sum>i<n. g (F i)) + g y"
proof -
  have "(\<Sum>i<n. g ((F(n := y)) i)) = (\<Sum>i<n. g (F i))"
    by (rule sum.cong) auto
  then show ?thesis by simp
qed

lemma sum_extend:
  fixes g g' :: "nat \<Rightarrow> nat"
  assumes "n \<le> m" and "\<And>i. i < n \<Longrightarrow> g' i = g i" and "\<And>i. n \<le> i \<Longrightarrow> i < m \<Longrightarrow> g' i = 0"
  shows "(\<Sum>i<m. g' i) = (\<Sum>i<n. g i)"
proof -
  have "(\<Sum>i<m. g' i) = (\<Sum>i<n. g' i)"
    using assms(1,3) by (intro sum.mono_neutral_right) auto
  also have "\<dots> = (\<Sum>i<n. g i)" using assms(2) by (intro sum.cong) auto
  finally show ?thesis .
qed

section \<open>Lists used as FIFO queues\<close>

lemma takeWhile_dropWhile_cases:
  obtains "dropWhile P xs = []" | y ys where "dropWhile P xs = y # ys" and "\<not> P y"
  by (metis dropWhile_eq_Nil_conv hd_dropWhile list.collapse list.sel(1))

lemma remove1_filter_distinct:
  "distinct xs \<Longrightarrow> remove1 x xs = filter (\<lambda>y. y \<noteq> x) xs"
  by (induction xs) (auto intro!: filter_True [symmetric])

section \<open>Counting the threads at a place\<close>

definition how_many :: "('a \<Rightarrow> bool) \<Rightarrow> 'a list \<Rightarrow> nat" where
  "how_many P xs = length (filter P xs)"

lemma how_many_update:
  assumes "i < length xs"
  shows "how_many P (xs[i := x]) + (if P (xs ! i) then 1 else 0) = how_many P xs + (if P x then 1 else 0)"
  using assms
proof (induction xs arbitrary: i)
  case (Cons y ys)
  then show ?case using Cons.IH [of "i - 1"] by (cases i) (auto simp: how_many_def split: if_splits)
qed simp

lemma how_many_replicate: "how_many P (replicate n x) = (if P x then n else 0)"
  by (simp add: how_many_def)

lemma how_many_0: "how_many P xs = 0 \<longleftrightarrow> (\<forall>x \<in> set xs. \<not> P x)"
  by (simp add: how_many_def filter_empty_conv)

lemma how_many_mono: "(\<And>x. x \<in> set xs \<Longrightarrow> P x \<Longrightarrow> Q x) \<Longrightarrow> how_many P xs \<le> how_many Q xs"
  unfolding how_many_def by (induction xs) auto

lemma how_many_pos: "i < length xs \<Longrightarrow> P (xs ! i) \<Longrightarrow> 0 < how_many P xs"
  using how_many_0 [of P xs] by (metis gr0I nth_mem)

section \<open>Bounded iteration of a partial step\<close>

text \<open>
  \<^verbatim>\<open>run_fuel step n c\<close> iterates \<^verbatim>\<open>step\<close> until it returns \<^verbatim>\<open>None\<close> (nothing left to do).
  Running out of fuel is \<^verbatim>\<open>None\<close>; a result is the final configuration.
\<close>

fun run_fuel :: "('c \<Rightarrow> 'c option) \<Rightarrow> nat \<Rightarrow> 'c \<Rightarrow> 'c option" where
  "run_fuel step 0 c = (case step c of None \<Rightarrow> Some c | Some _ \<Rightarrow> None)"
| "run_fuel step (Suc n) c =
     (case step c of None \<Rightarrow> Some c | Some c' \<Rightarrow> run_fuel step n c')"

lemma run_fuel_enough:
  assumes dec: "\<And>c c'. I c \<Longrightarrow> step c = Some c' \<Longrightarrow> I c' \<and> m c' < (m c :: nat)"
    and "I c" and "m c \<le> n"
  shows "\<exists>c'. run_fuel step n c = Some c' \<and> step c' = None \<and> I c'"
  using assms(2,3)
proof (induction n arbitrary: c)
  case 0
  then show ?case using dec [of c] by (cases "step c") auto
next
  case (Suc n)
  show ?case
  proof (cases "step c")
    case None
    with Suc.prems show ?thesis by simp
  next
    case (Some c')
    with Suc.prems dec have "I c'" and "m c' \<le> n" by fastforce+
    with Suc.IH Some show ?thesis by simp
  qed
qed

lemma run_fuel_stops: "run_fuel step n c = Some c' \<Longrightarrow> step c' = None"
  by (induction n arbitrary: c) (auto split: option.splits)

lemma run_fuel_invariant:
  assumes "\<And>c c'. I c \<Longrightarrow> step c = Some c' \<Longrightarrow> I c'"
    and "I c" and "run_fuel step n c = Some c'"
  shows "I c'"
  using assms(2,3)
  by (induction n arbitrary: c) (auto split: option.splits intro: assms(1))

end
