(* ===== verification/Futures.thy ===== *)
theory Futures
  imports Prelude
begin

text \<open>
  The core of \<^verbatim>\<open>include/process/future.hpp\<close>: the shared state \<^verbatim>\<open>Future<T>::Data\<close>, the operations of
  \<^verbatim>\<open>Future\<close> and \<^verbatim>\<open>Promise\<close> and the callbacks they run. Futures live in a store indexed by
  identifiers (a C++ \<^verbatim>\<open>shared_ptr<Data>\<close> is an identifier). Every closure the header itself
  creates is a constructor of \<open>callback\<close>; a client's callable is \<open>User n\<close>, whose invocation is
  recorded in the log, or a function identifier whose behaviour is the parameter \<open>user\<close>.

  The code takes the lock of one \<^verbatim>\<open>Data\<close>, updates it, releases the lock and then runs callbacks one
  after the other, each to its end. A \<open>task\<close> is one such atomic action; \<open>exec\<close> performs it on the
  store and returns the tasks to run before anything else of the same thread. A thread is a stack
  of tasks, so nested callbacks run depth first, as the C++ call stack does.
\<close>

section \<open>Data\<close>

datatype fstate = PENDING | READY | FAILED | DISCARDED

text \<open>A value held by a future; \<open>VFut\<close> is a \<^verbatim>\<open>Future<Future<T>>\<close>.\<close>

datatype 'a val = Val 'a | VFut fid

datatype 'a fresult = RNone | RSome "'a val" | RError string

datatype callback =
    User cb_id
  | InternalDiscard fid
  | FutureSet fid
  | FutureFail fid
  | InternalDiscarded fid
  | FutureAbandon fid bool
  | Thenf fn_id fid
  | Then fn_id fid
  | Repair fn_id fid
  | RecoverAny fn_id fid fid
  | RecoverAbandoned fn_id fid fid
  | After latch_id fid
  | UndiscardableCb fid
  | SelectCb fid
  | Awaited latch_id

record 'a data =
  fstate :: fstate
  fdiscard :: bool
  fassociated :: bool
  fabandoned :: bool
  fresult :: "'a fresult"
  onAbandonedCallbacks :: "callback list"
  onDiscardCallbacks :: "callback list"
  onReadyCallbacks :: "callback list"
  onFailedCallbacks :: "callback list"
  onDiscardedCallbacks :: "callback list"
  onAnyCallbacks :: "callback list"

definition new_data :: "'a data" where
  "new_data = \<lparr>fstate = PENDING, fdiscard = False, fassociated = False, fabandoned = False,
     fresult = RNone, onAbandonedCallbacks = [], onDiscardCallbacks = [], onReadyCallbacks = [],
     onFailedCallbacks = [], onDiscardedCallbacks = [], onAnyCallbacks = []\<rparr>"

definition clearAllCallbacks :: "'a data \<Rightarrow> 'a data" where
  "clearAllCallbacks d = d\<lparr>onAbandonedCallbacks := [], onAnyCallbacks := [],
     onDiscardCallbacks := [], onDiscardedCallbacks := [], onFailedCallbacks := [],
     onReadyCallbacks := []\<rparr>"

datatype 'a arg = ANone | AValue "'a val" | AMessage string | AFuture fid

text \<open>The atomic actions.\<close>

datatype 'a task =
    Invoke callback "'a arg"
  | Set fid "'a val"
  | Fail fid string
  | Discarded fid
  | Discard fid
  | Abandon fid bool
  | PromiseSet fid "'a val"
  | PromiseFail fid string
  | PromiseDiscard fid
  | PromiseAssociate fid fid
  | PromiseDestroy fid
  | OnAbandoned fid callback
  | OnDiscard fid callback
  | OnReady fid callback
  | OnFailed fid callback
  | OnDiscarded fid callback
  | OnAny fid callback
  | RunAny fid
  | ClearAll fid
  | ResetDiscard fid
  | CallAssociate fn_id "'a arg" fid
  | CallSet fn_id "'a arg" fid
  | Expired fn_id latch_id fid fid
  | AfterCancel latch_id fid fid
  | AwaitOn fid latch_id

datatype op = OpSet | OpFail | OpDiscarded | OpDiscard | OpAbandon | OpAssociate

text \<open>The log: client callbacks invoked, what the operations returned, and which future a promise
  was associated with (the successful return of \<^verbatim>\<open>Promise::associate\<close>).\<close>

datatype 'a event = Invoked cb_id "'a arg" | Returned op fid bool | Associated fid fid

datatype abort = CheckRepairPending | CheckAfterPending | CheckAfterTimer | AssertSelectFailed

text \<open>
  The store. \<open>timers\<close> holds the timers that \<^verbatim>\<open>Future::after\<close> has registered with the clock and that
  have neither fired nor been cancelled (with the arguments bound into the thunk), \<open>timer_cell\<close> the
  \<^verbatim>\<open>shared_ptr<Option<Timer>>\<close> of each \<^verbatim>\<open>after\<close>; both use the number of the latch made by the same call.
  \<open>weak_gone f\<close> says that \<^verbatim>\<open>weak_ptr::lock\<close> on \<open>f\<close> fails.
\<close>

record 'a store =
  futs :: "fid \<Rightarrow> 'a data"
  next_fid :: fid
  latches :: "latch_id \<Rightarrow> bool"
  next_latch :: latch_id
  timers :: "timer_id \<Rightarrow> (fn_id \<times> fid \<times> fid) option"
  timer_cell :: "timer_id \<Rightarrow> bool"
  weak_gone :: "fid \<Rightarrow> bool"
  log :: "'a event list"
  aborted :: "abort option"

text \<open>Client code called back by \<^verbatim>\<open>then\<close>, \<^verbatim>\<open>repair\<close>, \<^verbatim>\<open>recover\<close> and \<^verbatim>\<open>after\<close>: it may change the store,
  leave tasks to run (the calls it makes itself) and returns a future, or a value for the
  \<^verbatim>\<open>then\<close> overload whose callable returns a plain value.\<close>

record 'a user =
  fut_fn :: "fn_id \<Rightarrow> 'a arg \<Rightarrow> 'a store \<Rightarrow> 'a store \<times> 'a task list \<times> fid"
  val_fn :: "fn_id \<Rightarrow> 'a arg \<Rightarrow> 'a store \<Rightarrow> 'a store \<times> 'a task list \<times> 'a val"

section \<open>Store access\<close>

definition upd :: "fid \<Rightarrow> ('a data \<Rightarrow> 'a data) \<Rightarrow> 'a store \<Rightarrow> 'a store" where
  "upd f g s = s\<lparr>futs := (futs s)(f := g (futs s f))\<rparr>"

definition emit :: "'a event \<Rightarrow> 'a store \<Rightarrow> 'a store" where
  "emit e s = s\<lparr>log := log s @ [e]\<rparr>"

definition alloc :: "'a data \<Rightarrow> 'a store \<Rightarrow> 'a store \<times> fid" where
  "alloc d s = (s\<lparr>futs := (futs s)(next_fid s := d), next_fid := Suc (next_fid s)\<rparr>, next_fid s)"

definition isPending :: "'a store \<Rightarrow> fid \<Rightarrow> bool" where
  "isPending s f \<longleftrightarrow> fstate (futs s f) = PENDING"

definition isReady :: "'a store \<Rightarrow> fid \<Rightarrow> bool" where
  "isReady s f \<longleftrightarrow> fstate (futs s f) = READY"

definition isDiscarded :: "'a store \<Rightarrow> fid \<Rightarrow> bool" where
  "isDiscarded s f \<longleftrightarrow> fstate (futs s f) = DISCARDED"

definition isFailed :: "'a store \<Rightarrow> fid \<Rightarrow> bool" where
  "isFailed s f \<longleftrightarrow> fstate (futs s f) = FAILED"

definition isAbandoned :: "'a store \<Rightarrow> fid \<Rightarrow> bool" where
  "isAbandoned s f \<longleftrightarrow> fabandoned (futs s f)"

definition hasDiscard :: "'a store \<Rightarrow> fid \<Rightarrow> bool" where
  "hasDiscard s f \<longleftrightarrow> fdiscard (futs s f)"

definition result_value :: "'a store \<Rightarrow> fid \<Rightarrow> 'a arg" where
  "result_value s f = (case fresult (futs s f) of RSome v \<Rightarrow> AValue v | _ \<Rightarrow> ANone)"

definition result_error :: "'a store \<Rightarrow> fid \<Rightarrow> string" where
  "result_error s f = (case fresult (futs s f) of RError m \<Rightarrow> m | _ \<Rightarrow> [])"

section \<open>Completing and discarding\<close>

definition fut_set :: "fid \<Rightarrow> 'a val \<Rightarrow> 'a store \<Rightarrow> 'a store \<times> 'a task list" where
  "fut_set f v s =
    (if isPending s f
     then (emit (Returned OpSet f True)
             (upd f (\<lambda>d. d\<lparr>fresult := RSome v, fstate := READY, onReadyCallbacks := []\<rparr>) s),
           map (\<lambda>c. Invoke c (AValue v)) (onReadyCallbacks (futs s f)) @ [RunAny f, ClearAll f])
     else (emit (Returned OpSet f False) s, []))"

definition fut_fail :: "fid \<Rightarrow> string \<Rightarrow> 'a store \<Rightarrow> 'a store \<times> 'a task list" where
  "fut_fail f m s =
    (if isPending s f
     then (emit (Returned OpFail f True)
             (upd f (\<lambda>d. d\<lparr>fresult := RError m, fstate := FAILED, onFailedCallbacks := []\<rparr>) s),
           map (\<lambda>c. Invoke c (AMessage m)) (onFailedCallbacks (futs s f)) @ [RunAny f, ClearAll f])
     else (emit (Returned OpFail f False) s, []))"

definition fut_discarded :: "fid \<Rightarrow> 'a store \<Rightarrow> 'a store \<times> 'a task list" where
  "fut_discarded f s =
    (if isPending s f
     then (emit (Returned OpDiscarded f True)
             (upd f (\<lambda>d. d\<lparr>fstate := DISCARDED, onDiscardedCallbacks := []\<rparr>) s),
           map (\<lambda>c. Invoke c ANone) (onDiscardedCallbacks (futs s f)) @ [RunAny f, ClearAll f])
     else (emit (Returned OpDiscarded f False) s, []))"

definition fut_discard :: "fid \<Rightarrow> 'a store \<Rightarrow> 'a store \<times> 'a task list" where
  "fut_discard f s =
    (if \<not> fdiscard (futs s f) \<and> isPending s f
     then (emit (Returned OpDiscard f True)
             (upd f (\<lambda>d. d\<lparr>fdiscard := True, onDiscardCallbacks := []\<rparr>) s),
           map (\<lambda>c. Invoke c ANone) (onDiscardCallbacks (futs s f)))
     else (emit (Returned OpDiscard f False) s, []))"

definition fut_abandon :: "fid \<Rightarrow> bool \<Rightarrow> 'a store \<Rightarrow> 'a store \<times> 'a task list" where
  "fut_abandon f propagating s =
    (if \<not> fabandoned (futs s f) \<and> isPending s f \<and> (\<not> fassociated (futs s f) \<or> propagating)
     then (emit (Returned OpAbandon f True)
             (upd f (\<lambda>d. d\<lparr>fabandoned := True, onAbandonedCallbacks := []\<rparr>) s),
           map (\<lambda>c. Invoke c ANone) (onAbandonedCallbacks (futs s f)))
     else (emit (Returned OpAbandon f False) s, []))"

definition run_any :: "fid \<Rightarrow> 'a store \<Rightarrow> 'a store \<times> 'a task list" where
  "run_any f s = (upd f (\<lambda>d. d\<lparr>onAnyCallbacks := []\<rparr>) s,
     map (\<lambda>c. Invoke c (AFuture f)) (onAnyCallbacks (futs s f)))"

section \<open>Installing callbacks\<close>

definition on_abandoned :: "fid \<Rightarrow> callback \<Rightarrow> 'a store \<Rightarrow> 'a store \<times> 'a task list" where
  "on_abandoned f c s =
    (if fabandoned (futs s f) then (s, [Invoke c ANone])
     else if isPending s f
     then (upd f (\<lambda>d. d\<lparr>onAbandonedCallbacks := onAbandonedCallbacks d @ [c]\<rparr>) s, [])
     else (s, []))"

definition on_discard :: "fid \<Rightarrow> callback \<Rightarrow> 'a store \<Rightarrow> 'a store \<times> 'a task list" where
  "on_discard f c s =
    (if fdiscard (futs s f) then (s, [Invoke c ANone])
     else if isPending s f
     then (upd f (\<lambda>d. d\<lparr>onDiscardCallbacks := onDiscardCallbacks d @ [c]\<rparr>) s, [])
     else (s, []))"

definition on_ready :: "fid \<Rightarrow> callback \<Rightarrow> 'a store \<Rightarrow> 'a store \<times> 'a task list" where
  "on_ready f c s =
    (if isReady s f then (s, [Invoke c (result_value s f)])
     else if isPending s f
     then (upd f (\<lambda>d. d\<lparr>onReadyCallbacks := onReadyCallbacks d @ [c]\<rparr>) s, [])
     else (s, []))"

definition on_failed :: "fid \<Rightarrow> callback \<Rightarrow> 'a store \<Rightarrow> 'a store \<times> 'a task list" where
  "on_failed f c s =
    (if isFailed s f then (s, [Invoke c (AMessage (result_error s f))])
     else if isPending s f
     then (upd f (\<lambda>d. d\<lparr>onFailedCallbacks := onFailedCallbacks d @ [c]\<rparr>) s, [])
     else (s, []))"

definition on_discarded :: "fid \<Rightarrow> callback \<Rightarrow> 'a store \<Rightarrow> 'a store \<times> 'a task list" where
  "on_discarded f c s =
    (if isDiscarded s f then (s, [Invoke c ANone])
     else if isPending s f
     then (upd f (\<lambda>d. d\<lparr>onDiscardedCallbacks := onDiscardedCallbacks d @ [c]\<rparr>) s, [])
     else (s, []))"

definition on_any :: "fid \<Rightarrow> callback \<Rightarrow> 'a store \<Rightarrow> 'a store \<times> 'a task list" where
  "on_any f c s =
    (if isPending s f
     then (upd f (\<lambda>d. d\<lparr>onAnyCallbacks := onAnyCallbacks d @ [c]\<rparr>) s, [])
     else (s, [Invoke c (AFuture f)]))"

definition await_on :: "fid \<Rightarrow> latch_id \<Rightarrow> 'a store \<Rightarrow> 'a store \<times> 'a task list" where
  "await_on f l s =
    (if isPending s f
     then (upd f (\<lambda>d. d\<lparr>onAnyCallbacks := onAnyCallbacks d @ [Awaited l]\<rparr>) s, [])
     else (s, []))"

section \<open>Promises\<close>

definition promise_set :: "fid \<Rightarrow> 'a val \<Rightarrow> 'a store \<Rightarrow> 'a store \<times> 'a task list" where
  "promise_set f v s =
    (if \<not> fassociated (futs s f) then (s, [Set f v]) else (emit (Returned OpSet f False) s, []))"

definition promise_fail :: "fid \<Rightarrow> string \<Rightarrow> 'a store \<Rightarrow> 'a store \<times> 'a task list" where
  "promise_fail f m s =
    (if \<not> fassociated (futs s f) then (s, [Fail f m]) else (emit (Returned OpFail f False) s, []))"

definition promise_discard :: "fid \<Rightarrow> 'a store \<Rightarrow> 'a store \<times> 'a task list" where
  "promise_discard f s =
    (if \<not> fassociated (futs s f) then (s, [Discarded f])
     else (emit (Returned OpDiscarded f False) s, []))"

definition promise_associate :: "fid \<Rightarrow> fid \<Rightarrow> 'a store \<Rightarrow> 'a store \<times> 'a task list" where
  "promise_associate f g s =
    (if isPending s f \<and> \<not> fassociated (futs s f)
     then (emit (Associated f g) (upd f (\<lambda>d. d\<lparr>fassociated := True\<rparr>) s),
           [OnDiscard f (InternalDiscard g), OnReady g (FutureSet f), OnFailed g (FutureFail f),
            OnDiscarded g (InternalDiscarded f), OnAbandoned g (FutureAbandon f True)])
     else (emit (Returned OpAssociate f False) s, []))"

section \<open>The callbacks the header creates\<close>

definition internal_thenf ::
    "fn_id \<Rightarrow> fid \<Rightarrow> fid \<Rightarrow> 'a store \<Rightarrow> 'a store \<times> 'a task list" where
  "internal_thenf fn p f s =
    (s, (if isReady s f
         then (if hasDiscard s f then [PromiseDiscard p]
               else [CallAssociate fn (result_value s f) p])
         else if isFailed s f then [PromiseFail p (result_error s f)]
         else if isDiscarded s f then [PromiseDiscard p] else []) @ [PromiseDestroy p])"

definition internal_then ::
    "fn_id \<Rightarrow> fid \<Rightarrow> fid \<Rightarrow> 'a store \<Rightarrow> 'a store \<times> 'a task list" where
  "internal_then fn p f s =
    (s, (if isReady s f
         then (if hasDiscard s f then [PromiseDiscard p] else [CallSet fn (result_value s f) p])
         else if isFailed s f then [PromiseFail p (result_error s f)]
         else if isDiscarded s f then [PromiseDiscard p] else []) @ [PromiseDestroy p])"

definition internal_repair ::
    "fn_id \<Rightarrow> fid \<Rightarrow> fid \<Rightarrow> 'a store \<Rightarrow> 'a store \<times> 'a task list" where
  "internal_repair fn p f s =
    (if isPending s f then (s\<lparr>aborted := Some CheckRepairPending\<rparr>, [])
     else (s, (if isFailed s f then [CallAssociate fn (AFuture f) p] else [PromiseAssociate p f])
            @ [PromiseDestroy p]))"

definition recover_any ::
    "fn_id \<Rightarrow> fid \<Rightarrow> fid \<Rightarrow> 'a store \<Rightarrow> 'a store \<times> 'a task list" where
  "recover_any fn p f s =
    (s, if isDiscarded s f \<or> isFailed s f
        then [ResetDiscard p, CallAssociate fn (AFuture f) p] else [PromiseAssociate p f])"

definition recover_abandoned ::
    "fn_id \<Rightarrow> fid \<Rightarrow> fid \<Rightarrow> 'a store \<Rightarrow> 'a store \<times> 'a task list" where
  "recover_abandoned fn p f s = (s, [ResetDiscard p, CallAssociate fn (AFuture f) p])"

definition latch_trigger :: "latch_id \<Rightarrow> 'a store \<Rightarrow> 'a store \<times> bool" where
  "latch_trigger l s =
    (if latches s l then (s, False) else (s\<lparr>latches := (latches s)(l := True)\<rparr>, True))"

definition internal_expired ::
    "fn_id \<Rightarrow> latch_id \<Rightarrow> fid \<Rightarrow> fid \<Rightarrow> 'a store \<Rightarrow> 'a store \<times> 'a task list" where
  "internal_expired fn l p f s =
    (case latch_trigger l s of
       (s', True) \<Rightarrow> (s'\<lparr>timer_cell := (timer_cell s')(l := False)\<rparr>,
                      [CallAssociate fn (AFuture f) p])
     | (s', False) \<Rightarrow> (s', []))"

definition internal_after ::
    "latch_id \<Rightarrow> fid \<Rightarrow> fid \<Rightarrow> 'a store \<Rightarrow> 'a store \<times> 'a task list" where
  "internal_after l p f s =
    (if isPending s f then (s\<lparr>aborted := Some CheckAfterPending\<rparr>, [])
     else case latch_trigger l s of
       (s', True) \<Rightarrow> (s', [AfterCancel l p f])
     | (s', False) \<Rightarrow> (s', []))"

definition after_cancel ::
    "latch_id \<Rightarrow> fid \<Rightarrow> fid \<Rightarrow> 'a store \<Rightarrow> 'a store \<times> 'a task list" where
  "after_cancel l p f s =
    (if \<not> timer_cell s l then (s\<lparr>aborted := Some CheckAfterTimer\<rparr>, [])
     else (s\<lparr>timers := (timers s)(l := None), timer_cell := (timer_cell s)(l := False)\<rparr>,
           [PromiseAssociate p f]))"

definition internal_select :: "fid \<Rightarrow> fid \<Rightarrow> 'a store \<Rightarrow> 'a store \<times> 'a task list" where
  "internal_select p f s =
    (if isFailed s p then (s\<lparr>aborted := Some AssertSelectFailed\<rparr>, [])
     else (s, if isPending s p \<and> isReady s f then [PromiseSet p (VFut f)] else []))"

definition internal_discard :: "fid \<Rightarrow> 'a store \<Rightarrow> 'a store \<times> 'a task list" where
  "internal_discard f s = (s, if weak_gone s f then [] else [Discard f])"

fun invoke :: "callback \<Rightarrow> 'a arg \<Rightarrow> 'a store \<Rightarrow> 'a store \<times> 'a task list" where
  "invoke (User n) a s = (emit (Invoked n a) s, [])"
| "invoke (InternalDiscard f) a s = internal_discard f s"
| "invoke (FutureSet p) a s = (s, case a of AValue v \<Rightarrow> [Set p v] | _ \<Rightarrow> [])"
| "invoke (FutureFail p) a s = (s, case a of AMessage m \<Rightarrow> [Fail p m] | _ \<Rightarrow> [])"
| "invoke (InternalDiscarded p) a s = (s, [Discarded p])"
| "invoke (FutureAbandon p b) a s = (s, [Abandon p b])"
| "invoke (Thenf fn p) a s = (case a of AFuture f \<Rightarrow> internal_thenf fn p f s | _ \<Rightarrow> (s, []))"
| "invoke (Then fn p) a s = (case a of AFuture f \<Rightarrow> internal_then fn p f s | _ \<Rightarrow> (s, []))"
| "invoke (Repair fn p) a s = (case a of AFuture f \<Rightarrow> internal_repair fn p f s | _ \<Rightarrow> (s, []))"
| "invoke (RecoverAny fn p f) a s = recover_any fn p f s"
| "invoke (RecoverAbandoned fn p f) a s = recover_abandoned fn p f s"
| "invoke (After l p) a s = (case a of AFuture f \<Rightarrow> internal_after l p f s | _ \<Rightarrow> (s, []))"
| "invoke (UndiscardableCb p) a s =
     (s, case a of AFuture f \<Rightarrow> [PromiseAssociate p f, PromiseDestroy p] | _ \<Rightarrow> [])"
| "invoke (SelectCb p) a s = (case a of AFuture f \<Rightarrow> internal_select p f s | _ \<Rightarrow> (s, []))"
| "invoke (Awaited l) a s = (fst (latch_trigger l s), [])"

fun exec :: "'a user \<Rightarrow> 'a task \<Rightarrow> 'a store \<Rightarrow> 'a store \<times> 'a task list" where
  "exec u (Invoke c a) s = invoke c a s"
| "exec u (Set f v) s = fut_set f v s"
| "exec u (Fail f m) s = fut_fail f m s"
| "exec u (Discarded f) s = fut_discarded f s"
| "exec u (Discard f) s = fut_discard f s"
| "exec u (Abandon f b) s = fut_abandon f b s"
| "exec u (PromiseSet f v) s = promise_set f v s"
| "exec u (PromiseFail f m) s = promise_fail f m s"
| "exec u (PromiseDiscard f) s = promise_discard f s"
| "exec u (PromiseAssociate f g) s = promise_associate f g s"
| "exec u (PromiseDestroy f) s = (s, [Abandon f False])"
| "exec u (OnAbandoned f c) s = on_abandoned f c s"
| "exec u (OnDiscard f c) s = on_discard f c s"
| "exec u (OnReady f c) s = on_ready f c s"
| "exec u (OnFailed f c) s = on_failed f c s"
| "exec u (OnDiscarded f c) s = on_discarded f c s"
| "exec u (OnAny f c) s = on_any f c s"
| "exec u (RunAny f) s = run_any f s"
| "exec u (ClearAll f) s = (upd f clearAllCallbacks s, [])"
| "exec u (ResetDiscard f) s = (upd f (\<lambda>d. d\<lparr>fdiscard := False\<rparr>) s, [])"
| "exec u (CallAssociate fn a p) s =
     (case fut_fn u fn a s of (s', ts, g) \<Rightarrow> (s', ts @ [PromiseAssociate p g]))"
| "exec u (CallSet fn a p) s =
     (case val_fn u fn a s of (s', ts, v) \<Rightarrow> (s', ts @ [PromiseSet p v]))"
| "exec u (Expired fn l p f) s = internal_expired fn l p f s"
| "exec u (AfterCancel l p f) s = after_cancel l p f s"
| "exec u (AwaitOn f l) s = await_on f l s"

end
