(* ===== verification/Future_Combinators.thy ===== *)
theory Future_Combinators
  imports Futures
begin

text \<open>
  Constructors of futures and promises and the combinators of \<^verbatim>\<open>future.hpp\<close> that make a new future
  out of others. Each returns the store with the new future allocated, the calls the combinator
  makes on existing futures as tasks, and the new future. \<open>conf\<close> is a store with the task stacks of
  the threads; \<open>fstep\<close> is one step of the system: a thread performs its next task, client code makes
  a call, a timer fires or the last strong reference to a future goes away.
\<close>

section \<open>Constructors\<close>

definition make_future :: "'a store \<Rightarrow> 'a store \<times> fid" where
  "make_future = alloc (new_data\<lparr>fabandoned := True\<rparr>)"

definition make_promise :: "'a store \<Rightarrow> 'a store \<times> fid" where
  "make_promise s = (case make_future s of (s', f) \<Rightarrow> (upd f (\<lambda>d. d\<lparr>fabandoned := False\<rparr>) s', f))"

definition make_ready :: "'a val \<Rightarrow> 'a store \<Rightarrow> 'a store \<times> 'a task list \<times> fid" where
  "make_ready v s = (case alloc new_data s of (s', f) \<Rightarrow> (s', [Set f v], f))"

definition make_failure :: "string \<Rightarrow> 'a store \<Rightarrow> 'a store \<times> 'a task list \<times> fid" where
  "make_failure m s = (case alloc new_data s of (s', f) \<Rightarrow> (s', [Fail f m], f))"

definition make_failed :: "string \<Rightarrow> 'a store \<Rightarrow> 'a store \<times> 'a task list \<times> fid" where
  "make_failed m s = (case make_future s of (s', f) \<Rightarrow> (s', [Fail f m], f))"

definition make_latch :: "'a store \<Rightarrow> 'a store \<times> latch_id" where
  "make_latch s = (s\<lparr>latches := (latches s)(next_latch s := False),
      next_latch := Suc (next_latch s)\<rparr>, next_latch s)"

section \<open>Combinators\<close>

definition future_thenf :: "fn_id \<Rightarrow> fid \<Rightarrow> 'a store \<Rightarrow> 'a store \<times> 'a task list \<times> fid" where
  "future_thenf fn f s = (case make_promise s of (s', p) \<Rightarrow>
     (s', [OnAny f (Thenf fn p), OnAbandoned f (FutureAbandon p False),
           OnDiscard p (InternalDiscard f)], p))"

definition future_then :: "fn_id \<Rightarrow> fid \<Rightarrow> 'a store \<Rightarrow> 'a store \<times> 'a task list \<times> fid" where
  "future_then fn f s = (case make_promise s of (s', p) \<Rightarrow>
     (s', [OnAny f (Then fn p), OnAbandoned f (FutureAbandon p False),
           OnDiscard p (InternalDiscard f)], p))"

definition future_recover :: "fn_id \<Rightarrow> fid \<Rightarrow> 'a store \<Rightarrow> 'a store \<times> 'a task list \<times> fid" where
  "future_recover fn f s = (case make_promise s of (s', p) \<Rightarrow>
     (s', [OnAny f (RecoverAny fn p f), OnAbandoned f (RecoverAbandoned fn p f),
           OnDiscard p (InternalDiscard f)], p))"

definition future_repair :: "fn_id \<Rightarrow> fid \<Rightarrow> 'a store \<Rightarrow> 'a store \<times> 'a task list \<times> fid" where
  "future_repair fn f s = (case make_promise s of (s', p) \<Rightarrow>
     (s', [OnAny f (Repair fn p), OnAbandoned f (FutureAbandon p False),
           OnDiscard p (InternalDiscard f)], p))"

text \<open>
  \<^verbatim>\<open>after\<close> starts the timer and stores it in its cell; both are one step here. A timer that fires in between triggers the latch, after which nobody reads the cell.
\<close>

definition future_after :: "fn_id \<Rightarrow> fid \<Rightarrow> 'a store \<Rightarrow> 'a store \<times> 'a task list \<times> fid" where
  "future_after fn f s =
    (case make_latch s of (s1, l) \<Rightarrow>
     case make_promise s1 of (s2, p) \<Rightarrow>
       (s2\<lparr>timers := (timers s2)(l \<mapsto> (fn, p, f)), timer_cell := (timer_cell s2)(l := True)\<rparr>,
        [OnAny f (After l p), OnAbandoned f (FutureAbandon p False),
         OnDiscard p (InternalDiscard f)], p))"

definition future_undiscardable :: "fid \<Rightarrow> 'a store \<Rightarrow> 'a store \<times> 'a task list \<times> fid" where
  "future_undiscardable f s =
    (case make_promise s of (s', p) \<Rightarrow> (s', [OnAny f (UndiscardableCb p)], p))"

definition future_select :: "fid list \<Rightarrow> 'a store \<Rightarrow> 'a store \<times> 'a task list \<times> fid" where
  "future_select fs s =
    (case make_promise s of (s', p) \<Rightarrow>
       (s', OnDiscard p (InternalDiscarded p) # map (\<lambda>f. OnAny f (SelectCb p)) fs, p))"

definition discard_futures :: "fid list \<Rightarrow> 'a task list" where
  "discard_futures fs = map Discard fs"

definition setPromises :: "fid list \<Rightarrow> 'a val \<Rightarrow> 'a task list" where
  "setPromises ps v = concat (map (\<lambda>p. [PromiseSet p v, PromiseDestroy p]) ps)"

definition failPromises :: "fid list \<Rightarrow> string \<Rightarrow> 'a task list" where
  "failPromises ps m = concat (map (\<lambda>p. [PromiseFail p m, PromiseDestroy p]) ps)"

definition discardPromises :: "fid list \<Rightarrow> 'a task list" where
  "discardPromises ps = concat (map (\<lambda>p. [PromiseDiscard p, PromiseDestroy p]) ps)"

text \<open>The overload that discards one promise of the set: the remaining set and the calls.\<close>

definition discardPromise :: "fid list \<Rightarrow> fid \<Rightarrow> fid list \<times> 'a task list" where
  "discardPromise ps f =
    (if f \<in> set ps then (remove1 f ps, [PromiseDiscard f, PromiseDestroy f]) else (ps, []))"

section \<open>Reading a future\<close>

datatype 'a get_result = GetBlocks | GetFailed string | GetDiscarded | GetValue "'a arg"

text \<open>\<^verbatim>\<open>Future::get\<close>: blocks in \<^verbatim>\<open>await\<close> while pending, then its \<^verbatim>\<open>CHECK\<close>s abort unless ready.\<close>

definition future_get :: "'a store \<Rightarrow> fid \<Rightarrow> 'a get_result" where
  "future_get s f =
    (if isPending s f then GetBlocks
     else if \<not> isReady s f
     then (if isFailed s f then GetFailed (result_error s f) else GetDiscarded)
     else GetValue (result_value s f))"

definition future_failure :: "'a store \<Rightarrow> fid \<Rightarrow> string option" where
  "future_failure s f =
    (if fstate (futs s f) \<noteq> FAILED then None else Some (result_error s f))"

definition future_print :: "'a store \<Rightarrow> fid \<Rightarrow> string" where
  "future_print s f =
    (let suffix = (if fdiscard (futs s f) then '' (with discard)'' else '''')
     in case fstate (futs s f) of
          PENDING \<Rightarrow> (if fabandoned (futs s f) then ''Abandoned'' else ''Pending'') @ suffix
        | READY \<Rightarrow> ''Ready'' @ suffix
        | FAILED \<Rightarrow> ''Failed'' @ suffix @ '': '' @ result_error s f
        | DISCARDED \<Rightarrow> ''Discarded'' @ suffix)"

section \<open>The system of threads\<close>

datatype 'a mk = MkFuture | MkPromise | MkReady "'a val" | MkFailure string | MkFailed string
  | MkThenf fn_id fid | MkThen fn_id fid | MkRecover fn_id fid | MkRepair fn_id fid
  | MkAfter fn_id fid | MkUndiscardable fid | MkSelect "fid list"

fun make :: "'a mk \<Rightarrow> 'a store \<Rightarrow> 'a store \<times> 'a task list \<times> fid" where
  "make MkFuture s = (case make_future s of (s', f) \<Rightarrow> (s', [], f))"
| "make MkPromise s = (case make_promise s of (s', f) \<Rightarrow> (s', [], f))"
| "make (MkReady v) s = make_ready v s"
| "make (MkFailure m) s = make_failure m s"
| "make (MkFailed m) s = make_failed m s"
| "make (MkThenf fn f) s = future_thenf fn f s"
| "make (MkThen fn f) s = future_then fn f s"
| "make (MkRecover fn f) s = future_recover fn f s"
| "make (MkRepair fn f) s = future_repair fn f s"
| "make (MkAfter fn f) s = future_after fn f s"
| "make (MkUndiscardable f) s = future_undiscardable f s"
| "make (MkSelect fs) s = future_select fs s"

text \<open>The calls client code can make on futures and promises it holds.\<close>

fun client_call :: "'a task \<Rightarrow> bool" where
  "client_call (Discard f) = True"
| "client_call (PromiseSet f v) = True"
| "client_call (PromiseFail f m) = True"
| "client_call (PromiseDiscard f) = True"
| "client_call (PromiseAssociate f g) = True"
| "client_call (PromiseDestroy f) = True"
| "client_call (OnAbandoned f (User n)) = True"
| "client_call (OnDiscard f (User n)) = True"
| "client_call (OnReady f (User n)) = True"
| "client_call (OnFailed f (User n)) = True"
| "client_call (OnDiscarded f (User n)) = True"
| "client_call (OnAny f (User n)) = True"
| "client_call (AwaitOn f l) = True"
| "client_call t = False"

text \<open>
  The calls a client callable may leave to be made when it returns: its own calls, and those of the
  combinators it used (all but \<^verbatim>\<open>after\<close>, which also registers a timer).
\<close>

fun is_after :: "callback \<Rightarrow> bool" where
  "is_after (After l p) = True"
| "is_after _ = False"

fun user_task :: "'a task \<Rightarrow> bool" where
  "user_task (OnAbandoned f c) = (\<not> is_after c)"
| "user_task (OnDiscard f c) = (\<not> is_after c)"
| "user_task (OnReady f c) = (\<not> is_after c)"
| "user_task (OnFailed f c) = (\<not> is_after c)"
| "user_task (OnDiscarded f c) = (\<not> is_after c)"
| "user_task (OnAny f c) = (\<not> is_after c)"
| "user_task (Set f v) = True"
| "user_task (Fail f m) = True"
| "user_task t = client_call t"

text \<open>The futures a callback, an argument, a task or a constructor call refers to.\<close>

fun cb_fids :: "callback \<Rightarrow> fid list" where
  "cb_fids (User n) = []"
| "cb_fids (InternalDiscard f) = [f]"
| "cb_fids (FutureSet p) = [p]"
| "cb_fids (FutureFail p) = [p]"
| "cb_fids (InternalDiscarded p) = [p]"
| "cb_fids (FutureAbandon p b) = [p]"
| "cb_fids (Thenf fn p) = [p]"
| "cb_fids (Then fn p) = [p]"
| "cb_fids (Repair fn p) = [p]"
| "cb_fids (RecoverAny fn p f) = [p, f]"
| "cb_fids (RecoverAbandoned fn p f) = [p, f]"
| "cb_fids (After l p) = [p]"
| "cb_fids (UndiscardableCb p) = [p]"
| "cb_fids (SelectCb p) = [p]"
| "cb_fids (Awaited l) = []"

fun val_fids :: "'a val \<Rightarrow> fid list" where
  "val_fids (Val x) = []"
| "val_fids (VFut f) = [f]"

fun arg_fids :: "'a arg \<Rightarrow> fid list" where
  "arg_fids (AFuture f) = [f]"
| "arg_fids (AValue v) = val_fids v"
| "arg_fids _ = []"

fun task_fids :: "'a task \<Rightarrow> fid list" where
  "task_fids (Invoke c a) = cb_fids c @ arg_fids a"
| "task_fids (Set f v) = f # val_fids v"
| "task_fids (Fail f m) = [f]"
| "task_fids (Discarded f) = [f]"
| "task_fids (Discard f) = [f]"
| "task_fids (Abandon f b) = [f]"
| "task_fids (PromiseSet f v) = f # val_fids v"
| "task_fids (PromiseFail f m) = [f]"
| "task_fids (PromiseDiscard f) = [f]"
| "task_fids (PromiseAssociate f g) = [f, g]"
| "task_fids (PromiseDestroy f) = [f]"
| "task_fids (OnAbandoned f c) = f # cb_fids c"
| "task_fids (OnDiscard f c) = f # cb_fids c"
| "task_fids (OnReady f c) = f # cb_fids c"
| "task_fids (OnFailed f c) = f # cb_fids c"
| "task_fids (OnDiscarded f c) = f # cb_fids c"
| "task_fids (OnAny f c) = f # cb_fids c"
| "task_fids (RunAny f) = [f]"
| "task_fids (ClearAll f) = [f]"
| "task_fids (ResetDiscard f) = [f]"
| "task_fids (CallAssociate fn a p) = p # arg_fids a"
| "task_fids (CallSet fn a p) = p # arg_fids a"
| "task_fids (Expired fn l p f) = [p, f]"
| "task_fids (AfterCancel l p f) = [p, f]"
| "task_fids (AwaitOn f l) = [f]"

fun mk_fids :: "'a mk \<Rightarrow> fid list" where
  "mk_fids (MkReady v) = val_fids v"
| "mk_fids (MkThenf fn f) = [f]"
| "mk_fids (MkThen fn f) = [f]"
| "mk_fids (MkRecover fn f) = [f]"
| "mk_fids (MkRepair fn f) = [f]"
| "mk_fids (MkAfter fn f) = [f]"
| "mk_fids (MkUndiscardable f) = [f]"
| "mk_fids (MkSelect fs) = fs"
| "mk_fids _ = []"

type_synonym 'a conf = "'a store \<times> 'a task list list"

definition empty_store :: "'a store" where
  "empty_store = \<lparr>futs = (\<lambda>_. new_data), next_fid = 0, latches = (\<lambda>_. False), next_latch = 0,
     timers = (\<lambda>_. None), timer_cell = (\<lambda>_. False), weak_gone = (\<lambda>_. False), log = [],
     aborted = None\<rparr>"

text \<open>
  One step. \<open>perform\<close>: some thread does its next action. \<open>call\<close> and \<open>create\<close>: client code running in
  some thread (also inside one of its callbacks) makes a call. \<open>fire\<close>: the clock runs an expired
  timer's thunk. \<open>weak\<close>: a future can no longer be reached through weak references.
\<close>

inductive fstep :: "'a user \<Rightarrow> 'a conf \<Rightarrow> 'a conf \<Rightarrow> bool" for u where
  perform: "aborted s = None \<Longrightarrow> exec u t s = (s', new) \<Longrightarrow>
    fstep u (s, A @ (t # ts) # B) (s', A @ (new @ ts) # B)"
| call: "aborted s = None \<Longrightarrow> client_call t \<Longrightarrow> \<forall>f\<in>set (task_fids t). f < next_fid s \<Longrightarrow>
    fstep u (s, A @ ts # B) (s, A @ (t # ts) # B)"
| create: "aborted s = None \<Longrightarrow> \<forall>f\<in>set (mk_fids k). f < next_fid s \<Longrightarrow> make k s = (s', new, f) \<Longrightarrow>
    fstep u (s, A @ ts # B) (s', A @ (new @ ts) # B)"
| latch: "aborted s = None \<Longrightarrow> make_latch s = (s', l) \<Longrightarrow> fstep u (s, ths) (s', ths)"
| fire: "aborted s = None \<Longrightarrow> timers s l = Some (fn, p, f) \<Longrightarrow>
    fstep u (s, A @ ts # B) (s\<lparr>timers := (timers s)(l := None)\<rparr>, A @ (Expired fn l p f # ts) # B)"
| weak: "fstep u (s, ths) (s\<lparr>weak_gone := (weak_gone s)(f := True)\<rparr>, ths)"

inductive freach :: "'a user \<Rightarrow> 'a conf \<Rightarrow> bool" for u where
  start: "freach u (empty_store, replicate n [])"
| step: "freach u c \<Longrightarrow> fstep u c c' \<Longrightarrow> freach u c'"

section \<open>Running one thread to its end\<close>

fun seq_step :: "'a user \<Rightarrow> 'a store \<times> 'a task list \<Rightarrow> ('a store \<times> 'a task list) option" where
  "seq_step u (s, []) = None"
| "seq_step u (s, t # ts) =
     (if aborted s \<noteq> None then None else case exec u t s of (s', new) \<Rightarrow> Some (s', new @ ts))"

definition run_tasks :: "'a user \<Rightarrow> nat \<Rightarrow> 'a task list \<Rightarrow> 'a store \<Rightarrow> 'a store option" where
  "run_tasks u n ts s = map_option fst (run_fuel (seq_step u) n (s, ts))"

end
