(* ===== verification/Future_Invariants.thy ===== *)
theory Future_Invariants
  imports Future_Combinators
begin

text \<open>
  Invariants of the future store under every interleaving of threads: the data invariant written as
  a comment in \<^verbatim>\<open>Future<T>::Data\<close>, references that stay inside the store, and the monotone evolution
  of each future (a completed future never changes its state or result again).
\<close>

section \<open>Definitions\<close>

definition data_ok :: "'a data \<Rightarrow> bool" where
  "data_ok d = (case fresult d of
     RNone \<Rightarrow> fstate d = PENDING \<or> fstate d = DISCARDED
   | RSome v \<Rightarrow> fstate d = READY
   | RError m \<Rightarrow> fstate d = FAILED)"

definition data_cbs :: "'a data \<Rightarrow> callback list" where
  "data_cbs d = onAbandonedCallbacks d @ onDiscardCallbacks d @ onReadyCallbacks d
     @ onFailedCallbacks d @ onDiscardedCallbacks d @ onAnyCallbacks d"

definition data_fids :: "'a data \<Rightarrow> fid set" where
  "data_fids d = (\<Union>c\<in>set (data_cbs d). set (cb_fids c))
     \<union> (case fresult d of RSome v \<Rightarrow> set (val_fids v) | _ \<Rightarrow> {})"

definition store_wf :: "'a store \<Rightarrow> bool" where
  "store_wf s \<longleftrightarrow> (\<forall>f. data_ok (futs s f) \<and> data_fids (futs s f) \<subseteq> {..<next_fid s})
     \<and> (\<forall>l fn p f. timers s l = Some (fn, p, f) \<longrightarrow> p < next_fid s \<and> f < next_fid s)"

definition tasks_wf :: "'a store \<Rightarrow> 'a task list \<Rightarrow> bool" where
  "tasks_wf s ts \<longleftrightarrow> (\<forall>t\<in>set ts. set (task_fids t) \<subseteq> {..<next_fid s})"

text \<open>
  How the store may change: futures are only added, the latches only go up, a completed future keeps
  its state and result, and the association, once made, stays.
\<close>

definition evolves :: "'a store \<Rightarrow> 'a store \<Rightarrow> bool" where
  "evolves s s' \<longleftrightarrow> next_fid s \<le> next_fid s'
     \<and> (\<forall>f<next_fid s. \<not> isPending s f \<longrightarrow>
          fstate (futs s' f) = fstate (futs s f) \<and> fresult (futs s' f) = fresult (futs s f))
     \<and> (\<forall>f<next_fid s. fassociated (futs s f) \<longrightarrow> fassociated (futs s' f))"

text \<open>
  What is asked of client callables: they may allocate futures that have no callbacks yet, and leave
  calls to make; everything else they do goes through those calls.
\<close>

definition extends :: "'a store \<Rightarrow> 'a store \<Rightarrow> bool" where
  "extends s s' \<longleftrightarrow> next_fid s \<le> next_fid s'
     \<and> (\<forall>f. f < next_fid s \<or> next_fid s' \<le> f \<longrightarrow> futs s' f = futs s f)
     \<and> (\<forall>f. next_fid s \<le> f \<and> f < next_fid s' \<longrightarrow> futs s' f = new_data) \<and> latches s' = latches s
     \<and> next_latch s' = next_latch s \<and> timers s' = timers s \<and> timer_cell s' = timer_cell s
     \<and> log s' = log s \<and> aborted s' = aborted s"

definition user_ok :: "'a user \<Rightarrow> bool" where
  "user_ok u \<longleftrightarrow>
     (\<forall>fn a s s' ts g. fut_fn u fn a s = (s', ts, g) \<longrightarrow>
        extends s s' \<and> tasks_wf s' ts \<and> (\<forall>t\<in>set ts. user_task t) \<and> g < next_fid s') \<and>
     (\<forall>fn a s s' ts v. val_fn u fn a s = (s', ts, v) \<longrightarrow>
        extends s s' \<and> tasks_wf s' ts \<and> (\<forall>t\<in>set ts. user_task t)
        \<and> set (val_fids v) \<subseteq> {..<next_fid s'})"

lemma user_ok_fut:
  assumes "user_ok u"
  obtains s' ts g where "fut_fn u fn a s = (s', ts, g)" "extends s s'" "tasks_wf s' ts"
    "\<forall>t\<in>set ts. user_task t" "g < next_fid s'"
  using assms unfolding user_ok_def by (metis prod_cases3)

lemma user_ok_val:
  assumes "user_ok u"
  obtains s' ts v where "val_fn u fn a s = (s', ts, v)" "extends s s'" "tasks_wf s' ts"
    "\<forall>t\<in>set ts. user_task t" "set (val_fids v) \<subseteq> {..<next_fid s'}"
  using assms unfolding user_ok_def by (metis prod_cases3)

lemma client_call_user_task: "client_call t \<Longrightarrow> user_task t"
  by (cases t rule: client_call.cases) auto

section \<open>Rules for the store\<close>

lemmas store_defs = upd_def emit_def alloc_def isPending_def isReady_def isDiscarded_def
  isFailed_def hasDiscard_def

lemmas op_defs = fut_set_def fut_fail_def fut_discarded_def fut_discard_def fut_abandon_def
  run_any_def on_abandoned_def on_discard_def on_ready_def on_failed_def on_discarded_def on_any_def
  await_on_def promise_set_def promise_fail_def promise_discard_def promise_associate_def

lemmas internal_defs = internal_thenf_def internal_then_def internal_repair_def recover_any_def
  recover_abandoned_def latch_trigger_def internal_expired_def internal_after_def after_cancel_def
  internal_select_def internal_discard_def

lemmas make_defs = make_future_def make_promise_def make_ready_def make_failure_def make_failed_def
  make_latch_def future_thenf_def future_then_def future_recover_def future_repair_def
  future_after_def future_undiscardable_def future_select_def

lemma data_fids_new [simp]: "data_fids new_data = {}"
  by (simp add: data_fids_def data_cbs_def new_data_def)

lemma data_ok_new [simp]: "data_ok new_data"
  by (simp add: data_ok_def new_data_def)

lemma new_data_sel [simp]:
  "fstate new_data = PENDING" "\<not> fdiscard new_data" "\<not> fassociated new_data"
  "\<not> fabandoned new_data" "fresult new_data = RNone" "onAbandonedCallbacks new_data = []"
  "onDiscardCallbacks new_data = []" "onReadyCallbacks new_data = []"
  "onFailedCallbacks new_data = []" "onDiscardedCallbacks new_data = []"
  "onAnyCallbacks new_data = []"
  by (simp_all add: new_data_def)

lemma evolves_refl [simp]: "evolves s s"
  by (simp add: evolves_def)

lemma evolves_trans: "evolves s t \<Longrightarrow> evolves t r \<Longrightarrow> evolves s r"
  unfolding evolves_def isPending_def by (metis order_trans order_less_le_trans)

lemma extends_evolves: "extends s s' \<Longrightarrow> evolves s s'"
  by (simp add: extends_def evolves_def)

lemma evolves_same_futs:
  "futs s' = futs s \<Longrightarrow> next_fid s' = next_fid s \<Longrightarrow> evolves s s'"
  by (simp add: evolves_def)

lemma evolves_upd:
  assumes "futs s' = (futs s)(f := d)" and "next_fid s' = next_fid s"
    and "f < next_fid s \<Longrightarrow> \<not> isPending s f \<Longrightarrow>
      fstate d = fstate (futs s f) \<and> fresult d = fresult (futs s f)"
    and "fassociated (futs s f) \<Longrightarrow> fassociated d"
  shows "evolves s s'"
  using assms by (auto simp: evolves_def)

lemma evolves_alloc:
  assumes "futs s' = (futs s)(next_fid s := d)" and "next_fid s' = Suc (next_fid s)"
  shows "evolves s s'"
  using assms by (auto simp: evolves_def)

section \<open>Every action lets the store evolve\<close>

lemma invoke_evolves: "evolves s (fst (invoke c a s))"
  by (cases c; cases a)
     (auto simp: internal_defs emit_def intro!: evolves_same_futs split: prod.splits bool.splits)

lemma exec_evolves:
  assumes "user_ok u"
  shows "evolves s (fst (exec u t s))"
proof (cases t)
  case (Invoke c a)
  then show ?thesis by (simp add: invoke_evolves)
next
  case (CallAssociate fn a p)
  then show ?thesis
    by (rule_tac user_ok_fut [OF assms, of fn a s]) (simp add: extends_evolves)
next
  case (CallSet fn a p)
  then show ?thesis
    by (rule_tac user_ok_val [OF assms, of fn a s]) (simp add: extends_evolves)
qed (auto simp: op_defs internal_defs store_defs clearAllCallbacks_def evolves_def
      split: prod.splits bool.splits)

lemma make_evolves: "evolves s (fst (make k s))"
  by (cases k) (auto simp: make_defs store_defs evolves_def)

lemma make_latch_evolves: "evolves s (fst (make_latch s))"
  by (simp add: make_latch_def evolves_def)

section \<open>The store stays well formed\<close>

lemma tasks_wf_simps [simp]:
  "tasks_wf s []"
  "tasks_wf s (t # ts) \<longleftrightarrow> set (task_fids t) \<subseteq> {..<next_fid s} \<and> tasks_wf s ts"
  "tasks_wf s (ts @ ts') \<longleftrightarrow> tasks_wf s ts \<and> tasks_wf s ts'"
  by (auto simp: tasks_wf_def)

lemma tasks_wf_mono: "tasks_wf s ts \<Longrightarrow> next_fid s \<le> next_fid s' \<Longrightarrow> tasks_wf s' ts"
  by (fastforce simp: tasks_wf_def)

lemma tasks_wf_invokes:
  "set (arg_fids a) \<subseteq> {..<next_fid s} \<Longrightarrow> (\<Union>c\<in>set cs. set (cb_fids c)) \<subseteq> {..<next_fid s} \<Longrightarrow>
   tasks_wf s (map (\<lambda>c. Invoke c a) cs)"
  by (auto simp: tasks_wf_def)

lemma store_wf_upd:
  assumes "store_wf s" and "futs s' = (futs s)(f := d)" and "next_fid s' = next_fid s"
    and "timers s' = timers s" and "data_ok d" and "data_fids d \<subseteq> {..<next_fid s}"
  shows "store_wf s'"
  using assms by (auto simp: store_wf_def)

lemma store_wf_same:
  assumes "store_wf s" and "futs s' = futs s" and "next_fid s' = next_fid s"
    and "\<And>l x. timers s' l = Some x \<Longrightarrow> timers s l = Some x"
  shows "store_wf s'"
  using assms unfolding store_wf_def by metis

lemma store_wfI:
  assumes "\<And>f. data_ok (futs s f)" and "\<And>f x. x \<in> data_fids (futs s f) \<Longrightarrow> x < next_fid s"
    and "\<And>l fn p f. timers s l = Some (fn, p, f) \<Longrightarrow> p < next_fid s \<and> f < next_fid s"
  shows "store_wf s"
  using assms by (auto simp: store_wf_def)

lemma store_wfD:
  assumes "store_wf s"
  shows "data_ok (futs s f)" and "x \<in> data_fids (futs s f) \<Longrightarrow> x < next_fid s"
    and "timers s l = Some (fn, p, f') \<Longrightarrow> p < next_fid s \<and> f' < next_fid s"
  using assms by (auto simp: store_wf_def)

lemma store_wf_alloc:
  assumes "store_wf s" and "futs s' = (futs s)(next_fid s := d)" and "next_fid s' = Suc (next_fid s)"
    and "\<And>l fn p f. timers s' l = Some (fn, p, f) \<Longrightarrow>
      timers s l = Some (fn, p, f) \<or> p \<le> next_fid s \<and> f < next_fid s"
    and "data_ok d" and "data_fids d = {}"
  shows "store_wf s'"
proof (rule store_wfI)
  show "data_ok (futs s' f)" for f
    using assms store_wfD(1) [OF assms(1)] by simp
  show "x < next_fid s'" if "x \<in> data_fids (futs s' f)" for f x
    using assms that store_wfD(2) [OF assms(1), of x f] by (simp split: if_splits)
  show "p < next_fid s' \<and> f < next_fid s'" if "timers s' l = Some (fn, p, f)" for l fn p f
    using assms(3,4) that store_wfD(3) [OF assms(1), of l fn p f] by fastforce
qed

lemma store_wf_extends:
  assumes "store_wf s" and "extends s s'"
  shows "store_wf s'"
proof (rule store_wfI)
  have old: "futs s' f = futs s f \<or> futs s' f = new_data" for f
    using assms(2) unfolding extends_def by (metis linorder_not_less)
  have le: "next_fid s \<le> next_fid s'" and tm: "timers s' = timers s"
    using assms(2) by (simp_all add: extends_def)
  show "data_ok (futs s' f)" for f
    using old [of f] store_wfD(1) [OF assms(1), of f] by auto
  show "x < next_fid s'" if "x \<in> data_fids (futs s' f)" for f x
    using old [of f] that le store_wfD(2) [OF assms(1), of x f] by auto
  show "p < next_fid s' \<and> f < next_fid s'" if "timers s' l = Some (fn, p, f)" for l fn p f
    using that tm le store_wfD(3) [OF assms(1), of l fn p f] by auto
qed

lemma data_fids_subD:
  "store_wf s \<Longrightarrow> c \<in> set (data_cbs (futs s f)) \<Longrightarrow> x \<in> set (cb_fids c) \<Longrightarrow> x < next_fid s"
  by (fastforce simp: store_wf_def data_fids_def)

lemma result_value_fids: "store_wf s \<Longrightarrow> set (arg_fids (result_value s f)) \<subseteq> {..<next_fid s}"
  by (fastforce simp: store_wf_def result_value_def data_fids_def split: fresult.splits)

lemma invoke_wf:
  assumes "store_wf s" and "set (task_fids (Invoke c a)) \<subseteq> {..<next_fid s}"
  shows "store_wf (fst (invoke c a s)) \<and> tasks_wf (fst (invoke c a s)) (snd (invoke c a s))"
  using assms result_value_fids [OF assms(1)]
  by (cases c; cases a)
     (auto simp: internal_defs emit_def split: prod.splits bool.splits elim!: store_wf_same)


text \<open>Updates that keep a future's data well formed.\<close>

lemma store_wf_upd_sub:
  assumes "store_wf s" and "data_ok (g (futs s f))"
    and "\<And>x. x \<in> data_fids (g (futs s f)) \<Longrightarrow> x \<in> data_fids (futs s f) \<or> x < next_fid s"
  shows "store_wf (upd f g s)"
proof (rule store_wf_upd [OF assms(1)])
  show "futs (upd f g s) = (futs s)(f := g (futs s f))" by (simp add: upd_def)
  show "data_fids (g (futs s f)) \<subseteq> {..<next_fid s}"
    using assms(3) store_wfD(2) [OF assms(1), of _ f] by auto
qed (simp_all add: upd_def assms(2))

lemma upd_sel [simp]:
  "next_fid (upd f g s) = next_fid s" "futs (upd f g s) = (futs s)(f := g (futs s f))"
  "timers (upd f g s) = timers s" "latches (upd f g s) = latches s" "log (upd f g s) = log s"
  "aborted (upd f g s) = aborted s" "timer_cell (upd f g s) = timer_cell s"
  "next_latch (upd f g s) = next_latch s" "weak_gone (upd f g s) = weak_gone s"
  by (simp_all add: upd_def)

lemma emit_sel [simp]:
  "next_fid (emit e s) = next_fid s" "futs (emit e s) = futs s" "timers (emit e s) = timers s"
  "latches (emit e s) = latches s" "log (emit e s) = log s @ [e]" "aborted (emit e s) = aborted s"
  "timer_cell (emit e s) = timer_cell s" "next_latch (emit e s) = next_latch s"
  "weak_gone (emit e s) = weak_gone s"
  by (simp_all add: emit_def)

lemma store_wf_emit [simp]: "store_wf (emit e s) \<longleftrightarrow> store_wf s"
  by (simp add: store_wf_def)

lemma tasks_wf_emit [simp]: "tasks_wf (emit e s) ts \<longleftrightarrow> tasks_wf s ts"
  by (simp add: tasks_wf_def)

lemma tasks_wf_upd [simp]: "tasks_wf (upd f g s) ts \<longleftrightarrow> tasks_wf s ts"
  by (simp add: tasks_wf_def)

lemma complete_wf:
  assumes "store_wf s" and "f < next_fid s"
  shows "set (val_fids v) \<subseteq> {..<next_fid s} \<Longrightarrow>
      store_wf (fst (fut_set f v s)) \<and> tasks_wf (fst (fut_set f v s)) (snd (fut_set f v s))"
    and "store_wf (fst (fut_fail f m s)) \<and> tasks_wf (fst (fut_fail f m s)) (snd (fut_fail f m s))"
    and "store_wf (fst (fut_discarded f s))
      \<and> tasks_wf (fst (fut_discarded f s)) (snd (fut_discarded f s))"
  using assms store_wfD(1) [OF assms(1), of f] data_fids_subD [OF assms(1), of _ f]
  by (auto simp: fut_set_def fut_fail_def fut_discarded_def isPending_def data_ok_def data_fids_def
      data_cbs_def intro!: store_wf_upd_sub tasks_wf_invokes split: fresult.splits)

lemma discard_abandon_wf:
  assumes "store_wf s" and "f < next_fid s"
  shows "store_wf (fst (fut_discard f s)) \<and> tasks_wf (fst (fut_discard f s)) (snd (fut_discard f s))"
    and "store_wf (fst (fut_abandon f b s))
      \<and> tasks_wf (fst (fut_abandon f b s)) (snd (fut_abandon f b s))"
    and "store_wf (fst (run_any f s)) \<and> tasks_wf (fst (run_any f s)) (snd (run_any f s))"
  using assms store_wfD(1) [OF assms(1), of f] data_fids_subD [OF assms(1), of _ f]
  by (auto simp: fut_discard_def fut_abandon_def run_any_def isPending_def data_ok_def data_fids_def
      data_cbs_def intro!: store_wf_upd_sub tasks_wf_invokes split: fresult.splits)

lemma on_callback_wf:
  assumes "store_wf s" and "f < next_fid s" and "set (cb_fids c) \<subseteq> {..<next_fid s}"
  shows "store_wf (fst (on_abandoned f c s))
      \<and> tasks_wf (fst (on_abandoned f c s)) (snd (on_abandoned f c s))"
    and "store_wf (fst (on_discard f c s)) \<and> tasks_wf (fst (on_discard f c s)) (snd (on_discard f c s))"
    and "store_wf (fst (on_ready f c s)) \<and> tasks_wf (fst (on_ready f c s)) (snd (on_ready f c s))"
    and "store_wf (fst (on_failed f c s)) \<and> tasks_wf (fst (on_failed f c s)) (snd (on_failed f c s))"
    and "store_wf (fst (on_discarded f c s))
      \<and> tasks_wf (fst (on_discarded f c s)) (snd (on_discarded f c s))"
    and "store_wf (fst (on_any f c s)) \<and> tasks_wf (fst (on_any f c s)) (snd (on_any f c s))"
  using assms store_wfD(1) [OF assms(1), of f] result_value_fids [OF assms(1), of f]
  by (auto simp: on_abandoned_def on_discard_def on_ready_def on_failed_def on_discarded_def
      on_any_def data_ok_def data_fids_def data_cbs_def intro!: store_wf_upd_sub
      split: fresult.splits)

lemma await_on_wf:
  assumes "store_wf s" and "f < next_fid s"
  shows "store_wf (fst (await_on f l s)) \<and> tasks_wf (fst (await_on f l s)) (snd (await_on f l s))"
  using on_callback_wf(6) [OF assms, of "Awaited l"] assms by (auto simp: await_on_def on_any_def)

lemma promise_wf:
  assumes "store_wf s" and "f < next_fid s"
  shows "set (val_fids v) \<subseteq> {..<next_fid s} \<Longrightarrow>
      store_wf (fst (promise_set f v s)) \<and> tasks_wf (fst (promise_set f v s)) (snd (promise_set f v s))"
    and "store_wf (fst (promise_fail f m s))
      \<and> tasks_wf (fst (promise_fail f m s)) (snd (promise_fail f m s))"
    and "store_wf (fst (promise_discard f s))
      \<and> tasks_wf (fst (promise_discard f s)) (snd (promise_discard f s))"
    and "g < next_fid s \<Longrightarrow> store_wf (fst (promise_associate f g s))
      \<and> tasks_wf (fst (promise_associate f g s)) (snd (promise_associate f g s))"
  using assms store_wfD(1) [OF assms(1), of f]
  by (auto simp: promise_set_def promise_fail_def promise_discard_def promise_associate_def
      data_ok_def data_fids_def data_cbs_def intro!: store_wf_upd_sub split: fresult.splits)

lemma exec_wf:
  assumes "user_ok u" and "store_wf s" and "set (task_fids t) \<subseteq> {..<next_fid s}"
  shows "store_wf (fst (exec u t s)) \<and> tasks_wf (fst (exec u t s)) (snd (exec u t s))"
proof (cases t)
  case (Invoke c a)
  with assms show ?thesis using invoke_wf [of s c a] by simp
next
  case (CallAssociate fn a p)
  then show ?thesis
    using assms store_wf_extends [OF assms(2)]
    by (rule_tac user_ok_fut [OF assms(1), of fn a s]) (auto simp: extends_def)
next
  case (CallSet fn a p)
  then show ?thesis
    using assms store_wf_extends [OF assms(2)]
    by (rule_tac user_ok_val [OF assms(1), of fn a s]) (auto simp: extends_def)
next
  case (ClearAll f)
  then show ?thesis
    using assms store_wfD(1) [OF assms(2), of f]
    by (auto simp: clearAllCallbacks_def data_ok_def data_fids_def data_cbs_def
        intro!: store_wf_upd_sub split: fresult.splits)
next
  case (ResetDiscard f)
  then show ?thesis
    using assms store_wfD(1) [OF assms(2), of f]
    by (auto simp: data_ok_def data_fids_def data_cbs_def intro!: store_wf_upd_sub split: fresult.splits)
next
  case (Expired fn l p f)
  then show ?thesis
    using assms by (auto simp: internal_expired_def latch_trigger_def elim!: store_wf_same)
next
  case (AfterCancel l p f)
  then show ?thesis
    using assms by (auto simp: after_cancel_def split: if_splits elim!: store_wf_same)
qed (use assms in \<open>auto simp: complete_wf discard_abandon_wf on_callback_wf await_on_wf promise_wf\<close>)

lemma make_wf:
  assumes "store_wf s" and "set (mk_fids k) \<subseteq> {..<next_fid s}" and "make k s = (s', ts, f)"
  shows "store_wf s' \<and> tasks_wf s' ts \<and> f < next_fid s'"
proof -
  have "store_wf s'"
    using assms by (cases k)
      (auto simp: make_defs store_defs data_ok_def data_fids_def data_cbs_def new_data_def
        split: if_splits elim!: store_wf_alloc)
  moreover have "tasks_wf s' ts \<and> f < next_fid s'"
    using assms(2,3) by (cases k)
      (auto simp: make_defs store_defs tasks_wf_def less_Suc_eq subset_iff)
  ultimately show ?thesis by simp
qed

section \<open>Configurations\<close>

definition conf_wf :: "'a conf \<Rightarrow> bool" where
  "conf_wf c \<longleftrightarrow> store_wf (fst c) \<and> tasks_wf (fst c) (concat (snd c))"

lemma conf_wf_same:
  assumes "conf_wf (s, ths)" and "futs s' = futs s" and "next_fid s' = next_fid s"
    and "\<And>l x. timers s' l = Some x \<Longrightarrow> timers s l = Some x" and "tasks_wf s (concat ths')"
  shows "conf_wf (s', ths') \<and> evolves s s'"
  using assms store_wf_same [of s s'] evolves_same_futs [of s' s]
  by (simp add: conf_wf_def tasks_wf_def)

lemma fstep_wf_evolves:
  assumes "user_ok u" and "fstep u c c'" and "conf_wf c"
  shows "conf_wf c' \<and> evolves (fst c) (fst c')"
  using assms(2,3)
proof cases
  case (perform s t s' new A ts B)
  have "tasks_wf s (concat (A @ (t # ts) # B))" and s: "store_wf s"
    using assms(3) perform(1) by (simp_all add: conf_wf_def)
  then have t: "set (task_fids t) \<subseteq> {..<next_fid s}" and ts: "tasks_wf s (concat A @ ts @ concat B)"
    by simp_all
  have ev: "evolves s s'" using exec_evolves [OF assms(1), of s t] perform(4) by simp
  then have "tasks_wf s' (concat A @ ts @ concat B)"
    using tasks_wf_mono [OF ts] by (simp add: evolves_def)
  with exec_wf [OF assms(1) s t] perform ev show ?thesis by (simp add: conf_wf_def)
next
  case (call s t A ts B)
  then have "set (task_fids t) \<subseteq> {..<next_fid s}" by auto
  with call assms(3) show ?thesis by (simp add: conf_wf_def)
next
  case (create s k s' new f A ts B)
  have ev: "evolves s s'" using make_evolves [of s k] create(5) by simp
  have "set (mk_fids k) \<subseteq> {..<next_fid s}" using create(4) by auto
  with make_wf [OF _ this create(5)] have "store_wf s'" and "tasks_wf s' new"
    using assms(3) create(1) by (simp_all add: conf_wf_def)
  moreover have "tasks_wf s' (concat (A @ ts # B))"
    using assms(3) create(1) ev
    by (simp add: conf_wf_def evolves_def tasks_wf_mono [of s])
  ultimately show ?thesis using create(1,2) ev by (simp add: conf_wf_def)
next
  case (latch s s' l ths)
  then show ?thesis
    using assms(3) conf_wf_same [of s ths s' ths] by (auto simp: conf_wf_def make_latch_def)
next
  case (fire s l fn p f A ts B)
  have "p < next_fid s \<and> f < next_fid s" and "tasks_wf s (concat (A @ ts # B))"
    using assms(3) fire(1,4) store_wfD(3) [of s l fn p f] by (simp_all add: conf_wf_def)
  then have "conf_wf (s\<lparr>timers := (timers s)(l := None)\<rparr>, A @ (Expired fn l p f # ts) # B)
      \<and> evolves s (s\<lparr>timers := (timers s)(l := None)\<rparr>)"
    using assms(3) fire(1) by (intro conf_wf_same [of s "A @ ts # B"]) (auto split: if_splits)
  then show ?thesis using fire(1,2) by simp
next
  case (weak s ths f)
  then show ?thesis
    using assms(3) conf_wf_same [of s ths "s\<lparr>weak_gone := (weak_gone s)(f := True)\<rparr>" ths]
    by (simp add: conf_wf_def)
qed

lemma conf_wf_start: "conf_wf (empty_store, replicate n [])"
  by (simp add: conf_wf_def store_wf_def empty_store_def tasks_wf_def)

lemma freach_wf: "freach u c \<Longrightarrow> user_ok u \<Longrightarrow> conf_wf c"
  by (induction rule: freach.induct) (auto simp: conf_wf_start dest: fstep_wf_evolves)

lemma fsteps_evolves:
  assumes "user_ok u" and "(fstep u)\<^sup>*\<^sup>* c c'" and "conf_wf c"
  shows "conf_wf c' \<and> evolves (fst c) (fst c')"
  using assms(2,3)
proof (induction rule: rtranclp_induct)
  case base
  then show ?case by simp
next
  case (step y z)
  then show ?case using fstep_wf_evolves [OF assms(1)] evolves_trans by blast
qed

end
