(* ===== verification/Future_Reach.thy ===== *)
theory Future_Reach
  imports Future_Invariants
begin

text \<open>
  Invariants of all reachable configurations. The locale \<open>conf_invariant\<close> is the contract a
  predicate on a store and the multiset of outstanding tasks has to meet; its lemma \<open>reach\<close> carries
  the predicate to every reachable configuration. Each interpretation below is one invariant.
\<close>

section \<open>The contract of an invariant\<close>

definition mset_wf :: "'a store \<Rightarrow> 'a task multiset \<Rightarrow> bool" where
  "mset_wf s M \<longleftrightarrow> (\<forall>t\<in>#M. set (task_fids t) \<subseteq> {..<next_fid s})"

lemma mset_wf_mset [simp]: "mset_wf s (mset ts) = tasks_wf s ts"
  by (simp add: mset_wf_def tasks_wf_def)

lemma mset_wf_add [simp]:
  "mset_wf s (add_mset t M) \<longleftrightarrow> set (task_fids t) \<subseteq> {..<next_fid s} \<and> mset_wf s M"
  by (simp add: mset_wf_def)

locale conf_invariant =
  fixes u :: "'a user" and I :: "'a store \<Rightarrow> 'a task multiset \<Rightarrow> bool"
  assumes start: "I empty_store {#}"
    and perform: "user_ok u \<Longrightarrow> store_wf s \<Longrightarrow> mset_wf s (add_mset t M) \<Longrightarrow> aborted s = None \<Longrightarrow>
      I s (add_mset t M) \<Longrightarrow> exec u t s = (s', new) \<Longrightarrow> I s' (mset new + M)"
    and call: "I s M \<Longrightarrow> client_call t \<Longrightarrow> I s (add_mset t M)"
    and create: "store_wf s \<Longrightarrow> mset_wf s M \<Longrightarrow> I s M \<Longrightarrow> make k s = (s', new, f) \<Longrightarrow>
      I s' (mset new + M)"
    and latch: "I s M \<Longrightarrow> make_latch s = (s', l) \<Longrightarrow> I s' M"
    and fire: "I s M \<Longrightarrow> timers s l = Some (fn, p, f) \<Longrightarrow>
      I (s\<lparr>timers := (timers s)(l := None)\<rparr>) (add_mset (Expired fn l p f) M)"
    and weak: "I s M \<Longrightarrow> I (s\<lparr>weak_gone := (weak_gone s)(g := True)\<rparr>) M"
begin

lemma step_keeps:
  assumes "user_ok u" and "fstep u c c'" and "conf_wf c" and "I (fst c) (mset (concat (snd c)))"
  shows "I (fst c') (mset (concat (snd c')))"
  using assms(2)
proof cases
  case (perform s t s' new A ts B)
  let ?M = "mset (concat A @ ts @ concat B)"
  have "mset_wf s (add_mset t ?M)" and "store_wf s"
    using assms(3) perform(1) by (simp_all add: conf_wf_def mset_wf_def tasks_wf_def ball_Un)
  moreover have "I s (add_mset t ?M)" using assms(4) perform(1) by (simp add: ac_simps)
  ultimately have "I s' (mset new + ?M)"
    using perform assms(1) conf_invariant.perform [OF conf_invariant_axioms] by blast
  then show ?thesis using perform(2) by (simp add: ac_simps)
next
  case (call s t A ts B)
  then show ?thesis using assms(4) conf_invariant.call [OF conf_invariant_axioms] by simp
next
  case (create s k s' new f A ts B)
  then show ?thesis
    using assms(3,4) conf_invariant.create [OF conf_invariant_axioms, of s
        "mset (concat (A @ ts # B))" k s' new f]
    by (simp add: conf_wf_def ac_simps mset_wf_def tasks_wf_def ball_Un)
next
  case (latch s s' l ths)
  then show ?thesis using assms(4) conf_invariant.latch [OF conf_invariant_axioms] by simp
next
  case (fire s l fn p f A ts B)
  then show ?thesis using assms(4) conf_invariant.fire [OF conf_invariant_axioms] by simp
next
  case (weak s ths f)
  then show ?thesis using assms(4) conf_invariant.weak [OF conf_invariant_axioms] by simp
qed

lemma reach:
  assumes "user_ok u" and "freach u (s, ths)"
  shows "I s (mset (concat ths))"
proof -
  have "I (fst c) (mset (concat (snd c)))" if "freach u c" for c
    using that
  proof (induction rule: freach.induct)
    case (start n)
    then show ?case using conf_invariant.start [OF conf_invariant_axioms] by simp
  next
    case (step c c')
    then show ?case using step_keeps [OF assms(1)] freach_wf [OF _ assms(1)] by blast
  qed
  from this [OF assms(2)] show ?thesis by simp
qed

end

section \<open>Exactly one completion\<close>

fun completes :: "fid \<Rightarrow> 'a event \<Rightarrow> bool" where
  "completes f (Returned op g b) =
     (g = f \<and> b \<and> (op = OpSet \<or> op = OpFail \<or> op = OpDiscarded))"
| "completes f _ = False"

definition completions :: "'a store \<Rightarrow> fid \<Rightarrow> nat" where
  "completions s f = length (filter (completes f) (log s))"

definition once_inv :: "'a store \<Rightarrow> bool" where
  "once_inv s \<longleftrightarrow> (\<forall>f. completions s f = (if isPending s f then 0 else 1))
     \<and> (\<forall>f\<ge>next_fid s. isPending s f)"

lemma completions_emit [simp]:
  "completions (emit e s) f = completions s f + (if completes f e then 1 else 0)"
  by (simp add: completions_def)

lemma completions_upd [simp]: "completions (upd g h s) f = completions s f"
  by (simp add: completions_def)

lemma isPending_emit [simp]: "isPending (emit e s) f = isPending s f"
  by (simp add: isPending_def)

lemma isPending_upd [simp]:
  "isPending (upd g h s) f = (if f = g then fstate (h (futs s f)) = PENDING else isPending s f)"
  by (simp add: isPending_def)

lemma once_inv_same:
  assumes "once_inv s" and "futs s' = futs s" and "next_fid s' = next_fid s"
    and "\<And>f. completions s' f = completions s f"
  shows "once_inv s'"
  using assms by (simp add: once_inv_def isPending_def)

lemma once_inv_alloc:
  assumes "once_inv s" and "futs s' = (futs s)(next_fid s := d)" and "next_fid s' = Suc (next_fid s)"
    and "log s' = log s" and "fstate d = PENDING"
  shows "once_inv s'"
proof -
  have "isPending s' f = isPending s f" for f
    using assms by (auto simp: once_inv_def isPending_def)
  then show ?thesis using assms by (simp add: once_inv_def completions_def)
qed

lemma once_inv_extends: "once_inv s \<Longrightarrow> extends s s' \<Longrightarrow> once_inv s'"
  unfolding once_inv_def extends_def completions_def isPending_def
  by (metis linorder_not_le new_data_sel(1) order_trans)

lemma once_inv_invoke: "once_inv s \<Longrightarrow> once_inv (fst (invoke c a s))"
  by (cases c; cases a)
     (auto simp: internal_defs completions_def elim!: once_inv_same split: prod.splits bool.splits)

lemma once_inv_exec:
  assumes "user_ok u" and "once_inv s" and "set (task_fids t) \<subseteq> {..<next_fid s}"
  shows "once_inv (fst (exec u t s))"
proof (cases t)
  case (Invoke c a)
  then show ?thesis using assms by (simp add: once_inv_invoke)
next
  case (CallAssociate fn a p)
  then show ?thesis
    using once_inv_extends [OF assms(2)] by (rule_tac user_ok_fut [OF assms(1), of fn a s]) simp
next
  case (CallSet fn a p)
  then show ?thesis
    using once_inv_extends [OF assms(2)] by (rule_tac user_ok_val [OF assms(1), of fn a s]) simp
next
  case (Expired fn l p f)
  then show ?thesis
    using assms(2) by (auto simp: internal_defs completions_def elim!: once_inv_same)
next
  case (AfterCancel l p f)
  then show ?thesis
    using assms(2) by (auto simp: internal_defs completions_def elim!: once_inv_same)
qed (use assms in \<open>auto simp: op_defs once_inv_def clearAllCallbacks_def isPending_def [of s]\<close>)

lemma once_inv_make: "once_inv s \<Longrightarrow> make k s = (s', ts, f) \<Longrightarrow> once_inv s'"
  by (cases k) (auto simp: make_defs alloc_def upd_def elim!: once_inv_alloc)

interpretation once: conf_invariant u "\<lambda>s M. once_inv s" for u :: "'a user"
proof unfold_locales
  show "once_inv empty_store"
    by (simp add: once_inv_def empty_store_def completions_def isPending_def)
next
  fix s s' :: "'a store" and t new M
  assume "user_ok u" "mset_wf s (add_mset t M)" "once_inv s" "exec u t s = (s', new)"
  then show "once_inv s'" using once_inv_exec [of u s t] by simp
next
  fix s s' :: "'a store" and k new f M
  assume "once_inv s" "make k s = (s', new, f)"
  then show "once_inv s'" using once_inv_make [of s k s' new f] by simp
qed (auto simp: completions_def make_latch_def elim!: once_inv_same)

section \<open>The checks of \<open>repair\<close> and \<open>after\<close> never fail\<close>

fun task_cbs :: "'a task \<Rightarrow> callback list" where
  "task_cbs (Invoke c a) = [c]"
| "task_cbs (OnAbandoned f c) = [c]"
| "task_cbs (OnDiscard f c) = [c]"
| "task_cbs (OnReady f c) = [c]"
| "task_cbs (OnFailed f c) = [c]"
| "task_cbs (OnDiscarded f c) = [c]"
| "task_cbs (OnAny f c) = [c]"
| "task_cbs _ = []"

definition cb_occurs :: "'a store \<Rightarrow> 'a task multiset \<Rightarrow> callback \<Rightarrow> bool" where
  "cb_occurs s M c \<longleftrightarrow> (\<exists>f. c \<in> set (data_cbs (futs s f))) \<or> (\<exists>t\<in>#M. c \<in> set (task_cbs t))"

lemma user_task_cbs: "user_task t \<Longrightarrow> c \<in> set (task_cbs t) \<Longrightarrow> \<not> is_after c"
  by (cases t) auto

lemma invoke_cbs:
  "\<forall>t\<in>set (snd (invoke c a s)). \<forall>c'\<in>set (task_cbs t). \<not> is_after c'"
  "futs (fst (invoke c a s)) = futs s"
  by (cases c; cases a; auto simp: internal_defs split: prod.splits bool.splits)+

lemma data_cbs_sub:
  assumes "futs s' = (futs s)(f := d)" and "set (data_cbs d) \<subseteq> set (data_cbs (futs s f)) \<union> set cs"
    and "c \<in> set (data_cbs (futs s' g))"
  shows "(\<exists>f. c \<in> set (data_cbs (futs s f))) \<or> c \<in> set cs"
  using assms by (auto split: if_splits)

lemma exec_cbs:
  assumes "user_ok u" and "is_after c" and "cb_occurs (fst (exec u t s)) (mset (snd (exec u t s)) + M) c"
  shows "cb_occurs s (add_mset t M) c"
proof (cases t)
  case (Invoke c' a)
  then show ?thesis
    using assms(2,3) invoke_cbs [of c' a s] by (auto simp: cb_occurs_def)
next
  case (CallAssociate fn a p)
  obtain s' ts g where e: "fut_fn u fn a s = (s', ts, g)" "extends s s'" "\<forall>t\<in>set ts. user_task t"
    by (rule user_ok_fut [OF assms(1)])
  then have "c \<in> set (data_cbs (futs s' f)) \<Longrightarrow> c \<in> set (data_cbs (futs s f))" for f
    unfolding extends_def
    by (cases "next_fid s \<le> f \<and> f < next_fid s'") (auto simp: data_cbs_def not_le)
  then show ?thesis
    using e CallAssociate assms(2,3) user_task_cbs by (fastforce simp: cb_occurs_def)
next
  case (CallSet fn a p)
  obtain s' ts v where e: "val_fn u fn a s = (s', ts, v)" "extends s s'" "\<forall>t\<in>set ts. user_task t"
    by (rule user_ok_val [OF assms(1)])
  then have "c \<in> set (data_cbs (futs s' f)) \<Longrightarrow> c \<in> set (data_cbs (futs s f))" for f
    unfolding extends_def
    by (cases "next_fid s \<le> f \<and> f < next_fid s'") (auto simp: data_cbs_def not_le)
  then show ?thesis
    using e CallSet assms(2,3) user_task_cbs by (fastforce simp: cb_occurs_def)
qed (use assms(2,3) in \<open>auto simp: op_defs internal_expired_def after_cancel_def latch_trigger_def
    cb_occurs_def data_cbs_def clearAllCallbacks_def split: if_splits\<close>)

end
