(* ===== verification/Future_Checks.thy ===== *)
theory Future_Checks
  imports Future_Reach
begin

text \<open>
  The \<^verbatim>\<open>CHECK\<close>s of \<^verbatim>\<open>internal::repair\<close> and \<^verbatim>\<open>internal::after\<close> hold in every reachable configuration: a
  callback that takes a future is only invoked once that future has completed, and the one thread
  that wins the latch of an \<^verbatim>\<open>after\<close> finds the timer still set.
\<close>

fun is_cancel :: "latch_id \<Rightarrow> 'a task \<Rightarrow> bool" where
  "is_cancel l (AfterCancel l' p f) = (l' = l)"
| "is_cancel l _ = False"

fun task_ready :: "'a store \<Rightarrow> 'a task \<Rightarrow> bool" where
  "task_ready s (Invoke c (AFuture f)) = (\<not> isPending s f)"
| "task_ready s (RunAny f) = (\<not> isPending s f)"
| "task_ready s (ClearAll f) = (\<not> isPending s f)"
| "task_ready s (AfterCancel l p f) = (\<not> isPending s f \<and> l < next_latch s \<and> latches s l \<and> timer_cell s l)"
| "task_ready s _ = True"

definition cancels :: "latch_id \<Rightarrow> 'a task multiset \<Rightarrow> nat" where
  "cancels l M = size (filter_mset (is_cancel l) M)"

lemma cancels_simps [simp]:
  "cancels l {#} = 0" "cancels l (add_mset t M) = (if is_cancel l t then 1 else 0) + cancels l M"
  "cancels l (M + N) = cancels l M + cancels l N"
  by (simp_all add: cancels_def)

lemma cancels_0: "cancels l M = 0 \<longleftrightarrow> (\<forall>t\<in>#M. \<not> is_cancel l t)"
  by (induction M) auto

definition checks_inv :: "'a store \<Rightarrow> 'a task multiset \<Rightarrow> bool" where
  "checks_inv s M \<longleftrightarrow> (aborted s = None \<or> aborted s = Some AssertSelectFailed)
     \<and> (\<forall>t\<in>#M. task_ready s t)
     \<and> (\<forall>l. cancels l M \<le> 1)
     \<and> (\<forall>l p. cb_occurs s M (After l p) \<longrightarrow> l < next_latch s \<and> (latches s l \<or> timer_cell s l))"

text \<open>Latches only go up, and a timer cell is emptied only together with its latch or by the
  one task that cancels the timer.\<close>

definition latch_grows :: "'a store \<Rightarrow> 'a store \<Rightarrow> bool" where
  "latch_grows s s' \<longleftrightarrow> next_latch s \<le> next_latch s' \<and>
     (\<forall>l<next_latch s. (latches s l \<longrightarrow> latches s' l) \<and> (timer_cell s l \<longrightarrow> timer_cell s' l \<or> latches s' l))"

lemma invoke_latch: "latch_grows s (fst (invoke c a s)) \<and> timer_cell (fst (invoke c a s)) = timer_cell s
    \<and> next_latch (fst (invoke c a s)) = next_latch s"
  by (cases c; cases a) (auto simp: internal_defs latch_grows_def split: prod.splits bool.splits)

lemma exec_latch:
  assumes "user_ok u" and "task_ready s t"
  shows "latch_grows s (fst (exec u t s))"
proof (cases t)
  case (Invoke c a)
  then show ?thesis by (simp add: invoke_latch)
next
  case (CallAssociate fn a p)
  then show ?thesis
    by (rule_tac user_ok_fut [OF assms(1), of fn a s]) (simp add: extends_def latch_grows_def)
next
  case (CallSet fn a p)
  then show ?thesis
    by (rule_tac user_ok_val [OF assms(1), of fn a s]) (simp add: extends_def latch_grows_def)
qed (use assms(2) in \<open>auto simp: op_defs internal_expired_def after_cancel_def latch_trigger_def
    latch_grows_def\<close>)

lemma invoke_ready:
  assumes "task_ready s (Invoke c a)" and "\<And>l p. c = After l p \<Longrightarrow> l < next_latch s \<and> (latches s l \<or> timer_cell s l)"
  shows "\<forall>t\<in>set (snd (invoke c a s)). task_ready (fst (invoke c a s)) t"
    and "aborted (fst (invoke c a s)) = aborted s \<or> aborted (fst (invoke c a s)) = Some AssertSelectFailed"
    and "cancels l (mset (snd (invoke c a s))) \<le> (if latches s l then 0 else 1)"
    and "is_cancel l t \<Longrightarrow> t \<in> set (snd (invoke c a s)) \<Longrightarrow> \<not> latches s l"
  using assms
  by (cases c; cases a; force simp: internal_defs isPending_def split: prod.splits bool.splits if_splits)+

lemma exec_cell:
  assumes "user_ok u" and "\<not> is_cancel l t" and "latches s l"
  shows "timer_cell (fst (exec u t s)) l = timer_cell s l"
proof (cases t)
  case (Invoke c a)
  then show ?thesis by (simp add: invoke_latch)
next
  case (CallAssociate fn a p)
  then show ?thesis by (rule_tac user_ok_fut [OF assms(1), of fn a s]) (simp add: extends_def)
next
  case (CallSet fn a p)
  then show ?thesis by (rule_tac user_ok_val [OF assms(1), of fn a s]) (simp add: extends_def)
qed (use assms(2,3) in \<open>auto simp: op_defs internal_expired_def after_cancel_def latch_trigger_def\<close>)

lemma user_task_ready: "user_task t \<Longrightarrow> task_ready s t \<and> \<not> is_cancel l t"
  by (cases t) auto

lemma exec_ready:
  assumes "user_ok u" and "task_ready s t" and "\<And>c a. t \<noteq> Invoke c a"
  shows "(\<forall>t'\<in>set (snd (exec u t s)). task_ready (fst (exec u t s)) t' \<and> \<not> is_cancel l t')
      \<and> aborted (fst (exec u t s)) = aborted s"
proof (cases t)
  case (CallAssociate fn a p)
  then show ?thesis
    using user_task_ready
    by (rule_tac user_ok_fut [OF assms(1), of fn a s]) (auto simp: extends_def)
next
  case (CallSet fn a p)
  then show ?thesis
    using user_task_ready
    by (rule_tac user_ok_val [OF assms(1), of fn a s]) (auto simp: extends_def)
qed (use assms(2,3) in \<open>auto simp: op_defs internal_expired_def after_cancel_def latch_trigger_def
   isPending_def isReady_def isFailed_def isDiscarded_def result_value_def split: fresult.split\<close>)

lemma task_ready_mono:
  assumes "task_ready s t" and "evolves s s'" and "latch_grows s s'" and "set (task_fids t) \<subseteq> {..<next_fid s}"
    and "\<And>l. is_cancel l t \<Longrightarrow> timer_cell s' l"
  shows "task_ready s' t"
  using assms
  by (cases "(s, t)" rule: task_ready.cases) (auto simp: evolves_def latch_grows_def isPending_def)

lemma count_cancel_exec:
  assumes "user_ok u" and "checks_inv s (add_mset t M)" and "exec u t s = (s', new)"
  shows "cancels l (mset new + M) \<le> 1"
proof (cases "\<exists>c a. t = Invoke c a")
  case True
  then obtain c a where t: "t = Invoke c a" by blast
  have le: "cancels l M \<le> 1"
    using assms(2) t by (simp add: checks_inv_def)
  have none: "cancels l M = 0" if "\<not> latches s l"
  proof -
    have "\<not> is_cancel l m" if "m \<in># M" for m
      using that \<open>\<not> latches s l\<close> assms(2) by (cases m) (auto simp: checks_inv_def)
    then show ?thesis by (simp add: cancels_0)
  qed
  have "cancels l (mset new) \<le> (if latches s l then 0 else 1)"
    using invoke_ready(3) [of s c a l] assms(2,3) t by (fastforce simp: checks_inv_def cb_occurs_def)
  with le none show ?thesis by (cases "latches s l") simp_all
next
  case False
  then have "cancels l (mset new) = 0"
    using exec_ready [OF assms(1), of s t l] assms(2,3) by (simp add: checks_inv_def cancels_0)
  then show ?thesis
    using assms(2) by (auto simp: checks_inv_def split: if_splits dest!: spec [of _ l])
qed

lemma checks_inv_exec:
  assumes "user_ok u" and "mset_wf s (add_mset t M)" and "aborted s = None"
    and "checks_inv s (add_mset t M)" and "exec u t s = (s', new)"
  shows "checks_inv s' (mset new + M)"
proof -
  have t: "task_ready s t" and M: "m \<in># M \<Longrightarrow> task_ready s m" for m
    using assms(4) by (auto simp: checks_inv_def)
  have ev: "evolves s s'" using exec_evolves [OF assms(1), of s t] assms(5) by simp
  have lg: "latch_grows s s'" using exec_latch [OF assms(1) t] assms(5) by simp
  have after: "c = After l p \<Longrightarrow> t = Invoke c a \<Longrightarrow> l < next_latch s \<and> (latches s l \<or> timer_cell s l)"
    for c a l p
    using assms(4) by (auto simp: checks_inv_def cb_occurs_def)
  have "(aborted s' = None \<or> aborted s' = Some AssertSelectFailed) \<and> (\<forall>t'\<in>set new. task_ready s' t')"
  proof (cases "\<exists>c a. t = Invoke c a")
    case True
    then obtain c a where "t = Invoke c a" by blast
    then show ?thesis using invoke_ready(1,2) [of s c a] after t assms(3,5) by force
  next
    case False
    then show ?thesis using exec_ready [OF assms(1) t] assms(3,5) by simp
  qed
  moreover have "task_ready s' m" if "m \<in># M" for m
  proof (rule task_ready_mono [OF M [OF that] ev lg])
    show "set (task_fids m) \<subseteq> {..<next_fid s}" using assms(2) that by (simp add: mset_wf_def)
    fix l assume l: "is_cancel l m"
    then have r: "latches s l" "timer_cell s l" using M [OF that] by (cases m; simp)+
    have "cancels l (add_mset t M) \<le> 1"
      using assms(4) unfolding checks_inv_def by blast
    moreover have "cancels l M \<noteq> 0" using l that by (auto simp: cancels_0)
    ultimately have "\<not> is_cancel l t" by (auto split: if_splits)
    from exec_cell [OF assms(1) this r(1)] r(2) assms(5) show "timer_cell s' l" by simp
  qed
  moreover have "l < next_latch s' \<and> (latches s' l \<or> timer_cell s' l)"
    if "cb_occurs s' (mset new + M) (After l p)" for l p
  proof -
    have "cb_occurs s (add_mset t M) (After l p)"
      using exec_cbs [OF assms(1), of "After l p" t s M] that assms(5) by simp
    then have "l < next_latch s \<and> (latches s l \<or> timer_cell s l)"
      using assms(4) unfolding checks_inv_def by blast
    then show ?thesis using lg by (auto simp: latch_grows_def)
  qed
  ultimately show ?thesis
    using count_cancel_exec [OF assms(1,4,5)] unfolding checks_inv_def
    by (simp add: ball_Un)
qed

lemma make_checks:
  assumes "make k s = (s', new, f)"
  shows "latch_grows s s'" and "\<forall>t\<in>set new. task_ready s' t \<and> \<not> is_cancel l t"
    and "aborted s' = aborted s" and "l < next_latch s \<Longrightarrow> timer_cell s' l = timer_cell s l"
    and "cb_occurs s' (mset new + M) (After l p) \<Longrightarrow>
      cb_occurs s M (After l p) \<or> (l = next_latch s \<and> next_latch s' = Suc l \<and> timer_cell s' l)"
  using assms
  by (cases k; auto simp: make_defs alloc_def upd_def latch_grows_def cb_occurs_def data_cbs_def
      split: if_splits)+

lemma checks_inv_make:
  assumes "mset_wf s M" and "checks_inv s M" and "make k s = (s', new, f)"
  shows "checks_inv s' (mset new + M)"
proof -
  note mk = make_checks [OF assms(3)]
  have ev: "evolves s s'" using make_evolves [of s k] assms(3) by simp
  have "task_ready s' m" if "m \<in># M" for m
  proof (rule task_ready_mono [OF _ ev mk(1)])
    show m: "task_ready s m" using assms(2) that by (simp add: checks_inv_def)
    show "set (task_fids m) \<subseteq> {..<next_fid s}" using assms(1) that by (simp add: mset_wf_def)
    show "timer_cell s' l" if "is_cancel l m" for l using m that mk(4) [of l] by (cases m) auto
  qed
  moreover have "cancels l (mset new) = 0" for l using mk(2) by (simp add: cancels_0)
  moreover have "l < next_latch s' \<and> (latches s' l \<or> timer_cell s' l)"
    if "cb_occurs s' (mset new + M) (After l p)" for l p
    using mk(5) [OF that]
  proof
    assume "cb_occurs s M (After l p)"
    then have "l < next_latch s \<and> (latches s l \<or> timer_cell s l)"
      using assms(2) unfolding checks_inv_def by blast
    then show ?thesis using mk(1) by (auto simp: latch_grows_def)
  qed auto
  ultimately show ?thesis using assms(2) mk(2,3) unfolding checks_inv_def by (simp add: ball_Un)
qed

lemma checks_inv_same:
  assumes "checks_inv s M" and "futs s' = futs s" and "aborted s' = aborted s"
    and "next_latch s \<le> next_latch s'" and "timer_cell s' = timer_cell s"
    and "\<And>l. l < next_latch s \<Longrightarrow> latches s' l = latches s l"
  shows "checks_inv s' M"
proof -
  have "task_ready s' t" if "task_ready s t" for t
    using that assms by (cases "(s, t)" rule: task_ready.cases) (auto simp: isPending_def)
  then show ?thesis
    using assms unfolding checks_inv_def cb_occurs_def by (metis order_less_le_trans)
qed

interpretation checks: conf_invariant u checks_inv for u :: "'a user"
proof unfold_locales
  show "checks_inv (empty_store :: 'a store) {#}"
    by (simp add: checks_inv_def empty_store_def cb_occurs_def data_cbs_def)
next
  fix s s' :: "'a store" and t M new
  assume "user_ok u" "mset_wf s (add_mset t M)" "aborted s = None" "checks_inv s (add_mset t M)"
    "exec u t s = (s', new)"
  then show "checks_inv s' (mset new + M)" by (rule checks_inv_exec)
next
  fix s :: "'a store" and M and t :: "'a task"
  assume "checks_inv s M" "client_call t"
  then show "checks_inv s (add_mset t M)"
    using user_task_ready [of t s] user_task_cbs [of t] client_call_user_task [of t]
    by (fastforce simp: checks_inv_def cb_occurs_def)
next
  fix s s' :: "'a store" and M k new f
  assume "mset_wf s M" "checks_inv s M" "make k s = (s', new, f)"
  then show "checks_inv s' (mset new + M)" by (rule checks_inv_make)
next
  fix s s' :: "'a store" and M l
  assume "checks_inv s M" "make_latch s = (s', l)"
  then show "checks_inv s' M" by (auto simp: make_latch_def elim!: checks_inv_same)
next
  fix s :: "'a store" and M l fn p f
  assume a: "checks_inv s M"
  then have "checks_inv (s\<lparr>timers := (timers s)(l := None)\<rparr>) M" by (auto elim!: checks_inv_same)
  then show "checks_inv (s\<lparr>timers := (timers s)(l := None)\<rparr>) (add_mset (Expired fn l p f) M)"
    by (simp add: checks_inv_def cb_occurs_def)
next
  fix s :: "'a store" and M g
  assume "checks_inv s M"
  then show "checks_inv (s\<lparr>weak_gone := (weak_gone s)(g := True)\<rparr>) M" by (auto elim!: checks_inv_same)
qed

end
