(* ===== verification/Future_Association.thy ===== *)
theory Future_Association
  imports Future_Checks
begin

text \<open>
  \<^verbatim>\<open>Promise::associate\<close> under every interleaving: what the code still owes to an associated future is
  always present as a callback or a task, so no completion is lost.
\<close>

definition owes_set :: "'a store \<Rightarrow> 'a task multiset \<Rightarrow> fid \<Rightarrow> fid \<Rightarrow> bool" where
  "owes_set s M f g \<longleftrightarrow> \<not> isPending s f \<or> OnReady g (FutureSet f) \<in># M
     \<or> isPending s g \<and> FutureSet f \<in> set (onReadyCallbacks (futs s g))
     \<or> (\<exists>v. Invoke (FutureSet f) (AValue v) \<in># M \<or> Set f v \<in># M) \<or> isFailed s g \<or> isDiscarded s g"

definition owes_fail :: "'a store \<Rightarrow> 'a task multiset \<Rightarrow> fid \<Rightarrow> fid \<Rightarrow> bool" where
  "owes_fail s M f g \<longleftrightarrow> \<not> isPending s f \<or> OnFailed g (FutureFail f) \<in># M
     \<or> isPending s g \<and> FutureFail f \<in> set (onFailedCallbacks (futs s g))
     \<or> (\<exists>m. Invoke (FutureFail f) (AMessage m) \<in># M \<or> Fail f m \<in># M) \<or> isReady s g \<or> isDiscarded s g"

definition owes_discarded :: "'a store \<Rightarrow> 'a task multiset \<Rightarrow> fid \<Rightarrow> fid \<Rightarrow> bool" where
  "owes_discarded s M f g \<longleftrightarrow> \<not> isPending s f \<or> OnDiscarded g (InternalDiscarded f) \<in># M
     \<or> isPending s g \<and> InternalDiscarded f \<in> set (onDiscardedCallbacks (futs s g))
     \<or> (\<exists>a. Invoke (InternalDiscarded f) a \<in># M) \<or> Discarded f \<in># M \<or> isReady s g \<or> isFailed s g"

definition owes :: "'a store \<Rightarrow> 'a task multiset \<Rightarrow> fid \<Rightarrow> fid \<Rightarrow> bool" where
  "owes s M f g \<longleftrightarrow> owes_set s M f g \<and> owes_fail s M f g \<and> owes_discarded s M f g"

lemmas state_defs = isPending_def isReady_def isFailed_def isDiscarded_def

lemma ready_value: "store_wf s \<Longrightarrow> isReady s f \<Longrightarrow> \<exists>v. result_value s f = AValue v"
  using store_wfD(1) [of s f]
  by (auto simp: data_ok_def isReady_def result_value_def split: fresult.splits)

lemma owes_same:
  assumes "owes s M f g" and "futs s' f = futs s f" and "futs s' g = futs s g" and "M \<subseteq># M'"
  shows "owes s' M' f g"
  using assms mset_subset_eqD [OF assms(4)]
  by (auto simp: owes_def owes_set_def owes_fail_def owes_discarded_def state_defs)

text \<open>Callbacks stay registered while the future is pending; its completion hands them over.\<close>

lemma exec_keeps_cbs:
  assumes "user_ok u" and "task_ready s t" and "g < next_fid s" and "isPending (fst (exec u t s)) g"
  shows "set (onReadyCallbacks (futs s g)) \<subseteq> set (onReadyCallbacks (futs (fst (exec u t s)) g))
    \<and> set (onFailedCallbacks (futs s g)) \<subseteq> set (onFailedCallbacks (futs (fst (exec u t s)) g))
    \<and> set (onDiscardedCallbacks (futs s g)) \<subseteq> set (onDiscardedCallbacks (futs (fst (exec u t s)) g))"
proof (cases t)
  case (Invoke c a)
  then show ?thesis using invoke_cbs(2) [of c a s] by simp
next
  case (CallAssociate fn a p)
  then show ?thesis
    using assms(3) by (rule_tac user_ok_fut [OF assms(1), of fn a s]) (simp add: extends_def)
next
  case (CallSet fn a p)
  then show ?thesis
    using assms(3) by (rule_tac user_ok_val [OF assms(1), of fn a s]) (simp add: extends_def)
qed (use assms(2,4) in \<open>auto simp: op_defs internal_expired_def after_cancel_def latch_trigger_def
    clearAllCallbacks_def isPending_def split: if_splits\<close>)

lemma exec_state:
  assumes "user_ok u" and "g < next_fid s"
    and "fstate (futs (fst (exec u t s)) g) \<noteq> fstate (futs s g)"
  shows "(\<exists>v. t = Set g v) \<or> (\<exists>m. t = Fail g m) \<or> t = Discarded g"
proof (cases t)
  case (Invoke c a)
  then show ?thesis using assms(3) invoke_cbs(2) [of c a s] by simp
next
  case (CallAssociate fn a p)
  then show ?thesis
    using assms(2,3) by (rule_tac user_ok_fut [OF assms(1), of fn a s]) (simp add: extends_def)
next
  case (CallSet fn a p)
  then show ?thesis
    using assms(2,3) by (rule_tac user_ok_val [OF assms(1), of fn a s]) (simp add: extends_def)
qed (use assms(3) in \<open>auto simp: op_defs internal_expired_def after_cancel_def latch_trigger_def
    clearAllCallbacks_def split: if_splits\<close>)

lemma exec_handover:
  assumes "user_ok u" and "g < next_fid s" and "isPending s g" and "exec u t s = (s', new)"
    and "\<not> isPending s' g"
  shows "(\<exists>v. isReady s' g \<and> (\<forall>c\<in>set (onReadyCallbacks (futs s g)). Invoke c (AValue v) \<in> set new))
    \<or> (\<exists>m. isFailed s' g \<and> (\<forall>c\<in>set (onFailedCallbacks (futs s g)). Invoke c (AMessage m) \<in> set new))
    \<or> isDiscarded s' g \<and> (\<forall>c\<in>set (onDiscardedCallbacks (futs s g)). Invoke c ANone \<in> set new)"
proof -
  consider v where "t = Set g v" | m where "t = Fail g m" | "t = Discarded g"
    using exec_state [OF assms(1,2), of t] assms(3,4,5) by (auto simp: isPending_def)
  then show ?thesis
  proof cases
    case (1 v)
    then have "isReady s' g \<and> (\<forall>c\<in>set (onReadyCallbacks (futs s g)). Invoke c (AValue v) \<in> set new)"
      using assms(3,4) by (auto simp: fut_set_def state_defs)
    then show ?thesis by blast
  next
    case (2 m)
    then have "isFailed s' g \<and> (\<forall>c\<in>set (onFailedCallbacks (futs s g)). Invoke c (AMessage m) \<in> set new)"
      using assms(3,4) by (auto simp: fut_fail_def state_defs)
    then show ?thesis by blast
  next
    case 3
    then show ?thesis using assms(3,4) by (auto simp: fut_discarded_def state_defs)
  qed
qed

lemma state_cases:
  obtains "isPending s f" "\<not> isReady s f" "\<not> isFailed s f" "\<not> isDiscarded s f"
  | "isReady s f" "\<not> isPending s f" "\<not> isFailed s f" "\<not> isDiscarded s f"
  | "isFailed s f" "\<not> isPending s f" "\<not> isReady s f" "\<not> isDiscarded s f"
  | "isDiscarded s f" "\<not> isPending s f" "\<not> isReady s f" "\<not> isFailed s f"
  by (cases "fstate (futs s f)") (auto simp: state_defs)

lemma evolves_states:
  assumes "evolves s s'" and "f < next_fid s"
  shows "\<not> isPending s f \<Longrightarrow> \<not> isPending s' f" and "isReady s f \<Longrightarrow> isReady s' f"
    and "isFailed s f \<Longrightarrow> isFailed s' f" and "isDiscarded s f \<Longrightarrow> isDiscarded s' f"
  using assms by (auto simp: evolves_def state_defs)

lemma owes_set_exec:
  assumes "user_ok u" and "store_wf s" and "task_ready s t" and "f < next_fid s" and "g < next_fid s"
    and "owes_set s (add_mset t M) f g" and "exec u t s = (s', new)"
  shows "owes_set s' (mset new + M) f g"
proof -
  have ev: "evolves s s'" using exec_evolves [OF assms(1), of s t] assms(7) by simp
  note st = evolves_states [OF ev assms(4)] evolves_states [OF ev assms(5)]
  consider (over) "\<not> isPending s f \<or> isFailed s g \<or> isDiscarded s g"
    | (old) "owes_set s M f g"
    | (reg) "t = OnReady g (FutureSet f)"
    | (held) "isPending s g" "FutureSet f \<in> set (onReadyCallbacks (futs s g))"
    | (inv) v where "t = Invoke (FutureSet f) (AValue v)"
    | (fin) v where "t = Set f v"
    using assms(6) by (auto simp: owes_set_def)
  then show ?thesis
  proof cases
    case over
    then show ?thesis using st by (auto simp: owes_set_def)
  next
    case old
    then show ?thesis
      using st exec_handover [OF assms(1,5) _ assms(7)] exec_keeps_cbs [OF assms(1,3,5)] assms(7)
      by (auto simp: owes_set_def) blast+
  next
    case reg
    then show ?thesis
      using assms(7) ready_value [OF assms(2), of g]
      by (cases rule: state_cases [of s g]) (auto simp: on_ready_def owes_set_def isPending_def)
  next
    case held
    then show ?thesis
      using exec_handover [OF assms(1,5) _ assms(7)] exec_keeps_cbs [OF assms(1,3,5)] assms(7)
      by (auto simp: owes_set_def) blast+
  next
    case inv
    then show ?thesis using assms(7) by (auto simp: owes_set_def)
  next
    case fin
    then show ?thesis
      using assms(7) by (auto simp: owes_set_def fut_set_def state_defs split: if_splits)
  qed
qed

lemma owes_fail_exec:
  assumes "user_ok u" and "store_wf s" and "task_ready s t" and "f < next_fid s" and "g < next_fid s"
    and "owes_fail s (add_mset t M) f g" and "exec u t s = (s', new)"
  shows "owes_fail s' (mset new + M) f g"
proof -
  have ev: "evolves s s'" using exec_evolves [OF assms(1), of s t] assms(7) by simp
  note st = evolves_states [OF ev assms(4)] evolves_states [OF ev assms(5)]
  consider (over) "\<not> isPending s f \<or> isReady s g \<or> isDiscarded s g"
    | (old) "owes_fail s M f g"
    | (reg) "t = OnFailed g (FutureFail f)"
    | (held) "isPending s g" "FutureFail f \<in> set (onFailedCallbacks (futs s g))"
    | (inv) m where "t = Invoke (FutureFail f) (AMessage m)"
    | (fin) m where "t = Fail f m"
    using assms(6) by (auto simp: owes_fail_def)
  then show ?thesis
  proof cases
    case over
    then show ?thesis using st by (auto simp: owes_fail_def)
  next
    case old
    then show ?thesis
      using st exec_handover [OF assms(1,5) _ assms(7)] exec_keeps_cbs [OF assms(1,3,5)] assms(7)
      by (auto simp: owes_fail_def) blast+
  next
    case reg
    then show ?thesis
      using assms(7) ready_value [OF assms(2), of g]
      by (cases rule: state_cases [of s g]) (auto simp: on_failed_def owes_fail_def isPending_def)
  next
    case held
    then show ?thesis
      using exec_handover [OF assms(1,5) _ assms(7)] exec_keeps_cbs [OF assms(1,3,5)] assms(7)
      by (auto simp: owes_fail_def) blast+
  next
    case inv
    then show ?thesis using assms(7) by (auto simp: owes_fail_def)
  next
    case fin
    then show ?thesis
      using assms(7) by (auto simp: owes_fail_def fut_fail_def state_defs split: if_splits)
  qed
qed

lemma owes_discarded_exec:
  assumes "user_ok u" and "store_wf s" and "task_ready s t" and "f < next_fid s" and "g < next_fid s"
    and "owes_discarded s (add_mset t M) f g" and "exec u t s = (s', new)"
  shows "owes_discarded s' (mset new + M) f g"
proof -
  have ev: "evolves s s'" using exec_evolves [OF assms(1), of s t] assms(7) by simp
  note st = evolves_states [OF ev assms(4)] evolves_states [OF ev assms(5)]
  consider (over) "\<not> isPending s f \<or> isReady s g \<or> isFailed s g"
    | (old) "owes_discarded s M f g"
    | (reg) "t = OnDiscarded g (InternalDiscarded f)"
    | (held) "isPending s g" "InternalDiscarded f \<in> set (onDiscardedCallbacks (futs s g))"
    | (inv) a where "t = Invoke (InternalDiscarded f) (a)"
    | (fin) "t = Discarded f"
    using assms(6) by (auto simp: owes_discarded_def)
  then show ?thesis
  proof cases
    case over
    then show ?thesis using st by (auto simp: owes_discarded_def)
  next
    case old
    then show ?thesis
      using st exec_handover [OF assms(1,5) _ assms(7)] exec_keeps_cbs [OF assms(1,3,5)] assms(7)
      by (auto simp: owes_discarded_def) blast+
  next
    case reg
    then show ?thesis
      using assms(7) ready_value [OF assms(2), of g]
      by (cases rule: state_cases [of s g]) (auto simp: on_discarded_def owes_discarded_def isPending_def)
  next
    case held
    then show ?thesis
      using exec_handover [OF assms(1,5) _ assms(7)] exec_keeps_cbs [OF assms(1,3,5)] assms(7)
      by (auto simp: owes_discarded_def) blast+
  next
    case inv
    then show ?thesis using assms(7) by (auto simp: owes_discarded_def)
  next
    case fin
    then show ?thesis
      using assms(7) by (auto simp: owes_discarded_def fut_discarded_def state_defs split: if_splits)
  qed
qed

lemma exec_log:
  assumes "user_ok u" and "exec u t s = (s', new)" and "Associated f g \<in> set (log s')"
  shows "Associated f g \<in> set (log s) \<or>
    (t = PromiseAssociate f g \<and> OnReady g (FutureSet f) \<in> set new
      \<and> OnFailed g (FutureFail f) \<in> set new \<and> OnDiscarded g (InternalDiscarded f) \<in> set new)"
proof (cases t)
  case (Invoke c a)
  then show ?thesis
    using assms(2,3)
    by (cases c; cases a) (auto simp: internal_defs split: prod.splits bool.splits if_splits)
next
  case (CallAssociate fn a p)
  then show ?thesis
    using assms by (rule_tac user_ok_fut [OF assms(1), of fn a s]) (auto simp: extends_def)
next
  case (CallSet fn a p)
  then show ?thesis
    using assms by (rule_tac user_ok_val [OF assms(1), of fn a s]) (auto simp: extends_def)
qed (use assms(2,3) in \<open>auto simp: op_defs internal_expired_def after_cancel_def latch_trigger_def
    split: if_splits\<close>)

definition assoc_inv :: "'a store \<Rightarrow> 'a task multiset \<Rightarrow> bool" where
  "assoc_inv s M \<longleftrightarrow> checks_inv s M \<and> (\<forall>f g. Associated f g \<in> set (log s) \<longrightarrow>
     f < next_fid s \<and> g < next_fid s \<and> owes s M f g)"

lemma assoc_inv_exec:
  assumes "user_ok u" and "store_wf s" and "mset_wf s (add_mset t M)" and "aborted s = None"
    and "assoc_inv s (add_mset t M)" and "exec u t s = (s', new)"
  shows "assoc_inv s' (mset new + M)"
proof -
  have ck: "checks_inv s (add_mset t M)" using assms(5) by (simp add: assoc_inv_def)
  then have r: "task_ready s t" by (simp add: checks_inv_def)
  have le: "next_fid s \<le> next_fid s'"
    using exec_evolves [OF assms(1), of s t] assms(6) by (simp add: evolves_def)
  have "f < next_fid s' \<and> g < next_fid s' \<and> owes s' (mset new + M) f g"
    if "Associated f g \<in> set (log s')" for f g
    using exec_log [OF assms(1,6) that]
  proof
    assume "Associated f g \<in> set (log s)"
    then have "f < next_fid s" "g < next_fid s" "owes s (add_mset t M) f g"
      using assms(5) by (auto simp: assoc_inv_def)
    then show ?thesis
      using le owes_set_exec [OF assms(1,2) r _ _ _ assms(6)] owes_fail_exec [OF assms(1,2) r _ _ _ assms(6)]
        owes_discarded_exec [OF assms(1,2) r _ _ _ assms(6)]
      by (simp add: owes_def)
  next
    assume "t = PromiseAssociate f g \<and> OnReady g (FutureSet f) \<in> set new
      \<and> OnFailed g (FutureFail f) \<in> set new \<and> OnDiscarded g (InternalDiscarded f) \<in> set new"
    then show ?thesis
      using assms(3) le by (auto simp: owes_def owes_set_def owes_fail_def owes_discarded_def)
  qed
  then show ?thesis using checks_inv_exec [OF assms(1,3,4) ck assms(6)] by (simp add: assoc_inv_def)
qed

lemma assoc_inv_grow:
  assumes "assoc_inv s M" and "checks_inv s' M'" and "log s' = log s" and "next_fid s \<le> next_fid s'"
    and "\<And>f. f < next_fid s \<Longrightarrow> futs s' f = futs s f" and "M \<subseteq># M'"
  shows "assoc_inv s' M'"
  using assms unfolding assoc_inv_def by (metis owes_same order_less_le_trans)

lemma make_frame:
  assumes "make k s = (s', new, f)"
  shows "log s' = log s" and "next_fid s \<le> next_fid s'" and "g < next_fid s \<Longrightarrow> futs s' g = futs s g"
  using assms by (cases k; auto simp: make_defs alloc_def upd_def)+

interpretation assoc: conf_invariant u assoc_inv for u :: "'a user"
proof unfold_locales
  show "assoc_inv (empty_store :: 'a store) {#}"
    using checks.start by (simp add: assoc_inv_def empty_store_def)
next
  fix s s' :: "'a store" and t M new
  assume "user_ok u" "store_wf s" "mset_wf s (add_mset t M)" "aborted s = None"
    "assoc_inv s (add_mset t M)" "exec u t s = (s', new)"
  then show "assoc_inv s' (mset new + M)" by (rule assoc_inv_exec)
next
  fix s :: "'a store" and M and t :: "'a task"
  assume a: "assoc_inv s M" "client_call t"
  then show "assoc_inv s (add_mset t M)"
    using checks.call [OF _ a(2)] by (intro assoc_inv_grow [OF a(1)]) (simp_all add: assoc_inv_def)
next
  fix s s' :: "'a store" and M k new f
  assume a: "store_wf s" "mset_wf s M" "assoc_inv s M" "make k s = (s', new, f)"
  then show "assoc_inv s' (mset new + M)"
    using checks.create [OF a(1,2) _ a(4)] make_frame [OF a(4)]
    by (intro assoc_inv_grow [OF a(3)]) (simp_all add: assoc_inv_def)
next
  fix s s' :: "'a store" and M l
  assume a: "assoc_inv s M" "make_latch s = (s', l)"
  then show "assoc_inv s' M"
    using checks.latch [OF _ a(2)]
    by (intro assoc_inv_grow [OF a(1)]) (auto simp: assoc_inv_def make_latch_def)
next
  fix s :: "'a store" and M l fn p f
  assume a: "assoc_inv s M" "timers s l = Some (fn, p, f)"
  then show "assoc_inv (s\<lparr>timers := (timers s)(l := None)\<rparr>) (add_mset (Expired fn l p f) M)"
    using checks.fire [OF _ a(2)] by (intro assoc_inv_grow [OF a(1)]) (simp_all add: assoc_inv_def)
next
  fix s :: "'a store" and M g
  assume a: "assoc_inv s M"
  then show "assoc_inv (s\<lparr>weak_gone := (weak_gone s)(g := True)\<rparr>) M"
    using checks.weak [of s M g] by (intro assoc_inv_grow [OF a(1)]) (simp_all add: assoc_inv_def)
qed

end
