(* ===== verification/Future_Termination.thy ===== *)
theory Future_Termination
  imports Future_Association
begin

text \<open>
  Running callbacks terminates. Every callback is consumed when it runs, and each closure of the
  header causes a bounded amount of further work; \<open>task_weight\<close> bounds it. The parameter \<open>B\<close> gives each
  client callable a budget for the work that one call of it leaves behind, where a combinator that the
  callable uses weighs more than the budget of the callable it is given. So callables may nest to any
  depth; one that installs itself again has no budget.
\<close>

section \<open>Weights\<close>

fun cb_weight :: "(fn_id \<Rightarrow> nat) \<Rightarrow> callback \<Rightarrow> nat" where
  "cb_weight B (User n) = 1"
| "cb_weight B (InternalDiscard f) = 2"
| "cb_weight B (FutureSet p) = 4"
| "cb_weight B (FutureFail p) = 4"
| "cb_weight B (InternalDiscarded p) = 4"
| "cb_weight B (FutureAbandon p b) = 2"
| "cb_weight B (Awaited l) = 1"
| "cb_weight B (Thenf fn p) = 26 + B fn"
| "cb_weight B (Then fn p) = 26 + B fn"
| "cb_weight B (Repair fn p) = 26 + B fn"
| "cb_weight B (RecoverAny fn p f) = 26 + B fn"
| "cb_weight B (RecoverAbandoned fn p f) = 26 + B fn"
| "cb_weight B _ = 26"

fun task_weight :: "(fn_id \<Rightarrow> nat) \<Rightarrow> 'a task \<Rightarrow> nat" where
  "task_weight B (Invoke c a) = cb_weight B c"
| "task_weight B (Set f v) = 3"
| "task_weight B (Fail f m) = 3"
| "task_weight B (Discarded f) = 3"
| "task_weight B (PromiseSet f v) = 4"
| "task_weight B (PromiseFail f m) = 4"
| "task_weight B (PromiseDiscard f) = 4"
| "task_weight B (PromiseAssociate f g) = 22"
| "task_weight B (PromiseDestroy f) = 2"
| "task_weight B (OnAbandoned f c) = Suc (cb_weight B c)"
| "task_weight B (OnDiscard f c) = Suc (cb_weight B c)"
| "task_weight B (OnReady f c) = Suc (cb_weight B c)"
| "task_weight B (OnFailed f c) = Suc (cb_weight B c)"
| "task_weight B (OnDiscarded f c) = Suc (cb_weight B c)"
| "task_weight B (OnAny f c) = Suc (cb_weight B c)"
| "task_weight B (CallAssociate fn a p) = 23 + B fn"
| "task_weight B (CallSet fn a p) = 5 + B fn"
| "task_weight B (Expired fn l p f) = 24 + B fn"
| "task_weight B (AfterCancel l p f) = 23"
| "task_weight B (AwaitOn f l) = 2"
| "task_weight B _ = 1"

definition tasks_weight :: "(fn_id \<Rightarrow> nat) \<Rightarrow> 'a task list \<Rightarrow> nat" where
  "tasks_weight B ts = sum_list (map (task_weight B) ts)"

definition cbs_weight :: "(fn_id \<Rightarrow> nat) \<Rightarrow> callback list \<Rightarrow> nat" where
  "cbs_weight B cs = sum_list (map (cb_weight B) cs)"

definition data_weight :: "(fn_id \<Rightarrow> nat) \<Rightarrow> 'a data \<Rightarrow> nat" where
  "data_weight B d = cbs_weight B (data_cbs d)"

definition store_weight :: "(fn_id \<Rightarrow> nat) \<Rightarrow> 'a store \<Rightarrow> nat" where
  "store_weight B s = (\<Sum>f<next_fid s. data_weight B (futs s f))"

text \<open>A bound on the steps a thread with the tasks \<open>ts\<close> takes.\<close>

definition work :: "(fn_id \<Rightarrow> nat) \<Rightarrow> 'a store \<Rightarrow> 'a task list \<Rightarrow> nat" where
  "work B s ts = store_weight B s + tasks_weight B ts"

definition user_budget :: "(fn_id \<Rightarrow> nat) \<Rightarrow> 'a user \<Rightarrow> bool" where
  "user_budget B u \<longleftrightarrow>
     (\<forall>fn a s. tasks_weight B (fst (snd (fut_fn u fn a s))) \<le> B fn
       \<and> tasks_weight B (fst (snd (val_fn u fn a s))) \<le> B fn)"

lemma weight_simps [simp]:
  "tasks_weight B [] = 0" "tasks_weight B (t # ts) = task_weight B t + tasks_weight B ts"
  "tasks_weight B (ts @ ts') = tasks_weight B ts + tasks_weight B ts'"
  "cbs_weight B [] = 0" "cbs_weight B (c # cs) = cb_weight B c + cbs_weight B cs"
  "cbs_weight B (cs @ cs') = cbs_weight B cs + cbs_weight B cs'"
  by (simp_all add: tasks_weight_def cbs_weight_def)

lemma tasks_weight_invokes [simp]: "tasks_weight B (map (\<lambda>c. Invoke c a) cs) = cbs_weight B cs"
  by (induction cs) auto

lemma data_weight_new [simp]: "data_weight B new_data = 0"
  by (simp add: data_weight_def data_cbs_def)

lemma store_weight_upd:
  "f < next_fid s \<Longrightarrow>
   store_weight B (upd f h s) + data_weight B (futs s f) = store_weight B s + data_weight B (h (futs s f))"
  using sum_fun_upd_below [of f "next_fid s" "data_weight B" "futs s" "h (futs s f)"]
  by (simp add: store_weight_def)

lemma store_weight_emit [simp]: "store_weight B (emit e s) = store_weight B s"
  by (simp add: store_weight_def)

lemma store_weight_same: "futs s' = futs s \<Longrightarrow> next_fid s' = next_fid s \<Longrightarrow> store_weight B s' = store_weight B s"
  by (simp add: store_weight_def)

lemma store_weight_extends: "extends s s' \<Longrightarrow> store_weight B s' = store_weight B s"
  unfolding store_weight_def by (rule sum_extend) (auto simp: extends_def)

section \<open>Every action lowers the weight\<close>

lemma work_Nil: "work B s ts = work B s [] + tasks_weight B ts"
  by (simp add: work_def)

lemma work_emit [simp]: "work B (emit e s) ts = work B s ts"
  by (simp add: work_def)

text \<open>An update at one future that hands callbacks over to tasks, or takes one in.\<close>

lemma work_upd:
  assumes "f < next_fid s"
    and "data_weight B (h (futs s f)) + tasks_weight B new < data_weight B (futs s f) + k"
  shows "work B (upd f h s) new < work B s [] + k"
  using store_weight_upd [OF assms(1), of B h] assms(2) by (simp add: work_def)

lemma invoke_weight: "work B (fst (invoke c a s)) (snd (invoke c a s)) < work B s [] + cb_weight B c"
  by (cases c; cases a)
     (auto simp: internal_defs work_def store_weight_def split: prod.splits bool.splits)

lemma exec_weight:
  assumes "user_ok u" and "user_budget B u" and "set (task_fids t) \<subseteq> {..<next_fid s}"
  shows "work B (fst (exec u t s)) (snd (exec u t s)) < work B s [t]"
proof (cases t)
  case (Invoke c a)
  then show ?thesis using invoke_weight [of B c a s] by (simp add: work_Nil [of B s "[_]"])
next
  case (CallAssociate fn a p)
  moreover obtain s' ts g where e: "fut_fn u fn a s = (s', ts, g)" "extends s s'"
    by (rule user_ok_fut [OF assms(1)])
  moreover have "tasks_weight B ts \<le> B fn"
    using e(1) assms(2) unfolding user_budget_def by (metis fst_conv snd_conv)
  ultimately show ?thesis using store_weight_extends [of s s' B] by (simp add: work_def)
next
  case (CallSet fn a p)
  moreover obtain s' ts v where e: "val_fn u fn a s = (s', ts, v)" "extends s s'"
    by (rule user_ok_val [OF assms(1)])
  moreover have "tasks_weight B ts \<le> B fn"
    using e(1) assms(2) unfolding user_budget_def by (metis fst_conv snd_conv)
  ultimately show ?thesis using store_weight_extends [of s s' B] by (simp add: work_def)
next
  case (Expired fn l p f)
  then show ?thesis by (auto simp: internal_expired_def latch_trigger_def work_def store_weight_def)
next
  case (AfterCancel l p f)
  then show ?thesis by (auto simp: after_cancel_def work_def store_weight_def)
next
  case (AwaitOn f l)
  then show ?thesis
    using assms(3) work_upd [of f s B "\<lambda>d. d\<lparr>onAnyCallbacks := onAnyCallbacks d @ [Awaited l]\<rparr>" "[]" 2]
    by (simp add: await_on_def data_weight_def data_cbs_def work_Nil [of B s "[_]"])
qed (use assms(3) in \<open>auto simp: op_defs work_Nil [of B s "[_]"] work_Nil [of B s "_ # _ # _"]
     data_weight_def data_cbs_def clearAllCallbacks_def simp del: add_Suc_right intro!: work_upd\<close>)

text \<open>Enough fuel: the weight of the store and of the tasks.\<close>

lemma run_tasks_terminates:
  assumes "user_ok u" and "user_budget B u" and "store_wf s" and "tasks_wf s ts" and "work B s ts \<le> n"
  shows "\<exists>s'. run_tasks u n ts s = Some s' \<and> store_wf s'"
proof -
  let ?I = "\<lambda>(s :: 'a store, ts). store_wf s \<and> tasks_wf s ts"
  have "\<exists>c'. run_fuel (seq_step u) n (s, ts) = Some c' \<and> seq_step u c' = None \<and> ?I c'"
  proof (rule run_fuel_enough [where m = "\<lambda>(s, ts). work B s ts"])
    fix c c' :: "'a store \<times> 'a task list"
    assume c: "?I c" "seq_step u c = Some c'"
    obtain s1 t ts1 where e: "c = (s1, t # ts1)" "aborted s1 = None"
      using c(2) by (cases c rule: seq_step.cases [of "(u, c)" for c, simplified]) (auto split: if_splits)
    obtain s2 new where x: "exec u t s1 = (s2, new)" by fastforce
    have c': "c' = (s2, new @ ts1)" using c(2) e x by simp
    have w: "store_wf s1" "set (task_fids t) \<subseteq> {..<next_fid s1}" "tasks_wf s1 ts1" using c(1) e by simp_all
    have "next_fid s1 \<le> next_fid s2" using exec_evolves [OF assms(1), of s1 t] x by (simp add: evolves_def)
    then show "?I c' \<and> (case c' of (s, ts) \<Rightarrow> work B s ts) < (case c of (s, ts) \<Rightarrow> work B s ts)"
      using exec_wf [OF assms(1) w(1,2)] exec_weight [OF assms(1,2) w(2)] x c' e tasks_wf_mono [OF w(3)]
      by (simp add: work_def add.commute add.left_commute)
  qed (use assms(3-5) in auto)
  then show ?thesis by (auto simp: run_tasks_def)
qed

end
