(* ===== verification/Future_Once.thy ===== *)
theory Future_Once
  imports Future_Termination
begin

text \<open>
  Callbacks are consumed: an installed callback is invoked at most once, whatever completes, discards
  or abandons the future. \<open>occurrences n\<close> counts a client callback in the store, in the tasks of the
  thread and in the log of invocations; no action raises it.
\<close>

definition user_cbs :: "cb_id \<Rightarrow> callback list \<Rightarrow> nat" where
  "user_cbs n cs = count_list cs (User n)"

definition data_users :: "cb_id \<Rightarrow> 'a data \<Rightarrow> nat" where
  "data_users n d = user_cbs n (data_cbs d)"

definition store_users :: "cb_id \<Rightarrow> 'a store \<Rightarrow> nat" where
  "store_users n s = (\<Sum>f<next_fid s. data_users n (futs s f))"

definition task_users :: "cb_id \<Rightarrow> 'a task list \<Rightarrow> nat" where
  "task_users n ts = user_cbs n (concat (map task_cbs ts))"

fun invokes :: "cb_id \<Rightarrow> 'a event \<Rightarrow> bool" where
  "invokes n (Invoked m a) = (m = n)"
| "invokes n _ = False"

definition invocations :: "cb_id \<Rightarrow> 'a store \<Rightarrow> nat" where
  "invocations n s = length (filter (invokes n) (log s))"

definition occurrences :: "cb_id \<Rightarrow> 'a store \<Rightarrow> 'a task list \<Rightarrow> nat" where
  "occurrences n s ts = store_users n s + task_users n ts + invocations n s"

definition user_avoids :: "cb_id \<Rightarrow> 'a user \<Rightarrow> bool" where
  "user_avoids n u \<longleftrightarrow>
     (\<forall>fn a s. task_users n (fst (snd (fut_fn u fn a s))) = 0
       \<and> task_users n (fst (snd (val_fn u fn a s))) = 0)"

lemma users_simps [simp]:
  "user_cbs n [] = 0" "user_cbs n (c # cs) = (if c = User n then 1 else 0) + user_cbs n cs"
  "user_cbs n (cs @ cs') = user_cbs n cs + user_cbs n cs'"
  "task_users n [] = 0" "task_users n (t # ts) = user_cbs n (task_cbs t) + task_users n ts"
  "task_users n (ts @ ts') = task_users n ts + task_users n ts'"
  by (simp_all add: user_cbs_def task_users_def)

lemma task_users_invokes [simp]: "task_users n (map (\<lambda>c. Invoke c a) cs) = user_cbs n cs"
  by (induction cs) auto

lemma invocations_simps [simp]:
  "invocations n (emit e s) = invocations n s + (if invokes n e then 1 else 0)"
  "invocations n (upd f h s) = invocations n s"
  by (simp_all add: invocations_def)

lemma store_users_emit [simp]: "store_users n (emit e s) = store_users n s"
  by (simp add: store_users_def)

lemma store_users_upd:
  "f < next_fid s \<Longrightarrow>
   store_users n (upd f h s) + data_users n (futs s f) = store_users n s + data_users n (h (futs s f))"
  using sum_fun_upd_below [of f "next_fid s" "data_users n" "futs s" "h (futs s f)"]
  by (simp add: store_users_def)

lemma store_users_extends: "extends s s' \<Longrightarrow> store_users n s' = store_users n s"
  unfolding store_users_def
  by (rule sum_extend) (auto simp: extends_def data_users_def data_cbs_def)

text \<open>An update at one future that hands some of its callbacks over to new tasks, or takes one in.\<close>

lemma occurrences_upd:
  assumes "f < next_fid s" and "data_users n (h (futs s f)) + task_users n new \<le> data_users n (futs s f) + k"
  shows "occurrences n (upd f h s) new \<le> occurrences n s [] + k"
  using store_users_upd [OF assms(1), of n h] assms(2) by (simp add: occurrences_def)

lemma occurrences_upd_0:
  assumes "f < next_fid s" and "data_users n (h (futs s f)) + task_users n new \<le> data_users n (futs s f)"
  shows "occurrences n (upd f h s) new \<le> occurrences n s []"
  using occurrences_upd [of f s n h new 0] assms by simp

lemma occurrences_upd_Suc:
  assumes "f < next_fid s" and "data_users n (h (futs s f)) + task_users n new \<le> Suc (data_users n (futs s f))"
  shows "occurrences n (upd f h s) new \<le> Suc (occurrences n s [])"
  using occurrences_upd [of f s n h new 1] assms by simp

lemma occurrences_emit [simp]:
  "\<not> invokes n e \<Longrightarrow> occurrences n (emit e s) ts = occurrences n s ts"
  by (simp add: occurrences_def)

lemma occurrences_Nil: "occurrences n s ts = occurrences n s [] + task_users n ts"
  by (simp add: occurrences_def)

lemma invoke_occurrences:
  "occurrences n (fst (invoke c a s)) (snd (invoke c a s)) \<le> occurrences n s [] + user_cbs n [c]"
  by (cases c; cases a)
     (auto simp: internal_defs occurrences_def store_users_def invocations_def
       split: prod.splits bool.splits)

lemma exec_occurrences:
  assumes "user_ok u" and "user_avoids n u" and "set (task_fids t) \<subseteq> {..<next_fid s}"
  shows "occurrences n (fst (exec u t s)) (snd (exec u t s)) \<le> occurrences n s [t]"
proof (cases t)
  case (Invoke c a)
  then show ?thesis using invoke_occurrences [of n c a s] by (simp add: occurrences_def)
next
  case (CallAssociate fn a p)
  moreover obtain s' ts g where "fut_fn u fn a s = (s', ts, g)" "extends s s'"
    by (rule user_ok_fut [OF assms(1)])
  moreover from this have "task_users n ts = 0"
    using assms(2) unfolding user_avoids_def by (metis fst_conv snd_conv)
  ultimately show ?thesis
    using store_users_extends [of s s' n] by (simp add: occurrences_def extends_def invocations_def)
next
  case (Expired fn l p f)
  then show ?thesis
    by (auto simp: internal_expired_def latch_trigger_def occurrences_def store_users_def
        invocations_def)
next
  case (AfterCancel l p f)
  then show ?thesis by (auto simp: after_cancel_def occurrences_def store_users_def invocations_def)
next
  case (CallSet fn a p)
  moreover obtain s' ts v where "val_fn u fn a s = (s', ts, v)" "extends s s'"
    by (rule user_ok_val [OF assms(1)])
  moreover from this have "task_users n ts = 0"
    using assms(2) unfolding user_avoids_def by (metis fst_conv snd_conv)
  ultimately show ?thesis
    using store_users_extends [of s s' n] by (simp add: occurrences_def extends_def invocations_def)
qed (use assms(3) in \<open>auto simp: op_defs occurrences_Nil [of n s "[_]"] occurrences_Nil [of n s "_ # _ # _"]
     data_users_def data_cbs_def clearAllCallbacks_def intro!: occurrences_upd_Suc occurrences_upd_0\<close>)

lemma seq_stepE:
  assumes "seq_step u c = Some c'"
  obtains s t ts s' new where "c = (s, t # ts)" "aborted s = None" "exec u t s = (s', new)"
    "c' = (s', new @ ts)"
  using assms by (cases "(u, c)" rule: seq_step.cases) (auto split: if_splits prod.splits)

lemma run_tasks_occurrences:
  assumes "user_ok u" and "user_avoids n u" and "store_wf s" and "tasks_wf s ts"
    and "run_tasks u k ts s = Some s'"
  shows "invocations n s' \<le> occurrences n s ts"
proof -
  let ?I = "\<lambda>(r, rs). store_wf r \<and> tasks_wf r rs \<and> occurrences n r rs \<le> occurrences n s ts"
  obtain rs where run: "run_fuel (seq_step u) k (s, ts) = Some (s', rs)"
    using assms(5) by (auto simp: run_tasks_def)
  have "?I (s', rs)"
  proof (rule run_fuel_invariant [OF _ _ run])
    fix c c' :: "'a store \<times> 'a task list"
    assume I: "?I c" and "seq_step u c = Some c'"
    then obtain r t rs r' new where e: "c = (r, t # rs)" "exec u t r = (r', new)" "c' = (r', new @ rs)"
      by (auto elim: seq_stepE)
    have w: "store_wf r" "set (task_fids t) \<subseteq> {..<next_fid r}" "tasks_wf r rs"
      and o: "occurrences n r (t # rs) \<le> occurrences n s ts"
      using I e(1) by simp_all
    have "occurrences n r' new \<le> occurrences n r [t]"
      using exec_occurrences [OF assms(1,2) w(2)] e(2) by simp
    moreover have "next_fid r \<le> next_fid r'"
      using exec_evolves [OF assms(1), of r t] e(2) by (simp add: evolves_def)
    ultimately show "?I c'"
      using exec_wf [OF assms(1) w(1,2)] tasks_wf_mono [OF w(3)] o e(2,3)
      by (simp add: occurrences_def)
  qed (use assms(3,4) in simp)
  then show ?thesis by (simp add: occurrences_def)
qed

end
