(* ===== verification/Future_Properties.thy ===== *)
theory Future_Properties
  imports Future_Once
begin

text \<open>
  The properties of futures and promises (\<^verbatim>\<open>include/process/future.hpp\<close>), with concrete witnesses.
\<close>

section \<open>A concrete client\<close>

text \<open>A client whose callables allocate a future, install callback number \<open>fn\<close> on it and set it;
  the other overload returns 0.\<close>

definition probe :: "nat user" where
  "probe = \<lparr>fut_fn = (\<lambda>fn a s. case alloc new_data s of (s', f) \<Rightarrow>
                     (s', [OnAny f (User fn), PromiseSet f (Val 1)], f)),
            val_fn = (\<lambda>fn a s. (s, [], Val 0))\<rparr>"

lemma probe_ok: "user_ok probe"
  by (auto simp: user_ok_def probe_def alloc_def extends_def tasks_wf_def)

text \<open>A client whose callable number \<open>n + 1\<close> uses \<^verbatim>\<open>then\<close> and \<^verbatim>\<open>recover\<close> with callable number \<open>n\<close>.\<close>

definition nesting :: "nat user" where
  "nesting = \<lparr>fut_fn = (\<lambda>fn a s. case make_promise s of (s1, f) \<Rightarrow>
       if fn = 0 then (s1, [PromiseSet f (Val 1)], f)
       else case future_thenf (fn - 1) f s1 of (s2, ts, p) \<Rightarrow>
            case future_recover (fn - 1) p s2 of (s3, ts', q) \<Rightarrow> (s3, ts @ ts' @ [PromiseSet f (Val 1)], q)),
     val_fn = (\<lambda>fn a s. (s, [], Val 0))\<rparr>"

lemma nesting_ok: "user_ok nesting"
  by (auto simp: user_ok_def nesting_def make_defs alloc_def extends_def tasks_wf_def)

definition nested_budget :: "fn_id \<Rightarrow> nat" where
  "nested_budget n = 4 ^ (n + 4)"

lemma nesting_budget: "user_budget nested_budget nesting"
  unfolding user_budget_def
proof (intro allI conjI)
  fix fn a and s :: "nat store"
  show "tasks_weight nested_budget (fst (snd (fut_fn nesting fn a s))) \<le> nested_budget fn"
  proof (cases fn)
    case (Suc n)
    have "(47 :: nat) \<le> 128 * 4 ^ n" using one_le_power [of "4 :: nat" n] by linarith
    then show ?thesis using Suc by (simp add: nesting_def make_defs alloc_def nested_budget_def power_add)
  qed (simp add: nesting_def make_defs alloc_def nested_budget_def)
  show "tasks_weight nested_budget (fst (snd (val_fn nesting fn a s))) \<le> nested_budget fn" by (simp add: nesting_def)
qed

text \<open>A client that leaves no work behind.\<close>

definition quiet :: "nat user" where
  "quiet = \<lparr>fut_fn = (\<lambda>fn a s. case alloc new_data s of (s', f) \<Rightarrow> (s', [], f)),
            val_fn = (\<lambda>fn a s. (s, [], Val 0))\<rparr>"

lemma quiet_ok: "user_ok quiet"
  by (auto simp: user_ok_def quiet_def alloc_def extends_def tasks_wf_def)

lemma quiet_avoids: "user_avoids n quiet"
  by (simp add: user_avoids_def quiet_def alloc_def)

section \<open>Scripts\<close>

text \<open>A client program of one thread: each action is a constructor call or a call on a future, run
  together with the callbacks it causes.\<close>

datatype 'a action = Mk "'a mk" | Call "'a task"

definition settle :: "'a user \<Rightarrow> nat \<Rightarrow> 'a task list \<Rightarrow> 'a store \<Rightarrow> 'a store option" where
  "settle u n ts s = (case run_fuel (seq_step u) n (s, ts) of Some (s', []) \<Rightarrow> Some s' | _ \<Rightarrow> None)"

fun play :: "'a user \<Rightarrow> nat \<Rightarrow> 'a action list \<Rightarrow> 'a store \<Rightarrow> 'a store option" where
  "play u n [] s = Some s"
| "play u n (Mk k # as) s =
     (if aborted s = None \<and> list_all (\<lambda>f. f < next_fid s) (mk_fids k)
      then case make k s of (s', ts, f) \<Rightarrow>
        (case settle u n ts s' of Some s'' \<Rightarrow> play u n as s'' | None \<Rightarrow> None) else None)"
| "play u n (Call t # as) s =
     (if aborted s = None \<and> client_call t \<and> list_all (\<lambda>f. f < next_fid s) (task_fids t)
      then case settle u n [t] s of Some s'' \<Rightarrow> play u n as s'' | None \<Rightarrow> None else None)"

lemma run_fuel_reach:
  "freach u (s, [ts]) \<Longrightarrow> run_fuel (seq_step u) n (s, ts) = Some (s', ts') \<Longrightarrow> freach u (s', [ts'])"
proof (induction n arbitrary: s ts)
  case 0
  then show ?case by (auto split: option.splits)
next
  case (Suc n)
  show ?case
  proof (cases "seq_step u (s, ts)")
    case None
    with Suc.prems show ?thesis by simp
  next
    case (Some c)
    then obtain t rs s1 new where e: "ts = t # rs" "aborted s = None" "exec u t s = (s1, new)"
      "c = (s1, new @ rs)"
      by (auto elim: seq_stepE)
    then have "freach u (s1, [new @ rs])"
      using freach.step [OF Suc.prems(1)] fstep.perform [of s u t s1 new "[]" rs "[]"] by simp
    then show ?thesis using Suc.IH Suc.prems(2) Some e(4) by simp
  qed
qed

lemma play_reach:
  "play u n as s = Some s' \<Longrightarrow> freach u (s, [[]]) \<Longrightarrow> freach u (s', [[]])"
proof (induction u n as s rule: play.induct)
  case (1 u n s)
  then show ?case by simp
next
  case (2 u n k as s)
  obtain s1 ts f where m: "make k s = (s1, ts, f)" by (cases "make k s")
  with 2 obtain s2 where s2: "settle u n ts s1 = Some s2" "play u n as s2 = Some s'" "aborted s = None"
      "\<forall>f\<in>set (mk_fids k). f < next_fid s"
    by (auto simp: list_all_iff split: if_splits option.splits)
  then have "freach u (s1, [ts])"
    using freach.step [OF "2.prems"(2)] fstep.create [OF s2(3,4) m, of u "[]" "[]" "[]"] by simp
  then have "freach u (s2, [[]])"
    using s2(1) run_fuel_reach [of u s1 ts n s2 "[]"]
    by (auto simp: settle_def split: option.splits list.splits)
  with 2 s2 m show ?case by (auto simp: list_all_iff)
next
  case (3 u n t as s)
  then obtain s2 where s2: "settle u n [t] s = Some s2" "play u n as s2 = Some s'" "aborted s = None"
      "client_call t" "\<forall>f\<in>set (task_fids t). f < next_fid s"
    by (auto simp: list_all_iff split: if_splits option.splits)
  then have "freach u (s, [[t]])"
    using freach.step [OF "3.prems"(2)] fstep.call [OF s2(3,4,5), of u "[]" "[]" "[]"] by simp
  then have "freach u (s2, [[]])"
    using s2(1) run_fuel_reach [of u s "[t]" n s2 "[]"]
    by (auto simp: settle_def split: option.splits list.splits)
  with 3 s2 show ?case by (auto simp: list_all_iff)
qed

lemma play_start: "play u n as empty_store = Some s \<Longrightarrow> freach u (s, [[]])"
  using play_reach freach.start [of u 1] by simp

definition demo :: "nat store" where
  "demo = the (play probe 60
     [Mk MkPromise, Mk (MkThenf 7 0), Call (OnReady 0 (User 3)), Call (PromiseSet 0 (Val 5))] empty_store)"

lemma demo_eval:
  "play probe 60
     [Mk MkPromise, Mk (MkThenf 7 0), Call (OnReady 0 (User 3)), Call (PromiseSet 0 (Val 5))] empty_store \<noteq> None"
  "isReady demo 0" "isReady demo 1" "Associated 1 2 \<in> set (log demo)" "isReady demo 2" "next_fid demo = 3"
  by code_simp+

lemma demo_reach: "freach probe (demo, [[]])"
  unfolding demo_def using demo_eval(1) by (metis option.collapse play_start)

lemma demo_wf: "store_wf demo"
  using freach_wf [OF demo_reach probe_ok] by (simp add: conf_wf_def)

lemma demo_pending [simp]: "\<not> isPending demo 0" "\<not> isPending demo 2"
  using demo_eval(2,5) by (simp_all add: state_defs)

section \<open>Concurrent executions\<close>

text \<open>C1. Completion is final. Once a future is ready, failed or discarded, no step of any thread
  (client calls, callbacks, timers) ever changes its state or its result again.\<close>

theorem completed_future_is_final:
  assumes "user_ok u" and "freach u (s, ths)" and "(fstep u)\<^sup>*\<^sup>* (s, ths) (s', ths')"
    and "f < next_fid s" and "\<not> isPending s f"
  shows "fstate (futs s' f) = fstate (futs s f) \<and> fresult (futs s' f) = fresult (futs s f)"
proof -
  have "evolves s s'" using fsteps_evolves [OF assms(1,3)] freach_wf [OF assms(2,1)] by simp
  then show ?thesis using assms(4,5) by (simp add: evolves_def)
qed

theorem completed_future_is_final_witness:
  "user_ok probe \<and> freach probe (demo, [[]]) \<and> \<not> isPending demo 0
    \<and> fresult (futs (demo\<lparr>weak_gone := (weak_gone demo)(0 := True)\<rparr>) 0) = fresult (futs demo 0)"
  using completed_future_is_final [OF probe_ok demo_reach r_into_rtranclp [of "fstep probe",
        OF fstep.weak [of probe demo "[[]]" 0]], of 0] probe_ok demo_reach demo_eval(6)
  by simp

text \<open>C2. Exactly one completion. In every reachable configuration the number of \<^verbatim>\<open>set\<close>, \<^verbatim>\<open>fail\<close> and
  promise \<^verbatim>\<open>discard\<close> calls that returned true for a future is 0 while it is pending and 1 afterwards,
  whatever the threads race on.\<close>

theorem exactly_one_completion:
  assumes "user_ok u" and "freach u (s, ths)"
  shows "completions s f = (if isPending s f then 0 else 1)"
  using once.reach [OF assms] by (simp add: once_inv_def)

theorem exactly_one_completion_witness:
  "user_ok probe \<and> freach probe (demo, [[]]) \<and> completions demo 0 = 1"
  using exactly_one_completion [OF probe_ok demo_reach, of 0] probe_ok demo_reach by simp

text \<open>C6. The result field agrees with the state, as the comment in \<^verbatim>\<open>Future::Data\<close> says: a value exactly
  when ready, a message exactly when failed, nothing while pending or discarded; so \<^verbatim>\<open>get\<close> on a ready
  future returns a value and \<^verbatim>\<open>failure\<close> on a failed one its message.\<close>

theorem future_data_invariant:
  assumes "user_ok u" and "freach u (s, ths)"
  shows "(isReady s f \<longleftrightarrow> (\<exists>v. fresult (futs s f) = RSome v))
    \<and> (isFailed s f \<longleftrightarrow> (\<exists>m. fresult (futs s f) = RError m))
    \<and> (isPending s f \<or> isDiscarded s f \<longleftrightarrow> fresult (futs s f) = RNone)
    \<and> (isReady s f \<longrightarrow> (\<exists>v. future_get s f = GetValue (AValue v)))
    \<and> (future_failure s f = None \<longleftrightarrow> \<not> isFailed s f)"
proof -
  have "data_ok (futs s f)"
    using freach_wf [OF assms(2,1)] store_wfD(1) [of s f] by (simp add: conf_wf_def)
  then show ?thesis
    by (cases "fresult (futs s f)")
       (auto simp: data_ok_def state_defs future_get_def future_failure_def result_value_def)
qed

theorem future_data_invariant_witness:
  "user_ok probe \<and> freach probe (demo, [[]]) \<and> (\<exists>v. future_get demo 0 = GetValue (AValue v))"
  using future_data_invariant [OF probe_ok demo_reach, of 0] probe_ok demo_reach demo_eval(2) by blast

text \<open>C4. The \<^verbatim>\<open>CHECK\<close>s of \<^verbatim>\<open>internal::repair\<close> (the future is not pending) and of \<^verbatim>\<open>internal::after\<close> (the
  future is not pending; the timer is still set when the latch is won) never fail.\<close>

theorem checks_never_fail:
  assumes "user_ok u" and "freach u (s, ths)"
  shows "aborted s \<noteq> Some CheckRepairPending \<and> aborted s \<noteq> Some CheckAfterPending
    \<and> aborted s \<noteq> Some CheckAfterTimer"
  using checks.reach [OF assms] by (auto simp: checks_inv_def)

theorem checks_never_fail_witness:
  "user_ok probe \<and> freach probe (demo, [[]]) \<and> aborted demo \<noteq> Some CheckRepairPending"
  using checks_never_fail [OF probe_ok demo_reach] probe_ok demo_reach by blast

text \<open>C3. Association loses no completion. If a promise's future \<open>f\<close> was associated with \<open>g\<close> and \<open>g\<close> has
  completed, then as soon as all threads have run their callbacks \<open>f\<close> has completed too.\<close>

theorem association_loses_no_completion:
  assumes "user_ok u" and "freach u (s, ths)" and "\<forall>ts\<in>set ths. ts = []"
    and "Associated f g \<in> set (log s)" and "\<not> isPending s g"
  shows "\<not> isPending s f"
proof -
  have "concat ths = []" using assms(3) by simp
  then have "assoc_inv s {#}" using assoc.reach [OF assms(1,2)] by (simp only: mset.simps)
  then have "owes s {#} f g" using assms(4) by (simp add: assoc_inv_def)
  then show ?thesis
    using assms(5)
    by (cases rule: state_cases [of s g]) (auto simp: owes_def owes_set_def owes_fail_def owes_discarded_def)
qed

theorem association_loses_no_completion_witness:
  "user_ok probe \<and> freach probe (demo, [[]]) \<and> Associated 1 2 \<in> set (log demo) \<and> \<not> isPending demo 1"
  using association_loses_no_completion [OF probe_ok demo_reach, of 1 2] probe_ok demo_reach demo_eval(4)
  by simp

section \<open>Sequential executions\<close>

text \<open>C5. Running callbacks terminates: with the fuel \<open>work B s ts\<close> the tasks of a thread run to the end and
  leave a well-formed store, whatever callbacks are installed on the futures, if each client callable
  has a budget \<open>B fn\<close>: the work that a call of it leaves behind, combinators with other callables included,
  weighs no more than its budget. Such budgets exist when callables nest, to any depth, without a cycle.
  The callables use no \<^verbatim>\<open>after\<close>, whose timer would run later (\<open>user_ok\<close>).\<close>

theorem callbacks_terminate:
  assumes "user_ok u" and "user_budget B u" and "store_wf s" and "tasks_wf s ts"
  shows "\<exists>s'. run_tasks u (work B s ts) ts s = Some s' \<and> store_wf s'"
  using run_tasks_terminates [OF assms order_refl] .

theorem callbacks_terminate_witness:
  "\<exists>s'. run_tasks nesting (work nested_budget demo [CallAssociate 3 ANone 1]) [CallAssociate 3 ANone 1] demo = Some s' \<and> store_wf s'"
  by (rule callbacks_terminate [OF nesting_ok nesting_budget demo_wf])
     (simp add: tasks_wf_def demo_eval(6))

text \<open> A callback runs at most once per installation: executing any tasks, a client callback is invoked
  at most as often as it is installed on futures of the store or about to be installed or invoked by
  the tasks.\<close>

theorem callback_at_most_once:
  assumes "user_ok u" and "user_avoids n u" and "store_wf s" and "tasks_wf s ts"
    and "run_tasks u k ts s = Some s'" and "invocations n s = 0"
    and "store_users n s + task_users n ts \<le> 1"
  shows "invocations n s' \<le> 1"
  using run_tasks_occurrences [OF assms(1-5)] assms(6,7) by (simp add: occurrences_def)

theorem callback_at_most_once_witness:
  "invocations 9 (the (run_tasks quiet 20 [OnAny 1 (User 9)] demo)) \<le> 1
    \<and> invocations 9 (the (run_tasks quiet 20 [OnAny 1 (User 9)] demo)) = 1"
proof -
  have r: "run_tasks quiet 20 [OnAny 1 (User 9)] demo \<noteq> None"
    and v: "invocations 9 (the (run_tasks quiet 20 [OnAny 1 (User 9)] demo)) = 1"
    and z: "invocations 9 demo = 0" "store_users 9 demo + task_users 9 [OnAny 1 (User 9) :: nat task] \<le> 1"
    by (code_simp | simp add: run_tasks_def)+
  obtain s' where "run_tasks quiet 20 [OnAny 1 (User 9)] demo = Some s'" using r by auto
  from callback_at_most_once [OF quiet_ok quiet_avoids demo_wf _ this z] v this
  show ?thesis by (simp add: tasks_wf_def demo_eval(6))
qed

section \<open>What the combinators do\<close>

lemma run_user_callbacks:
  "aborted s = None \<Longrightarrow>
   run_fuel (seq_step u) (length ns + k) (s, map (\<lambda>n. Invoke (User n) a) ns @ ts)
   = run_fuel (seq_step u) k (s\<lparr>log := log s @ map (\<lambda>n. Invoked n a) ns\<rparr>, ts)"
  by (induction ns arbitrary: s) (simp_all add: emit_def)

text \<open> Setting a pending future runs its \<^verbatim>\<open>onReady\<close> callbacks in the order of installation, each with
  the value, then its \<^verbatim>\<open>onAny\<close> callbacks in order, each with the future, and leaves it ready with no
  callback installed.\<close>

theorem set_runs_callbacks_in_order:
  assumes "aborted s = None" and "isPending s f"
    and "onReadyCallbacks (futs s f) = map User ns" and "onAnyCallbacks (futs s f) = map User ms"
  shows "\<exists>s'. run_tasks u (length ns + length ms + 3) [Set f v] s = Some s'
    \<and> log s' = log s @ [Returned OpSet f True] @ map (\<lambda>n. Invoked n (AValue v)) ns
        @ map (\<lambda>n. Invoked n (AFuture f)) ms
    \<and> isReady s' f \<and> result_value s' f = AValue v \<and> data_cbs (futs s' f) = []"
proof -
  let ?s1 = "emit (Returned OpSet f True)
    (upd f (\<lambda>d. d\<lparr>fresult := RSome v, fstate := READY, onReadyCallbacks := []\<rparr>) s)"
  let ?s2 = "?s1\<lparr>log := log ?s1 @ map (\<lambda>n. Invoked n (AValue v)) ns\<rparr>"
  let ?s3 = "upd f (\<lambda>d. d\<lparr>onAnyCallbacks := []\<rparr>) ?s2"
  let ?s4 = "?s3\<lparr>log := log ?s3 @ map (\<lambda>n. Invoked n (AFuture f)) ms\<rparr>"
  have "run_fuel (seq_step u) (Suc (length ns + Suc (length ms + 1))) (s, [Set f v])
      = run_fuel (seq_step u) (length ns + Suc (length ms + 1))
          (?s1, map (\<lambda>n. Invoke (User n) (AValue v)) ns @ [RunAny f, ClearAll f])"
    using assms(1-3) by (simp add: fut_set_def comp_def)
  also have "\<dots> = run_fuel (seq_step u) (Suc (length ms + 1)) (?s2, [RunAny f, ClearAll f])"
    using assms(1) by (subst run_user_callbacks) simp_all
  also have "\<dots> = run_fuel (seq_step u) (length ms + 1)
      (?s3, map (\<lambda>n. Invoke (User n) (AFuture f)) ms @ [ClearAll f])"
    using assms(1,4) by (simp add: run_any_def comp_def)
  also have "\<dots> = run_fuel (seq_step u) 1 (?s4, [ClearAll f])"
    using assms(1) by (subst run_user_callbacks) simp_all
  also have "\<dots> = Some (upd f clearAllCallbacks ?s4, [])" using assms(1) by simp
  finally have "run_tasks u (length ns + length ms + 3) [Set f v] s = Some (upd f clearAllCallbacks ?s4)"
    by (simp add: run_tasks_def numeral_3_eq_3 del: run_fuel.simps)
  then show ?thesis
    by (simp add: clearAllCallbacks_def isReady_def result_value_def data_cbs_def)
qed

theorem set_runs_callbacks_in_order_witness:
  "\<exists>s'. run_tasks quiet 4 [Set 0 (Val 5)] (empty_store\<lparr>futs := (\<lambda>_. new_data\<lparr>onReadyCallbacks := [User 3]\<rparr>)\<rparr>) = Some s'
    \<and> log s' = [Returned OpSet 0 True, Invoked 3 (AValue (Val 5))]"
proof -
  let ?s = "empty_store\<lparr>futs := (\<lambda>_. new_data\<lparr>onReadyCallbacks := [User 3]\<rparr>)\<rparr> :: nat store"
  have h: "aborted ?s = None" "isPending ?s 0" "onReadyCallbacks (futs ?s 0) = map User [3]"
    "onAnyCallbacks (futs ?s 0) = map User []" "log ?s = []"
    by (simp_all add: empty_store_def isPending_def)
  then show ?thesis
    using set_runs_callbacks_in_order [OF h(1-4), of quiet "Val 5"] by auto
qed

lemmas evaluate = run_tasks_def eval_nat_numeral op_defs internal_defs state_defs hasDiscard_def
  result_value_def result_error_def clearAllCallbacks_def upd_def emit_def make_defs alloc_def

lemma then_outcomes:
  assumes "aborted s = None" and "f < next_fid s" and "futs s f = new_data\<lparr>fdiscard := d\<rparr>"
    and "future_then fn f s = (s1, ts, p)" and "val_fn u fn (AValue v) = (\<lambda>r. (r, [], w))"
  shows "\<exists>s'. run_tasks u 20 (ts @ [Fail f m]) s1 = Some s' \<and> isFailed s' p \<and> result_error s' p = m"
    and "\<exists>s'. run_tasks u 20 (ts @ [Discarded f]) s1 = Some s' \<and> isDiscarded s' p"
    and "\<exists>s'. run_tasks u 20 (ts @ [Set f v]) s1 = Some s'
      \<and> (if d then isDiscarded s' p else isReady s' p \<and> result_value s' p = AValue w)"
  using assms by (cases d; auto simp: evaluate)+

text \<open> \<^verbatim>\<open>then\<close> propagates the outcome. For \<open>p\<close> the future returned by \<^verbatim>\<open>f.then(fn)\<close> on a pending future
  without callbacks: a failure of \<open>f\<close> fails \<open>p\<close> with the same message, a discard of \<open>f\<close> discards \<open>p\<close>, a
  value of \<open>f\<close> when a discard of \<open>f\<close> was requested discards \<open>p\<close>, and otherwise \<open>p\<close> gets the value that
  the callable returns.\<close>

theorem then_propagates_outcome:
  assumes "aborted s = None" and "f < next_fid s" and "futs s f = new_data\<lparr>fdiscard := d\<rparr>"
    and "future_then fn f s = (s1, ts, p)" and "val_fn u fn (AValue v) = (\<lambda>r. (r, [], w))"
  shows "(\<exists>s'. run_tasks u 20 (ts @ [Fail f m]) s1 = Some s' \<and> isFailed s' p \<and> result_error s' p = m)
    \<and> (\<exists>s'. run_tasks u 20 (ts @ [Discarded f]) s1 = Some s' \<and> isDiscarded s' p)
    \<and> (\<exists>s'. run_tasks u 20 (ts @ [Set f v]) s1 = Some s'
        \<and> (if d then isDiscarded s' p else isReady s' p \<and> result_value s' p = AValue w))"
  using then_outcomes [OF assms] by blast

definition one_pending :: "nat store" where
  "one_pending = empty_store\<lparr>next_fid := 1\<rparr>"

lemma one_pending_sel:
  "aborted one_pending = None" "next_fid one_pending = 1" "futs one_pending f = new_data"
  "weak_gone one_pending f = False"
  by (simp_all add: one_pending_def empty_store_def)

theorem then_propagates_outcome_witness:
  "\<exists>s'. run_tasks quiet 20 (fst (snd (future_then 7 0 one_pending)) @ [Set 0 (Val 5)])
      (fst (future_then 7 0 one_pending)) = Some s' \<and> isReady s' 1 \<and> result_value s' 1 = AValue (Val 0)"
proof -
  have "future_then 7 0 one_pending = (fst (future_then 7 0 one_pending),
      fst (snd (future_then 7 0 one_pending)), 1)"
    by (simp add: make_defs alloc_def one_pending_sel)
  from then_propagates_outcome [of one_pending 0 False 7 _ _ _ quiet "Val 5" "Val 0" "''boom''", OF _ _ _ this]
  show ?thesis by (simp add: one_pending_sel quiet_def new_data_def)
qed

text \<open> A discard requested on the future returned by \<^verbatim>\<open>then\<close> reaches the original future (as long as
  that one is alive), while \<^verbatim>\<open>undiscardable\<close> blocks it; neither completes anything by itself.\<close>

theorem discard_propagates_unless_undiscardable:
  assumes "aborted s = None" and "f < next_fid s" and "futs s f = new_data"
    and "future_then fn f s = (s1, ts, p)" and "future_undiscardable f s = (s2, ts', q)"
  shows "(\<exists>s'. run_tasks u 20 (ts @ [Discard p]) s1 = Some s' \<and> hasDiscard s' p
        \<and> (hasDiscard s' f \<longleftrightarrow> \<not> weak_gone s f) \<and> isPending s' f \<and> isPending s' p)
    \<and> (\<exists>s'. run_tasks u 20 (ts' @ [Discard q]) s2 = Some s' \<and> hasDiscard s' q
        \<and> \<not> hasDiscard s' f \<and> isPending s' f \<and> isPending s' q)"
  using assms by (cases "weak_gone s f") (auto simp: evaluate)

theorem discard_propagates_unless_undiscardable_witness:
  "\<exists>s'. run_tasks quiet 20 (fst (snd (future_then 7 0 one_pending)) @ [Discard 1])
      (fst (future_then 7 0 one_pending)) = Some s' \<and> hasDiscard s' 0"
proof -
  have e: "future_then 7 0 one_pending = (fst (future_then 7 0 one_pending),
      fst (snd (future_then 7 0 one_pending)), 1)"
    by (simp add: make_defs alloc_def one_pending_sel)
  obtain s2 ts' q where q: "future_undiscardable 0 one_pending = (s2, ts', q)" by (metis prod_cases3)
  show ?thesis
    using discard_propagates_unless_undiscardable [OF one_pending_sel(1) _ one_pending_sel(3) e q, of quiet]
    by (auto simp: one_pending_sel)
qed

text \<open> Abandonment through an association, the scenario of the comment at \<^verbatim>\<open>Future::abandon\<close>: destroying
  a promise whose future has been associated leaves that future alone, and destroying the promise of
  the other future abandons both.\<close>

theorem abandon_propagates_through_association:
  assumes "aborted s = None" and "f < next_fid s" and "g < next_fid s" and "f \<noteq> g"
    and "futs s f = new_data" and "futs s g = new_data"
  shows "\<exists>s'. run_tasks u 20 [PromiseAssociate f g, PromiseDestroy f] s = Some s'
    \<and> \<not> isAbandoned s' f \<and> \<not> isAbandoned s' g
    \<and> (\<exists>s''. run_tasks u 20 [PromiseDestroy g] s' = Some s'' \<and> isAbandoned s'' f \<and> isAbandoned s'' g)"
  using assms by (auto simp: evaluate isAbandoned_def)

theorem abandon_propagates_through_association_witness:
  "\<exists>s'. run_tasks quiet 20 [PromiseAssociate 0 1, PromiseDestroy 0] (one_pending\<lparr>next_fid := 2\<rparr>) = Some s'
    \<and> \<not> isAbandoned s' 0"
  using abandon_propagates_through_association [of "one_pending\<lparr>next_fid := 2\<rparr>" 0 1 quiet]
  by (auto simp: one_pending_sel)

text \<open> \<^verbatim>\<open>Future<T>::failed\<close> leaves the flag \<open>abandoned\<close> of the default constructor set, so \<^verbatim>\<open>recover\<close> on
  such a future runs its callable twice: once for the failure and once for the abandonment, although
  it is a \<^verbatim>\<open>CallableOnce\<close>. On a future constructed from a \<^verbatim>\<open>Failure\<close> the callable runs once.\<close>

theorem recover_runs_twice_on_failed:
  "map_option (invocations 7) (play probe 60 [Mk (MkFailed ''m''), Mk (MkRecover 7 0)] empty_store) = Some 2
    \<and> map_option (invocations 7) (play probe 60 [Mk (MkFailure ''m''), Mk (MkRecover 7 0)] empty_store) = Some 1"
  by code_simp

end
