(* ===== verification/Promise_Interface.thy ===== *)
theory Promise_Interface
  imports Future_Once
begin

text \<open>
  The part of the future library that the synchronization primitives (\<^verbatim>\<open>Mutex\<close>, \<^verbatim>\<open>ReadWriteLock\<close>,
  \<^verbatim>\<open>Queue\<close>, \<^verbatim>\<open>RateLimiter\<close>, \<^verbatim>\<open>CountDownLatch\<close>, \<^verbatim>\<open>collect\<close>) use: they make promises and ready futures,
  set and discard promises and hand out the futures. The primitives are modelled over a record of
  these operations; the locale \<open>promise_store\<close> states the laws they rely on, and the interpretation
  \<open>fs\<close> proves the laws for the future store.
\<close>

section \<open>Operations and laws\<close>

record ('s, 'v) promises =
  new_promise :: "'s \<Rightarrow> 's \<times> fid"
  new_ready :: "'v \<Rightarrow> 's \<Rightarrow> 's \<times> fid"
  set_promise :: "fid \<Rightarrow> 'v \<Rightarrow> 's \<Rightarrow> 's"
  fail_promise :: "fid \<Rightarrow> string \<Rightarrow> 's \<Rightarrow> 's"
  discard_promise :: "fid \<Rightarrow> 's \<Rightarrow> 's"
  destroy_promise :: "fid \<Rightarrow> 's \<Rightarrow> 's"
  status :: "'s \<Rightarrow> fid \<Rightarrow> fstate"

text \<open>\<open>bound\<close> is the next identifier, \<open>content\<close> what a completed future holds, \<open>free\<close> says that the future
  has not been associated with another one.\<close>

locale promise_store =
  fixes P :: "('s, 'v) promises" and bound :: "'s \<Rightarrow> fid" and content :: "'s \<Rightarrow> fid \<Rightarrow> 'v option"
    and free :: "'s \<Rightarrow> fid \<Rightarrow> bool"
  assumes new_promise: "new_promise P s = (s', f) \<Longrightarrow>
      f = bound s \<and> bound s' = Suc f \<and> status P s' = (status P s)(f := PENDING)
      \<and> (\<forall>g<f. content s' g = content s g) \<and> free s' = (free s)(f := True)"
    and new_ready: "new_ready P v s = (s', f) \<Longrightarrow>
      f = bound s \<and> bound s' = Suc f \<and> status P s' = (status P s)(f := READY)
      \<and> content s' f = Some v \<and> (\<forall>g<f. content s' g = content s g) \<and> free s' = (free s)(f := True)"
    and set_promise: "free s f \<Longrightarrow> status P s f = PENDING \<Longrightarrow>
      status P (set_promise P f v s) = (status P s)(f := READY)
      \<and> content (set_promise P f v s) = (content s)(f := Some v)
      \<and> free (set_promise P f v s) = free s \<and> bound (set_promise P f v s) = bound s"
    and fail_promise: "free s f \<Longrightarrow> status P s f = PENDING \<Longrightarrow>
      status P (fail_promise P f m s) = (status P s)(f := FAILED)
      \<and> content (fail_promise P f m s) = content s
      \<and> free (fail_promise P f m s) = free s \<and> bound (fail_promise P f m s) = bound s"
    and discard_promise: "free s f \<Longrightarrow> status P s f = PENDING \<Longrightarrow>
      status P (discard_promise P f s) = (status P s)(f := DISCARDED)
      \<and> content (discard_promise P f s) = content s
      \<and> free (discard_promise P f s) = free s \<and> bound (discard_promise P f s) = bound s"
    and completed_stays: "status P s f \<noteq> PENDING \<Longrightarrow>
      status P (set_promise P f v s) = status P s \<and> status P (fail_promise P f m s) = status P s
      \<and> status P (discard_promise P f s) = status P s
      \<and> content (set_promise P f v s) = content s \<and> content (fail_promise P f m s) = content s
      \<and> content (discard_promise P f s) = content s
      \<and> free (set_promise P f v s) = free s \<and> free (fail_promise P f m s) = free s
      \<and> free (discard_promise P f s) = free s
      \<and> bound (set_promise P f v s) = bound s \<and> bound (fail_promise P f m s) = bound s
      \<and> bound (discard_promise P f s) = bound s"
    and destroy_promise: "status P (destroy_promise P f s) = status P s
      \<and> content (destroy_promise P f s) = content s \<and> free (destroy_promise P f s) = free s
      \<and> bound (destroy_promise P f s) = bound s"
begin

lemmas promise_laws = set_promise fail_promise discard_promise destroy_promise

end

section \<open>The future store provides them\<close>

text \<open>The state: the store and the callbacks that completing futures has made runnable, in order.\<close>

type_synonym 'a fstore = "'a store \<times> 'a task list"

definition run_on :: "('a store \<Rightarrow> 'a store \<times> 'a task list) \<Rightarrow> 'a fstore \<Rightarrow> 'a fstore" where
  "run_on op c = (case op (fst c) of (s', new) \<Rightarrow> (s', snd c @ new))"

text \<open>A promise call: the check of \<open>associated\<close>, then the operation on the future.\<close>

definition promise_call ::
    "fid \<Rightarrow> ('a store \<Rightarrow> 'a store \<times> 'a task list) \<Rightarrow> 'a fstore \<Rightarrow> 'a fstore" where
  "promise_call f op c = (if \<not> fassociated (futs (fst c) f) then run_on op c else c)"

definition store_promises :: "('a fstore, 'a val) promises" where
  "store_promises = \<lparr>
     new_promise = (\<lambda>c. case make_promise (fst c) of (s', f) \<Rightarrow> ((s', snd c), f)),
     new_ready = (\<lambda>v c. case alloc new_data (fst c) of (s', f) \<Rightarrow> (run_on (fut_set f v) (s', snd c), f)),
     set_promise = (\<lambda>f v. promise_call f (fut_set f v)),
     fail_promise = (\<lambda>f m. promise_call f (fut_fail f m)),
     discard_promise = (\<lambda>f. promise_call f (fut_discarded f)),
     destroy_promise = (\<lambda>f. run_on (fut_abandon f False)),
     status = (\<lambda>c f. fstate (futs (fst c) f))\<rparr>"

definition stored :: "'a fstore \<Rightarrow> fid \<Rightarrow> 'a val option" where
  "stored c f = (if fstate (futs (fst c) f) = READY
     then (case fresult (futs (fst c) f) of RSome v \<Rightarrow> Some v | _ \<Rightarrow> None) else None)"

lemmas store_promises_defs = store_promises_def run_on_def promise_call_def stored_def

interpretation fs: promise_store "store_promises :: ('a fstore, 'a val) promises" "\<lambda>c. next_fid (fst c)" stored
  "\<lambda>c f. \<not> fassociated (futs (fst c) f)"
proof unfold_locales
  fix s s' :: "'a fstore" and f
  assume "new_promise store_promises s = (s', f)"
  then show "f = next_fid (fst s) \<and> next_fid (fst s') = Suc f
    \<and> status store_promises s' = (status store_promises s)(f := PENDING)
    \<and> (\<forall>g<f. stored s' g = stored s g)
    \<and> (\<lambda>f. \<not> fassociated (futs (fst s') f)) = (\<lambda>f. \<not> fassociated (futs (fst s) f))(f := True)"
    by (auto simp: store_promises_defs make_defs alloc_def fun_eq_iff)
next
  fix s s' :: "'a fstore" and f v
  assume "new_ready store_promises v s = (s', f)"
  then show "f = next_fid (fst s) \<and> next_fid (fst s') = Suc f
    \<and> status store_promises s' = (status store_promises s)(f := READY)
    \<and> stored s' f = Some v \<and> (\<forall>g<f. stored s' g = stored s g)
    \<and> (\<lambda>f. \<not> fassociated (futs (fst s') f)) = (\<lambda>f. \<not> fassociated (futs (fst s) f))(f := True)"
    by (auto simp: store_promises_defs alloc_def fut_set_def isPending_def fun_eq_iff)
qed (auto simp: store_promises_defs fut_set_def fut_fail_def fut_discarded_def fut_abandon_def
    isPending_def fun_eq_iff split: fresult.split)

end
