(* ===== verification/Locks.thy ===== *)
theory Locks
  imports Promise_Interface
begin

text \<open>
  \<^verbatim>\<open>include/process/mutex.hpp\<close> and \<^verbatim>\<open>include/process/rwlock.hpp\<close>: locks whose \<^verbatim>\<open>lock\<close> operations return
  futures. The critical sections under the internal spin lock are single steps; the waiters' promises
  are set after it, as in the code. A run is a sequence of calls with the futures issued so far; the
  lemmas inside the locale \<open>promise_store\<close> show first-in first-out granting and exclusion for every
  run in which only holders unlock.
\<close>

section \<open>Mutex\<close>

record mutex =
  locked :: bool
  waiters :: "fid list"

definition mutex_init :: mutex where
  "mutex_init = \<lparr>locked = False, waiters = []\<rparr>"

definition mutex_lock :: "('s, 'v) promises \<Rightarrow> 'v \<Rightarrow> mutex \<Rightarrow> 's \<Rightarrow> mutex \<times> 's \<times> fid" where
  "mutex_lock P nothing m s =
    (case new_ready P nothing s of (s1, future) \<Rightarrow>
       if \<not> locked m then (m\<lparr>locked := True\<rparr>, s1, future)
       else case new_promise P s1 of (s2, waiter) \<Rightarrow>
         (m\<lparr>waiters := waiters m @ [waiter]\<rparr>, s2, waiter))"

definition mutex_unlock :: "('s, 'v) promises \<Rightarrow> 'v \<Rightarrow> mutex \<Rightarrow> 's \<Rightarrow> mutex \<times> 's" where
  "mutex_unlock P nothing m s =
    (case waiters m of
       waiter # rest \<Rightarrow>
         (m\<lparr>waiters := rest\<rparr>, destroy_promise P waiter (set_promise P waiter nothing s))
     | [] \<Rightarrow> (m\<lparr>locked := False\<rparr>, s))"

datatype lock_op = Lock | Unlock

text \<open>A run from a mutex, a store and the futures issued so far, in order of the calls.\<close>

fun mutex_run :: "('s, 'v) promises \<Rightarrow> 'v \<Rightarrow> lock_op list \<Rightarrow> mutex \<times> 's \<times> fid list
    \<Rightarrow> mutex \<times> 's \<times> fid list" where
  "mutex_run P n [] c = c"
| "mutex_run P n (Lock # ops) (m, s, issued) =
     (case mutex_lock P n m s of (m', s', f) \<Rightarrow> mutex_run P n ops (m', s', issued @ [f]))"
| "mutex_run P n (Unlock # ops) (m, s, issued) =
     (case mutex_unlock P n m s of (m', s') \<Rightarrow> mutex_run P n ops (m', s', issued))"

text \<open>Only a holder unlocks: in every prefix there are at most as many unlocks as locks. \<open>a\<close> and \<open>b\<close> count
  the locks and unlocks made before.\<close>

fun lock_discipline :: "nat \<Rightarrow> nat \<Rightarrow> lock_op list \<Rightarrow> bool" where
  "lock_discipline a b [] = True"
| "lock_discipline a b (Lock # ops) = lock_discipline (Suc a) b ops"
| "lock_discipline a b (Unlock # ops) = (b < a \<and> lock_discipline a (Suc b) ops)"

section \<open>Read-write lock\<close>

datatype waiter_type = READ | WRITE

record rwlock =
  read_locked :: nat
  write_locked :: bool
  rw_waiters :: "(waiter_type \<times> fid) list"

definition rwlock_init :: rwlock where
  "rwlock_init = \<lparr>read_locked = 0, write_locked = False, rw_waiters = []\<rparr>"

datatype rw_error = CheckWriteLocked | CheckNoReaders | CheckNotWriteLocked | CheckReaders | CheckFrontWrite

definition write_lock :: "('s, 'v) promises \<Rightarrow> 'v \<Rightarrow> rwlock \<Rightarrow> 's \<Rightarrow> rwlock \<times> 's \<times> fid" where
  "write_lock P nothing r s =
    (case new_ready P nothing s of (s1, future) \<Rightarrow>
       if \<not> write_locked r \<and> read_locked r = 0 then (r\<lparr>write_locked := True\<rparr>, s1, future)
       else case new_promise P s1 of (s2, w) \<Rightarrow>
         (r\<lparr>rw_waiters := rw_waiters r @ [(WRITE, w)]\<rparr>, s2, w))"

definition read_lock :: "('s, 'v) promises \<Rightarrow> 'v \<Rightarrow> rwlock \<Rightarrow> 's \<Rightarrow> rwlock \<times> 's \<times> fid" where
  "read_lock P nothing r s =
    (case new_ready P nothing s of (s1, future) \<Rightarrow>
       if \<not> write_locked r \<and> rw_waiters r = [] then (r\<lparr>read_locked := Suc (read_locked r)\<rparr>, s1, future)
       else case new_promise P s1 of (s2, w) \<Rightarrow>
         (r\<lparr>rw_waiters := rw_waiters r @ [(READ, w)]\<rparr>, s2, w))"

text \<open>Setting the unblocked waiters, in queue order, after the critical section.\<close>

definition unblock :: "('s, 'v) promises \<Rightarrow> 'v \<Rightarrow> fid list \<Rightarrow> 's \<Rightarrow> 's" where
  "unblock P nothing ws s = fold (\<lambda>w s. destroy_promise P w (set_promise P w nothing s)) ws s"

definition write_unlock :: "('s, 'v) promises \<Rightarrow> 'v \<Rightarrow> rwlock \<Rightarrow> 's \<Rightarrow> rw_error + rwlock \<times> 's" where
  "write_unlock P nothing r s =
    (if \<not> write_locked r then Inl CheckWriteLocked
     else if read_locked r \<noteq> 0 then Inl CheckNoReaders
     else let r1 = r\<lparr>write_locked := False\<rparr> in
       case rw_waiters r1 of
         [] \<Rightarrow> Inr (r1, s)
       | (READ, _) # _ \<Rightarrow>
           let unblocked = takeWhile (\<lambda>w. fst w = READ) (rw_waiters r1) in
           Inr (r1\<lparr>rw_waiters := dropWhile (\<lambda>w. fst w = READ) (rw_waiters r1),
                   read_locked := length unblocked\<rparr>,
                unblock P nothing (map snd unblocked) s)
       | (WRITE, w) # rest \<Rightarrow>
           Inr (r1\<lparr>rw_waiters := rest, write_locked := True\<rparr>, unblock P nothing [w] s))"

definition read_unlock :: "('s, 'v) promises \<Rightarrow> 'v \<Rightarrow> rwlock \<Rightarrow> 's \<Rightarrow> rw_error + rwlock \<times> 's" where
  "read_unlock P nothing r s =
    (if write_locked r then Inl CheckNotWriteLocked
     else if \<not> read_locked r > 0 then Inl CheckReaders
     else let r1 = r\<lparr>read_locked := read_locked r - 1\<rparr> in
       if read_locked r1 = 0 \<and> rw_waiters r1 \<noteq> []
       then (case rw_waiters r1 of
               (WRITE, w) # rest \<Rightarrow>
                 Inr (r1\<lparr>rw_waiters := rest, write_locked := True\<rparr>, unblock P nothing [w] s)
             | _ \<Rightarrow> Inl CheckFrontWrite)
       else Inr (r1, s))"

datatype rw_op = ReadLock | WriteLock | ReadUnlock | WriteUnlock

text \<open>A run: the lock, the store, the requests issued so far and how many read and write locks have
  been released. \<open>held_reads\<close> and \<open>held_writes\<close> count the requests granted and not released yet.\<close>

record 's rw_conf =
  rw_lock :: rwlock
  rw_store :: 's
  issued :: "(waiter_type \<times> fid) list"
  read_released :: nat
  write_released :: nat

definition granted :: "('s, 'v) promises \<Rightarrow> waiter_type \<Rightarrow> 's rw_conf \<Rightarrow> nat" where
  "granted P t c = length (filter (\<lambda>(t', f). t' = t \<and> status P (rw_store c) f = READY) (issued c))"

definition held_reads :: "('s, 'v) promises \<Rightarrow> 's rw_conf \<Rightarrow> int" where
  "held_reads P c = int (granted P READ c) - int (read_released c)"

definition held_writes :: "('s, 'v) promises \<Rightarrow> 's rw_conf \<Rightarrow> int" where
  "held_writes P c = int (granted P WRITE c) - int (write_released c)"

fun rw_step :: "('s, 'v) promises \<Rightarrow> 'v \<Rightarrow> rw_op \<Rightarrow> 's rw_conf \<Rightarrow> rw_error + 's rw_conf" where
  "rw_step P n ReadLock c = (case read_lock P n (rw_lock c) (rw_store c) of (r, s, f) \<Rightarrow>
     Inr (c\<lparr>rw_lock := r, rw_store := s, issued := issued c @ [(READ, f)]\<rparr>))"
| "rw_step P n WriteLock c = (case write_lock P n (rw_lock c) (rw_store c) of (r, s, f) \<Rightarrow>
     Inr (c\<lparr>rw_lock := r, rw_store := s, issued := issued c @ [(WRITE, f)]\<rparr>))"
| "rw_step P n ReadUnlock c = (case read_unlock P n (rw_lock c) (rw_store c) of
     Inl e \<Rightarrow> Inl e
   | Inr (r, s) \<Rightarrow> Inr (c\<lparr>rw_lock := r, rw_store := s, read_released := Suc (read_released c)\<rparr>))"
| "rw_step P n WriteUnlock c = (case write_unlock P n (rw_lock c) (rw_store c) of
     Inl e \<Rightarrow> Inl e
   | Inr (r, s) \<Rightarrow> Inr (c\<lparr>rw_lock := r, rw_store := s, write_released := Suc (write_released c)\<rparr>))"

text \<open>Reachable by calls in which only holders unlock.\<close>

inductive rw_reach :: "('s, 'v) promises \<Rightarrow> 'v \<Rightarrow> 's \<Rightarrow> 's rw_conf \<Rightarrow> bool" for P n s0 where
  rw_start: "rw_reach P n s0 \<lparr>rw_lock = rwlock_init, rw_store = s0, issued = [], read_released = 0,
     write_released = 0\<rparr>"
| rw_next: "rw_reach P n s0 c \<Longrightarrow> (op = ReadUnlock \<longrightarrow> 0 < held_reads P c) \<Longrightarrow>
     (op = WriteUnlock \<longrightarrow> 0 < held_writes P c) \<Longrightarrow> rw_step P n op c = Inr c' \<Longrightarrow> rw_reach P n s0 c'"

section \<open>First in, first out\<close>

text \<open>The future handed out \<open>i\<close>-th is granted exactly when \<open>i\<close> is below the number \<open>n\<close> of grants.\<close>

definition fifo_grants :: "('s, 'v) promises \<Rightarrow> ('s \<Rightarrow> fid) \<Rightarrow> ('s \<Rightarrow> fid \<Rightarrow> bool) \<Rightarrow> nat \<Rightarrow> 's \<Rightarrow> fid list \<Rightarrow> bool" where
  "fifo_grants P bound free n s fs \<longleftrightarrow> n \<le> length fs \<and> distinct fs \<and> (\<forall>f\<in>set fs. f < bound s \<and> free s f)
     \<and> (\<forall>i<length fs. status P s (fs ! i) = (if i < n then READY else PENDING))"

definition of_type :: "waiter_type \<Rightarrow> (waiter_type \<times> fid) list \<Rightarrow> nat" where
  "of_type t ws = length (filter (\<lambda>w. fst w = t) ws)"

lemma of_type_simps [simp]:
  "of_type t [] = 0" "of_type t (xs @ ys) = of_type t xs + of_type t ys"
  "of_type t (x # xs) = of_bool (fst x = t) + of_type t xs"
  by (auto simp: of_type_def)

lemma of_type_takeWhile: "of_type READ (takeWhile (\<lambda>w. fst w = READ) ws) = length (takeWhile (\<lambda>w. fst w = READ) ws)"
  "of_type WRITE (takeWhile (\<lambda>w. fst w = READ) ws) = 0"
  by (auto simp: of_type_def filter_empty_conv dest!: set_takeWhileD intro!: arg_cong [where f = length] filter_True)

lemma not_READ [simp]: "t \<noteq> READ \<longleftrightarrow> t = WRITE"
  by (cases t) auto

context promise_store
begin

lemma fifo_old:
  assumes "fifo_grants P bound free n s fs" and "i < length fs"
  shows "fs ! i < bound s"
proof -
  from assms(2) have "fs ! i \<in> set fs" by simp
  with assms(1) show ?thesis by (auto simp: fifo_grants_def)
qed

lemma fifo_fresh:
  assumes "fifo_grants P bound free n s fs"
    and "status P s' = (status P s)(bound s := a)" and "free s' = (free s)(bound s := True)"
    and "bound s' = Suc (bound s)"
  shows "fifo_grants P bound free n s' fs"
proof -
  have "fs ! i \<noteq> bound s" if "i < length fs" for i using fifo_old [OF assms(1) that] by simp
  with assms show ?thesis unfolding fifo_grants_def by auto
qed

lemma fifo_append:
  assumes "fifo_grants P bound free n s' fs" and "f \<notin> set fs" and "f < bound s'" and "free s' f"
  shows "status P s' f = PENDING \<Longrightarrow> fifo_grants P bound free n s' (fs @ [f])"
    and "n = length fs \<Longrightarrow> status P s' f = READY \<Longrightarrow> fifo_grants P bound free (Suc n) s' (fs @ [f])"
  using assms by (auto simp: fifo_grants_def nth_append less_Suc_eq)

lemma fifo_skip:
  assumes "fifo_grants P bound free n s fs" and "new_ready P v s = (s', f)"
  shows "fifo_grants P bound free n s' fs"
  using fifo_fresh [OF assms(1), of s'] new_ready [OF assms(2)] by blast

lemma fifo_ready:
  assumes "fifo_grants P bound free n s fs" and "n = length fs" and "new_ready P v s = (s', f)"
  shows "fifo_grants P bound free (Suc n) s' (fs @ [f])"
proof -
  have "f \<notin> set fs" using assms(1) new_ready [OF assms(3)] by (auto simp: fifo_grants_def)
  then show ?thesis
    using fifo_append(2) [OF fifo_skip [OF assms(1,3)]] assms(2) new_ready [OF assms(3)] by simp
qed

lemma fifo_wait:
  assumes "fifo_grants P bound free n s fs" and "new_promise P s = (s', f)"
  shows "fifo_grants P bound free n s' (fs @ [f])"
proof -
  have "f \<notin> set fs" using assms(1) new_promise [OF assms(2)] by (auto simp: fifo_grants_def)
  moreover have "fifo_grants P bound free n s' fs"
    using fifo_fresh [OF assms(1), of s'] new_promise [OF assms(2)] by blast
  ultimately show ?thesis
    using fifo_append(1) [of n s' fs f] new_promise [OF assms(2)] by simp
qed

lemma fifo_grant:
  assumes "fifo_grants P bound free n s fs" and "n < length fs"
  shows "fifo_grants P bound free (Suc n) (destroy_promise P (fs ! n) (set_promise P (fs ! n) v s)) fs"
proof -
  have "free s (fs ! n)" and "status P s (fs ! n) = PENDING"
    using assms by (auto simp: fifo_grants_def)
  note laws = set_promise [OF this, of v] destroy_promise [of "fs ! n" "set_promise P (fs ! n) v s"]
  have "status P s (fs ! i) = (if i < n then READY else PENDING)" if "i < length fs" for i
    using assms that by (auto simp: fifo_grants_def)
  moreover have "fs ! i = fs ! n \<longleftrightarrow> i = n" if "i < length fs" for i
    using assms that by (simp add: fifo_grants_def nth_eq_iff_index_eq)
  ultimately show ?thesis
    using assms laws by (auto simp: fifo_grants_def less_Suc_eq)
qed

lemma fifo_unblock:
  assumes "fifo_grants P bound free n s fs" and "drop n fs = ws @ rest"
  shows "fifo_grants P bound free (n + length ws) (unblock P v ws s) fs"
  using assms
proof (induction ws arbitrary: n s)
  case Nil
  then show ?case by (simp add: unblock_def)
next
  case (Cons w ws)
  have n: "n < length fs" using Cons.prems(2) by (metis append_Cons drop_all linorder_not_less list.distinct(1))
  then have w: "fs ! n = w" and d: "drop (Suc n) fs = ws @ rest"
    using Cons.prems(2) by (simp_all add: Cons_nth_drop_Suc [symmetric])
  have "fifo_grants P bound free (Suc n + length ws)
      (unblock P v ws (destroy_promise P (fs ! n) (set_promise P (fs ! n) v s))) fs"
    by (rule Cons.IH [OF fifo_grant [OF Cons.prems(1) n] d])
  then show ?case using w by (simp add: unblock_def)
qed

section \<open>Runs of a mutex\<close>

text \<open>After \<open>k\<close> unlocks of the \<open>length fs\<close> locks issued.\<close>

definition mutex_inv :: "nat \<Rightarrow> mutex \<times> 's \<times> fid list \<Rightarrow> bool" where
  "mutex_inv k c = (case c of (m, s, fs) \<Rightarrow> k \<le> length fs \<and> locked m = (k < length fs)
     \<and> waiters m = drop (Suc k) fs \<and> fifo_grants P bound free (min (Suc k) (length fs)) s fs)"

lemma mutex_lock_inv:
  assumes "mutex_inv k (m, s, fs)" and "mutex_lock P v m s = (m', s', f)"
  shows "mutex_inv k (m', s', fs @ [f])"
proof (cases "locked m")
  case True
  obtain s1 g where r: "new_ready P v s = (s1, g)" by fastforce
  have "new_promise P s1 = (s', f)" and m: "m' = m\<lparr>waiters := waiters m @ [f]\<rparr>"
    using assms(2) True r by (auto simp: mutex_lock_def split: prod.splits)
  from fifo_wait [OF fifo_skip [OF _ r] this(1)] assms(1) True m show ?thesis
    by (auto simp: mutex_inv_def min_def split: if_splits)
next
  case False
  then have k: "k = length fs" and "new_ready P v s = (s', f)" and m: "m' = m\<lparr>locked := True\<rparr>"
    using assms by (auto simp: mutex_inv_def mutex_lock_def split: prod.splits)
  from fifo_ready [OF _ refl this(2), of fs] assms(1) k m show ?thesis by (simp add: mutex_inv_def)
qed

lemma mutex_unlock_inv:
  assumes "mutex_inv k (m, s, fs)" and "k < length fs" and "mutex_unlock P v m s = (m', s')"
  shows "mutex_inv (Suc k) (m', s', fs)"
proof (cases "Suc k < length fs")
  case True
  then have "waiters m = fs ! Suc k # drop (Suc (Suc k)) fs"
    using assms(1) by (simp add: mutex_inv_def Cons_nth_drop_Suc)
  with assms(3) have "m' = m\<lparr>waiters := drop (Suc (Suc k)) fs\<rparr>"
    and "s' = destroy_promise P (fs ! Suc k) (set_promise P (fs ! Suc k) v s)"
    by (simp_all add: mutex_unlock_def)
  with fifo_grant [OF _ True, of s v] assms(1) True show ?thesis
    by (simp add: mutex_inv_def min_def)
next
  case False
  with assms(2) have "length fs = Suc k" by simp
  with assms show ?thesis by (auto simp: mutex_inv_def mutex_unlock_def)
qed

lemma mutex_run_inv:
  assumes "mutex_inv k (m, s, fs)" and "lock_discipline (length fs) k ops"
    and "mutex_run P v ops (m, s, fs) = (m', s', fs')"
  shows "\<exists>k'. k' = k + count_list ops Unlock \<and> length fs' = length fs + count_list ops Lock
    \<and> mutex_inv k' (m', s', fs')"
  using assms
proof (induction ops arbitrary: k m s fs)
  case Nil
  then show ?case by simp
next
  case (Cons a ops)
  show ?case
  proof (cases a)
    case Lock
    obtain m1 s1 f where l: "mutex_lock P v m s = (m1, s1, f)" using prod_cases3 by blast
    from Cons.IH [OF mutex_lock_inv [OF Cons.prems(1) l]] Cons.prems(2,3) Lock l show ?thesis by simp
  next
    case Unlock
    obtain m1 s1 where l: "mutex_unlock P v m s = (m1, s1)" by fastforce
    have "k < length fs" using Cons.prems(2) Unlock by simp
    from Cons.IH [OF mutex_unlock_inv [OF Cons.prems(1) this l]] Cons.prems(2,3) Unlock l
    show ?thesis by simp
  qed
qed

lemma mutex_grants:
  assumes "lock_discipline 0 0 ops" and "mutex_run P v ops (mutex_init, s, []) = (m, s', fs)"
  shows "length fs = count_list ops Lock \<and> count_list ops Unlock \<le> length fs
    \<and> (\<forall>i<length fs. status P s' (fs ! i) = (if i \<le> count_list ops Unlock then READY else PENDING))
    \<and> (locked m \<longleftrightarrow> count_list ops Unlock < length fs)"
proof -
  have "mutex_inv 0 (mutex_init, s, [])" by (simp add: mutex_inv_def mutex_init_def fifo_grants_def)
  from mutex_run_inv [OF this _ assms(2)] assms(1) show ?thesis
    by (auto simp: mutex_inv_def fifo_grants_def less_Suc_eq_le)
qed

section \<open>Runs of a read-write lock\<close>

definition rw_inv :: "nat \<Rightarrow> 's rw_conf \<Rightarrow> bool" where
  "rw_inv n c \<longleftrightarrow> rw_waiters (rw_lock c) = drop n (issued c)
     \<and> fifo_grants P bound free n (rw_store c) (map snd (issued c))
     \<and> read_locked (rw_lock c) + read_released c = of_type READ (take n (issued c))
     \<and> of_bool (write_locked (rw_lock c)) + write_released c = of_type WRITE (take n (issued c))
     \<and> \<not> (write_locked (rw_lock c) \<and> 0 < read_locked (rw_lock c))
     \<and> (drop n (issued c) \<noteq> [] \<longrightarrow> write_locked (rw_lock c)
         \<or> 0 < read_locked (rw_lock c) \<and> fst (hd (drop n (issued c))) = WRITE)"

lemma rw_granted:
  assumes "fifo_grants P bound free n (rw_store c) (map snd (issued c))"
  shows "granted P t c = of_type t (take n (issued c))"
proof -
  let ?r = "\<lambda>w. status P (rw_store c) (snd w) = READY"
  have st: "?r (issued c ! i) \<longleftrightarrow> i < n" if "i < length (issued c)" for i
    using assms that by (auto simp: fifo_grants_def)
  have "?r w" if "w \<in> set (take n (issued c))" for w
    using st that unfolding in_set_conv_nth by force
  moreover have "\<not> ?r w" if "w \<in> set (drop n (issued c))" for w
    using st that unfolding in_set_conv_nth by force
  ultimately have "filter (\<lambda>w. fst w = t \<and> ?r w) (take n (issued c) @ drop n (issued c))
      = filter (\<lambda>w. fst w = t) (take n (issued c))"
    unfolding filter_append by (auto intro!: filter_cong simp: filter_empty_conv)
  then show ?thesis by (simp add: granted_def of_type_def case_prod_beta')
qed

lemma rw_held:
  assumes "rw_inv n c"
  shows "held_reads P c = int (read_locked (rw_lock c))"
    and "held_writes P c = of_bool (write_locked (rw_lock c))"
proof -
  have "fifo_grants P bound free n (rw_store c) (map snd (issued c))" using assms by (simp add: rw_inv_def)
  note g = rw_granted [OF this]
  show "held_reads P c = int (read_locked (rw_lock c))"
    using assms unfolding held_reads_def g rw_inv_def by linarith
  have "int (of_bool (write_locked (rw_lock c)) + write_released c) = int (of_type WRITE (take n (issued c)))"
    using assms unfolding rw_inv_def by simp
  then show "held_writes P c = of_bool (write_locked (rw_lock c))"
    unfolding held_writes_def g by simp
qed

text \<open>Issuing a request: granted at once, or queued.\<close>

lemma rw_issue:
  assumes "rw_inv n c" and "new_ready P v (rw_store c) = (s1, g)"
  shows "drop n (issued c) = [] \<Longrightarrow> fifo_grants P bound free (Suc n) s1 (map snd (issued c) @ [g])"
    and "new_promise P s1 = (s2, f) \<Longrightarrow> fifo_grants P bound free n s2 (map snd (issued c) @ [f])"
proof -
  have f: "fifo_grants P bound free n (rw_store c) (map snd (issued c))" using assms(1) by (simp add: rw_inv_def)
  show "fifo_grants P bound free (Suc n) s1 (map snd (issued c) @ [g])" if "drop n (issued c) = []"
    using fifo_ready [OF f _ assms(2)] that f by (simp add: fifo_grants_def)
  show "fifo_grants P bound free n s2 (map snd (issued c) @ [f])" if "new_promise P s1 = (s2, f)"
    by (rule fifo_wait [OF fifo_skip [OF f assms(2)] that])
qed

lemma rw_inv_length: "rw_inv n c \<Longrightarrow> n \<le> length (issued c)"
  by (simp add: rw_inv_def fifo_grants_def)

lemma rw_read_lock:
  assumes i: "rw_inv n c" and "rw_step P v ReadLock c = Inr c'"
  shows "\<exists>n. rw_inv n c'"
proof -
  obtain s1 g s2 f where r: "new_ready P v (rw_store c) = (s1, g)" and p: "new_promise P s1 = (s2, f)"
    by fastforce
  show ?thesis
  proof (cases "\<not> write_locked (rw_lock c) \<and> rw_waiters (rw_lock c) = []")
    case True
    then have "rw_inv (Suc n) c'"
      using assms r rw_issue(1) [OF i r] rw_inv_length [OF i]
      by (auto simp: rw_inv_def read_lock_def)
    then show ?thesis ..
  next
    case False
    then have "rw_inv n c'"
      using assms r p rw_issue(2) [OF i r p] rw_inv_length [OF i]
      by (auto simp: rw_inv_def read_lock_def hd_append split: if_splits)
    then show ?thesis ..
  qed
qed

lemma rw_write_lock:
  assumes i: "rw_inv n c" and "rw_step P v WriteLock c = Inr c'"
  shows "\<exists>n. rw_inv n c'"
proof -
  obtain s1 g s2 f where r: "new_ready P v (rw_store c) = (s1, g)" and p: "new_promise P s1 = (s2, f)"
    by fastforce
  show ?thesis
  proof (cases "\<not> write_locked (rw_lock c) \<and> read_locked (rw_lock c) = 0")
    case True
    then have "rw_inv (Suc n) c'"
      using assms r rw_issue(1) [OF i r] rw_inv_length [OF i]
      by (auto simp: rw_inv_def write_lock_def)
    then show ?thesis ..
  next
    case False
    then have "rw_inv n c'"
      using assms r p rw_issue(2) [OF i r p] rw_inv_length [OF i]
      by (auto simp: rw_inv_def write_lock_def hd_append split: if_splits)
    then show ?thesis ..
  qed
qed

text \<open>Handing the lock to the first waiters \<open>us\<close> of the queue.\<close>

lemma rw_hand_over:
  assumes "rw_inv n c" and "drop n (issued c) = us @ rest"
  shows "fifo_grants P bound free (n + length us) (unblock P v (map snd us) (rw_store c)) (map snd (issued c))"
    and "drop (n + length us) (issued c) = rest"
    and "take (n + length us) (issued c) = take n (issued c) @ us"
proof -
  have "drop n (map snd (issued c)) = map snd us @ map snd rest" using assms(2) by (metis drop_map map_append)
  from fifo_unblock [OF _ this, of "rw_store c" v] assms(1)
  show "fifo_grants P bound free (n + length us) (unblock P v (map snd us) (rw_store c)) (map snd (issued c))"
    by (simp add: rw_inv_def)
  have "drop (length us) (drop n (issued c)) = rest" using assms(2) by simp
  then show "drop (n + length us) (issued c) = rest" by (simp add: add.commute)
  show "take (n + length us) (issued c) = take n (issued c) @ us"
    by (simp add: take_add assms(2))
qed

lemma rw_write_unlock:
  assumes i: "rw_inv n c" and h: "0 < held_writes P c"
  shows "\<exists>n c'. rw_step P v WriteUnlock c = Inr c' \<and> rw_inv n c'"
proof -
  let ?ws = "drop n (issued c)"
  have w: "write_locked (rw_lock c)" using h rw_held [OF i] by (simp split: if_splits)
  show ?thesis
  proof (cases ?ws)
    case Nil
    with assms w show ?thesis
      by (intro exI [of _ n]) (auto simp: rw_inv_def write_unlock_def)
  next
    case (Cons a rest)
    obtain t f where a: "a = (t, f)" by fastforce
    show ?thesis
    proof (cases t)
      case READ
      let ?us = "takeWhile (\<lambda>w. fst w = READ) ?ws" and ?rest = "dropWhile (\<lambda>w. fst w = READ) ?ws"
      have split: "?ws = ?us @ ?rest" by simp
      have "0 < length ?us" using Cons a READ by simp
      moreover have "drop (n + length ?us) (issued c) \<noteq> []
          \<longrightarrow> fst (hd (drop (n + length ?us) (issued c))) = WRITE"
        using hd_dropWhile [of "\<lambda>w. fst w = READ" ?ws] unfolding rw_hand_over(2) [OF i split]
        by (simp only: not_READ) blast
      ultimately show ?thesis
        using i w Cons a READ rw_hand_over(1) [OF i split, of v] rw_hand_over(2,3) [OF i split]
        by (intro exI [of _ "n + length ?us"])
          (auto simp: rw_inv_def write_unlock_def of_type_takeWhile)
    next
      case WRITE
      have split: "?ws = [a] @ rest" using Cons by simp
      show ?thesis
        using i w Cons a WRITE rw_hand_over(1) [OF i split, of v] rw_hand_over(2,3) [OF i split]
        by (intro exI [of _ "Suc n"]) (auto simp: rw_inv_def write_unlock_def)
    qed
  qed
qed

lemma rw_read_unlock:
  assumes i: "rw_inv n c" and h: "0 < held_reads P c"
  shows "\<exists>n c'. rw_step P v ReadUnlock c = Inr c' \<and> rw_inv n c'"
proof -
  let ?ws = "drop n (issued c)"
  have r: "0 < read_locked (rw_lock c)" using h rw_held [OF i] by simp
  show ?thesis
  proof (cases "?ws = [] \<or> 1 < read_locked (rw_lock c)")
    case True
    let ?c = "c\<lparr>rw_lock := (rw_lock c)\<lparr>read_locked := read_locked (rw_lock c) - 1\<rparr>,
      read_released := Suc (read_released c)\<rparr>"
    have "rw_step P v ReadUnlock c = Inr ?c"
      using True i r by (auto simp: rw_inv_def read_unlock_def)
    moreover have "rw_inv n ?c"
      using True i r unfolding rw_inv_def by (elim conjE disjE) auto
    ultimately show ?thesis by blast
  next
    case False
    then obtain f rest where split: "?ws = [(WRITE, f)] @ rest"
      using i r by (cases ?ws) (auto simp: rw_inv_def)
    then show ?thesis
      using i r False rw_hand_over(1) [OF i split, of v] rw_hand_over(2,3) [OF i split]
      by (intro exI [of _ "Suc n"]) (auto simp: rw_inv_def read_unlock_def)
  qed
qed

lemma rw_reach_inv: "rw_reach P v s0 c \<Longrightarrow> \<exists>n. rw_inv n c"
proof (induction rule: rw_reach.induct)
  case rw_start
  show ?case by (intro exI [of _ 0]) (simp add: rw_inv_def rwlock_init_def fifo_grants_def)
next
  case (rw_next c op c')
  then obtain n where "rw_inv n c" by blast
  with rw_next.hyps show ?case
    using rw_read_lock [of n c] rw_write_lock [of n c] rw_write_unlock [of n c] rw_read_unlock [of n c]
    by (cases op) (metis sum.inject(2) rw_op.distinct)+
qed

lemma rw_no_check:
  assumes "rw_reach P v s0 c" and "op = ReadUnlock \<longrightarrow> 0 < held_reads P c" and "op = WriteUnlock \<longrightarrow> 0 < held_writes P c"
  shows "\<exists>c'. rw_step P v op c = Inr c'"
proof -
  obtain n where "rw_inv n c" using rw_reach_inv [OF assms(1)] by blast
  with assms(2,3) show ?thesis
    using rw_read_unlock [of n c] rw_write_unlock [of n c] by (cases op) (auto split: prod.splits)
qed

lemma rw_exclusive:
  assumes "rw_reach P v s0 c"
  shows "0 \<le> held_reads P c \<and> held_writes P c \<in> {0, 1} \<and> (held_writes P c = 1 \<longrightarrow> held_reads P c = 0)"
proof -
  obtain n where i: "rw_inv n c" using rw_reach_inv [OF assms(1)] by blast
  then show ?thesis using rw_held [OF i] by (auto simp: rw_inv_def)
qed

lemma rw_fifo:
  assumes "rw_reach P v s0 c" and "i < j" and "j < length (issued c)"
    and "status P (rw_store c) (snd (issued c ! j)) = READY"
  shows "status P (rw_store c) (snd (issued c ! i)) = READY"
proof -
  obtain n where i: "rw_inv n c" using rw_reach_inv [OF assms(1)] by blast
  with assms(2-) show ?thesis
    by (auto simp: rw_inv_def fifo_grants_def split: if_splits)
qed

lemma rw_waits_for_holder:
  assumes "rw_reach P v s0 c" and "w \<in> set (issued c)" and "status P (rw_store c) (snd w) = PENDING"
  shows "0 < held_reads P c \<or> 0 < held_writes P c"
proof -
  obtain n where i: "rw_inv n c" using rw_reach_inv [OF assms(1)] by blast
  obtain k where k: "k < length (issued c)" "w = issued c ! k" using assms(2) by (auto simp: in_set_conv_nth)
  with i assms(3) have "n \<le> k" by (auto simp: rw_inv_def fifo_grants_def split: if_splits)
  with k have "drop n (issued c) \<noteq> []" by simp
  with i show ?thesis using rw_held [OF i] by (auto simp: rw_inv_def)
qed

end

section \<open>The locks on the future store\<close>

text \<open>C17. FIFO mutex. For every sequence of \<^verbatim>\<open>lock\<close> and \<^verbatim>\<open>unlock\<close> calls in which only holders unlock, the
  \<open>i\<close>-th future handed out is ready exactly when at least \<open>i\<close> unlocks were made (counting from 0) and
  pending otherwise, so locks are granted in the order requested and one holder at a time; the
  mutex is locked exactly while a granted lock has not been unlocked.\<close>

theorem mutex_fifo:
  assumes "lock_discipline 0 0 ops"
  shows "case mutex_run store_promises v ops (mutex_init, s, []) of (m, s', fs) \<Rightarrow>
      length fs = count_list ops Lock \<and> count_list ops Unlock \<le> length fs
    \<and> (\<forall>i<length fs. status store_promises s' (fs ! i)
         = (if i \<le> count_list ops Unlock then READY else PENDING))
    \<and> (locked m \<longleftrightarrow> count_list ops Unlock < length fs)"
proof -
  obtain m s' fs where r: "mutex_run store_promises v ops (mutex_init, s, []) = (m, s', fs)"
    using prod_cases3 by blast
  from fs.mutex_grants [OF assms this] show ?thesis unfolding r by simp
qed

theorem mutex_fifo_witness:
  "case mutex_run store_promises (Val ()) [Lock, Lock, Lock, Unlock] (mutex_init, (empty_store, []), [])
   of (m, s, fs) \<Rightarrow> locked m \<and> length fs = 3
     \<and> map (status store_promises s) fs = [READY, READY, PENDING]"
  using mutex_fifo [of "[Lock, Lock, Lock, Unlock]" "Val ()" "(empty_store, [])"]
  by (auto simp: eval_nat_numeral intro!: nth_equalityI simp: less_Suc_eq)

text \<open> Exclusion and order of the read-write lock. In every configuration reached by calls in which only
  holders unlock: at most one writer holds the lock, and no reader while one does; requests are
  granted in the order they were issued; a request waits only while the lock is held.\<close>

theorem rwlock_exclusive_fifo:
  assumes "rw_reach store_promises v s0 c"
  shows "0 \<le> held_reads store_promises c \<and> held_writes store_promises c \<in> {0, 1}
    \<and> (held_writes store_promises c = 1 \<longrightarrow> held_reads store_promises c = 0)
    \<and> (\<forall>i j. i < j \<longrightarrow> j < length (issued c) \<longrightarrow>
         status store_promises (rw_store c) (snd (issued c ! j)) = READY \<longrightarrow>
         status store_promises (rw_store c) (snd (issued c ! i)) = READY)
    \<and> (\<forall>w\<in>set (issued c). status store_promises (rw_store c) (snd w) = PENDING \<longrightarrow>
         0 < held_reads store_promises c \<or> 0 < held_writes store_promises c)"
  using fs.rw_exclusive [OF assms] fs.rw_fifo [OF assms] fs.rw_waits_for_holder [OF assms] by blast

text \<open> No \<^verbatim>\<open>CHECK\<close> of the read-write lock fails: in such a configuration every lock call, and every
  unlock by a holder, returns.\<close>

theorem rwlock_no_check:
  assumes "rw_reach store_promises v s0 c"
    and "op = ReadUnlock \<longrightarrow> 0 < held_reads store_promises c"
    and "op = WriteUnlock \<longrightarrow> 0 < held_writes store_promises c"
  shows "\<exists>c'. rw_step store_promises v op c = Inr c'"
  by (rule fs.rw_no_check [OF assms])

text \<open>A run with a reader, a waiting writer and two readers behind it.\<close>

fun rw_run :: "('s, 'v) promises \<Rightarrow> 'v \<Rightarrow> rw_op list \<Rightarrow> 's rw_conf \<Rightarrow> 's rw_conf option" where
  "rw_run P v [] c = Some c"
| "rw_run P v (op # ops) c =
     (if (op = ReadUnlock \<longrightarrow> 0 < held_reads P c) \<and> (op = WriteUnlock \<longrightarrow> 0 < held_writes P c)
      then (case rw_step P v op c of Inr c' \<Rightarrow> rw_run P v ops c' | Inl _ \<Rightarrow> None) else None)"

lemma rw_run_reach: "rw_reach P v s0 c \<Longrightarrow> rw_run P v ops c = Some c' \<Longrightarrow> rw_reach P v s0 c'"
  by (induction ops arbitrary: c) (auto split: if_splits sum.splits intro: rw_next)

definition rw_demo :: "rw_op list \<Rightarrow> unit fstore rw_conf" where
  "rw_demo ops = the (rw_run store_promises (Val ()) ops \<lparr>rw_lock = rwlock_init,
     rw_store = (empty_store, []), issued = [], read_released = 0, write_released = 0\<rparr>)"

lemma rw_demo_runs:
  "rw_run store_promises (Val ()) [ReadLock, WriteLock, ReadLock, ReadUnlock] \<lparr>rw_lock = rwlock_init,
     rw_store = (empty_store, []), issued = [], read_released = 0, write_released = 0\<rparr> \<noteq> None"
  by code_simp

lemma rw_demo_reach:
  "rw_reach store_promises (Val ()) (empty_store, []) (rw_demo [ReadLock, WriteLock, ReadLock, ReadUnlock])"
  unfolding rw_demo_def by (rule rw_run_reach [OF rw_start option.collapse [OF rw_demo_runs, symmetric]])

theorem rwlock_exclusive_fifo_witness:
  "let c = rw_demo [ReadLock, WriteLock, ReadLock, ReadUnlock] in
     held_writes store_promises c = 1 \<and> held_reads store_promises c = 0
     \<and> map (\<lambda>w. status store_promises (rw_store c) (snd w)) (issued c) = [READY, READY, PENDING]"
proof -
  let ?c = "rw_demo [ReadLock, WriteLock, ReadLock, ReadUnlock]"
  have "held_writes store_promises ?c = 1" by code_simp
  moreover have "map (\<lambda>w. status store_promises (rw_store ?c) (snd w)) (issued ?c) = [READY, READY, PENDING]"
    by code_simp
  ultimately show ?thesis
    using rwlock_exclusive_fifo [OF rw_demo_reach] unfolding Let_def by blast
qed

theorem rwlock_no_check_witness:
  "\<exists>c. rw_step store_promises (Val ()) WriteUnlock (rw_demo [ReadLock, WriteLock, ReadLock, ReadUnlock]) = Inr c"
proof (rule rwlock_no_check [OF rw_demo_reach])
  show "WriteUnlock = WriteUnlock \<longrightarrow>
      0 < held_writes store_promises (rw_demo [ReadLock, WriteLock, ReadLock, ReadUnlock])"
    by code_simp
qed simp

end
