(* ===== verification/Clock.thy ===== *)
theory Clock
  imports Prelude "HOL-Library.Multiset"
begin

text \<open>
  \<^verbatim>\<open>src/clock.cpp\<close> with \<^verbatim>\<open>include/process/{time,timeout,timer,clock}.hpp\<close>: the timers, the clock that can
  be paused and advanced, per process clocks and the ticks requested of the event loop. A time is a
  number of nanoseconds. Every critical section under \<^verbatim>\<open>timers_mutex\<close> is one operation on the record
  \<open>clock\<close>; \<open>loop\<close> is the value of \<^verbatim>\<open>EventLoop::time()\<close>, and \<open>delays\<close> holds the calls of
  \<^verbatim>\<open>EventLoop::delay\<close> that have not run yet, each with the loop time at which it is due. The steps of
  \<open>clock_step\<close> interleave the calls of any threads with the event loop; the lemmas show that no
  timer is lost, delivered twice, delivered early or delivered out of order.
\<close>

section \<open>Times, timeouts, timers\<close>

type_synonym time = int
type_synonym duration = int
type_synonym proc = nat

definition duration_max :: duration where
  "duration_max = 2 ^ 63 - 1"

definition time_max :: time where
  "time_max = duration_max"

definition time_epoch :: time where
  "time_epoch = 0"

record timer =
  timer_id :: nat
  timeout :: time
  creator :: "proc option"
  thunk :: nat

text \<open>\<^verbatim>\<open>Timeout::in\<close>, with the clock of the caller.\<close>

definition timeout_in :: "time \<Rightarrow> duration \<Rightarrow> time" where
  "timeout_in now d = (if now < duration_max - d then now + d else time_max)"

definition timeout_remaining :: "time \<Rightarrow> time \<Rightarrow> duration" where
  "timeout_remaining now t = (let remaining = t - now in if remaining > 0 then remaining else 0)"

definition timeout_expired :: "time \<Rightarrow> time \<Rightarrow> bool" where
  "timeout_expired now t = (t \<le> now)"

text \<open>The ordered map \<^verbatim>\<open>map<Time, list<Timer>>\<close>, as the list of its entries.\<close>

type_synonym timers = "(time \<times> timer list) list"

text \<open>\<^verbatim>\<open>(*timers)[t].push_back(timer)\<close>\<close>

fun push_timer :: "time \<Rightarrow> timer \<Rightarrow> timers \<Rightarrow> timers" where
  "push_timer t x [] = [(t, [x])]"
| "push_timer t x ((u, xs) # m) =
     (if t < u then (t, [x]) # (u, xs) # m
      else if t = u then (u, xs @ [x]) # m
      else (u, xs) # push_timer t x m)"

text \<open>\<^verbatim>\<open>(*timers)[t].remove(timer)\<close>, and the erasure of an empty list; timers are equal when their ids are.\<close>

fun drop_timer :: "time \<Rightarrow> timer \<Rightarrow> timers \<Rightarrow> timers" where
  "drop_timer t x [] = []"
| "drop_timer t x ((u, xs) # m) =
     (if t = u then (case filter (\<lambda>y. timer_id y \<noteq> timer_id x) xs of [] \<Rightarrow> m | ys \<Rightarrow> (u, ys) # m)
      else (u, xs) # drop_timer t x m)"

definition all_timers :: "timers \<Rightarrow> timer list" where
  "all_timers m = concat (map snd m)"

section \<open>The clock\<close>

record clock =
  timers :: timers
  currents :: "proc \<Rightarrow> time option"
  initial :: time
  current :: time
  advanced :: duration
  paused :: bool
  settling :: bool
  ticks :: "time list"
  next_id :: nat
  loop :: time
  delays :: "(time \<times> time) list"

definition clock_init :: "time \<Rightarrow> clock" where
  "clock_init l = \<lparr>timers = [], currents = (\<lambda>_. None), initial = time_epoch, current = time_epoch,
     advanced = 0, paused = False, settling = False, ticks = [], next_id = 1, loop = l, delays = []\<rparr>"

text \<open>\<^verbatim>\<open>Time::create\<close>, on the result of \<^verbatim>\<open>Duration::create\<close>.\<close>

definition time_create :: "string + duration \<Rightarrow> clock \<Rightarrow> string + time" where
  "time_create d ck = (case d of
     Inr s \<Rightarrow> Inr (s + advanced ck)
   | Inl e \<Rightarrow> Inl (''Argument too large for Time: '' @ e))"

text \<open>\<^verbatim>\<open>Clock::now(process)\<close>; \<open>None\<close> is \<^verbatim>\<open>nullptr\<close>. The loop time is within the range of a duration.\<close>

definition clock_now :: "proc option \<Rightarrow> clock \<Rightarrow> clock \<times> time" where
  "clock_now process ck =
    (if paused ck then
       (case process of
          Some p \<Rightarrow> (case currents ck p of
              Some t \<Rightarrow> (ck, t)
            | None \<Rightarrow> (ck\<lparr>currents := (currents ck)(p \<mapsto> initial ck)\<rparr>, initial ck))
        | None \<Rightarrow> (ck, current ck))
     else case time_create (Inr (loop ck)) ck of Inr t \<Rightarrow> (ck, t) | Inl _ \<Rightarrow> (ck, 0))"

definition now_global :: "clock \<Rightarrow> time" where
  "now_global ck = snd (clock_now None ck)"

definition clock_next :: "clock \<Rightarrow> time option" where
  "clock_next ck = (case timers ck of
     [] \<Rightarrow> None
   | (first, _) # _ \<Rightarrow> if paused ck \<and> first > now_global ck then None else Some first)"

definition scheduleTick :: "clock \<Rightarrow> clock" where
  "scheduleTick ck = (case clock_next ck of
     None \<Rightarrow> ck
   | Some next \<Rightarrow>
       if ticks ck = [] \<or> next < hd (ticks ck)
       then ck\<lparr>ticks := insort_insert next (ticks ck),
               delays := delays ck @ [(loop ck + (next - now_global ck), next)]\<rparr>
       else ck)"

text \<open>The first critical section of \<^verbatim>\<open>tick\<close>: the timers that timed out; \<open>None\<close> is a failed \<^verbatim>\<open>CHECK\<close>.\<close>

definition tick_collect :: "time \<Rightarrow> clock \<Rightarrow> (clock \<times> timer list) option" where
  "tick_collect time ck =
    (let now = now_global ck;
         due = takeWhile (\<lambda>e. fst e \<le> now) (timers ck);
         rest = dropWhile (\<lambda>e. fst e \<le> now) (timers ck);
         ck1 = ck\<lparr>settling := (if due \<noteq> [] \<and> paused ck then True else settling ck), timers := rest\<rparr>
     in if rest = [] \<or> fst (hd rest) > now
        then Some (scheduleTick (ck1\<lparr>ticks := removeAll time (ticks ck1)\<rparr>), all_timers due)
        else None)"

text \<open>The second one, after the callback has executed the timers.\<close>

definition tick_settle :: "clock \<Rightarrow> clock" where
  "tick_settle ck =
    (if paused ck \<and> (timers ck = [] \<or> fst (hd (timers ck)) > current ck)
     then ck\<lparr>settling := False\<rparr> else ck)"

definition clock_finalize :: "clock \<Rightarrow> clock option" where
  "clock_finalize ck = (if \<not> paused ck then Some (ck\<lparr>timers := []\<rparr>) else None)"

definition clock_timer :: "proc option \<Rightarrow> duration \<Rightarrow> nat \<Rightarrow> clock \<Rightarrow> clock \<times> timer" where
  "clock_timer process d f ck =
    (case clock_now process ck of (ck1, now) \<Rightarrow>
       let t = \<lparr>timer_id = next_id ck1, timeout = timeout_in now d, creator = process, thunk = f\<rparr>;
           ck2 = ck1\<lparr>next_id := Suc (next_id ck1)\<rparr>
       in if timers ck2 = [] \<or> timeout t < fst (hd (timers ck2))
          then (scheduleTick (ck2\<lparr>timers := push_timer (timeout t) t (timers ck2)\<rparr>), t)
          else (ck2\<lparr>timers := push_timer (timeout t) t (timers ck2)\<rparr>, t))"

definition clock_cancel :: "timer \<Rightarrow> clock \<Rightarrow> clock \<times> bool" where
  "clock_cancel t ck =
    (if timeout t \<in> fst ` set (timers ck)
     then (ck\<lparr>timers := drop_timer (timeout t) t (timers ck)\<rparr>, True)
     else (ck, False))"

definition clock_pause :: "proc option \<Rightarrow> clock \<Rightarrow> clock" where
  "clock_pause process ck =
    (if \<not> paused ck
     then case clock_now process ck of (ck1, now) \<Rightarrow>
       ck1\<lparr>initial := now, current := now, paused := True, ticks := []\<rparr>
     else ck)"

definition clock_resume :: "clock \<Rightarrow> clock" where
  "clock_resume ck =
    (if paused ck
     then scheduleTick (ck\<lparr>paused := False, settling := False, currents := (\<lambda>_. None)\<rparr>)
     else ck)"

definition clock_advance :: "duration \<Rightarrow> clock \<Rightarrow> clock" where
  "clock_advance d ck =
    (if paused ck
     then scheduleTick (ck\<lparr>advanced := advanced ck + d, current := current ck + d\<rparr>)
     else ck)"

definition clock_advance_process :: "proc \<Rightarrow> duration \<Rightarrow> clock \<Rightarrow> clock" where
  "clock_advance_process p d ck =
    (if paused ck
     then case clock_now (Some p) ck of (ck1, now) \<Rightarrow> ck1\<lparr>currents := (currents ck1)(p \<mapsto> now + d)\<rparr>
     else ck)"

definition clock_update :: "time \<Rightarrow> clock \<Rightarrow> clock" where
  "clock_update time ck =
    (if paused ck \<and> current ck < time
     then scheduleTick (ck\<lparr>advanced := advanced ck + (time - current ck), current := time\<rparr>)
     else ck)"

datatype update_mode = SAFE | FORCE

definition clock_update_process :: "proc \<Rightarrow> time \<Rightarrow> update_mode \<Rightarrow> clock \<Rightarrow> clock" where
  "clock_update_process p time mode ck =
    (if paused ck
     then case clock_now (Some p) ck of (ck1, now) \<Rightarrow>
       if now < time \<or> mode = FORCE then ck1\<lparr>currents := (currents ck1)(p \<mapsto> time)\<rparr> else ck1
     else ck)"

definition clock_order :: "proc \<Rightarrow> proc \<Rightarrow> clock \<Rightarrow> clock" where
  "clock_order from to ck =
    (case clock_now (Some from) ck of (ck1, now) \<Rightarrow> clock_update_process to now SAFE ck1)"

text \<open>\<^verbatim>\<open>Clock::settled\<close>; \<open>None\<close> is a failed \<^verbatim>\<open>CHECK\<close>.\<close>

definition clock_settled :: "clock \<Rightarrow> bool option" where
  "clock_settled ck =
    (if \<not> paused ck then None
     else if settling ck then Some False
     else if timers ck = [] \<or> fst (hd (timers ck)) > current ck then Some True
     else Some False)"

lemmas clock_defs = clock_timer_def clock_cancel_def clock_pause_def clock_resume_def clock_advance_def
  clock_advance_process_def clock_update_def clock_update_process_def clock_order_def clock_finalize_def

section \<open>Runs\<close>

text \<open>Any interleaving of calls with the event loop. The event loop is one thread: it runs a due tick,
  executes the timers it collected and finishes the tick before it runs the next. The history is
  ghost state: the timers delivered to the callback, in order, those removed by \<^verbatim>\<open>cancel\<close> and those
  cleared by \<^verbatim>\<open>finalize\<close>.\<close>

record run =
  ck :: clock
  executing :: "timer list option"
  delivered :: "timer list"
  removed :: "timer list"

datatype clock_act =
    Elapse nat
  | Fire "time \<times> time"
  | Executed
  | NewTimer "proc option" duration nat
  | Cancel timer
  | Finalize
  | Now "proc option"
  | Pause "proc option"
  | Resume
  | Advance duration
  | AdvanceProcess proc duration
  | Update time
  | UpdateProcess proc time update_mode
  | Order proc proc

fun act :: "clock_act \<Rightarrow> run \<Rightarrow> run option" where
  "act (Elapse n) r = Some (r\<lparr>ck := (ck r)\<lparr>loop := loop (ck r) + int n\<rparr>\<rparr>)"
| "act (Fire e) r =
    (if e \<in> set (delays (ck r)) \<and> fst e \<le> loop (ck r) \<and> executing r = None
     then (case tick_collect (snd e) ((ck r)\<lparr>delays := remove1 e (delays (ck r))\<rparr>) of
         Some (ck', xs) \<Rightarrow> Some (r\<lparr>ck := ck', executing := Some xs, delivered := delivered r @ xs\<rparr>)
       | None \<Rightarrow> None)
     else None)"
| "act Executed r =
    (if executing r \<noteq> None then Some (r\<lparr>ck := tick_settle (ck r), executing := None\<rparr>) else None)"
| "act (NewTimer p d f) r = Some (r\<lparr>ck := fst (clock_timer p d f (ck r))\<rparr>)"
| "act (Cancel t) r = Some (r\<lparr>ck := fst (clock_cancel t (ck r)),
     removed := removed r @ filter (\<lambda>x. x \<notin> set (all_timers (timers (fst (clock_cancel t (ck r))))))
       (all_timers (timers (ck r)))\<rparr>)"
| "act Finalize r = (case clock_finalize (ck r) of
     Some ck' \<Rightarrow> Some (r\<lparr>ck := ck', removed := removed r @ all_timers (timers (ck r))\<rparr>) | None \<Rightarrow> None)"
| "act (Now p) r = Some (r\<lparr>ck := fst (clock_now p (ck r))\<rparr>)"
| "act (Pause p) r = Some (r\<lparr>ck := clock_pause p (ck r)\<rparr>)"
| "act Resume r = Some (r\<lparr>ck := clock_resume (ck r)\<rparr>)"
| "act (Advance d) r = Some (r\<lparr>ck := clock_advance d (ck r)\<rparr>)"
| "act (AdvanceProcess p d) r = Some (r\<lparr>ck := clock_advance_process p d (ck r)\<rparr>)"
| "act (Update t) r = Some (r\<lparr>ck := clock_update t (ck r)\<rparr>)"
| "act (UpdateProcess p t m) r = Some (r\<lparr>ck := clock_update_process p t m (ck r)\<rparr>)"
| "act (Order p q) r = Some (r\<lparr>ck := clock_order p q (ck r)\<rparr>)"

inductive clock_reach :: "run \<Rightarrow> bool" where
  clock_start: "clock_reach \<lparr>ck = clock_init l, executing = None, delivered = [], removed = []\<rparr>"
| clock_next_step: "clock_reach r \<Longrightarrow> act a r = Some r' \<Longrightarrow> clock_reach r'"

section \<open>Invariants\<close>

definition timers_wf :: "timers \<Rightarrow> bool" where
  "timers_wf m \<longleftrightarrow> sorted_wrt (<) (map fst m) \<and> (\<forall>(u, xs)\<in>set m. xs \<noteq> [] \<and> (\<forall>x\<in>set xs. timeout x = u))"

text \<open>The order in which timers are delivered: by timeout, then in the order of creation.\<close>

definition timer_before :: "timer \<Rightarrow> timer \<Rightarrow> bool" where
  "timer_before x y \<longleftrightarrow> timeout x < timeout y \<or> timeout x = timeout y \<and> timer_id x < timer_id y"

text \<open>A scheduled tick stands for a call of \<^verbatim>\<open>EventLoop::delay\<close> that is due, or will be at its time.\<close>

definition ticks_ok :: "clock \<Rightarrow> bool" where
  "ticks_ok c \<longleftrightarrow> sorted (ticks c) \<and> (\<forall>t\<in>set (ticks c). \<exists>at. (at, t) \<in> set (delays c)
     \<and> (at \<le> loop c \<or> \<not> paused c \<and> at + advanced c \<le> t))"

definition tick_set :: "clock \<Rightarrow> bool" where
  "tick_set c \<longleftrightarrow> (timers c \<noteq> [] \<and> (paused c \<longrightarrow> fst (hd (timers c)) \<le> current c) \<longrightarrow>
     ticks c \<noteq> [] \<and> hd (ticks c) \<le> fst (hd (timers c)))"

definition due_tick :: "clock \<Rightarrow> bool" where
  "due_tick c \<longleftrightarrow> (\<exists>e\<in>set (delays c). fst e \<le> loop c)"

definition clock_ok :: "clock \<Rightarrow> bool" where
  "clock_ok c \<longleftrightarrow> timers_wf (timers c) \<and> ticks_ok c \<and> (\<not> paused c \<longrightarrow> tick_set c \<and> currents c = (\<lambda>_. None))
     \<and> (paused c \<and> timers c \<noteq> [] \<and> fst (hd (timers c)) \<le> current c \<longrightarrow> due_tick c)"

lemma now_global_simp: "now_global c = (if paused c then current c else loop c + advanced c)"
  by (simp add: now_global_def clock_now_def time_create_def)

subsection \<open>The map of timers\<close>

lemma push_timer_keys: "set (map fst (push_timer t x m)) = insert t (set (map fst m))"
  by (induction t x m rule: push_timer.induct) auto

lemma push_timer_wf: "timers_wf m \<Longrightarrow> timeout x = t \<Longrightarrow> timers_wf (push_timer t x m)"
proof (induction t x m rule: push_timer.induct)
  case (2 t x u xs m)
  then have "sorted_wrt (<) (map fst (push_timer t x m))" if "u < t"
    using that by (auto simp: timers_wf_def)
  with 2 push_timer_keys [of t x m] show ?case
    by (fastforce simp: timers_wf_def)
qed (simp add: timers_wf_def)

lemma push_timer_all: "mset (all_timers (push_timer t x m)) = add_mset x (mset (all_timers m))"
  by (induction t x m rule: push_timer.induct) (auto simp: all_timers_def)

lemma push_timer_first: "push_timer t x m \<noteq> []"
  "m \<noteq> [] \<Longrightarrow> \<not> t < fst (hd m) \<Longrightarrow> fst (hd (push_timer t x m)) = fst (hd m)"
  by (induction t x m rule: push_timer.induct) auto

lemma drop_timer_keys: "set (map fst (drop_timer t x m)) \<subseteq> set (map fst m)"
  by (induction t x m rule: drop_timer.induct) (auto split: list.splits)

lemma drop_timer_wf: "timers_wf m \<Longrightarrow> timers_wf (drop_timer t x m)"
proof (induction t x m rule: drop_timer.induct)
  case (2 t x u xs m)
  then have m: "timers_wf m" by (auto simp: timers_wf_def)
  show ?case
  proof (cases "t = u")
    case True
    show ?thesis
    proof (cases "filter (\<lambda>y. timer_id y \<noteq> timer_id x) xs")
      case Nil
      with m True show ?thesis by simp
    next
      case (Cons y ys)
      then have "set (y # ys) \<subseteq> set xs" by (metis filter_is_subset)
      with 2(2) True Cons show ?thesis by (auto simp: timers_wf_def)
    qed
  next
    case False
    have "\<forall>v\<in>set (map fst m). u < v" using 2(2) by (auto simp: timers_wf_def)
    then have "\<forall>v\<in>set (map fst (drop_timer t x m)). u < v" using drop_timer_keys [of t x m] by blast
    with 2(1) [OF False m] 2(2) False show ?thesis by (simp add: timers_wf_def)
  qed
qed (simp add: timers_wf_def)

lemma drop_timer_all:
  "timers_wf m \<Longrightarrow> all_timers (drop_timer t x m)
     = filter (\<lambda>y. \<not> (timeout y = t \<and> timer_id y = timer_id x)) (all_timers m)"
proof (induction t x m rule: drop_timer.induct)
  case (2 t x u xs m)
  then have m: "timers_wf m" and xs: "\<forall>y\<in>set xs. timeout y = u"
    and later: "\<forall>y\<in>set (all_timers m). timeout y > u"
    by (fastforce simp: timers_wf_def all_timers_def)+
  show ?case
  proof (cases "t = u")
    case True
    have "filter (\<lambda>y. \<not> (timeout y = u \<and> timer_id y = timer_id x)) xs
        = filter (\<lambda>y. timer_id y \<noteq> timer_id x) xs"
      using xs by (auto intro: filter_cong)
    moreover have "filter (\<lambda>y. \<not> (timeout y = u \<and> timer_id y = timer_id x)) (all_timers m) = all_timers m"
      using later by (auto simp: filter_id_conv)
    ultimately show ?thesis using True by (auto simp: all_timers_def split: list.splits)
  next
    case False
    then have "filter (\<lambda>y. \<not> (timeout y = t \<and> timer_id y = timer_id x)) xs = xs"
      using xs by (auto simp: filter_id_conv)
    with 2(1) [OF False m] False show ?thesis by (simp add: all_timers_def)
  qed
qed (simp add: all_timers_def)

lemma timers_wf_first: "timers_wf m \<Longrightarrow> u \<in> fst ` set m \<Longrightarrow> fst (hd m) \<le> u"
  by (cases m) (auto simp: timers_wf_def)

lemma drop_timer_first:
  assumes "timers_wf m" and "drop_timer t x m \<noteq> []"
  shows "m \<noteq> [] \<and> fst (hd m) \<le> fst (hd (drop_timer t x m))"
proof -
  have "fst (hd (drop_timer t x m)) \<in> set (map fst (drop_timer t x m))" using assms(2) by auto
  with drop_timer_keys [of t x m] have "fst (hd (drop_timer t x m)) \<in> fst ` set m" by auto
  with timers_wf_first [OF assms(1) this] show ?thesis by auto
qed

lemma timers_wf_split:
  assumes "timers_wf m"
  shows "\<forall>x\<in>set (all_timers (takeWhile (\<lambda>e. fst e \<le> n) m)). timeout x \<le> n"
    and "\<forall>x\<in>set (all_timers (dropWhile (\<lambda>e. fst e \<le> n) m)). n < timeout x"
    and "timers_wf (dropWhile (\<lambda>e. fst e \<le> n) m)"
proof -
  have "\<forall>(u, xs)\<in>set (takeWhile (\<lambda>e. fst e \<le> n) m). u \<le> n" by (auto dest: set_takeWhileD)
  with assms show "\<forall>x\<in>set (all_timers (takeWhile (\<lambda>e. fst e \<le> n) m)). timeout x \<le> n"
    by (fastforce simp: timers_wf_def all_timers_def dest: set_takeWhileD)
  show wf: "timers_wf (dropWhile (\<lambda>e. fst e \<le> n) m)"
    using assms set_dropWhileD unfolding timers_wf_def
    by (metis (no_types, lifting) dropWhile_eq_drop drop_map sorted_wrt_drop)
  have "dropWhile (\<lambda>e. fst e \<le> n) m \<noteq> [] \<Longrightarrow> n < fst (hd (dropWhile (\<lambda>e. fst e \<le> n) m))"
    using hd_dropWhile [of "\<lambda>e. fst e \<le> n" m] by simp
  with timers_wf_first [OF wf] wf show "\<forall>x\<in>set (all_timers (dropWhile (\<lambda>e. fst e \<le> n) m)). n < timeout x"
    by (fastforce simp: timers_wf_def all_timers_def)
qed

subsection \<open>Every operation keeps the invariant\<close>

lemma scheduleTick_frame [simp]:
  "timers (scheduleTick c) = timers c" "paused (scheduleTick c) = paused c"
  "current (scheduleTick c) = current c" "currents (scheduleTick c) = currents c"
  "next_id (scheduleTick c) = next_id c" "loop (scheduleTick c) = loop c"
  "advanced (scheduleTick c) = advanced c" "settling (scheduleTick c) = settling c"
  "initial (scheduleTick c) = initial c"
  by (auto simp: scheduleTick_def split: option.split)

lemma insort_insert_first: "sorted xs \<Longrightarrow> xs = [] \<or> x < hd xs \<Longrightarrow> insort_insert x xs = x # xs"
  by (cases xs) (auto simp: insort_insert_key_def)

lemma scheduleTick_ok:
  assumes "ticks_ok c"
  shows "ticks_ok (scheduleTick c) \<and> tick_set (scheduleTick c)"
proof (cases "clock_next c")
  case None
  then have "scheduleTick c = c" by (simp add: scheduleTick_def)
  with assms None show ?thesis
    by (auto simp: tick_set_def clock_next_def now_global_simp split: list.splits if_splits)
next
  case (Some n)
  then have t: "timers c \<noteq> []" "fst (hd (timers c)) = n"
      "loop c + (n - now_global c) \<le> loop c \<or> \<not> paused c \<and> loop c + (n - now_global c) + advanced c \<le> n"
    by (auto simp: clock_next_def now_global_simp split: list.splits if_splits)
  show ?thesis
  proof (cases "ticks c = [] \<or> n < hd (ticks c)")
    case True
    then have "insort_insert n (ticks c) = n # ticks c"
      using assms by (simp add: insort_insert_first ticks_ok_def)
    with Some True t assms show ?thesis
      by (cases "ticks c") (fastforce simp: scheduleTick_def ticks_ok_def tick_set_def)+
  next
    case False
    then have "scheduleTick c = c" using Some by (auto simp: scheduleTick_def)
    with False t assms show ?thesis by (auto simp: tick_set_def)
  qed
qed

lemma tick_set_due:
  assumes "ticks_ok c" and "tick_set c" and "timers c \<noteq> []" and "fst (hd (timers c)) \<le> now_global c"
  shows "due_tick c"
proof -
  have t: "ticks c \<noteq> []" "hd (ticks c) \<le> fst (hd (timers c))"
    using assms by (auto simp: tick_set_def now_global_simp split: if_splits)
  then obtain at where "(at, hd (ticks c)) \<in> set (delays c)"
      "at \<le> loop c \<or> \<not> paused c \<and> at + advanced c \<le> hd (ticks c)"
    using assms(1) hd_in_set [OF t(1)] unfolding ticks_ok_def by blast
  moreover from this(2) t(2) assms(4) have "at \<le> loop c" by (auto simp: now_global_simp split: if_splits)
  ultimately show ?thesis unfolding due_tick_def by force
qed

text \<open>An operation that ends with \<^verbatim>\<open>scheduleTick\<close> only has to keep the ticks and the map of timers.\<close>

lemma scheduleTick_clock_ok:
  assumes "timers_wf (timers c)" and "ticks_ok c" and "\<not> paused c \<longrightarrow> currents c = (\<lambda>_. None)"
  shows "clock_ok (scheduleTick c)"
  using scheduleTick_ok [OF assms(2)] tick_set_due [of "scheduleTick c"] assms(1,3)
  by (auto simp: clock_ok_def now_global_simp)

lemma clock_okD:
  "clock_ok c \<Longrightarrow> timers_wf (timers c) \<and> ticks_ok c \<and> (\<not> paused c \<longrightarrow> currents c = (\<lambda>_. None))"
  by (simp add: clock_ok_def)

lemma clock_ok_currents:
  "clock_ok c \<Longrightarrow> paused c \<Longrightarrow> clock_ok (c\<lparr>currents := m\<rparr>)"
  by (auto simp: clock_ok_def ticks_ok_def tick_set_def due_tick_def)

lemma clock_ok_now: "clock_ok c \<Longrightarrow> clock_ok (fst (clock_now p c))"
  by (auto simp: clock_now_def clock_ok_currents split: option.split sum.split)

lemma clock_now_frame [simp]:
  "timers (fst (clock_now p c)) = timers c" "paused (fst (clock_now p c)) = paused c"
  "next_id (fst (clock_now p c)) = next_id c"
  by (auto simp: clock_now_def split: option.split sum.split)

lemma ticks_ok_elapse: "ticks_ok c \<Longrightarrow> ticks_ok (c\<lparr>loop := loop c + int n\<rparr>)"
  unfolding ticks_ok_def by (auto dest!: bspec intro: order_trans)

lemma due_tick_elapse: "due_tick c \<Longrightarrow> due_tick (c\<lparr>loop := loop c + int n\<rparr>)"
  unfolding due_tick_def by (auto intro!: bexI)

lemma clock_ok_elapse: "clock_ok c \<Longrightarrow> clock_ok (c\<lparr>loop := loop c + int n\<rparr>)"
  using ticks_ok_elapse [of c n] due_tick_elapse [of c n] by (auto simp: clock_ok_def tick_set_def)

lemma ticks_ok_frame [simp]:
  "ticks_ok (c\<lparr>timers := m\<rparr>) = ticks_ok c" "ticks_ok (c\<lparr>next_id := n\<rparr>) = ticks_ok c"
  "ticks_ok (c\<lparr>settling := b\<rparr>) = ticks_ok c" "ticks_ok (c\<lparr>currents := cu\<rparr>) = ticks_ok c"
  "ticks_ok (c\<lparr>current := t\<rparr>) = ticks_ok c"
  "due_tick (c\<lparr>timers := m\<rparr>) = due_tick c" "due_tick (c\<lparr>next_id := n\<rparr>) = due_tick c"
  "due_tick (c\<lparr>settling := b\<rparr>) = due_tick c"
  "tick_set (c\<lparr>next_id := n\<rparr>) = tick_set c" "tick_set (c\<lparr>settling := b\<rparr>) = tick_set c"
  by (simp_all add: ticks_ok_def due_tick_def tick_set_def)

lemma clock_ok_settling: "clock_ok c \<Longrightarrow> clock_ok (c\<lparr>settling := b\<rparr>)"
  by (simp add: clock_ok_def)

lemma clock_ok_next_id: "clock_ok c \<Longrightarrow> clock_ok (c\<lparr>next_id := n\<rparr>)"
  by (simp add: clock_ok_def)

lemma clock_ok_timers:
  assumes "clock_ok c" and "timers_wf m" and "m \<noteq> [] \<Longrightarrow> timers c \<noteq> [] \<and> fst (hd (timers c)) \<le> fst (hd m)"
  shows "clock_ok (c\<lparr>timers := m\<rparr>)"
proof (cases "m = []")
  case True
  with assms show ?thesis by (simp add: clock_ok_def tick_set_def)
next
  case False
  with assms(3) have "timers c \<noteq> []" "fst (hd (timers c)) \<le> fst (hd m)" by auto
  with assms(1,2) show ?thesis by (auto simp: clock_ok_def tick_set_def)
qed

lemma clock_ok_timer: "clock_ok c \<Longrightarrow> clock_ok (fst (clock_timer p d f c))"
proof -
  assume "clock_ok c"
  from clock_ok_now [OF this, of p] obtain c1 now where c1: "clock_now p c = (c1, now)" "clock_ok c1"
    by (metis fst_conv surj_pair)
  let ?t = "\<lparr>timer_id = next_id c1, timeout = timeout_in now d, creator = p, thunk = f\<rparr>"
  have wf: "timers_wf (push_timer (timeout ?t) ?t (timers c1))"
    using c1(2) by (auto simp: clock_ok_def intro: push_timer_wf)
  show ?thesis
  proof (cases "timers c1 = [] \<or> timeout ?t < fst (hd (timers c1))")
    case True
    then show ?thesis using wf c1(1) clock_okD [OF c1(2)]
      by (auto simp: clock_timer_def Let_def ticks_ok_frame intro!: scheduleTick_clock_ok)
  next
    case False
    then have "clock_ok (c1\<lparr>next_id := Suc (next_id c1), timers := push_timer (timeout ?t) ?t (timers c1)\<rparr>)"
      using wf clock_ok_next_id [OF c1(2)] push_timer_first
      by (intro clock_ok_timers) auto
    with False show ?thesis by (simp add: clock_timer_def Let_def c1)
  qed
qed

lemma clock_ok_cancel: "clock_ok c \<Longrightarrow> clock_ok (fst (clock_cancel t c))"
  using drop_timer_first [of "timers c"] drop_timer_wf [of "timers c"]
  by (auto simp: clock_cancel_def intro!: clock_ok_timers) (auto simp: clock_ok_def)

lemma clock_ok_pause: "clock_ok c \<Longrightarrow> clock_ok (clock_pause p c)"
proof (cases "paused c")
  case False
  assume "clock_ok c"
  with False have "timers c \<noteq> [] \<Longrightarrow> fst (hd (timers c)) \<le> loop c + advanced c \<Longrightarrow> due_tick c"
    using tick_set_due [of c] by (simp add: clock_ok_def now_global_simp)
  with False \<open>clock_ok c\<close> show ?thesis
    by (simp add: clock_pause_def clock_now_def time_create_def clock_ok_def ticks_ok_def due_tick_def)
qed (simp add: clock_pause_def)

lemma clock_ok_resume: "clock_ok c \<Longrightarrow> clock_ok (clock_resume c)"
proof (cases "paused c")
  assume "clock_ok c"
  from clock_okD [OF this] have "ticks_ok c" and wf: "timers_wf (timers c)" by simp_all
  moreover assume "paused c"
  ultimately have "ticks_ok (c\<lparr>paused := False, settling := False, currents := (\<lambda>_. None)\<rparr>)"
    by (auto simp: ticks_ok_def)
  with wf \<open>paused c\<close> show ?thesis
    by (simp add: clock_resume_def scheduleTick_clock_ok)
qed (simp add: clock_resume_def)

lemma clock_ok_advance: "clock_ok c \<Longrightarrow> clock_ok (clock_advance d c)"
  using clock_okD [of c]
  by (auto simp: clock_advance_def ticks_ok_def intro!: scheduleTick_clock_ok)

lemma clock_ok_update: "clock_ok c \<Longrightarrow> clock_ok (clock_update t c)"
  using clock_okD [of c]
  by (auto simp: clock_update_def ticks_ok_def intro!: scheduleTick_clock_ok)

lemma clock_ok_advance_process: "clock_ok c \<Longrightarrow> clock_ok (clock_advance_process p d c)"
  using clock_ok_now [of c "Some p"]
  by (auto simp: clock_advance_process_def split: prod.split intro!: clock_ok_currents)
    (metis clock_now_frame(2) fst_conv)

lemma clock_ok_update_process: "clock_ok c \<Longrightarrow> clock_ok (clock_update_process p t m c)"
  using clock_ok_now [of c "Some p"]
  by (auto simp: clock_update_process_def split: prod.split intro!: clock_ok_currents)
    (metis clock_now_frame(2) fst_conv)+

lemma clock_ok_order: "clock_ok c \<Longrightarrow> clock_ok (clock_order p q c)"
  using clock_ok_now [of c "Some p"]
  by (auto simp: clock_order_def split: prod.split intro: clock_ok_update_process)

text \<open>The timers a tick delivers, and what stays; the \<^verbatim>\<open>CHECK\<close> holds.\<close>

lemma tick_collect_some:
  "\<exists>c'. tick_collect t c = Some (c', all_timers (takeWhile (\<lambda>e. fst e \<le> now_global c) (timers c)))
     \<and> timers c' = dropWhile (\<lambda>e. fst e \<le> now_global c) (timers c) \<and> next_id c' = next_id c"
  using hd_dropWhile [of "\<lambda>e. fst e \<le> now_global c" "timers c"]
  by (auto simp: tick_collect_def Let_def not_le)

lemma clock_ok_fire:
  assumes "clock_ok c" and "tick_collect t (c\<lparr>delays := remove1 (at, t) (delays c)\<rparr>) = Some (c', xs)"
  shows "clock_ok c'"
proof -
  let ?c = "c\<lparr>delays := remove1 (at, t) (delays c)\<rparr>"
  have "\<exists>a. (a, u) \<in> set (remove1 (at, t) (delays c)) \<and> (a \<le> loop c \<or> \<not> paused c \<and> a + advanced c \<le> u)"
    if "u \<in> set (ticks c)" "u \<noteq> t" for u
    using assms(1) that by (fastforce simp: clock_ok_def ticks_ok_def)
  then have "ticks_ok (?c\<lparr>ticks := removeAll t (ticks c)\<rparr>)"
    using assms(1) by (auto simp: clock_ok_def ticks_ok_def removeAll_filter_not_eq sorted_wrt_filter)
  moreover have "now_global ?c = now_global c" by (simp add: now_global_simp)
  ultimately show ?thesis
    using assms(2) clock_okD [OF assms(1)] timers_wf_split(3) [of "timers c" "now_global c"]
    by (auto simp: tick_collect_def Let_def split: if_splits intro!: scheduleTick_clock_ok)
      (simp_all add: ticks_ok_def)
qed

section \<open>Runs keep the invariants\<close>

definition run_ok :: "run \<Rightarrow> bool" where
  "run_ok r \<longleftrightarrow> clock_ok (ck r) \<and> sorted_wrt timer_before (all_timers (timers (ck r)))
     \<and> mset (map timer_id (delivered r @ removed r @ all_timers (timers (ck r)))) = mset [1..<next_id (ck r)]
     \<and> 1 \<le> next_id (ck r)"

lemma mset_upt_Suc: "a \<le> b \<Longrightarrow> mset [a..<Suc b] = add_mset b (mset [a..<b])"
  by simp

lemma mset_map_partition:
  "mset (map f (filter (\<lambda>x. \<not> Q x) xs)) + mset (map f (filter Q xs)) = mset (map f xs)"
  by (induction xs) auto

lemma run_ok_ids:
  assumes "run_ok r" and "x \<in> set (all_timers (timers (ck r)))"
  shows "timer_id x < next_id (ck r)"
proof -
  have "timer_id x \<in> set_mset (mset (map timer_id (delivered r @ removed r @ all_timers (timers (ck r)))))"
    using assms(2) by simp
  also have "\<dots> = set_mset (mset [1..<next_id (ck r)])" using assms(1) unfolding run_ok_def by metis
  finally show ?thesis by simp
qed

text \<open>Steps that leave the timers alone.\<close>

lemma run_ok_frame:
  assumes "run_ok r" and "clock_ok c" and "timers c = timers (ck r)" and "next_id c = next_id (ck r)"
  shows "run_ok (r\<lparr>ck := c\<rparr>)" and "run_ok (r\<lparr>ck := c, executing := e\<rparr>)"
  using assms by (simp_all add: run_ok_def)

lemma push_timer_sorted:
  assumes "sorted_wrt timer_before (all_timers m)" and "timers_wf m" and "timeout x = t"
    and "\<forall>y\<in>set (all_timers m). timer_id y < timer_id x"
  shows "sorted_wrt timer_before (all_timers (push_timer t x m))"
  using assms
proof (induction t x m rule: push_timer.induct)
  case (1 t x)
  then show ?case by (simp add: all_timers_def)
next
  case (2 t x u xs m)
  have m: "timers_wf m" "sorted_wrt timer_before (all_timers m)" "sorted_wrt timer_before xs"
      "\<forall>y\<in>set xs. timeout y = u" "\<forall>y\<in>set (all_timers m). u < timeout y"
      "\<forall>y\<in>set (all_timers m). timer_id y < timer_id x" "\<forall>y\<in>set xs. timer_id y < timer_id x"
    using 2(2-5) by (fastforce simp: timers_wf_def all_timers_def sorted_wrt_append)+
  have mem: "set (all_timers (push_timer t x m)) = insert x (set (all_timers m))"
    using push_timer_all [of t x m] by (metis set_mset_add_mset_insert set_mset_mset)
  have all: "all_timers ((v, ys) # n) = ys @ all_timers n" for v ys n by (simp add: all_timers_def)
  consider "t < u" | "t = u" | "u < t" by linarith
  then show ?case
  proof cases
    case 1
    then have "\<forall>y\<in>set (xs @ all_timers m). timer_before x y"
      using m 2(4) by (fastforce simp: timer_before_def)
    with 1 2(2) show ?thesis by (simp add: all)
  next
    case 2
    with m \<open>timeout x = t\<close> have "\<forall>y\<in>set xs. timer_before y x" and "\<forall>y\<in>set (all_timers m). timer_before x y"
      by (simp_all add: timer_before_def)
    with 2 \<open>sorted_wrt timer_before (all_timers ((u, xs) # m))\<close> show ?thesis
      by (auto simp: all sorted_wrt_append)
  next
    case 3
    with "2.IH" m \<open>timeout x = t\<close> have "sorted_wrt timer_before (all_timers (push_timer t x m))" by simp
    moreover have "\<forall>y\<in>set xs. timer_before y x" using m 3 \<open>timeout x = t\<close> by (simp add: timer_before_def)
    ultimately show ?thesis
      using 3 \<open>sorted_wrt timer_before (all_timers ((u, xs) # m))\<close> by (simp add: all sorted_wrt_append mem)
  qed
qed

lemma run_ok_timer: "run_ok r \<Longrightarrow> run_ok (r\<lparr>ck := fst (clock_timer p d f (ck r))\<rparr>)"
proof -
  assume r: "run_ok r"
  obtain c1 now where c1: "clock_now p (ck r) = (c1, now)" by fastforce
  then have f: "timers c1 = timers (ck r)" "next_id c1 = next_id (ck r)"
    using clock_now_frame [of p "ck r"] by simp_all
  let ?t = "\<lparr>timer_id = next_id c1, timeout = timeout_in now d, creator = p, thunk = f\<rparr>"
  have t: "timers (fst (clock_timer p d f (ck r))) = push_timer (timeout ?t) ?t (timers (ck r))"
    and n: "next_id (fst (clock_timer p d f (ck r))) = Suc (next_id (ck r))"
    by (simp_all add: clock_timer_def c1 f Let_def)
  have "sorted_wrt timer_before (all_timers (push_timer (timeout ?t) ?t (timers (ck r))))"
    using r run_ok_ids [OF r] f(2)
    by (intro push_timer_sorted) (auto simp: run_ok_def clock_ok_def)
  moreover have "mset (map timer_id (delivered r @ removed r @ all_timers (push_timer (timeout ?t) ?t (timers (ck r)))))
      = mset [1..<Suc (next_id (ck r))]"
    using r unfolding run_ok_def
    by (simp add: mset_upt_Suc push_timer_all f(2) del: mset_upt upt_Suc)
  ultimately show ?thesis
    using r clock_ok_timer [of "ck r" p d f] unfolding run_ok_def by (simp add: t n)
qed

lemma run_ok_cancel: "run_ok r \<Longrightarrow> act (Cancel t) r = Some r' \<Longrightarrow> run_ok r'"
proof -
  assume r: "run_ok r" and a: "act (Cancel t) r = Some r'"
  let ?m = "all_timers (timers (ck r))" and ?m' = "all_timers (timers (fst (clock_cancel t (ck r))))"
  have "\<exists>Q. ?m' = filter Q ?m"
    using r drop_timer_all [of "timers (ck r)" "timeout t" t]
    by (auto simp: clock_cancel_def run_ok_def clock_ok_def intro: exI [of _ "\<lambda>_. True"])
  then obtain Q where Q: "?m' = filter Q ?m" ..
  have "filter (\<lambda>x. x \<notin> set ?m') ?m = filter (\<lambda>x. \<not> Q x) ?m" unfolding Q by (auto intro: filter_cong)
  then have "mset (map timer_id (delivered r @ (removed r @ filter (\<lambda>x. x \<notin> set ?m') ?m) @ ?m'))
      = mset (map timer_id (delivered r @ removed r @ ?m))"
    unfolding Q using mset_map_partition [of timer_id Q ?m]
    by (simp add: add.assoc del: mset_map mset_filter)
  moreover have "sorted_wrt timer_before ?m'" using r unfolding Q run_ok_def by (simp add: sorted_wrt_filter)
  moreover have "next_id (fst (clock_cancel t (ck r))) = next_id (ck r)" by (simp add: clock_cancel_def)
  ultimately show ?thesis
    using r a clock_ok_cancel [of "ck r" t] unfolding run_ok_def by (auto simp: add.assoc)
qed

lemma all_timers_append: "all_timers (xs @ ys) = all_timers xs @ all_timers ys"
  by (simp add: all_timers_def)

lemma run_ok_fire: "run_ok r \<Longrightarrow> act (Fire e) r = Some r' \<Longrightarrow> run_ok r'"
proof -
  assume r: "run_ok r" and a: "act (Fire e) r = Some r'"
  let ?c = "(ck r)\<lparr>delays := remove1 e (delays (ck r))\<rparr>" and ?P = "\<lambda>e. fst e \<le> now_global (ck r)"
  have g: "now_global ?c = now_global (ck r)" by (simp add: now_global_simp)
  obtain c' where c': "tick_collect (snd e) ?c = Some (c', all_timers (takeWhile ?P (timers (ck r))))"
      "timers c' = dropWhile ?P (timers (ck r))" "next_id c' = next_id (ck r)"
    using tick_collect_some [of "snd e" ?c] g by auto
  have split: "all_timers (timers (ck r))
      = all_timers (takeWhile ?P (timers (ck r))) @ all_timers (dropWhile ?P (timers (ck r)))"
    by (metis all_timers_append takeWhile_dropWhile_id)
  have "clock_ok c'" using r c'(1) by (cases e) (auto simp: run_ok_def intro: clock_ok_fire)
  with r a c' show ?thesis
    by (auto simp: run_ok_def split sorted_wrt_append ac_simps split: if_splits)
qed

lemma clock_nowD:
  "clock_now p c = (c1, t) \<Longrightarrow> timers c1 = timers c \<and> next_id c1 = next_id c \<and> paused c1 = paused c"
  using clock_now_frame [of p c] by simp

lemma clock_update_process_frame [simp]:
  "timers (clock_update_process p t m c) = timers c" "next_id (clock_update_process p t m c) = next_id c"
  by (auto simp: clock_update_process_def split: prod.split dest: clock_nowD)

lemma clock_frame [simp]:
  "timers (clock_pause q c) = timers c" "next_id (clock_pause q c) = next_id c"
  "timers (clock_resume c) = timers c" "next_id (clock_resume c) = next_id c"
  "timers (clock_advance d c) = timers c" "next_id (clock_advance d c) = next_id c"
  "timers (clock_update u c) = timers c" "next_id (clock_update u c) = next_id c"
  "timers (clock_advance_process p d c) = timers c" "next_id (clock_advance_process p d c) = next_id c"
  "timers (clock_order p p' c) = timers c" "next_id (clock_order p p' c) = next_id c"
  "timers (tick_settle c) = timers c" "next_id (tick_settle c) = next_id c"
  by (auto simp: clock_pause_def clock_resume_def clock_advance_def clock_update_def
      clock_advance_process_def clock_order_def tick_settle_def split: prod.split dest: clock_nowD)

lemma run_ok_step:
  assumes "run_ok r" and "act a r = Some r'"
  shows "run_ok r'"
proof -
  have c: "clock_ok (ck r)" using assms(1) by (simp add: run_ok_def)
  note frame = run_ok_frame [OF assms(1)]
  show ?thesis
  proof (cases a)
    case Executed
    then show ?thesis using assms(2) frame(2) [of "tick_settle (ck r)" None] clock_ok_settling [OF c] c
      by (auto simp: tick_settle_def split: if_splits)
  next
    case Finalize
    then show ?thesis using assms c
      by (auto simp: clock_finalize_def run_ok_def all_timers_def [of "[]"] timers_wf_def
          intro!: clock_ok_timers split: if_splits)
  qed (use assms(2) frame(1) run_ok_timer [OF assms(1)] run_ok_cancel [OF assms(1)] run_ok_fire [OF assms(1)] c
       in \<open>auto simp: clock_ok_elapse clock_ok_now clock_ok_pause clock_ok_resume clock_ok_advance
         clock_ok_advance_process clock_ok_update clock_ok_update_process clock_ok_order
         simp del: act.simps(2,5)\<close>)
qed

lemma clock_reach_ok: "clock_reach r \<Longrightarrow> run_ok r"
proof (induction rule: clock_reach.induct)
  case (clock_start l)
  show ?case
    by (simp add: run_ok_def clock_init_def clock_ok_def timers_wf_def ticks_ok_def tick_set_def all_timers_def)
qed (rule run_ok_step)

text \<open>The paused time never runs ahead of the time at which the clock will resume.\<close>

definition no_lead :: "clock \<Rightarrow> bool" where
  "no_lead c \<longleftrightarrow> (paused c \<longrightarrow> current c \<le> loop c + advanced c)"

text \<open>What the global time depends on, and the operations that leave it alone.\<close>

definition time_fields :: "clock \<Rightarrow> bool \<times> time \<times> time \<times> duration" where
  "time_fields c = (paused c, current c, loop c, advanced c)"

lemma clock_now_time: "clock_now p c = (c1, t) \<Longrightarrow> time_fields c1 = time_fields c"
  by (auto simp: time_fields_def clock_now_def split: if_splits option.splits sum.splits)

lemma tick_collect_time: "tick_collect t c = Some (c1, xs) \<Longrightarrow> time_fields c1 = time_fields c"
  by (auto simp: time_fields_def tick_collect_def Let_def split: if_splits)

lemma time_fields_upd [simp]:
  "time_fields (c\<lparr>timers := m\<rparr>) = time_fields c" "time_fields (c\<lparr>currents := cu\<rparr>) = time_fields c"
  "time_fields (c\<lparr>next_id := n\<rparr>) = time_fields c" "time_fields (c\<lparr>settling := b\<rparr>) = time_fields c"
  "time_fields (c\<lparr>delays := ds\<rparr>) = time_fields c" "time_fields (scheduleTick c) = time_fields c"
  by (simp_all add: time_fields_def)

lemma clock_update_process_time [simp]: "time_fields (clock_update_process p u mode c) = time_fields c"
  by (auto simp: clock_update_process_def split: prod.split dest: clock_now_time)

lemma clock_now_time_fst [simp]: "time_fields (fst (clock_now q c)) = time_fields c"
  by (metis clock_now_time prod.collapse)

lemma clock_time_frame [simp]:
  "time_fields (fst (clock_timer q d f c)) = time_fields c"
  "time_fields (fst (clock_cancel t c)) = time_fields c" "time_fields (tick_settle c) = time_fields c"
  "time_fields (clock_advance_process p d c) = time_fields c" "time_fields (clock_order p p' c) = time_fields c"
  by (auto simp: clock_timer_def clock_cancel_def tick_settle_def clock_advance_process_def clock_order_def
      Let_def split: prod.split dest: clock_now_time)

lemma time_fields_step:
  assumes "time_fields c' = time_fields c"
  shows "no_lead c' = no_lead c" and "now_global c' = now_global c"
  using assms by (auto simp: time_fields_def no_lead_def now_global_simp)

text \<open>The operations that do change it.\<close>

lemma clock_time_changes:
  assumes "no_lead c"
  shows "no_lead (c\<lparr>loop := loop c + int n\<rparr>) \<and> now_global c \<le> now_global (c\<lparr>loop := loop c + int n\<rparr>)"
    and "no_lead (clock_pause p c) \<and> now_global c \<le> now_global (clock_pause p c)"
    and "no_lead (clock_resume c) \<and> now_global c \<le> now_global (clock_resume c)"
    and "no_lead (clock_advance d c) \<and> (0 \<le> d \<longrightarrow> now_global c \<le> now_global (clock_advance d c))"
    and "no_lead (clock_update t c) \<and> now_global c \<le> now_global (clock_update t c)"
  using assms by (auto simp: no_lead_def now_global_simp clock_pause_def clock_resume_def clock_advance_def
      clock_update_def clock_now_def time_create_def)

lemma act_time:
  assumes "act a r = Some r'" and "no_lead (ck r)"
  shows "no_lead (ck r') \<and> ((\<forall>d. a = Advance d \<longrightarrow> 0 \<le> d) \<longrightarrow> now_global (ck r) \<le> now_global (ck r'))"
proof -
  have same: ?thesis if "time_fields (ck r') = time_fields (ck r)"
    using time_fields_step [OF that] assms(2) by simp
  note changes = clock_time_changes [OF assms(2)]
  show ?thesis
  proof (cases a)
    case (Fire e)
    with assms(1) show ?thesis
      by (intro same) (auto split: if_splits option.splits dest: tick_collect_time)
  next
    case Executed
    with assms(1) show ?thesis by (intro same) (auto split: if_splits)
  next
    case Finalize
    with assms(1) show ?thesis
      by (intro same) (auto simp: clock_finalize_def split: if_splits)
  qed (use assms(1) same changes in auto)
qed

lemma clock_reach_no_lead: "clock_reach r \<Longrightarrow> no_lead (ck r)"
proof (induction rule: clock_reach.induct)
  case (clock_start l)
  show ?case by (simp add: no_lead_def clock_init_def)
qed (use act_time in blast)

section \<open>Properties\<close>

lemma due_timers:
  assumes "timers_wf m"
  shows "all_timers (takeWhile (\<lambda>e. fst e \<le> n) m) = filter (\<lambda>x. timeout x \<le> n) (all_timers m)"
    and "all_timers (dropWhile (\<lambda>e. fst e \<le> n) m) = filter (\<lambda>x. n < timeout x) (all_timers m)"
proof -
  have m: "all_timers m = all_timers (takeWhile (\<lambda>e. fst e \<le> n) m) @ all_timers (dropWhile (\<lambda>e. fst e \<le> n) m)"
    by (metis all_timers_append takeWhile_dropWhile_id)
  note s = timers_wf_split [OF assms, of n]
  show "all_timers (takeWhile (\<lambda>e. fst e \<le> n) m) = filter (\<lambda>x. timeout x \<le> n) (all_timers m)"
    unfolding m filter_append using s by (simp add: filter_id_conv filter_empty_conv not_le)
  show "all_timers (dropWhile (\<lambda>e. fst e \<le> n) m) = filter (\<lambda>x. n < timeout x) (all_timers m)"
    unfolding m filter_append using s by (simp add: filter_id_conv filter_empty_conv not_less)
qed

lemma tick_collects_due:
  assumes "clock_reach r" and "now_global c = now_global (ck r)" and "timers c = timers (ck r)"
  shows "\<exists>c'. tick_collect t c = Some (c', filter (\<lambda>x. timeout x \<le> now_global (ck r)) (all_timers (timers (ck r))))
    \<and> all_timers (timers c') = filter (\<lambda>x. now_global (ck r) < timeout x) (all_timers (timers (ck r)))"
proof -
  have "timers_wf (timers (ck r))" using clock_reach_ok [OF assms(1)] by (simp add: run_ok_def clock_ok_def)
  from due_timers [OF this] show ?thesis using tick_collect_some [of t c] assms(2,3) by auto
qed

text \<open>C16. No timer is lost. In every reachable state of the clock, running or paused, a timer whose timeout
  is reached by the global clock has a tick due on the event loop, and running that tick delivers the
  timer; the \<^verbatim>\<open>CHECK\<close> in \<^verbatim>\<open>tick\<close> holds.\<close>

theorem no_timer_lost:
  assumes "clock_reach r" and "x \<in> set (all_timers (timers (ck r)))" and "timeout x \<le> now_global (ck r)"
  shows "\<exists>e\<in>set (delays (ck r)). fst e \<le> loop (ck r)
    \<and> (executing r = None \<longrightarrow> (\<exists>r'. act (Fire e) r = Some r' \<and> x \<in> set (delivered r')))"
proof -
  have ok: "clock_ok (ck r)" using clock_reach_ok [OF assms(1)] by (simp add: run_ok_def)
  have t: "timers (ck r) \<noteq> []" using assms(2) by (auto simp: all_timers_def)
  have "timeout x \<in> fst ` set (timers (ck r))"
    using assms(2) ok by (force simp: all_timers_def clock_ok_def timers_wf_def)
  then have first: "fst (hd (timers (ck r))) \<le> now_global (ck r)"
    using timers_wf_first [of "timers (ck r)" "timeout x"] ok assms(3) by (auto simp: clock_ok_def)
  have "due_tick (ck r)"
    using ok t first tick_set_due [of "ck r"] by (cases "paused (ck r)") (auto simp: clock_ok_def now_global_simp)
  then obtain e where e: "e \<in> set (delays (ck r))" "fst e \<le> loop (ck r)" by (auto simp: due_tick_def)
  let ?c = "(ck r)\<lparr>delays := remove1 e (delays (ck r))\<rparr>"
  have "now_global ?c = now_global (ck r)" by (simp add: now_global_simp)
  from tick_collects_due [OF assms(1) this, of "snd e"] obtain c' where
    "tick_collect (snd e) ?c = Some (c', filter (\<lambda>x. timeout x \<le> now_global (ck r)) (all_timers (timers (ck r))))"
    by auto
  with e assms(2,3) show ?thesis by (intro bexI [of _ e]) auto
qed

text \<open> Every timer is accounted for once. The timers created (numbered from 1) are, without repetition,
  those delivered to the callback, those removed by \<^verbatim>\<open>cancel\<close> or \<^verbatim>\<open>finalize\<close>, and those in the map. In
  particular a timer is delivered at most once, and not after it was removed.\<close>

theorem timers_accounted:
  assumes "clock_reach r"
  shows "mset (map timer_id (delivered r @ removed r @ all_timers (timers (ck r)))) = mset [1..<next_id (ck r)]"
  using clock_reach_ok [OF assms] unfolding run_ok_def by blast

text \<open> What a tick delivers. A tick takes from the map exactly the timers whose timeout the global clock
  has reached, none earlier, in the order of their timeouts and, for equal timeouts, of their creation.\<close>

theorem tick_delivers_due:
  assumes "clock_reach r"
  shows "\<exists>c xs. tick_collect t (ck r) = Some (c, xs)
    \<and> xs = filter (\<lambda>x. timeout x \<le> now_global (ck r)) (all_timers (timers (ck r)))
    \<and> all_timers (timers c) = filter (\<lambda>x. now_global (ck r) < timeout x) (all_timers (timers (ck r)))
    \<and> sorted_wrt timer_before xs"
  using tick_collects_due [OF assms refl refl, of t] clock_reach_ok [OF assms]
  by (auto simp: run_ok_def sorted_wrt_filter)

text \<open> The clock never turns back. No call and no event, pausing and resuming included, makes the global
  clock smaller, unless \<^verbatim>\<open>advance\<close> is called with a negative duration.\<close>

theorem clock_never_turns_back:
  assumes "clock_reach r" and "act a r = Some r'" and "\<forall>d. a = Advance d \<longrightarrow> 0 \<le> d"
  shows "now_global (ck r) \<le> now_global (ck r')"
  using act_time [OF assms(2) clock_reach_no_lead [OF assms(1)]] assms(3) by blast

text \<open> Happens before. On a paused clock \<^verbatim>\<open>Clock::order(from, to)\<close> makes the clock of \<^verbatim>\<open>to\<close> at least that of
  \<^verbatim>\<open>from\<close>, never turns it back and leaves the clock of every other process as it was.\<close>

theorem order_happens_before:
  assumes "paused c"
  shows "snd (clock_now (Some p) c) \<le> snd (clock_now (Some q) (clock_order p q c))
    \<and> snd (clock_now (Some q) c) \<le> snd (clock_now (Some q) (clock_order p q c))
    \<and> (\<forall>p'. p' \<noteq> q \<longrightarrow> snd (clock_now (Some p') (clock_order p q c)) = snd (clock_now (Some p') c))"
  using assms by (auto simp: clock_order_def clock_update_process_def clock_now_def split: option.splits)

section \<open>Witnesses\<close>

fun acts :: "clock_act list \<Rightarrow> run \<Rightarrow> run option" where
  "acts [] r = Some r"
| "acts (a # as) r = (case act a r of Some r' \<Rightarrow> acts as r' | None \<Rightarrow> None)"

lemma acts_reach: "clock_reach r \<Longrightarrow> acts as r = Some r' \<Longrightarrow> clock_reach r'"
  by (induction as arbitrary: r) (auto split: option.splits intro: clock_next_step)

definition clock_run :: "clock_act list \<Rightarrow> run" where
  "clock_run as = the (acts as \<lparr>ck = clock_init 100, executing = None, delivered = [], removed = []\<rparr>)"

lemma clock_run_reach:
  "acts as \<lparr>ck = clock_init 100, executing = None, delivered = [], removed = []\<rparr> \<noteq> None \<Longrightarrow> clock_reach (clock_run as)"
  unfolding clock_run_def by (rule acts_reach [OF clock_start]) auto

definition late :: run where
  "late = clock_run [NewTimer None 50 7, NewTimer None 20 8, NewTimer None 20 9, Elapse 30]"

lemma late_reach: "clock_reach late"
  unfolding late_def by (rule clock_run_reach) code_simp

theorem no_timer_lost_witness:
  "\<exists>e r'. act (Fire e) late = Some r' \<and> \<lparr>timer_id = 2, timeout = 120, creator = None, thunk = 8\<rparr> \<in> set (delivered r')"
proof -
  have "\<lparr>timer_id = 2, timeout = 120, creator = None, thunk = 8\<rparr> \<in> set (all_timers (timers (ck late)))"
    and "120 \<le> now_global (ck late)" and "executing late = None"
    by code_simp+
  with no_timer_lost [OF late_reach, of "\<lparr>timer_id = 2, timeout = 120, creator = None, thunk = 8\<rparr>"]
  show ?thesis by (simp only: timer.simps) blast
qed

theorem timers_accounted_witness:
  "mset (map timer_id (delivered late @ removed late @ all_timers (timers (ck late)))) = mset [1, 2, 3]"
proof -
  have "mset [1..<next_id (ck late)] = mset [1, 2, 3]" by code_simp
  with timers_accounted [OF late_reach] show ?thesis by (simp only:)
qed

theorem tick_delivers_due_witness:
  "\<exists>c xs. tick_collect 120 (ck late) = Some (c, xs) \<and> map thunk xs = [8, 9]"
proof -
  have "map thunk (filter (\<lambda>x. timeout x \<le> now_global (ck late)) (all_timers (timers (ck late)))) = [8, 9]"
    by code_simp
  with tick_delivers_due [OF late_reach, of 120] show ?thesis by auto
qed

theorem clock_never_turns_back_witness:
  "now_global (ck late) \<le> now_global (ck (late\<lparr>ck := clock_pause None (ck late)\<rparr>))"
  by (rule clock_never_turns_back [OF late_reach, of "Pause None"]) simp_all

definition two_clocks :: clock where
  "two_clocks = (clock_init 0)\<lparr>paused := True, currents := [1 \<mapsto> 50, 2 \<mapsto> 10]\<rparr>"

theorem order_happens_before_witness:
  "paused two_clocks \<and> 50 \<le> snd (clock_now (Some 2) (clock_order 1 2 two_clocks))"
  using order_happens_before [of two_clocks 1 2] by (simp add: two_clocks_def clock_now_def)

section \<open>Two observations\<close>

text \<open>\<^verbatim>\<open>Clock::cancel\<close> returns true for a timer that has already been delivered, when another timer with
  the same timeout is pending: the first timer fires at time 110 of a paused clock, a second one is
  created for the same instant, and then the first is cancelled.\<close>

definition refired :: run where
  "refired = clock_run [NewTimer None 10 7, Pause None, Advance 10, Fire (100, 110), Executed, NewTimer None 0 8]"

theorem cancel_true_after_delivery:
  "clock_reach refired
   \<and> \<lparr>timer_id = 1, timeout = 110, creator = None, thunk = 7\<rparr> \<in> set (delivered refired)
   \<and> snd (clock_cancel \<lparr>timer_id = 1, timeout = 110, creator = None, thunk = 7\<rparr> (ck refired))"
proof (intro conjI)
  show "clock_reach refired" unfolding refired_def by (rule clock_run_reach) code_simp
qed code_simp+

text \<open>\<^verbatim>\<open>Clock::settled\<close> returns true while timers are still being executed, when the clock is paused
  after a tick collected them.\<close>

definition racing :: run where
  "racing = clock_run [NewTimer None 10 7, Elapse 10, Fire (110, 110), Pause None]"

theorem settled_while_executing:
  "clock_reach racing \<and> clock_settled (ck racing) = Some True
   \<and> executing racing = Some [\<lparr>timer_id = 1, timeout = 110, creator = None, thunk = 7\<rparr>]"
proof (intro conjI)
  show "clock_reach racing" unfolding racing_def by (rule clock_run_reach) code_simp
qed code_simp+

end
