(* ===== verification/Processes.thy ===== *)
theory Processes
  imports Clock
begin

text \<open>
  The actor core of \<^verbatim>\<open>src/process.cpp\<close>, \<^verbatim>\<open>src/event_queue.hpp\<close>, \<^verbatim>\<open>src/run_queue.hpp\<close> and \<^verbatim>\<open>src/gate.hpp\<close>:
  processes with their event queues, the run queue, delivery of events, the loop of a worker thread
  and the cleanup of a terminated process.

  The code synchronizes with atomics and short critical sections, so the model interleaves single
  atomic actions. A \<open>frame\<close> is a call in progress on some thread (an \<^verbatim>\<open>enqueue\<close>, a \<^verbatim>\<open>resume\<close>, ...) with its
  program point; \<open>advance\<close> performs its next atomic action. Frames may advance in any order, which
  includes every schedule of the threads' call stacks. A failed \<^verbatim>\<open>CHECK\<close> is \<open>Abort\<close>; a frame that has to wait
  is \<open>Wait\<close>. What client code does while it is being served is covered by the actions of the
  environment: at any moment any thread may construct, spawn, deliver, wait and destroy.

  Memory orders weaker than sequential consistency do not occur in these files.
\<close>

section \<open>Event queue and run queue\<close>

datatype pevent =
    MessageEvent nat
  | DispatchEvent nat
  | HttpEvent nat
  | ExitedEvent nat
  | TerminateEvent bool

fun is_terminate :: "pevent \<Rightarrow> bool" where
  "is_terminate (TerminateEvent _) = True"
| "is_terminate _ = False"

fun injected :: "pevent \<Rightarrow> bool" where
  "injected (TerminateEvent inject) = inject"
| "injected _ = False"

record event_queue =
  events :: "pevent list"
  comissioned :: bool

definition eq_new :: event_queue where
  "eq_new = \<lparr>events = [], comissioned = True\<rparr>"

definition eq_enqueue :: "pevent \<Rightarrow> event_queue \<Rightarrow> event_queue \<times> bool" where
  "eq_enqueue e q = (if comissioned q then (q\<lparr>events := events q @ [e]\<rparr>, True) else (q, False))"

text \<open>\<open>None\<close> is the \<^verbatim>\<open>CHECK_NOTNULL\<close>.\<close>

definition eq_dequeue :: "event_queue \<Rightarrow> (event_queue \<times> pevent) option" where
  "eq_dequeue q = (case events q of e # es \<Rightarrow> Some (q\<lparr>events := es\<rparr>, e) | [] \<Rightarrow> None)"

definition eq_empty :: "event_queue \<Rightarrow> bool" where
  "eq_empty q = (events q = [])"

text \<open>Also returns the events it deletes.\<close>

definition eq_decomission :: "event_queue \<Rightarrow> event_queue \<times> pevent list" where
  "eq_decomission q = (q\<lparr>comissioned := False, events := []\<rparr>, events q)"

definition eq_count :: "(pevent \<Rightarrow> bool) \<Rightarrow> event_queue \<Rightarrow> nat" where
  "eq_count is_T q = length (filter is_T (events q))"

text \<open>The variant with \<^verbatim>\<open>LOCK_FREE_EVENT_QUEUE\<close> differs in \<^verbatim>\<open>decomission\<close>: it stores true.\<close>

definition lf_decomission :: "event_queue \<Rightarrow> event_queue \<times> pevent list" where
  "lf_decomission q = (q\<lparr>comissioned := True, events := []\<rparr>, events q)"

record run_queue =
  runnable :: "proc list"
  epoch :: nat
  signals :: nat

definition rq_extract :: "proc \<Rightarrow> run_queue \<Rightarrow> run_queue \<times> bool" where
  "rq_extract p q = (if p \<in> set (runnable q) then (q\<lparr>runnable := remove1 p (runnable q)\<rparr>, True) else (q, False))"

definition rq_dequeue :: "run_queue \<Rightarrow> run_queue \<times> proc option" where
  "rq_dequeue q = (case runnable q of p # ps \<Rightarrow> (q\<lparr>runnable := ps\<rparr>, Some p) | [] \<Rightarrow> (q, None))"

text \<open>\<^verbatim>\<open>enqueue\<close> is three atomic actions: the push, the epoch and the signal.\<close>

definition rq_push :: "proc \<Rightarrow> run_queue \<Rightarrow> run_queue" where
  "rq_push p q = q\<lparr>runnable := runnable q @ [p]\<rparr>"

definition rq_epoch :: "run_queue \<Rightarrow> run_queue" where
  "rq_epoch q = q\<lparr>epoch := Suc (epoch q)\<rparr>"

definition rq_signal :: "run_queue \<Rightarrow> run_queue" where
  "rq_signal q = q\<lparr>signals := Suc (signals q)\<rparr>"

definition rq_wait :: "run_queue \<Rightarrow> run_queue option" where
  "rq_wait q = (if 0 < signals q then Some (q\<lparr>signals := signals q - 1\<rparr>) else None)"

section \<open>Processes\<close>

datatype pstate = BOTTOM | READY | BLOCKED | TERMINATING

datatype outcome = Served | Filtered | Purged | Discarded

text \<open>\<^verbatim>\<open>ProcessBase\<close>. \<open>referenced\<close> says that \<^verbatim>\<open>reference\<close> has not been reset, \<open>freed\<close> that the object was deleted.
  \<open>spawned\<close>, \<open>accepted\<close>, \<open>in_hand\<close> and \<open>handled\<close> are ghost state: the events accepted by the queue, the one a
  worker has dequeued and what became of the earlier ones.\<close>

record process =
  pid_id :: nat
  pstate :: pstate
  equeue :: event_queue
  terminated :: bool
  manage :: bool
  referenced :: bool
  gate :: bool
  freed :: bool
  spawned :: bool
  accepted :: "pevent list"
  in_hand :: "pevent option"
  handled :: "(pevent \<times> outcome) list"

definition new_process :: "nat \<Rightarrow> process" where
  "new_process i = \<lparr>pid_id = i, pstate = BOTTOM, equeue = eq_new, terminated = False, manage = False,
     referenced = True, gate = False, freed = False, spawned = False, accepted = [], in_hand = None,
     handled = []\<rparr>"

text \<open>The program points of \<^verbatim>\<open>ProcessManager::resume\<close> and \<^verbatim>\<open>cleanup\<close>.\<close>

datatype wpc =
    Initializing
  | Loop
  | Got pevent
  | Purging pevent
  | Filtering pevent bool
  | Serving pevent
  | Blocking
  | Rechecking
  | Unblocking
  | Cleaning
  | Decomissioning
  | Unregistering
  | Expiring
  | Deleting

text \<open>A worker carries the value of \<^verbatim>\<open>manage\<close> it read first.\<close>

datatype frame =
    Send proc pevent
  | SendQueue proc pevent
  | SendTermination proc bool
  | SendState proc
  | SendSwap proc
  | Enqueue proc bool
  | Epoch
  | Signal
  | Dequeue
  | Resume proc
  | Worker wpc proc bool

text \<open>\<^verbatim>\<open>ProcessManager\<close>; \<open>clk\<close> is the clock.\<close>

record sys =
  procs :: "proc \<Rightarrow> process"
  processes :: "nat \<Rightarrow> proc option"
  runq :: run_queue
  joining_threads :: bool
  finalizing :: bool
  next_proc :: proc
  clk :: clock

definition sys_init :: "time \<Rightarrow> sys" where
  "sys_init l = \<lparr>procs = (\<lambda>_. new_process 0), processes = (\<lambda>_. None),
     runq = \<lparr>runnable = [], epoch = 0, signals = 0\<rparr>, joining_threads = False, finalizing = False,
     next_proc = 0, clk = clock_init l\<rparr>"

definition upd_proc :: "proc \<Rightarrow> (process \<Rightarrow> process) \<Rightarrow> sys \<Rightarrow> sys" where
  "upd_proc p f s = s\<lparr>procs := (procs s)(p := f (procs s p))\<rparr>"

section \<open>The atomic actions\<close>

text \<open>The frames that hold a \<^verbatim>\<open>ProcessReference\<close> to a process.\<close>

fun holds :: "proc \<Rightarrow> frame \<Rightarrow> bool" where
  "holds p (Send q _) = (p = q)"
| "holds p (SendQueue q _) = (p = q)"
| "holds p (SendTermination q _) = (p = q)"
| "holds p (SendState q) = (p = q)"
| "holds p (SendSwap q) = (p = q)"
| "holds p (Enqueue q ref) = (p = q \<and> ref)"
| "holds p (Worker pc q _) = (p = q \<and> pc \<notin> {Initializing, Cleaning, Decomissioning, Unregistering, Expiring, Deleting})"
| "holds p _ = False"

text \<open>Whether \<^verbatim>\<open>processes_mutex\<close> is held: only the wait for references in \<^verbatim>\<open>cleanup\<close> holds it across actions.\<close>

fun holds_mutex :: "frame \<Rightarrow> bool" where
  "holds_mutex (Worker Expiring _ _) = True"
| "holds_mutex _ = False"

datatype check = CheckResume | CheckEvent | CheckCleanup | CheckDestroy | CheckGate

datatype advanced_to = Next sys "frame list" | Wait | Abort check

definition handle_event :: "pevent \<Rightarrow> outcome \<Rightarrow> process \<Rightarrow> process" where
  "handle_event e o' pr = pr\<lparr>handled := handled pr @ [(e, o')], in_hand := None\<rparr>"

text \<open>\<^verbatim>\<open>ProcessBase::enqueue\<close>\<close>

fun enqueue_action :: "sys \<Rightarrow> frame \<Rightarrow> advanced_to" where
  "enqueue_action s (Send p e) = Next s (if pstate (procs s p) = TERMINATING then [] else [SendQueue p e])"
| "enqueue_action s (SendQueue p e) =
    (case eq_enqueue e (equeue (procs s p)) of (q, enqueued) \<Rightarrow>
       if enqueued
       then Next (upd_proc p (\<lambda>pr. pr\<lparr>equeue := q, accepted := accepted pr @ [e]\<rparr>) s)
              [SendTermination p (is_terminate e \<and> injected e)]
       else Next s [])"
| "enqueue_action s (SendTermination p terminate) =
    Next (if terminate then upd_proc p (\<lambda>pr. pr\<lparr>terminated := True\<rparr>) s else s) [SendState p]"
| "enqueue_action s (SendState p) = Next s (if pstate (procs s p) = BLOCKED then [SendSwap p] else [])"
| "enqueue_action s (SendSwap p) =
    (if pstate (procs s p) = BLOCKED
     then Next (upd_proc p (\<lambda>pr. pr\<lparr>pstate := READY\<rparr>) s) [Enqueue p True]
     else Next s [])"
| "enqueue_action s _ = Wait"

text \<open>\<^verbatim>\<open>ProcessManager::enqueue\<close> and \<^verbatim>\<open>dequeue\<close>\<close>

fun run_action :: "sys \<Rightarrow> frame \<Rightarrow> advanced_to" where
  "run_action s (Enqueue p _) =
    (if joining_threads s then Next s [] else Next (s\<lparr>runq := rq_push p (runq s)\<rparr>) [Epoch])"
| "run_action s Epoch = Next (s\<lparr>runq := rq_epoch (runq s)\<rparr>) [Signal]"
| "run_action s Signal = Next (s\<lparr>runq := rq_signal (runq s)\<rparr>) []"
| "run_action s Dequeue =
    (case rq_dequeue (runq s) of
       (q, Some p) \<Rightarrow> Next (s\<lparr>runq := q\<rparr>) [Resume p]
     | (_, None) \<Rightarrow> Next s [])"
| "run_action s _ = Wait"

text \<open>\<^verbatim>\<open>ProcessManager::resume\<close>; \<open>flt\<close> is the installed filter.\<close>

fun resume_action :: "(proc \<Rightarrow> pevent \<Rightarrow> bool) \<Rightarrow> sys \<Rightarrow> frame \<Rightarrow> advanced_to" where
  "resume_action flt s (Resume p) =
    (let m = manage (procs s p) in
     case pstate (procs s p) of
       BOTTOM \<Rightarrow> Next s [Worker Initializing p m]
     | READY \<Rightarrow> Next s [Worker Loop p m]
     | _ \<Rightarrow> Abort CheckResume)"
| "resume_action flt s (Worker Initializing p m) =
    Next (upd_proc p (\<lambda>pr. pr\<lparr>pstate := READY\<rparr>) s) [Worker Loop p m]"
| "resume_action flt s (Worker Loop p m) =
    (if \<not> eq_empty (equeue (procs s p))
     then (case eq_dequeue (equeue (procs s p)) of
         Some (q, e) \<Rightarrow> Next (upd_proc p (\<lambda>pr. pr\<lparr>equeue := q, in_hand := Some e\<rparr>) s) [Worker (Got e) p m]
       | None \<Rightarrow> Abort CheckEvent)
     else Next s [Worker Blocking p m])"
| "resume_action flt s (Worker Blocking p m) =
    Next (upd_proc p (\<lambda>pr. pr\<lparr>pstate := BLOCKED\<rparr>) s) [Worker Rechecking p m]"
| "resume_action flt s (Worker Rechecking p m) =
    Next s (if \<not> eq_empty (equeue (procs s p)) then [Worker Unblocking p m] else [])"
| "resume_action flt s (Worker Unblocking p m) =
    (if pstate (procs s p) = BLOCKED
     then Next (upd_proc p (\<lambda>pr. pr\<lparr>pstate := READY\<rparr>) s) [Worker Loop p m]
     else Next s [])"
| "resume_action flt s (Worker (Got e) p m) =
    Next s [if terminated (procs s p) then Worker (Purging e) p m else Worker (Filtering e False) p m]"
| "resume_action flt s (Worker (Purging e) p m) =
    (if is_terminate e then Next s [Worker (Filtering e True) p m]
     else case eq_dequeue (equeue (procs s p)) of
         Some (q, e') \<Rightarrow> Next (upd_proc p (\<lambda>pr. (handle_event e Purged pr)\<lparr>equeue := q, in_hand := Some e'\<rparr>) s)
           [Worker (Purging e') p m]
       | None \<Rightarrow> Abort CheckEvent)"
| "resume_action flt s (Worker (Filtering e terminate) p m) =
    (if flt p e
     then Next (upd_proc p (handle_event e Filtered) s)
       [if terminate then Worker Cleaning p m else Worker Loop p m]
     else Next s [Worker (Serving e) p m])"
| "resume_action flt s (Worker (Serving e) p m) =
    Next (upd_proc p (handle_event e Served) s)
      [if is_terminate e then Worker Cleaning p m else Worker Loop p m]"
| "resume_action flt s _ = Wait"

text \<open>\<^verbatim>\<open>ProcessManager::cleanup\<close>, and the deletion of a managed process at the end of \<^verbatim>\<open>resume\<close>; \<open>F\<close> are the
  other frames.\<close>

fun cleanup_action :: "sys \<Rightarrow> frame multiset \<Rightarrow> frame \<Rightarrow> advanced_to" where
  "cleanup_action s F (Worker Cleaning p m) =
    (if pstate (procs s p) = READY
     then Next (upd_proc p (\<lambda>pr. pr\<lparr>pstate := TERMINATING\<rparr>) s) [Worker Decomissioning p m]
     else Abort CheckCleanup)"
| "cleanup_action s F (Worker Decomissioning p m) =
    (case eq_decomission (equeue (procs s p)) of (q, es) \<Rightarrow>
       Next (upd_proc p (\<lambda>pr. pr\<lparr>equeue := q, handled := handled pr @ map (\<lambda>e. (e, Discarded)) es\<rparr>) s)
         [Worker Unregistering p m])"
| "cleanup_action s F (Worker Unregistering p m) =
    (if \<exists>f\<in>#F. holds_mutex f then Wait
     else Next (upd_proc p (\<lambda>pr. pr\<lparr>referenced := False\<rparr>) s) [Worker Expiring p m])"
| "cleanup_action s F (Worker Expiring p m) =
    (if \<exists>f\<in>#F. holds p f then Wait
     else Next (upd_proc p (\<lambda>pr. pr\<lparr>gate := True\<rparr>) (s\<lparr>processes := (processes s)(pid_id (procs s p) := None)\<rparr>))
       (if m then [Worker Deleting p m] else []))"
| "cleanup_action s F (Worker Deleting p m) =
    (if pstate (procs s p) \<in> {BOTTOM, TERMINATING} then Next (upd_proc p (\<lambda>pr. pr\<lparr>freed := True\<rparr>) s) []
     else Abort CheckDestroy)"
| "cleanup_action s F _ = Wait"

fun advance :: "(proc \<Rightarrow> pevent \<Rightarrow> bool) \<Rightarrow> sys \<Rightarrow> frame multiset \<Rightarrow> frame \<Rightarrow> advanced_to" where
  "advance flt s F (Send p e) = enqueue_action s (Send p e)"
| "advance flt s F (SendQueue p e) = enqueue_action s (SendQueue p e)"
| "advance flt s F (SendTermination p b) = enqueue_action s (SendTermination p b)"
| "advance flt s F (SendState p) = enqueue_action s (SendState p)"
| "advance flt s F (SendSwap p) = enqueue_action s (SendSwap p)"
| "advance flt s F (Enqueue p b) = run_action s (Enqueue p b)"
| "advance flt s F Epoch = run_action s Epoch"
| "advance flt s F Signal = run_action s Signal"
| "advance flt s F Dequeue = run_action s Dequeue"
| "advance flt s F (Resume p) = resume_action flt s (Resume p)"
| "advance flt s F (Worker pc p m) =
    (if pc \<in> {Cleaning, Decomissioning, Unregistering, Expiring, Deleting}
     then cleanup_action s F (Worker pc p m) else resume_action flt s (Worker pc p m))"

section \<open>The calls of clients\<close>

text \<open>A \<^verbatim>\<open>UPID\<close> of a local process: its id and its weak reference.\<close>

type_synonym upid = "nat \<times> proc option"

definition mutex_free :: "frame multiset \<Rightarrow> bool" where
  "mutex_free F \<longleftrightarrow> (\<forall>f\<in>#F. \<not> holds_mutex f)"

text \<open>\<^verbatim>\<open>weak_ptr::lock\<close> succeeds as long as some reference is alive.\<close>

definition lockable :: "sys \<Rightarrow> frame multiset \<Rightarrow> proc \<Rightarrow> bool" where
  "lockable s F p \<longleftrightarrow> spawned (procs s p) \<and> (referenced (procs s p) \<or> (\<exists>f\<in>#F. holds p f))"

text \<open>\<^verbatim>\<open>ProcessManager::use\<close>; the outer \<open>None\<close> means that the caller waits for the mutex.\<close>

definition use :: "sys \<Rightarrow> frame multiset \<Rightarrow> upid \<Rightarrow> proc option option" where
  "use s F pid = (case pid of
     (_, Some p) \<Rightarrow> if lockable s F p then Some (Some p)
       else if mutex_free F then Some (processes s (fst pid)) else None
   | (i, None) \<Rightarrow> if mutex_free F then Some (processes s i) else None)"

text \<open>The clock of a receiver catches up with the sender's (\<^verbatim>\<open>_deliver\<close>, the constructor, \<^verbatim>\<open>spawn\<close>).\<close>

definition catch_up :: "proc option \<Rightarrow> proc \<Rightarrow> update_mode \<Rightarrow> sys \<Rightarrow> sys" where
  "catch_up sender p mode s =
    (if paused (clk s)
     then case clock_now sender (clk s) of (c, now) \<Rightarrow> s\<lparr>clk := clock_update_process p now mode c\<rparr>
     else s)"

datatype call =
    Construct "proc option" nat
  | Spawn "proc option" proc bool
  | Deliver "proc option" upid pevent
  | Terminate "proc option" upid bool
  | Dispatch "proc option" upid nat
  | WaitRun
  | Donate upid
  | Destroy proc
  | Finalizing
  | Joining

text \<open>\<^verbatim>\<open>ProcessManager::spawn\<close>: whether the process is registered.\<close>

definition spawn_ok :: "proc \<Rightarrow> sys \<Rightarrow> bool" where
  "spawn_ok p s \<longleftrightarrow> \<not> finalizing s \<and> pstate (procs s p) = BOTTOM \<and> processes s (pid_id (procs s p)) = None"

definition register :: "proc \<Rightarrow> bool \<Rightarrow> sys \<Rightarrow> sys" where
  "register p m s = upd_proc p (\<lambda>pr. pr\<lparr>manage := m, spawned := True\<rparr>)
     (s\<lparr>processes := (processes s)(pid_id (procs s p) \<mapsto> p)\<rparr>)"

text \<open>The calls; \<open>None\<close> means that the call cannot be made now. A client passes an object to \<^verbatim>\<open>spawn\<close> once, and
  deletes an object it owns only before spawning it or after it has waited for it.\<close>

definition construct_call :: "proc option \<Rightarrow> nat \<Rightarrow> sys \<Rightarrow> sys" where
  "construct_call maker i s = catch_up maker (next_proc s) FORCE
     (s\<lparr>procs := (procs s)(next_proc s := new_process i), next_proc := Suc (next_proc s)\<rparr>)"

definition spawn_call :: "proc option \<Rightarrow> proc \<Rightarrow> bool \<Rightarrow> sys \<Rightarrow> frame multiset \<Rightarrow> (sys \<times> frame list) option" where
  "spawn_call spawner p m s F =
    (if p < next_proc s \<and> \<not> spawned (procs s p) \<and> \<not> freed (procs s p) \<and> mutex_free F
     then let s1 = catch_up spawner p SAFE s in
       if spawn_ok p s1 then Some (register p m s1, [Enqueue p False])
       else Some (if m then upd_proc p (\<lambda>pr. pr\<lparr>freed := True\<rparr>) s1 else s1, [])
     else None)"

text \<open>\<^verbatim>\<open>ProcessManager::deliver(UPID)\<close>; the event is dropped when there is no such process.\<close>

definition deliver_call :: "proc option \<Rightarrow> upid \<Rightarrow> pevent \<Rightarrow> sys \<Rightarrow> frame multiset \<Rightarrow> (sys \<times> frame list) option" where
  "deliver_call sender pid e s F =
    (case use s F pid of
       None \<Rightarrow> None
     | Some None \<Rightarrow> Some (s, [])
     | Some (Some p) \<Rightarrow> Some (catch_up sender p SAFE s, [Send p e]))"

definition terminate_call :: "proc option \<Rightarrow> upid \<Rightarrow> bool \<Rightarrow> sys \<Rightarrow> frame multiset \<Rightarrow> (sys \<times> frame list) option" where
  "terminate_call sender pid inject s F =
    (case use s F pid of
       None \<Rightarrow> None
     | Some None \<Rightarrow> Some (s, [])
     | Some (Some p) \<Rightarrow> Some (catch_up sender p SAFE (catch_up sender p SAFE s), [Send p (TerminateEvent inject)]))"

definition dispatch_call :: "proc option \<Rightarrow> upid \<Rightarrow> nat \<Rightarrow> sys \<Rightarrow> frame multiset \<Rightarrow> (sys \<times> frame list) option" where
  "dispatch_call runner pid f s F = deliver_call runner pid (DispatchEvent f) s F"

text \<open>\<^verbatim>\<open>ProcessManager::dequeue\<close>, up to the return of the semaphore's wait.\<close>

definition wait_run :: "sys \<Rightarrow> (sys \<times> frame list) option" where
  "wait_run s = (case rq_wait (runq s) of Some q \<Rightarrow> Some (s\<lparr>runq := q\<rparr>, [Dequeue]) | None \<Rightarrow> None)"

text \<open>\<^verbatim>\<open>ProcessManager::wait\<close>: the thread is donated to the process if it is runnable; the wait at the gate follows.\<close>

definition wait_call :: "upid \<Rightarrow> sys \<Rightarrow> frame multiset \<Rightarrow> (sys \<times> frame list) option" where
  "wait_call pid s F =
    (case use s F pid of
       None \<Rightarrow> None
     | Some None \<Rightarrow> Some (s, [])
     | Some (Some p) \<Rightarrow>
         (case pstate (procs s p) of
            BLOCKED \<Rightarrow> Some (s, [])
          | TERMINATING \<Rightarrow> Some (s, [])
          | _ \<Rightarrow> (case rq_extract p (runq s) of (q, extracted) \<Rightarrow>
              Some (s\<lparr>runq := q\<rparr>, if extracted then [Resume p] else []))))"

text \<open>\<^verbatim>\<open>gate->wait()\<close> returns when the gate is open.\<close>

definition gate_wait :: "proc \<Rightarrow> sys \<Rightarrow> bool" where
  "gate_wait p s = gate (procs s p)"

text \<open>
  The owner of a process may destroy it before it is spawned or after its gate was opened. The state that the \<^verbatim>\<open>CHECK\<close> of the destructor demands is \<open>destructible\<close>; that it is always
  met is \<^verbatim>\<open>destructor_check_holds\<close> of \<^verbatim>\<open>Process_Properties\<close>.
\<close>

definition destructible :: "process \<Rightarrow> bool" where
  "destructible pr = (pstate pr = BOTTOM \<or> pstate pr = TERMINATING)"

definition destroy_call :: "proc \<Rightarrow> sys \<Rightarrow> (sys \<times> frame list) option" where
  "destroy_call p s =
    (if p < next_proc s \<and> \<not> freed (procs s p) \<and> (\<not> spawned (procs s p) \<or> gate_wait p s \<and> \<not> manage (procs s p))
     then Some (upd_proc p (\<lambda>pr. pr\<lparr>freed := True\<rparr>) s, []) else None)"

fun do_call :: "sys \<Rightarrow> frame multiset \<Rightarrow> call \<Rightarrow> (sys \<times> frame list) option" where
  "do_call s F (Construct maker i) = Some (construct_call maker i s, [])"
| "do_call s F (Spawn spawner p m) = spawn_call spawner p m s F"
| "do_call s F (Deliver sender pid e) = deliver_call sender pid e s F"
| "do_call s F (Terminate sender pid inject) = terminate_call sender pid inject s F"
| "do_call s F (Dispatch sender pid f) = dispatch_call sender pid f s F"
| "do_call s F WaitRun = wait_run s"
| "do_call s F (Donate pid) = wait_call pid s F"
| "do_call s F (Destroy p) = destroy_call p s"
| "do_call s F Finalizing = Some (s\<lparr>finalizing := True\<rparr>, [])"
| "do_call s F Joining = Some (s\<lparr>joining_threads := True\<rparr>, [])"

lemmas call_defs = construct_call_def spawn_call_def deliver_call_def terminate_call_def dispatch_call_def
  wait_run_def wait_call_def destroy_call_def gate_wait_def

inductive psteps :: "(proc \<Rightarrow> pevent \<Rightarrow> bool) \<Rightarrow> time \<Rightarrow> sys \<Rightarrow> frame multiset \<Rightarrow> bool" for flt l where
  p_start: "psteps flt l (sys_init l) {#}"
| p_call: "psteps flt l s F \<Longrightarrow> do_call s F a = Some (s', fs) \<Longrightarrow> psteps flt l s' (F + mset fs)"
| p_advance: "psteps flt l s (add_mset f F) \<Longrightarrow> advance flt s F f = Next s' fs \<Longrightarrow> psteps flt l s' (F + mset fs)"

end
