(* ===== verification/Process_Invariants.thy ===== *)
theory Process_Invariants
  imports Processes
begin

text \<open>
  The invariant of the actor core and its proof. \<open>pinv\<close> speaks of one process, the frames on it, its entries in
  the run queue and its registration, so an action of a frame on one process keeps the invariant of all
  others (\<open>proc_inv_others\<close>). Its parts are ownership (\<open>own_inv\<close>: who may run the process), wakeups (\<open>wake_inv\<close>),
  the termination flag (\<open>term_inv\<close>), the log of events (\<open>log_inv\<close>) and the lifetime of the object (\<open>life_inv\<close>).
  One lemma per action shows that it keeps \<open>pinv\<close>; \<open>psteps_inv\<close> lifts them to all runs.
\<close>

section \<open>The invariant of one process\<close>

fun on :: "proc \<Rightarrow> frame \<Rightarrow> bool" where
  "on p (Send q _) = (p = q)"
| "on p (SendQueue q _) = (p = q)"
| "on p (SendTermination q _) = (p = q)"
| "on p (SendState q) = (p = q)"
| "on p (SendSwap q) = (p = q)"
| "on p (Enqueue q _) = (p = q)"
| "on p (Resume q) = (p = q)"
| "on p (Worker _ q _) = (p = q)"
| "on p _ = False"

text \<open>The frames that own the right to run the process, as an entry of the run queue does.\<close>

fun owner :: "frame \<Rightarrow> bool" where
  "owner (Enqueue _ _) = True"
| "owner (Resume _) = True"
| "owner (Worker pc _ _) = (pc \<notin> {Rechecking, Unblocking, Deleting})"
| "owner _ = False"

text \<open>The frames that will make a blocked process with events runnable again.\<close>

fun waker :: "frame \<Rightarrow> bool" where
  "waker (SendTermination _ _) = True"
| "waker (SendState _) = True"
| "waker (SendSwap _) = True"
| "waker (Worker pc _ _) = (pc \<in> {Rechecking, Unblocking})"
| "waker _ = False"

fun handling :: "frame \<Rightarrow> pevent option" where
  "handling (Worker (Got e) _ _) = Some e"
| "handling (Worker (Purging e) _ _) = Some e"
| "handling (Worker (Filtering e _) _ _) = Some e"
| "handling (Worker (Serving e) _ _) = Some e"
| "handling _ = None"

fun worker_state :: "wpc \<Rightarrow> process \<Rightarrow> bool" where
  "worker_state Initializing pr = (pstate pr = BOTTOM)"
| "worker_state Loop pr = (pstate pr = READY)"
| "worker_state Blocking pr = (pstate pr = READY)"
| "worker_state Cleaning pr = (pstate pr = READY)"
| "worker_state (Got e) pr = (pstate pr = READY)"
| "worker_state (Purging e) pr = (pstate pr = READY \<and> terminated pr)"
| "worker_state (Filtering e t) pr = (pstate pr = READY \<and> (t \<longrightarrow> is_terminate e))"
| "worker_state (Serving e) pr = (pstate pr = READY)"
| "worker_state Rechecking pr = (pstate pr \<noteq> BOTTOM)"
| "worker_state Unblocking pr = (pstate pr \<noteq> BOTTOM)"
| "worker_state Decomissioning pr = (pstate pr = TERMINATING \<and> comissioned (equeue pr) \<and> referenced pr)"
| "worker_state Unregistering pr = (pstate pr = TERMINATING \<and> \<not> comissioned (equeue pr) \<and> referenced pr)"
| "worker_state Expiring pr = (pstate pr = TERMINATING \<and> \<not> comissioned (equeue pr) \<and> \<not> referenced pr)"
| "worker_state Deleting pr = gate pr"

fun frame_ok :: "process \<Rightarrow> frame \<Rightarrow> bool" where
  "frame_ok pr (Enqueue _ _) = (pstate pr \<in> {BOTTOM, READY} \<and> in_hand pr = None)"
| "frame_ok pr (Resume _) = (pstate pr \<in> {BOTTOM, READY} \<and> in_hand pr = None)"
| "frame_ok pr (Worker pc p m) = (m = manage pr \<and> worker_state pc pr
     \<and> (owner (Worker pc p m) \<longrightarrow> in_hand pr = handling (Worker pc p m)) \<and> (pc = Deleting \<longrightarrow> m))"
| "frame_ok pr _ = True"

definition hand_list :: "process \<Rightarrow> pevent list" where
  "hand_list pr = (case in_hand pr of None \<Rightarrow> [] | Some e \<Rightarrow> [e])"

definition pending :: "process \<Rightarrow> pevent list" where
  "pending pr = hand_list pr @ events (equeue pr)"

definition owners :: "nat \<Rightarrow> frame multiset \<Rightarrow> nat" where
  "owners inq G = inq + size (filter_mset owner G)"

fun termination_frame :: "frame \<Rightarrow> bool" where
  "termination_frame (SendTermination _ b) = b"
| "termination_frame _ = False"

fun cleaning_frame :: "frame \<Rightarrow> bool" where
  "cleaning_frame (Worker pc _ _) = (pc = Cleaning)"
| "cleaning_frame _ = False"

fun deleting_frame :: "frame \<Rightarrow> bool" where
  "deleting_frame (Worker pc _ _) = (pc = Deleting)"
| "deleting_frame _ = False"

text \<open>\<open>G\<close> are the frames on the process, \<open>inq\<close> its number of entries in the run queue, \<open>reg\<close> whether it is
  registered and \<open>jn\<close> whether the threads are joining.\<close>

definition own_inv :: "process \<Rightarrow> frame multiset \<Rightarrow> nat \<Rightarrow> bool \<Rightarrow> bool" where
  "own_inv pr G inq jn \<longleftrightarrow> owners inq G \<le> 1
     \<and> (spawned pr \<and> pstate pr \<in> {BOTTOM, READY} \<and> \<not> jn \<longrightarrow> owners inq G = 1)
     \<and> (spawned pr \<and> pstate pr = TERMINATING \<and> \<not> gate pr \<longrightarrow> owners inq G = 1)
     \<and> (pstate pr = BLOCKED \<longrightarrow> owners inq G = 0 \<and> in_hand pr = None)
     \<and> (0 < inq \<longrightarrow> pstate pr \<in> {BOTTOM, READY} \<and> in_hand pr = None)
     \<and> (in_hand pr \<noteq> None \<longrightarrow> (\<exists>f\<in>#G. handling f \<noteq> None)) \<and> (\<forall>f\<in>#G. frame_ok pr f)"

definition wake_inv :: "process \<Rightarrow> frame multiset \<Rightarrow> bool" where
  "wake_inv pr G \<longleftrightarrow> (pstate pr = BLOCKED \<and> events (equeue pr) \<noteq> [] \<longrightarrow> (\<exists>f\<in>#G. waker f))"

definition term_inv :: "process \<Rightarrow> frame multiset \<Rightarrow> bool" where
  "term_inv pr G \<longleftrightarrow> (terminated pr \<or> (\<exists>f\<in>#G. termination_frame f) \<longrightarrow>
     (\<exists>e\<in>set (pending pr). is_terminate e) \<or> (\<exists>f\<in>#G. cleaning_frame f) \<or> pstate pr = TERMINATING)"

definition log_inv :: "process \<Rightarrow> bool" where
  "log_inv pr \<longleftrightarrow> accepted pr = map fst (handled pr) @ pending pr
     \<and> (comissioned (equeue pr) \<or> pstate pr = TERMINATING \<and> events (equeue pr) = [])"

definition life_inv :: "process \<Rightarrow> frame multiset \<Rightarrow> nat \<Rightarrow> bool \<Rightarrow> bool" where
  "life_inv pr G inq reg \<longleftrightarrow> (reg = (spawned pr \<and> \<not> gate pr))
     \<and> (\<not> spawned pr \<longrightarrow> pr = (new_process (pid_id pr))\<lparr>freed := freed pr\<rparr> \<and> G = {#} \<and> inq = 0)
     \<and> (gate pr \<longrightarrow> pstate pr = TERMINATING \<and> inq = 0 \<and> \<not> referenced pr \<and> \<not> comissioned (equeue pr)
         \<and> (\<forall>f\<in>#G. deleting_frame f) \<and> size G \<le> 1)
     \<and> (freed pr \<and> spawned pr \<longrightarrow> gate pr \<and> G = {#})
     \<and> (pstate pr \<noteq> TERMINATING \<longrightarrow> referenced pr)"

definition pinv :: "process \<Rightarrow> frame multiset \<Rightarrow> nat \<Rightarrow> bool \<Rightarrow> bool \<Rightarrow> bool" where
  "pinv pr G inq reg jn \<longleftrightarrow> own_inv pr G inq jn \<and> wake_inv pr G \<and> term_inv pr G \<and> log_inv pr \<and> life_inv pr G inq reg"

lemmas pinv_defs = pinv_def own_inv_def wake_inv_def term_inv_def log_inv_def life_inv_def owners_def
  pending_def hand_list_def

subsection \<open>Frames of other calls\<close>

lemma frame_ok_stable:
  assumes "frame_ok pr f" and "\<not> owner f" and "pstate pr \<noteq> BOTTOM \<longrightarrow> pstate pr' \<noteq> BOTTOM"
    and "manage pr' = manage pr" and "gate pr \<longrightarrow> gate pr'"
  shows "frame_ok pr' f"
  using assms by (cases f rule: owner.cases) (auto split: if_splits)

lemma frame_ok_same:
  assumes "pstate pr' = pstate pr" "in_hand pr' = in_hand pr" "manage pr' = manage pr" "gate pr' = gate pr"
    "comissioned (equeue pr') = comissioned (equeue pr)" "referenced pr' = referenced pr"
    "terminated pr \<longrightarrow> terminated pr'"
  shows "frame_ok pr f \<Longrightarrow> frame_ok pr' f"
proof (cases f)
  case (Worker pc p m)
  assume "frame_ok pr f"
  with assms Worker show ?thesis by (cases pc) auto
qed (use assms in auto)

lemma handling_owner: "handling f \<noteq> None \<Longrightarrow> owner f"
  by (cases f rule: handling.cases) auto

lemma filter_mset_none: "filter_mset P M = {#} \<longleftrightarrow> (\<forall>x\<in>#M. \<not> P x)"
  using set_mset_filter [of P M] set_mset_eq_empty_iff [of "filter_mset P M"] by auto

text \<open>When an owning frame acts it is the only owner.\<close>

lemma owners_zero: "owners inq G = 0 \<longleftrightarrow> inq = 0 \<and> (\<forall>g\<in>#G. \<not> owner g)"
  by (auto simp: owners_def filter_mset_none)

lemma owners_add: "owners inq (add_mset f G) = (if owner f then Suc (owners inq G) else owners inq G)"
  by (simp add: owners_def)

lemma own_alone:
  assumes "own_inv pr (add_mset f G) inq jn" and "owner f"
  shows "owners inq G = 0" and "frame_ok pr f" and "\<forall>g\<in>#G. frame_ok pr g"
  using assms by (simp_all add: own_inv_def owners_add)

subsection \<open>Parts of the invariant under one action\<close>

lemma own_more: "own_inv pr G inq jn \<Longrightarrow> \<not> owner f \<Longrightarrow> frame_ok pr f \<Longrightarrow> own_inv pr (add_mset f G) inq jn"
  by (auto simp: own_inv_def owners_add)

lemma own_done: "own_inv pr (add_mset f G) inq jn \<Longrightarrow> \<not> owner f \<Longrightarrow> own_inv pr G inq jn"
  using handling_owner [of f] by (auto simp: own_inv_def owners_add)

lemma own_same:
  assumes "own_inv pr G inq jn" and "pstate pr' = pstate pr" "in_hand pr' = in_hand pr" "manage pr' = manage pr"
    "gate pr' = gate pr" "comissioned (equeue pr') = comissioned (equeue pr)" "referenced pr' = referenced pr"
    "terminated pr \<longrightarrow> terminated pr'" "spawned pr' = spawned pr"
  shows "own_inv pr' G inq jn"
  using assms frame_ok_same [OF assms(2-8)] by (simp add: own_inv_def)

text \<open>An owner acts and is replaced by the next owner.\<close>

lemma own_next:
  assumes "own_inv pr (add_mset f G) inq jn" and "owner f" and "owner f'" and "frame_ok pr' f'"
    and "pstate pr' \<noteq> BLOCKED" and "in_hand pr' = handling f'"
    and "pstate pr \<noteq> BOTTOM \<longrightarrow> pstate pr' \<noteq> BOTTOM" and "manage pr' = manage pr" and "gate pr \<longrightarrow> gate pr'"
  shows "own_inv pr' (add_mset f' G) inq jn"
proof -
  note a = own_alone [OF assms(1,2)]
  have "frame_ok pr' g" if "g \<in># G" for g
    using that a by (intro frame_ok_stable [OF _ _ assms(7-9)]) (auto simp: owners_zero)
  moreover have "inq = 0" using a(1) by (simp add: owners_zero)
  ultimately show ?thesis using assms(3-6) a(1) unfolding own_inv_def owners_add by auto
qed

text \<open>An owner acts and the process has no owner any more.\<close>

lemma own_release:
  assumes "own_inv pr (add_mset f G) inq jn" and "owner f"
    and "pstate pr' = BLOCKED \<or> jn \<and> pstate pr' \<noteq> TERMINATING" and "in_hand pr' = None"
    and "pstate pr \<noteq> BOTTOM \<longrightarrow> pstate pr' \<noteq> BOTTOM" and "manage pr' = manage pr" and "gate pr \<longrightarrow> gate pr'"
  shows "own_inv pr' G inq jn"
proof -
  note a = own_alone [OF assms(1,2)]
  have "frame_ok pr' g" if "g \<in># G" for g
    using that a by (intro frame_ok_stable [OF _ _ assms(5-7)]) (auto simp: owners_zero)
  moreover have "inq = 0" using a(1) by (simp add: owners_zero)
  ultimately show ?thesis using assms(3,4) a(1) unfolding own_inv_def by auto
qed

text \<open>A blocked process has no owner; the frame that swaps its state to \<^verbatim>\<open>READY\<close> becomes it.\<close>

lemma own_acquire:
  assumes "own_inv pr (add_mset f G) inq jn" and "\<not> owner f" and "pstate pr = BLOCKED" and "owner f'"
    and "frame_ok pr' f'" and "handling f' = None"
    and "pstate pr' = READY" and "in_hand pr' = in_hand pr" and "manage pr' = manage pr" and "gate pr' = gate pr"
  shows "own_inv pr' (add_mset f' G) inq jn"
proof -
  have a: "owners inq G = 0" "\<forall>g\<in>#G. frame_ok pr g" "in_hand pr = None"
    using assms(1-3) by (auto simp: own_inv_def owners_add)
  have "frame_ok pr' g" if "g \<in># G" for g
    by (rule frame_ok_stable [of pr g]) (use a(1,2) that assms(7,9,10) in \<open>simp_all add: owners_zero\<close>)
  moreover have "inq = 0" using a(1) by (simp add: owners_zero)
  moreover have "in_hand pr' = None" using assms(8) a(3) by simp
  ultimately show ?thesis using assms(4,5,7) a(1) unfolding own_inv_def owners_add by simp
qed

lemma wake_mono: "wake_inv pr G \<Longrightarrow> G \<subseteq># H \<Longrightarrow> wake_inv pr H"
  by (auto simp: wake_inv_def dest: mset_subset_eqD)

lemma term_step:
  assumes "term_inv pr (add_mset f G)" and "terminated pr' \<longrightarrow> terminated pr \<or> termination_frame f"
    and "\<exists>e\<in>set (pending pr). is_terminate e \<Longrightarrow>
      (\<exists>e\<in>set (pending pr'). is_terminate e) \<or> (\<exists>g\<in>#H. cleaning_frame g) \<or> pstate pr' = TERMINATING"
    and "cleaning_frame f \<Longrightarrow> pstate pr' = TERMINATING" and "pstate pr = TERMINATING \<longrightarrow> pstate pr' = TERMINATING"
    and "\<forall>g\<in>#H. termination_frame g \<longrightarrow> is_terminate (last (pending pr')) \<and> pending pr' \<noteq> []"
  shows "term_inv pr' (H + G)"
  using assms unfolding term_inv_def by (auto intro: last_in_set)

lemma life_frames:
  assumes "life_inv pr (add_mset f G) inq reg" and "\<not> deleting_frame f"
  shows "\<not> gate pr" and "\<not> freed pr" and "spawned pr" and "reg"
  using assms by (auto simp: life_inv_def)

lemma life_step:
  assumes "life_inv pr (add_mset f G) inq reg" and "\<not> deleting_frame f"
    and "gate pr' = gate pr" and "freed pr' = freed pr" and "spawned pr' = spawned pr"
    and "pstate pr' \<noteq> TERMINATING \<longrightarrow> pstate pr \<noteq> TERMINATING" and "pstate pr' \<noteq> TERMINATING \<longrightarrow> referenced pr' = referenced pr"
  shows "life_inv pr' (H + G) inq' reg"
  using life_frames [OF assms(1,2)] assms by (simp add: life_inv_def)

lemmas act_simps = upd_proc_def eq_enqueue_def eq_dequeue_def eq_empty_def eq_decomission_def handle_event_def

lemma pinvD:
  assumes "pinv pr G inq reg jn"
  shows "own_inv pr G inq jn" "wake_inv pr G" "term_inv pr G" "log_inv pr" "life_inv pr G inq reg"
  using assms by (simp_all add: pinv_def)

lemma pinvI:
  assumes "own_inv pr G inq jn" "wake_inv pr G" "term_inv pr G" "log_inv pr" "life_inv pr G inq reg"
  shows "pinv pr G inq reg jn"
  using assms by (simp add: pinv_def)

subsection \<open>Delivery\<close>

lemma pinv_more:
  assumes "pinv pr G inq reg jn" and "\<not> owner f" and "frame_ok pr f" and "\<not> termination_frame f"
    and "spawned pr" and "\<not> gate pr"
  shows "pinv pr (add_mset f G) inq reg jn"
proof (rule pinvI)
  show "own_inv pr (add_mset f G) inq jn" by (rule own_more [OF pinvD(1) [OF assms(1)] assms(2,3)])
  show "wake_inv pr (add_mset f G)" by (rule wake_mono [OF pinvD(2) [OF assms(1)]]) simp
  show "term_inv pr (add_mset f G)" using pinvD(3) [OF assms(1)] assms(4) by (auto simp: term_inv_def)
  show "log_inv pr" by (rule pinvD(4) [OF assms(1)])
  show "life_inv pr (add_mset f G) inq reg" using pinvD(5) [OF assms(1)] assms(5,6) by (auto simp: life_inv_def)
qed

text \<open>A frame that owns nothing ends.\<close>

lemma pinv_done:
  assumes p: "pinv pr (add_mset f G) inq reg jn" and "\<not> owner f" and "\<not> deleting_frame f" and "\<not> cleaning_frame f"
    and "waker f \<longrightarrow> pstate pr \<noteq> BLOCKED \<or> events (equeue pr) = []"
  shows "pinv pr G inq reg jn"
proof (rule pinvI)
  show "own_inv pr G inq jn" by (rule own_done [OF pinvD(1) [OF p] assms(2)])
  show "wake_inv pr G" using pinvD(2) [OF p] assms(5) by (auto simp: wake_inv_def)
  show "term_inv pr G" using pinvD(3) [OF p] assms(4) by (auto simp: term_inv_def)
  show "log_inv pr" by (rule pinvD(4) [OF p])
  show "life_inv pr G inq reg"
    using life_step [OF pinvD(5) [OF p] assms(3), of pr "{#}" inq] by simp
qed

lemma pinv_SendQueue:
  assumes p: "pinv pr (add_mset (SendQueue p e) G) inq reg jn" and "comissioned (equeue pr)"
    and pr': "pr' = pr\<lparr>equeue := (equeue pr)\<lparr>events := events (equeue pr) @ [e]\<rparr>, accepted := accepted pr @ [e]\<rparr>"
  shows "pinv pr' (add_mset (SendTermination p (is_terminate e \<and> injected e)) G) inq reg jn"
proof (rule pinvI)
  have pend: "pending pr' = pending pr @ [e]" by (simp add: pr' pending_def hand_list_def)
  have "own_inv pr' G inq jn" by (rule own_same [OF own_done [OF pinvD(1) [OF p]]]) (simp_all add: pr')
  then show "own_inv pr' (add_mset (SendTermination p (is_terminate e \<and> injected e)) G) inq jn"
    by (rule own_more) simp_all
  show "wake_inv pr' (add_mset (SendTermination p (is_terminate e \<and> injected e)) G)" by (simp add: wake_inv_def)
  have "term_inv pr' ({#SendTermination p (is_terminate e \<and> injected e)#} + G)"
    by (rule term_step [OF pinvD(3) [OF p]]) (auto simp: pend, simp_all add: pr')
  then show "term_inv pr' (add_mset (SendTermination p (is_terminate e \<and> injected e)) G)" by simp
  show "log_inv pr'" using pinvD(4) [OF p] assms(2) by (simp add: log_inv_def pend) (simp add: pr')
  show "life_inv pr' (add_mset (SendTermination p (is_terminate e \<and> injected e)) G) inq reg"
    using life_step [OF pinvD(5) [OF p], of pr' "{#SendTermination p (is_terminate e \<and> injected e)#}"]
    by (simp add: pr')
qed

lemma pinv_SendTermination:
  assumes p: "pinv pr (add_mset (SendTermination p b) G) inq reg jn" and pr': "pr' = (if b then pr\<lparr>terminated := True\<rparr> else pr)"
  shows "pinv pr' (add_mset (SendState p) G) inq reg jn"
proof (rule pinvI)
  have pend: "pending pr' = pending pr" by (simp add: pr' pending_def hand_list_def)
  have "own_inv pr' G inq jn" by (rule own_same [OF own_done [OF pinvD(1) [OF p]]]) (simp_all add: pr')
  then show "own_inv pr' (add_mset (SendState p) G) inq jn" by (rule own_more) simp_all
  show "wake_inv pr' (add_mset (SendState p) G)" by (simp add: wake_inv_def)
  have "term_inv pr' ({#SendState p#} + G)"
    by (rule term_step [OF pinvD(3) [OF p]]) (auto simp: pend, simp_all add: pr')
  then show "term_inv pr' (add_mset (SendState p) G)" by simp
  show "log_inv pr'" using pinvD(4) [OF p] by (simp add: log_inv_def pend) (simp add: pr')
  show "life_inv pr' (add_mset (SendState p) G) inq reg"
    using life_step [OF pinvD(5) [OF p], of pr' "{#SendState p#}"] by (simp add: pr')
qed

text \<open>The swap from \<^verbatim>\<open>BLOCKED\<close> to \<^verbatim>\<open>READY\<close>, by a sender or by the worker that rechecks.\<close>

lemma pinv_swap:
  assumes p: "pinv pr (add_mset f G) inq reg jn" and "\<not> owner f" and "\<not> deleting_frame f" and "\<not> cleaning_frame f"
    and "pstate pr = BLOCKED" and "pr' = pr\<lparr>pstate := READY\<rparr>"
    and "owner f'" and "frame_ok pr' f'" and "handling f' = None" and "\<not> termination_frame f'"
  shows "pinv pr' (add_mset f' G) inq reg jn"
proof (rule pinvI)
  have pend: "pending pr' = pending pr" by (simp add: assms(6) pending_def hand_list_def)
  show "own_inv pr' (add_mset f' G) inq jn"
    by (rule own_acquire [OF pinvD(1) [OF p] assms(2,5,7,8,9)]) (simp_all add: assms(6))
  show "wake_inv pr' (add_mset f' G)" by (simp add: wake_inv_def assms(6))
  have "term_inv pr' ({#f'#} + G)"
    by (rule term_step [OF pinvD(3) [OF p]]) (use assms(4,5,10) in \<open>auto simp: pend\<close>, simp_all add: assms(6))
  then show "term_inv pr' (add_mset f' G)" by simp
  show "log_inv pr'" using pinvD(4) [OF p] assms(5) by (simp add: log_inv_def pend) (simp add: assms(6))
  show "life_inv pr' (add_mset f' G) inq reg"
    using life_step [OF pinvD(5) [OF p] assms(3), of pr' "{#f'#}"] assms(5) by (simp add: assms(6))
qed

lemma pinv_replace:
  assumes "pinv pr (add_mset f G) inq reg jn" and "\<not> owner f" and "\<not> deleting_frame f" and "\<not> cleaning_frame f"
    and "waker f \<longrightarrow> waker f'" and "\<not> owner f'" and "frame_ok pr f'" and "\<not> termination_frame f'"
  shows "pinv pr (add_mset f' G) inq reg jn"
proof (rule pinvI)
  show "own_inv pr (add_mset f' G) inq jn"
    by (rule own_more [OF own_done [OF pinvD(1) [OF assms(1)] assms(2)] assms(6,7)])
  show "wake_inv pr (add_mset f' G)" using pinvD(2) [OF assms(1)] assms(5) by (auto simp: wake_inv_def)
  show "term_inv pr (add_mset f' G)" using pinvD(3) [OF assms(1)] assms(4,8) by (auto simp: term_inv_def)
  show "log_inv pr" by (rule pinvD(4) [OF assms(1)])
  show "life_inv pr (add_mset f' G) inq reg"
    using life_step [OF pinvD(5) [OF assms(1)] assms(3), of pr "{#f'#}" inq] by simp
qed

subsection \<open>The run queue\<close>

lemma pinv_push:
  assumes p: "pinv pr (add_mset (Enqueue p b) G) inq reg jn"
  shows "pinv pr G (Suc inq) reg jn"
proof (rule pinvI)
  have "inq = 0" "owners 0 G = 0" using own_alone(1) [OF pinvD(1) [OF p]] by (simp_all add: owners_zero)
  moreover have "owners (Suc 0) G = Suc (owners 0 G)" by (simp add: owners_def)
  ultimately show "own_inv pr G (Suc inq) jn" using pinvD(1) [OF p] by (auto simp: own_inv_def owners_add)
  show "wake_inv pr G" using pinvD(2) [OF p] by (simp add: wake_inv_def)
  show "term_inv pr G" using pinvD(3) [OF p] by (simp add: term_inv_def)
  show "log_inv pr" by (rule pinvD(4) [OF p])
  show "life_inv pr G (Suc inq) reg"
    using life_step [OF pinvD(5) [OF p], of pr "{#}" "Suc inq"] by simp
qed

lemma pinv_joining:
  assumes p: "pinv pr (add_mset (Enqueue p b) G) inq reg True"
  shows "pinv pr G inq reg True"
proof (rule pinvI)
  show "own_inv pr G inq True"
    by (rule own_release [OF pinvD(1) [OF p]]) (use own_alone(2) [OF pinvD(1) [OF p]] in auto)
  show "wake_inv pr G" using pinvD(2) [OF p] by (simp add: wake_inv_def)
  show "term_inv pr G" using pinvD(3) [OF p] by (simp add: term_inv_def)
  show "log_inv pr" by (rule pinvD(4) [OF p])
  show "life_inv pr G inq reg"
    using life_step [OF pinvD(5) [OF p], of pr "{#}" inq] by simp
qed

lemma pinv_pop:
  assumes p: "pinv pr G (Suc inq) reg jn"
  shows "pinv pr (add_mset (Resume p) G) inq reg jn"
proof (rule pinvI)
  have "owners (Suc inq) G = Suc (owners inq G)" by (simp add: owners_def)
  then have "owners inq G = 0" "inq = 0" using pinvD(1) [OF p] by (auto simp: own_inv_def owners_zero)
  then show "own_inv pr (add_mset (Resume p) G) inq jn"
    using pinvD(1) [OF p] \<open>owners (Suc inq) G = _\<close> by (auto simp: own_inv_def owners_add)
  show "wake_inv pr (add_mset (Resume p) G)" by (rule wake_mono [OF pinvD(2) [OF p]]) simp
  show "term_inv pr (add_mset (Resume p) G)" using pinvD(3) [OF p] by (simp add: term_inv_def)
  show "log_inv pr" by (rule pinvD(4) [OF p])
  show "life_inv pr (add_mset (Resume p) G) inq reg" using pinvD(5) [OF p] by (auto simp: life_inv_def)
qed

subsection \<open>Workers\<close>

lemma owner_no_termination: "owner f \<Longrightarrow> \<not> termination_frame f"
  by (cases f) auto

lemma owner_no_deleting: "owner f \<Longrightarrow> \<not> deleting_frame f"
  by (cases f) auto

text \<open>An owner acts on its process and stays the owner.\<close>

lemma pinv_work:
  assumes p: "pinv pr (add_mset f G) inq reg jn" and f: "owner f" "owner f'" and ok: "frame_ok pr' f'"
    and st: "pstate pr' \<noteq> BLOCKED" "in_hand pr' = handling f'" "pstate pr \<noteq> BOTTOM \<longrightarrow> pstate pr' \<noteq> BOTTOM"
      "pstate pr = TERMINATING \<longrightarrow> pstate pr' = TERMINATING" "pstate pr' \<noteq> TERMINATING \<longrightarrow> referenced pr' = referenced pr"
    and same: "manage pr' = manage pr" "gate pr' = gate pr" "freed pr' = freed pr" "spawned pr' = spawned pr"
      "terminated pr' = terminated pr"
    and log: "log_inv pr'"
    and t: "cleaning_frame f \<Longrightarrow> pstate pr' = TERMINATING" "\<exists>e\<in>set (pending pr). is_terminate e \<Longrightarrow>
      (\<exists>e\<in>set (pending pr'). is_terminate e) \<or> cleaning_frame f' \<or> pstate pr' = TERMINATING"
  shows "pinv pr' (add_mset f' G) inq reg jn"
proof (rule pinvI)
  show "own_inv pr' (add_mset f' G) inq jn"
    by (rule own_next [OF pinvD(1) [OF p] f ok st(1,2,3) same(1)]) (simp add: same(2))
  show "wake_inv pr' (add_mset f' G)" by (simp add: wake_inv_def st(1))
  have "term_inv pr' ({#f'#} + G)"
    using owner_no_termination [OF f(2)] t st(4) same(5)
    by (intro term_step [OF pinvD(3) [OF p]]) auto
  then show "term_inv pr' (add_mset f' G)" by simp
  show "log_inv pr'" by (rule log)
  show "life_inv pr' (add_mset f' G) inq reg"
    using life_step [OF pinvD(5) [OF p] owner_no_deleting [OF f(1)], of pr' "{#f'#}" inq] st same by auto
qed

text \<open>What an owning frame knows.\<close>

lemma pinv_owner:
  assumes "pinv pr (add_mset f G) inq reg jn" and "owner f"
  shows "frame_ok pr f" and "log_inv pr" and "term_inv pr (add_mset f G)"
  using own_alone(2) [OF pinvD(1) [OF assms(1)] assms(2)] pinvD [OF assms(1)] by auto

lemma pinv_Resume:
  assumes p: "pinv pr (add_mset (Resume p) G) inq reg jn"
  shows "pstate pr = BOTTOM \<Longrightarrow> pinv pr (add_mset (Worker Initializing p (manage pr)) G) inq reg jn"
    and "pstate pr = READY \<Longrightarrow> pinv pr (add_mset (Worker Loop p (manage pr)) G) inq reg jn"
    and "pstate pr \<in> {BOTTOM, READY}"
  using pinv_owner [OF p] by (auto intro!: pinv_work [OF p])

lemma pinv_Initializing:
  assumes p: "pinv pr (add_mset (Worker Initializing p m) G) inq reg jn" and "pr' = pr\<lparr>pstate := READY\<rparr>"
  shows "pinv pr' (add_mset (Worker Loop p m) G) inq reg jn"
  by (rule pinv_work [OF p]) (use pinv_owner [OF p] in \<open>auto simp: assms(2) log_inv_def pending_def hand_list_def\<close>)

lemma pinv_Loop:
  assumes p: "pinv pr (add_mset (Worker Loop p m) G) inq reg jn"
  shows "events (equeue pr) = e # es \<Longrightarrow> pr' = pr\<lparr>equeue := (equeue pr)\<lparr>events := es\<rparr>, in_hand := Some e\<rparr> \<Longrightarrow>
      pinv pr' (add_mset (Worker (Got e) p m) G) inq reg jn"
    and "events (equeue pr) = [] \<Longrightarrow> pinv pr (add_mset (Worker Blocking p m) G) inq reg jn"
proof -
  note o = pinv_owner [OF p]
  show "pinv pr' (add_mset (Worker (Got e) p m) G) inq reg jn"
    if "events (equeue pr) = e # es" and "pr' = pr\<lparr>equeue := (equeue pr)\<lparr>events := es\<rparr>, in_hand := Some e\<rparr>"
    by (rule pinv_work [OF p]) (use o that in \<open>auto simp: log_inv_def pending_def hand_list_def\<close>)
  show "pinv pr (add_mset (Worker Blocking p m) G) inq reg jn" if "events (equeue pr) = []"
    by (rule pinv_work [OF p]) (use o that in auto)
qed

lemma pinv_Blocking:
  assumes p: "pinv pr (add_mset (Worker Blocking p m) G) inq reg jn" and pr': "pr' = pr\<lparr>pstate := BLOCKED\<rparr>"
  shows "pinv pr' (add_mset (Worker Rechecking p m) G) inq reg jn"
proof (rule pinvI)
  note o = pinv_owner [OF p, simplified]
  have "own_inv pr' G inq jn"
    by (rule own_release [OF pinvD(1) [OF p]]) (use o in \<open>simp_all add: pr'\<close>)
  then show "own_inv pr' (add_mset (Worker Rechecking p m) G) inq jn"
    by (rule own_more) (use o in \<open>simp_all add: pr'\<close>)
  show "wake_inv pr' (add_mset (Worker Rechecking p m) G)" by (simp add: wake_inv_def)
  show "term_inv pr' (add_mset (Worker Rechecking p m) G)"
    using o by (simp add: term_inv_def pr' pending_def hand_list_def)
  show "log_inv pr'" using o by (auto simp: log_inv_def pr' pending_def hand_list_def)
  show "life_inv pr' (add_mset (Worker Rechecking p m) G) inq reg"
    using life_step [OF pinvD(5) [OF p], of pr' "{#Worker Rechecking p m#}" inq] o by (simp add: pr')
qed

lemma pinv_Got:
  assumes p: "pinv pr (add_mset (Worker (Got e) p m) G) inq reg jn"
  shows "pinv pr (add_mset (if terminated pr then Worker (Purging e) p m else Worker (Filtering e False) p m) G) inq reg jn"
  by (rule pinv_work [OF p]) (use pinv_owner [OF p] in auto)

lemma pinv_Purging:
  assumes p: "pinv pr (add_mset (Worker (Purging e) p m) G) inq reg jn"
  shows "is_terminate e \<Longrightarrow> pinv pr (add_mset (Worker (Filtering e True) p m) G) inq reg jn"
    and "\<not> is_terminate e \<Longrightarrow> events (equeue pr) = e' # es \<Longrightarrow>
      pr' = (handle_event e Purged pr)\<lparr>equeue := (equeue pr)\<lparr>events := es\<rparr>, in_hand := Some e'\<rparr> \<Longrightarrow>
      pinv pr' (add_mset (Worker (Purging e') p m) G) inq reg jn"
    and "\<not> is_terminate e \<Longrightarrow> events (equeue pr) \<noteq> []"
proof -
  note o = pinv_owner [OF p, simplified]
  have none: "\<forall>g\<in>#G. \<not> cleaning_frame g"
    using own_alone(1) [OF pinvD(1) [OF p]] by (auto simp: owners_zero elim!: cleaning_frame.elims)
  show "pinv pr (add_mset (Worker (Filtering e True) p m) G) inq reg jn" if "is_terminate e"
    by (rule pinv_work [OF p]) (use o that in auto)
  show "pinv pr' (add_mset (Worker (Purging e') p m) G) inq reg jn"
    if "\<not> is_terminate e" "events (equeue pr) = e' # es"
      "pr' = (handle_event e Purged pr)\<lparr>equeue := (equeue pr)\<lparr>events := es\<rparr>, in_hand := Some e'\<rparr>"
    by (rule pinv_work [OF p]) (use o that in \<open>auto simp: log_inv_def pending_def hand_list_def handle_event_def\<close>)
  show "events (equeue pr) \<noteq> []" if "\<not> is_terminate e"
    using o that none by (auto simp: term_inv_def pending_def hand_list_def)
qed

lemma pinv_Filtering:
  assumes p: "pinv pr (add_mset (Worker (Filtering e t) p m) G) inq reg jn"
  shows "pinv pr (add_mset (Worker (Serving e) p m) G) inq reg jn"
    and "\<not> is_terminate e \<Longrightarrow> pr' = handle_event e Filtered pr \<Longrightarrow>
      \<not> t \<and> pinv pr' (add_mset (Worker Loop p m) G) inq reg jn"
proof -
  note o = pinv_owner [OF p, simplified]
  show "pinv pr (add_mset (Worker (Serving e) p m) G) inq reg jn"
    by (rule pinv_work [OF p]) (use o in auto)
  show "\<not> t \<and> pinv pr' (add_mset (Worker Loop p m) G) inq reg jn"
    if "\<not> is_terminate e" "pr' = handle_event e Filtered pr"
    by (intro conjI pinv_work [OF p]) (use o that in \<open>auto simp: log_inv_def pending_def hand_list_def handle_event_def\<close>)
qed

lemma pinv_Serving:
  assumes p: "pinv pr (add_mset (Worker (Serving e) p m) G) inq reg jn" and "pr' = handle_event e Served pr"
  shows "pinv pr' (add_mset (if is_terminate e then Worker Cleaning p m else Worker Loop p m) G) inq reg jn"
  by (rule pinv_work [OF p])
    (use pinv_owner [OF p] in \<open>auto simp: log_inv_def pending_def hand_list_def handle_event_def assms(2)\<close>)

lemma pinv_Rechecking:
  assumes p: "pinv pr (add_mset (Worker Rechecking p m) G) inq reg jn"
  shows "pinv pr (add_mset (Worker Unblocking p m) G) inq reg jn"
  by (rule pinv_replace [OF p]) (use pinvD(1) [OF p] in \<open>auto simp: own_inv_def\<close>)

lemma pinv_Unblocking:
  assumes p: "pinv pr (add_mset (Worker Unblocking p m) G) inq reg jn" and "pstate pr = BLOCKED" and "pr' = pr\<lparr>pstate := READY\<rparr>"
  shows "pinv pr' (add_mset (Worker Loop p m) G) inq reg jn"
proof -
  have "m = manage pr" and "in_hand pr = None" using pinvD(1) [OF p] assms(2) by (auto simp: own_inv_def)
  then show ?thesis by (intro pinv_swap [OF p _ _ _ assms(2,3)]) (simp_all add: assms(3))
qed

subsection \<open>Cleanup\<close>

lemma pinv_Cleaning:
  assumes p: "pinv pr (add_mset (Worker Cleaning p m) G) inq reg jn" and "pr' = pr\<lparr>pstate := TERMINATING\<rparr>"
  shows "pinv pr' (add_mset (Worker Decomissioning p m) G) inq reg jn" and "pstate pr = READY"
proof -
  have "referenced pr" using pinv_owner [OF p] pinvD(5) [OF p] by (auto simp: life_inv_def)
  then show "pinv pr' (add_mset (Worker Decomissioning p m) G) inq reg jn"
    by (intro pinv_work [OF p]) (use pinv_owner [OF p] in \<open>auto simp: log_inv_def pending_def hand_list_def assms(2)\<close>)
  show "pstate pr = READY" using pinv_owner [OF p] by simp
qed

lemma pinv_Decomissioning:
  assumes p: "pinv pr (add_mset (Worker Decomissioning p m) G) inq reg jn"
    and "pr' = pr\<lparr>equeue := (equeue pr)\<lparr>comissioned := False, events := []\<rparr>,
      handled := handled pr @ map (\<lambda>e. (e, Discarded)) (events (equeue pr))\<rparr>"
  shows "pinv pr' (add_mset (Worker Unregistering p m) G) inq reg jn"
  by (rule pinv_work [OF p])
    (use pinv_owner [OF p] in \<open>auto simp: log_inv_def pending_def hand_list_def assms(2) comp_def\<close>)

lemma pinv_Unregistering:
  assumes p: "pinv pr (add_mset (Worker Unregistering p m) G) inq reg jn" and "pr' = pr\<lparr>referenced := False\<rparr>"
  shows "pinv pr' (add_mset (Worker Expiring p m) G) inq reg jn"
  by (rule pinv_work [OF p])
    (use pinv_owner [OF p] in \<open>auto simp: log_inv_def pending_def hand_list_def assms(2)\<close>)

text \<open>Once no reference is left, nothing but the worker itself is concerned with the process.\<close>

lemma pinv_Expiring:
  assumes p: "pinv pr (add_mset (Worker Expiring p m) G) inq reg jn" and none: "\<forall>g\<in>#G. \<not> holds p g" and on: "\<forall>g\<in>#G. on p g"
    and pr': "pr' = pr\<lparr>gate := True\<rparr>"
  shows "pinv pr' (if m then {#Worker Deleting p m#} else {#}) inq False jn" and "G = {#}"
proof -
  note o = pinv_owner [OF p, simplified]
  have l: "\<not> gate pr" using life_frames(1) [OF pinvD(5) [OF p]] by simp
  have inq: "inq = 0" and no: "\<forall>g\<in>#G. \<not> owner g" using own_alone(1) [OF pinvD(1) [OF p]] by (simp_all add: owners_zero)
  have fr: "\<forall>g\<in>#G. frame_ok pr g" using own_alone(3) [OF pinvD(1) [OF p]] by simp
  have "\<not> on p g" if "\<not> owner g" "\<not> holds p g" "frame_ok pr g" for g
    using that l by (cases g) auto
  then show G: "G = {#}" using no none on fr by (metis multiset_nonemptyE)
  have n: "spawned pr" "\<not> freed pr" using life_frames [OF pinvD(5) [OF p]] by simp_all
  show "pinv pr' (if m then {#Worker Deleting p m#} else {#}) inq False jn"
  proof (rule pinvI)
    show "own_inv pr' (if m then {#Worker Deleting p m#} else {#}) inq jn"
      using o inq by (auto simp: own_inv_def owners_def pr')
  qed (use o inq n in \<open>auto simp: wake_inv_def term_inv_def log_inv_def life_inv_def pending_def hand_list_def pr'\<close>)
qed

lemma pinv_Deleting:
  assumes p: "pinv pr (add_mset (Worker Deleting p m) G) inq reg jn" and "pr' = pr\<lparr>freed := True\<rparr>"
  shows "pinv pr' G inq reg jn" and "pstate pr = TERMINATING"
proof -
  have g: "gate pr" using pinvD(1) [OF p] by (simp add: own_inv_def)
  then have G: "G = {#}" and st: "pstate pr = TERMINATING" "inq = 0" "spawned pr"
    using pinvD(5) [OF p] by (auto simp: life_inv_def)
  show "pstate pr = TERMINATING" by (rule st(1))
  have "in_hand pr = None" using pinvD(1) [OF p] G by (auto simp: own_inv_def)
  with p G st show "pinv pr' G inq reg jn"
    by (auto simp: pinv_defs assms(2))
qed

section \<open>The invariant of the system\<close>

fun run_frame :: "frame \<Rightarrow> bool" where
  "run_frame Epoch = True"
| "run_frame Signal = True"
| "run_frame Dequeue = True"
| "run_frame _ = False"

definition registered :: "sys \<Rightarrow> proc \<Rightarrow> bool" where
  "registered s q \<longleftrightarrow> processes s (pid_id (procs s q)) = Some q"

definition in_runq :: "sys \<Rightarrow> proc \<Rightarrow> nat" where
  "in_runq s q = count_list (runnable (runq s)) q"

definition proc_inv :: "sys \<Rightarrow> frame multiset \<Rightarrow> proc \<Rightarrow> bool" where
  "proc_inv s F q \<longleftrightarrow> pinv (procs s q) (filter_mset (on q) F) (in_runq s q) (registered s q) (joining_threads s)"

text \<open>Every entry of the run queue has a signal on its way, and one thread holds the mutex.\<close>

definition sys_inv :: "sys \<Rightarrow> frame multiset \<Rightarrow> bool" where
  "sys_inv s F \<longleftrightarrow> (\<forall>q. proc_inv s F q) \<and> (\<forall>i q. processes s i = Some q \<longrightarrow> pid_id (procs s q) = i)
     \<and> (\<forall>q\<ge>next_proc s. \<not> spawned (procs s q))
     \<and> length (runnable (runq s)) \<le> signals (runq s) + size (filter_mset run_frame F)
     \<and> size (filter_mset holds_mutex F) \<le> 1"

text \<open>An action of a frame on \<open>p\<close> keeps the invariant of the others.\<close>

lemma on_unique: "on p f \<Longrightarrow> on q f \<Longrightarrow> p = q"
  by (cases f) auto

lemma on_no_run: "on p f \<Longrightarrow> \<not> run_frame f"
  by (cases f) auto

definition others :: "proc \<Rightarrow> sys \<Rightarrow> sys \<Rightarrow> bool" where
  "others p s s' \<longleftrightarrow> (\<forall>q. q \<noteq> p \<longrightarrow> procs s' q = procs s q \<and> in_runq s' q = in_runq s q \<and> registered s' q = registered s q)
     \<and> joining_threads s' = joining_threads s"

lemma proc_inv_others:
  assumes "proc_inv s F q" and "others p s s'" and "q \<noteq> p" and "filter_mset (on q) F' = filter_mset (on q) F"
  shows "proc_inv s' F' q"
  using assms by (simp add: proc_inv_def others_def)

lemma filter_on_other: "\<forall>g\<in>set fs. on p g \<Longrightarrow> q \<noteq> p \<Longrightarrow> filter_mset (on q) (mset fs) = {#}"
  using on_unique by (fastforce simp: filter_mset_none)

lemma filter_on_self: "\<forall>g\<in>set fs. on p g \<Longrightarrow> filter_mset (on p) (mset fs) = mset fs"
  by (metis filter_mset_cong filter_mset_True set_mset_mset)

lemma filter_run_on: "\<forall>g\<in>set fs. on p g \<Longrightarrow> filter_mset run_frame (mset fs) = {#}"
  using on_no_run by (fastforce simp: filter_mset_none)

text \<open>An action of a frame on \<open>p\<close> that changes only this process and leaves frames on it.\<close>

lemma sys_inv_local:
  assumes inv: "sys_inv s (add_mset f F)" and f: "on p f" and fs: "\<forall>g\<in>set fs. on p g"
    and s': "s' = s\<lparr>procs := (procs s)(p := pr')\<rparr>" and id: "pid_id pr' = pid_id (procs s p)"
      "spawned pr' = spawned (procs s p)"
    and mutex: "size (filter_mset holds_mutex (F + mset fs)) \<le> 1"
    and p: "pinv (procs s p) (add_mset f (filter_mset (on p) F)) (in_runq s p) (registered s p) (joining_threads s) \<Longrightarrow>
      pinv pr' (mset fs + filter_mset (on p) F) (in_runq s p) (registered s p) (joining_threads s)"
  shows "sys_inv s' (F + mset fs)"
proof -
  have o: "others p s s'" by (simp add: others_def s' in_runq_def registered_def)
  have pre: "proc_inv s (add_mset f F) q" for q using inv by (simp add: sys_inv_def)
  have "proc_inv s' (F + mset fs) q" if n: "q \<noteq> p" for q
  proof (rule proc_inv_others [OF pre o n])
    have "\<not> on q f" using on_unique [OF f] n by blast
    then show "filter_mset (on q) (F + mset fs) = filter_mset (on q) (add_mset f F)"
      using filter_on_other [OF fs n] by simp
  qed
  moreover have "proc_inv s' (F + mset fs) p"
    using p pre [of p] f filter_on_self [OF fs]
    by (simp add: proc_inv_def s' in_runq_def registered_def id add.commute)
  ultimately have all: "proc_inv s' (F + mset fs) q" for q by (cases "q = p") auto
  have run: "filter_mset run_frame (F + mset fs) = filter_mset run_frame (add_mset f F)"
    using on_no_run [OF f] filter_run_on [OF fs] by simp
  show ?thesis unfolding sys_inv_def run
  proof (intro conjI)
    show "\<forall>q. proc_inv s' (F + mset fs) q" using all by blast
    show "\<forall>i q. processes s' i = Some q \<longrightarrow> pid_id (procs s' q) = i"
      using inv id by (auto simp: sys_inv_def s')
    show "\<forall>q\<ge>next_proc s'. \<not> spawned (procs s' q)"
      using inv id by (auto simp: sys_inv_def s')
    show "length (runnable (runq s')) \<le> signals (runq s') + size (filter_mset run_frame (add_mset f F))"
      using inv unfolding sys_inv_def s' by simp
    show "size (filter_mset holds_mutex (F + mset fs)) \<le> 1" by (rule mutex)
  qed
qed

lemma sys_inv_pinv:
  assumes "sys_inv s (add_mset f F)" and "on p f"
  shows "pinv (procs s p) (add_mset f (filter_mset (on p) F)) (in_runq s p) (registered s p) (joining_threads s)"
proof -
  have "proc_inv s (add_mset f F) p" using assms(1) by (simp add: sys_inv_def)
  with assms(2) show ?thesis by (simp add: proc_inv_def)
qed

lemma sys_inv_mutex:
  assumes "sys_inv s (add_mset f F)" and "\<forall>g\<in>set fs. \<not> holds_mutex g"
  shows "size (filter_mset holds_mutex (F + mset fs)) \<le> 1"
proof -
  have "size (filter_mset holds_mutex (mset fs)) = 0"
    using assms(2) unfolding size_eq_0_iff_empty filter_mset_none by simp
  moreover have "size (filter_mset holds_mutex F) \<le> size (filter_mset holds_mutex (add_mset f F))" by simp
  moreover have "size (filter_mset holds_mutex (add_mset f F)) \<le> 1" using assms(1) unfolding sys_inv_def by blast
  ultimately show ?thesis unfolding filter_union_mset size_union by linarith
qed

text \<open>The usual cases: only frames change, or only the process.\<close>

lemma sys_inv_frames:
  assumes "sys_inv s (add_mset f F)" and "on p f" and "\<forall>g\<in>set fs. on p g \<and> \<not> holds_mutex g"
    and "pinv (procs s p) (add_mset f (filter_mset (on p) F)) (in_runq s p) (registered s p) (joining_threads s) \<Longrightarrow>
      pinv (procs s p) (mset fs + filter_mset (on p) F) (in_runq s p) (registered s p) (joining_threads s)"
  shows "sys_inv s (F + mset fs)"
  by (rule sys_inv_local [OF assms(1,2) _ _ _ _ sys_inv_mutex [OF assms(1)], of _ _ "procs s p"])
    (use assms(3,4) in auto)

lemma sys_inv_process:
  assumes "sys_inv s (add_mset f F)" and "on p f" and "\<forall>g\<in>set fs. on p g \<and> \<not> holds_mutex g"
    and "pid_id pr' = pid_id (procs s p)" "spawned pr' = spawned (procs s p)"
    and "pinv (procs s p) (add_mset f (filter_mset (on p) F)) (in_runq s p) (registered s p) (joining_threads s) \<Longrightarrow>
      pinv pr' (mset fs + filter_mset (on p) F) (in_runq s p) (registered s p) (joining_threads s)"
  shows "sys_inv (s\<lparr>procs := (procs s)(p := pr')\<rparr>) (F + mset fs)"
  by (rule sys_inv_local [OF assms(1,2) _ refl assms(4,5) sys_inv_mutex [OF assms(1)]]) (use assms(3,6) in auto)

subsection \<open>Senders\<close>

lemma pinv_Send:
  "pinv pr (add_mset (Send p e) G) inq reg jn \<Longrightarrow> pinv pr (add_mset (SendQueue p e) G) inq reg jn"
  by (erule pinv_replace) simp_all

lemma sys_inv_enqueue:
  assumes inv: "sys_inv s (add_mset f F)"
  shows "case enqueue_action s f of Next s' fs \<Rightarrow> sys_inv s' (F + mset fs) | Wait \<Rightarrow> True | Abort c \<Rightarrow> False"
proof (cases f)
  case (Send p e)
  note i = inv [unfolded Send]
  show ?thesis using Send
    by (auto intro!: sys_inv_frames [OF i, of p "[_]", simplified] sys_inv_frames [OF i, of p "[]", simplified]
        intro: pinv_Send pinv_done)
next
  case (SendQueue p e)
  note i = inv [unfolded SendQueue]
  show ?thesis using SendQueue
    by (auto simp: eq_enqueue_def upd_proc_def intro!: sys_inv_process [OF i, of p "[_]", simplified]
        sys_inv_frames [OF i, of p "[]", simplified] intro: pinv_SendQueue pinv_done)
next
  case (SendTermination p b)
  note i = inv [unfolded SendTermination]
  show ?thesis using SendTermination pinv_SendTermination [of "procs s p" p b]
    by (cases b) (auto simp: upd_proc_def intro!: sys_inv_process [OF i, of p "[_]", simplified]
        sys_inv_frames [OF i, of p "[_]", simplified])
next
  case (SendState p)
  note i = inv [unfolded SendState]
  show ?thesis using SendState
    by (auto intro!: sys_inv_frames [OF i, of p "[_]", simplified] sys_inv_frames [OF i, of p "[]", simplified]
        elim: pinv_replace pinv_done)
next
  case (SendSwap p)
  note i = inv [unfolded SendSwap]
  have "in_hand (procs s p) = None" if "pstate (procs s p) = BLOCKED"
    using pinvD(1) [OF sys_inv_pinv [OF i, of p]] that by (simp add: own_inv_def)
  then show ?thesis using SendSwap
    by (auto simp: upd_proc_def intro!: sys_inv_process [OF i, of p "[_]", simplified]
        sys_inv_frames [OF i, of p "[]", simplified] elim: pinv_swap pinv_done)
qed auto

subsection \<open>The run queue\<close>

text \<open>Actions that change the run queue and frames on \<open>p\<close>, but no process.\<close>

lemma sys_inv_runq:
  assumes inv: "sys_inv s F" and s': "s' = s\<lparr>runq := q\<rparr>"
    and other: "\<And>r. r \<noteq> p \<Longrightarrow> count_list (runnable q) r = count_list (runnable (runq s)) r"
      "\<And>r. r \<noteq> p \<Longrightarrow> filter_mset (on r) F' = filter_mset (on r) F"
    and p: "pinv (procs s p) (filter_mset (on p) F) (in_runq s p) (registered s p) (joining_threads s) \<Longrightarrow>
      pinv (procs s p) (filter_mset (on p) F') (count_list (runnable q) p) (registered s p) (joining_threads s)"
    and run: "length (runnable q) \<le> signals q + size (filter_mset run_frame F')"
    and mutex: "filter_mset holds_mutex F' = filter_mset holds_mutex F"
  shows "sys_inv s' F'"
proof -
  have pre: "proc_inv s F r" for r using inv by (simp add: sys_inv_def)
  have "proc_inv s' F' r" for r
  proof (cases "r = p")
    case True
    with p pre [of p] show ?thesis by (simp add: proc_inv_def s' in_runq_def registered_def)
  next
    case False
    with pre [of r] other show ?thesis by (simp add: proc_inv_def s' in_runq_def registered_def)
  qed
  then show ?thesis using inv run mutex by (simp add: sys_inv_def s')
qed

lemma count_list_remove1: "count_list (remove1 p xs) q = count_list xs q - (if p = q then 1 else 0)"
  by (induction xs) (auto simp: count_list_0_iff gr0_conv_Suc)

lemma sys_inv_run:
  assumes inv: "sys_inv s (add_mset f F)" and a: "run_action s f = Next s' fs"
  shows "sys_inv s' (F + mset fs)"
proof (cases f)
  case (Enqueue p b)
  show ?thesis
  proof (cases "joining_threads s")
    case True
    have "sys_inv s (F + mset [])"
      by (rule sys_inv_frames [OF inv, of p]) (use Enqueue True in \<open>auto intro: pinv_joining\<close>)
    with a Enqueue True show ?thesis by simp
  next
    case False
    have len: "length (runnable (runq s)) \<le> signals (runq s) + size (filter_mset run_frame F)"
      using inv Enqueue by (simp add: sys_inv_def)
    have "pinv (procs s p) (filter_mset (on p) F) (Suc (in_runq s p)) (registered s p) (joining_threads s)"
      using pinv_push sys_inv_pinv [OF inv, of p] Enqueue by auto
    then show ?thesis
      by (intro sys_inv_runq [OF inv, of _ "rq_push p (runq s)" p])
        (use a Enqueue False len in \<open>auto simp: rq_push_def in_runq_def\<close>)
  qed
next
  case Epoch
  show ?thesis
    by (rule sys_inv_runq [OF inv, of _ "rq_epoch (runq s)" undefined])
      (use a Epoch inv in \<open>auto simp: rq_epoch_def in_runq_def sys_inv_def\<close>)
next
  case Signal
  show ?thesis
    by (rule sys_inv_runq [OF inv, of _ "rq_signal (runq s)" undefined])
      (use a Signal inv in \<open>auto simp: rq_signal_def in_runq_def sys_inv_def\<close>)
next
  case Dequeue
  show ?thesis
  proof (cases "runnable (runq s)")
    case Nil
    then have "rq_dequeue (runq s) = (runq s, None)" by (simp add: rq_dequeue_def)
    then show ?thesis
      by (intro sys_inv_runq [OF inv, of _ "runq s" undefined])
        (use a Dequeue inv Nil in \<open>auto simp: in_runq_def sys_inv_def\<close>)
  next
    case (Cons p ps)
    have len: "length ps \<le> signals (runq s) + size (filter_mset run_frame F)"
      using inv Dequeue Cons by (simp add: sys_inv_def)
    have "in_runq s p = Suc (count_list ps p)" using Cons by (simp add: in_runq_def)
    then have "pinv (procs s p) (add_mset (Resume p) (filter_mset (on p) F)) (count_list ps p) (registered s p) (joining_threads s)"
      using inv Dequeue pinv_pop [of "procs s p" "filter_mset (on p) F" "count_list ps p"]
      unfolding sys_inv_def proc_inv_def by (metis (no_types, lifting) filter_mset_add_mset on.simps(11))
    then show ?thesis
      by (intro sys_inv_runq [OF inv, of _ "(runq s)\<lparr>runnable := ps\<rparr>" p])
        (use a Dequeue Cons len in \<open>auto simp: rq_dequeue_def\<close>)
  qed
qed (use a in auto)

subsection \<open>Workers\<close>

text \<open>A filter that never drops a terminate event.\<close>

definition passes_terminate :: "(proc \<Rightarrow> pevent \<Rightarrow> bool) \<Rightarrow> bool" where
  "passes_terminate flt \<longleftrightarrow> (\<forall>p e. is_terminate e \<longrightarrow> \<not> flt p e)"

lemma sys_inv_resume:
  assumes inv: "sys_inv s (add_mset f F)" and flt: "passes_terminate flt"
  shows "case resume_action flt s f of Next s' fs \<Rightarrow> sys_inv s' (F + mset fs) | Wait \<Rightarrow> True | Abort c \<Rightarrow> False"
proof (cases f)
  case (Resume p)
  note i = inv [unfolded Resume]
  note r = pinv_Resume [OF sys_inv_pinv [OF i, of p]]
  show ?thesis
    using r(3) Resume by (auto simp: Let_def split: pstate.split
        intro!: sys_inv_frames [OF i, of p "[_]", simplified] pinv_Resume)
next
  case (Worker pc p m)
  note i = inv [unfolded Worker]
  note one = sys_inv_process [OF i, of p "[_]", simplified] sys_inv_frames [OF i, of p "[_]", simplified]
  note none = sys_inv_frames [OF i, of p "[]", simplified]
  have pi: "pinv (procs s p) (add_mset (Worker pc p m) (filter_mset (on p) F)) (in_runq s p) (registered s p) (joining_threads s)"
    by (rule sys_inv_pinv [OF i]) simp
  show ?thesis
  proof (cases pc)
    case Initializing
    then show ?thesis using Worker by (auto simp: upd_proc_def intro!: one pinv_Initializing)
  next
    case Loop
    then show ?thesis using Worker
      by (cases "events (equeue (procs s p))") (auto simp: eq_empty_def eq_dequeue_def upd_proc_def intro!: one pinv_Loop)
  next
    case (Got e)
    then show ?thesis using Worker pinv_Got [of "procs s p" e p m] by (auto intro!: one split: if_splits)
  next
    case (Purging e)
    note pp = pinv_Purging [OF pi [unfolded Purging]]
    show ?thesis
    proof (cases "is_terminate e")
      case True
      then show ?thesis using Worker Purging by (auto intro!: one pinv_Purging)
    next
      case False
      then obtain e' es where e': "events (equeue (procs s p)) = e' # es" using pp(3) by (meson list.exhaust)
      show ?thesis using Worker Purging False e' pp(2) [OF False e' refl]
        by (auto simp: eq_dequeue_def handle_event_def upd_proc_def intro!: one)
    qed
  next
    case (Filtering e t)
    show ?thesis
    proof (cases "flt p e")
      case True
      then have "\<not> is_terminate e" using flt by (auto simp: passes_terminate_def)
      with pinv_Filtering(2) [OF pi [unfolded Filtering] this refl] True show ?thesis
        using Worker Filtering by (auto simp: handle_event_def upd_proc_def intro!: one)
    next
      case False
      then show ?thesis using Worker Filtering by (auto intro!: one pinv_Filtering)
    qed
  next
    case (Serving e)
    then show ?thesis using Worker pinv_Serving [of "procs s p" e p m]
      by (auto simp: handle_event_def upd_proc_def intro!: one split: if_splits)
  next
    case Blocking
    then show ?thesis using Worker by (auto simp: upd_proc_def intro!: one pinv_Blocking)
  next
    case Rechecking
    then show ?thesis using Worker
      by (auto simp: eq_empty_def intro!: one none pinv_Rechecking elim: pinv_done)
  next
    case Unblocking
    then show ?thesis using Worker
      by (auto simp: upd_proc_def intro!: one none pinv_Unblocking elim: pinv_done)
  qed (use Worker in auto)
qed auto

subsection \<open>Cleanup\<close>

lemma sys_inv_cleanup:
  assumes inv: "sys_inv s (add_mset f F)"
  shows "case cleanup_action s F f of Next s' fs \<Rightarrow> sys_inv s' (F + mset fs) | Wait \<Rightarrow> True | Abort c \<Rightarrow> False"
proof (cases f)
  case (Worker pc p m)
  note i = inv [unfolded Worker]
  note one = sys_inv_process [OF i, of p "[_]", simplified]
  have pi: "pinv (procs s p) (add_mset (Worker pc p m) (filter_mset (on p) F)) (in_runq s p) (registered s p) (joining_threads s)"
    by (rule sys_inv_pinv [OF i]) simp
  show ?thesis
  proof (cases pc)
    case Cleaning
    then show ?thesis using Worker pinv_Cleaning(2) [OF pi [unfolded Cleaning] refl]
      by (auto simp: upd_proc_def intro!: one pinv_Cleaning)
  next
    case Decomissioning
    then show ?thesis using Worker
      by (auto simp: eq_decomission_def upd_proc_def intro!: one pinv_Decomissioning)
  next
    case Unregistering
    show ?thesis
    proof (cases "\<exists>f\<in>#F. holds_mutex f")
      case False
      then have "size (filter_mset holds_mutex (F + mset [Worker Expiring p m])) \<le> 1"
        unfolding filter_union_mset size_union by (simp add: filter_mset_none)
      then have "sys_inv (upd_proc p (\<lambda>pr. pr\<lparr>referenced := False\<rparr>) s) (F + mset [Worker Expiring p m])"
        by (intro sys_inv_local [OF i, of p _ _ "(procs s p)\<lparr>referenced := False\<rparr>"])
          (auto simp: upd_proc_def Unregistering intro!: pinv_Unregistering)
      with False show ?thesis using Worker Unregistering by simp
    qed (use Worker Unregistering in simp)
  next
    case Expiring
    show ?thesis
    proof (cases "\<exists>f\<in>#F. holds p f")
      case False
      have ends: "\<forall>g\<in>#filter_mset (on p) F. \<not> holds p g" "\<forall>g\<in>#filter_mset (on p) F. on p g"
        using False by auto
      note gone = pinv_Expiring [OF pi [unfolded Expiring] ends refl]
      let ?fs = "if m then [Worker Deleting p m] else []"
      let ?s = "upd_proc p (\<lambda>pr. pr\<lparr>gate := True\<rparr>) (s\<lparr>processes := (processes s)(pid_id (procs s p) := None)\<rparr>)"
      have reg: "registered s p" using life_frames(4) [OF pinvD(5) [OF pi]] Expiring by simp
      have o: "others p s ?s"
        using reg by (auto simp: others_def upd_proc_def in_runq_def registered_def)
      have pre: "proc_inv s (add_mset f F) q" for q using inv by (simp add: sys_inv_def)
      have "proc_inv ?s (F + mset ?fs) q" if n: "q \<noteq> p" for q
      proof (rule proc_inv_others [OF pre o n])
        show "filter_mset (on q) (F + mset ?fs) = filter_mset (on q) (add_mset f F)" using Worker n by simp
      qed
      moreover have "proc_inv ?s (F + mset ?fs) p"
      proof -
        have "filter_mset (on p) (F + mset ?fs) = (if m then {#Worker Deleting p m#} else {#})"
          unfolding filter_union_mset gone(2) by simp
        with gone(1) show ?thesis
          unfolding proc_inv_def by (simp add: upd_proc_def in_runq_def registered_def)
      qed
      ultimately have all: "\<forall>q. proc_inv ?s (F + mset ?fs) q" by metis
      have "size (filter_mset holds_mutex (F + mset ?fs)) \<le> 1" by (rule sys_inv_mutex [OF inv]) auto
      moreover have "filter_mset run_frame (F + mset ?fs) = filter_mset run_frame (add_mset f F)" using Worker by auto
      ultimately have "sys_inv ?s (F + mset ?fs)"
        using inv all unfolding sys_inv_def by (auto simp: upd_proc_def)
      with False show ?thesis using Worker Expiring by simp
    qed (use Worker Expiring in simp)
  next
    case Deleting
    then show ?thesis using Worker pinv_Deleting [OF pi [unfolded Deleting] refl]
      by (auto simp: upd_proc_def intro!: sys_inv_process [OF i, of p "[]", simplified])
  qed (use Worker in auto)
qed auto

lemma sys_inv_advance:
  assumes inv: "sys_inv s (add_mset f F)" and flt: "passes_terminate flt"
  shows "case advance flt s F f of Next s' fs \<Rightarrow> sys_inv s' (F + mset fs) | Wait \<Rightarrow> True | Abort c \<Rightarrow> False"
proof (cases f)
  case (Worker pc p m)
  then show ?thesis using sys_inv_cleanup [OF inv] sys_inv_resume [OF inv flt] by simp
next
  case (Resume p)
  then show ?thesis using sys_inv_resume [OF inv flt] by simp
qed (use sys_inv_enqueue [OF inv] sys_inv_run [OF inv] in \<open>auto split: if_splits prod.splits option.splits advanced_to.splits\<close>)

subsection \<open>Calls\<close>

lemma catch_up_clk: "\<exists>c. catch_up o1 p mode s = s\<lparr>clk := c\<rparr>"
proof (cases "paused (clk s)")
  case False
  then have "catch_up o1 p mode s = s\<lparr>clk := clk s\<rparr>" by (simp add: catch_up_def)
  then show ?thesis ..
qed (auto simp: catch_up_def split: prod.split)

lemma sys_inv_clk [simp]: "sys_inv (s\<lparr>clk := c\<rparr>) F = sys_inv s F"
  by (simp add: sys_inv_def proc_inv_def in_runq_def registered_def)

lemma sys_inv_catch_up [simp]: "sys_inv (catch_up o1 p mode s) F = sys_inv s F"
  using catch_up_clk [of o1 p mode s] by auto

lemma catch_up_frame [simp]:
  "procs (catch_up o1 p mode s) = procs s" "processes (catch_up o1 p mode s) = processes s"
  "runq (catch_up o1 p mode s) = runq s" "next_proc (catch_up o1 p mode s) = next_proc s"
  "finalizing (catch_up o1 p mode s) = finalizing s" "joining_threads (catch_up o1 p mode s) = joining_threads s"
  using catch_up_clk [of o1 p mode s] by auto

lemma sys_inv_proc: "sys_inv s F \<Longrightarrow> pinv (procs s q) (filter_mset (on q) F) (in_runq s q) (registered s q) (joining_threads s)"
  by (simp add: sys_inv_def proc_inv_def)

text \<open>A call that changes one process, its registration and the frames on it.\<close>

lemma sys_inv_call:
  assumes inv: "sys_inv s F" and o: "others p s s'" and fs: "\<forall>g\<in>set fs. on p g \<and> \<not> holds_mutex g"
    and p: "pinv (procs s' p) (mset fs + filter_mset (on p) F) (in_runq s' p) (registered s' p) (joining_threads s')"
    and ids: "\<forall>i q. processes s' i = Some q \<longrightarrow> pid_id (procs s' q) = i"
      "\<forall>q\<ge>next_proc s'. \<not> spawned (procs s' q)"
    and q: "runq s' = runq s"
  shows "sys_inv s' (F + mset fs)"
proof -
  have on: "\<forall>g\<in>set fs. on p g" using fs by blast
  have "proc_inv s' (F + mset fs) r" for r
  proof (cases "r = p")
    case True
    then show ?thesis using p filter_on_self [OF on] by (simp add: proc_inv_def add.commute)
  next
    case False
    have "proc_inv s F r" using inv by (simp add: sys_inv_def)
    from proc_inv_others [OF this o False] show ?thesis using filter_on_other [OF on False] by simp
  qed
  then have all: "\<forall>r. proc_inv s' (F + mset fs) r" by blast
  have run: "filter_mset run_frame (F + mset fs) = filter_mset run_frame F"
    using filter_run_on [OF on] by simp
  have "filter_mset holds_mutex (mset fs) = {#}" using fs unfolding filter_mset_none by simp
  then have mutex: "filter_mset holds_mutex (F + mset fs) = filter_mset holds_mutex F"
    unfolding filter_union_mset by (simp only: add_0_right)
  show ?thesis unfolding sys_inv_def run mutex q using all ids inv unfolding sys_inv_def by blast
qed

lemma sys_inv_unspawned:
  assumes "sys_inv s F" and "\<not> spawned (procs s p)"
  shows "filter_mset (on p) F = {#}" and "in_runq s p = 0" and "\<not> registered s p"
    and "procs s p = (new_process (pid_id (procs s p)))\<lparr>freed := freed (procs s p)\<rparr>"
  using pinvD(5) [OF sys_inv_proc [OF assms(1), of p]] assms(2) by (simp_all add: life_inv_def)

lemma pinv_new: "pinv ((new_process i)\<lparr>freed := b\<rparr>) {#} 0 False jn"
  by (simp add: pinv_def own_inv_def wake_inv_def term_inv_def log_inv_def life_inv_def owners_def pending_def
      hand_list_def new_process_def eq_new_def)

lemma sys_inv_construct:
  assumes inv: "sys_inv s F"
  shows "sys_inv (s\<lparr>procs := (procs s)(next_proc s := new_process i), next_proc := Suc (next_proc s)\<rparr>) F"
proof -
  let ?p = "next_proc s" and ?s = "s\<lparr>procs := (procs s)(next_proc s := new_process i), next_proc := Suc (next_proc s)\<rparr>"
  have n: "\<not> spawned (procs s ?p)" using inv by (simp add: sys_inv_def)
  note u = sys_inv_unspawned [OF inv n]
  have no: "processes s j \<noteq> Some ?p" for j
    using inv u(3) unfolding sys_inv_def registered_def by metis
  have "sys_inv ?s (F + mset [])"
  proof (rule sys_inv_call [OF inv])
    show "others ?p s ?s" by (simp add: others_def in_runq_def registered_def)
    show "pinv (procs ?s ?p) (mset [] + filter_mset (on ?p) F) (in_runq ?s ?p) (registered ?s ?p) (joining_threads ?s)"
      using pinv_new [where i = i and b = False] u(2) no unfolding u(1) registered_def in_runq_def
      by (simp add: new_process_def)
  qed (use inv no in \<open>auto simp: sys_inv_def new_process_def\<close>)
  then show ?thesis by simp
qed

lemma pinv_spawned:
  "pinv ((new_process i)\<lparr>manage := m, spawned := True\<rparr>) {#Enqueue p False#} 0 True jn"
  by (simp add: pinv_def own_inv_def wake_inv_def term_inv_def log_inv_def life_inv_def owners_def pending_def
      hand_list_def new_process_def eq_new_def)

lemma sys_inv_spawn:
  assumes inv: "sys_inv s F" and "p < next_proc s" and n: "\<not> spawned (procs s p)" and fr: "\<not> freed (procs s p)" and ok: "spawn_ok p s"
  shows "sys_inv (register p m s) (F + mset [Enqueue p False])"
proof (rule sys_inv_call [OF inv])
  note u = sys_inv_unspawned [OF inv n]
  have free: "processes s (pid_id (procs s p)) = None" using ok by (simp add: spawn_ok_def)
  show "others p s (register p m s)"
    using free by (auto simp: others_def in_runq_def registered_def register_def upd_proc_def)
  have pr: "procs (register p m s) p = (new_process (pid_id (procs s p)))\<lparr>manage := m, spawned := True\<rparr>"
    using u(4) fr by (simp add: register_def upd_proc_def new_process_def)
  show "pinv (procs (register p m s) p) (mset [Enqueue p False] + filter_mset (on p) F) (in_runq (register p m s) p)
      (registered (register p m s) p) (joining_threads (register p m s))"
    unfolding pr u(1) using pinv_spawned u(2)
    by (simp add: in_runq_def registered_def register_def upd_proc_def)
qed (use inv assms(2) in \<open>auto simp: sys_inv_def register_def upd_proc_def\<close>)

lemma sys_inv_free:
  assumes inv: "sys_inv s F" and c: "\<not> spawned (procs s p) \<or> gate (procs s p) \<and> \<not> manage (procs s p)"
  shows "sys_inv (upd_proc p (\<lambda>pr. pr\<lparr>freed := True\<rparr>) s) F"
proof -
  let ?s = "upd_proc p (\<lambda>pr. pr\<lparr>freed := True\<rparr>) s"
  note pi = sys_inv_proc [OF inv, of p]
  have "pinv ((procs s p)\<lparr>freed := True\<rparr>) (filter_mset (on p) F) (in_runq s p) (registered s p) (joining_threads s)"
  proof (cases "spawned (procs s p)")
    case False
    note u = sys_inv_unspawned [OF inv False]
    have "(procs s p)\<lparr>freed := True\<rparr> = (new_process (pid_id (procs s p)))\<lparr>freed := True\<rparr>" by (subst u(4)) simp
    then show ?thesis unfolding u(1,2) using pinv_new u(3) by simp
  next
    case True
    then have g: "gate (procs s p)" "\<not> manage (procs s p)" using c by auto
    have "\<not> (deleting_frame f \<and> frame_ok (procs s p) f)" for f using g(2) by (cases f) auto
    then have G: "filter_mset (on p) F = {#}"
      using pinvD(1,5) [OF pi] g(1) unfolding own_inv_def life_inv_def by (metis multiset_nonemptyE)
    have "in_hand (procs s p) = None" using pinvD(1) [OF pi] unfolding G own_inv_def by simp
    with pi show ?thesis unfolding G pinv_defs using g True by auto
  qed
  then have "sys_inv ?s (F + mset [])"
    by (intro sys_inv_call [OF inv, of p])
      (use inv in \<open>auto simp: others_def in_runq_def registered_def upd_proc_def sys_inv_def\<close>)
  then show ?thesis by simp
qed

text \<open>A reference is only obtained to a process that has not been cleaned up.\<close>

lemma use_alive:
  assumes inv: "sys_inv s F" and u: "use s F pid = Some (Some p)"
  shows "spawned (procs s p) \<and> \<not> gate (procs s p)"
proof -
  note pi = sys_inv_proc [OF inv, of p]
  have "\<not> (holds p f \<and> deleting_frame f)" for f by (cases f) auto
  moreover have "holds p f \<Longrightarrow> on p f" for f by (cases f) auto
  ultimately have "lockable s F p \<Longrightarrow> spawned (procs s p) \<and> \<not> gate (procs s p)"
    using pinvD(5) [OF pi] unfolding life_inv_def lockable_def by fastforce
  moreover have "processes s i = Some p \<Longrightarrow> registered s p" for i
    using inv by (auto simp: sys_inv_def registered_def)
  then have "processes s i = Some p \<Longrightarrow> spawned (procs s p) \<and> \<not> gate (procs s p)" for i
    using pinvD(5) [OF pi] by (auto simp: life_inv_def)
  ultimately show ?thesis using u by (auto simp: use_def split: prod.splits option.splits if_splits)
qed

lemma sys_inv_deliver:
  assumes inv: "sys_inv s F" and u: "use s F pid = Some (Some p)"
  shows "sys_inv s (F + mset [Send p e])"
proof (rule sys_inv_call [OF inv, of p])
  show "pinv (procs s p) (mset [Send p e] + filter_mset (on p) F) (in_runq s p) (registered s p) (joining_threads s)"
    using pinv_more [OF sys_inv_proc [OF inv, of p], of "Send p e"] use_alive [OF inv u] by simp
qed (use inv in \<open>auto simp: others_def sys_inv_def\<close>)

lemma sys_inv_donate:
  assumes inv: "sys_inv s F" and e: "rq_extract p (runq s) = (q, True)"
  shows "sys_inv (s\<lparr>runq := q\<rparr>) (F + mset [Resume p])"
proof (rule sys_inv_runq [OF inv refl])
  have q: "q = (runq s)\<lparr>runnable := remove1 p (runnable (runq s))\<rparr>" and m: "p \<in> set (runnable (runq s))"
    using e by (auto simp: rq_extract_def split: if_splits)
  show "count_list (runnable q) r = count_list (runnable (runq s)) r" if "r \<noteq> p" for r
    using that by (simp add: q count_list_remove1)
  have c: "in_runq s p = Suc (count_list (runnable q) p)"
    using m by (simp add: q count_list_remove1 in_runq_def) (metis count_list_0_iff gr0_conv_Suc not_gr0 Suc_pred)
  show "pinv (procs s p) (filter_mset (on p) (F + mset [Resume p])) (count_list (runnable q) p) (registered s p) (joining_threads s)"
    if "pinv (procs s p) (filter_mset (on p) F) (in_runq s p) (registered s p) (joining_threads s)"
    using that pinv_pop [of "procs s p" "filter_mset (on p) F"] unfolding c by simp
  show "length (runnable q) \<le> signals q + size (filter_mset run_frame (F + mset [Resume p]))"
    using inv unfolding sys_inv_def q by (auto simp: length_remove1)
qed auto

lemma sys_inv_joining: "sys_inv s F \<Longrightarrow> sys_inv (s\<lparr>joining_threads := True\<rparr>) F"
  by (simp add: sys_inv_def proc_inv_def in_runq_def registered_def pinv_def own_inv_def)

lemma sys_inv_do_call:
  assumes inv: "sys_inv s F" and c: "do_call s F a = Some (s', fs)"
  shows "sys_inv s' (F + mset fs)"
proof (cases a)
  case (Construct m i)
  then show ?thesis using c sys_inv_construct [OF inv] by (auto simp: call_defs)
next
  case (Spawn sp p m)
  then show ?thesis using c inv sys_inv_spawn [of "catch_up sp p SAFE s" F p m] sys_inv_free [of "catch_up sp p SAFE s" F p]
    by (auto simp: call_defs Let_def split: if_splits)
next
  case (Deliver o1 pid e)
  then show ?thesis using c inv sys_inv_deliver [OF inv, of pid] by (auto simp: call_defs split: option.splits)
next
  case (Terminate o1 pid b)
  then show ?thesis using c inv sys_inv_deliver [OF inv, of pid] by (auto simp: call_defs split: option.splits)
next
  case (Dispatch o1 pid f)
  then show ?thesis using c inv sys_inv_deliver [OF inv, of pid] by (auto simp: call_defs split: option.splits)
next
  case WaitRun
  then obtain q where q: "0 < signals (runq s)" "s' = s\<lparr>runq := (runq s)\<lparr>signals := signals (runq s) - 1\<rparr>\<rparr>" "fs = [Dequeue]"
    using c by (auto simp: call_defs rq_wait_def split: option.splits if_splits)
  have "sys_inv (s\<lparr>runq := (runq s)\<lparr>signals := signals (runq s) - 1\<rparr>\<rparr>) (F + mset [Dequeue])"
    by (rule sys_inv_runq [OF inv refl, of undefined]) (use inv q(1) in \<open>auto simp: in_runq_def sys_inv_def\<close>)
  then show ?thesis by (simp add: q)
next
  case (Donate pid)
  then show ?thesis using c inv sys_inv_donate [OF inv]
    by (auto simp: call_defs split: option.splits if_splits prod.splits pstate.splits)
      (auto simp: rq_extract_def split: if_splits)
next
  case (Destroy p)
  then show ?thesis using c sys_inv_free [OF inv, of p] by (auto simp: call_defs split: if_splits)
next
  case Finalizing
  then show ?thesis using c inv by (auto simp: sys_inv_def proc_inv_def in_runq_def registered_def)
next
  case Joining
  then show ?thesis using c sys_inv_joining [OF inv] by auto
qed

lemma sys_inv_init: "sys_inv (sys_init l) {#}"
  using pinv_new [where i = 0 and b = False and jn = False]
  by (simp add: sys_inv_def proc_inv_def sys_init_def in_runq_def registered_def new_process_def)

lemma psteps_inv: "psteps flt l s F \<Longrightarrow> passes_terminate flt \<Longrightarrow> sys_inv s F"
proof (induction rule: psteps.induct)
  case p_start
  show ?case by (rule sys_inv_init)
next
  case (p_call s F a s' fs)
  then show ?case using sys_inv_do_call by blast
next
  case (p_advance s f F s' fs)
  then show ?case using sys_inv_advance [of s f F flt] by simp
qed

end
