(* ===== verification/Process_Properties.thy ===== *)
theory Process_Properties
  imports Process_Invariants
begin

text \<open>
  What the actor core guarantees, with runs that show the hypotheses can hold, and two observations:
  a filter that drops terminate events can make a \<^verbatim>\<open>CHECK\<close> fail, and the lock-free event queue stays open
  after \<^verbatim>\<open>decomission\<close>.
\<close>

section \<open>Properties\<close>

text \<open>C7. No wakeup and no event is lost. When no call is in progress and no signal is pending, so that every worker
  sleeps, and the threads are not being joined, every spawned process is blocked or cleaned up, and every
  event its queue accepted has been handled, in the order of acceptance.\<close>

theorem no_lost_wakeup:
  assumes "psteps flt l s {#}" and "passes_terminate flt" and "signals (runq s) = 0" and "\<not> joining_threads s"
    and "spawned (procs s p)"
  shows "pstate (procs s p) \<in> {BLOCKED, TERMINATING} \<and> map fst (handled (procs s p)) = accepted (procs s p)"
proof -
  have inv: "sys_inv s {#}" by (rule psteps_inv [OF assms(1,2)])
  then have "runnable (runq s) = []" using assms(3) by (simp add: sys_inv_def)
  then have "in_runq s p = 0" by (simp add: in_runq_def)
  with sys_inv_proc [OF inv, of p] assms(4,5) show ?thesis
    by (cases "pstate (procs s p)") (auto simp: pinv_defs)
qed

text \<open>C9. Events are handled once and in order. At every moment the events accepted by the queue of a process
  are those already handled, then the one a worker holds, then those queued.\<close>

theorem events_in_order:
  assumes "psteps flt l s F" and "passes_terminate flt"
  shows "accepted (procs s p) = map fst (handled (procs s p)) @ hand_list (procs s p) @ events (equeue (procs s p))"
  using pinvD(4) [OF sys_inv_proc [OF psteps_inv [OF assms], of p]] by (simp add: log_inv_def pending_def)

text \<open>C8. A process is run by one thread at a time. The entries of the run queue for a process and the calls
  that have the right to run it are together at most one.\<close>

theorem single_runner:
  assumes "psteps flt l s F" and "passes_terminate flt"
  shows "count_list (runnable (runq s)) p + size {#f \<in># F. on p f \<and> owner f#} \<le> 1"
proof -
  have "own_inv (procs s p) (filter_mset (on p) F) (in_runq s p) (joining_threads s)"
    by (rule pinvD(1) [OF sys_inv_proc [OF psteps_inv [OF assms]]])
  then show ?thesis by (simp add: own_inv_def owners_def in_runq_def filter_filter_mset conj_commute)
qed

text \<open>C10. The \<^verbatim>\<open>CHECK\<close>s of \<^verbatim>\<open>resume\<close>, of the purge of events, of \<^verbatim>\<open>cleanup\<close> and of the destructor never fail, if the
  installed filter does not drop terminate events.\<close>

theorem process_checks_hold:
  assumes "psteps flt l s (add_mset f F)" and "passes_terminate flt"
  shows "advance flt s F f \<noteq> Abort c"
  using sys_inv_advance [OF psteps_inv [OF assms] assms(2)] by auto

text \<open>C11. No use after free. A call in progress, the run queue and the map of processes only refer to process
  objects that have not been deleted.\<close>

theorem no_use_after_free:
  assumes "psteps flt l s F" and "passes_terminate flt" and "freed (procs s p)"
  shows "(\<forall>f\<in>#F. \<not> on p f) \<and> p \<notin> set (runnable (runq s)) \<and> (\<forall>i. processes s i \<noteq> Some p)"
proof -
  have inv: "sys_inv s F" by (rule psteps_inv [OF assms(1,2)])
  have "filter_mset (on p) F = {#} \<and> in_runq s p = 0 \<and> \<not> registered s p"
    using pinvD(5) [OF sys_inv_proc [OF inv, of p]] assms(3) by (cases "spawned (procs s p)") (simp_all add: life_inv_def)
  moreover have "processes s i = Some p \<Longrightarrow> registered s p" for i
    using inv by (auto simp: sys_inv_def registered_def)
  ultimately show ?thesis by (auto simp: filter_mset_none in_runq_def count_list_0_iff)
qed

text \<open>The \<^verbatim>\<open>CHECK\<close> of the destructor also holds when the owner of an unmanaged process destroys it.\<close>

lemma destructor_check_holds:
  assumes "psteps flt l s F" and "passes_terminate flt" and "destroy_call p s = Some (s', fs)"
  shows "destructible (procs s p)"
proof -
  have "life_inv (procs s p) (filter_mset (on p) F) (in_runq s p) (registered s p)"
    using pinvD(5) [OF sys_inv_proc [OF psteps_inv [OF assms(1,2)], of p]] .
  moreover have "\<not> spawned (procs s p) \<or> gate (procs s p)" using assms(3) by (auto simp: destroy_call_def gate_wait_def split: if_splits)
  moreover have "pstate ((new_process i)\<lparr>freed := b\<rparr>) = BOTTOM" for i b by (simp add: new_process_def)
  ultimately show ?thesis unfolding life_inv_def destructible_def by metis
qed

text \<open> Delivery happens before handling on a paused clock: the clock of the receiver is at least the sender's, and
  never turned back, when the event is about to be enqueued.\<close>

theorem delivery_happens_before:
  assumes "paused (clk s)" and "do_call s F (Deliver (Some q) pid e) = Some (s', [Send p e])"
  shows "snd (clock_now (Some q) (clk s)) \<le> snd (clock_now (Some p) (clk s'))
    \<and> snd (clock_now (Some p) (clk s)) \<le> snd (clock_now (Some p) (clk s'))"
proof -
  have "clk s' = clock_order q p (clk s)"
    using assms by (auto simp: deliver_call_def catch_up_def clock_order_def split: option.splits prod.splits)
  moreover have "snd (clock_now (Some q) (clk s)) \<le> snd (clock_now (Some p) (clock_order q p (clk s)))"
      "snd (clock_now (Some p) (clk s)) \<le> snd (clock_now (Some p) (clock_order q p (clk s)))"
    using assms(1) by (auto simp: clock_order_def clock_update_process_def clock_now_def split: option.splits)
  ultimately show ?thesis by simp
qed

section \<open>Witnesses and observations\<close>

text \<open>A script of calls and of choices of the frame to advance.\<close>

fun script :: "(proc \<Rightarrow> pevent \<Rightarrow> bool) \<Rightarrow> (call + nat) list \<Rightarrow> sys \<times> frame list \<Rightarrow> (sys \<times> frame list) option" where
  "script flt [] c = Some c"
| "script flt (Inl a # as) (s, fs) =
    (case do_call s (mset fs) a of Some (s', new) \<Rightarrow> script flt as (s', fs @ new) | None \<Rightarrow> None)"
| "script flt (Inr i # as) (s, fs) =
    (if i < length fs
     then (case advance flt s (mset (take i fs @ drop (Suc i) fs)) (fs ! i) of
         Next s' new \<Rightarrow> script flt as (s', take i fs @ drop (Suc i) fs @ new) | _ \<Rightarrow> None)
     else None)"

lemma script_psteps:
  "psteps flt l s (mset fs) \<Longrightarrow> script flt as (s, fs) = Some (s', fs') \<Longrightarrow> psteps flt l s' (mset fs')"
proof (induction as arbitrary: s fs)
  case (Cons a as)
  show ?case
  proof (cases a)
    case (Inl c)
    then obtain s1 new where "do_call s (mset fs) c = Some (s1, new)" "script flt as (s1, fs @ new) = Some (s', fs')"
      using Cons.prems(2) by (auto split: option.splits)
    with Cons.IH [of s1 "fs @ new"] p_call [OF Cons.prems(1)] show ?thesis by simp
  next
    case (Inr i)
    then obtain s1 new where i: "i < length fs"
        "advance flt s (mset (take i fs @ drop (Suc i) fs)) (fs ! i) = Next s1 new"
        "script flt as (s1, take i fs @ drop (Suc i) fs @ new) = Some (s', fs')"
      using Cons.prems(2) by (auto split: if_splits advanced_to.splits)
    have "fs = take i fs @ fs ! i # drop (Suc i) fs" using i(1) by (rule id_take_nth_drop)
    then have "mset fs = add_mset (fs ! i) (mset (take i fs @ drop (Suc i) fs))"
      by (metis mset.simps(2) mset_append union_mset_add_mset_right)
    with Cons.prems(1) i(2) have "psteps flt l s1 (mset (take i fs @ drop (Suc i) fs) + mset new)"
      by (auto intro: p_advance)
    then have "psteps flt l s1 (mset (take i fs @ drop (Suc i) fs @ new))" by (simp add: add.assoc)
    from Cons.IH [OF this i(3)] show ?thesis .
  qed
qed simp

definition after :: "(proc \<Rightarrow> pevent \<Rightarrow> bool) \<Rightarrow> (call + nat) list \<Rightarrow> sys \<times> frame list" where
  "after flt as = the (script flt as (sys_init 0, []))"

lemma after_psteps:
  assumes "script flt as (sys_init 0, []) \<noteq> None"
  shows "psteps flt 0 (fst (after flt as)) (mset (snd (after flt as)))"
proof -
  have "script flt as (sys_init 0, []) = Some (fst (after flt as), snd (after flt as))"
    using assms by (simp add: after_def)
  from script_psteps [OF _ this, of 0] p_start [of flt 0] show ?thesis by simp
qed

definition no_filter :: "proc \<Rightarrow> pevent \<Rightarrow> bool" where
  "no_filter p e = False"

lemma no_filter_passes: "passes_terminate no_filter"
  by (simp add: passes_terminate_def no_filter_def)

text \<open>One process is spawned, an event is delivered to it, a worker serves it and the process blocks.\<close>

definition one_event :: "(call + nat) list" where
  "one_event = [Inl (Construct None 7), Inl (Spawn None 0 True), Inr 0, Inr 0, Inr 0,
     Inl (Deliver None (7, None) (MessageEvent 1)), Inr 0, Inr 0, Inr 0, Inr 0,
     Inl WaitRun, Inr 0, Inr 0, Inr 0, Inr 0, Inr 0, Inr 0, Inr 0, Inr 0, Inr 0, Inr 0]"

lemma one_event_runs: "script no_filter one_event (sys_init 0, []) \<noteq> None" "snd (after no_filter one_event) = []"
  by code_simp+

lemma one_event_psteps: "psteps no_filter 0 (fst (after no_filter one_event)) {#}"
  using after_psteps [OF one_event_runs(1)] by (simp add: one_event_runs(2))

theorem no_lost_wakeup_witness:
  "pstate (procs (fst (after no_filter one_event)) 0) \<in> {BLOCKED, TERMINATING}
   \<and> map fst (handled (procs (fst (after no_filter one_event)) 0)) = [MessageEvent 1]"
proof -
  have "signals (runq (fst (after no_filter one_event))) = 0" and "\<not> joining_threads (fst (after no_filter one_event))"
    and "spawned (procs (fst (after no_filter one_event)) 0)"
    and "accepted (procs (fst (after no_filter one_event)) 0) = [MessageEvent 1]"
    by code_simp+
  with no_lost_wakeup [OF one_event_psteps no_filter_passes, of 0] show ?thesis by simp
qed

text \<open>The same run, stopped while the worker serves the event and a second one has been enqueued.\<close>

definition busy :: "(call + nat) list" where
  "busy = [Inl (Construct None 7), Inl (Spawn None 0 True), Inr 0, Inr 0, Inr 0,
     Inl (Deliver None (7, None) (MessageEvent 1)), Inr 0, Inr 0, Inr 0, Inr 0,
     Inl WaitRun, Inr 0, Inr 0, Inr 0, Inr 0, Inr 0, Inl (Deliver None (7, None) (DispatchEvent 2)), Inr 1, Inr 1]"

lemma busy_runs: "script no_filter busy (sys_init 0, []) \<noteq> None"
  "snd (after no_filter busy) = [Worker (Filtering (MessageEvent 1) False) 0 True, SendTermination 0 False]"
  by code_simp+

lemma busy_psteps:
  "psteps no_filter 0 (fst (after no_filter busy))
     {#Worker (Filtering (MessageEvent 1) False) 0 True, SendTermination 0 False#}"
  using after_psteps [OF busy_runs(1)] by (simp add: busy_runs(2))

theorem events_in_order_witness:
  "accepted (procs (fst (after no_filter busy)) 0) = [MessageEvent 1, DispatchEvent 2]"
proof -
  have "map fst (handled (procs (fst (after no_filter busy)) 0)) @ hand_list (procs (fst (after no_filter busy)) 0)
      @ events (equeue (procs (fst (after no_filter busy)) 0)) = [MessageEvent 1, DispatchEvent 2]"
    by code_simp
  with events_in_order [OF busy_psteps no_filter_passes, of 0] show ?thesis by simp
qed

theorem single_runner_witness:
  "size {#f \<in># {#Worker (Filtering (MessageEvent 1) False) 0 True, SendTermination 0 False#}. on 0 f \<and> owner f#} \<le> 1
   \<and> 0 \<notin> set (runnable (runq (fst (after no_filter busy))))"
proof -
  have "count_list (runnable (runq (fst (after no_filter busy)))) 0 = 0"
    using single_runner [OF busy_psteps no_filter_passes, of 0] by simp
  then show ?thesis by (simp add: count_list_0_iff)
qed

theorem process_checks_hold_witness:
  "\<forall>c. advance no_filter (fst (after no_filter busy)) {#SendTermination 0 False#}
     (Worker (Filtering (MessageEvent 1) False) 0 True) \<noteq> Abort c"
  using process_checks_hold [OF busy_psteps no_filter_passes] by blast

text \<open>A managed process is terminated and deleted.\<close>

definition killed :: "(call + nat) list" where
  "killed = [Inl (Construct None 7), Inl (Spawn None 0 True), Inr 0, Inr 0, Inr 0,
     Inl (Deliver None (7, None) (TerminateEvent True)), Inr 0, Inr 0, Inr 0, Inr 0,
     Inl WaitRun] @ replicate 13 (Inr 0)"

lemma killed_runs: "script no_filter killed (sys_init 0, []) \<noteq> None" "snd (after no_filter killed) = []"
  by code_simp+

lemma killed_psteps: "psteps no_filter 0 (fst (after no_filter killed)) {#}"
  using after_psteps [OF killed_runs(1)] by (simp add: killed_runs(2))

theorem no_use_after_free_witness:
  "freed (procs (fst (after no_filter killed)) 0) \<and> (\<forall>i. processes (fst (after no_filter killed)) i \<noteq> Some 0)"
proof -
  have "freed (procs (fst (after no_filter killed)) 0)" by code_simp
  with no_use_after_free [OF killed_psteps no_filter_passes this] show ?thesis by blast
qed

definition two_procs :: sys where
  "two_procs = (fst (after no_filter one_event))\<lparr>clk := (clock_init 0)\<lparr>paused := True, currents := [0 \<mapsto> 5, 1 \<mapsto> 50]\<rparr>\<rparr>"

theorem delivery_happens_before_witness:
  "\<exists>s'. do_call two_procs {#} (Deliver (Some 1) (7, None) (MessageEvent 3)) = Some (s', [Send 0 (MessageEvent 3)])
     \<and> 50 \<le> snd (clock_now (Some 0) (clk s'))"
proof -
  have "use two_procs {#} (7, None) = Some (Some 0)" and "paused (clk two_procs)"
    and "snd (clock_now (Some 1) (clk two_procs)) = 50"
    by code_simp+
  then show ?thesis using delivery_happens_before [of two_procs "{#}" 1 "(7, None)" "MessageEvent 3" _ 0] by (auto simp: deliver_call_def)
qed

text \<open>If a filter drops an injected terminate event before the sender has stored the flag \<^verbatim>\<open>termination\<close>, the next
  event starts a purge of an empty queue and the \<^verbatim>\<open>CHECK\<close> fails.\<close>

definition drop_terminate :: "proc \<Rightarrow> pevent \<Rightarrow> bool" where
  "drop_terminate p e = is_terminate e"

definition dropped :: "(call + nat) list" where
  "dropped = [Inl (Construct None 7), Inl (Spawn None 0 True), Inr 0, Inr 0, Inr 0, Inl WaitRun, Inr 0, Inr 0, Inr 0,
     Inl (Deliver None (7, None) (TerminateEvent True)), Inr 1, Inr 1, Inr 0, Inr 1, Inr 1, Inr 0,
     Inl (Deliver None (7, None) (MessageEvent 1)), Inr 2, Inr 2, Inr 0, Inr 2]"

theorem filtered_terminate_aborts:
  "\<exists>s f F. psteps drop_terminate 0 s (add_mset f F) \<and> advance drop_terminate s F f = Abort CheckEvent"
proof -
  have r: "script drop_terminate dropped (sys_init 0, []) \<noteq> None" by code_simp
  let ?s = "fst (after drop_terminate dropped)" and ?fs = "snd (after drop_terminate dropped)"
  have fs: "?fs = [SendState 0, SendTermination 0 False, Worker (Purging (MessageEvent 1)) 0 True]" by code_simp
  have "advance drop_terminate ?s {#SendState 0, SendTermination 0 False#} (Worker (Purging (MessageEvent 1)) 0 True) = Abort CheckEvent"
  proof -
    have "events (equeue (procs ?s 0)) = []" by code_simp
    then show ?thesis by (simp add: eq_dequeue_def)
  qed
  moreover have "psteps drop_terminate 0 ?s (add_mset (Worker (Purging (MessageEvent 1)) 0 True) {#SendState 0, SendTermination 0 False#})"
    using after_psteps [OF r] unfolding fs by (simp add: add_mset_commute)
  ultimately show ?thesis by blast
qed

text \<open>The lock-free event queue accepts events after it has been decommissioned; the other one does not.\<close>

theorem lock_free_queue_stays_open:
  "snd (eq_enqueue e (fst (lf_decomission q))) \<and> \<not> snd (eq_enqueue e (fst (eq_decomission q)))"
  by (simp add: eq_enqueue_def lf_decomission_def eq_decomission_def)

end
