(* ===== verification/Links.thy ===== *)
theory Links
  imports Prelude
begin

text \<open>
  The links of the socket manager (\<^verbatim>\<open>SocketManager::links\<close> in \<^verbatim>\<open>src/socket_manager.hpp\<close>, \<^verbatim>\<open>link\<close> and both \<^verbatim>\<open>exited\<close>
  in \<^verbatim>\<open>src/process.cpp\<close>). The code keeps a relation between linkers (processes) and linkees (\<^verbatim>\<open>UPID\<close>s) in three maps:
  by linkee, by linker and, for remote linkees, by address. The maps are modelled with their keys and
  with every \<^verbatim>\<open>CHECK\<close>; the lemmas show that they refine operations on one relation, that no
  \<^verbatim>\<open>CHECK\<close> fails and which exited events are delivered.
\<close>

section \<open>State and operations\<close>

type_synonym addr = nat
type_synonym linkee = "nat \<times> addr"
type_synonym linker = nat

record links =
  linkers :: "linkee \<Rightarrow> linker list option"
  linkees :: "linker \<Rightarrow> linkee list option"
  remotes :: "addr \<Rightarrow> linkee list option"

definition links_empty :: links where
  "links_empty = \<lparr>linkers = (\<lambda>_. None), linkees = (\<lambda>_. None), remotes = (\<lambda>_. None)\<rparr>"

text \<open>An exited event: the linker, the linkee that exited and the time the linker's clock was updated to, if it was.\<close>

type_synonym exit_event = "linker \<times> linkee \<times> nat option"

datatype link_check = CheckLinkers | CheckLinkees | CheckRemotes | CheckSelfLink

text \<open>\<^verbatim>\<open>map[k].insert(x)\<close>, creating the entry if there is none.\<close>

definition insert_at :: "'k \<Rightarrow> 'x \<Rightarrow> ('k \<Rightarrow> 'x list option) \<Rightarrow> 'k \<Rightarrow> 'x list option" where
  "insert_at k x m = m(k \<mapsto> List.insert x (case m k of None \<Rightarrow> [] | Some xs \<Rightarrow> xs))"

text \<open>\<^verbatim>\<open>map[k].erase(x)\<close>, erasing the entry when it becomes empty; \<open>None\<close> if there is no entry.\<close>

definition erase_at :: "'k \<Rightarrow> 'x \<Rightarrow> ('k \<Rightarrow> 'x list option) \<Rightarrow> ('k \<Rightarrow> 'x list option) option" where
  "erase_at k x m = (case m k of
     None \<Rightarrow> None
   | Some xs \<Rightarrow> Some (let xs' = removeAll x xs in if xs' = [] then m(k := None) else m(k \<mapsto> xs')))"

text \<open>The last part of \<^verbatim>\<open>SocketManager::link\<close>; \<open>self\<close> is the address of this node.\<close>

definition add_link :: "addr \<Rightarrow> linker \<Rightarrow> linkee \<Rightarrow> links \<Rightarrow> links" where
  "add_link self p to L =
    (let L1 = L\<lparr>linkers := insert_at to p (linkers L), linkees := insert_at p to (linkees L)\<rparr>
     in if snd to \<noteq> self then L1\<lparr>remotes := insert_at (snd to) to (remotes L1)\<rparr> else L1)"

text \<open>
  The loop over the linkers of \<open>u\<close>: an exited event for each and the removal of \<open>u\<close> from its linkees.
  In \<^verbatim>\<open>exited(ProcessBase*)\<close>, \<open>w = Some (process, time)\<close>: the loop checks that the linker is not the process
  and updates the linker's clock to the time before it delivers; \<open>None\<close> in \<^verbatim>\<open>exited(Address)\<close>.
\<close>

fun notify :: "(linker \<times> nat) option \<Rightarrow> linkee \<Rightarrow> linker list \<Rightarrow> links \<Rightarrow> link_check + links \<times> exit_event list" where
  "notify w u [] L = Inr (L, [])"
| "notify w u (p # ps) L =
    (if map_option fst w = Some p then Inl CheckSelfLink
     else case erase_at p u (linkees L) of
       None \<Rightarrow> Inl CheckLinkees
     | Some m \<Rightarrow> (case notify w u ps (L\<lparr>linkees := m\<rparr>) of
         Inl c \<Rightarrow> Inl c
       | Inr (L', ev) \<Rightarrow> Inr (L', (p, u, map_option snd w) # ev)))"

fun exited_linkees :: "linkee list \<Rightarrow> links \<Rightarrow> link_check + links \<times> exit_event list" where
  "exited_linkees [] L = Inr (L, [])"
| "exited_linkees (u # us) L =
    (case linkers L u of
       None \<Rightarrow> Inl CheckLinkers
     | Some ps \<Rightarrow> (case notify None u ps L of
         Inl c \<Rightarrow> Inl c
       | Inr (L1, ev1) \<Rightarrow> (case exited_linkees us (L1\<lparr>linkers := (linkers L1)(u := None)\<rparr>) of
           Inl c \<Rightarrow> Inl c
         | Inr (L2, ev2) \<Rightarrow> Inr (L2, ev1 @ ev2))))"

definition exited_address :: "addr \<Rightarrow> links \<Rightarrow> link_check + links \<times> exit_event list" where
  "exited_address a L = (case remotes L a of
     None \<Rightarrow> Inr (L, [])
   | Some us \<Rightarrow> (case exited_linkees us L of
       Inl c \<Rightarrow> Inl c
     | Inr (L1, ev) \<Rightarrow> Inr (L1\<lparr>remotes := (remotes L1)(a := None)\<rparr>, ev)))"

text \<open>The first half of \<^verbatim>\<open>exited(ProcessBase*)\<close>: the process is removed as a linker of \<open>us\<close>.\<close>

fun forget_linker :: "addr \<Rightarrow> linker \<Rightarrow> linkee list \<Rightarrow> links \<Rightarrow> link_check + links" where
  "forget_linker self p [] L = Inr L"
| "forget_linker self p (u # us) L =
    (case erase_at u p (linkers L) of
       None \<Rightarrow> Inl CheckLinkers
     | Some m \<Rightarrow>
         let L1 = L\<lparr>linkers := m\<rparr> in
         if m u = None \<and> snd u \<noteq> self
         then (case erase_at (snd u) u (remotes L1) of
             None \<Rightarrow> Inl CheckRemotes
           | Some r \<Rightarrow> forget_linker self p us (L1\<lparr>remotes := r\<rparr>))
         else forget_linker self p us L1)"

definition forget_process :: "addr \<Rightarrow> linker \<Rightarrow> links \<Rightarrow> link_check + links" where
  "forget_process self p L = (case linkees L p of
     None \<Rightarrow> Inr L
   | Some us \<Rightarrow> (case forget_linker self p us L of
       Inl c \<Rightarrow> Inl c
     | Inr L1 \<Rightarrow> Inr (L1\<lparr>linkees := (linkees L1)(p := None)\<rparr>)))"

definition exited_process :: "addr \<Rightarrow> linker \<Rightarrow> linkee \<Rightarrow> nat \<Rightarrow> links \<Rightarrow> link_check + links \<times> exit_event list" where
  "exited_process self p pid time L = (case forget_process self p L of
     Inl c \<Rightarrow> Inl c
   | Inr L1 \<Rightarrow> (case linkers L1 pid of
       None \<Rightarrow> Inr (L1, [])
     | Some ps \<Rightarrow> (case notify (Some (p, time)) pid ps L1 of
         Inl c \<Rightarrow> Inl c
       | Inr (L2, ev) \<Rightarrow> Inr (L2\<lparr>linkers := (linkers L2)(pid := None)\<rparr>, ev))))"

section \<open>The relation\<close>

definition entries :: "('k \<Rightarrow> 'x list option) \<Rightarrow> 'k \<Rightarrow> 'x list" where
  "entries m k = (case m k of None \<Rightarrow> [] | Some xs \<Rightarrow> xs)"

definition rel :: "links \<Rightarrow> (linker \<times> linkee) set" where
  "rel L = {(p, u). u \<in> set (entries (linkees L) p)}"

text \<open>No entry is empty or has duplicates.\<close>

definition tidy :: "('k \<Rightarrow> 'x list option) \<Rightarrow> bool" where
  "tidy m \<longleftrightarrow> (\<forall>k xs. m k = Some xs \<longrightarrow> xs \<noteq> [] \<and> distinct xs)"

definition links_inv :: "addr \<Rightarrow> links \<Rightarrow> bool" where
  "links_inv self L \<longleftrightarrow> tidy (linkers L) \<and> tidy (linkees L) \<and> tidy (remotes L)
     \<and> (\<forall>p u. p \<in> set (entries (linkers L) u) \<longleftrightarrow> u \<in> set (entries (linkees L) p))
     \<and> (\<forall>u a. u \<in> set (entries (remotes L) a) \<longleftrightarrow> a \<noteq> self \<and> snd u = a \<and> entries (linkers L) u \<noteq> [])"

declare split_paired_All [simp del] split_paired_Ex [simp del]

lemma rel_mem: "(p, u) \<in> rel L \<longleftrightarrow> u \<in> set (entries (linkees L) p)"
  by (simp add: rel_def)

subsection \<open>Maps of lists\<close>

lemma insert_at_same: "insert_at k x m k = Some (List.insert x (entries m k))"
  by (simp add: insert_at_def entries_def)
lemma insert_at_other: "k' \<noteq> k \<Longrightarrow> insert_at k x m k' = m k'"
  by (simp add: insert_at_def)
lemma entries_insert_at [simp]: "set (entries (insert_at k x m) k') = (if k' = k then insert x (set (entries m k)) else set (entries m k'))"
proof (cases "k' = k")
  case True
  have "entries (insert_at k x m) k = List.insert x (entries m k)" by (simp add: entries_def [of "insert_at k x m"] insert_at_same)
  then show ?thesis using True by simp
next
  case False
  then show ?thesis by (simp add: entries_def insert_at_other)
qed

lemma insert_not_Nil [simp]: "List.insert x xs \<noteq> []"
  by (cases xs) (auto simp: List.insert_def)

lemma tidy_insert_at [intro]: "tidy m \<Longrightarrow> tidy (insert_at k x m)"
  by (cases "m k") (auto simp: tidy_def insert_at_def)

lemma entries_none [simp]: "entries (m(k := None)) k' = (if k' = k then [] else entries m k')"
  by (simp add: entries_def)

lemma tidy_none [intro]: "tidy m \<Longrightarrow> tidy (m(k := None))"
  by (auto simp: tidy_def)

lemma entries_distinct [intro]: "tidy m \<Longrightarrow> distinct (entries m k)"
  by (auto simp: tidy_def entries_def split: option.split)

lemma tidy_key: "tidy m \<Longrightarrow> m k = None \<longleftrightarrow> entries m k = []"
  by (auto simp: tidy_def entries_def split: option.split)

lemma entries_some: "x \<in> set (entries m k) \<Longrightarrow> m k = Some (entries m k)"
  by (cases "m k") (simp_all add: entries_def)

text \<open>What \<open>erase_at\<close> does when the entry is there.\<close>

lemma erase_at_some:
  assumes "tidy m" and "x \<in> set (entries m k)"
  shows "\<exists>m'. erase_at k x m = Some m' \<and> tidy m'
    \<and> (\<forall>k'. entries m' k' = (if k' = k then removeAll x (entries m k) else entries m k'))"
proof -
  let ?xs = "removeAll x (entries m k)"
  let ?m = "if ?xs = [] then m(k := None) else m(k \<mapsto> ?xs)"
  have "erase_at k x m = Some ?m"
    using entries_some [OF assms(2)] by (simp add: erase_at_def Let_def)
  moreover have "tidy ?m"
    using assms(1) entries_distinct [OF assms(1), of k] by (auto simp: tidy_def distinct_removeAll)
  moreover have "entries ?m k' = (if k' = k then ?xs else entries m k')" for k'
    by (simp add: entries_def)
  ultimately show ?thesis by blast
qed

subsection \<open>Linking\<close>

lemma links_inv_entries:
  assumes "links_inv self L"
  shows "p \<in> set (entries (linkers L) u) \<longleftrightarrow> u \<in> set (entries (linkees L) p)"
    and "u \<in> set (entries (remotes L) a) \<longleftrightarrow> a \<noteq> self \<and> snd u = a \<and> entries (linkers L) u \<noteq> []"
  using assms unfolding links_inv_def by blast+

lemma links_invI:
  assumes "tidy (linkers L)" and "tidy (linkees L)" and "tidy (remotes L)"
    and "\<And>p u. p \<in> set (entries (linkers L) u) \<longleftrightarrow> u \<in> set (entries (linkees L) p)"
    and "\<And>u a. u \<in> set (entries (remotes L) a) \<longleftrightarrow> a \<noteq> self \<and> snd u = a \<and> entries (linkers L) u \<noteq> []"
  shows "links_inv self L"
  using assms unfolding links_inv_def by blast

lemma links_inv_tidy: "links_inv self L \<Longrightarrow> tidy (linkers L) \<and> tidy (linkees L) \<and> tidy (remotes L)"
  by (simp add: links_inv_def)

lemma links_inv_empty: "links_inv self links_empty"
  by (simp add: links_inv_def links_empty_def tidy_def rel_def entries_def)

lemma add_link_maps:
  "linkers (add_link self p to L) = insert_at to p (linkers L)"
  "linkees (add_link self p to L) = insert_at p to (linkees L)"
  "remotes (add_link self p to L) = (if snd to \<noteq> self then insert_at (snd to) to (remotes L) else remotes L)"
  by (simp_all add: add_link_def Let_def)

lemma add_link_rel: "rel (add_link self p to L) = insert (p, to) (rel L)"
  by (auto simp: rel_def add_link_maps split: if_splits)

lemma add_link_inv:
  assumes inv: "links_inv self L"
  shows "links_inv self (add_link self p to L)"
proof (rule links_invI)
  note e = links_inv_entries [OF inv] and t = links_inv_tidy [OF inv]
  have ne: "entries (insert_at to p (linkers L)) u \<noteq> [] \<longleftrightarrow> u = to \<or> entries (linkers L) u \<noteq> []" for u
    by (simp flip: set_empty)
  show "q \<in> set (entries (linkers (add_link self p to L)) u) \<longleftrightarrow> u \<in> set (entries (linkees (add_link self p to L)) q)" for q u
    using e(1) by (auto simp: add_link_maps)
  show "u \<in> set (entries (remotes (add_link self p to L)) a)
      \<longleftrightarrow> a \<noteq> self \<and> snd u = a \<and> entries (linkers (add_link self p to L)) u \<noteq> []" for u a
    unfolding add_link_maps ne using e(2) by auto
qed (use links_inv_tidy [OF inv] in \<open>auto simp: add_link_maps\<close>)

subsection \<open>Notifying\<close>

lemma notify_some:
  assumes "tidy (linkees L)" and "distinct ps" and "\<forall>p\<in>set ps. map_option fst w \<noteq> Some p" and "\<forall>p\<in>set ps. u \<in> set (entries (linkees L) p)"
  shows "\<exists>m. notify w u ps L = Inr (L\<lparr>linkees := m\<rparr>, map (\<lambda>p. (p, u, map_option snd w)) ps) \<and> tidy m
    \<and> (\<forall>q. set (entries m q) = (if q \<in> set ps then set (entries (linkees L) q) - {u} else set (entries (linkees L) q)))"
  using assms
proof (induction ps arbitrary: L)
  case Nil
  then show ?case by (auto intro!: exI [of _ "linkees L"])
next
  case (Cons p ps)
  then obtain m where m: "erase_at p u (linkees L) = Some m" "tidy m"
      "\<forall>q. entries m q = (if q = p then removeAll u (entries (linkees L) p) else entries (linkees L) q)"
    using erase_at_some [of "linkees L" u p] by auto
  have "\<forall>q\<in>set ps. u \<in> set (entries (linkees (L\<lparr>linkees := m\<rparr>)) q)" using Cons.prems m(3) by auto
  with Cons.IH [of "L\<lparr>linkees := m\<rparr>"] Cons.prems m(2) obtain m' where
      "notify w u ps (L\<lparr>linkees := m\<rparr>) = Inr (L\<lparr>linkees := m'\<rparr>, map (\<lambda>p. (p, u, map_option snd w)) ps)" "tidy m'"
      "\<forall>q. set (entries m' q) = (if q \<in> set ps then set (entries m q) - {u} else set (entries m q))"
    by auto
  with m Cons.prems(2,3) show ?case by (intro exI [of _ m']) auto
qed

lemma exited_linkees_some:
  assumes "tidy (linkers L)" and "tidy (linkees L)" and "distinct us"
    and "\<forall>u\<in>set us. entries (linkers L) u \<noteq> []"
    and "\<forall>u\<in>set us. \<forall>p. p \<in> set (entries (linkers L) u) \<longleftrightarrow> u \<in> set (entries (linkees L) p)"
  shows "\<exists>L' ev. exited_linkees us L = Inr (L', ev) \<and> tidy (linkers L') \<and> tidy (linkees L') \<and> remotes L' = remotes L
    \<and> (\<forall>u. entries (linkers L') u = (if u \<in> set us then [] else entries (linkers L) u))
    \<and> (\<forall>q. set (entries (linkees L') q) = set (entries (linkees L) q) - set us)
    \<and> distinct ev \<and> set ev = {(p, u, None) |p u. u \<in> set us \<and> p \<in> set (entries (linkers L) u)}"
  using assms
proof (induction us arbitrary: L)
  case Nil
  then show ?case by simp
next
  case (Cons u us)
  let ?ps = "entries (linkers L) u"
  have ps: "linkers L u = Some ?ps" "distinct ?ps"
    using Cons.prems(4) tidy_key [OF Cons.prems(1), of u] entries_distinct [OF Cons.prems(1), of u]
    by (auto simp: entries_def split: option.splits)
  have "\<forall>p\<in>set ?ps. u \<in> set (entries (linkees L) p)" using Cons.prems(5) by auto
  from notify_some [OF Cons.prems(2) ps(2) _ this, of None] obtain m where m:
      "notify None u ?ps L = Inr (L\<lparr>linkees := m\<rparr>, map (\<lambda>p. (p, u, None)) ?ps)" "tidy m"
      "\<forall>q. set (entries m q) = (if q \<in> set ?ps then set (entries (linkees L) q) - {u} else set (entries (linkees L) q))"
    by auto
  let ?L = "L\<lparr>linkees := m, linkers := (linkers L)(u := None)\<rparr>"
  have m': "set (entries m q) = set (entries (linkees L) q) - {u}" for q
    using m(3) Cons.prems(5) by auto
  have L: "linkees ?L = m" "linkers ?L = (linkers L)(u := None)" "remotes ?L = remotes L" by simp_all
  have pre: "tidy (linkers ?L)" "tidy (linkees ?L)" "distinct us"
      "\<forall>v\<in>set us. entries (linkers ?L) v \<noteq> []"
      "\<forall>v\<in>set us. \<forall>p. p \<in> set (entries (linkers ?L) v) \<longleftrightarrow> v \<in> set (entries (linkees ?L) p)"
    unfolding L using Cons.prems m(2) m' by (simp_all add: tidy_none entries_none del: fun_upd_apply) auto
  obtain L' ev where IH: "exited_linkees us ?L = Inr (L', ev)" "tidy (linkers L')" "tidy (linkees L')" "remotes L' = remotes L"
      "\<forall>v. entries (linkers L') v = (if v \<in> set us then [] else entries (linkers ?L) v)"
      "\<forall>q. set (entries (linkees L') q) = set (entries m q) - set us"
      "distinct ev" "set ev = {(p, v, None) |p v. v \<in> set us \<and> p \<in> set (entries (linkers ?L) v)}"
    using Cons.IH [OF pre] unfolding L by blast
  have "exited_linkees (u # us) L = Inr (L', map (\<lambda>p. (p, u, None)) ?ps @ ev)"
    using ps(1) m(1) IH(1) by simp
  moreover have "distinct (map (\<lambda>p. (p, u, None)) ?ps @ ev)"
    using ps(2) IH(7,8) Cons.prems(3) by (auto simp: distinct_map inj_on_def)
  moreover have "set (map (\<lambda>p. (p, u, None)) ?ps @ ev) = {(p, v, None) |p v. v \<in> set (u # us) \<and> p \<in> set (entries (linkers L) v)}"
    unfolding set_append IH(8) L entries_none using Cons.prems(3) by (fastforce split: if_splits)
  ultimately show ?case
    using IH(2-7) m' L by (intro exI [of _ L'] exI [of _ "map (\<lambda>p. (p, u, None)) ?ps @ ev"]) auto
qed

lemma forget_linker_some:
  assumes "tidy (linkers L)" and "tidy (remotes L)" and "distinct us"
    and "\<forall>u\<in>set us. p \<in> set (entries (linkers L) u)"
    and "\<forall>a u. u \<in> set (entries (remotes L) a) \<longleftrightarrow> a \<noteq> self \<and> snd u = a \<and> entries (linkers L) u \<noteq> []"
  shows "\<exists>m r. forget_linker self p us L = Inr (L\<lparr>linkers := m, remotes := r\<rparr>) \<and> tidy m \<and> tidy r
    \<and> (\<forall>u. entries m u = (if u \<in> set us then removeAll p (entries (linkers L) u) else entries (linkers L) u))
    \<and> (\<forall>a u. u \<in> set (entries r a) \<longleftrightarrow> a \<noteq> self \<and> snd u = a \<and> entries m u \<noteq> [])"
  using assms
proof (induction us arbitrary: L)
  case Nil
  then show ?case by (auto intro!: exI [of _ "linkers L"] exI [of _ "remotes L"])
next
  case (Cons u us)
  obtain m where m: "erase_at u p (linkers L) = Some m" "tidy m"
      "\<And>v. entries m v = (if v = u then removeAll p (entries (linkers L) u) else entries (linkers L) v)"
    using erase_at_some [OF Cons.prems(1), of p u] Cons.prems(4) by auto
  have key: "m u = None \<longleftrightarrow> entries m u = []" by (rule tidy_key [OF m(2)])
  have p_in: "\<forall>v\<in>set us. p \<in> set (entries m v)" using Cons.prems(3,4) m(3) by auto
  have full: "entries (linkers L) u \<noteq> []" using Cons.prems(4) by auto
  show ?case
  proof (cases "m u = None \<and> snd u \<noteq> self")
    case True
    have "u \<in> set (entries (remotes L) (snd u))" using True full Cons.prems(5) by blast
    then obtain r where r: "erase_at (snd u) u (remotes L) = Some r" "tidy r"
        "\<And>a. entries r a = (if a = snd u then removeAll u (entries (remotes L) a) else entries (remotes L) a)"
      using erase_at_some [OF Cons.prems(2), of u "snd u"] by auto
    have "\<forall>a v. v \<in> set (entries r a) \<longleftrightarrow> a \<noteq> self \<and> snd v = a \<and> entries m v \<noteq> []"
      using Cons.prems(5) True key m(3) r(3) by (auto split: if_splits)
    then obtain m' r' where "forget_linker self p us (L\<lparr>linkers := m, remotes := r\<rparr>) = Inr (L\<lparr>linkers := m', remotes := r'\<rparr>)"
        "tidy m'" "tidy r'" "\<forall>v. entries m' v = (if v \<in> set us then removeAll p (entries m v) else entries m v)"
        "\<forall>a v. v \<in> set (entries r' a) \<longleftrightarrow> a \<noteq> self \<and> snd v = a \<and> entries m' v \<noteq> []"
      using Cons.IH [of "L\<lparr>linkers := m, remotes := r\<rparr>"] m(2) r(2) Cons.prems(3) p_in by auto
    moreover have "forget_linker self p (u # us) L = forget_linker self p us (L\<lparr>linkers := m, remotes := r\<rparr>)"
      using m(1) r(1) True by (simp add: Let_def)
    ultimately show ?thesis using m(3) by (intro exI [of _ m'] exI [of _ r']) auto
  next
    case False
    have "\<forall>a v. v \<in> set (entries (remotes L) a) \<longleftrightarrow> a \<noteq> self \<and> snd v = a \<and> entries m v \<noteq> []"
      using Cons.prems(5) False key full m(3) by (auto split: if_splits)
    then obtain m' r' where "forget_linker self p us (L\<lparr>linkers := m\<rparr>) = Inr (L\<lparr>linkers := m', remotes := r'\<rparr>)"
        "tidy m'" "tidy r'" "\<forall>v. entries m' v = (if v \<in> set us then removeAll p (entries m v) else entries m v)"
        "\<forall>a v. v \<in> set (entries r' a) \<longleftrightarrow> a \<noteq> self \<and> snd v = a \<and> entries m' v \<noteq> []"
      using Cons.IH [of "L\<lparr>linkers := m\<rparr>"] m(2) Cons.prems(2,3) p_in by auto
    moreover have "forget_linker self p (u # us) L = forget_linker self p us (L\<lparr>linkers := m\<rparr>)"
      using m(1) False by (auto simp: Let_def)
    ultimately show ?thesis using m(3) by (intro exI [of _ m'] exI [of _ r']) auto
  qed
qed

subsection \<open>The operations on the relation\<close>

lemma exited_address_some:
  assumes inv: "links_inv self L"
  shows "\<exists>L' ev. exited_address a L = Inr (L', ev) \<and> links_inv self L'
    \<and> rel L' = {(p, u) \<in> rel L. snd u \<noteq> a \<or> a = self}
    \<and> distinct ev \<and> set ev = {(p, u, None) |p u. (p, u) \<in> rel L \<and> snd u = a \<and> a \<noteq> self}"
proof (cases "remotes L a")
  case None
  then have "\<nexists>u. u \<in> set (entries (remotes L) a)" by (simp add: entries_def)
  then have "snd u \<noteq> a \<or> a = self" if "(p, u) \<in> rel L" for p u
    using links_inv_entries [OF inv] that unfolding rel_mem by (metis empty_iff list.set(1))
  with None inv show ?thesis by (auto simp: exited_address_def)
next
  case (Some us)
  have us: "us = entries (remotes L) a" using Some by (simp add: entries_def)
  note t = links_inv_tidy [OF inv] and e = links_inv_entries [OF inv]
  have mem: "u \<in> set us \<longleftrightarrow> a \<noteq> self \<and> snd u = a \<and> entries (linkers L) u \<noteq> []" for u
    using us e(2) by simp
  have pre: "tidy (linkers L)" "tidy (linkees L)" "distinct us" "\<forall>u\<in>set us. entries (linkers L) u \<noteq> []"
      "\<forall>u\<in>set us. \<forall>p. p \<in> set (entries (linkers L) u) \<longleftrightarrow> u \<in> set (entries (linkees L) p)"
    using mem t e(1) entries_distinct [of "remotes L" a] us by auto
  obtain L1 ev where r: "exited_linkees us L = Inr (L1, ev)" "tidy (linkers L1)" "tidy (linkees L1)" "remotes L1 = remotes L"
      "\<And>u. entries (linkers L1) u = (if u \<in> set us then [] else entries (linkers L) u)"
      "\<And>q. set (entries (linkees L1) q) = set (entries (linkees L) q) - set us"
      "distinct ev" "set ev = {(p, u, None) |p u. u \<in> set us \<and> p \<in> set (entries (linkers L) u)}"
    using exited_linkees_some [OF pre] by blast
  let ?L = "L1\<lparr>remotes := (remotes L1)(a := None)\<rparr>"
  have "links_inv self ?L"
  proof (rule links_invI)
    fix u b
    show "u \<in> set (entries (remotes ?L) b) \<longleftrightarrow> b \<noteq> self \<and> snd u = b \<and> entries (linkers ?L) u \<noteq> []"
      using e(2) [of u b] mem [of u] by (simp add: r(4,5) entries_none del: fun_upd_apply)
  next
    fix p u
    show "p \<in> set (entries (linkers ?L) u) \<longleftrightarrow> u \<in> set (entries (linkees ?L) p)"
      using e(1) [of p u] by (simp add: r(5,6))
  qed (use t r(2-4) in \<open>simp_all add: tidy_none del: fun_upd_apply\<close>)
  moreover have ne: "u \<in> set us \<longleftrightarrow> snd u = a \<and> a \<noteq> self" if "(p, u) \<in> rel L" for p u
    using mem [of u] e(1) [of p u] that unfolding rel_mem by (metis empty_iff list.set(1))
  then have "rel ?L = {(p, u) \<in> rel L. snd u \<noteq> a \<or> a = self}"
    unfolding rel_def by (auto simp: r(6))
  moreover have "set ev = {(p, u, None) |p u. (p, u) \<in> rel L \<and> snd u = a \<and> a \<noteq> self}"
    unfolding r(8) rel_mem e(1) using ne unfolding rel_mem by blast
  ultimately show ?thesis using Some r(1,7) by (auto simp: exited_address_def)
qed

lemma exited_linkees_remotes: "exited_linkees us L = Inr (L', ev) \<Longrightarrow> remotes L' = remotes L"
proof (induction us arbitrary: L ev)
  case Nil
  then show ?case by simp
next
  case (Cons u us)
  have n: "notify w v ps K = Inr (K', ev') \<Longrightarrow> remotes K' = remotes K" for w v ps K K' ev'
    by (induction w v ps K arbitrary: ev' rule: notify.induct) (auto split: if_splits option.splits sum.splits)
  from Cons.prems show ?case
    by (auto split: option.splits sum.splits dest!: Cons.IH n)
qed

lemma exited_address_remotes:
  assumes "exited_address a L = Inr (L', ev)"
  shows "remotes L' b = (if b = a then None else remotes L b)"
  using assms by (auto simp: exited_address_def exited_linkees_remotes split: option.splits sum.splits)

lemma forget_process_some:
  assumes inv: "links_inv self L"
  shows "\<exists>L'. forget_process self p L = Inr L' \<and> links_inv self L' \<and> rel L' = {(q, u) \<in> rel L. q \<noteq> p}"
proof (cases "linkees L p")
  case None
  then have "q \<noteq> p" if "(q, u) \<in> rel L" for q u using that by (auto simp: rel_mem entries_def)
  with None inv show ?thesis by (auto simp: forget_process_def)
next
  case (Some us)
  note t = links_inv_tidy [OF inv] and e = links_inv_entries [OF inv]
  have us: "us = entries (linkees L) p" using Some by (simp add: entries_def)
  have "\<forall>u\<in>set us. p \<in> set (entries (linkers L) u)" "distinct us"
    using e(1) t entries_distinct us by auto
  then obtain m r where f: "forget_linker self p us L = Inr (L\<lparr>linkers := m, remotes := r\<rparr>)" "tidy m" "tidy r"
      "\<And>u. entries m u = (if u \<in> set us then removeAll p (entries (linkers L) u) else entries (linkers L) u)"
      "\<And>a u. u \<in> set (entries r a) \<longleftrightarrow> a \<noteq> self \<and> snd u = a \<and> entries m u \<noteq> []"
    using forget_linker_some [of L us p self] t e(2) by blast
  let ?L = "L\<lparr>linkers := m, remotes := r, linkees := (linkees L)(p := None)\<rparr>"
  have m: "set (entries m u) = set (entries (linkers L) u) - {p}" for u
    using f(4) [of u] e(1) [of p u] us by auto
  have "links_inv self ?L"
  proof (rule links_invI)
    show "q \<in> set (entries (linkers ?L) u) \<longleftrightarrow> u \<in> set (entries (linkees ?L) q)" for q u
      using m [of u] e(1) [of q u] by (simp add: entries_none del: fun_upd_apply)
  qed (use t f in \<open>simp_all add: tidy_none del: fun_upd_apply\<close>)
  moreover have "rel ?L = {(q, u) \<in> rel L. q \<noteq> p}"
    unfolding rel_def by (auto simp: entries_none simp del: fun_upd_apply split: if_splits)
  ultimately show ?thesis using Some f(1) by (simp add: forget_process_def)
qed

lemma exited_process_some:
  assumes inv: "links_inv self L" and local: "snd pid = self"
  shows "\<exists>L' ev. exited_process self p pid time L = Inr (L', ev) \<and> links_inv self L'
    \<and> rel L' = {(q, u) \<in> rel L. q \<noteq> p \<and> u \<noteq> pid}
    \<and> distinct ev \<and> set ev = {(q, pid, Some time) |q. (q, pid) \<in> rel L \<and> q \<noteq> p}"
proof -
  obtain L1 where L1: "forget_process self p L = Inr L1" "links_inv self L1" "rel L1 = {(q, u) \<in> rel L. q \<noteq> p}"
    using forget_process_some [OF inv] by blast
  note t = links_inv_tidy [OF L1(2)] and e = links_inv_entries [OF L1(2)]
  have rel1: "(q, u) \<in> rel L1 \<longleftrightarrow> (q, u) \<in> rel L \<and> q \<noteq> p" for q u by (simp add: L1(3))
  have mem: "q \<in> set (entries (linkers L1) pid) \<longleftrightarrow> (q, pid) \<in> rel L \<and> q \<noteq> p" for q
    using e(1) [of q pid] rel1 [of q pid] by (simp add: rel_mem)
  show ?thesis
  proof (cases "linkers L1 pid")
    case None
    then have "entries (linkers L1) pid = []" by (simp add: entries_def)
    then have no: "\<not> ((q, pid) \<in> rel L \<and> q \<noteq> p)" for q using mem by simp
    have "rel L1 = {(q, u) \<in> rel L. q \<noteq> p \<and> u \<noteq> pid}" using L1(3) no by blast
    moreover have "set [] = {(q, pid, Some time) |q. (q, pid) \<in> rel L \<and> q \<noteq> p}" using no by auto
    ultimately show ?thesis using L1(1,2) None by (simp add: exited_process_def)
  next
    case (Some ps)
    then have ps: "ps = entries (linkers L1) pid" by (simp add: entries_def)
    have pre: "tidy (linkees L1)" "distinct ps" "\<forall>q\<in>set ps. map_option fst (Some (p, time)) \<noteq> Some q"
        "\<forall>q\<in>set ps. pid \<in> set (entries (linkees L1) q)"
      using t entries_distinct ps mem e(1) by auto
    obtain m where m: "notify (Some (p, time)) pid ps L1 = Inr (L1\<lparr>linkees := m\<rparr>, map (\<lambda>q. (q, pid, Some time)) ps)" "tidy m"
        "\<And>q. set (entries m q) = (if q \<in> set ps then set (entries (linkees L1) q) - {pid} else set (entries (linkees L1) q))"
      using notify_some [OF pre] by auto
    let ?L = "L1\<lparr>linkees := m, linkers := (linkers L1)(pid := None)\<rparr>"
    have m': "set (entries m q) = set (entries (linkees L1) q) - {pid}" for q
      using m(3) [of q] e(1) [of q pid] ps by auto
    have "links_inv self ?L"
    proof (rule links_invI)
      show "q \<in> set (entries (linkers ?L) u) \<longleftrightarrow> u \<in> set (entries (linkees ?L) q)" for q u
        using m' [of q] e(1) [of q u] by (simp add: entries_none del: fun_upd_apply)
      show "u \<in> set (entries (remotes ?L) a) \<longleftrightarrow> a \<noteq> self \<and> snd u = a \<and> entries (linkers ?L) u \<noteq> []" for u a
        using e(2) [of u a] local by (auto simp: entries_none simp del: fun_upd_apply)
    qed (use t m(2) in \<open>simp_all add: tidy_none del: fun_upd_apply\<close>)
    moreover have "rel ?L = {(q, u) \<in> rel L. q \<noteq> p \<and> u \<noteq> pid}"
      using rel1 m' unfolding rel_def by auto
    moreover have "distinct (map (\<lambda>q. (q, pid, Some time)) ps)"
      using pre(2) by (simp add: distinct_map inj_on_def)
    moreover have "set (map (\<lambda>q. (q, pid, Some time)) ps) = {(q, pid, Some time) |q. (q, pid) \<in> rel L \<and> q \<noteq> p}"
      using mem ps by auto
    ultimately show ?thesis using L1(1) Some m(1) by (simp add: exited_process_def)
  qed
qed

section \<open>Refinement\<close>

text \<open>
  The calls, in the order in which they take the mutex. The process that exits has the address of the node.
\<close>

datatype link_call =
  Link linker linkee
| ExitedAddress addr
| ExitedProcess linker nat nat

fun links_call :: "addr \<Rightarrow> link_call \<Rightarrow> links \<Rightarrow> link_check + links \<times> exit_event list" where
  "links_call self (Link p to) L = Inr (add_link self p to L, [])"
| "links_call self (ExitedAddress a) L = exited_address a L"
| "links_call self (ExitedProcess p i time) L = exited_process self p (i, self) time L"

fun links_calls :: "addr \<Rightarrow> link_call list \<Rightarrow> links \<Rightarrow> link_check + links \<times> exit_event list list" where
  "links_calls self [] L = Inr (L, [])"
| "links_calls self (c # cs) L = (case links_call self c L of
     Inl e \<Rightarrow> Inl e
   | Inr (L1, ev) \<Rightarrow> (case links_calls self cs L1 of
       Inl e \<Rightarrow> Inl e
     | Inr (L2, evs) \<Rightarrow> Inr (L2, ev # evs)))"

text \<open>The specification: one relation, and the set of events of each call.\<close>

fun spec_call :: "addr \<Rightarrow> link_call \<Rightarrow> (linker \<times> linkee) set \<Rightarrow> (linker \<times> linkee) set \<times> exit_event set" where
  "spec_call self (Link p to) S = (insert (p, to) S, {})"
| "spec_call self (ExitedAddress a) S =
    ({(p, u) \<in> S. snd u \<noteq> a \<or> a = self}, {(p, u, None) |p u. (p, u) \<in> S \<and> snd u = a \<and> a \<noteq> self})"
| "spec_call self (ExitedProcess p i time) S =
    ({(q, u) \<in> S. q \<noteq> p \<and> u \<noteq> (i, self)}, {(q, (i, self), Some time) |q. (q, (i, self)) \<in> S \<and> q \<noteq> p})"

fun spec_calls :: "addr \<Rightarrow> link_call list \<Rightarrow> (linker \<times> linkee) set \<Rightarrow> (linker \<times> linkee) set \<times> exit_event set list" where
  "spec_calls self [] S = (S, [])"
| "spec_calls self (c # cs) S =
    (let (S1, E) = spec_call self c S; (S2, Es) = spec_calls self cs S1 in (S2, E # Es))"

lemma links_call_refines:
  assumes "links_inv self L"
  shows "\<exists>L' ev. links_call self c L = Inr (L', ev) \<and> links_inv self L' \<and> rel L' = fst (spec_call self c (rel L))
    \<and> distinct ev \<and> set ev = snd (spec_call self c (rel L))"
proof (cases c)
  case (Link p to)
  with assms show ?thesis by (simp add: add_link_inv add_link_rel)
next
  case (ExitedAddress a)
  with exited_address_some [OF assms, of a] show ?thesis by simp
next
  case (ExitedProcess p i time)
  with exited_process_some [OF assms, of "(i, self)" p time] show ?thesis by simp
qed

lemma links_calls_refine:
  assumes "links_inv self L"
  shows "\<exists>L' evs. links_calls self cs L = Inr (L', evs) \<and> links_inv self L' \<and> rel L' = fst (spec_calls self cs (rel L))
    \<and> list_all2 (\<lambda>ev E. distinct ev \<and> set ev = E) evs (snd (spec_calls self cs (rel L)))"
  using assms
proof (induction cs arbitrary: L)
  case Nil
  then show ?case by simp
next
  case (Cons c cs)
  obtain L1 ev where 1: "links_call self c L = Inr (L1, ev)" "links_inv self L1"
      "rel L1 = fst (spec_call self c (rel L))" "distinct ev" "set ev = snd (spec_call self c (rel L))"
    using links_call_refines [OF Cons.prems, of c] by blast
  obtain L2 evs where "links_calls self cs L1 = Inr (L2, evs)" "links_inv self L2" "rel L2 = fst (spec_calls self cs (rel L1))"
      "list_all2 (\<lambda>ev E. distinct ev \<and> set ev = E) evs (snd (spec_calls self cs (rel L1)))"
    using Cons.IH [OF 1(2)] by blast
  with 1 show ?case by (simp add: Let_def case_prod_unfold)
qed

lemma rel_empty [simp]: "rel links_empty = {}"
  by (simp add: rel_def links_empty_def entries_def)

text \<open>C15.
  The three maps of links implement one relation between processes and the UPIDs they linked to: for every sequence
  of calls to link and to both exited, no CHECK fails, the maps are consistent with each other and with
  the relation of the specification (no empty entry stays behind), and each call delivers exactly one exited event to
  every linker of what exited, and to nobody else. When a process exits, its own links are forgotten first, so
  it is never notified of its own exit, and the linkers' clocks are updated to its time.
\<close>

theorem links_refine:
  "\<exists>L evs. links_calls self cs links_empty = Inr (L, evs) \<and> links_inv self L
    \<and> rel L = fst (spec_calls self cs {})
    \<and> list_all2 (\<lambda>ev E. distinct ev \<and> set ev = E) evs (snd (spec_calls self cs {}))"
  using links_calls_refine [OF links_inv_empty, of self cs] by simp

end
