(* ===== verification/Socket_Manager.thy ===== *)
theory Socket_Manager
  imports Links
begin

text \<open>
  The socket manager (\<^verbatim>\<open>src/socket_manager.hpp\<close> and \<^verbatim>\<open>SocketManager\<close> in \<^verbatim>\<open>src/process.cpp\<close>): which sockets are open,
  which of them are persistent or temporary connections to an address, the encoders queued on each of them, the
  HTTP proxies and the links. One definition per method, each the body of its synchronized blocks. What a method does after
  it released the mutex (connecting, sending, receiving) is a frame of the asynchronous computation that
  continues it; \<open>net_step\<close> interleaves the frames and the calls of clients.
\<close>

section \<open>State\<close>

type_synonym fd = nat

datatype kind = POLL | SSL

text \<open>A message is its content and the address it goes to.\<close>

type_synonym message = "nat \<times> addr"

datatype encoder = MessageEncoder message | HttpResponseEncoder nat

record socket_manager =
  sockets :: "fd \<Rightarrow> kind option"
  disposed :: "fd \<Rightarrow> bool"
  addresses :: "fd \<Rightarrow> addr option"
  temps :: "addr \<Rightarrow> fd option"
  persists :: "addr \<Rightarrow> fd option"
  outgoing :: "fd \<Rightarrow> encoder list option"
  proxies :: "fd \<Rightarrow> nat option"
  sm_links :: links

definition sm_init :: socket_manager where
  "sm_init = \<lparr>sockets = (\<lambda>_. None), disposed = (\<lambda>_. False), addresses = (\<lambda>_. None), temps = (\<lambda>_. None),
     persists = (\<lambda>_. None), outgoing = (\<lambda>_. None), proxies = (\<lambda>_. None), sm_links = links_empty\<rparr>"

text \<open>The \<^verbatim>\<open>CHECK\<close>s; \<open>CheckAt\<close> is the \<^verbatim>\<open>at\<close> of a map that has no such key.\<close>

datatype sm_check =
  CheckAccepted | CheckLinkSocket | CheckAt | CheckSendSocket | CheckSendCreate | CheckNextOutgoing | CheckNextTemps
| CheckSwapFrom | CheckSwapTo | CheckSwapAddress | CheckLinks link_check

datatype sm_effect =
  Deliver exit_event | Shutdown fd | Delete encoder | Terminate nat

text \<open>\<^verbatim>\<open>emplace\<close>, and \<^verbatim>\<open>map[k]\<close> as a statement: an existing entry is kept.\<close>

definition emplace :: "'k \<Rightarrow> 'v \<Rightarrow> ('k \<Rightarrow> 'v option) \<Rightarrow> 'k \<Rightarrow> 'v option" where
  "emplace k v m = (case m k of None \<Rightarrow> m(k \<mapsto> v) | Some _ \<Rightarrow> m)"

section \<open>Methods\<close>

definition sm_accepted :: "fd \<Rightarrow> kind \<Rightarrow> socket_manager \<Rightarrow> sm_check + socket_manager" where
  "sm_accepted s k M =
    (if sockets M s \<noteq> None then Inl CheckAccepted else Inr (M\<lparr>sockets := emplace s k (sockets M)\<rparr>))"

definition swap_implementing_socket :: "fd \<Rightarrow> fd \<Rightarrow> kind \<Rightarrow> socket_manager \<Rightarrow> sm_check + socket_manager" where
  "swap_implementing_socket from to k M =
    (if sockets M from = None then Inl CheckSwapFrom
     else if sockets M to \<noteq> None then Inl CheckSwapTo
     else case addresses M from of
       None \<Rightarrow> Inl CheckSwapAddress
     | Some a \<Rightarrow> Inr (M\<lparr>
         sockets := emplace to k ((sockets M)(from := None)),
         disposed := (if disposed M from then (disposed M)(to := True, from := False) else disposed M),
         addresses := (emplace to a (addresses M))(from := None),
         persists := (if persists M a = Some from then (persists M)(a \<mapsto> to) else persists M),
         temps := (if persists M a \<noteq> Some from \<and> temps M a = Some from then (temps M)(a \<mapsto> to) else temps M),
         outgoing := ((outgoing M)(to \<mapsto> (case outgoing M from of None \<Rightarrow> [] | Some q \<Rightarrow> q)))(from := None),
         proxies := (case proxies M from of
             None \<Rightarrow> proxies M
           | Some p \<Rightarrow> (proxies M)(to \<mapsto> p, from := None))\<rparr>))"

text \<open>
  \<^verbatim>\<open>link\<close>. The result of \<^verbatim>\<open>Socket::create\<close>, if it is called, is \<open>create\<close>. The method returns the socket to connect, if any.
\<close>

definition sm_link ::
  "addr \<Rightarrow> linker \<Rightarrow> linkee \<Rightarrow> bool \<Rightarrow> (fd \<times> kind) option \<Rightarrow> socket_manager
    \<Rightarrow> sm_check + socket_manager \<times> sm_effect list \<times> (fd \<times> kind) option" where
  "sm_link self p to reconnect create M =
    (let linked = (\<lambda>M. M\<lparr>sm_links := add_link self p to (sm_links M)\<rparr>); a = snd to in
     if a = self then Inr (linked M, [], None)
     else case persists M a of
       None \<Rightarrow> (case create of
           None \<Rightarrow> Inr (M, [Deliver (p, to, None)], None)
         | Some (s, k) \<Rightarrow>
             if sockets M s \<noteq> None then Inl CheckLinkSocket
             else Inr (linked (M\<lparr>sockets := emplace s k (sockets M), addresses := emplace s a (addresses M),
                 persists := emplace a s (persists M), outgoing := emplace s [] (outgoing M)\<rparr>), [], Some (s, k)))
     | Some existing \<Rightarrow>
         if \<not> reconnect then Inr (linked M, [], None)
         else case create of
           None \<Rightarrow> Inr (M, [Deliver (p, to, None)], None)
         | Some (s, k) \<Rightarrow>
             if sockets M existing = None then Inl CheckAt
             else case swap_implementing_socket existing s k M of
               Inl c \<Rightarrow> Inl c
             | Inr M1 \<Rightarrow> Inr (linked M1, [Shutdown existing], Some (s, k)))"

definition sm_proxy :: "fd \<Rightarrow> nat \<Rightarrow> socket_manager \<Rightarrow> socket_manager \<times> nat option" where
  "sm_proxy s new M =
    (case sockets M s of
       None \<Rightarrow> (M, None)
     | Some _ \<Rightarrow> (case proxies M s of
         Some p \<Rightarrow> (M, Some p)
       | None \<Rightarrow> (M\<lparr>proxies := (proxies M)(s \<mapsto> new)\<rparr>, Some new)))"

definition sm_unproxy :: "fd \<Rightarrow> socket_manager \<Rightarrow> socket_manager" where
  "sm_unproxy s M = M\<lparr>proxies := (proxies M)(s := None)\<rparr>"

text \<open>What \<^verbatim>\<open>send\<close> decides: the encoder was queued or deleted, is to be sent now, or the socket is to be connected first.\<close>

datatype send_result = Queued fd | Dropped | SendNow fd | ConnectFirst fd kind

definition send_encoder :: "encoder \<Rightarrow> bool \<Rightarrow> fd \<Rightarrow> socket_manager \<Rightarrow> socket_manager \<times> send_result" where
  "send_encoder e persist s M =
    (if sockets M s \<noteq> None then
       let M1 = (if \<not> persist then M\<lparr>disposed := (disposed M)(s := True)\<rparr> else M) in
       case outgoing M1 s of
         Some q \<Rightarrow> (M1\<lparr>outgoing := (outgoing M1)(s \<mapsto> q @ [e])\<rparr>, Queued s)
       | None \<Rightarrow> (M1\<lparr>outgoing := emplace s [] (outgoing M1)\<rparr>, SendNow s)
     else (M, Dropped))"

definition send_message ::
  "message \<Rightarrow> (fd \<times> kind) option \<Rightarrow> socket_manager \<Rightarrow> sm_check + socket_manager \<times> send_result" where
  "send_message m create M =
    (let a = snd m in
     case (case persists M a of Some s \<Rightarrow> Some s | None \<Rightarrow> temps M a) of
       Some s \<Rightarrow>
         if sockets M s = None then Inl CheckSendSocket
         else let M1 = (if persists M a = None then M\<lparr>disposed := (disposed M)(s := True)\<rparr> else M) in
         (case outgoing M1 s of
            Some q \<Rightarrow> Inr (M1\<lparr>outgoing := (outgoing M1)(s \<mapsto> q @ [MessageEncoder m])\<rparr>, Queued s)
          | None \<Rightarrow> Inr (M1\<lparr>outgoing := emplace s [] (outgoing M1)\<rparr>, SendNow s))
     | None \<Rightarrow> (case create of
           None \<Rightarrow> Inr (M, Dropped)
         | Some (s, k) \<Rightarrow>
             if sockets M s \<noteq> None then Inl CheckSendCreate
             else Inr (M\<lparr>sockets := emplace s k (sockets M), addresses := emplace s a (addresses M),
                 temps := emplace a s (temps M), disposed := (disposed M)(s := True),
                 outgoing := emplace s [] (outgoing M)\<rparr>, ConnectFirst s k)))"

definition next_encoder :: "fd \<Rightarrow> socket_manager \<Rightarrow> sm_check + socket_manager \<times> sm_effect list \<times> encoder option" where
  "next_encoder s M =
    (if sockets M s = None then Inr (M, [], None)
     else case outgoing M s of
       None \<Rightarrow> Inl CheckNextOutgoing
     | Some (e # q) \<Rightarrow> Inr (M\<lparr>outgoing := (outgoing M)(s \<mapsto> q)\<rparr>, [], Some e)
     | Some [] \<Rightarrow>
         let M1 = M\<lparr>outgoing := (outgoing M)(s := None)\<rparr> in
         if \<not> disposed M s then Inr (M1, [], None)
         else (case addresses M s of
             Some a \<Rightarrow> if temps M a \<noteq> Some s then Inl CheckNextTemps
               else Inr (M1\<lparr>temps := (temps M)(a := None), addresses := (addresses M)(s := None),
                   proxies := (proxies M)(s := None), disposed := (disposed M)(s := False),
                   sockets := (sockets M)(s := None)\<rparr>,
                 Shutdown s # (case proxies M s of None \<Rightarrow> [] | Some p \<Rightarrow> [Terminate p]), None)
           | None \<Rightarrow> Inr (M1\<lparr>proxies := (proxies M)(s := None), disposed := (disposed M)(s := False),
                   sockets := (sockets M)(s := None)\<rparr>,
                 Shutdown s # (case proxies M s of None \<Rightarrow> [] | Some p \<Rightarrow> [Terminate p]), None)))"

text \<open>The part of \<^verbatim>\<open>close\<close> for a socket of a remote connection.\<close>

definition forget_address :: "fd \<Rightarrow> socket_manager \<Rightarrow> sm_check + socket_manager \<times> sm_effect list" where
  "forget_address s M =
    (case addresses M s of
       None \<Rightarrow> Inr (M, [])
     | Some a \<Rightarrow>
         if persists M a = Some s then
           (case exited_address a (sm_links M) of
              Inl c \<Rightarrow> Inl (CheckLinks c)
            | Inr (L, ev) \<Rightarrow> Inr (M\<lparr>persists := (persists M)(a := None), sm_links := L, addresses := (addresses M)(s := None)\<rparr>, map Deliver ev))
         else Inr (M\<lparr>temps := (if temps M a = Some s then (temps M)(a := None) else temps M),
             addresses := (addresses M)(s := None)\<rparr>, []))"

definition sm_close :: "fd \<Rightarrow> socket_manager \<Rightarrow> sm_check + socket_manager \<times> sm_effect list" where
  "sm_close s M =
    (if sockets M s = None then Inr (M, [])
     else case forget_address s (M\<lparr>outgoing := (outgoing M)(s := None)\<rparr>) of
       Inl c \<Rightarrow> Inl c
     | Inr (M1, ev) \<Rightarrow> Inr (M1\<lparr>proxies := (proxies M1)(s := None), disposed := (disposed M1)(s := False),
           sockets := (sockets M1)(s := None)\<rparr>,
         map Delete (case outgoing M s of None \<Rightarrow> [] | Some q \<Rightarrow> q) @ ev @ Shutdown s #
         (case proxies M s of None \<Rightarrow> [] | Some p \<Rightarrow> [Terminate p])))"

text \<open>The loop of \<^verbatim>\<open>finalize\<close>, over the sockets in the order in which it meets them.\<close>

fun close_all :: "fd list \<Rightarrow> socket_manager \<Rightarrow> sm_check + socket_manager \<times> sm_effect list" where
  "close_all [] M = Inr (M, [])"
| "close_all (s # ss) M = (case sm_close s M of
     Inl c \<Rightarrow> Inl c
   | Inr (M1, ev1) \<Rightarrow> (case close_all ss M1 of
       Inl c \<Rightarrow> Inl c
     | Inr (M2, ev2) \<Rightarrow> Inr (M2, ev1 @ ev2)))"

section \<open>Asynchronous computations\<close>

text \<open>
  What holds a reference to a socket outside of the manager: \<^verbatim>\<open>link_connect\<close> and \<^verbatim>\<open>send_connect\<close> waiting for their connection,
  \<^verbatim>\<open>internal::_send\<close> with an encoder, \<^verbatim>\<open>internal::send\<close> and the end of \<^verbatim>\<open>link_connect\<close> about to call \<^verbatim>\<open>next\<close>,
  \<^verbatim>\<open>ignore_recv_data\<close>, and the users of an accepted socket (its receiver, its proxy).
\<close>

datatype net_frame =
  LinkConnect fd kind linkee
| SendConnect fd kind message
| Sending fd encoder
| CallNext fd
| IgnoreRecv fd
| Client fd

fun frame_fd :: "net_frame \<Rightarrow> fd" where
  "frame_fd (LinkConnect s _ _) = s"
| "frame_fd (SendConnect s _ _) = s"
| "frame_fd (Sending s _) = s"
| "frame_fd (CallNext s) = s"
| "frame_fd (IgnoreRecv s) = s"
| "frame_fd (Client s) = s"

text \<open>
  The manager, the frames, and two histories that the code does not have: per socket, the encoders \<open>taken\<close> for it, in the order
  of the calls to \<^verbatim>\<open>send\<close>, and those whose transmission was \<open>started\<close>.
\<close>

record net =
  mgr :: socket_manager
  frames :: "net_frame list"
  taken :: "fd \<Rightarrow> encoder list"
  started :: "fd \<Rightarrow> encoder list"

definition net_init :: net where
  "net_init = \<lparr>mgr = sm_init, frames = [], taken = (\<lambda>_. []), started = (\<lambda>_. [])\<rparr>"

text \<open>A new socket has a descriptor that no \<^verbatim>\<open>Socket\<close> object refers to.\<close>

definition fresh :: "fd \<Rightarrow> net \<Rightarrow> bool" where
  "fresh s N \<longleftrightarrow> sockets (mgr N) s = None \<and> (\<forall>f\<in>set (frames N). frame_fd f \<noteq> s)"

definition fresh_create :: "(fd \<times> kind) option \<Rightarrow> net \<Rightarrow> bool" where
  "fresh_create create N \<longleftrightarrow> (case create of None \<Rightarrow> True | Some (s, k) \<Rightarrow> fresh s N)"

text \<open>After a swap the histories belong to the new socket; a new socket starts with empty ones.\<close>

definition renew :: "fd \<Rightarrow> net \<Rightarrow> net" where
  "renew s N = N\<lparr>taken := (taken N)(s := []), started := (started N)(s := [])\<rparr>"

definition moved :: "fd \<Rightarrow> fd \<Rightarrow> net \<Rightarrow> net" where
  "moved from to N = N\<lparr>taken := (taken N)(to := taken N from), started := (started N)(to := started N from)\<rparr>"

definition start :: "fd \<Rightarrow> encoder \<Rightarrow> net \<Rightarrow> net" where
  "start s e N = N\<lparr>frames := Sending s e # frames N, started := (started N)(s := started N s @ [e])\<rparr>"

definition take_encoder :: "fd \<Rightarrow> encoder \<Rightarrow> net \<Rightarrow> net" where
  "take_encoder s e N = N\<lparr>taken := (taken N)(s := taken N s @ [e])\<rparr>"

datatype connect_outcome = Connected | ConnectFailed | ConnectDiscarded

text \<open>Calls of clients and steps of the frames.\<close>

datatype net_call =
  Accepted fd kind
| LinkTo linker linkee bool "(fd \<times> kind) option"
| ProcessExited linker nat nat
| Proxy fd nat
| Unproxy fd
| SendEncoder encoder bool fd
| SendMessage message "(fd \<times> kind) option"
| CloseClient fd
| DropClient fd
| LinkConnected fd kind linkee connect_outcome "(fd \<times> kind) option"
| SendConnected fd kind message connect_outcome "(fd \<times> kind) option"
| Sent fd encoder bool
| NextCalled fd
| RecvEnded fd
| FinalizeClose fd

definition resumes :: "net_frame \<Rightarrow> net \<Rightarrow> net" where
  "resumes f N = N\<lparr>frames := remove1 f (frames N)\<rparr>"

definition spawns :: "net_frame \<Rightarrow> net \<Rightarrow> net" where
  "spawns f N = N\<lparr>frames := f # frames N\<rparr>"

definition close_in :: "fd \<Rightarrow> net \<Rightarrow> sm_check + net" where
  "close_in s N = (case sm_close s (mgr N) of Inl c \<Rightarrow> Inl c | Inr (M, ev) \<Rightarrow> Inr (N\<lparr>mgr := M\<rparr>))"

definition attempt_downgrade :: "bool \<Rightarrow> connect_outcome \<Rightarrow> kind \<Rightarrow> bool" where
  "attempt_downgrade ssl_flags out k \<longleftrightarrow> out = ConnectFailed \<and> ssl_flags \<and> k = SSL"

text \<open>\<^verbatim>\<open>link_connect\<close>: \<open>create\<close> is the result of creating a POLL socket, if it is done.\<close>

definition link_connect :: "bool \<Rightarrow> fd \<Rightarrow> kind \<Rightarrow> linkee \<Rightarrow> connect_outcome \<Rightarrow> (fd \<times> kind) option \<Rightarrow> net \<Rightarrow> sm_check + net" where
  "link_connect ssl_flags s k to out create N =
    (if out \<noteq> Connected then
       if attempt_downgrade ssl_flags out k then
         if sockets (mgr N) s = None then Inr N
         else case create of
           None \<Rightarrow> close_in s N
         | Some (s', k') \<Rightarrow> (case swap_implementing_socket s s' k' (mgr N) of
             Inl c \<Rightarrow> Inl c
           | Inr M \<Rightarrow> Inr (spawns (LinkConnect s' k' to) (moved s s' (N\<lparr>mgr := M\<rparr>))))
       else close_in s N
     else if sockets (mgr N) s = None then Inr N
     else Inr (spawns (CallNext s) (spawns (IgnoreRecv s) N)))"

definition send_connect :: "bool \<Rightarrow> fd \<Rightarrow> kind \<Rightarrow> message \<Rightarrow> connect_outcome \<Rightarrow> (fd \<times> kind) option \<Rightarrow> net \<Rightarrow> sm_check + net" where
  "send_connect ssl_flags s k m out create N =
    (if out \<noteq> Connected then
       if attempt_downgrade ssl_flags out k then
         case create of
           None \<Rightarrow> close_in s N
         | Some (s', k') \<Rightarrow> (case swap_implementing_socket s s' k' (mgr N) of
             Inl c \<Rightarrow> Inl c
           | Inr M \<Rightarrow> Inr (spawns (SendConnect s' k' m) (moved s s' (N\<lparr>mgr := M\<rparr>))))
       else close_in s N
     else Inr (start s (MessageEncoder m) (spawns (IgnoreRecv s) N)))"

text \<open>
  One step. A call that is not possible in the state (its frame does not exist, its new socket is not new) leaves the state
  as it is. \<open>self\<close> is the address of the node, \<open>ssl_flags\<close> whether SSL is enabled and may be downgraded.
\<close>

text \<open>
  \<open>FinalizeClose\<close> is one round of the loop of \<^verbatim>\<open>finalize\<close>. It is left out for a socket that \<^verbatim>\<open>send_connect\<close> is connecting, which the code closes as well: that this may abort
  is shown beside the properties.
\<close>

definition send_connecting :: "fd \<Rightarrow> net \<Rightarrow> bool" where
  "send_connecting s N = list_ex (\<lambda>f. case f of SendConnect t _ _ \<Rightarrow> t = s | _ \<Rightarrow> False) (frames N)"

fun net_step :: "addr \<Rightarrow> bool \<Rightarrow> net_call \<Rightarrow> net \<Rightarrow> sm_check + net" where
  "net_step self fl (Accepted s k) N =
    (if fresh s N then (case sm_accepted s k (mgr N) of
        Inl c \<Rightarrow> Inl c
      | Inr M \<Rightarrow> Inr (spawns (Client s) (renew s (N\<lparr>mgr := M\<rparr>))))
     else Inr N)"
| "net_step self fl (LinkTo p to reconnect create) N =
    (if fresh_create create N then (case sm_link self p to reconnect create (mgr N) of
        Inl c \<Rightarrow> Inl c
      | Inr (M, ev, None) \<Rightarrow> Inr (N\<lparr>mgr := M\<rparr>)
      | Inr (M, ev, Some (s, k)) \<Rightarrow>
          Inr (spawns (LinkConnect s k to)
            (case persists (mgr N) (snd to) of None \<Rightarrow> renew s (N\<lparr>mgr := M\<rparr>) | Some old \<Rightarrow> moved old s (N\<lparr>mgr := M\<rparr>))))
     else Inr N)"
| "net_step self fl (ProcessExited p i time) N =
    (case exited_process self p (i, self) time (sm_links (mgr N)) of
       Inl c \<Rightarrow> Inl (CheckLinks c)
     | Inr (L, ev) \<Rightarrow> Inr (N\<lparr>mgr := (mgr N)\<lparr>sm_links := L\<rparr>\<rparr>))"
| "net_step self fl (Proxy s new) N =
    (if Client s \<in> set (frames N) then Inr (N\<lparr>mgr := fst (sm_proxy s new (mgr N))\<rparr>) else Inr N)"
| "net_step self fl (Unproxy s) N = Inr (N\<lparr>mgr := sm_unproxy s (mgr N)\<rparr>)"
| "net_step self fl (SendEncoder e persist s) N =
    (if Client s \<in> set (frames N) then (case send_encoder e persist s (mgr N) of
        (M, SendNow _) \<Rightarrow> Inr (start s e (take_encoder s e (N\<lparr>mgr := M\<rparr>)))
      | (M, Queued _) \<Rightarrow> Inr (take_encoder s e (N\<lparr>mgr := M\<rparr>))
      | (M, _) \<Rightarrow> Inr (N\<lparr>mgr := M\<rparr>))
     else Inr N)"
| "net_step self fl (SendMessage m create) N =
    (if fresh_create create N then (case send_message m create (mgr N) of
        Inl c \<Rightarrow> Inl c
      | Inr (M, Queued s) \<Rightarrow> Inr (take_encoder s (MessageEncoder m) (N\<lparr>mgr := M\<rparr>))
      | Inr (M, SendNow s) \<Rightarrow> Inr (start s (MessageEncoder m) (take_encoder s (MessageEncoder m) (N\<lparr>mgr := M\<rparr>)))
      | Inr (M, ConnectFirst s k) \<Rightarrow>
          Inr (spawns (SendConnect s k m) (take_encoder s (MessageEncoder m) (renew s (N\<lparr>mgr := M\<rparr>))))
      | Inr (M, Dropped) \<Rightarrow> Inr (N\<lparr>mgr := M\<rparr>))
     else Inr N)"
| "net_step self fl (CloseClient s) N = (if Client s \<in> set (frames N) then close_in s N else Inr N)"
| "net_step self fl (DropClient s) N = Inr (resumes (Client s) N)"
| "net_step self fl (LinkConnected s k to out create) N =
    (if LinkConnect s k to \<in> set (frames N) \<and> fresh_create create N
     then link_connect fl s k to out create (resumes (LinkConnect s k to) N) else Inr N)"
| "net_step self fl (SendConnected s k m out create) N =
    (if SendConnect s k m \<in> set (frames N) \<and> fresh_create create N
     then send_connect fl s k m out create (resumes (SendConnect s k m) N) else Inr N)"
| "net_step self fl (Sent s e ok) N =
    (if Sending s e \<in> set (frames N) then
       if ok then Inr (spawns (CallNext s) (resumes (Sending s e) N)) else close_in s (resumes (Sending s e) N)
     else Inr N)"
| "net_step self fl (NextCalled s) N =
    (if CallNext s \<in> set (frames N) then
       (case next_encoder s (mgr N) of
          Inl c \<Rightarrow> Inl c
        | Inr (M, ev, None) \<Rightarrow> Inr (resumes (CallNext s) (N\<lparr>mgr := M\<rparr>))
        | Inr (M, ev, Some e) \<Rightarrow> Inr (start s e (resumes (CallNext s) (N\<lparr>mgr := M\<rparr>))))
     else Inr N)"
| "net_step self fl (RecvEnded s) N =
    (if IgnoreRecv s \<in> set (frames N) then close_in s (resumes (IgnoreRecv s) N) else Inr N)"
| "net_step self fl (FinalizeClose s) N =
    (if sockets (mgr N) s \<noteq> None \<and> \<not> send_connecting s N then close_in s N else Inr N)"

fun net_run :: "addr \<Rightarrow> bool \<Rightarrow> net_call list \<Rightarrow> net \<Rightarrow> sm_check + net" where
  "net_run self fl [] N = Inr N"
| "net_run self fl (c # cs) N = (case net_step self fl c N of Inl e \<Rightarrow> Inl e | Inr N1 \<Rightarrow> net_run self fl cs N1)"

end
