(* ===== verification/Socket_Invariants.thy ===== *)
theory Socket_Invariants
  imports Socket_Manager
begin

text \<open>
  The invariant of the socket manager: the maps agree with each other, every linked address has a persistent connection, every
  socket with a queue has exactly one computation that will drain it, and no encoder is lost, duplicated
  or overtaken. Every method keeps it and none of its \<^verbatim>\<open>CHECK\<close>s fails.
\<close>

section \<open>The maps\<close>

definition sm_inv :: "addr \<Rightarrow> socket_manager \<Rightarrow> bool" where
  "sm_inv self M \<longleftrightarrow> links_inv self (sm_links M)
     \<and> (\<forall>s a. addresses M s = Some a \<longrightarrow> sockets M s \<noteq> None \<and> (persists M a = Some s \<or> temps M a = Some s))
     \<and> (\<forall>a s. persists M a = Some s \<longrightarrow> addresses M s = Some a \<and> \<not> disposed M s)
     \<and> (\<forall>a s. temps M a = Some s \<longrightarrow> addresses M s = Some a \<and> disposed M s)
     \<and> (\<forall>s. disposed M s \<or> outgoing M s \<noteq> None \<or> proxies M s \<noteq> None \<longrightarrow> sockets M s \<noteq> None)
     \<and> (\<forall>a. remotes (sm_links M) a \<noteq> None \<longrightarrow> persists M a \<noteq> None)"

lemma sm_invI:
  assumes "links_inv self (sm_links M)"
    and "\<And>s a. addresses M s = Some a \<Longrightarrow> sockets M s \<noteq> None \<and> (persists M a = Some s \<or> temps M a = Some s)"
    and "\<And>a s. persists M a = Some s \<Longrightarrow> addresses M s = Some a \<and> \<not> disposed M s"
    and "\<And>a s. temps M a = Some s \<Longrightarrow> addresses M s = Some a \<and> disposed M s"
    and "\<And>s. disposed M s \<or> outgoing M s \<noteq> None \<or> proxies M s \<noteq> None \<Longrightarrow> sockets M s \<noteq> None"
    and "\<And>a. remotes (sm_links M) a \<noteq> None \<Longrightarrow> persists M a \<noteq> None"
  shows "sm_inv self M"
  unfolding sm_inv_def using assms by blast

lemma sm_invD:
  assumes "sm_inv self M"
  shows sm_links_inv: "links_inv self (sm_links M)"
    and addressed: "addresses M s = Some a \<Longrightarrow> sockets M s \<noteq> None \<and> (persists M a = Some s \<or> temps M a = Some s)"
    and persistent: "persists M a = Some s \<Longrightarrow> addresses M s = Some a \<and> \<not> disposed M s"
    and temporary: "temps M a = Some s \<Longrightarrow> addresses M s = Some a \<and> disposed M s"
    and known: "disposed M s \<or> outgoing M s \<noteq> None \<or> proxies M s \<noteq> None \<Longrightarrow> sockets M s \<noteq> None"
    and linked_persistent: "remotes (sm_links M) a \<noteq> None \<Longrightarrow> persists M a \<noteq> None"
  using assms unfolding sm_inv_def by blast+

lemma sm_inv_init: "sm_inv self sm_init"
  unfolding sm_init_def by (rule sm_invI) (simp_all add: links_inv_empty, simp add: links_empty_def)

lemma not_addressed:
  assumes "sm_inv self M" and "sockets M s = None"
  shows "addresses M s = None" "\<not> disposed M s" "outgoing M s = None" "proxies M s = None" "persists M a \<noteq> Some s" "temps M a \<noteq> Some s"
  using sm_invD [OF assms(1)] assms(2) by (metis not_None_eq)+

lemma emplace_none [simp]: "m k = None \<Longrightarrow> emplace k v m = m(k \<mapsto> v)"
  by (simp add: emplace_def)

lemma emplace_some [simp]: "m k = Some w \<Longrightarrow> emplace k v m = m"
  by (simp add: emplace_def)

subsection \<open>Each method\<close>

lemma sm_accepted_inv:
  assumes inv: "sm_inv self M" and s: "sockets M s = None"
  shows "sm_accepted s k M = Inr (M\<lparr>sockets := (sockets M)(s \<mapsto> k)\<rparr>)"
    and "sm_inv self (M\<lparr>sockets := (sockets M)(s \<mapsto> k)\<rparr>)"
proof -
  show "sm_accepted s k M = Inr (M\<lparr>sockets := (sockets M)(s \<mapsto> k)\<rparr>)"
    using s by (simp add: sm_accepted_def)
  show "sm_inv self (M\<lparr>sockets := (sockets M)(s \<mapsto> k)\<rparr>)"
    using sm_invD [OF inv] by (intro sm_invI; simp)
qed

lemma sm_inv_outgoing:
  assumes "sm_inv self M" and "\<And>t. m t \<noteq> None \<Longrightarrow> sockets M t \<noteq> None"
  shows "sm_inv self (M\<lparr>outgoing := m\<rparr>)"
  using assms unfolding sm_inv_def by simp

lemma sm_inv_proxies:
  assumes "sm_inv self M" and "\<And>t. m t \<noteq> None \<Longrightarrow> sockets M t \<noteq> None"
  shows "sm_inv self (M\<lparr>proxies := m\<rparr>)"
  using assms unfolding sm_inv_def by simp

lemma sm_inv_disposed:
  assumes "sm_inv self M" and "sockets M s \<noteq> None" and "\<And>a. persists M a \<noteq> Some s"
  shows "sm_inv self (M\<lparr>disposed := (disposed M)(s := True)\<rparr>)"
  using assms unfolding sm_inv_def by simp

lemma sm_inv_links:
  assumes "sm_inv self M" and "links_inv self L" and "\<And>a. remotes L a \<noteq> None \<Longrightarrow> persists M a \<noteq> None"
  shows "sm_inv self (M\<lparr>sm_links := L\<rparr>)"
  using assms unfolding sm_inv_def by simp

text \<open>The state after a swap.\<close>

definition swapped :: "fd \<Rightarrow> fd \<Rightarrow> kind \<Rightarrow> addr \<Rightarrow> socket_manager \<Rightarrow> socket_manager" where
  "swapped from to k a M = M\<lparr>
     sockets := (sockets M)(from := None, to \<mapsto> k),
     disposed := (disposed M)(to := disposed M from, from := False),
     addresses := (addresses M)(from := None, to \<mapsto> a),
     persists := (if persists M a = Some from then (persists M)(a \<mapsto> to) else persists M),
     temps := (if temps M a = Some from then (temps M)(a \<mapsto> to) else temps M),
     outgoing := (outgoing M)(from := None, to \<mapsto> (case outgoing M from of None \<Rightarrow> [] | Some q \<Rightarrow> q)),
     proxies := (proxies M)(to := proxies M from, from := None)\<rparr>"

lemma swap_swapped:
  assumes inv: "sm_inv self M" and a: "addresses M old = Some a" and new: "sockets M new = None"
  shows "swap_implementing_socket old new k M = Inr (swapped old new k a M)"
proof -
  note n = not_addressed [OF inv new] and i = sm_invD [OF inv]
  have ne: "old \<noteq> new" and s: "sockets M old \<noteq> None" using a n(1) i(2) by auto
  have t: "\<not> (persists M a = Some old \<and> temps M a = Some old)" using i(3,4) by blast
  have d: "(if disposed M old then (disposed M)(new := True, old := False) else disposed M)
      = (disposed M)(new := disposed M old, old := False)"
    using n(2) ne by (auto simp: fun_eq_iff)
  have p: "(case proxies M old of None \<Rightarrow> proxies M | Some p \<Rightarrow> (proxies M)(new \<mapsto> p, old := None))
      = (proxies M)(new := proxies M old, old := None)"
    using n(4) ne by (auto simp: fun_eq_iff split: option.split)
  have "swap_implementing_socket old new k M = Inr (M\<lparr>
         sockets := ((sockets M)(old := None))(new \<mapsto> k),
         disposed := (if disposed M old then (disposed M)(new := True, old := False) else disposed M),
         addresses := ((addresses M)(new \<mapsto> a))(old := None),
         persists := (if persists M a = Some old then (persists M)(a \<mapsto> new) else persists M),
         temps := (if persists M a \<noteq> Some old \<and> temps M a = Some old then (temps M)(a \<mapsto> new) else temps M),
         outgoing := ((outgoing M)(new \<mapsto> (case outgoing M old of None \<Rightarrow> [] | Some q \<Rightarrow> q)))(old := None),
         proxies := (case proxies M old of
             None \<Rightarrow> proxies M
           | Some p \<Rightarrow> (proxies M)(new \<mapsto> p, old := None))\<rparr>)"
    using a new s n(1) ne by (simp add: swap_implementing_socket_def)
  then show ?thesis
    unfolding d p swapped_def using t ne by (auto simp: fun_upd_twist)
qed

lemma swapped_inv:
  assumes inv: "sm_inv self M" and a: "addresses M old = Some a" and new: "sockets M new = None"
  shows "sm_inv self (swapped old new k a M)"
proof (rule sm_invI)
  note n = not_addressed [OF inv new] and i = sm_invD [OF inv]
  let ?M = "swapped old new k a M"
  have ne: "old \<noteq> new" using a n(1) by auto
  show "links_inv self (sm_links ?M)" using i(1) by (simp add: swapped_def)
  show "sockets ?M s \<noteq> None \<and> (persists ?M b = Some s \<or> temps ?M b = Some s)" if "addresses ?M s = Some b" for s b
    using that a i(2) [of s b] i(2) [OF a] i(3) [of a old] i(4) [of a old] ne by (auto simp: swapped_def split: if_splits)
  show "addresses ?M s = Some b \<and> \<not> disposed ?M s" if "persists ?M b = Some s" for s b
    using that a i(3) [of b s] i(3) [of a old] n(5) [of b] ne by (auto simp: swapped_def split: if_splits)
  show "addresses ?M s = Some b \<and> disposed ?M s" if "temps ?M b = Some s" for s b
    using that a i(4) [of b s] i(4) [of a old] n(6) [of b] ne by (auto simp: swapped_def split: if_splits)
  show "sockets ?M s \<noteq> None" if "disposed ?M s \<or> outgoing ?M s \<noteq> None \<or> proxies ?M s \<noteq> None" for s
    using that i(5) [of s] by (auto simp: swapped_def split: if_splits)
  show "persists ?M b \<noteq> None" if "remotes (sm_links ?M) b \<noteq> None" for b
    using that i(6) [of b] by (auto simp: swapped_def)
qed

text \<open>Methods that change nothing but one socket.\<close>

definition only :: "fd \<Rightarrow> socket_manager \<Rightarrow> socket_manager \<Rightarrow> bool" where
  "only s M M' \<longleftrightarrow> (\<forall>t. t \<noteq> s \<longrightarrow> sockets M' t = sockets M t \<and> outgoing M' t = outgoing M t \<and> addresses M' t = addresses M t
     \<and> (\<forall>a. temps M a = Some t \<longrightarrow> temps M' a = Some t))"

lemma removed_inv:
  assumes inv: "sm_inv self M" and M': "sockets M' = (sockets M)(s := None)" "addresses M' = (addresses M)(s := None)"
      "disposed M' = (disposed M)(s := False)" "outgoing M' = (outgoing M)(s := None)" "proxies M' = (proxies M)(s := None)"
      "\<And>a t. persists M' a = Some t \<longleftrightarrow> persists M a = Some t \<and> t \<noteq> s"
      "\<And>a t. temps M' a = Some t \<longleftrightarrow> temps M a = Some t \<and> t \<noteq> s"
    and "links_inv self (sm_links M')" and "\<And>a. remotes (sm_links M') a \<noteq> None \<Longrightarrow> persists M' a \<noteq> None"
  shows "sm_inv self M'" and "only s M M'"
proof -
  note i = sm_invD [OF inv]
  show "sm_inv self M'"
  proof (rule sm_invI)
    show "sockets M' t \<noteq> None \<and> (persists M' b = Some t \<or> temps M' b = Some t)" if "addresses M' t = Some b" for t b
      using that i(2) [of t b] by (auto simp: M' split: if_splits)
    show "sockets M' t \<noteq> None" if "disposed M' t \<or> outgoing M' t \<noteq> None \<or> proxies M' t \<noteq> None" for t
      using that i(5) [of t] by (auto simp: M' split: if_splits)
  qed (use assms(9,10) M' i(3,4) in auto)
  show "only s M M'" by (auto simp: only_def M')
qed

lemma next_encoder_cases:
  assumes inv: "sm_inv self M" and q: "sockets M s \<noteq> None \<Longrightarrow> outgoing M s \<noteq> None"
  shows "\<exists>M' ev r. next_encoder s M = Inr (M', ev, r) \<and> sm_inv self M' \<and> only s M M' \<and>
    (case r of
       Some e \<Rightarrow> M' = M\<lparr>outgoing := (outgoing M)(s \<mapsto> tl (the (outgoing M s)))\<rparr> \<and> outgoing M s = Some (e # tl (the (outgoing M s)))
         \<and> sockets M s \<noteq> None
     | None \<Rightarrow> if sockets M s = None then M' = M
         else outgoing M s = Some [] \<and> outgoing M' s = None \<and> sockets M' s = (if disposed M s then None else sockets M s)
           \<and> addresses M' s = (if disposed M s then None else addresses M s))"
proof (cases "sockets M s = None")
  case True
  then show ?thesis using inv by (simp add: next_encoder_def only_def)
next
  case False
  note i = sm_invD [OF inv]
  obtain q where q: "outgoing M s = Some q" using assms(2) False by blast
  show ?thesis
  proof (cases q)
    case (Cons e q')
    have "sm_inv self (M\<lparr>outgoing := (outgoing M)(s \<mapsto> q')\<rparr>)"
      using i(5) False by (intro sm_inv_outgoing [OF inv]) (auto split: if_splits)
    then show ?thesis using q Cons False by (auto simp: next_encoder_def only_def)
  next
    case Nil
    let ?M = "M\<lparr>outgoing := (outgoing M)(s := None)\<rparr>"
    show ?thesis
    proof (cases "disposed M s")
      case d: False
      have "sm_inv self ?M" using i(5) by (intro sm_inv_outgoing [OF inv]) (auto split: if_splits)
      then show ?thesis using q Nil False d by (auto simp: next_encoder_def only_def Let_def)
    next
      case d: True
      show ?thesis
      proof (cases "addresses M s")
        case None
        let ?M' = "?M\<lparr>proxies := (proxies M)(s := None), disposed := (disposed M)(s := False), sockets := (sockets M)(s := None)\<rparr>"
        have "sm_inv self ?M'"
          by (rule removed_inv(1) [OF inv, of _ s]) (use None i(1,3,4,6) in \<open>auto simp: fun_upd_idem\<close>)
        then show ?thesis using q Nil False d None by (auto simp: next_encoder_def only_def Let_def)
      next
        case (Some a)
        let ?M' = "?M\<lparr>temps := (temps M)(a := None), addresses := (addresses M)(s := None),
                   proxies := (proxies M)(s := None), disposed := (disposed M)(s := False), sockets := (sockets M)(s := None)\<rparr>"
        have t: "temps M a = Some s" using i(2) [OF Some] i(3) [of a s] d by blast
        have v: "persists M b = Some r \<longleftrightarrow> persists M b = Some r \<and> r \<noteq> s" for b r using i(3) [of b s] d by blast
        have u: "b \<noteq> a \<Longrightarrow> temps M b \<noteq> Some s" for b using Some i(4) [of b s] by auto
        have w: "((temps M)(a := None)) b = Some r \<longleftrightarrow> temps M b = Some r \<and> r \<noteq> s" for b r
          using t u [of b] by (cases "b = a"; cases "r = s") simp_all
        have "sm_inv self ?M'"
          by (rule removed_inv(1) [OF inv, of _ s]; (simp add: w i(1) i(6) del: fun_upd_apply)?) (rule v)
        then show ?thesis using q Nil False d Some t by (auto simp: next_encoder_def only_def Let_def)
      qed
    qed
  qed
qed

lemma forget_address_cases:
  assumes inv: "sm_inv self M"
  shows "\<exists>M' ev. forget_address s M = Inr (M', ev) \<and> sockets M' = sockets M \<and> addresses M' = (addresses M)(s := None)
    \<and> disposed M' = disposed M \<and> outgoing M' = outgoing M \<and> proxies M' = proxies M
    \<and> links_inv self (sm_links M')
    \<and> (\<forall>a t. persists M' a = Some t \<longleftrightarrow> persists M a = Some t \<and> t \<noteq> s)
    \<and> (\<forall>a t. temps M' a = Some t \<longleftrightarrow> temps M a = Some t \<and> t \<noteq> s)
    \<and> (\<forall>a. remotes (sm_links M') a \<noteq> None \<longrightarrow> persists M' a \<noteq> None)"
proof (cases "addresses M s")
  case None
  then show ?thesis using sm_invD [OF inv] by (fastforce simp: forget_address_def)
next
  case (Some a)
  note i = sm_invD [OF inv]
  show ?thesis
  proof (cases "persists M a = Some s")
    case True
    obtain L ev where L: "exited_address a (sm_links M) = Inr (L, ev)" "links_inv self L"
        "rel L = {(p, u) \<in> rel (sm_links M). snd u \<noteq> a \<or> a = self}"
      using exited_address_some [OF i(1)] by blast
    have r: "remotes L b \<noteq> None \<Longrightarrow> b \<noteq> a \<and> remotes (sm_links M) b \<noteq> None" for b
      using exited_address_remotes [OF L(1), of b] by (simp split: if_splits)
    show ?thesis
      using True Some L r i by (simp add: forget_address_def) (metis option.inject)
  next
    case False
    then have t: "temps M a = Some s" using i(2) [OF Some] by blast
    show ?thesis
      using False Some t i by (simp add: forget_address_def) (metis option.inject)
  qed
qed

lemma sm_close_cases:
  assumes inv: "sm_inv self M"
  shows "\<exists>M' ev. sm_close s M = Inr (M', ev) \<and> sm_inv self M' \<and> only s M M' \<and> sockets M' s = None \<and> addresses M' s = None"
proof (cases "sockets M s = None")
  case True
  then show ?thesis using inv not_addressed [OF inv True] by (simp add: sm_close_def only_def)
next
  case False
  note i = sm_invD [OF inv]
  let ?M = "M\<lparr>outgoing := (outgoing M)(s := None)\<rparr>"
  have "sm_inv self ?M" using i(5) by (intro sm_inv_outgoing [OF inv]) (auto split: if_splits)
  from forget_address_cases [OF this, of s] obtain M1 ev where f: "forget_address s ?M = Inr (M1, ev)"
      "sockets M1 = sockets M" "addresses M1 = (addresses M)(s := None)" "disposed M1 = disposed M"
      "outgoing M1 = (outgoing M)(s := None)" "proxies M1 = proxies M" "links_inv self (sm_links M1)"
      "\<And>a t. persists M1 a = Some t \<longleftrightarrow> persists M a = Some t \<and> t \<noteq> s"
      "\<And>a t. temps M1 a = Some t \<longleftrightarrow> temps M a = Some t \<and> t \<noteq> s"
      "\<And>a. remotes (sm_links M1) a \<noteq> None \<Longrightarrow> persists M1 a \<noteq> None"
    by auto
  let ?M' = "M1\<lparr>proxies := (proxies M1)(s := None), disposed := (disposed M1)(s := False), sockets := (sockets M1)(s := None)\<rparr>"
  have "sm_inv self ?M'" "only s M ?M'"
    using f by (auto intro!: removed_inv [OF inv, of _ s])
  then show ?thesis using f(1,3) False by (auto simp: sm_close_def)
qed

subsection \<open>Proxies and sending\<close>

lemma sm_proxy_inv: "sm_inv self M \<Longrightarrow> sm_inv self (fst (sm_proxy s new M)) \<and> only s M (fst (sm_proxy s new M))
    \<and> sockets (fst (sm_proxy s new M)) = sockets M \<and> outgoing (fst (sm_proxy s new M)) = outgoing M
    \<and> addresses (fst (sm_proxy s new M)) = addresses M \<and> temps (fst (sm_proxy s new M)) = temps M"
  using known [of self M]
  by (auto simp: sm_proxy_def only_def split: option.split if_splits intro!: sm_inv_proxies)

lemma sm_unproxy_inv: "sm_inv self M \<Longrightarrow> sm_inv self (sm_unproxy s M)"
  using known [of self M] by (auto simp: sm_unproxy_def split: if_splits intro!: sm_inv_proxies)

text \<open>Queueing an encoder on an open socket, or giving it a queue.\<close>

definition enqueued :: "bool \<Rightarrow> fd \<Rightarrow> encoder \<Rightarrow> socket_manager \<Rightarrow> socket_manager" where
  "enqueued d s e M = M\<lparr>disposed := (if d then (disposed M)(s := True) else disposed M),
     outgoing := (outgoing M)(s \<mapsto> (case outgoing M s of None \<Rightarrow> [] | Some q \<Rightarrow> q @ [e]))\<rparr>"

lemma enqueued_inv:
  assumes inv: "sm_inv self M" and s: "sockets M s \<noteq> None" and p: "d \<Longrightarrow> persists M a \<noteq> Some s" and "\<And>b. persists M b = Some s \<Longrightarrow> b = a"
  shows "sm_inv self (enqueued d s e M)" and "only s M (enqueued d s e M)"
proof -
  have "sm_inv self (M\<lparr>disposed := (if d then (disposed M)(s := True) else disposed M)\<rparr>)"
    using sm_inv_disposed [OF inv s] p assms(4) inv by (cases d) auto
  then show "sm_inv self (enqueued d s e M)"
    unfolding enqueued_def using s known [OF inv]
    by (drule_tac sm_inv_outgoing [where m = "(outgoing M)(s \<mapsto> (case outgoing M s of None \<Rightarrow> [] | Some q \<Rightarrow> q @ [e]))"])
      (auto split: if_splits)
  show "only s M (enqueued d s e M)" by (simp add: only_def enqueued_def)
qed

lemma send_encoder_enqueued:
  assumes "sockets M s \<noteq> None"
  shows "send_encoder e persist s M
    = (enqueued (\<not> persist) s e M, if outgoing M s = None then SendNow s else Queued s)"
  using assms by (cases "outgoing M s") (simp_all add: send_encoder_def enqueued_def Let_def)

lemma send_message_cases:
  assumes inv: "sm_inv self M" and new: "\<forall>s k. create = Some (s, k) \<longrightarrow> sockets M s = None"
  shows "(\<exists>s d. sockets M s \<noteq> None \<and> addresses M s = Some (snd m) \<and> sm_inv self (enqueued d s (MessageEncoder m) M)
      \<and> send_message m create M = Inr (enqueued d s (MessageEncoder m) M, if outgoing M s = None then SendNow s else Queued s))
    \<or> send_message m create M = Inr (M, Dropped)
    \<or> (\<exists>s k M'. create = Some (s, k) \<and> send_message m create M = Inr (M', ConnectFirst s k) \<and> sm_inv self M' \<and> only s M M'
        \<and> sockets M' s = Some k \<and> outgoing M' s = Some [] \<and> addresses M' s = Some (snd m) \<and> temps M' (snd m) = Some s)"
proof -
  note i = sm_invD [OF inv]
  let ?a = "snd m"
  show ?thesis
  proof (cases "case persists M ?a of Some s \<Rightarrow> Some s | None \<Rightarrow> temps M ?a")
    case (Some s)
    let ?d = "persists M ?a = None"
    have a: "addresses M s = Some ?a" using Some i(3,4) by (auto split: option.splits)
    then have s: "sockets M s \<noteq> None" using i(2) by blast
    have u: "persists M b = Some s \<Longrightarrow> b = ?a" for b using a i(3) by fastforce
    have "sm_inv self (enqueued ?d s (MessageEncoder m) M)"
      by (rule enqueued_inv(1) [OF inv s _ u]) auto
    moreover have "send_message m create M
        = Inr (enqueued ?d s (MessageEncoder m) M, if outgoing M s = None then SendNow s else Queued s)"
      using Some s by (cases "outgoing M s") (simp_all add: send_message_def enqueued_def Let_def)
    ultimately show ?thesis using s a by blast
  next
    case None
    then have p: "persists M ?a = None" "temps M ?a = None" by (auto split: option.splits)
    show ?thesis
    proof (cases create)
      case c: None
      then show ?thesis using p by (simp add: send_message_def)
    next
      case c: (Some sk)
      obtain s k where sk: "sk = (s, k)" by (cases sk)
      have s: "sockets M s = None" using new c sk by blast
      note n = not_addressed [OF inv s]
      let ?M = "M\<lparr>sockets := (sockets M)(s \<mapsto> k), addresses := (addresses M)(s \<mapsto> ?a), temps := (temps M)(?a \<mapsto> s),
          disposed := (disposed M)(s := True), outgoing := (outgoing M)(s \<mapsto> [])\<rparr>"
      have "sm_inv self ?M"
        using i n p by (intro sm_invI; simp) (auto split: if_splits; metis)+
      moreover have "send_message m create M = Inr (?M, ConnectFirst s k)"
        using c sk s n p by (simp add: send_message_def Let_def)
      moreover have "only s M ?M" using n p by (auto simp: only_def)
      ultimately show ?thesis using c sk by auto
    qed
  qed
qed

subsection \<open>Linking\<close>

lemma add_link_remotes: "remotes (add_link self p to L) b \<noteq> None \<Longrightarrow> b = snd to \<and> b \<noteq> self \<or> remotes L b \<noteq> None"
  by (auto simp: add_link_maps insert_at_def split: if_splits)

lemma sm_inv_add_link:
  assumes inv: "sm_inv self M" and p: "snd to \<noteq> self \<Longrightarrow> persists M (snd to) \<noteq> None"
  shows "sm_inv self (M\<lparr>sm_links := add_link self p to (sm_links M)\<rparr>)"
  using add_link_remotes linked_persistent [OF inv] p
  by (intro sm_inv_links [OF inv] add_link_inv sm_links_inv [OF inv]) blast

text \<open>The four outcomes of \<^verbatim>\<open>link\<close>: nothing to connect, no socket could be created, a new connection, a reconnection.\<close>

lemma sm_link_cases:
  assumes inv: "sm_inv self M" and new: "\<forall>s k. create = Some (s, k) \<longrightarrow> sockets M s = None"
  shows "(\<exists>M' ev. sm_link self p to reconnect create M = Inr (M', ev, None) \<and> sm_inv self M' \<and> sockets M' = sockets M
      \<and> outgoing M' = outgoing M \<and> addresses M' = addresses M \<and> temps M' = temps M)
    \<or> (\<exists>s k M'. create = Some (s, k) \<and> sm_link self p to reconnect create M = Inr (M', [], Some (s, k)) \<and> persists M (snd to) = None
      \<and> sm_inv self M' \<and> only s M M' \<and> sockets M' s = Some k \<and> outgoing M' s = Some [] \<and> addresses M' s = Some (snd to))
    \<or> (\<exists>s k old. create = Some (s, k) \<and> persists M (snd to) = Some old \<and> addresses M old = Some (snd to)
      \<and> sm_link self p to reconnect create M
        = Inr ((swapped old s k (snd to) M)\<lparr>sm_links := add_link self p to (sm_links M)\<rparr>, [Shutdown old], Some (s, k))
      \<and> sm_inv self ((swapped old s k (snd to) M)\<lparr>sm_links := add_link self p to (sm_links M)\<rparr>))"
proof -
  note i = sm_invD [OF inv]
  let ?a = "snd to"
  have plain: ?thesis if "sm_link self p to reconnect create M = Inr (M\<lparr>sm_links := add_link self p to (sm_links M)\<rparr>, [], None)"
      and "?a \<noteq> self \<Longrightarrow> persists M ?a \<noteq> None"
    using that sm_inv_add_link [OF inv that(2)] by auto
  consider "?a = self" | "?a \<noteq> self" "create = None" "persists M ?a = None \<or> reconnect"
    | s k where "?a \<noteq> self" "create = Some (s, k)" "persists M ?a = None"
    | old where "?a \<noteq> self" "persists M ?a = Some old" "\<not> reconnect"
    | s k old where "?a \<noteq> self" "create = Some (s, k)" "persists M ?a = Some old" "reconnect"
    by (metis not_None_eq surj_pair)
  then show ?thesis
  proof cases
    case 1
    then show ?thesis by (intro plain) (simp_all add: sm_link_def Let_def)
  next
    case 2
    then show ?thesis using inv by (auto simp: sm_link_def Let_def split: option.split)
  next
    case (3 s k)
    have s: "sockets M s = None" using new 3 by blast
    note n = not_addressed [OF inv s]
    let ?M = "M\<lparr>sockets := (sockets M)(s \<mapsto> k), addresses := (addresses M)(s \<mapsto> ?a), persists := (persists M)(?a \<mapsto> s),
        outgoing := (outgoing M)(s \<mapsto> [])\<rparr>"
    let ?M' = "?M\<lparr>sm_links := add_link self p to (sm_links ?M)\<rparr>"
    have "sm_inv self ?M" using i n 3(3) by (intro sm_invI; simp) (auto split: if_splits; metis)+
    then have "sm_inv self ?M'" by (rule sm_inv_add_link) simp
    moreover have "sm_link self p to reconnect create M = Inr (?M', [], Some (s, k))"
      using 3 s n by (simp add: sm_link_def Let_def)
    moreover have "only s M ?M'" using n by (auto simp: only_def)
    ultimately show ?thesis using 3 by (intro disjI2 disjI1) auto
  next
    case (4 old)
    then show ?thesis by (intro plain) (simp_all add: sm_link_def Let_def)
  next
    case (5 s k old)
    have s: "sockets M s = None" using new 5 by blast
    have a: "addresses M old = Some ?a" using i(3) [OF 5(3)] by blast
    let ?M = "swapped old s k ?a M"
    have "sm_inv self ?M" by (rule swapped_inv [OF inv a s])
    moreover have "persists ?M ?a \<noteq> None" and l: "sm_links ?M = sm_links M" using 5 by (simp_all add: swapped_def)
    ultimately have "sm_inv self (?M\<lparr>sm_links := add_link self p to (sm_links M)\<rparr>)"
      using sm_inv_add_link [of self ?M to p] by simp
    moreover have "sm_link self p to reconnect create M
        = Inr (?M\<lparr>sm_links := add_link self p to (sm_links M)\<rparr>, [Shutdown old], Some (s, k))"
      using 5 i(2) [OF a] l by (simp add: sm_link_def Let_def swap_swapped [OF inv a s])
    ultimately show ?thesis using 5 a by blast
  qed
qed

end
