(* ===== verification/Socket_Reach.thy ===== *)
theory Socket_Reach
  imports Socket_Invariants
begin

text \<open>
  The invariant of the socket manager together with the asynchronous computations on its sockets, kept by every step of
  \<open>net_step\<close>.
\<close>

section \<open>The computations of one socket\<close>

fun is_sender :: "net_frame \<Rightarrow> bool" where
  "is_sender (LinkConnect _ _ _) = True"
| "is_sender (SendConnect _ _ _) = True"
| "is_sender (Sending _ _) = True"
| "is_sender (CallNext _) = True"
| "is_sender (IgnoreRecv _) = False"
| "is_sender (Client _) = False"

fun connecting :: "net_frame list \<Rightarrow> encoder list" where
  "connecting [] = []"
| "connecting (SendConnect _ _ m # fs) = MessageEncoder m # connecting fs"
| "connecting (_ # fs) = connecting fs"

definition about :: "fd \<Rightarrow> net_frame list \<Rightarrow> net_frame list" where
  "about s fs = filter (\<lambda>f. frame_fd f = s) fs"

definition senders :: "net_frame list \<Rightarrow> nat" where
  "senders fs = length (filter is_sender fs)"

definition queued :: "encoder list option \<Rightarrow> encoder list" where
  "queued q = (case q of None \<Rightarrow> [] | Some es \<Rightarrow> es)"

lemma queued_simps [simp]: "queued None = []" "queued (Some es) = es"
  by (simp_all add: queued_def)

text \<open>
  The socket \<open>s\<close> with the frames \<open>fs\<close> about it, the encoders \<open>tk\<close> taken and \<open>st\<close> started: an open socket has exactly one sender
  if it has a queue and none otherwise; what was taken is what was started, the message of the connecting sender and the queue.
\<close>

definition sock_ok :: "socket_manager \<Rightarrow> fd \<Rightarrow> net_frame list \<Rightarrow> encoder list \<Rightarrow> encoder list \<Rightarrow> bool" where
  "sock_ok M s fs tk st \<longleftrightarrow>
     (sockets M s \<noteq> None \<longrightarrow> senders fs = (if outgoing M s = None then 0 else 1)
        \<and> tk = st @ connecting fs @ queued (outgoing M s))
     \<and> (Client s \<in> set fs \<longrightarrow> addresses M s = None)
     \<and> (\<forall>k m. SendConnect s k m \<in> set fs \<longrightarrow> temps M (snd m) = Some s \<and> IgnoreRecv s \<notin> set fs)
     \<and> (\<forall>k to. LinkConnect s k to \<in> set fs \<longrightarrow> sockets M s \<noteq> None \<longrightarrow> addresses M s = Some (snd to))"

definition net_inv :: "addr \<Rightarrow> net \<Rightarrow> bool" where
  "net_inv self N \<longleftrightarrow> sm_inv self (mgr N) \<and> (\<forall>s. sock_ok (mgr N) s (about s (frames N)) (taken N s) (started N s))"

lemma net_invD:
  assumes "net_inv self N"
  shows "sm_inv self (mgr N)" and "sock_ok (mgr N) s (about s (frames N)) (taken N s) (started N s)"
  using assms by (simp_all add: net_inv_def)

lemma net_inv_init: "net_inv self net_init"
  by (simp add: net_inv_def net_init_def sm_inv_init) (simp add: sock_ok_def about_def sm_init_def)

lemma about_simps [simp]:
  "about s [] = []"
  "about s (f # fs) = (if frame_fd f = s then f # about s fs else about s fs)"
  by (simp_all add: about_def)

lemma about_remove1: "about s (remove1 f fs) = (if frame_fd f = s then remove1 f (about s fs) else about s fs)"
proof (cases "frame_fd f = s")
  case False
  then have "f \<notin> set (about s fs)" by (simp add: about_def)
  with False show ?thesis by (simp add: about_def filter_remove1 remove1_idem)
qed (simp add: about_def filter_remove1)

lemma in_about: "f \<in> set (about s fs) \<longleftrightarrow> f \<in> set fs \<and> frame_fd f = s"
  by (auto simp: about_def)

lemma senders_simps [simp]: "senders [] = 0" "senders (f # fs) = (if is_sender f then Suc (senders fs) else senders fs)"
  by (simp_all add: senders_def)

lemma senders_remove1: "f \<in> set fs \<Longrightarrow> senders (remove1 f fs) = (if is_sender f then senders fs - 1 else senders fs)"
  by (simp add: senders_def filter_remove1 length_remove1 remove1_idem)

lemma connecting_none: "senders fs = 0 \<Longrightarrow> connecting fs = []"
  by (induction fs rule: connecting.induct) (auto split: if_splits)

lemma senders_zero: "senders fs = 0 \<Longrightarrow> f \<in> set fs \<Longrightarrow> \<not> is_sender f"
  by (simp add: senders_def filter_empty_conv)

fun is_send_connect :: "net_frame \<Rightarrow> bool" where
  "is_send_connect (SendConnect _ _ _) = True"
| "is_send_connect _ = False"

lemma is_send_connect_iff: "is_send_connect f \<longleftrightarrow> (\<exists>s k m. f = SendConnect s k m)"
  by (cases f) auto

lemma connecting_remove_other: "\<not> is_send_connect f \<Longrightarrow> connecting (remove1 f fs) = connecting fs"
  by (induction fs rule: connecting.induct) auto

lemma connecting_empty: "\<forall>f\<in>set fs. \<not> is_send_connect f \<Longrightarrow> connecting fs = []"
  by (induction fs rule: connecting.induct) auto

text \<open>The only sender.\<close>

lemma sole_sender:
  assumes "senders fs = 1" and "f \<in> set fs" and "is_sender f"
  shows "connecting fs = (case f of SendConnect _ _ m \<Rightarrow> [MessageEncoder m] | _ \<Rightarrow> [])"
    and "senders (remove1 f fs) = 0" and "connecting (remove1 f fs) = []"
proof -
  show 2: "senders (remove1 f fs) = 0" using assms by (simp add: senders_remove1)
  then show "connecting (remove1 f fs) = []" by (rule connecting_none)
  show "connecting fs = (case f of SendConnect _ _ m \<Rightarrow> [MessageEncoder m] | _ \<Rightarrow> [])"
    using assms
  proof (induction fs rule: connecting.induct)
    case (2 s k m fs)
    then have "senders fs = 0" by simp
    then show ?case using 2 senders_zero connecting_none by auto
  qed (auto simp: senders_zero connecting_none split: net_frame.splits if_splits dest: senders_zero)
qed

section \<open>Steps\<close>

text \<open>The steps that leave the socket \<open>t\<close> alone.\<close>

definition untouched :: "fd \<Rightarrow> net \<Rightarrow> net \<Rightarrow> bool" where
  "untouched t N N' \<longleftrightarrow> sockets (mgr N') t = sockets (mgr N) t \<and> outgoing (mgr N') t = outgoing (mgr N) t
     \<and> addresses (mgr N') t = addresses (mgr N) t \<and> (\<forall>a. temps (mgr N) a = Some t \<longrightarrow> temps (mgr N') a = Some t)
     \<and> about t (frames N') = about t (frames N) \<and> taken N' t = taken N t \<and> started N' t = started N t"

definition net_sock_ok :: "net \<Rightarrow> fd \<Rightarrow> bool" where
  "net_sock_ok N t \<longleftrightarrow> sock_ok (mgr N) t (about t (frames N)) (taken N t) (started N t)"

lemma net_sock_ok_untouched: "net_sock_ok N t \<Longrightarrow> untouched t N N' \<Longrightarrow> net_sock_ok N' t"
  unfolding net_sock_ok_def untouched_def sock_ok_def by auto

text \<open>The invariant but for the socket \<open>s\<close>, whose sender is being resumed.\<close>

definition net_inv_but :: "addr \<Rightarrow> fd \<Rightarrow> net \<Rightarrow> bool" where
  "net_inv_but self s N \<longleftrightarrow> sm_inv self (mgr N) \<and> (\<forall>t. t \<noteq> s \<longrightarrow> net_sock_ok N t)"

lemma net_inv_but_of: "net_inv self N \<Longrightarrow> net_inv_but self s N"
  by (simp add: net_inv_but_def net_inv_def net_sock_ok_def)

lemma net_inv_step:
  assumes "net_inv_but self s N" and "sm_inv self (mgr N')" and "\<And>t. t \<noteq> s \<Longrightarrow> untouched t N N'" and "net_sock_ok N' s"
  shows "net_inv self N'"
  using assms net_sock_ok_untouched unfolding net_inv_def net_inv_but_def net_sock_ok_def [symmetric] by metis

lemma resumed_but:
  assumes "net_inv self N" and "frame_fd f = s"
  shows "net_inv_but self s (resumes f N)"
proof -
  have "untouched t N (resumes f N)" if "t \<noteq> s" for t
    using that assms(2) by (simp add: untouched_def resumes_def about_remove1)
  with assms(1) show ?thesis
    using net_sock_ok_untouched [of N] by (auto simp: net_inv_but_def net_inv_def net_sock_ok_def [symmetric] resumes_def)
qed

lemma send_connect_open:
  assumes "net_inv self N" and "SendConnect s k m \<in> set (frames N)"
  shows "temps (mgr N) (snd m) = Some s" "addresses (mgr N) s = Some (snd m)" "sockets (mgr N) s \<noteq> None"
proof -
  show t: "temps (mgr N) (snd m) = Some s"
    using net_invD(2) [OF assms(1), of s] assms(2) by (auto simp: sock_ok_def in_about)
  then show a: "addresses (mgr N) s = Some (snd m)" using temporary [OF net_invD(1) [OF assms(1)]] by blast
  then show "sockets (mgr N) s \<noteq> None" using addressed [OF net_invD(1) [OF assms(1)]] by blast
qed

text \<open>An open socket with a sender has a queue and no other sender.\<close>

lemma the_sender:
  assumes "net_inv self N" and "f \<in> set (frames N)" and "is_sender f" and "frame_fd f = s" and "sockets (mgr N) s \<noteq> None"
  shows "senders (about s (frames N)) = 1" and "outgoing (mgr N) s \<noteq> None"
    and "taken N s = started N s @ connecting (about s (frames N)) @ queued (outgoing (mgr N) s)"
proof -
  have ok: "senders (about s (frames N)) = (if outgoing (mgr N) s = None then 0 else 1)"
      and t: "taken N s = started N s @ connecting (about s (frames N)) @ queued (outgoing (mgr N) s)"
    using net_invD(2) [OF assms(1), of s] assms(5) by (simp_all add: sock_ok_def)
  have "f \<in> set (about s (frames N))" using assms by (simp add: in_about)
  then have "senders (about s (frames N)) \<noteq> 0" using senders_zero assms(3) by blast
  with ok show "senders (about s (frames N)) = 1" "outgoing (mgr N) s \<noteq> None" by (simp_all split: if_splits)
  show "taken N s = started N s @ connecting (about s (frames N)) @ queued (outgoing (mgr N) s)" by (rule t)
qed

lemma no_other_sender:
  assumes "net_inv self N" and "f \<in> set (frames N)" and "is_sender f" and "frame_fd f = s"
  shows "SendConnect s k m \<notin> set (about s (frames (resumes f N)))"
proof
  assume c: "SendConnect s k m \<in> set (about s (frames (resumes f N)))"
  then have "SendConnect s k m \<in> set (frames N)" by (auto simp: resumes_def in_about dest: set_remove1_subset [THEN subsetD])
  then have "sockets (mgr N) s \<noteq> None" by (rule send_connect_open [OF assms(1)])
  from the_sender(1) [OF assms this] have "senders (remove1 f (about s (frames N))) = 0"
    using sole_sender(2) assms(2-4) by (simp add: in_about)
  then show False using senders_zero [of _ "SendConnect s k m"] c assms(4) by (auto simp: resumes_def about_remove1)
qed

lemma close_in_inv:
  assumes N: "net_inv_but self s N" and c: "\<And>k m. SendConnect s k m \<notin> set (about s (frames N))"
  shows "\<exists>N'. close_in s N = Inr N' \<and> net_inv self N'"
proof -
  obtain M' ev where M': "sm_close s (mgr N) = Inr (M', ev)" "sm_inv self M'" "only s (mgr N) M'" "sockets M' s = None" "addresses M' s = None"
    using sm_close_cases [of self "mgr N" s] N by (auto simp: net_inv_but_def)
  let ?N = "N\<lparr>mgr := M'\<rparr>"
  have "net_inv self ?N"
    using M' c by (intro net_inv_step [OF N]) (auto simp: untouched_def only_def net_sock_ok_def sock_ok_def)
  then show ?thesis using M'(1) by (simp add: close_in_def)
qed

text \<open>A resumed sender that closes its socket.\<close>

lemma resumed_close:
  assumes "net_inv self N" and "f \<in> set (frames N)" and "is_sender f" and "frame_fd f = s"
  shows "\<exists>N'. close_in s (resumes f N) = Inr N' \<and> net_inv self N'"
  using close_in_inv [OF resumed_but [OF assms(1,4)]] no_other_sender [OF assms] by blast

text \<open>A swap whose new socket is then connected by the frame \<open>f\<close>.\<close>

lemma swap_inv:
  assumes N: "net_inv_but self old N" and a: "addresses (mgr N) old = Some a" and new: "fresh s N"
    and c: "\<And>k m. SendConnect old k m \<notin> set (about old (frames N))"
    and f: "f = LinkConnect s k to \<and> snd to = a \<or> f = SendConnect s k m \<and> snd m = a \<and> temps (mgr N) a = Some old"
    and h: "taken N old = started N old @ connecting [f] @ queued (outgoing (mgr N) old)"
    and M: "M = (swapped old s k a (mgr N))\<lparr>sm_links := L\<rparr>" and inv: "sm_inv self M"
  shows "net_inv self (spawns f (moved old s (N\<lparr>mgr := M\<rparr>)))"
proof -
  let ?N = "spawns f (moved old s (N\<lparr>mgr := M\<rparr>))"
  have sm: "sm_inv self (mgr N)" using N by (simp add: net_inv_but_def)
  have s: "sockets (mgr N) s = None" "about s (frames N) = []"
    using new by (auto simp: fresh_def about_def filter_empty_conv)
  have ne: "old \<noteq> s" using a not_addressed(1) [OF sm s(1)] by auto
  have ff: "frame_fd f = s" "is_sender f" using f by auto
  from f have "net_sock_ok ?N s"
  proof (elim disjE conjE)
    assume "f = LinkConnect s k to" "snd to = a"
    then show ?thesis
      using s ne h by (auto simp: net_sock_ok_def sock_ok_def spawns_def moved_def M swapped_def queued_def)
  next
    assume "f = SendConnect s k m" "snd m = a" "temps (mgr N) a = Some old"
    then show ?thesis
      using s ne h by (auto simp: net_sock_ok_def sock_ok_def spawns_def moved_def M swapped_def queued_def)
  qed
  moreover have "net_sock_ok ?N old"
    unfolding net_sock_ok_def sock_ok_def spawns_def moved_def
    using c ff ne by (auto simp: M swapped_def)
  moreover have "untouched t N ?N" if "t \<noteq> s" "t \<noteq> old" for t
    using that ff by (auto simp: untouched_def spawns_def moved_def M swapped_def)
  ultimately have "net_sock_ok ?N t" for t
    using N net_sock_ok_untouched unfolding net_inv_but_def by metis
  with inv show ?thesis by (simp add: net_inv_def net_sock_ok_def spawns_def moved_def)
qed

subsection \<open>Calls of clients\<close>

lemma step_accepted:
  assumes N: "net_inv self N" and new: "fresh s N"
  shows "\<exists>N'. net_step self fl (Accepted s k) N = Inr N' \<and> net_inv self N'"
proof -
  have s: "sockets (mgr N) s = None" "about s (frames N) = []"
    using new by (auto simp: fresh_def about_def filter_empty_conv)
  let ?M = "(mgr N)\<lparr>sockets := (sockets (mgr N))(s \<mapsto> k)\<rparr>"
  note a = sm_accepted_inv [OF net_invD(1) [OF N] s(1), of k]
  have "net_inv self (spawns (Client s) (renew s (N\<lparr>mgr := ?M\<rparr>)))"
    using a(2) not_addressed(1,3) [OF net_invD(1) [OF N] s(1)] s(2)
    by (intro net_inv_step [OF net_inv_but_of [OF N, of s]])
      (auto simp: untouched_def net_sock_ok_def sock_ok_def spawns_def renew_def)
  then show ?thesis using new a(1) by simp
qed

lemma links_inv_remotes:
  assumes "links_inv self L"
  shows "remotes L a \<noteq> None \<longleftrightarrow> a \<noteq> self \<and> (\<exists>p u. (p, u) \<in> rel L \<and> snd u = a)"
proof -
  note t = links_inv_tidy [OF assms] and e = links_inv_entries [OF assms]
  have "remotes L a \<noteq> None \<longleftrightarrow> (\<exists>u. u \<in> set (entries (remotes L) a))"
    using tidy_key [of "remotes L" a] t by (metis ex_in_conv set_empty)
  also have "\<dots> \<longleftrightarrow> a \<noteq> self \<and> (\<exists>p u. (p, u) \<in> rel L \<and> snd u = a)"
    unfolding e(2) rel_mem e(1) [symmetric] by (metis ex_in_conv set_empty)
  finally show ?thesis .
qed

lemma mgr_inv:
  assumes "net_inv self N" and "sm_inv self M" and "sockets M = sockets (mgr N)" and "outgoing M = outgoing (mgr N)"
    and "addresses M = addresses (mgr N)" and "temps M = temps (mgr N)"
  shows "net_inv self (N\<lparr>mgr := M\<rparr>)"
  using assms unfolding net_inv_def sock_ok_def by simp

lemma step_exited:
  assumes N: "net_inv self N"
  shows "\<exists>N'. net_step self fl (ProcessExited p i time) N = Inr N' \<and> net_inv self N'"
proof -
  let ?L = "sm_links (mgr N)"
  note i = sm_invD [OF net_invD(1) [OF N]]
  obtain L ev where L: "exited_process self p (i, self) time ?L = Inr (L, ev)" "links_inv self L"
      "rel L = {(q, u) \<in> rel ?L. q \<noteq> p \<and> u \<noteq> (i, self)}"
    using exited_process_some [OF i(1), of "(i, self)" p time] by auto
  have "persists (mgr N) a \<noteq> None" if "remotes L a \<noteq> None" for a
    using that i(6) [of a] L(3) unfolding links_inv_remotes [OF L(2)] links_inv_remotes [OF i(1)] by blast
  then have "net_inv self (N\<lparr>mgr := (mgr N)\<lparr>sm_links := L\<rparr>\<rparr>)"
    by (intro mgr_inv [OF N] sm_inv_links [OF net_invD(1) [OF N] L(2)]) simp_all
  then show ?thesis using L(1) by simp
qed

lemma enqueued_net_inv:
  assumes N: "net_inv self N" and M: "sm_inv self (enqueued d s e (mgr N))" and s: "sockets (mgr N) s \<noteq> None"
  shows "outgoing (mgr N) s = None \<Longrightarrow> net_inv self (start s e (take_encoder s e (N\<lparr>mgr := enqueued d s e (mgr N)\<rparr>)))"
    and "outgoing (mgr N) s = Some q \<Longrightarrow> net_inv self (take_encoder s e (N\<lparr>mgr := enqueued d s e (mgr N)\<rparr>))"
proof -
  have ok: "sock_ok (mgr N) s (about s (frames N)) (taken N s) (started N s)" by (rule net_invD(2) [OF N])
  show "net_inv self (start s e (take_encoder s e (N\<lparr>mgr := enqueued d s e (mgr N)\<rparr>)))" if "outgoing (mgr N) s = None"
    using M ok s that connecting_none
    by (intro net_inv_step [OF net_inv_but_of [OF N, of s]])
      (auto simp: untouched_def net_sock_ok_def sock_ok_def start_def take_encoder_def enqueued_def)
  show "net_inv self (take_encoder s e (N\<lparr>mgr := enqueued d s e (mgr N)\<rparr>))" if "outgoing (mgr N) s = Some q"
    using M ok s that
    by (intro net_inv_step [OF net_inv_but_of [OF N, of s]])
      (auto simp: untouched_def net_sock_ok_def sock_ok_def take_encoder_def enqueued_def)
qed

lemma client_inbound: "net_inv self N \<Longrightarrow> Client s \<in> set (frames N) \<Longrightarrow> addresses (mgr N) s = None"
  using net_invD(2) [of self N s] by (auto simp: sock_ok_def in_about)

lemma step_send_encoder:
  assumes N: "net_inv self N" and c: "Client s \<in> set (frames N)"
  shows "\<exists>N'. net_step self fl (SendEncoder e persist s) N = Inr N' \<and> net_inv self N'"
proof (cases "sockets (mgr N) s = None")
  case True
  then have "send_encoder e persist s (mgr N) = (mgr N, Dropped)" by (simp add: send_encoder_def)
  then show ?thesis using N c by simp
next
  case False
  have "\<And>a. persists (mgr N) a \<noteq> Some s"
    using client_inbound [OF N c] persistent [OF net_invD(1) [OF N]] by fastforce
  then have "sm_inv self (enqueued (\<not> persist) s e (mgr N))"
    by (intro enqueued_inv(1) [OF net_invD(1) [OF N] False]) simp_all
  from enqueued_net_inv [OF N this False] show ?thesis
    using send_encoder_enqueued [OF False, of e persist] c
    by (cases "outgoing (mgr N) s") auto
qed

lemma step_send_message:
  assumes N: "net_inv self N" and new: "fresh_create create N"
  shows "\<exists>N'. net_step self fl (SendMessage m create) N = Inr N' \<and> net_inv self N'"
proof -
  have c: "\<forall>s k. create = Some (s, k) \<longrightarrow> sockets (mgr N) s = None"
    using new by (auto simp: fresh_create_def fresh_def)
  from send_message_cases [OF net_invD(1) [OF N], of create m, OF c] show ?thesis
  proof (elim disjE exE conjE)
    fix s d
    let ?M = "enqueued d s (MessageEncoder m) (mgr N)"
    assume s: "sockets (mgr N) s \<noteq> None" and M: "sm_inv self ?M"
      and r: "send_message m create (mgr N) = Inr (?M, if outgoing (mgr N) s = None then SendNow s else Queued s)"
    from enqueued_net_inv [OF N M s] r new show ?thesis by (cases "outgoing (mgr N) s") auto
  next
    assume "send_message m create (mgr N) = Inr (mgr N, Dropped)"
    then show ?thesis using N new by simp
  next
    fix s k M'
    assume c: "create = Some (s, k)" and r: "send_message m create (mgr N) = Inr (M', ConnectFirst s k)" and M: "sm_inv self M'"
      and o: "only s (mgr N) M'" and M': "sockets M' s = Some k" "outgoing M' s = Some []" "addresses M' s = Some (snd m)" "temps M' (snd m) = Some s"
    have s: "about s (frames N) = []"
      using new c by (auto simp: fresh_create_def fresh_def about_def filter_empty_conv)
    have "net_inv self (spawns (SendConnect s k m) (take_encoder s (MessageEncoder m) (renew s (N\<lparr>mgr := M'\<rparr>))))"
      using M o M' s
      by (intro net_inv_step [OF net_inv_but_of [OF N, of s]])
        (auto simp: only_def untouched_def net_sock_ok_def sock_ok_def spawns_def take_encoder_def renew_def)
    then show ?thesis using r new by simp
  qed
qed

lemma step_link:
  assumes N: "net_inv self N" and new: "fresh_create create N"
  shows "\<exists>N'. net_step self fl (LinkTo p to reconnect create) N = Inr N' \<and> net_inv self N'"
proof -
  have c: "create = Some (s, k) \<Longrightarrow> fresh s N \<and> sockets (mgr N) s = None \<and> about s (frames N) = []" for s k
    using new by (auto simp: fresh_create_def fresh_def about_def filter_empty_conv)
  let ?L = "add_link self p to (sm_links (mgr N))"
  from sm_link_cases [OF net_invD(1) [OF N], of create p to reconnect] c consider
    (unconnected) M' ev where "sm_link self p to reconnect create (mgr N) = Inr (M', ev, None)" "sm_inv self M'"
      "sockets M' = sockets (mgr N)" "outgoing M' = outgoing (mgr N)" "addresses M' = addresses (mgr N)" "temps M' = temps (mgr N)"
  | (connect) s k M' where "create = Some (s, k)" "sm_link self p to reconnect create (mgr N) = Inr (M', [], Some (s, k))"
      "persists (mgr N) (snd to) = None" "sm_inv self M'" "only s (mgr N) M'" "sockets M' s = Some k" "outgoing M' s = Some []"
      "addresses M' s = Some (snd to)"
  | (again) s k old where "create = Some (s, k)" "persists (mgr N) (snd to) = Some old" "addresses (mgr N) old = Some (snd to)"
      "sm_link self p to reconnect create (mgr N)
        = Inr ((swapped old s k (snd to) (mgr N))\<lparr>sm_links := ?L\<rparr>, [Shutdown old], Some (s, k))"
      "sm_inv self ((swapped old s k (snd to) (mgr N))\<lparr>sm_links := ?L\<rparr>)"
    by blast
  then show ?thesis
  proof cases
    case unconnected
    then show ?thesis using mgr_inv [OF N unconnected(2-6)] new by simp
  next
    case connect
    have "net_inv self (spawns (LinkConnect s k to) (renew s (N\<lparr>mgr := M'\<rparr>)))"
      using connect c [OF connect(1)]
      by (intro net_inv_step [OF net_inv_but_of [OF N, of s]])
        (auto simp: only_def untouched_def net_sock_ok_def sock_ok_def spawns_def renew_def)
    then show ?thesis using connect(2,3) new by simp
  next
    case again
    have no: "SendConnect old k' m \<notin> set (frames N)" for k' m
      using send_connect_open(1) [OF N] temporary [OF net_invD(1) [OF N]] persistent [OF net_invD(1) [OF N] again(2)] by blast
    then have "connecting (about old (frames N)) = []"
      by (intro connecting_empty) (auto simp: in_about is_send_connect_iff)
    then have "taken N old = started N old @ queued (outgoing (mgr N) old)"
      using net_invD(2) [OF N, of old] addressed [OF net_invD(1) [OF N] again(3)] by (simp add: sock_ok_def)
    then have "net_inv self (spawns (LinkConnect s k to) (moved old s (N\<lparr>mgr := (swapped old s k (snd to) (mgr N))\<lparr>sm_links := ?L\<rparr>\<rparr>)))"
      using no c [OF again(1)]
      by (intro swap_inv [OF net_inv_but_of [OF N] again(3) _ _ _ _ refl again(5)]) (auto simp: in_about)
    then show ?thesis using again(2,4) new by simp
  qed
qed

subsection \<open>Computations\<close>

lemma swapped_links [simp]: "(swapped old s k a M)\<lparr>sm_links := sm_links M\<rparr> = swapped old s k a M"
  by (simp add: swapped_def)

lemma resumes_fields [simp]: "mgr (resumes f N) = mgr N" "taken (resumes f N) = taken N" "started (resumes f N) = started N"
  "frames (resumes f N) = remove1 f (frames N)"
  by (simp_all add: resumes_def)

lemma resumed_swap:
  assumes N: "net_inv self N" and g: "g \<in> set (frames N)" "is_sender g" "frame_fd g = s"
    and a: "addresses (mgr N) s = Some a" and new: "fresh s' N"
    and f: "f = LinkConnect s' k to \<and> snd to = a \<or> f = SendConnect s' k m \<and> snd m = a \<and> temps (mgr N) a = Some s"
    and same: "connecting [f] = connecting (about s (frames N))"
  shows "swap_implementing_socket s s' k (mgr N) = Inr (swapped s s' k a (mgr N))"
    and "net_inv self (spawns f (moved s s' ((resumes g N)\<lparr>mgr := swapped s s' k a (mgr N)\<rparr>)))"
proof -
  note sm = net_invD(1) [OF N]
  have s': "sockets (mgr N) s' = None" and new': "fresh s' (resumes g N)"
    using new set_remove1_subset by (fastforce simp: fresh_def)+
  show "swap_implementing_socket s s' k (mgr N) = Inr (swapped s s' k a (mgr N))"
    by (rule swap_swapped [OF sm a s'])
  have "taken N s = started N s @ connecting [f] @ queued (outgoing (mgr N) s)"
    using the_sender(3) [OF N g] addressed [OF sm a] same by simp
  then show "net_inv self (spawns f (moved s s' ((resumes g N)\<lparr>mgr := swapped s s' k a (mgr N)\<rparr>)))"
    using no_other_sender [OF N g] new' a f swapped_inv [OF sm a s', of k]
    by (intro swap_inv [OF resumed_but [OF N g(3)], where L = "sm_links (mgr N)" and a = a and k = k and to = to and m = m]) simp_all
qed

lemma sock_ok_fewer:
  assumes "sock_ok M s fs tk st" and "sockets M s = None"
  shows "sock_ok M s (remove1 f fs) tk st"
  using assms set_remove1_subset [of f fs] unfolding sock_ok_def by blast

lemma resumed_closed:
  assumes N: "net_inv self N" and "frame_fd f = s" and "sockets (mgr N) s = None"
  shows "net_inv self (resumes f N)"
  using resumed_but [OF N assms(2)] net_invD [OF N] sock_ok_fewer assms(2,3)
  by (intro net_inv_step [OF resumed_but [OF N assms(2)]])
    (auto simp: untouched_def net_sock_ok_def about_remove1)

lemma step_link_connected:
  assumes N: "net_inv self N" and g: "LinkConnect s k to \<in> set (frames N)" and new: "fresh_create create N"
  shows "\<exists>N'. link_connect fl s k to out create (resumes (LinkConnect s k to) N) = Inr N' \<and> net_inv self N'"
proof -
  let ?g = "LinkConnect s k to"
  have cl: "\<exists>N'. close_in s (resumes ?g N) = Inr N' \<and> net_inv self N'" by (rule resumed_close [OF N g]) simp_all
  show ?thesis
  proof (cases "sockets (mgr N) s = None")
    case True
    then show ?thesis using cl resumed_closed [OF N, of ?g s] by (simp add: link_connect_def)
  next
    case False
    note the = the_sender [OF N g _ _ False, simplified]
    have a: "addresses (mgr N) s = Some (snd to)"
      using net_invD(2) [OF N, of s] g False by (auto simp: sock_ok_def in_about)
    have ab: "?g \<in> set (about s (frames N))" using g by (simp add: in_about)
    note sole = sole_sender [OF _ ab, simplified, OF the(1)]
    have sw: "swap_implementing_socket s s' k' (mgr N) = Inr (swapped s s' k' (snd to) (mgr N))
        \<and> net_inv self (spawns (LinkConnect s' k' to) (moved s s' ((resumes ?g N)\<lparr>mgr := swapped s s' k' (snd to) (mgr N)\<rparr>)))"
      if "create = Some (s', k')" for s' k'
      using resumed_swap [OF N g _ _ a, of s' "LinkConnect s' k' to" k' to] sole(1) that new by (auto simp: fresh_create_def)
    have "net_inv self (spawns (CallNext s) (spawns (IgnoreRecv s) (resumes ?g N)))"
    proof (rule net_inv_step [OF resumed_but [OF N, of ?g s]])
      have "Client s \<notin> set (remove1 ?g (about s (frames N)))"
        using client_inbound [OF N, of s] a set_remove1_subset [of ?g "about s (frames N)"] by (auto simp: in_about)
      moreover have "SendConnect s k' m \<notin> set (remove1 ?g (about s (frames N)))" for k' m
        using no_other_sender [OF N g] by (simp add: about_remove1)
      moreover have "LinkConnect s k' v \<notin> set (remove1 ?g (about s (frames N)))" for k' v
        using senders_zero [OF sole(2), of "LinkConnect s k' v"] by auto
      ultimately show "net_sock_ok (spawns (CallNext s) (spawns (IgnoreRecv s) (resumes ?g N))) s"
        using the(2,3) sole False by (simp add: net_sock_ok_def sock_ok_def spawns_def about_remove1)
    qed (use net_invD(1) [OF N] in \<open>simp_all add: untouched_def spawns_def\<close>)
    then show ?thesis using cl sw False by (auto simp: link_connect_def split: option.split)
  qed
qed

lemma step_send_connected:
  assumes N: "net_inv self N" and g: "SendConnect s k m \<in> set (frames N)" and new: "fresh_create create N"
  shows "\<exists>N'. send_connect fl s k m out create (resumes (SendConnect s k m) N) = Inr N' \<and> net_inv self N'"
proof -
  let ?g = "SendConnect s k m"
  have cl: "\<exists>N'. close_in s (resumes ?g N) = Inr N' \<and> net_inv self N'" by (rule resumed_close [OF N g]) simp_all
  note op = send_connect_open [OF N g]
  note the = the_sender [OF N g _ _ op(3), simplified]
  have ab: "?g \<in> set (about s (frames N))" using g by (simp add: in_about)
  note sole = sole_sender [OF _ ab, simplified, OF the(1)]
  have sw: "swap_implementing_socket s s' k' (mgr N) = Inr (swapped s s' k' (snd m) (mgr N))
      \<and> net_inv self (spawns (SendConnect s' k' m) (moved s s' ((resumes ?g N)\<lparr>mgr := swapped s s' k' (snd m) (mgr N)\<rparr>)))"
    if "create = Some (s', k')" for s' k'
    using resumed_swap [OF N g _ _ op(2), of s' "SendConnect s' k' m" k' _ m] sole(1) op(1) that new by (auto simp: fresh_create_def)
  have "net_inv self (start s (MessageEncoder m) (spawns (IgnoreRecv s) (resumes ?g N)))"
  proof (rule net_inv_step [OF resumed_but [OF N, of ?g s]])
    have "Client s \<notin> set (remove1 ?g (about s (frames N)))"
      using client_inbound [OF N, of s] op(2) set_remove1_subset [of ?g "about s (frames N)"] by (auto simp: in_about)
    moreover have "SendConnect s k' v \<notin> set (remove1 ?g (about s (frames N)))" for k' v
      using senders_zero [OF sole(2), of "SendConnect s k' v"] by auto
    moreover have "LinkConnect s k' v \<notin> set (remove1 ?g (about s (frames N)))" for k' v
      using senders_zero [OF sole(2), of "LinkConnect s k' v"] by auto
    ultimately show "net_sock_ok (start s (MessageEncoder m) (spawns (IgnoreRecv s) (resumes ?g N))) s"
      using the(2,3) sole op(3) by (simp add: net_sock_ok_def sock_ok_def start_def spawns_def about_remove1)
  qed (use net_invD(1) [OF N] in \<open>simp_all add: untouched_def start_def spawns_def\<close>)
  then show ?thesis using cl sw by (auto simp: send_connect_def split: option.split)
qed

lemma step_sent:
  assumes N: "net_inv self N" and g: "Sending s e \<in> set (frames N)"
  shows "net_inv self (spawns (CallNext s) (resumes (Sending s e) N))"
proof (rule net_inv_step [OF resumed_but [OF N, of "Sending s e" s]])
  let ?fs = "about s (frames N)"
  have ab: "Sending s e \<in> set ?fs" using g by (simp add: in_about)
  have sub: "f \<in> set (remove1 (Sending s e) ?fs) \<Longrightarrow> f \<in> set ?fs" for f
    using set_remove1_subset [of "Sending s e" ?fs] by blast
  have "senders ?fs \<noteq> 0" using senders_zero [OF _ ab] by auto
  then have "senders (CallNext s # remove1 (Sending s e) ?fs) = senders ?fs"
    using senders_remove1 [OF ab] by simp
  then show "net_sock_ok (spawns (CallNext s) (resumes (Sending s e) N)) s"
    using net_invD(2) [OF N, of s] sub connecting_remove_other [of "Sending s e" ?fs]
    by (auto simp: net_sock_ok_def sock_ok_def spawns_def about_remove1)
qed (use net_invD(1) [OF N] in \<open>simp_all add: untouched_def spawns_def\<close>)

lemma step_next:
  assumes N: "net_inv self N" and g: "CallNext s \<in> set (frames N)"
  shows "\<exists>N'. net_step self fl (NextCalled s) N = Inr N' \<and> net_inv self N'"
proof (cases "sockets (mgr N) s = None")
  case True
  then have "next_encoder s (mgr N) = Inr (mgr N, [], None)" by (simp add: next_encoder_def)
  then show ?thesis using resumed_closed [OF N _ True, of "CallNext s"] g by (simp add: resumes_def)
next
  case False
  let ?fs = "about s (frames N)" and ?R = "remove1 (CallNext s) (about s (frames N))"
  note the = the_sender [OF N g _ _ False, simplified]
  have ab: "CallNext s \<in> set ?fs" using g by (simp add: in_about)
  note sole = sole_sender [OF _ ab, simplified, OF the(1)]
  have sub: "f \<in> set ?R \<Longrightarrow> f \<in> set ?fs" for f
    using set_remove1_subset [of "CallNext s" ?fs] by blast
  have none: "SendConnect s k m \<notin> set ?R" "LinkConnect s k v \<notin> set ?R" for k m v
    using senders_zero [OF sole(2), of "SendConnect s k m"] senders_zero [OF sole(2), of "LinkConnect s k v"] by auto
  have cl: "Client s \<in> set ?R \<Longrightarrow> addresses (mgr N) s = None" using net_invD(2) [OF N, of s] sub by (auto simp: sock_ok_def)
  obtain M' ev r where r: "next_encoder s (mgr N) = Inr (M', ev, r)" "sm_inv self M'" "only s (mgr N) M'"
    and c: "case r of
       Some e \<Rightarrow> M' = (mgr N)\<lparr>outgoing := (outgoing (mgr N))(s \<mapsto> tl (the (outgoing (mgr N) s)))\<rparr>
         \<and> outgoing (mgr N) s = Some (e # tl (the (outgoing (mgr N) s))) \<and> sockets (mgr N) s \<noteq> None
     | None \<Rightarrow> if sockets (mgr N) s = None then M' = mgr N
         else outgoing (mgr N) s = Some [] \<and> outgoing M' s = None
           \<and> sockets M' s = (if disposed (mgr N) s then None else sockets (mgr N) s)
           \<and> addresses M' s = (if disposed (mgr N) s then None else addresses (mgr N) s)"
    using next_encoder_cases [OF net_invD(1) [OF N], of s] the(2) by blast
  show ?thesis
  proof (cases r)
    case None
    have "net_inv self (resumes (CallNext s) (N\<lparr>mgr := M'\<rparr>))"
    proof (rule net_inv_step [OF resumed_but [OF N, of "CallNext s" s]])
      show "net_sock_ok (resumes (CallNext s) (N\<lparr>mgr := M'\<rparr>)) s"
        using c None False sole the(3) none cl by (auto simp: net_sock_ok_def sock_ok_def about_remove1)
    qed (use r(2,3) in \<open>simp_all add: untouched_def only_def\<close>)
    then show ?thesis using r(1) None g by simp
  next
    case (Some e)
    then obtain q where q: "outgoing (mgr N) s = Some (e # q)" "M' = (mgr N)\<lparr>outgoing := (outgoing (mgr N))(s \<mapsto> q)\<rparr>"
      using c by auto
    have "net_inv self (start s e (resumes (CallNext s) (N\<lparr>mgr := M'\<rparr>)))"
    proof (rule net_inv_step [OF resumed_but [OF N, of "CallNext s" s]])
      show "net_sock_ok (start s e (resumes (CallNext s) (N\<lparr>mgr := M'\<rparr>))) s"
        using q sole the(3) none cl by (auto simp: net_sock_ok_def sock_ok_def about_remove1 start_def)
    qed (use r(2,3) in \<open>simp_all add: untouched_def only_def start_def\<close>)
    then show ?thesis using r(1) Some g by simp
  qed
qed

lemma drop_client:
  assumes N: "net_inv self N"
  shows "net_inv self (resumes (Client s) N)"
proof (rule net_inv_step [OF resumed_but [OF N, of "Client s" s]])
  let ?fs = "about s (frames N)"
  have sub: "f \<in> set (remove1 (Client s) ?fs) \<Longrightarrow> f \<in> set ?fs" for f
    using set_remove1_subset [of "Client s" ?fs] by blast
  have "senders (remove1 (Client s) ?fs) = senders ?fs"
    using senders_remove1 [of "Client s" ?fs] by (cases "Client s \<in> set ?fs") (simp_all add: remove1_idem)
  then show "net_sock_ok (resumes (Client s) N) s"
    using net_invD(2) [OF N, of s] sub connecting_remove_other [of "Client s" ?fs]
    by (auto simp: net_sock_ok_def sock_ok_def about_remove1)
qed (use net_invD(1) [OF N] in \<open>simp_all add: untouched_def\<close>)

lemma recv_ended:
  assumes N: "net_inv self N" and g: "IgnoreRecv s \<in> set (frames N)"
  shows "\<exists>N'. close_in s (resumes (IgnoreRecv s) N) = Inr N' \<and> net_inv self N'"
proof (rule close_in_inv [OF resumed_but [OF N]])
  show "SendConnect s k m \<notin> set (about s (frames (resumes (IgnoreRecv s) N)))" for k m
    using net_invD(2) [OF N, of s] g set_remove1_subset [of "IgnoreRecv s" "about s (frames N)"]
    by (auto simp: sock_ok_def in_about about_remove1)
qed simp

lemma client_closes:
  assumes N: "net_inv self N" and g: "Client s \<in> set (frames N)"
  shows "\<exists>N'. close_in s N = Inr N' \<and> net_inv self N'"
proof (rule close_in_inv [OF net_inv_but_of [OF N]])
  show "SendConnect s k m \<notin> set (about s (frames N))" for k m
    using send_connect_open(2) [OF N] client_inbound [OF N g] by (fastforce simp: in_about)
qed

section \<open>Every step\<close>

lemma net_step_inv:
  assumes N: "net_inv self N"
  shows "\<exists>N'. net_step self fl c N = Inr N' \<and> net_inv self N'"
proof (cases c)
  case (Accepted s k)
  then show ?thesis using N step_accepted [OF N] by (cases "fresh s N") simp_all
next
  case (LinkTo p to reconnect create)
  then show ?thesis using N step_link [OF N] by (cases "fresh_create create N") simp_all
next
  case (ProcessExited p i time)
  then show ?thesis using step_exited [OF N] by blast
next
  case (Proxy s new)
  then show ?thesis using N mgr_inv [OF N] sm_proxy_inv [OF net_invD(1) [OF N], of s new] by simp
next
  case (Unproxy s)
  then show ?thesis
    using mgr_inv [OF N sm_unproxy_inv [OF net_invD(1) [OF N], of s]] by (simp add: sm_unproxy_def)
next
  case (SendEncoder e persist s)
  then show ?thesis using N step_send_encoder [OF N] by (cases "Client s \<in> set (frames N)") simp_all
next
  case (SendMessage m create)
  then show ?thesis using N step_send_message [OF N] by (cases "fresh_create create N") simp_all
next
  case (CloseClient s)
  then show ?thesis using N client_closes [OF N] by simp
next
  case (DropClient s)
  then show ?thesis using drop_client [OF N] by simp
next
  case (LinkConnected s k to out create)
  then show ?thesis using N step_link_connected [OF N] by simp
next
  case (SendConnected s k m out create)
  then show ?thesis using N step_send_connected [OF N] by simp
next
  case (Sent s e ok)
  then show ?thesis using N step_sent [OF N] resumed_close [OF N, of "Sending s e" s] by simp
next
  case (NextCalled s)
  then show ?thesis using N step_next [OF N] by (cases "CallNext s \<in> set (frames N)") simp_all
next
  case (RecvEnded s)
  then show ?thesis using N recv_ended [OF N] by simp
next
  case (FinalizeClose s)
  have "\<exists>N'. close_in s N = Inr N' \<and> net_inv self N'" if "\<not> send_connecting s N"
    by (rule close_in_inv [OF net_inv_but_of [OF N]]) (use that in \<open>auto simp: send_connecting_def list_ex_iff in_about\<close>)
  then show ?thesis using N FinalizeClose by simp
qed

lemma net_run_inv: "net_inv self N \<Longrightarrow> \<exists>N'. net_run self fl cs N = Inr N' \<and> net_inv self N'"
proof (induction cs arbitrary: N)
  case (Cons c cs)
  then show ?case using net_step_inv [OF Cons.prems, of fl c] by fastforce
qed simp

end
