(* ===== verification/Socket_Properties.thy ===== *)
theory Socket_Properties
  imports Socket_Reach
begin

text \<open>
  What the socket manager guarantees for every interleaving of the calls of its clients, the connections, the sends and the receives.
\<close>

text \<open>C14.
  No CHECK of the socket manager fails and no at() misses, whatever the calls of clients (accepted, link with and
  without reconnect, both exited, proxy, send of an encoder or of a message, close, and finalize on any socket that no
  \<^verbatim>\<open>send_connect\<close> is connecting) and however connections, downgrades from SSL, sends and receives succeed or fail in between;
  sockets, addresses, temps, persists, dispose, outgoing, proxies and links agree with each other afterwards. The
  restriction on finalize is needed: \<open>downgrade_after_finalize_aborts\<close> below.
\<close>

theorem socket_checks_hold:
  "\<exists>N. net_run self fl cs net_init = Inr N \<and> sm_inv self (mgr N)"
  using net_run_inv [OF net_inv_init] net_invD(1) by blast

text \<open>C13.
  On every open socket the encoders are transmitted one at a time, in the order in which send took them: those taken are
  those whose transmission started, then the message that waits for the connection, then the queue. An open socket with a queue
  has exactly one asynchronous computation that drains it, and one without has none and has nothing left to send; moving
  a queue to a new socket on reconnect or downgrade keeps this.
\<close>

theorem messages_in_order:
  "\<exists>N. net_run self fl cs net_init = Inr N \<and>
    (\<forall>s. sockets (mgr N) s \<noteq> None \<longrightarrow>
      taken N s = started N s @ connecting (about s (frames N)) @ queued (outgoing (mgr N) s)
      \<and> senders (about s (frames N)) = (if outgoing (mgr N) s = None then 0 else 1)
      \<and> (senders (about s (frames N)) = 0 \<longrightarrow> taken N s = started N s))"
proof -
  obtain N where N: "net_run self fl cs net_init = Inr N" "net_inv self N" using net_run_inv [OF net_inv_init] by blast
  have "taken N s = started N s @ connecting (about s (frames N)) @ queued (outgoing (mgr N) s)
      \<and> senders (about s (frames N)) = (if outgoing (mgr N) s = None then 0 else 1)
      \<and> (senders (about s (frames N)) = 0 \<longrightarrow> taken N s = started N s)" if "sockets (mgr N) s \<noteq> None" for s
    using net_invD(2) [OF N(2), of s] that connecting_none [of "about s (frames N)"] by (auto simp: sock_ok_def)
  with N(1) show ?thesis by blast
qed

definition order_script :: "net_call list" where
  "order_script = [SendMessage (1, 7) (Some (3, SSL)), SendMessage (2, 7) None,
     SendConnected 3 SSL (1, 7) ConnectFailed (Some (4, POLL)), SendMessage (3, 7) None,
     SendConnected 4 POLL (1, 7) Connected None, Sent 4 (MessageEncoder (1, 7)) True, NextCalled 4]"

lemma order_script_open:
  "case net_run 0 True order_script net_init of Inr N \<Rightarrow> sockets (mgr N) 4 \<noteq> None
     \<and> started N 4 = [MessageEncoder (1, 7), MessageEncoder (2, 7)] \<and> taken N 4 = map MessageEncoder [(1, 7), (2, 7), (3, 7)]
   | Inl _ \<Rightarrow> False"
  unfolding order_script_def by code_simp

theorem messages_in_order_witness:
  "\<exists>N. net_run 0 True order_script net_init = Inr N \<and> sockets (mgr N) 4 \<noteq> None
    \<and> taken N 4 = started N 4 @ connecting (about 4 (frames N)) @ queued (outgoing (mgr N) 4)
    \<and> started N 4 = [MessageEncoder (1, 7), MessageEncoder (2, 7)]"
  using messages_in_order [of 0 True order_script] order_script_open by auto

text \<open>C12.
  A process that linked to a remote UPID has a persistent connection to its address, and closing that connection delivers an
  exited event for the UPID to the process and drops the link: the loss of a linked connection is never missed, also after
  reconnects and downgrades.
\<close>

theorem lost_link_is_notified:
  "\<exists>N. net_run self fl cs net_init = Inr N \<and>
    (\<forall>p u. (p, u) \<in> rel (sm_links (mgr N)) \<longrightarrow> snd u \<noteq> self \<longrightarrow>
      (\<exists>s M ev. persists (mgr N) (snd u) = Some s \<and> sockets (mgr N) s \<noteq> None \<and> sm_close s (mgr N) = Inr (M, ev)
        \<and> Deliver (p, u, None) \<in> set ev \<and> (p, u) \<notin> rel (sm_links M) \<and> persists M (snd u) = None))"
proof -
  obtain N where N: "net_run self fl cs net_init = Inr N" "net_inv self N" using net_run_inv [OF net_inv_init] by blast
  note i = sm_invD [OF net_invD(1) [OF N(2)]]
  have "\<exists>s M ev. persists (mgr N) (snd u) = Some s \<and> sockets (mgr N) s \<noteq> None \<and> sm_close s (mgr N) = Inr (M, ev)
        \<and> Deliver (p, u, None) \<in> set ev \<and> (p, u) \<notin> rel (sm_links M) \<and> persists M (snd u) = None"
    if pu: "(p, u) \<in> rel (sm_links (mgr N))" "snd u \<noteq> self" for p u
  proof -
    let ?a = "snd u"
    have "remotes (sm_links (mgr N)) ?a \<noteq> None" unfolding links_inv_remotes [OF i(1)] using pu by blast
    then obtain s where s: "persists (mgr N) ?a = Some s" using i(6) by blast
    have a: "addresses (mgr N) s = Some ?a" using i(3) [OF s] by blast
    have o: "sockets (mgr N) s \<noteq> None" using i(2) [OF a] by blast
    obtain L ev where L: "exited_address ?a (sm_links (mgr N)) = Inr (L, ev)" "links_inv self L"
        "rel L = {(p, v) \<in> rel (sm_links (mgr N)). snd v \<noteq> ?a \<or> ?a = self}"
        "set ev = {(p, v, None) |p v. (p, v) \<in> rel (sm_links (mgr N)) \<and> snd v = ?a \<and> ?a \<noteq> self}"
      using exited_address_some [OF i(1), of ?a] by blast
    have "(p, u, None) \<in> set ev" "(p, u) \<notin> rel L" using pu by (auto simp: L(3,4))
    then show ?thesis using s o a L(1) by (auto simp: sm_close_def forget_address_def)
  qed
  with N(1) show ?thesis by blast
qed

definition link_script :: "net_call list" where
  "link_script = [LinkTo 1 (5, 7) False (Some (3, SSL)), LinkConnected 3 SSL (5, 7) ConnectFailed (Some (4, POLL)),
     LinkTo 2 (5, 7) True (Some (6, POLL)), LinkConnected 6 POLL (5, 7) Connected None]"

lemma link_script_linked:
  "case net_run 0 True link_script net_init of Inr N \<Rightarrow>
     (5, 7) \<in> set (entries (linkees (sm_links (mgr N))) 1) | Inl _ \<Rightarrow> False"
  unfolding link_script_def by code_simp

theorem lost_link_is_notified_witness:
  "\<exists>N s M ev. net_run 0 True link_script net_init = Inr N \<and> persists (mgr N) 7 = Some s \<and> sm_close s (mgr N) = Inr (M, ev)
    \<and> Deliver (1, (5, 7), None) \<in> set ev"
proof -
  obtain N where N: "net_run 0 True link_script net_init = Inr N"
      "\<forall>p u. (p, u) \<in> rel (sm_links (mgr N)) \<longrightarrow> snd u \<noteq> 0 \<longrightarrow>
      (\<exists>s M ev. persists (mgr N) (snd u) = Some s \<and> sockets (mgr N) s \<noteq> None \<and> sm_close s (mgr N) = Inr (M, ev)
        \<and> Deliver (p, u, None) \<in> set ev \<and> (p, u) \<notin> rel (sm_links M) \<and> persists M (snd u) = None)"
    using lost_link_is_notified [of 0 True link_script] by (elim exE conjE) (rule that)
  have "(1, (5, 7)) \<in> rel (sm_links (mgr N))"
    unfolding rel_mem using link_script_linked N(1) by simp
  from N(2) [rule_format, OF this] obtain s M ev
    where "persists (mgr N) 7 = Some s" "sm_close s (mgr N) = Inr (M, ev)" "Deliver (1, (5, 7), None) \<in> set ev"
    by auto
  with N(1) show ?thesis by blast
qed

section \<open>Finalization\<close>

lemma close_all_some:
  assumes "sm_inv self M"
  shows "\<exists>M' ev. close_all ss M = Inr (M', ev) \<and> sm_inv self M' \<and> (\<forall>t. sockets M' t = (if t \<in> set ss then None else sockets M t))"
  using assms
proof (induction ss arbitrary: M)
  case Nil
  then show ?case by simp
next
  case (Cons s ss)
  obtain M1 ev1 where 1: "sm_close s M = Inr (M1, ev1)" "sm_inv self M1" "only s M M1" "sockets M1 s = None"
    using sm_close_cases [OF Cons.prems, of s] by blast
  obtain M2 ev2 where "close_all ss M1 = Inr (M2, ev2)" "sm_inv self M2" "\<forall>t. sockets M2 t = (if t \<in> set ss then None else sockets M1 t)"
    using Cons.IH [OF 1(2)] by blast
  with 1 show ?case by (auto simp: only_def)
qed

text \<open>
  finalize closes every socket in whatever order it meets them, no CHECK fails, and nothing is left: no address, no temporary
  or persistent connection, no queue, no proxy, no socket to dispose of and no link to a remote process.
\<close>

theorem finalize_leaves_nothing:
  assumes "net_run self fl cs net_init = Inr N" and "\<forall>s. sockets (mgr N) s \<noteq> None \<longrightarrow> s \<in> set ss"
  shows "\<exists>M ev. close_all ss (mgr N) = Inr (M, ev)
    \<and> (\<forall>s. sockets M s = None \<and> addresses M s = None \<and> outgoing M s = None \<and> proxies M s = None \<and> \<not> disposed M s)
    \<and> (\<forall>a. temps M a = None \<and> persists M a = None \<and> remotes (sm_links M) a = None)"
proof -
  have "net_inv self N" using net_run_inv [OF net_inv_init, of self fl cs] assms(1) by auto
  from close_all_some [OF net_invD(1) [OF this], of ss] obtain M ev
    where M: "close_all ss (mgr N) = Inr (M, ev)" "sm_inv self M" "\<forall>t. sockets M t = (if t \<in> set ss then None else sockets (mgr N) t)"
    by blast
  have s: "sockets M s = None" for s using M(3) assms(2) by auto
  note n = not_addressed [OF M(2) s]
  have "temps M a = None \<and> persists M a = None" for a using n(5,6) by (metis not_None_eq)
  moreover from this have "remotes (sm_links M) a = None" for a using linked_persistent [OF M(2), of a] by metis
  ultimately show ?thesis using M(1) s n by blast
qed

lemma accepted_run:
  "net_run 0 True [Accepted 3 POLL, SendEncoder (HttpResponseEncoder 9) True 3] net_init
    = Inr \<lparr>mgr = sm_init\<lparr>sockets := [3 \<mapsto> POLL], outgoing := [3 \<mapsto> []]\<rparr>, frames = [Sending 3 (HttpResponseEncoder 9), Client 3],
        taken = (\<lambda>_. [])(3 := [HttpResponseEncoder 9]), started = (\<lambda>_. [])(3 := [HttpResponseEncoder 9])\<rparr>"
  by (simp add: net_init_def sm_init_def fresh_def sm_accepted_def send_encoder_def spawns_def renew_def start_def take_encoder_def)

theorem finalize_leaves_nothing_witness:
  "\<exists>M ev. close_all [3] (sm_init\<lparr>sockets := [3 \<mapsto> POLL], outgoing := [3 \<mapsto> []]\<rparr>) = Inr (M, ev) \<and> (\<forall>s. sockets M s = None)"
proof -
  have "\<forall>s. sockets (sm_init\<lparr>sockets := [3 \<mapsto> POLL], outgoing := [3 \<mapsto> []]\<rparr>) s \<noteq> None \<longrightarrow> s \<in> set [3]" by simp
  then show ?thesis using finalize_leaves_nothing [OF accepted_run, of "[3]"] unfolding net.simps by blast
qed

text \<open>
  \<^verbatim>\<open>send_connect\<close> swaps the socket on a downgrade without looking whether it is still open, as \<^verbatim>\<open>link_connect\<close> does: when
  \<^verbatim>\<open>finalize\<close> closed the socket while it was being connected, the failed connection aborts the program.
\<close>

lemma downgrade_after_finalize_aborts:
  "case net_step 0 True (SendMessage (1, 7) (Some (3, SSL))) net_init of Inr N \<Rightarrow>
     (case close_all [3] (mgr N) of Inr (M, _) \<Rightarrow>
        (case net_step 0 True (SendConnected 3 SSL (1, 7) ConnectFailed (Some (4, POLL))) (N\<lparr>mgr := M\<rparr>) of
           Inl c \<Rightarrow> c = CheckSwapFrom | Inr _ \<Rightarrow> False)
      | Inl _ \<Rightarrow> False)
   | Inl _ \<Rightarrow> False"
  by code_simp

end
