(* ===== verification/Channels.thy ===== *)
theory Channels
  imports Promise_Interface
begin

text \<open>
  Channels whose receive operations return futures: \<^verbatim>\<open>Queue\<close> (\<^verbatim>\<open>include/process/queue.hpp\<close>) and the HTTP \<^verbatim>\<open>Pipe\<close>
  (\<^verbatim>\<open>include/process/http.hpp\<close>, \<^verbatim>\<open>src/http.cpp\<close>). Critical sections are single steps and the promises are completed
  after them, as in the code. Both are modelled over the operations of \<open>promises\<close>; the lemmas inside the
  locale \<open>promise_store\<close> hold for every store with its laws, and the properties are their instances for the future store.
\<close>

section \<open>Queue\<close>

record 'v queue =
  elements :: "'v list"
  q_promises :: "fid list"

definition queue_init :: "'v queue" where
  "queue_init = \<lparr>elements = [], q_promises = []\<rparr>"

definition queue_put :: "('s, 'v) promises \<Rightarrow> 'v \<Rightarrow> 'v queue \<Rightarrow> 's \<Rightarrow> 'v queue \<times> 's" where
  "queue_put P t q s = (case q_promises q of
     [] \<Rightarrow> (q\<lparr>elements := elements q @ [t]\<rparr>, s)
   | promise # rest \<Rightarrow> (q\<lparr>q_promises := rest\<rparr>, destroy_promise P promise (set_promise P promise t s)))"

definition queue_get :: "('s, 'v) promises \<Rightarrow> 'v queue \<Rightarrow> 's \<Rightarrow> 'v queue \<times> 's \<times> fid" where
  "queue_get P q s = (case elements q of
     [] \<Rightarrow> (case new_promise P s of (s', promise) \<Rightarrow> (q\<lparr>q_promises := q_promises q @ [promise]\<rparr>, s', promise))
   | t # rest \<Rightarrow> (case new_ready P t s of (s', future) \<Rightarrow> (q\<lparr>elements := rest\<rparr>, s', future)))"

text \<open>The discard handler that \<^verbatim>\<open>get\<close> installs on the future of a waiting promise.\<close>

definition queue_discard :: "('s, 'v) promises \<Rightarrow> fid \<Rightarrow> 'v queue \<Rightarrow> 's \<Rightarrow> 'v queue \<times> 's" where
  "queue_discard P future q s =
    (if future \<in> set (q_promises q)
     then (q\<lparr>q_promises := remove1 future (q_promises q)\<rparr>, destroy_promise P future (discard_promise P future s))
     else (q, s))"

definition queue_size :: "'v queue \<Rightarrow> nat" where
  "queue_size q = length (elements q)"

datatype 'v queue_op = Put 'v | Get | Discard fid

text \<open>A run: the queue, the store, the futures that \<^verbatim>\<open>get\<close> returned and the values that \<^verbatim>\<open>put\<close> was given, in order.\<close>

fun queue_run :: "('s, 'v) promises \<Rightarrow> 'v queue_op list \<Rightarrow> 'v queue \<times> 's \<times> fid list \<times> 'v list
    \<Rightarrow> 'v queue \<times> 's \<times> fid list \<times> 'v list" where
  "queue_run P [] c = c"
| "queue_run P (Put t # ops) (q, s, gets, puts) =
    (case queue_put P t q s of (q', s') \<Rightarrow> queue_run P ops (q', s', gets, puts @ [t]))"
| "queue_run P (Get # ops) (q, s, gets, puts) =
    (case queue_get P q s of (q', s', f) \<Rightarrow> queue_run P ops (q', s', gets @ [f], puts))"
| "queue_run P (Discard f # ops) (q, s, gets, puts) =
    (case queue_discard P f q s of (q', s') \<Rightarrow> queue_run P ops (q', s', gets, puts))"

section \<open>Pipe\<close>

datatype read_end = ReadOpen | ReadClosed
datatype write_end = WriteOpen | WriteClosed | WriteFailed

record pipe =
  readEnd :: read_end
  writeEnd :: write_end
  reads :: "fid list"
  writes :: "string list"
  readerClosure :: fid
  failure :: "string option"

definition pipe_new :: "('s, 'v) promises \<Rightarrow> 's \<Rightarrow> pipe \<times> 's" where
  "pipe_new P s = (case new_promise P s of (s', f) \<Rightarrow>
     (\<lparr>readEnd = ReadOpen, writeEnd = WriteOpen, reads = [], writes = [], readerClosure = f, failure = None\<rparr>, s'))"

text \<open>\<^verbatim>\<open>Future<T>(Failure)\<close>: a new future that is failed at once.\<close>

definition new_failed :: "('s, 'v) promises \<Rightarrow> string \<Rightarrow> 's \<Rightarrow> 's \<times> fid" where
  "new_failed P m s = (case new_promise P s of (s', f) \<Rightarrow> (fail_promise P f m s', f))"

text \<open>\<open>str\<close> makes a value of a string, \<open>nothing\<close> is the value of \<^verbatim>\<open>Nothing()\<close>. \<open>None\<close>: \<^verbatim>\<open>CHECK_SOME(data->failure)\<close> fails.\<close>

definition pipe_read :: "('s, 'v) promises \<Rightarrow> (string \<Rightarrow> 'v) \<Rightarrow> pipe \<Rightarrow> 's \<Rightarrow> (pipe \<times> 's \<times> fid) option" where
  "pipe_read P str p s =
    (if readEnd p = ReadClosed then (case new_failed P ''closed'' s of (s', f) \<Rightarrow> Some (p, s', f))
     else case writes p of
       w # rest \<Rightarrow> (case new_ready P (str w) s of (s', f) \<Rightarrow> Some (p\<lparr>writes := rest\<rparr>, s', f))
     | [] \<Rightarrow> (case writeEnd p of
         WriteClosed \<Rightarrow> (case new_ready P (str []) s of (s', f) \<Rightarrow> Some (p, s', f))
       | WriteFailed \<Rightarrow> (case failure p of
           None \<Rightarrow> None
         | Some m \<Rightarrow> (case new_failed P m s of (s', f) \<Rightarrow> Some (p, s', f)))
       | WriteOpen \<Rightarrow> (case new_promise P s of (s', f) \<Rightarrow> Some (p\<lparr>reads := reads p @ [f]\<rparr>, s', f))))"

definition pipe_read_close :: "('s, 'v) promises \<Rightarrow> 'v \<Rightarrow> pipe \<Rightarrow> 's \<Rightarrow> pipe \<times> 's \<times> bool" where
  "pipe_read_close P nothing p s =
    (if readEnd p = ReadOpen then
       let s1 = fold (\<lambda>f s. destroy_promise P f (fail_promise P f ''closed'' s)) (reads p) s in
       (p\<lparr>writes := [], reads := [], readEnd := ReadClosed\<rparr>,
        if writeEnd p = WriteOpen then set_promise P (readerClosure p) nothing s1 else discard_promise P (readerClosure p) s1,
        True)
     else (p, s, False))"

definition pipe_write :: "('s, 'v) promises \<Rightarrow> (string \<Rightarrow> 'v) \<Rightarrow> string \<Rightarrow> pipe \<Rightarrow> 's \<Rightarrow> pipe \<times> 's \<times> bool" where
  "pipe_write P str w p s =
    (if writeEnd p = WriteOpen \<and> readEnd p = ReadOpen then
       if w = [] then (p, s, True)
       else (case reads p of
           [] \<Rightarrow> (p\<lparr>writes := writes p @ [w]\<rparr>, s, True)
         | f # rest \<Rightarrow> (p\<lparr>reads := rest\<rparr>, destroy_promise P f (set_promise P f (str w) s), True))
     else (p, s, False))"

definition pipe_write_close :: "('s, 'v) promises \<Rightarrow> (string \<Rightarrow> 'v) \<Rightarrow> pipe \<Rightarrow> 's \<Rightarrow> pipe \<times> 's \<times> bool" where
  "pipe_write_close P str p s =
    (if writeEnd p = WriteOpen then
       (p\<lparr>reads := [], writeEnd := WriteClosed\<rparr>, fold (\<lambda>f s. destroy_promise P f (set_promise P f (str []) s)) (reads p) s, True)
     else (p, s, False))"

definition pipe_fail :: "('s, 'v) promises \<Rightarrow> string \<Rightarrow> pipe \<Rightarrow> 's \<Rightarrow> pipe \<times> 's \<times> bool" where
  "pipe_fail P m p s =
    (if writeEnd p = WriteOpen then
       (p\<lparr>reads := [], writeEnd := WriteFailed, failure := Some m\<rparr>, fold (\<lambda>f s. destroy_promise P f (fail_promise P f m s)) (reads p) s, True)
     else (p, s, False))"

datatype pipe_op = Read | CloseRead | Write string | CloseWrite | FailWrite string

text \<open>
  A run: the pipe, the store, the futures that \<^verbatim>\<open>read\<close> returned, the non-empty strings that \<^verbatim>\<open>write\<close> accepted and whether the
  reader was closed before the writer.
\<close>

fun pipe_run :: "('s, 'v) promises \<Rightarrow> (string \<Rightarrow> 'v) \<Rightarrow> 'v \<Rightarrow> pipe_op list \<Rightarrow> pipe \<times> 's \<times> fid list \<times> string list \<times> bool
    \<Rightarrow> (pipe \<times> 's \<times> fid list \<times> string list \<times> bool) option" where
  "pipe_run P str n [] c = Some c"
| "pipe_run P str n (Read # ops) (p, s, rs, ws, e) =
    (case pipe_read P str p s of None \<Rightarrow> None | Some (p', s', f) \<Rightarrow> pipe_run P str n ops (p', s', rs @ [f], ws, e))"
| "pipe_run P str n (CloseRead # ops) (p, s, rs, ws, e) =
    (case pipe_read_close P n p s of (p', s', b) \<Rightarrow>
       pipe_run P str n ops (p', s', rs, ws, if b then writeEnd p = WriteOpen else e))"
| "pipe_run P str n (Write w # ops) (p, s, rs, ws, e) =
    (case pipe_write P str w p s of (p', s', b) \<Rightarrow> pipe_run P str n ops (p', s', rs, if b \<and> w \<noteq> [] then ws @ [w] else ws, e))"
| "pipe_run P str n (CloseWrite # ops) (p, s, rs, ws, e) =
    (case pipe_write_close P str p s of (p', s', b) \<Rightarrow> pipe_run P str n ops (p', s', rs, ws, e))"
| "pipe_run P str n (FailWrite m # ops) (p, s, rs, ws, e) =
    (case pipe_fail P m p s of (p', s', b) \<Rightarrow> pipe_run P str n ops (p', s', rs, ws, e))"

text \<open>What the holder of a read sees that received no string; \<open>all\<close>: every string was received.\<close>

definition later_read :: "(string \<Rightarrow> 'v) \<Rightarrow> bool \<Rightarrow> pipe \<Rightarrow> fstate \<times> 'v option \<Rightarrow> bool" where
  "later_read str all p out = (case readEnd p of
     ReadOpen \<Rightarrow> out = (case writeEnd p of WriteOpen \<Rightarrow> (PENDING, None) | WriteClosed \<Rightarrow> (READY, Some (str [])) | WriteFailed \<Rightarrow> (FAILED, None))
   | ReadClosed \<Rightarrow> out = (FAILED, None) \<or> out = (READY, Some (str [])) \<and> writeEnd p = WriteClosed \<and> all)"

section \<open>Futures that were handed out\<close>

context promise_store
begin

text \<open>What a holder of the future sees.\<close>

definition sees :: "'s \<Rightarrow> fid \<Rightarrow> fstate \<times> 'v option" where
  "sees s f = (status P s f, if status P s f = READY then content s f else None)"

definition issued_ok :: "'s \<Rightarrow> fid list \<Rightarrow> bool" where
  "issued_ok s fs \<longleftrightarrow> distinct fs \<and> (\<forall>f\<in>set fs. f < bound s \<and> free s f)"

lemma sees_new:
  assumes "issued_ok s fs"
  shows "new_promise P s = (s', f) \<Longrightarrow> issued_ok s' (fs @ [f]) \<and> sees s' f = (PENDING, None) \<and> (\<forall>g\<in>set fs. sees s' g = sees s g)"
    and "new_ready P v s = (s', f) \<Longrightarrow> issued_ok s' (fs @ [f]) \<and> sees s' f = (READY, Some v) \<and> (\<forall>g\<in>set fs. sees s' g = sees s g)"
proof -
  have old: "g \<noteq> bound s" if "g \<in> set fs" for g using assms that by (auto simp: issued_ok_def)
  show "issued_ok s' (fs @ [f]) \<and> sees s' f = (PENDING, None) \<and> (\<forall>g\<in>set fs. sees s' g = sees s g)" if "new_promise P s = (s', f)"
    using new_promise [OF that] assms old by (auto simp: issued_ok_def sees_def)
  show "issued_ok s' (fs @ [f]) \<and> sees s' f = (READY, Some v) \<and> (\<forall>g\<in>set fs. sees s' g = sees s g)" if "new_ready P v s = (s', f)"
    using new_ready [OF that] assms old by (auto simp: issued_ok_def sees_def)
qed

lemma sees_complete:
  assumes "issued_ok s fs" and "f \<in> set fs" and "sees s f = (PENDING, None)"
  shows "issued_ok (destroy_promise P f (set_promise P f v s)) fs
      \<and> sees (destroy_promise P f (set_promise P f v s)) = (sees s)(f := (READY, Some v))"
    and "issued_ok (destroy_promise P f (fail_promise P f m s)) fs
      \<and> sees (destroy_promise P f (fail_promise P f m s)) = (sees s)(f := (FAILED, None))"
    and "issued_ok (destroy_promise P f (discard_promise P f s)) fs
      \<and> sees (destroy_promise P f (discard_promise P f s)) = (sees s)(f := (DISCARDED, None))"
proof -
  have f: "free s f" "status P s f = PENDING" using assms by (auto simp: issued_ok_def sees_def)
  note laws = set_promise [OF f, of v] fail_promise [OF f, of m] discard_promise [OF f]
    destroy_promise [of f "set_promise P f v s"] destroy_promise [of f "fail_promise P f m s"] destroy_promise [of f "discard_promise P f s"]
  show "issued_ok (destroy_promise P f (set_promise P f v s)) fs
      \<and> sees (destroy_promise P f (set_promise P f v s)) = (sees s)(f := (READY, Some v))"
    using laws assms(1) by (auto simp: issued_ok_def sees_def fun_eq_iff)
  show "issued_ok (destroy_promise P f (fail_promise P f m s)) fs
      \<and> sees (destroy_promise P f (fail_promise P f m s)) = (sees s)(f := (FAILED, None))"
    using laws assms(1) by (auto simp: issued_ok_def sees_def fun_eq_iff)
  show "issued_ok (destroy_promise P f (discard_promise P f s)) fs
      \<and> sees (destroy_promise P f (discard_promise P f s)) = (sees s)(f := (DISCARDED, None))"
    using laws assms(1) by (auto simp: issued_ok_def sees_def fun_eq_iff)
qed

text \<open>Completing a list of waiting futures, one after the other.\<close>

lemma sees_fold:
  assumes step: "\<And>s f. issued_ok s fs \<Longrightarrow> f \<in> set fs \<Longrightarrow> sees s f = (PENDING, None) \<Longrightarrow> issued_ok (c f s) fs \<and> sees (c f s) = (sees s)(f := r)"
    and "issued_ok s fs" and "set ws \<subseteq> set fs" and "distinct ws" and "\<forall>f\<in>set ws. sees s f = (PENDING, None)"
  shows "issued_ok (fold c ws s) fs \<and> sees (fold c ws s) = (\<lambda>f. if f \<in> set ws then r else sees s f)"
  using assms(2-)
proof (induction ws arbitrary: s)
  case (Cons w ws)
  have s: "issued_ok (c w s) fs" "sees (c w s) = (sees s)(w := r)" using step [of s w] Cons.prems by auto
  moreover have "\<forall>f\<in>set ws. sees (c w s) f = (PENDING, None)" using Cons.prems(3,4) s(2) by auto
  ultimately show ?case using Cons.IH [of "c w s"] Cons.prems(2,3) by (auto simp: fun_eq_iff)
qed simp

section \<open>Runs of a queue\<close>

text \<open>
  The futures that were not discarded: first those that received the values put so far, in order, then the waiting ones.
  There are waiting futures only if all values were received.
\<close>

definition live :: "'s \<Rightarrow> fid list \<Rightarrow> fid list" where
  "live s fs = filter (\<lambda>f. fst (sees s f) \<noteq> DISCARDED) fs"

definition queue_inv :: "'v queue \<times> 's \<times> fid list \<times> 'v list \<Rightarrow> bool" where
  "queue_inv c = (case c of (q, s, gets, puts) \<Rightarrow> issued_ok s gets
     \<and> (\<exists>D vs. live s gets = D @ q_promises q \<and> map (sees s) D = map (\<lambda>v. (READY, Some v)) vs \<and> puts = vs @ elements q)
     \<and> (\<forall>f\<in>set (q_promises q). sees s f = (PENDING, None)) \<and> (q_promises q = [] \<or> elements q = []))"

lemma live_distinct: "issued_ok s fs \<Longrightarrow> distinct (live s fs)"
  by (simp add: live_def issued_ok_def)

lemma live_cong: "(\<And>f. f \<in> set fs \<Longrightarrow> sees s' f = sees s f) \<Longrightarrow> live s' fs = live s fs"
  by (auto simp: live_def intro: filter_cong)

lemma queue_put_inv:
  assumes "queue_inv (q, s, gets, puts)" and "queue_put P t q s = (q', s')"
  shows "queue_inv (q', s', gets, puts @ [t])"
proof (cases "q_promises q")
  case Nil
  with assms show ?thesis by (auto simp: queue_inv_def queue_put_def)
next
  case (Cons f rest)
  from assms(1) obtain D vs where i: "issued_ok s gets" "live s gets = D @ f # rest" "map (sees s) D = map (\<lambda>v. (READY, Some v)) vs"
      "puts = vs" "\<forall>g\<in>set (f # rest). sees s g = (PENDING, None)" "elements q = []"
    using Cons by (auto simp: queue_inv_def)
  have f: "f \<in> set gets" using i(2) by (metis filter_is_subset in_set_conv_decomp live_def subsetD)
  have d: "distinct (D @ f # rest)" using live_distinct [OF i(1)] i(2) by simp
  have q': "q' = q\<lparr>q_promises := rest\<rparr>" and s': "s' = destroy_promise P f (set_promise P f t s)"
    using assms(2) Cons by (auto simp: queue_put_def)
  have c: "issued_ok s' gets" "sees s' = (sees s)(f := (READY, Some t))"
    using sees_complete(1) [OF i(1) f] i(5) s' by auto
  have "live s' gets = live s gets" using i(5) by (auto simp: live_def c(2) intro!: filter_cong)
  moreover have "map (sees s') (D @ [f]) = map (\<lambda>v. (READY, Some v)) (vs @ [t])"
    using i(3) d by (simp add: c(2) map_fun_upd)
  ultimately show ?thesis
    using i c d q' unfolding queue_inv_def by (auto intro!: exI [of _ "D @ [f]"] exI [of _ "vs @ [t]"])
qed

lemma queue_get_inv:
  assumes "queue_inv (q, s, gets, puts)" and "queue_get P q s = (q', s', f)"
  shows "queue_inv (q', s', gets @ [f], puts)"
proof -
  from assms(1) obtain D vs where i: "issued_ok s gets" "live s gets = D @ q_promises q" "map (sees s) D = map (\<lambda>v. (READY, Some v)) vs"
      "puts = vs @ elements q" "\<forall>g\<in>set (q_promises q). sees s g = (PENDING, None)" "q_promises q = [] \<or> elements q = []"
    by (auto simp: queue_inv_def)
  have sub: "set D \<union> set (q_promises q) \<subseteq> set gets" using i(2) by (metis filter_is_subset live_def set_append)
  show ?thesis
  proof (cases "elements q")
    case Nil
    then have n: "new_promise P s = (s', f)" and q': "q' = q\<lparr>q_promises := q_promises q @ [f]\<rparr>"
      using assms(2) by (auto simp: queue_get_def split: prod.splits)
    note c = sees_new(1) [OF i(1) n]
    have "live s' (gets @ [f]) = live s gets @ [f]" using c live_cong [of gets s' s] by (simp add: live_def)
    moreover have "map (sees s') D = map (sees s) D" using c sub by auto
    ultimately show ?thesis using i c sub q' Nil by (auto simp: queue_inv_def)
  next
    case (Cons t rest)
    then have n: "new_ready P t s = (s', f)" and q': "q' = q\<lparr>elements := rest\<rparr>" and p: "q_promises q = []"
      using assms(2) i(6) by (auto simp: queue_get_def split: prod.splits)
    note c = sees_new(2) [OF i(1) n]
    have "live s' (gets @ [f]) = live s gets @ [f]" using c live_cong [of gets s' s] by (simp add: live_def)
    moreover have "map (sees s') (D @ [f]) = map (\<lambda>v. (READY, Some v)) (vs @ [t])" 
    proof -
      have "map (sees s') D = map (sees s) D" using c sub by auto
      then show ?thesis using c i(3) by simp
    qed
    ultimately show ?thesis using i c p q' Cons unfolding queue_inv_def by (auto intro!: exI [of _ "D @ [f]"] exI [of _ "vs @ [t]"])
  qed
qed

lemma queue_discard_inv:
  assumes "queue_inv (q, s, gets, puts)" and "queue_discard P f q s = (q', s')"
  shows "queue_inv (q', s', gets, puts)"
proof (cases "f \<in> set (q_promises q)")
  case False
  with assms show ?thesis by (simp add: queue_discard_def)
next
  case True
  from assms(1) obtain D vs where i: "issued_ok s gets" "live s gets = D @ q_promises q" "map (sees s) D = map (\<lambda>v. (READY, Some v)) vs"
      "puts = vs @ elements q" "\<forall>g\<in>set (q_promises q). sees s g = (PENDING, None)" "q_promises q = [] \<or> elements q = []"
    by (auto simp: queue_inv_def)
  have f: "f \<in> set gets" using i(2) True by (metis UnCI filter_is_subset live_def set_append subsetD)
  have d: "distinct (D @ q_promises q)" using live_distinct [OF i(1)] i(2) by simp
  have q': "q' = q\<lparr>q_promises := remove1 f (q_promises q)\<rparr>" and s': "s' = destroy_promise P f (discard_promise P f s)"
    using assms(2) True by (auto simp: queue_discard_def)
  have c: "issued_ok s' gets" "sees s' = (sees s)(f := (DISCARDED, None))"
    using sees_complete(3) [OF i(1) f] i(5) True s' by auto
  have "live s' gets = filter (\<lambda>g. g \<noteq> f) (live s gets)" by (auto simp: live_def c(2) intro!: filter_cong)
  also have "\<dots> = D @ remove1 f (q_promises q)"
    using d True by (auto simp: i(2) distinct_remove1_removeAll removeAll_filter_not_eq intro!: filter_True arg_cong2 [where f = append] filter_cong)
  finally have "live s' gets = D @ remove1 f (q_promises q)" .
  moreover have "map (sees s') D = map (sees s) D" using d True by (auto simp: c(2))
  ultimately show ?thesis
    using i c d True q' unfolding queue_inv_def by (auto dest: notin_set_remove1 simp: set_remove1_eq)
qed

lemma queue_run_inv: "queue_inv c \<Longrightarrow> queue_inv (queue_run P ops c)"
proof (induction ops arbitrary: c)
  case (Cons op ops)
  obtain q s gets puts where c: "c = (q, s, gets, puts)" by (cases c)
  show ?case
  proof (cases op)
    case (Put t)
    obtain q' s' where r: "queue_put P t q s = (q', s')" by fastforce
    then show ?thesis using Cons.IH [OF queue_put_inv [OF _ r]] Cons.prems c Put by simp
  next
    case Get
    obtain q' s' f where r: "queue_get P q s = (q', s', f)" by (cases "queue_get P q s")
    then show ?thesis using Cons.IH [OF queue_get_inv [OF _ r]] Cons.prems c Get by simp
  next
    case (Discard f)
    obtain q' s' where r: "queue_discard P f q s = (q', s')" by fastforce
    then show ?thesis using Cons.IH [OF queue_discard_inv [OF _ r]] Cons.prems c Discard by simp
  qed
qed simp

lemma queue_inv_init: "queue_inv (queue_init, s, [], [])"
  by (simp add: queue_inv_def queue_init_def issued_ok_def live_def)

text \<open>The futures that \<^verbatim>\<open>get\<close> returned and were not discarded receive the values in the order of \<^verbatim>\<open>put\<close>.\<close>

lemma queue_fifo_run:
  assumes "queue_run P ops (queue_init, s, [], []) = (q, s', gets, puts)"
  shows "map (sees s') (live s' gets) = map (\<lambda>v. (READY, Some v)) (take (length (live s' gets)) puts)
      @ replicate (length (live s' gets) - length puts) (PENDING, None)
    \<and> elements q = drop (length (live s' gets)) puts"
proof -
  obtain D vs where i: "live s' gets = D @ q_promises q" "map (sees s') D = map (\<lambda>v. (READY, Some v)) vs" "puts = vs @ elements q"
      "\<forall>f\<in>set (q_promises q). sees s' f = (PENDING, None)" "q_promises q = [] \<or> elements q = []"
    using queue_run_inv [OF queue_inv_init [of s], of ops] assms by (auto simp: queue_inv_def)
  have l: "length D = length vs" using i(2) by (metis length_map)
  have "map (sees s') (q_promises q) = replicate (length (q_promises q)) (PENDING, None)"
    using i(4) by (simp add: map_replicate_const [symmetric])
  with i l show ?thesis by auto
qed

section \<open>Runs of a pipe\<close>

text \<open>
  The reads: first those that received a string, in the order of the writes, then the others. \<open>str\<close> is the value of a string.
\<close>

definition pipe_ok :: "(string \<Rightarrow> 'v) \<Rightarrow> 'v \<Rightarrow> fid list \<Rightarrow> fid list \<Rightarrow> pipe \<times> 's \<times> fid list \<times> string list \<times> bool \<Rightarrow> bool" where
  "pipe_ok str n D E c = (case c of (p, s, rs, ws, e) \<Rightarrow> issued_ok s (readerClosure p # rs) \<and> rs = D @ E \<and> length D \<le> length ws
     \<and> map (sees s) D = map (\<lambda>w. (READY, Some (str w))) (take (length D) ws)
     \<and> (\<forall>f\<in>set E. later_read str (length D = length ws) p (sees s f))
     \<and> writes p = (if readEnd p = ReadOpen then drop (length D) ws else [])
     \<and> (readEnd p = ReadOpen \<longrightarrow> E \<noteq> [] \<longrightarrow> length D = length ws)
     \<and> reads p = (if readEnd p = ReadOpen \<and> writeEnd p = WriteOpen then E else [])
     \<and> (writeEnd p = WriteFailed \<longrightarrow> failure p \<noteq> None)
     \<and> sees s (readerClosure p) = (if readEnd p = ReadOpen then (PENDING, None) else if e then (READY, Some n) else (DISCARDED, None)))"

lemma new_failed_sees:
  assumes "issued_ok s fs" and "new_failed P m s = (s', f)"
  shows "issued_ok s' (fs @ [f]) \<and> sees s' f = (FAILED, None) \<and> (\<forall>g\<in>set fs. sees s' g = sees s g)"
proof -
  obtain s1 where n: "new_promise P s = (s1, f)" and s': "s' = fail_promise P f m s1"
    using assms(2) by (auto simp: new_failed_def split: prod.splits)
  note c = sees_new(1) [OF assms(1) n]
  have f: "free s1 f" "status P s1 f = PENDING" using c by (auto simp: issued_ok_def sees_def)
  have "g \<noteq> f" if "g \<in> set fs" for g using c that by (auto simp: issued_ok_def)
  then show ?thesis using c fail_promise [OF f, of m] s' by (auto simp: issued_ok_def sees_def)
qed

lemma pipe_okD:
  assumes "pipe_ok str n D E (p, s, rs, ws, e)"
  shows "issued_ok s (readerClosure p # rs)" and "rs = D @ E" and "length D \<le> length ws"
    and "map (sees s) D = map (\<lambda>w. (READY, Some (str w))) (take (length D) ws)"
    and "f \<in> set E \<Longrightarrow> later_read str (length D = length ws) p (sees s f)"
    and "writes p = (if readEnd p = ReadOpen then drop (length D) ws else [])"
    and "readEnd p = ReadOpen \<Longrightarrow> E \<noteq> [] \<Longrightarrow> length D = length ws"
    and "reads p = (if readEnd p = ReadOpen \<and> writeEnd p = WriteOpen then E else [])"
    and "writeEnd p = WriteFailed \<Longrightarrow> failure p \<noteq> None"
    and "sees s (readerClosure p) = (if readEnd p = ReadOpen then (PENDING, None) else if e then (READY, Some n) else (DISCARDED, None))"
  using assms unfolding pipe_ok_def prod.case by blast+

lemma pipe_okI:
  assumes "issued_ok s (readerClosure p # rs)" and "rs = D @ E" and "length D \<le> length ws"
    and "map (sees s) D = map (\<lambda>w. (READY, Some (str w))) (take (length D) ws)"
    and "\<And>f. f \<in> set E \<Longrightarrow> later_read str (length D = length ws) p (sees s f)"
    and "writes p = (if readEnd p = ReadOpen then drop (length D) ws else [])"
    and "readEnd p = ReadOpen \<Longrightarrow> E \<noteq> [] \<Longrightarrow> length D = length ws"
    and "reads p = (if readEnd p = ReadOpen \<and> writeEnd p = WriteOpen then E else [])"
    and "writeEnd p = WriteFailed \<Longrightarrow> failure p \<noteq> None"
    and "sees s (readerClosure p) = (if readEnd p = ReadOpen then (PENDING, None) else if e then (READY, Some n) else (DISCARDED, None))"
  shows "pipe_ok str n D E (p, s, rs, ws, e)"
  using assms unfolding pipe_ok_def prod.case by blast

text \<open>A read that adds a future to the later ones.\<close>

lemma pipe_ok_later:
  assumes ok: "pipe_ok str n D E (p, s, rs, ws, e)" and new: "issued_ok s' (readerClosure p # rs @ [f])" "sees s' f = r"
      "\<forall>g\<in>set (readerClosure p # rs). sees s' g = sees s g"
    and r: "later_read str (length D = length ws) p r" and w: "readEnd p = ReadOpen \<Longrightarrow> length D = length ws"
    and p': "p' = (if readEnd p = ReadOpen \<and> writeEnd p = WriteOpen then p\<lparr>reads := reads p @ [f]\<rparr> else p)"
  shows "pipe_ok str n D (E @ [f]) (p', s', rs @ [f], ws, e)"
proof -
  note i = pipe_okD [OF ok]
  have l: "later_read str b p' x = later_read str b p x" for b x by (simp add: p' later_read_def)
  have same: "readEnd p' = readEnd p" "writeEnd p' = writeEnd p" "writes p' = writes p" "failure p' = failure p" "readerClosure p' = readerClosure p"
      "reads p' = (if readEnd p = ReadOpen \<and> writeEnd p = WriteOpen then reads p @ [f] else reads p)"
    by (simp_all add: p')
  have "map (sees s') D = map (sees s) D" using new(3) i(2) by auto
  moreover have "later_read str (length D = length ws) p (sees s' g)" if "g \<in> set (E @ [f])" for g
    using that i(2,5) new r by auto
  ultimately show ?thesis
    using i(3,4,6,8-10) new w by (intro pipe_okI) (simp_all add: l same i(2))
qed

lemma pipe_read_ok:
  assumes ok: "pipe_ok str n D E (p, s, rs, ws, e)"
  shows "\<exists>p' s' f D' E'. pipe_read P str p s = Some (p', s', f) \<and> pipe_ok str n D' E' (p', s', rs @ [f], ws, e)"
proof -
  note i = pipe_okD [OF ok]
  show ?thesis
  proof (cases "readEnd p")
    case ReadClosed
    obtain s' f where n: "new_failed P ''closed'' s = (s', f)" by fastforce
    have "pipe_ok str n D (E @ [f]) (p, s', rs @ [f], ws, e)"
      using new_failed_sees [OF i(1) n] ReadClosed by (intro pipe_ok_later [OF ok]) (auto simp: later_read_def)
    then show ?thesis using ReadClosed n by (auto simp: pipe_read_def)
  next
    case ReadOpen
    show ?thesis
    proof (cases "writes p")
      case (Cons w rest)
      obtain s' f where nr: "new_ready P (str w) s = (s', f)" by fastforce
      note c = sees_new(2) [OF i(1) nr]
      have d: "drop (length D) ws = w # rest" using i(6) ReadOpen Cons by simp
      then have lt: "length D < length ws" by (metis drop_all leI list.distinct(1))
      have E: "E = []" using i(7) ReadOpen lt by auto
      have "take (Suc (length D)) ws = take (length D) ws @ [w]" "drop (Suc (length D)) ws = rest"
        using d lt by (simp_all add: take_Suc_conv_app_nth Cons_nth_drop_Suc [symmetric])
      moreover have "map (sees s') D = map (sees s) D" using c i(2) by auto
      ultimately have "pipe_ok str n (D @ [f]) [] (p\<lparr>writes := rest\<rparr>, s', rs @ [f], ws, e)"
        using i c E ReadOpen lt unfolding pipe_ok_def by auto
      then show ?thesis using ReadOpen Cons nr by (auto simp: pipe_read_def)
    next
      case Nil
      then have all: "length D = length ws" using i(3,6) ReadOpen by simp
      show ?thesis
      proof (cases "writeEnd p")
        case WriteOpen
        obtain s' f where np: "new_promise P s = (s', f)" by fastforce
        have "pipe_ok str n D (E @ [f]) (p\<lparr>reads := reads p @ [f]\<rparr>, s', rs @ [f], ws, e)"
          using sees_new(1) [OF i(1) np] all ReadOpen WriteOpen by (intro pipe_ok_later [OF ok]) (auto simp: later_read_def)
        then show ?thesis using ReadOpen Nil WriteOpen np by (auto simp: pipe_read_def)
      next
        case WriteClosed
        obtain s' f where nr: "new_ready P (str []) s = (s', f)" by fastforce
        have "pipe_ok str n D (E @ [f]) (p, s', rs @ [f], ws, e)"
          using sees_new(2) [OF i(1) nr] all ReadOpen WriteClosed by (intro pipe_ok_later [OF ok]) (auto simp: later_read_def)
        then show ?thesis using ReadOpen Nil WriteClosed nr by (auto simp: pipe_read_def)
      next
        case WriteFailed
        then obtain m where m: "failure p = Some m" using i(9) by blast
        obtain s' f where nf: "new_failed P m s = (s', f)" by fastforce
        have "pipe_ok str n D (E @ [f]) (p, s', rs @ [f], ws, e)"
          using new_failed_sees [OF i(1) nf] all ReadOpen WriteFailed by (intro pipe_ok_later [OF ok]) (auto simp: later_read_def)
        then show ?thesis using ReadOpen Nil WriteFailed m nf by (auto simp: pipe_read_def)
      qed
    qed
  qed
qed

lemma issued_ok_swap: "issued_ok s (g # fs) \<Longrightarrow> issued_ok s fs \<and> g \<notin> set fs"
  by (auto simp: issued_ok_def)

lemma issued_ok_cons: "issued_ok s (g # fs) \<Longrightarrow> issued_ok s' fs \<Longrightarrow> bound s' = bound s \<Longrightarrow> free s' g = free s g \<Longrightarrow> issued_ok s' (g # fs)"
  by (auto simp: issued_ok_def)

lemma pipe_write_ok:
  assumes ok: "pipe_ok str n D E (p, s, rs, ws, e)" and r: "pipe_write P str w p s = (p', s', b)"
  shows "\<exists>D' E'. pipe_ok str n D' E' (p', s', rs, if b \<and> w \<noteq> [] then ws @ [w] else ws, e)"
proof (cases "writeEnd p = WriteOpen \<and> readEnd p = ReadOpen \<and> w \<noteq> []")
  case False
  then have "p' = p" "s' = s" "\<not> (b \<and> w \<noteq> [])" using r by (auto simp: pipe_write_def split: if_splits)
  then have "pipe_ok str n D E (p', s', rs, if b \<and> w \<noteq> [] then ws @ [w] else ws, e)" using ok by (auto split: if_splits)
  then show ?thesis by blast
next
  case op: True
  note i = pipe_okD [OF ok]
  have b: "b \<and> w \<noteq> []" using r op by (auto simp: pipe_write_def split: list.splits)
  have E: "reads p = E" using i(8) op by simp
  show ?thesis
  proof (cases E)
    case Nil
    then have "p' = p\<lparr>writes := writes p @ [w]\<rparr>" "s' = s" using r op E by (auto simp: pipe_write_def)
    moreover have "pipe_ok str n D [] (p\<lparr>writes := writes p @ [w]\<rparr>, s, rs, ws @ [w], e)"
      using i Nil op unfolding pipe_ok_def by auto
    ultimately show ?thesis using b by auto
  next
    case (Cons f rest)
    have p': "p' = p\<lparr>reads := rest\<rparr>" and s': "s' = destroy_promise P f (set_promise P f (str w) s)"
      using r op E Cons by (auto simp: pipe_write_def)
    have pend: "sees s g = (PENDING, None)" if "g \<in> set E" for g using i(5) [OF that] op by (simp add: later_read_def)
    have all: "length D = length ws" using i(7) op Cons by simp
    have d: "distinct (readerClosure p # D @ E)" using i(1,2) by (simp add: issued_ok_def)
    have c: "issued_ok s' (readerClosure p # rs)" "sees s' = (sees s)(f := (READY, Some (str w)))"
      using sees_complete(1) [OF i(1), of f "str w"] pend Cons i(2) s' by auto
    have "map (sees s') (D @ [f]) = map (\<lambda>w. (READY, Some (str w))) (take (length (D @ [f])) (ws @ [w]))"
      using i(4) all d Cons by (simp add: c(2) map_fun_upd)
    moreover have "\<forall>g\<in>set rest. sees s' g = (PENDING, None)" using d Cons pend by (auto simp: c(2))
    ultimately have "pipe_ok str n (D @ [f]) rest (p', s', rs, ws @ [w], e)"
      using i all op Cons c d E unfolding pipe_ok_def by (auto simp: p' later_read_def)
    then show ?thesis using b by auto
  qed
qed

text \<open>Closing or failing the writer completes the waiting reads with \<open>r\<close>.\<close>

lemma pipe_write_end_ok:
  assumes ok: "pipe_ok str n D E (p, s, rs, ws, e)" and o: "writeEnd p = WriteOpen"
    and c: "\<And>s f fs. issued_ok s fs \<Longrightarrow> f \<in> set fs \<Longrightarrow> sees s f = (PENDING, None) \<Longrightarrow> issued_ok (c f s) fs \<and> sees (c f s) = (sees s)(f := r)"
    and p': "p' = p\<lparr>reads := [], writeEnd := we, failure := fl\<rparr>"
    and we: "we = WriteClosed \<and> r = (READY, Some (str [])) \<or> we = WriteFailed \<and> r = (FAILED, None) \<and> fl \<noteq> None"
  shows "pipe_ok str n D E (p', fold c (reads p) s, rs, ws, e)"
proof (cases "readEnd p")
  case ReadClosed
  note i = pipe_okD [OF ok]
  have "reads p = []" using i(8) ReadClosed by simp
  then show ?thesis using i ReadClosed o we unfolding pipe_ok_def by (auto simp: p' later_read_def)
next
  case ReadOpen
  note i = pipe_okD [OF ok]
  have E: "reads p = E" using i(8) ReadOpen o by simp
  have pend: "\<forall>g\<in>set E. sees s g = (PENDING, None)" using i(5) ReadOpen o by (auto simp: later_read_def)
  have d: "distinct (readerClosure p # D @ E)" using i(1,2) by (simp add: issued_ok_def)
  have f: "issued_ok (fold c E s) (readerClosure p # rs)" "sees (fold c E s) = (\<lambda>f. if f \<in> set E then r else sees s f)"
    using sees_fold [of "readerClosure p # rs" c r s E] c i(1,2) d pend by auto
  have "map (sees (fold c E s)) D = map (sees s) D" using d by (auto simp: f(2))
  then show ?thesis using i f d ReadOpen we unfolding pipe_ok_def E by (auto simp: p' later_read_def)
qed

lemma closure_sees:
  assumes "issued_ok s fs" and "f \<in> set fs" and "sees s f = (PENDING, None)"
  shows "issued_ok (set_promise P f v s) fs \<and> sees (set_promise P f v s) = (sees s)(f := (READY, Some v))"
    and "issued_ok (discard_promise P f s) fs \<and> sees (discard_promise P f s) = (sees s)(f := (DISCARDED, None))"
proof -
  have f: "free s f" "status P s f = PENDING" using assms by (auto simp: issued_ok_def sees_def)
  show "issued_ok (set_promise P f v s) fs \<and> sees (set_promise P f v s) = (sees s)(f := (READY, Some v))"
    using set_promise [OF f, of v] assms(1) by (auto simp: issued_ok_def sees_def fun_eq_iff)
  show "issued_ok (discard_promise P f s) fs \<and> sees (discard_promise P f s) = (sees s)(f := (DISCARDED, None))"
    using discard_promise [OF f] assms(1) by (auto simp: issued_ok_def sees_def fun_eq_iff)
qed

lemma pipe_read_close_ok:
  assumes ok: "pipe_ok str n D E (p, s, rs, ws, e)" and r: "pipe_read_close P n p s = (p', s', b)"
  shows "pipe_ok str n D E (p', s', rs, ws, if b then writeEnd p = WriteOpen else e)"
proof (cases "readEnd p")
  case ReadClosed
  then show ?thesis using ok r by (auto simp: pipe_read_close_def)
next
  case ReadOpen
  note i = pipe_okD [OF ok]
  let ?c = "\<lambda>f s. destroy_promise P f (fail_promise P f ''closed'' s)" and ?fs = "readerClosure p # rs"
  let ?s = "fold ?c (reads p) s"
  have d: "distinct (readerClosure p # D @ E)" using i(1,2) by (simp add: issued_ok_def)
  have sub: "set (reads p) \<subseteq> set E" "distinct (reads p)" using i(8) d by auto
  have pend: "\<forall>g\<in>set (reads p). sees s g = (PENDING, None)" using i(5,8) ReadOpen by (auto simp: later_read_def split: if_splits)
  have "issued_ok ?s ?fs \<and> sees ?s = (\<lambda>f. if f \<in> set (reads p) then (FAILED, None) else sees s f)"
  proof (rule sees_fold [OF _ i(1) _ sub(2) pend])
    show "set (reads p) \<subseteq> set ?fs" using sub(1) i(2) by auto
  qed (rule sees_complete(2))
  then have f: "issued_ok ?s ?fs" "sees ?s = (\<lambda>f. if f \<in> set (reads p) then (FAILED, None) else sees s f)" by blast+
  have rc: "sees ?s (readerClosure p) = (PENDING, None)" using f(2) sub d i(10) ReadOpen by auto
  have p': "p' = p\<lparr>writes := [], reads := [], readEnd := ReadClosed\<rparr>" and b: "b"
    and s': "s' = (if writeEnd p = WriteOpen then set_promise P (readerClosure p) n ?s else discard_promise P (readerClosure p) ?s)"
    using r ReadOpen by (auto simp: pipe_read_close_def Let_def)
  have g: "issued_ok s' ?fs" "sees s' = (sees ?s)(readerClosure p := (if writeEnd p = WriteOpen then (READY, Some n) else (DISCARDED, None)))"
    using closure_sees(1) [OF f(1) _ rc, of n] closure_sees(2) [OF f(1) _ rc] s' by auto
  have D: "map (sees s') D = map (sees s) D" using d sub by (auto simp: g(2) f(2))
  have E: "later_read str (length D = length ws) p' (sees s' h)" if "h \<in> set E" for h
  proof (cases "writeEnd p = WriteOpen")
    case True
    then show ?thesis using that d i(8) ReadOpen by (auto simp: later_read_def p' g(2) f(2))
  next
    case False
    then have "reads p = []" using i(8) by simp
    moreover have "length D = length ws" using i(7) [OF ReadOpen] that by (cases E) auto
    ultimately show ?thesis using that d i(5) [OF that] ReadOpen False
      by (cases "writeEnd p") (auto simp: later_read_def p' g(2) f(2))
  qed
  show ?thesis using i g D E d b unfolding pipe_ok_def by (auto simp: p')
qed

lemma pipe_run_ok:
  "pipe_ok str n D E c \<Longrightarrow> \<exists>c' D' E'. pipe_run P str n ops c = Some c' \<and> pipe_ok str n D' E' c'"
proof (induction ops arbitrary: c D E)
  case Nil
  then show ?case by auto
next
  case (Cons op ops)
  obtain p s rs ws e where c: "c = (p, s, rs, ws, e)" by (cases c)
  have ok: "pipe_ok str n D E (p, s, rs, ws, e)" using Cons.prems c by simp
  show ?case
  proof (cases op)
    case Read
    then show ?thesis using pipe_read_ok [OF ok] Cons.IH c by fastforce
  next
    case CloseRead
    obtain p' s' b where r: "pipe_read_close P n p s = (p', s', b)" by (cases "pipe_read_close P n p s")
    then show ?thesis using Cons.IH [OF pipe_read_close_ok [OF ok r]] c CloseRead by simp
  next
    case (Write w)
    obtain p' s' b where r: "pipe_write P str w p s = (p', s', b)" by (cases "pipe_write P str w p s")
    then obtain D' E' where "pipe_ok str n D' E' (p', s', rs, if b \<and> w \<noteq> [] then ws @ [w] else ws, e)" using pipe_write_ok [OF ok r] by blast
    then show ?thesis using Cons.IH c Write r by simp
  next
    case CloseWrite
    show ?thesis
    proof (cases "writeEnd p = WriteOpen")
      case True
      have "pipe_ok str n D E (p\<lparr>reads := [], writeEnd := WriteClosed, failure := failure p\<rparr>,
          fold (\<lambda>f s. destroy_promise P f (set_promise P f (str []) s)) (reads p) s, rs, ws, e)"
        by (rule pipe_write_end_ok [OF ok True sees_complete(1) refl]) auto
      then show ?thesis using Cons.IH c CloseWrite True by (simp add: pipe_write_close_def)
    next
      case False
      then show ?thesis using Cons.IH [OF ok] c CloseWrite by (simp add: pipe_write_close_def)
    qed
  next
    case (FailWrite m)
    show ?thesis
    proof (cases "writeEnd p = WriteOpen")
      case True
      have "pipe_ok str n D E (p\<lparr>reads := [], writeEnd := WriteFailed, failure := Some m\<rparr>,
          fold (\<lambda>f s. destroy_promise P f (fail_promise P f m s)) (reads p) s, rs, ws, e)"
        by (rule pipe_write_end_ok [OF ok True sees_complete(2) refl]) auto
      then show ?thesis using Cons.IH c FailWrite True by (simp add: pipe_fail_def)
    next
      case False
      then show ?thesis using Cons.IH [OF ok] c FailWrite by (simp add: pipe_fail_def)
    qed
  qed
qed

lemma pipe_new_ok:
  assumes "pipe_new P s = (p, s')"
  shows "pipe_ok str n [] [] (p, s', [], [], False)"
proof -
  obtain f where f: "new_promise P s = (s', f)" and p: "p = \<lparr>readEnd = ReadOpen, writeEnd = WriteOpen, reads = [], writes = [], readerClosure = f, failure = None\<rparr>"
    using assms by (auto simp: pipe_new_def split: prod.splits)
  have "issued_ok s []" by (simp add: issued_ok_def)
  from sees_new(1) [OF this f] show ?thesis by (auto simp: pipe_ok_def p)
qed

lemma pipe_runs:
  assumes "pipe_new P s = (p, s')"
  shows "\<exists>p' s'' rs ws e k. pipe_run P str n ops (p, s', [], [], False) = Some (p', s'', rs, ws, e)
    \<and> k \<le> length rs \<and> k \<le> length ws
    \<and> map (sees s'') (take k rs) = map (\<lambda>w. (READY, Some (str w))) (take k ws)
    \<and> list_all (later_read str (k = length ws) p') (map (sees s'') (drop k rs))
    \<and> writes p' = (if readEnd p' = ReadOpen then drop k ws else [])
    \<and> (readEnd p' = ReadClosed \<or> k = length rs \<or> k = length ws)
    \<and> sees s'' (readerClosure p') = (if readEnd p' = ReadOpen then (PENDING, None) else if e then (READY, Some n) else (DISCARDED, None))"
proof -
  obtain p' s'' rs ws e D E where r: "pipe_run P str n ops (p, s', [], [], False) = Some (p', s'', rs, ws, e)"
      and ok: "pipe_ok str n D E (p', s'', rs, ws, e)"
    using pipe_run_ok [OF pipe_new_ok [OF assms], of str n ops] by (metis prod_cases5)
  note i = pipe_okD [OF ok]
  have "readEnd p' = ReadClosed \<or> length D = length rs \<or> length D = length ws"
    using i(2,7) by (cases "readEnd p'"; cases E) auto
  moreover have "list_all (later_read str (length D = length ws) p') (map (sees s'') E)" using i(5) by (auto simp: list_all_iff)
  ultimately show ?thesis using r i(2-4,6,10) by (intro exI [of _ p'] exI [of _ s''] exI [of _ rs] exI [of _ ws] exI [of _ e] exI [of _ "length D"] conjI) simp_all
qed

end

section \<open>Properties\<close>

text \<open>What a holder of the future sees in the future store.\<close>

definition seen :: "'a fstore \<Rightarrow> fid \<Rightarrow> fstate \<times> 'a val option" where
  "seen c f = (status store_promises c f, stored c f)"

lemma sees_seen: "fs.sees c f = seen c f"
proof -
  have "status store_promises c f \<noteq> READY \<Longrightarrow> stored c f = None" by (simp add: stored_def store_promises_def)
  then show ?thesis by (auto simp: fs.sees_def seen_def)
qed

text \<open>
  A Queue delivers every value exactly once and in order, whatever the interleaving of put, get and discards of waiting
  futures: the futures returned by get that were not discarded are completed, in the order of the calls to get, with the values in the
  order of the calls to put; a surplus of gets is pending, a surplus of values is kept in the queue.
\<close>

theorem queue_fifo:
  "case queue_run store_promises ops (queue_init, s, [], []) of (q, s', gets, puts) \<Rightarrow>
     let gs = filter (\<lambda>f. fst (seen s' f) \<noteq> DISCARDED) gets in
     map (seen s') gs = map (\<lambda>v. (READY, Some v)) (take (length gs) puts) @ replicate (length gs - length puts) (PENDING, None)
     \<and> elements q = drop (length gs) puts"
proof -
  obtain q s' gets puts where r: "queue_run store_promises ops (queue_init, s, [], []) = (q, s', gets, puts)"
    using prod_cases4 by blast
  have "fs.sees s' = seen s'" by (simp add: fun_eq_iff sees_seen)
  with fs.queue_fifo_run [OF r] show ?thesis unfolding r by (simp add: fs.live_def Let_def)
qed

text \<open>C18.
  A Pipe delivers what was written in order and loses nothing while the reader is open: for every sequence of reads, writes and
  closes there is a number k such that the first k reads received the first k non-empty strings that write accepted. Every
  later read is pending if both ends are open, has the end of file if the writer was closed and failed if the writer failed or the
  reader was closed, and end of file and pending reads only occur when all strings were read. The future of
  readerClosed is set exactly if the reader was closed before the writer, and discarded if it was closed after it. The CHECK in read holds.
\<close>

theorem pipe_delivers:
  "\<exists>p' s' rs ws e k.
      pipe_run store_promises str n ops (fst (pipe_new store_promises s), snd (pipe_new store_promises s), [], [], False) = Some (p', s', rs, ws, e)
    \<and> k \<le> length rs \<and> k \<le> length ws
    \<and> map (seen s') (take k rs) = map (\<lambda>w. (READY, Some (str w))) (take k ws)
    \<and> list_all (later_read str (k = length ws) p') (map (seen s') (drop k rs))
    \<and> writes p' = (if readEnd p' = ReadOpen then drop k ws else [])
    \<and> (readEnd p' = ReadClosed \<or> k = length rs \<or> k = length ws)
    \<and> seen s' (readerClosure p') = (if readEnd p' = ReadOpen then (PENDING, None) else if e then (READY, Some n) else (DISCARDED, None))"
proof -
  have "fs.sees s' = seen s'" for s' :: "'a fstore" by (simp add: fun_eq_iff sees_seen)
  then show ?thesis using fs.pipe_runs [of s "fst (pipe_new store_promises s)" "snd (pipe_new store_promises s)" str n ops] by simp
qed

end
