(* ===== verification/Http_Encoding.thy ===== *)
theory Http_Encoding
  imports Prelude
begin

text \<open>
  Percent-encoding of \<^verbatim>\<open>src/http.cpp\<close>: \<^verbatim>\<open>http::encode\<close> and \<^verbatim>\<open>http::decode\<close>. A C++ string is a list of bytes; characters of
  Isabelle are bytes. Hexadecimal printing and reading of the standard library are written out.
\<close>

section \<open>Hexadecimal digits\<close>

definition hex_digit :: "nat \<Rightarrow> char" where
  "hex_digit n = (if n < 10 then char_of (48 + n) else char_of (55 + n))"

definition isxdigit :: "char \<Rightarrow> bool" where
  "isxdigit c = (let n = of_char c :: nat in (48 \<le> n \<and> n \<le> 57) \<or> (65 \<le> n \<and> n \<le> 70) \<or> (97 \<le> n \<and> n \<le> 102))"

definition hex_value :: "char \<Rightarrow> nat" where
  "hex_value c = (let n = of_char c :: nat in if n \<le> 57 then n - 48 else if n \<le> 70 then n - 55 else n - 87)"

section \<open>Encoding\<close>

definition reserved :: "char list" where
  "reserved = [CHR ''$'', CHR ''&'', CHR ''+'', CHR '','', CHR ''/'', CHR '':'', CHR '';'', CHR ''='', CHR ''?'', CHR 0x40]"

definition unsafe :: "char list" where
  "unsafe = [CHR '' '', CHR 0x22, CHR ''<'', CHR ''>'', CHR ''#'', CHR ''%'', CHR ''{'', CHR ''}'', CHR ''|'', CHR 0x5C,
     CHR ''^'', CHR ''~'', CHR ''['', CHR '']'', CHR 0x60]"

definition escape :: "char \<Rightarrow> string" where
  "escape c = [CHR ''%'', hex_digit (of_char c div 16), hex_digit (of_char c mod 16)]"

definition encode_char :: "string \<Rightarrow> char \<Rightarrow> string" where
  "encode_char additional c =
    (if c \<in> set reserved \<or> c \<in> set unsafe then escape c
     else if (of_char c :: nat) < 0x20 \<or> (of_char c :: nat) > 0x7F \<or> c \<in> set additional then escape c
     else [c])"

definition http_encode :: "string \<Rightarrow> string \<Rightarrow> string" where
  "http_encode additional s = concat (map (encode_char additional) s)"

section \<open>Decoding\<close>

datatype decode_error = Malformed string | AbortConversion

definition malformed :: "string \<Rightarrow> string \<Rightarrow> decode_error" where
  "malformed s rest = Malformed (''Malformed % escape in '' @ [CHR 0x27] @ s @ [CHR 0x27] @ '': '' @ [CHR 0x27] @ take 3 rest @ [CHR 0x27])"

text \<open>The loop over the rest of the string \<open>s\<close>, from the index \<open>i\<close> on.\<close>

fun decode_from :: "string \<Rightarrow> string \<Rightarrow> decode_error + string" where
  "decode_from s [] = Inr []"
| "decode_from s (c # cs) =
    (if c \<noteq> CHR ''%'' then map_sum id (Cons (if c = CHR ''+'' then CHR '' '' else c)) (decode_from s cs)
     else case cs of
       h # l # rest \<Rightarrow>
         if \<not> isxdigit h \<or> \<not> isxdigit l then Inl (malformed s (c # cs))
         else let v = 16 * hex_value h + hex_value l in
           if v > 255 then Inl AbortConversion else map_sum id (Cons (char_of v)) (decode_from s rest)
     | _ \<Rightarrow> Inl (malformed s (c # cs)))"

definition http_decode :: "string \<Rightarrow> decode_error + string" where
  "http_decode s = decode_from s s"

section \<open>Lemmas\<close>

lemma byte [simp]: "(of_char c :: nat) < 256"
  using nat_of_char_less_256 [of c] by simp

lemma byte_max [simp]: "\<not> 255 < (of_char c :: nat)"
  using byte [of c] by linarith

lemma char_of_of_char_nat [simp]: "char_of (of_char c :: nat) = c"
  by simp

lemma of_char_of_nat: "n < 256 \<Longrightarrow> (of_char (char_of n) :: nat) = n"
  by simp

lemma hex_digit_props:
  assumes "n < 16"
  shows "isxdigit (hex_digit n)" and "hex_value (hex_digit n) = n"
  using assms by (auto simp: isxdigit_def hex_value_def hex_digit_def Let_def)

lemma hex_value_bound: "isxdigit c \<Longrightarrow> hex_value c < 16"
  by (auto simp: isxdigit_def hex_value_def Let_def)

lemma decode_escape: "decode_from s (escape c @ rest) = map_sum id (Cons c) (decode_from s rest)"
proof -
  have d: "(of_char c :: nat) div 16 < 16" "(of_char c :: nat) mod 16 < 16" using byte [of c] by (simp_all add: less_mult_imp_div_less)
  show ?thesis
    using hex_digit_props [OF d(1)] hex_digit_props [OF d(2)] byte [of c] by (simp add: escape_def Let_def)
qed

lemma decode_encode_char: "decode_from s (encode_char additional c @ rest) = map_sum id (Cons c) (decode_from s rest)"
proof (cases "encode_char additional c = escape c")
  case True
  then show ?thesis by (simp only: decode_escape)
next
  case False
  then have "encode_char additional c = [c]" "c \<noteq> CHR ''%''" "c \<noteq> CHR ''+''"
    by (auto simp: encode_char_def reserved_def unsafe_def split: if_splits)
  then show ?thesis by simp
qed

lemma decode_encode_from: "decode_from t (http_encode additional s @ rest) = map_sum id (append s) (decode_from t rest)"
  by (induction s) (simp_all add: http_encode_def decode_encode_char sum.map_comp comp_def sum.map_id, cases "decode_from t rest", simp_all)

text \<open>Encoded strings contain no reserved and no unsafe character but the percent sign.\<close>

lemma encode_char_clean:
  assumes "d \<in> set (encode_char additional c)" and "d \<noteq> CHR ''%''"
  shows "d \<notin> set reserved \<and> d \<notin> set unsafe"
proof (cases "encode_char additional c = escape c")
  case True
  have hex: "hex_digit n \<notin> set reserved \<and> hex_digit n \<notin> set unsafe" if "n < 16" for n
  proof -
    have "n \<in> set [0..<16]" using that by simp
    moreover have "\<forall>n\<in>set [0..<16]. hex_digit n \<notin> set reserved \<and> hex_digit n \<notin> set unsafe" by code_simp
    ultimately show ?thesis by blast
  qed
  have "(of_char c :: nat) div 16 < 16" using byte [of c] by (simp add: less_mult_imp_div_less)
  with assms True hex show ?thesis by (auto simp: escape_def)
next
  case False
  with assms show ?thesis by (auto simp: encode_char_def split: if_splits)
qed

lemma encode_clean:
  assumes "d \<in> set (http_encode additional s)" and "d \<noteq> CHR ''%''"
  shows "d \<notin> set reserved \<and> d \<notin> set unsafe"
  using assms encode_char_clean unfolding http_encode_def by fastforce

lemma encode_nil [simp]: "http_encode additional s = [] \<longleftrightarrow> s = []"
  by (cases s) (auto simp: http_encode_def encode_char_def escape_def)

lemma decode_encode: "http_decode (http_encode additional s) = Inr s"
  using decode_encode_from [of _ additional s "[]"] by (simp add: http_decode_def)

lemma decode_from_no_abort: "decode_from s cs \<noteq> Inl AbortConversion"
proof (induction s cs rule: decode_from.induct)
  case (2 s c cs)
  have v: "16 * hex_value h + hex_value l \<le> 255" if "isxdigit h" "isxdigit l" for h l
    using hex_value_bound [OF that(1)] hex_value_bound [OF that(2)] by simp
  show ?case
  proof (cases "c = CHR ''%''")
    case False
    with 2(1) show ?thesis by (cases "decode_from s cs") auto
  next
    case True
    show ?thesis
    proof (cases cs)
      case (Cons h cs')
      with 2(2) True v show ?thesis
        by (cases cs') (auto simp: malformed_def Let_def not_less [symmetric] split: sum.split, cases "decode_from s (tl cs')", auto)
    qed (use True in \<open>simp add: malformed_def\<close>)
  qed
qed simp

text \<open>C38.
  Percent-encoding is inverted by decoding, for every byte string and whatever additional characters are escaped; the encoded
  string contains no reserved and no unsafe character except the percent sign of an escape, so it can be put in a URL or a query; and decoding
  never reaches its abort, on any input.
\<close>

theorem http_encode_roundtrip:
  "http_decode (http_encode additional s) = Inr s
    \<and> set (http_encode additional s) \<inter> set (reserved @ unsafe) \<subseteq> {CHR ''%''}
    \<and> http_decode t \<noteq> Inl AbortConversion"
proof (intro conjI)
  show "set (http_encode additional s) \<inter> set (reserved @ unsafe) \<subseteq> {CHR ''%''}"
    using encode_clean by fastforce
  show "http_decode t \<noteq> Inl AbortConversion"
    unfolding http_decode_def by (rule decode_from_no_abort)
qed (rule decode_encode)

text \<open>The comment in \<^verbatim>\<open>encode\<close> speaks of ASCII control characters; DEL is one and is not escaped.\<close>

lemma del_is_not_escaped: "http_encode [] [CHR 0x7F] = [CHR 0x7F]"
  by code_simp

end
