(* ===== verification/Http_Url.thy ===== *)
theory Http_Url
  imports Http_Encoding
begin

text \<open>
  Queries and URLs of \<^verbatim>\<open>src/http.cpp\<close>: \<^verbatim>\<open>query::encode\<close>, \<^verbatim>\<open>query::decode\<close>, \<^verbatim>\<open>URL::parse\<close> and the printing of a \<^verbatim>\<open>URL\<close>. They use string
  functions of stout, which is another library: those are parameters of the definitions, and the locale \<open>stout_strings\<close> states what its
  documentation says about them. \<open>ref_strings\<close> are functions that have these laws.
\<close>

section \<open>What stout provides\<close>

text \<open>The decimal digits that the standard library prints.\<close>

fun dec :: "nat \<Rightarrow> string" where
  "dec n = (if n < 10 then [char_of (48 + n)] else dec (n div 10) @ [char_of (48 + n mod 10)])"

declare dec.simps [simp del]

record stout =
  tokenize :: "string \<Rightarrow> string \<Rightarrow> string list"
  split_two :: "string \<Rightarrow> char \<Rightarrow> string list"
  remove_prefix :: "string \<Rightarrow> string \<Rightarrow> string"
  remove_suffix :: "string \<Rightarrow> string \<Rightarrow> string"
  lower :: "string \<Rightarrow> string"
  numify_uint16 :: "string \<Rightarrow> nat option"

text \<open>
  \<^verbatim>\<open>strings::tokenize(s, delims)\<close> returns the maximal non-empty pieces without delimiters, \<^verbatim>\<open>strings::split(s, delim, 2)\<close> splits at the
  first delimiter only, \<^verbatim>\<open>strings::remove\<close> with PREFIX or SUFFIX removes one occurrence if there is one, and \<^verbatim>\<open>numify\<close> reads what is printed.
\<close>

locale stout_strings =
  fixes S :: stout
  assumes tokenize_nil: "tokenize S [] ds = []"
    and tokenize_delim: "d \<in> set ds \<Longrightarrow> tokenize S (d # s) ds = tokenize S s ds"
    and tokenize_last: "t \<noteq> [] \<Longrightarrow> set t \<inter> set ds = {} \<Longrightarrow> tokenize S t ds = [t]"
    and tokenize_more: "t \<noteq> [] \<Longrightarrow> set t \<inter> set ds = {} \<Longrightarrow> d \<in> set ds \<Longrightarrow> tokenize S (t @ d # s) ds = t # tokenize S s ds"
    and split_two_none: "c \<notin> set s \<Longrightarrow> split_two S s c = [s]"
    and split_two_some: "c \<notin> set a \<Longrightarrow> split_two S (a @ c # b) c = [a, b]"
    and remove_prefix_is: "remove_prefix S (x @ s) x = s"
    and remove_prefix_not: "take (length x) s \<noteq> x \<Longrightarrow> remove_prefix S s x = s"
    and remove_suffix_is: "remove_suffix S (s @ x) x = s"
    and remove_suffix_not: "\<nexists>t. s = t @ x \<Longrightarrow> remove_suffix S s x = s"
    and numify_dec: "n < 65536 \<Longrightarrow> numify_uint16 S (dec n) = Some n"

section \<open>Queries\<close>

definition decode_pair :: "string list \<Rightarrow> (string \<rightharpoonup> string) \<Rightarrow> decode_error + (string \<rightharpoonup> string)" where
  "decode_pair pairs result = (case pairs of
     [] \<Rightarrow> Inr result
   | k # vs \<Rightarrow> (case http_decode k of
       Inl e \<Rightarrow> Inl e
     | Inr key \<Rightarrow> (case vs of
         [v] \<Rightarrow> (case http_decode v of Inl e \<Rightarrow> Inl e | Inr value \<Rightarrow> Inr (result(key \<mapsto> value)))
       | [] \<Rightarrow> Inr (result(key \<mapsto> []))
       | _ \<Rightarrow> Inr result)))"

fun decode_tokens :: "stout \<Rightarrow> string list \<Rightarrow> (string \<rightharpoonup> string) \<Rightarrow> decode_error + (string \<rightharpoonup> string)" where
  "decode_tokens S [] result = Inr result"
| "decode_tokens S (t # ts) result = (case decode_pair (split_two S t CHR ''='') result of
     Inl e \<Rightarrow> Inl e
   | Inr result' \<Rightarrow> decode_tokens S ts result')"

definition query_decode :: "stout \<Rightarrow> string \<Rightarrow> decode_error + (string \<rightharpoonup> string)" where
  "query_decode S query = decode_tokens S (tokenize S query '';&'') (\<lambda>_. None)"

definition encode_pair :: "string \<times> string \<Rightarrow> string" where
  "encode_pair kv = http_encode [] (fst kv) @ (if snd kv \<noteq> [] then CHR ''='' # http_encode [] (snd kv) else [])"

text \<open>The pairs of the hash map, in the order of its iteration.\<close>

definition query_encode :: "stout \<Rightarrow> (string \<times> string) list \<Rightarrow> string" where
  "query_encode S qs = remove_suffix S (concat (map (\<lambda>kv. encode_pair kv @ ''&'') qs)) ''&''"

section \<open>URLs\<close>

record 'ip url =
  scheme :: "string option"
  domain :: "string option"
  ip :: "'ip option"
  port :: "nat option"
  path :: string
  query :: "(string \<times> string) list"
  fragment :: "string option"

definition opt :: "('a \<Rightarrow> string) \<Rightarrow> 'a option \<Rightarrow> string" where
  "opt f x = (case x of None \<Rightarrow> [] | Some y \<Rightarrow> f y)"

definition url_print :: "stout \<Rightarrow> ('ip \<Rightarrow> string) \<Rightarrow> 'ip url \<Rightarrow> string" where
  "url_print S show_ip u =
    opt (\<lambda>s. s @ ''://'') (scheme u) @
    (case domain u of Some d \<Rightarrow> d | None \<Rightarrow> opt show_ip (ip u)) @
    opt (\<lambda>p. '':'' @ dec p) (port u) @
    ''/'' @ remove_prefix S (path u) ''/'' @
    (if query u \<noteq> [] then ''?'' @ query_encode S (query u) else []) @
    opt (\<lambda>f. ''#'' @ f) (fragment u)"

text \<open>\<open>TokensOutOfRange\<close>: the source reads \<^verbatim>\<open>tokens[0]\<close> of an empty vector.\<close>

datatype url_error = MissingScheme | HostNotFound | MultiplePorts | PortNotParsed | NoPort | TokensOutOfRange

text \<open>\<^verbatim>\<open>find("://")\<close>: what is before and after the first occurrence.\<close>

fun find_scheme :: "string \<Rightarrow> (string \<times> string) option" where
  "find_scheme [] = None"
| "find_scheme (c # cs) =
    (if take 3 (c # cs) = ''://'' then Some ([], drop 3 (c # cs))
     else map_option (apfst (Cons c)) (find_scheme cs))"

definition defaultPort :: "string \<Rightarrow> nat option" where
  "defaultPort s = (if s = ''http'' then Some 80 else if s = ''https'' then Some 443 else None)"

definition parse_host :: "stout \<Rightarrow> string \<Rightarrow> string \<Rightarrow> string \<Rightarrow> url_error + 'ip url" where
  "parse_host S sch host pth =
    (case tokenize S host '':'' of
       [] \<Rightarrow> Inl TokensOutOfRange
     | t # ts \<Rightarrow>
         if t = [] then Inl HostNotFound
         else if length (t # ts) > 2 then Inl MultiplePorts
         else case (case ts of
               [p] \<Rightarrow> (case numify_uint16 S p of None \<Rightarrow> Inl PortNotParsed | Some n \<Rightarrow> Inr (Some n))
             | _ \<Rightarrow> Inr (defaultPort sch)) of
           Inl e \<Rightarrow> Inl e
         | Inr None \<Rightarrow> Inl NoPort
         | Inr (Some n) \<Rightarrow> Inr \<lparr>scheme = Some sch, domain = Some t, ip = None, port = Some n, path = pth, query = [], fragment = None\<rparr>)"

definition url_parse :: "stout \<Rightarrow> string \<Rightarrow> url_error + 'ip url" where
  "url_parse S s = (case find_scheme s of
     None \<Rightarrow> Inl MissingScheme
   | Some (before, rest) \<Rightarrow>
       let host = takeWhile (\<lambda>c. c \<noteq> CHR ''/'') rest; slash = dropWhile (\<lambda>c. c \<noteq> CHR ''/'') rest in
       if host = [] then Inl HostNotFound
       else parse_host S (lower S before) host (if slash = [] then ''/'' else slash))"

section \<open>Round trips\<close>

lemma dec_digits: "c \<in> set (dec n) \<Longrightarrow> 48 \<le> (of_char c :: nat) \<and> (of_char c :: nat) \<le> 57"
proof (induction n rule: dec.induct)
  case (1 n)
  then show ?case by (subst (asm) dec.simps) (auto split: if_splits)
qed

lemma dec_nonempty [simp]: "dec n \<noteq> []"
  by (subst dec.simps) simp

lemma dec_chars: "CHR '':'' \<notin> set (dec n)" "CHR ''/'' \<notin> set (dec n)"
  using dec_digits by fastforce+

lemma find_scheme_app:
  assumes "CHR '':'' \<notin> set s"
  shows "find_scheme (s @ ''://'' @ rest) = Some (s, rest)"
  using assms by (induction s) (auto simp: apfst_def)

lemma encode_no_delims:
  "CHR ''&'' \<notin> set (http_encode a s)" "CHR '';'' \<notin> set (http_encode a s)" "CHR ''='' \<notin> set (http_encode a s)"
  using encode_clean by (fastforce simp: reserved_def)+

lemma encode_pair_clean: "set (encode_pair kv) \<inter> set '';&'' = {}"
  using encode_no_delims by (auto simp: encode_pair_def)

lemma encode_pair_nil: "encode_pair kv = [] \<longleftrightarrow> kv = ([], [])"
  by (cases kv) (auto simp: encode_pair_def)

fun joined :: "string list \<Rightarrow> string" where
  "joined [] = []"
| "joined [t] = t"
| "joined (t # u # us) = t @ CHR ''&'' # joined (u # us)"

lemma joined_concat: "ts \<noteq> [] \<Longrightarrow> concat (map (\<lambda>t. t @ ''&'') ts) = joined ts @ ''&''"
  by (induction ts rule: joined.induct) simp_all

lemma fold_updates: "distinct (map fst qs) \<Longrightarrow> fold (\<lambda>(k, v) m. m(k \<mapsto> v)) qs m = m ++ map_of qs"
proof (induction qs arbitrary: m)
  case (Cons kv qs)
  obtain k v where kv: "kv = (k, v)" by (cases kv)
  have "k \<notin> dom (map_of qs)" using Cons.prems kv by (simp add: dom_map_of_conv_image_fst)
  then have e: "m(k \<mapsto> v) ++ map_of qs = m ++ map_of (kv # qs)" by (auto simp: kv map_add_def fun_eq_iff split: option.split)
  have "fold (\<lambda>(k, v) m. m(k \<mapsto> v)) (kv # qs) m = fold (\<lambda>(k, v) m. m(k \<mapsto> v)) qs (m(k \<mapsto> v))"
    by (simp only: kv fold_Cons comp_apply prod.case)
  also have "\<dots> = m(k \<mapsto> v) ++ map_of qs" using Cons.prems kv by (intro Cons.IH) simp
  finally show ?case using e by (rule trans)
qed simp

context stout_strings
begin

lemma decode_encoded_pair: "decode_pair (split_two S (encode_pair (k, v)) CHR ''='') m = Inr (m(k \<mapsto> v))"
proof (cases "v = []")
  case True
  then show ?thesis using split_two_none [OF encode_no_delims(3), of "[]" k] by (simp add: encode_pair_def decode_pair_def decode_encode)
next
  case False
  then show ?thesis
    using split_two_some [OF encode_no_delims(3), of "[]" k "http_encode [] v"] by (simp add: encode_pair_def decode_pair_def decode_encode)
qed

lemma query_encode_joined: "query_encode S qs = joined (map encode_pair qs)"
proof (cases "qs = []")
  case True
  then show ?thesis using remove_suffix_not [of "[]" "''&''"] by (simp add: query_encode_def)
next
  case False
  then show ?thesis using joined_concat [of "map encode_pair qs"] remove_suffix_is
    by (simp add: query_encode_def comp_def)
qed

lemma tokenize_joined:
  "\<forall>t\<in>set ts. t \<noteq> [] \<and> set t \<inter> set '';&'' = {} \<Longrightarrow> tokenize S (joined ts) '';&'' = ts"
proof (induction ts rule: joined.induct)
  case 1
  then show ?case by (simp add: tokenize_nil)
next
  case (2 t)
  then show ?case using tokenize_last [of t "'';&''"] by simp
next
  case (3 t u us)
  then show ?case using tokenize_more [of t "'';&''" "CHR ''&''" "joined (u # us)"] by simp
qed

lemma decode_tokens_pairs: "decode_tokens S (map encode_pair qs) m = Inr (fold (\<lambda>(k, v) m. m(k \<mapsto> v)) qs m)"
  by (induction qs arbitrary: m) (auto simp: decode_encoded_pair)

lemma query_decode_encode:
  assumes "([], []) \<notin> set qs" and "distinct (map fst qs)"
  shows "query_decode S (query_encode S qs) = Inr (map_of qs)"
proof -
  have "tokenize S (joined (map encode_pair qs)) '';&'' = map encode_pair qs"
  proof (intro tokenize_joined ballI conjI)
    fix t assume "t \<in> set (map encode_pair qs)"
    then obtain kv where kv: "kv \<in> set qs" "t = encode_pair kv" by auto
    then show "t \<noteq> []" using assms(1) encode_pair_nil by auto
    show "set t \<inter> set '';&'' = {}" unfolding kv(2) by (rule encode_pair_clean)
  qed
  then show ?thesis
    using decode_tokens_pairs fold_updates [OF assms(2)] by (simp add: query_decode_def query_encode_joined)
qed

lemma url_parse_print:
  fixes u :: "'ip url"
  assumes u: "scheme u = Some sch" "domain u = Some host" "ip u = None" "port u = Some n" "path u = ''/'' @ p" "query u = []" "fragment u = None"
    and sch: "CHR '':'' \<notin> set sch" "lower S sch = sch" and host: "host \<noteq> []" "CHR '':'' \<notin> set host" "CHR ''/'' \<notin> set host" and n: "n < 65536"
  shows "url_parse S (url_print S show_ip u) = Inr u"
proof -
  let ?rest = "host @ '':'' @ dec n @ ''/'' @ p"
  have "url_print S show_ip u = sch @ ''://'' @ ?rest"
    using u remove_prefix_is [of "''/''" p] by (simp add: url_print_def opt_def)
  moreover have "find_scheme (sch @ ''://'' @ ?rest) = Some (sch, ?rest)" by (rule find_scheme_app [OF sch(1)])
  moreover have "takeWhile (\<lambda>c. c \<noteq> CHR ''/'') ?rest = host @ '':'' @ dec n" "dropWhile (\<lambda>c. c \<noteq> CHR ''/'') ?rest = ''/'' @ p"
    using host(3) dec_chars(2) [of n] by (auto simp: takeWhile_append dropWhile_append)
  moreover have "tokenize S (host @ '':'' @ dec n) '':'' = [host, dec n]"
    using tokenize_more [of host "'':''" "CHR '':''" "dec n"] tokenize_last [of "dec n" "'':''"] host dec_chars(1) [of n] by simp
  ultimately show ?thesis
    using u sch(2) host(1) numify_dec [OF n] by (simp add: url_parse_def parse_host_def Let_def)
qed

end

section \<open>Functions with these laws\<close>

fun ref_tokens :: "string \<Rightarrow> string \<Rightarrow> string \<Rightarrow> string list" where
  "ref_tokens ds cur [] = (if cur = [] then [] else [cur])"
| "ref_tokens ds cur (c # cs) =
    (if c \<in> set ds then (if cur = [] then ref_tokens ds [] cs else cur # ref_tokens ds [] cs) else ref_tokens ds (cur @ [c]) cs)"

definition to_lower :: "char \<Rightarrow> char" where
  "to_lower c = (let n = of_char c :: nat in if 65 \<le> n \<and> n \<le> 90 then char_of (n + 32) else c)"

definition undec :: "string \<Rightarrow> nat" where
  "undec s = foldl (\<lambda>n c. 10 * n + (of_char c - 48)) 0 s"

definition ref_strings :: stout where
  "ref_strings = \<lparr>
     tokenize = (\<lambda>s ds. ref_tokens ds [] s),
     split_two = (\<lambda>s c. if c \<in> set s then [takeWhile (\<lambda>x. x \<noteq> c) s, tl (dropWhile (\<lambda>x. x \<noteq> c) s)] else [s]),
     remove_prefix = (\<lambda>s x. if take (length x) s = x then drop (length x) s else s),
     remove_suffix = (\<lambda>s x. if length x \<le> length s \<and> drop (length s - length x) s = x then take (length s - length x) s else s),
     lower = map to_lower,
     numify_uint16 = (\<lambda>s. if s \<noteq> [] \<and> (\<forall>c\<in>set s. 48 \<le> (of_char c :: nat) \<and> (of_char c :: nat) \<le> 57) \<and> undec s < 65536 then Some (undec s) else None)\<rparr>"

lemma ref_tokens_clean: "set t \<inter> set ds = {} \<Longrightarrow> ref_tokens ds cur (t @ s) = ref_tokens ds (cur @ t) s"
  by (induction t arbitrary: cur) auto

lemma undec_dec: "undec (dec n) = n"
proof (induction n rule: dec.induct)
  case (1 n)
  show ?case
  proof (cases "n < 10")
    case True
    then show ?thesis by (subst dec.simps) (simp add: undec_def)
  next
    case False
    then have "undec (dec n) = 10 * undec (dec (n div 10)) + n mod 10" by (subst dec.simps) (simp add: undec_def)
    with 1 False show ?thesis by simp
  qed
qed

interpretation rs: stout_strings ref_strings
proof unfold_locales
  fix t ds :: string and d and s :: string
  assume "t \<noteq> []" "set t \<inter> set ds = {}"
  then show "tokenize ref_strings t ds = [t]" and "d \<in> set ds \<Longrightarrow> tokenize ref_strings (t @ d # s) ds = t # tokenize ref_strings s ds"
    using ref_tokens_clean [of t ds "[]" "[]"] ref_tokens_clean [of t ds "[]" "d # s"] by (simp_all add: ref_strings_def)
next
  fix s x :: string
  assume no: "\<nexists>t. s = t @ x"
  have "drop (length s - length x) s \<noteq> x" using no by (metis append_take_drop_id)
  then show "remove_suffix ref_strings s x = s" by (auto simp: ref_strings_def)
next
  fix c and a b :: string
  assume "c \<notin> set a"
  then have "takeWhile (\<lambda>x. x \<noteq> c) (a @ c # b) = a" "dropWhile (\<lambda>x. x \<noteq> c) (a @ c # b) = c # b"
    by (induction a) auto
  then show "split_two ref_strings (a @ c # b) c = [a, b]" by (simp add: ref_strings_def)
next
  fix n :: nat
  assume "n < 65536"
  then show "numify_uint16 ref_strings (dec n) = Some n" using dec_digits [of _ n] by (auto simp: ref_strings_def undec_dec)
qed (auto simp: ref_strings_def)

section \<open>Properties\<close>

text \<open>
  A query survives encoding and decoding: for every hash map of strings, in whatever order its entries are printed, query::decode of
  query::encode is the map again. Keys and values may contain any byte; only an entry with empty key and empty value
  is lost, because it prints as nothing.
\<close>

theorem query_roundtrip:
  assumes "stout_strings S" and "distinct (map fst qs)" and "([], []) \<notin> set qs"
  shows "query_decode S (query_encode S qs) = Inr (map_of qs)"
  using assms by (intro stout_strings.query_decode_encode)

theorem query_roundtrip_witness:
  "query_decode ref_strings (query_encode ref_strings [(''a&b'', ''x=1+2''), (''flag'', []), ([], ''%'')])
    = Inr (map_of [(''a&b'', ''x=1+2''), (''flag'', []), ([], ''%'')])"
  using query_roundtrip [OF rs.stout_strings_axioms, of "[(''a&b'', ''x=1+2''), (''flag'', []), ([], ''%'')]"] by simp

text \<open>
  URL::parse reads back what printing a URL writes: scheme, domain, port and path are the same, for every URL with a scheme in lower case
  and a port, a domain without colon and slash, and no query and fragment (which parse does not support).
\<close>

theorem url_roundtrip:
  fixes u :: "'ip url"
  assumes "stout_strings S" and "u = \<lparr>scheme = Some sch, domain = Some host, ip = None, port = Some n, path = ''/'' @ p, query = [], fragment = None\<rparr>"
    and "CHR '':'' \<notin> set sch" and "lower S sch = sch" and "host \<noteq> []" and "CHR '':'' \<notin> set host" and "CHR ''/'' \<notin> set host" and "n < 65536"
  shows "url_parse S (url_print S show_ip u) = Inr u"
  using assms by (intro stout_strings.url_parse_print) simp_all

definition demo_url :: "nat url" where
  "demo_url = \<lparr>scheme = Some ''http'', domain = Some ''mesos.apache.org'', ip = None, port = Some 5050, path = ''/'' @ ''state/x'', query = [], fragment = None\<rparr>"

theorem url_roundtrip_witness:
  "url_parse ref_strings (url_print ref_strings dec demo_url) = Inr demo_url \<and> url_print ref_strings dec demo_url = ''http://mesos.apache.org:5050/state/x''"
proof
  have "lower ref_strings ''http'' = ''http''" by code_simp
  then show "url_parse ref_strings (url_print ref_strings dec demo_url) = Inr demo_url"
    by (intro url_roundtrip [OF rs.stout_strings_axioms demo_url_def]) simp_all
  show "url_print ref_strings dec demo_url = ''http://mesos.apache.org:5050/state/x''" by code_simp
qed

text \<open>
  A host of colons only leaves no token, and \<^verbatim>\<open>URL::parse\<close> reads \<^verbatim>\<open>tokens[0]\<close> of an empty vector. The check that follows, for an empty
  first token, never fires: with an empty host the port is taken for the host.
\<close>

lemma url_parse_out_of_range:
  assumes "stout_strings S"
  shows "url_parse S ''http://:/'' = Inl TokensOutOfRange"
proof -
  have "tokenize S '':'' '':'' = []"
    using stout_strings.tokenize_delim [OF assms, of "CHR '':''" "'':''" "[]"] stout_strings.tokenize_nil [OF assms] by simp
  then show ?thesis by (simp add: url_parse_def parse_host_def)
qed

lemma url_port_as_host: "url_parse ref_strings ''http://:8080/'' = Inr
    \<lparr>scheme = Some ''http'', domain = Some ''8080'', ip = (None :: nat option), port = Some 80, path = ''/'', query = [], fragment = None\<rparr>"
  by code_simp

end
