(* ===== verification/Time_Series.thy ===== *)
theory Time_Series
  imports Prelude
begin

text \<open>
  \<^verbatim>\<open>include/process/timeseries.hpp\<close>: a bounded series of values by time. The sorted map is a list of pairs with increasing keys. The
  iterator \<^verbatim>\<open>next\<close> is the key it points to, \<open>None\<close> for \<^verbatim>\<open>end()\<close>; reading or advancing it where the standard library has no defined
  behaviour is an error value. Times are integers, as the library has them (nanoseconds).
\<close>

section \<open>Model\<close>

record 'a series =
  window :: int
  capacity :: nat
  vals :: "(int \<times> 'a) list"
  nxt :: "int option"
  index :: "nat option"

datatype series_error = DereferenceEnd | EraseInvalid | IncrementEnd

definition series_new :: "int \<Rightarrow> nat \<Rightarrow> 'a series" where
  "series_new w c = \<lparr>window = w, capacity = max 3 c, vals = [], nxt = None, index = None\<rparr>"

text \<open>\<^verbatim>\<open>values[time] = value\<close>\<close>

fun put :: "int \<Rightarrow> 'a \<Rightarrow> (int \<times> 'a) list \<Rightarrow> (int \<times> 'a) list" where
  "put t v [] = [(t, v)]"
| "put t v ((k, x) # kvs) = (if t < k then (t, v) # (k, x) # kvs else if t = k then (t, v) # kvs else (k, x) # put t v kvs)"

text \<open>\<^verbatim>\<open>upper_bound\<close>, \<^verbatim>\<open>lower_bound\<close>: the elements from there on.\<close>

definition upper_bound :: "int \<Rightarrow> (int \<times> 'a) list \<Rightarrow> (int \<times> 'a) list" where
  "upper_bound t kvs = dropWhile (\<lambda>kv. fst kv \<le> t) kvs"

definition lower_bound :: "int \<Rightarrow> (int \<times> 'a) list \<Rightarrow> (int \<times> 'a) list" where
  "lower_bound t kvs = dropWhile (\<lambda>kv. fst kv < t) kvs"

definition first_key :: "(int \<times> 'a) list \<Rightarrow> int option" where
  "first_key kvs = (case kvs of [] \<Rightarrow> None | kv # _ \<Rightarrow> Some (fst kv))"

text \<open>Subtraction of \<^verbatim>\<open>size_t\<close>.\<close>

definition size_sub :: "nat \<Rightarrow> nat \<Rightarrow> nat" where
  "size_sub a b = (if b \<le> a then a - b else 2 ^ 64 + a - b)"

definition truncate :: "int \<Rightarrow> 'a series \<Rightarrow> series_error + 'a series" where
  "truncate now s =
    (let expired = now - window s; ub = upper_bound expired (vals s) in
     if length (vals s) \<le> 1 \<or> ub = [] then Inr s
     else case index s of
       None \<Rightarrow> Inr (s\<lparr>index := None, vals := ub\<rparr>)
     | Some i \<Rightarrow> (case nxt s of
         None \<Rightarrow> Inl DereferenceEnd
       | Some k \<Rightarrow>
           if fst (hd ub) < k then Inr (s\<lparr>vals := ub, index := Some (size_sub i (length (vals s) - length ub))\<rparr>)
           else Inr (s\<lparr>index := None, vals := ub\<rparr>)))"

text \<open>One iteration of the loop in \<^verbatim>\<open>sparsify\<close>.\<close>

definition restart :: "'a series \<Rightarrow> 'a series" where
  "restart s = (if index s = None \<or> the (index s) > length (vals s) div 2
     then s\<lparr>nxt := first_key (tl (vals s)), index := Some 1\<rparr> else s)"

definition sparsify_once :: "'a series \<Rightarrow> series_error + 'a series" where
  "sparsify_once s =
    (let s1 = restart s in
     case nxt s1 of
       None \<Rightarrow> Inl EraseInvalid
     | Some k \<Rightarrow>
         if k \<notin> fst ` set (vals s1) then Inl EraseInvalid
         else (case upper_bound k (vals s1) of
             [] \<Rightarrow> Inl IncrementEnd
           | _ # rest \<Rightarrow> Inr (s1\<lparr>vals := filter (\<lambda>kv. fst kv \<noteq> k) (vals s1), nxt := first_key rest,
               index := map_option Suc (index s1)\<rparr>)))"

lemma sparsify_once_length: "sparsify_once s = Inr s' \<Longrightarrow> length (vals s') < length (vals s)"
proof -
  assume r: "sparsify_once s = Inr s'"
  have v: "vals (restart s) = vals s" by (simp add: restart_def)
  obtain k where n: "nxt (restart s) = Some k" "k \<in> fst ` set (vals s)"
    using r by (auto simp: sparsify_once_def Let_def v split: option.splits if_splits)
  then have k: "k \<in> fst ` set (vals s)" "vals s' = filter (\<lambda>kv. fst kv \<noteq> k) (vals s)"
    using r by (auto simp: sparsify_once_def Let_def v split: list.splits)
  then obtain kv where "kv \<in> set (vals s)" "fst kv = k" by auto
  then show "length (vals s') < length (vals s)" using k(2) by (auto intro: length_filter_less)
qed

function sparsify :: "'a series \<Rightarrow> series_error + 'a series" where
  "sparsify s = (if length (vals s) > capacity s
     then (case sparsify_once s of Inl e \<Rightarrow> Inl e | Inr s' \<Rightarrow> sparsify s') else Inr s)"
  by auto
termination
  by (relation "measure (\<lambda>s. length (vals s))") (auto dest: sparsify_once_length)

declare sparsify.simps [simp del]

definition series_set :: "int \<Rightarrow> int \<Rightarrow> 'a \<Rightarrow> 'a series \<Rightarrow> series_error + 'a series" where
  "series_set now t v s =
    (let s1 = (if vals s \<noteq> [] \<and> t < fst (last (vals s)) then s\<lparr>index := None\<rparr> else s) in
     case truncate now (s1\<lparr>vals := put t v (vals s1)\<rparr>) of
       Inl e \<Rightarrow> Inl e
     | Inr s2 \<Rightarrow> sparsify s2)"

text \<open>\<^verbatim>\<open>get\<close>: the elements from \<^verbatim>\<open>lower_bound(start)\<close> up to \<^verbatim>\<open>upper_bound(stop)\<close>; \<open>epoch\<close> and \<open>tmax\<close> are the least and greatest time by default.
  \<open>None\<close>: the loop starts behind its end.\<close>

definition series_get :: "int \<Rightarrow> int \<Rightarrow> int option \<Rightarrow> int option \<Rightarrow> 'a series \<Rightarrow> (int \<times> 'a) list option" where
  "series_get epoch tmax start stop s =
    (if start \<noteq> None \<and> stop \<noteq> None \<and> the start > the stop then Some []
     else let lo = lower_bound (case start of Some t \<Rightarrow> t | None \<Rightarrow> epoch) (vals s);
              up = upper_bound (case stop of Some t \<Rightarrow> t | None \<Rightarrow> tmax) (vals s)
          in if length up \<le> length lo then Some (take (length lo - length up) lo) else None)"

definition latest :: "'a series \<Rightarrow> (int \<times> 'a) option" where
  "latest s = (if vals s = [] then None else Some (last (vals s)))"

datatype 'a series_op = SetAt int int 'a | Truncate int

fun series_run :: "'a series_op list \<Rightarrow> 'a series \<Rightarrow> series_error + 'a series" where
  "series_run [] s = Inr s"
| "series_run (SetAt now t v # ops) s = (case series_set now t v s of Inl e \<Rightarrow> Inl e | Inr s' \<Rightarrow> series_run ops s')"
| "series_run (Truncate now # ops) s = (case truncate now s of Inl e \<Rightarrow> Inl e | Inr s' \<Rightarrow> series_run ops s')"

section \<open>Sorted lists of pairs\<close>

abbreviation ordered :: "(int \<times> 'a) list \<Rightarrow> bool" where
  "ordered kvs \<equiv> sorted_wrt (<) (map fst kvs)"

lemma put_keys: "fst ` set (put t v kvs) = insert t (fst ` set kvs)"
  by (induction t v kvs rule: put.induct) auto

lemma put_ordered: "ordered kvs \<Longrightarrow> ordered (put t v kvs)"
proof (induction t v kvs rule: put.induct)
  case (2 t v k x kvs)
  have "\<forall>y\<in>fst ` set (put t v kvs). k < y" if "k < t" using that 2(2) put_keys [of t v kvs] by auto
  then show ?case using 2 by (auto simp: image_iff)
qed simp

lemma put_last:
  assumes "ordered kvs" and "kvs = [] \<or> fst (last kvs) \<le> t"
  shows "\<exists>kvs'. (kvs' = kvs \<or> kvs = kvs' @ [(t, snd (last kvs))]) \<and> put t v kvs = kvs' @ [(t, v)]"
  using assms
proof (induction t v kvs rule: put.induct)
  case (1 t v)
  then show ?case by simp
next
  case (2 t v k x kvs)
  show ?case
  proof (cases "kvs = []")
    case True
    then show ?thesis using 2(3) by auto
  next
    case False
    then have "k < fst (last kvs)" using 2(2) by (simp add: sorted_wrt_append)
    moreover from this have "k < t" using 2(3) False by simp
    ultimately obtain kvs' where k: "kvs' = kvs \<or> kvs = kvs' @ [(t, snd (last kvs))]" "put t v kvs = kvs' @ [(t, v)]"
      using 2 False by auto
    then show ?thesis using \<open>k < t\<close> False by (intro exI [of _ "(k, x) # kvs'"]) auto
  qed
qed

lemma upper_bound_suffix: "\<exists>pre. kvs = pre @ upper_bound t kvs \<and> (\<forall>kv\<in>set pre. fst kv \<le> t)"
  unfolding upper_bound_def by (rule exI [of _ "takeWhile (\<lambda>kv. fst kv \<le> t) kvs"]) (auto dest: set_takeWhileD)

lemma upper_bound_nth:
  assumes "ordered kvs" and "i < length kvs"
  shows "upper_bound (fst (kvs ! i)) kvs = drop (Suc i) kvs"
  using assms
proof (induction kvs arbitrary: i)
  case (Cons kv kvs)
  show ?case
  proof (cases i)
    case 0
    then show ?thesis using Cons.prems(1) by (cases kvs) (auto simp: upper_bound_def)
  next
    case (Suc j)
    then have lt: "fst kv < fst (kvs ! j)" using Cons.prems by auto
    then show ?thesis using Cons Suc by (simp add: upper_bound_def less_imp_le [OF lt])
  qed
qed simp

lemma filter_nth:
  assumes "ordered kvs" and "i < length kvs"
  shows "filter (\<lambda>kv. fst kv \<noteq> fst (kvs ! i)) kvs = take i kvs @ drop (Suc i) kvs"
  using assms
proof (induction kvs arbitrary: i)
  case (Cons kv kvs)
  show ?case
  proof (cases i)
    case 0
    then show ?thesis using Cons.prems(1) by (auto intro!: filter_True)
  next
    case (Suc j)
    then have lt: "fst kv < fst (kvs ! j)" using Cons.prems by auto
    then show ?thesis using Cons Suc by (simp add: less_imp_neq [OF lt])
  qed
qed simp

lemma first_key_drop: "first_key (drop i kvs) = (if i < length kvs then Some (fst (kvs ! i)) else None)"
  by (cases "i < length kvs") (auto simp: first_key_def Cons_nth_drop_Suc [symmetric])

section \<open>Invariant\<close>

text \<open>The keys increase; if there is an index, it is the position that \<^verbatim>\<open>next\<close> points to, and not the first.\<close>

definition series_ok :: "'a series \<Rightarrow> bool" where
  "series_ok s \<longleftrightarrow> ordered (vals s) \<and> capacity s \<ge> 4
     \<and> (\<forall>i. index s = Some i \<longrightarrow> 1 \<le> i \<and> i < length (vals s) \<and> nxt s = Some (fst (vals s ! i)))"

lemma put_ok:
  assumes "series_ok s"
  shows "series_ok ((if vals s \<noteq> [] \<and> t < fst (last (vals s)) then s\<lparr>index := None\<rparr> else s)\<lparr>vals := put t v (vals s)\<rparr>)"
proof (cases "vals s \<noteq> [] \<and> t < fst (last (vals s))")
  case True
  then show ?thesis using assms by (auto simp: series_ok_def put_ordered)
next
  case False
  have o: "ordered (vals s)" using assms by (simp add: series_ok_def)
  obtain kvs' where k: "kvs' = vals s \<or> vals s = kvs' @ [(t, snd (last (vals s)))]" "put t v (vals s) = kvs' @ [(t, v)]"
  proof -
    have "vals s = [] \<or> fst (last (vals s)) \<le> t" using False by auto
    from put_last [OF o this, of v] that show thesis by blast
  qed
  have "i < length (kvs' @ [(t, v)]) \<and> fst ((kvs' @ [(t, v)]) ! i) = fst (vals s ! i)" if "i < length (vals s)" for i
    using k(1)
  proof
    assume "kvs' = vals s" then show ?thesis using that by (simp add: nth_append)
  next
    assume "vals s = kvs' @ [(t, snd (last (vals s)))]"
    then obtain w where "vals s = kvs' @ [(t, w)]" by blast
    then show ?thesis using that by (auto simp: nth_append less_Suc_eq)
  qed
  moreover have "ordered (kvs' @ [(t, v)])" using put_ordered [OF o, of t v] k(2) by simp
  ultimately show ?thesis using assms False by (auto simp: series_ok_def k(2))
qed

lemma truncate_ok:
  assumes "series_ok s"
  shows "\<exists>s'. truncate now s = Inr s' \<and> series_ok s' \<and> capacity s' = capacity s \<and> length (vals s') \<le> length (vals s)
    \<and> (vals s \<noteq> [] \<longrightarrow> vals s' \<noteq> [] \<and> last (vals s') = last (vals s))"
proof -
  let ?ub = "upper_bound (now - window s) (vals s)"
  obtain pre where pre: "vals s = pre @ ?ub" using upper_bound_suffix by blast
  have o: "ordered (vals s)" using assms by (simp add: series_ok_def)
  then have ou: "ordered ?ub" using pre by (metis map_append sorted_wrt_append)
  show ?thesis
  proof (cases "length (vals s) \<le> 1 \<or> ?ub = []")
    case True
    then show ?thesis using assms by (auto simp: truncate_def Let_def)
  next
    case nonempty: False
    then have l: "?ub \<noteq> []" "last ?ub = last (vals s)" "length ?ub \<le> length (vals s)" using pre by (metis last_appendR, metis last_appendR, metis le_add2 length_append)
    show ?thesis
    proof (cases "index s")
      case None
      then show ?thesis using nonempty assms ou l by (auto simp: truncate_def Let_def series_ok_def)
    next
      case (Some i)
      then have i: "1 \<le> i" "i < length (vals s)" "nxt s = Some (fst (vals s ! i))" using assms by (auto simp: series_ok_def)
      show ?thesis
      proof (cases "fst (hd ?ub) < fst (vals s ! i)")
        case False
        then show ?thesis using Some i nonempty assms ou l by (auto simp: truncate_def Let_def series_ok_def)
      next
        case True
        have r: "length (vals s) - length ?ub = length pre" using pre by (metis add_diff_cancel_right' length_append)
        have hd: "hd ?ub = vals s ! length pre" using pre l(1) by (metis hd_conv_nth nth_append_length_plus add_0_right)
        have p: "length pre < i"
        proof (rule ccontr)
          assume "\<not> length pre < i"
          then have "i = length pre \<or> fst (vals s ! i) < fst (vals s ! length pre)"
            using sorted_wrt_nth_less [OF o, of i "length pre"] l(1) pre i(2) by (metis length_append length_greater_0_conv length_map less_add_same_cancel1 linorder_neqE_nat nth_map)
          then show False using True hd by auto
        qed
        have "vals s ! i = ?ub ! (i - length pre)" using pre p by (metis less_or_eq_imp_le not_less nth_append)
        moreover have "i - length pre < length ?ub" using i(2) pre p by (metis add_diff_inverse_nat length_append less_diff_conv2 less_imp_le_nat add.commute)
        ultimately show ?thesis
          using Some i nonempty assms ou l True p r by (auto simp: truncate_def Let_def series_ok_def size_sub_def)
      qed
    qed
  qed
qed

lemma sparsify_once_ok:
  assumes "series_ok s" and big: "length (vals s) > capacity s"
  shows "\<exists>s'. sparsify_once s = Inr s' \<and> series_ok s' \<and> capacity s' = capacity s \<and> length (vals s') = length (vals s) - 1
    \<and> last (vals s') = last (vals s) \<and> set (vals s') \<subseteq> set (vals s)"
proof -
  let ?n = "length (vals s)"
  have o: "ordered (vals s)" and n: "?n \<ge> 5" using assms by (auto simp: series_ok_def)
  obtain i where i: "1 \<le> i" "i \<le> ?n div 2" "index (restart s) = Some i" "nxt (restart s) = Some (fst (vals s ! i))"
  proof (cases "index s = None \<or> the (index s) > ?n div 2")
    case True
    moreover have "first_key (tl (vals s)) = Some (fst (vals s ! 1))" using first_key_drop [of 1 "vals s"] n by (simp add: drop_Suc)
    ultimately show ?thesis using that [of 1] n by (simp add: restart_def)
  next
    case False
    then show ?thesis using that assms(1) by (auto simp: restart_def series_ok_def)
  qed
  have r: "vals (restart s) = vals s" "capacity (restart s) = capacity s" by (simp_all add: restart_def)
  have lt: "i < ?n" "Suc i < ?n" "Suc (Suc i) < ?n" using i(2) n by linarith+
  let ?k = "fst (vals s ! i)" and ?v = "take i (vals s) @ drop (Suc i) (vals s)"
  have ub: "upper_bound ?k (vals s) = vals s ! Suc i # drop (Suc (Suc i)) (vals s)"
    using upper_bound_nth [OF o lt(1)] lt(2) by (simp add: Cons_nth_drop_Suc)
  have f: "filter (\<lambda>kv. fst kv \<noteq> ?k) (vals s) = ?v" by (rule filter_nth [OF o lt(1)])
  let ?s = "(restart s)\<lparr>vals := ?v, nxt := Some (fst (vals s ! Suc (Suc i))), index := Some (Suc i)\<rparr>"
  have "sparsify_once s = Inr ?s"
    using i(3,4) lt r ub f first_key_drop [of "Suc (Suc i)" "vals s"] by (simp add: sparsify_once_def Let_def)
  moreover have "ordered ?v"
  proof -
    have "map fst (vals s) = map fst (take i (vals s)) @ map fst (vals s ! i # drop (Suc i) (vals s))"
      using lt(1) by (simp flip: id_take_nth_drop map_append list.map(2))
    then show ?thesis using o by (simp add: sorted_wrt_append)
  qed
  moreover have "?v ! Suc i = vals s ! Suc (Suc i)" using lt by (simp add: nth_append)
  moreover have "last ?v = last (vals s)" using lt by simp
  moreover have "set ?v \<subseteq> set (vals s)" using set_take_subset set_drop_subset by fastforce
  ultimately show ?thesis using assms(1) lt r by (auto simp: series_ok_def)
qed

lemma sparsify_ok:
  "series_ok s \<Longrightarrow> \<exists>s'. sparsify s = Inr s' \<and> series_ok s' \<and> capacity s' = capacity s \<and> length (vals s') \<le> capacity s
    \<and> (vals s \<noteq> [] \<longrightarrow> vals s' \<noteq> [] \<and> last (vals s') = last (vals s))"
proof (induction s rule: sparsify.induct)
  case (1 s)
  show ?case
  proof (cases "length (vals s) > capacity s")
    case False
    then show ?thesis using 1(2) by (subst sparsify.simps) auto
  next
    case True
    obtain s1 where s1: "sparsify_once s = Inr s1" "series_ok s1" "capacity s1 = capacity s" "length (vals s1) = length (vals s) - 1"
        "last (vals s1) = last (vals s)"
      using sparsify_once_ok [OF 1(2) True] by blast
    have ne: "vals s1 \<noteq> []" using s1(4) True 1(2) by (auto simp: series_ok_def)
    have "sparsify s = sparsify s1" using True s1(1) by (subst sparsify.simps) simp
    then show ?thesis using 1(1) [OF True s1(1,2)] s1(3,5) ne by auto
  qed
qed

lemma put_length: "length (put t v kvs) \<le> Suc (length kvs)"
  by (induction t v kvs rule: put.induct) auto

lemma put_latest:
  assumes "ordered kvs"
  shows "put t v kvs \<noteq> []" and "last (put t v kvs) = (if kvs = [] \<or> fst (last kvs) \<le> t then (t, v) else last kvs)"
  using assms by (induction t v kvs rule: put.induct) (auto split: if_splits dest!: last_in_set)

text \<open>The value with the greatest time that was set, the later one of equals.\<close>

fun newest :: "'a series_op list \<Rightarrow> (int \<times> 'a) option \<Rightarrow> (int \<times> 'a) option" where
  "newest [] cur = cur"
| "newest (SetAt now t v # ops) cur =
    newest ops (case cur of None \<Rightarrow> Some (t, v) | Some (t0, v0) \<Rightarrow> if t0 \<le> t then Some (t, v) else Some (t0, v0))"
| "newest (Truncate now # ops) cur = newest ops cur"

lemma series_set_ok:
  assumes "series_ok s"
  shows "\<exists>s'. series_set now t v s = Inr s' \<and> series_ok s' \<and> capacity s' = capacity s \<and> length (vals s') \<le> capacity s
    \<and> latest s' = (case latest s of None \<Rightarrow> Some (t, v) | Some (t0, v0) \<Rightarrow> if t0 \<le> t then Some (t, v) else Some (t0, v0))"
proof -
  let ?s = "(if vals s \<noteq> [] \<and> t < fst (last (vals s)) then s\<lparr>index := None\<rparr> else s)\<lparr>vals := put t v (vals s)\<rparr>"
  have o: "ordered (vals s)" using assms by (simp add: series_ok_def)
  have v: "vals ?s = put t v (vals s)" "capacity ?s = capacity s" by simp_all
  obtain s1 where s1: "truncate now ?s = Inr s1" "series_ok s1" "capacity s1 = capacity s" "vals s1 \<noteq> []" "last (vals s1) = last (put t v (vals s))"
    using truncate_ok [OF put_ok [OF assms], of now t v] put_latest(1) [OF o] by (auto simp: v)
  obtain s2 where s2: "sparsify s1 = Inr s2" "series_ok s2" "capacity s2 = capacity s" "length (vals s2) \<le> capacity s" "vals s2 \<noteq> []"
      "last (vals s2) = last (put t v (vals s))"
    using sparsify_ok [OF s1(2)] s1(3-5) by auto
  have "series_set now t v s = Inr s2" using s1(1) s2(1) by (auto simp: series_set_def Let_def split: if_splits)
  then show ?thesis
    using s2 put_latest(2) [OF o, of t v] by (auto simp: latest_def split: prod.split)
qed

lemma series_run_ok:
  "series_ok s \<Longrightarrow> length (vals s) \<le> capacity s \<Longrightarrow>
    \<exists>s'. series_run ops s = Inr s' \<and> series_ok s' \<and> length (vals s') \<le> capacity s \<and> capacity s' = capacity s \<and> latest s' = newest ops (latest s)"
proof (induction ops arbitrary: s)
  case (Cons op ops)
  show ?case
  proof (cases op)
    case (SetAt now t v)
    obtain s1 where s1: "series_set now t v s = Inr s1" "series_ok s1" "capacity s1 = capacity s" "length (vals s1) \<le> capacity s"
        "latest s1 = (case latest s of None \<Rightarrow> Some (t, v) | Some (t0, v0) \<Rightarrow> if t0 \<le> t then Some (t, v) else Some (t0, v0))"
      using series_set_ok [OF Cons.prems(1)] by blast
    with Cons.IH [of s1] SetAt show ?thesis by simp
  next
    case (Truncate now)
    obtain s1 where s1: "truncate now s = Inr s1" "series_ok s1" "capacity s1 = capacity s" "length (vals s1) \<le> length (vals s)"
        "vals s \<noteq> [] \<longrightarrow> vals s1 \<noteq> [] \<and> last (vals s1) = last (vals s)"
      using truncate_ok [OF Cons.prems(1)] by blast
    have "latest s1 = latest s" using s1(4,5) by (auto simp: latest_def)
    with s1 Cons.IH [of s1] Cons.prems(2) Truncate show ?thesis by simp
  qed
qed simp

lemma series_new_ok: "4 \<le> c \<Longrightarrow> series_ok (series_new w c)"
  by (simp add: series_ok_def series_new_def)

section \<open>Properties\<close>

text \<open>C39.
  A time series with a capacity of at least four never holds more values than its capacity after a call, keeps them
  in the order of their times and never uses an invalid iterator, for every sequence of set (in or out of order, at any
  clock reading) and truncate; thinning out and truncating never drop the newest value, which is what latest returns.
\<close>

theorem series_bounded:
  fixes ops :: "'a series_op list"
  assumes "4 \<le> c"
  shows "\<exists>s. series_run ops (series_new w c) = Inr s \<and> length (vals s) \<le> c \<and> sorted_wrt (<) (map fst (vals s))
    \<and> latest s = newest ops None"
proof -
  have n: "capacity (series_new w c :: 'a series) = c" "vals (series_new w c :: 'a series) = []"
    using assms by (simp_all add: series_new_def)
  then have l: "latest (series_new w c :: 'a series) = None" by (simp add: latest_def)
  have "length (vals (series_new w c :: 'a series)) \<le> capacity (series_new w c :: 'a series)" using n by simp
  from series_run_ok [OF series_new_ok [OF assms] this, of ops] show ?thesis unfolding n l by (auto simp: series_ok_def)
qed

definition series_script :: "nat series_op list" where
  "series_script = map (\<lambda>i. SetAt 0 (int i) i) [1..<9] @ [SetAt 0 2 99, Truncate 103, SetAt 100 10 7]"

theorem series_bounded_witness:
  "\<exists>s. series_run series_script (series_new 100 4) = Inr s \<and> length (vals s) \<le> 4 \<and> latest s = newest series_script None
    \<and> newest series_script None = Some (10, 7)"
proof -
  have "newest series_script None = Some (10, 7)" by code_simp
  then show ?thesis using series_bounded [of 4 series_script 100] by auto
qed

text \<open>
  With a capacity of three, the least that the constructor allows, \<^verbatim>\<open>next\<close> can become \<^verbatim>\<open>end()\<close> and the next truncation reads it.
\<close>

lemma capacity_three_reads_end:
  "series_run (map (\<lambda>i. SetAt 0 (int i) i) [1..<6] @ [SetAt 102 7 6]) (series_new 100 3) = Inl DereferenceEnd"
  by code_simp

lemma dropWhile_filter:
  assumes "ordered kvs" and up: "\<And>x y. x < y \<Longrightarrow> Q x \<Longrightarrow> Q y"
  shows "dropWhile (\<lambda>kv. \<not> Q (fst kv)) kvs = filter (\<lambda>kv. Q (fst kv)) kvs"
  using assms(1)
proof (induction kvs)
  case (Cons kv kvs)
  show ?case
  proof (cases "Q (fst kv)")
    case True
    then have "filter (\<lambda>kv. Q (fst kv)) kvs = kvs" using Cons.prems up by (intro filter_True) auto
    then show ?thesis using True by simp
  qed (use Cons in simp)
qed simp

lemma lower_upper:
  assumes "ordered kvs"
  shows "lower_bound a kvs = filter (\<lambda>kv. a \<le> fst kv) kvs" and "upper_bound b kvs = filter (\<lambda>kv. b < fst kv) kvs"
  using dropWhile_filter [OF assms, of "\<lambda>x. a \<le> x"] dropWhile_filter [OF assms, of "\<lambda>x. b < x"]
  by (simp_all add: lower_bound_def upper_bound_def not_le not_less)

lemma filter_split:
  assumes "ordered kvs" and "lo \<le> hi \<or> filter (\<lambda>kv. hi < fst kv \<and> fst kv < lo) kvs = []"
  shows "filter (\<lambda>kv. lo \<le> fst kv) kvs = filter (\<lambda>kv. lo \<le> fst kv \<and> fst kv \<le> hi) kvs @ filter (\<lambda>kv. hi < fst kv) kvs"
  using assms
proof (induction kvs)
  case (Cons kv kvs)
  show ?case
  proof (cases "hi < fst kv")
    case True
    then have "filter (\<lambda>kv. lo \<le> fst kv \<and> fst kv \<le> hi) kvs = []" using Cons.prems(1) by (auto simp: filter_empty_conv)
    then show ?thesis using Cons True by (auto split: if_splits)
  qed (use Cons in \<open>auto split: if_splits\<close>)
qed simp

text \<open>
  get returns exactly the values whose time is in the closed range from start to stop, in order of time, where a missing bound is the epoch or
  the greatest time; an inverted range is empty. Walking from lower_bound to upper_bound is the same as filtering all values.
\<close>

theorem series_get_range:
  assumes "4 \<le> c" and "series_run ops (series_new w c) = Inr s" and "list_all (\<lambda>kv. epoch \<le> fst kv \<and> fst kv \<le> tmax) (vals s)"
  shows "series_get epoch tmax start stop s
    = Some (filter (\<lambda>kv. (case start of Some a \<Rightarrow> a | None \<Rightarrow> epoch) \<le> fst kv \<and> fst kv \<le> (case stop of Some b \<Rightarrow> b | None \<Rightarrow> tmax)) (vals s))"
proof -
  let ?lo = "case start of Some a \<Rightarrow> a | None \<Rightarrow> epoch" and ?hi = "case stop of Some b \<Rightarrow> b | None \<Rightarrow> tmax"
  have "series_ok s" using series_run_ok [OF series_new_ok [OF assms(1), of w], of ops] assms(2) by (auto simp: series_new_def)
  then have o: "ordered (vals s)" by (simp add: series_ok_def)
  show ?thesis
  proof (cases "start \<noteq> None \<and> stop \<noteq> None \<and> the start > the stop")
    case True
    then show ?thesis by (auto simp: series_get_def filter_empty_conv)
  next
    case False
    have "?lo \<le> ?hi \<or> filter (\<lambda>kv. ?hi < fst kv \<and> fst kv < ?lo) (vals s) = []"
      using False assms(3) by (auto simp: filter_empty_conv list_all_iff split: option.splits)
    from filter_split [OF o this] show ?thesis
      unfolding series_get_def if_not_P [OF False] by (simp add: Let_def lower_upper [OF o])
  qed
qed

theorem series_get_range_witness:
  "\<exists>s. series_run series_script (series_new 100 4) = Inr s \<and> series_get 0 1000 (Some 5) None s = Some (filter (\<lambda>kv. 5 \<le> fst kv \<and> fst kv \<le> 1000) (vals s))"
proof -
  have "case series_run series_script (series_new 100 4) of Inr s \<Rightarrow> list_all (\<lambda>kv. 0 \<le> fst kv \<and> fst kv \<le> 1000) (vals s) | Inl _ \<Rightarrow> False"
    by code_simp
  then obtain s where s: "series_run series_script (series_new 100 4) = Inr s" "list_all (\<lambda>kv. 0 \<le> fst kv \<and> fst kv \<le> 1000) (vals s)"
    by (auto split: sum.splits)
  with series_get_range [OF _ s, of "Some 5" None] show ?thesis by auto
qed

end
