(* ===== verification/Http_Messages.thy ===== *)
theory Http_Messages
  imports Http_Url
begin

text \<open>
  The values that the HTTP layer passes around, from \<^verbatim>\<open>include/process/http.hpp\<close> and \<^verbatim>\<open>src/http.cpp\<close>: headers with case-insensitive names, status codes,
  requests and responses. A hash map of headers is a list of pairs without two names that are equal up to case; the order of iteration, which a hash
  table leaves open, is the order of insertion. A request or response of type PIPE refers to its pipe by a number.
\<close>

section \<open>Headers\<close>

text \<open>\<^verbatim>\<open>tolower\<close> of the C locale.\<close>

definition tolower :: "char \<Rightarrow> char" where
  "tolower c = (if 65 \<le> (of_char c :: nat) \<and> (of_char c :: nat) \<le> 90 then char_of ((of_char c :: nat) + 32) else c)"

definition CaseInsensitiveEqual :: "string \<Rightarrow> string \<Rightarrow> bool" where
  "CaseInsensitiveEqual left right = (length left = length right \<and> list_all (\<lambda>(l, r). tolower l = tolower r) (zip left right))"

type_synonym headers = "(string \<times> string) list"

text \<open>\<^verbatim>\<open>headers[key] = value\<close> keeps the name that is there; \<^verbatim>\<open>get\<close>, \<^verbatim>\<open>contains\<close> and \<^verbatim>\<open>operator+\<close>, whose \<^verbatim>\<open>insert\<close> does not overwrite.\<close>

fun headers_set :: "string \<Rightarrow> string \<Rightarrow> headers \<Rightarrow> headers" where
  "headers_set k v [] = [(k, v)]"
| "headers_set k v ((k', v') # hs) = (if CaseInsensitiveEqual k k' then (k', v) # hs else (k', v') # headers_set k v hs)"

fun headers_get :: "string \<Rightarrow> headers \<Rightarrow> string option" where
  "headers_get k [] = None"
| "headers_get k ((k', v') # hs) = (if CaseInsensitiveEqual k k' then Some v' else headers_get k hs)"

definition headers_contains :: "string \<Rightarrow> headers \<Rightarrow> bool" where
  "headers_contains k hs = (headers_get k hs \<noteq> None)"

definition headers_plus :: "headers \<Rightarrow> headers \<Rightarrow> headers" where
  "headers_plus this that = foldl (\<lambda>hs (k, v). if headers_contains k hs then hs else headers_set k v hs) this that"

section \<open>Status codes\<close>

definition statuses :: "(nat \<times> string) list" where
  "statuses = [
    (100, ''100 Continue''), (101, ''101 Switching Protocols''), (200, ''200 OK''), (201, ''201 Created''), (202, ''202 Accepted''),
    (203, ''203 Non-Authoritative Information''), (204, ''204 No Content''), (205, ''205 Reset Content''), (206, ''206 Partial Content''),
    (300, ''300 Multiple Choices''), (301, ''301 Moved Permanently''), (302, ''302 Found''), (303, ''303 See Other''),
    (304, ''304 Not Modified''), (305, ''305 Use Proxy''), (307, ''307 Temporary Redirect''), (400, ''400 Bad Request''),
    (401, ''401 Unauthorized''), (402, ''402 Payment Required''), (403, ''403 Forbidden''), (404, ''404 Not Found''),
    (405, ''405 Method Not Allowed''), (406, ''406 Not Acceptable''), (407, ''407 Proxy Authentication Required''),
    (408, ''408 Request Time-out''), (409, ''409 Conflict''), (410, ''410 Gone''), (411, ''411 Length Required''),
    (412, ''412 Precondition Failed''), (413, ''413 Request Entity Too Large''), (414, ''414 Request-URI Too Large''),
    (415, ''415 Unsupported Media Type''), (416, ''416 Requested range not satisfiable''), (417, ''417 Expectation Failed''),
    (500, ''500 Internal Server Error''), (501, ''501 Not Implemented''), (502, ''502 Bad Gateway''), (503, ''503 Service Unavailable''),
    (504, ''504 Gateway Time-out''), (505, ''505 HTTP Version not supported'')]"

definition Status_string :: "nat \<Rightarrow> string" where
  "Status_string code = (case map_of statuses code of Some d \<Rightarrow> d | None \<Rightarrow> dec code)"

definition isValidStatus :: "nat \<Rightarrow> bool" where
  "isValidStatus code = (map_of statuses code \<noteq> None)"

section \<open>Requests and responses\<close>

text \<open>A text in the quotes of an error message.\<close>

definition int_print :: "int \<Rightarrow> string" where
  "int_print i = (if i < 0 then ''-'' @ dec (nat (- i)) else dec (nat i))"

definition quoted :: "string \<Rightarrow> string" where
  "quoted s = [CHR 0x27] @ s @ [CHR 0x27]"

text \<open>Of the URL of a request that arrives, the decoders fill in path, query and fragment.\<close>

datatype request_type = ReqBody | ReqPipe

record request =
  rq_method :: string
  rq_path :: string
  rq_query :: "string \<rightharpoonup> string"
  rq_fragment :: "string option"
  rq_headers :: headers
  rq_keepAlive :: bool
  rq_type :: request_type
  rq_body :: string
  rq_reader :: "nat option"

definition new_request :: request where
  "new_request = \<lparr>rq_method = [], rq_path = ''/'', rq_query = Map.empty, rq_fragment = None, rq_headers = [],
     rq_keepAlive = False, rq_type = ReqBody, rq_body = [], rq_reader = None\<rparr>"

datatype response_type = RespNone | RespBody | RespPath | RespPipe

text \<open>The constructor without arguments leaves \<^verbatim>\<open>code\<close> uninitialized: None.\<close>

record response =
  rs_status :: string
  rs_headers :: headers
  rs_type :: response_type
  rs_body :: string
  rs_path :: string
  rs_reader :: "nat option"
  rs_code :: "nat option"

definition new_response :: response where
  "new_response = \<lparr>rs_status = [], rs_headers = [], rs_type = RespNone, rs_body = [], rs_path = [], rs_reader = None, rs_code = None\<rparr>"

definition Response_code :: "nat \<Rightarrow> response" where
  "Response_code c = new_response\<lparr>rs_code := Some c, rs_status := Status_string c\<rparr>"

definition Response_body :: "string \<Rightarrow> nat \<Rightarrow> string \<Rightarrow> response" where
  "Response_body body c contentType = new_response\<lparr>rs_type := RespBody, rs_body := body, rs_code := Some c,
     rs_headers := headers_set ''Content-Type'' contentType (headers_set ''Content-Length'' (dec (length body)) []),
     rs_status := Status_string c\<rparr>"

abbreviation text_plain :: string where
  "text_plain \<equiv> ''text/plain; charset=utf-8''"

definition InternalServerError :: "string \<Rightarrow> response" where
  "InternalServerError body = Response_body body 500 text_plain"

definition ServiceUnavailable :: "string \<Rightarrow> response" where
  "ServiceUnavailable body = Response_body body 503 text_plain"

definition NotFound :: "string \<Rightarrow> response" where
  "NotFound body = Response_body body 404 text_plain"

definition BadRequest :: "string \<Rightarrow> response" where
  "BadRequest body = Response_body body 400 text_plain"

definition Forbidden :: "string \<Rightarrow> response" where
  "Forbidden body = Response_body body 403 text_plain"

section \<open>Lemmas\<close>

lemma ci_eq_map: "CaseInsensitiveEqual a b \<longleftrightarrow> map tolower a = map tolower b"
  by (auto simp: CaseInsensitiveEqual_def list_all_length list_eq_iff_nth_eq)

lemma ci_refl [simp]: "CaseInsensitiveEqual a a"
  by (simp add: ci_eq_map)

text \<open>Setting a header is an update of the map from lower-case names.\<close>

lemma headers_get_set: "headers_get k (headers_set k' v hs) = (if CaseInsensitiveEqual k k' then Some v else headers_get k hs)"
  by (induction hs) (auto simp: ci_eq_map)

lemma headers_get_fold:
  "headers_get k (foldl (\<lambda>hs (k, v). headers_set k v hs) hs kvs) =
    (case find (\<lambda>(k', _). CaseInsensitiveEqual k k') (rev kvs) of Some (_, v) \<Rightarrow> Some v | None \<Rightarrow> headers_get k hs)"
proof (induction kvs arbitrary: hs)
  case (Cons kv kvs)
  have app: "find P (xs @ ys) = (case find P xs of Some x \<Rightarrow> Some x | None \<Rightarrow> find P ys)" for P and xs ys :: "(string \<times> string) list"
    by (induction xs) auto
  show ?case
    by (cases kv) (auto simp: Cons.IH app headers_get_set split: option.splits)
qed simp

text \<open>No two names are equal up to case.\<close>

definition headers_ok :: "headers \<Rightarrow> bool" where
  "headers_ok hs = distinct (map (map tolower \<circ> fst) hs)"

lemma headers_set_names:
  "set (map (map tolower \<circ> fst) (headers_set k v hs)) = insert (map tolower k) (set (map (map tolower \<circ> fst) hs))"
  by (induction k v hs rule: headers_set.induct) (simp_all add: ci_eq_map insert_commute)

lemma headers_ok_set: "headers_ok hs \<Longrightarrow> headers_ok (headers_set k v hs)"
proof (induction hs)
  case (Cons kv hs)
  then show ?case
    using headers_set_names [of k v hs] by (cases kv) (auto simp: headers_ok_def ci_eq_map)
qed (simp add: headers_ok_def)

end
