(* ===== verification/Encoders.thy ===== *)
theory Encoders
  imports Http_Messages Channels
begin

text \<open>
  \<^verbatim>\<open>src/encoder.hpp\<close> and the encoding of requests in \<^verbatim>\<open>src/http.cpp\<close>: the encoders with the loop that sends them over a socket, responses with their
  framing, and chunks. gzip, the formatting of the date and the string functions of stout are parameters.
\<close>

section \<open>What the libraries provide\<close>

record enc_libs =
  e_strings :: stout
  remove_any :: "string \<Rightarrow> string \<Rightarrow> string"
  str_pairs :: "string \<Rightarrow> (string \<times> string list) list"
  q_positive :: "string \<Rightarrow> bool"
  numify_uint32 :: "string \<Rightarrow> nat option"
  gzip_compress :: "string \<Rightarrow> string option"

abbreviation crlf :: string where
  "crlf \<equiv> [CHR 0x0D, CHR 0x0A]"

section \<open>DataEncoder and FileEncoder\<close>

record data_encoder =
  de_data :: string
  de_index :: nat

definition data_encoder_new :: "string \<Rightarrow> data_encoder" where
  "data_encoder_new s = \<lparr>de_data = s, de_index = 0\<rparr>"

definition data_next :: "data_encoder \<Rightarrow> string \<times> data_encoder" where
  "data_next e = (drop (de_index e) (de_data e), e\<lparr>de_index := length (de_data e)\<rparr>)"

definition data_backup :: "nat \<Rightarrow> data_encoder \<Rightarrow> data_encoder" where
  "data_backup n e = (if de_index e \<ge> n then e\<lparr>de_index := de_index e - n\<rparr> else e)"

definition data_remaining :: "data_encoder \<Rightarrow> nat" where
  "data_remaining e = length (de_data e) - de_index e"

text \<open>The file is a list of bytes; sizes are \<^verbatim>\<open>off_t\<close>, a signed number of 64 bits.\<close>

record file_encoder =
  fe_fd :: nat
  fe_size :: int
  fe_index :: int

definition OFF_MAX :: int where
  "OFF_MAX = 2 ^ 63 - 1"

definition file_encoder_new :: "nat \<Rightarrow> nat \<Rightarrow> file_encoder option" where
  "file_encoder_new fd n = (if int n \<le> OFF_MAX then Some \<lparr>fe_fd = fd, fe_size = int n, fe_index = 0\<rparr> else None)"

definition file_next :: "file_encoder \<Rightarrow> (nat \<times> int \<times> int) \<times> file_encoder" where
  "file_next e = ((fe_fd e, fe_index e, fe_size e - fe_index e), e\<lparr>fe_index := fe_size e\<rparr>)"

definition file_backup :: "nat \<Rightarrow> file_encoder \<Rightarrow> file_encoder" where
  "file_backup n e = (if fe_index e \<ge> int n then e\<lparr>fe_index := fe_index e - int n\<rparr> else e)"

definition file_remaining :: "file_encoder \<Rightarrow> nat" where
  "file_remaining e = nat (fe_size e - fe_index e)"

text \<open>
  The loop of \<^verbatim>\<open>internal::send\<close>. The argument lists how many bytes the socket is ready to take in each round; it takes no more than it is given. None says
  that the loop is still waiting for the socket after these rounds. A send that fails ends the loop and closes the socket: that is the second branch of the step
  \<^verbatim>\<open>Sent\<close> of the socket manager.
\<close>

fun send_data :: "nat list \<Rightarrow> data_encoder \<Rightarrow> string \<times> data_encoder option" where
  "send_data [] e = ([], None)"
| "send_data (n # ns) e = (case data_next e of (bytes, e1) \<Rightarrow>
     let k = min n (length bytes); e2 = data_backup (length bytes - k) e1 in
     if data_remaining e2 \<noteq> 0 then (case send_data ns e2 of (out, r) \<Rightarrow> (take k bytes @ out, r))
     else (take k bytes, Some e2))"

fun send_file :: "string \<Rightarrow> nat list \<Rightarrow> file_encoder \<Rightarrow> string \<times> file_encoder option" where
  "send_file file [] e = ([], None)"
| "send_file file (n # ns) e = (case file_next e of ((fd, off, len), e1) \<Rightarrow>
     let k = min n (nat len); e2 = file_backup (nat len - k) e1; out = take k (drop (nat off) file) in
     if file_remaining e2 \<noteq> 0 then (case send_file file ns e2 of (rest, r) \<Rightarrow> (out @ rest, r))
     else (out, Some e2))"

section \<open>Content negotiation\<close>

definition q_accepts :: "enc_libs \<Rightarrow> string \<Rightarrow> bool" where
  "q_accepts E entry = (case map_of (str_pairs E entry) ''q'' of Some [v] \<Rightarrow> q_positive E v | _ \<Rightarrow> True)"

text \<open>The first entry that names the candidate decides.\<close>

fun find_candidate :: "enc_libs \<Rightarrow> string \<Rightarrow> string list \<Rightarrow> bool option" where
  "find_candidate E c [] = None"
| "find_candidate E c (entry # es) = (case tokenize (e_strings E) entry '';'' of
     [] \<Rightarrow> find_candidate E c es
   | t # _ \<Rightarrow> if lower (e_strings E) t = lower (e_strings E) c then Some (q_accepts E entry) else find_candidate E c es)"

fun find_accepted :: "enc_libs \<Rightarrow> string list \<Rightarrow> string list \<Rightarrow> bool" where
  "find_accepted E [] es = False"
| "find_accepted E (c # cs) es = (case find_candidate E c es of Some b \<Rightarrow> b | None \<Rightarrow> find_accepted E cs es)"

definition without_spaces :: "enc_libs \<Rightarrow> string \<Rightarrow> string" where
  "without_spaces E s = remove_any E (remove_any E (remove_any E s '' '') [CHR 0x09]) [CHR 0x0A]"

definition acceptsEncoding :: "enc_libs \<Rightarrow> string \<Rightarrow> request \<Rightarrow> bool" where
  "acceptsEncoding E encoding r = (case headers_get ''Accept-Encoding'' (rq_headers r) of
     None \<Rightarrow> False
   | Some accept \<Rightarrow> if accept = [] then False
       else find_accepted E [encoding, ''*''] (tokenize (e_strings E) (without_spaces E accept) '',''))"

definition acceptsMediaType :: "enc_libs \<Rightarrow> string \<Rightarrow> string \<Rightarrow> request \<Rightarrow> bool" where
  "acceptsMediaType E name mediaType r = (case tokenize (e_strings E) mediaType ''/'' of
     [ty, _] \<Rightarrow> (case headers_get name (rq_headers r) of
         None \<Rightarrow> True
       | Some accept \<Rightarrow> find_accepted E [mediaType, ty @ ''/*'', ''*/*''] (tokenize (e_strings E) (without_spaces E accept) '',''))
   | _ \<Rightarrow> False)"

section \<open>HttpResponseEncoder\<close>

definition GZIP_MINIMUM_BODY_LENGTH :: nat where
  "GZIP_MINIMUM_BODY_LENGTH = 1024"

definition print_headers :: "headers \<Rightarrow> string" where
  "print_headers hs = concat (map (\<lambda>(k, v). k @ '': '' @ v @ crlf) hs)"

definition compressed :: "enc_libs \<Rightarrow> response \<Rightarrow> request \<Rightarrow> headers \<Rightarrow> string \<times> headers" where
  "compressed E resp req hs =
    (if rs_type resp = RespBody \<and> length (rs_body resp) \<ge> GZIP_MINIMUM_BODY_LENGTH \<and> \<not> headers_contains ''Content-Encoding'' hs
        \<and> acceptsEncoding E ''gzip'' req
     then case gzip_compress E (rs_body resp) of
         None \<Rightarrow> (rs_body resp, hs)
       | Some b \<Rightarrow> (b, headers_set ''Content-Encoding'' ''gzip'' (headers_set ''Content-Length'' (dec (length b)) hs))
     else (rs_body resp, hs))"

definition response_encode :: "enc_libs \<Rightarrow> string \<Rightarrow> response \<Rightarrow> request \<Rightarrow> string" where
  "response_encode E date resp req =
    (case compressed E resp req (headers_set ''Date'' date (rs_headers resp)) of (body, hs) \<Rightarrow>
      ''HTTP/1.1 '' @ rs_status resp @ crlf @ print_headers hs @
      (if rs_type resp = RespNone \<and> \<not> headers_contains ''Content-Length'' hs then ''Content-Length: 0'' @ crlf
       else if rs_type resp = RespBody \<and> \<not> headers_contains ''Content-Length'' hs then ''Content-Length: '' @ dec (length body) @ crlf
       else []) @ crlf @
      (if rs_type resp = RespBody
       then case headers_get ''Content-Length'' hs of
           None \<Rightarrow> body
         | Some cl \<Rightarrow> (case numify_uint32 E cl of
             Some n \<Rightarrow> if n \<le> length body then take n body else body
           | None \<Rightarrow> body)
       else []))"

section \<open>Chunks\<close>

definition hex_lower :: "nat \<Rightarrow> char" where
  "hex_lower n = (if n < 10 then char_of (48 + n) else char_of (87 + n))"

text \<open>What \<^verbatim>\<open>std::hex\<close> prints.\<close>

fun hex :: "nat \<Rightarrow> string" where
  "hex n = (if n < 16 then [hex_lower n] else hex (n div 16) @ [hex_lower (n mod 16)])"

declare hex.simps [simp del]

definition chunk :: "string \<Rightarrow> string" where
  "chunk s = hex (length s) @ crlf @ s @ crlf"

definition last_chunk :: string where
  "last_chunk = ''0'' @ crlf @ crlf"

section \<open>Requests of a client\<close>

record 'ip client_request =
  c_method :: string
  c_url :: "'ip url"
  c_headers :: headers
  c_keepAlive :: bool
  c_type :: request_type
  c_body :: string
  c_reader :: "nat option"

definition join :: "string \<Rightarrow> string list \<Rightarrow> string" where
  "join sep xs = (case xs of [] \<Rightarrow> [] | y # ys \<Rightarrow> y @ concat (map (\<lambda>z. sep @ z) ys))"

definition request_line :: "enc_libs \<Rightarrow> 'ip client_request \<Rightarrow> string" where
  "request_line E r = c_method r @ '' /'' @ remove_prefix (e_strings E) (path (c_url r)) ''/'' @
    (if query (c_url r) \<noteq> [] then ''?'' @ join ''&'' (map (\<lambda>(k, v). http_encode [] k @ ''='' @ http_encode [] v) (query (c_url r))) else []) @
    opt (\<lambda>f. ''#'' @ f) (fragment (c_url r)) @ '' HTTP/1.1'' @ crlf"

text \<open>None: a \<^verbatim>\<open>CHECK\<close> fails.\<close>

definition request_host :: "('ip \<Rightarrow> string) \<Rightarrow> 'ip client_request \<Rightarrow> string option" where
  "request_host show_ip r = (let port_text = (case port (c_url r) of Some p \<Rightarrow> if p \<noteq> 80 \<and> p \<noteq> 443 then '':'' @ dec p else [] | None \<Rightarrow> []) in
    case domain (c_url r) of
      Some d \<Rightarrow> Some (d @ port_text)
    | None \<Rightarrow> map_option (\<lambda>i. show_ip i @ port_text) (ip (c_url r)))"

definition request_headers :: "('ip \<Rightarrow> string) \<Rightarrow> 'ip client_request \<Rightarrow> headers option" where
  "request_headers show_ip r = (case request_host show_ip r of
     None \<Rightarrow> None
   | Some host \<Rightarrow>
       let hs1 = headers_set ''Host'' host (c_headers r);
           hs2 = (if \<not> c_keepAlive r then headers_set ''Connection'' ''close'' hs1 else hs1)
       in if c_type r = ReqPipe
          then (if headers_contains ''Content-Length'' hs2 then None else Some (headers_set ''Transfer-Encoding'' ''chunked'' hs2))
          else Some (headers_set ''Content-Length'' (dec (length (c_body r))) hs2))"

datatype chunk_read = ChunkData string | ChunkFailed string | ChunkDiscarded

text \<open>The loop that copies the pipe of the request into the pipe of the encoding.\<close>

fun copy_chunks :: "chunk_read list \<Rightarrow> pipe_op list" where
  "copy_chunks [] = []"
| "copy_chunks (ChunkData s # rs) = (if s = [] then [Write last_chunk, CloseWrite] else Write (chunk s) # copy_chunks rs)"
| "copy_chunks (ChunkFailed m # rs) = [FailWrite m]"
| "copy_chunks (ChunkDiscarded # rs) = [FailWrite ''discarded'']"

definition request_encode :: "enc_libs \<Rightarrow> ('ip \<Rightarrow> string) \<Rightarrow> 'ip client_request \<Rightarrow> chunk_read list \<Rightarrow> pipe_op list option" where
  "request_encode E show_ip r rds = (case request_headers show_ip r of
     None \<Rightarrow> None
   | Some hs \<Rightarrow>
       let head = Write (request_line E r @ print_headers hs @ crlf) in
       if c_type r = ReqBody then Some [head, Write (c_body r), CloseWrite]
       else if c_reader r = None \<or> c_body r \<noteq> [] then None
       else Some (head # copy_chunks rds))"

section \<open>Sending\<close>

lemma send_data_all:
  assumes "list_all (\<lambda>n. 0 < n) ns" and "de_index e \<le> length (de_data e)" and "data_remaining e < length ns"
  shows "\<exists>e'. send_data ns e = (drop (de_index e) (de_data e), Some e')"
  using assms
proof (induction ns arbitrary: e)
  case (Cons n ns)
  let ?k = "min n (length (de_data e) - de_index e)"
  let ?e = "e\<lparr>de_index := de_index e + ?k\<rparr>"
  have e2: "data_backup (length (de_data e) - de_index e - ?k) (e\<lparr>de_index := length (de_data e)\<rparr>) = ?e"
    using Cons.prems(2) by (simp add: data_backup_def)
  have split: "drop (de_index e) (de_data e) = take ?k (drop (de_index e) (de_data e)) @ drop (de_index e + ?k) (de_data e)"
    by (metis append_take_drop_id add.commute drop_drop)
  have "data_remaining ?e \<noteq> 0 \<Longrightarrow> \<exists>e'. send_data ns ?e = (drop (de_index ?e) (de_data ?e), Some e')"
    using Cons by (intro Cons.IH) (auto simp: data_remaining_def)
  moreover have "data_remaining ?e = 0 \<Longrightarrow> drop (de_index e + ?k) (de_data e) = []"
    by (simp add: data_remaining_def)
  ultimately show ?case
    using e2 split by (auto simp: data_next_def Let_def)
qed simp

lemma send_file_all:
  assumes "list_all (\<lambda>n. 0 < n) ns" and "0 \<le> fe_index e" and "fe_index e \<le> fe_size e" and "fe_size e = int (length file)"
    and "file_remaining e < length ns"
  shows "\<exists>e'. send_file file ns e = (drop (nat (fe_index e)) file, Some e')"
  using assms
proof (induction ns arbitrary: e)
  case (Cons n ns)
  let ?k = "min n (nat (fe_size e - fe_index e))"
  let ?e = "e\<lparr>fe_index := fe_index e + int ?k\<rparr>"
  have e2: "file_backup (nat (fe_size e - fe_index e) - ?k) (e\<lparr>fe_index := fe_size e\<rparr>) = ?e"
    using Cons.prems by (auto simp: file_backup_def)
  have "nat (fe_index e + int ?k) = nat (fe_index e) + ?k" using Cons.prems(2) by simp
  then have split: "drop (nat (fe_index e)) file = take ?k (drop (nat (fe_index e)) file) @ drop (nat (fe_index ?e)) file"
    by (metis append_take_drop_id add.commute drop_drop file_encoder.select_convs(3) file_encoder.surjective file_encoder.update_convs(3))
  have "file_remaining ?e \<noteq> 0 \<Longrightarrow> \<exists>e'. send_file file ns ?e = (drop (nat (fe_index ?e)) file, Some e')"
    using Cons by (intro Cons.IH) (auto simp: file_remaining_def)
  moreover have "file_remaining ?e = 0 \<Longrightarrow> drop (nat (fe_index ?e)) file = []"
    using Cons.prems by (simp add: file_remaining_def)
  ultimately show ?case
    using e2 split by (auto simp: file_next_def Let_def)
qed simp

end
