(* ===== verification/Encoder_Properties.thy ===== *)
theory Encoder_Properties
  imports Encoders
begin

text \<open>
  The encoders send all their bytes exactly once; the encoding of a response announces the length of the body that follows; and a reader of
  chunks as the standard defines them gets back what was written into the pipe.
\<close>

section \<open>Sending\<close>

text \<open>C31.
  The loop that sends an encoder over a socket transmits every byte exactly once and in order, however many bytes the socket takes in each round, and ends
  as soon as there were enough rounds in which it took some; for data in memory and for files.
\<close>

theorem send_transmits_all:
  assumes "list_all (\<lambda>n. 0 < n) ns" and "length s < length ns" and "int (length s) \<le> OFF_MAX"
  shows "(\<exists>e. send_data ns (data_encoder_new s) = (s, Some e))
    \<and> (\<exists>e e'. file_encoder_new fd (length s) = Some e \<and> send_file s ns e = (s, Some e'))"
proof
  show "\<exists>e. send_data ns (data_encoder_new s) = (s, Some e)"
    using send_data_all [of ns "data_encoder_new s"] assms by (simp add: data_encoder_new_def data_remaining_def)
  have "file_encoder_new fd (length s) = Some \<lparr>fe_fd = fd, fe_size = int (length s), fe_index = 0\<rparr>"
    using assms(3) by (simp add: file_encoder_new_def)
  then show "\<exists>e e'. file_encoder_new fd (length s) = Some e \<and> send_file s ns e = (s, Some e')"
    using send_file_all [of ns "\<lparr>fe_fd = fd, fe_size = int (length s), fe_index = 0\<rparr>" s] assms by (auto simp: file_remaining_def)
qed

theorem send_transmits_all_witness:
  "\<exists>e. send_data [2, 1, 9, 1] (data_encoder_new ''abc'') = (''abc'', Some e)"
  using send_transmits_all [of "[2, 1, 9, 1]" "''abc''" 0] by (simp add: OFF_MAX_def)

section \<open>Framing of responses\<close>

lemma headers_get_append: "headers_get k (hs @ hs') = (case headers_get k hs of Some v \<Rightarrow> Some v | None \<Rightarrow> headers_get k hs')"
  by (induction hs) auto

lemma print_headers_append: "print_headers (hs @ hs') = print_headers hs @ print_headers hs'"
  by (simp add: print_headers_def)

lemma header_names_differ:
  "\<not> CaseInsensitiveEqual ''Content-Length'' ''Date''" "\<not> CaseInsensitiveEqual ''Content-Length'' ''Content-Encoding''"
  "\<not> CaseInsensitiveEqual ''Content-Encoding'' ''Date''" "\<not> CaseInsensitiveEqual ''Content-Encoding'' ''Content-Length''"
  by code_simp+

lemma compressed_cases:
  assumes "compressed E resp req hs = (body, hs')"
  shows "(body = rs_body resp \<and> hs' = hs) \<or> (gzip_compress E (rs_body resp) = Some body \<and> \<not> headers_contains ''Content-Encoding'' hs
    \<and> hs' = headers_set ''Content-Encoding'' ''gzip'' (headers_set ''Content-Length'' (dec (length body)) hs))"
  using assms by (auto simp: compressed_def split: if_splits option.splits)

text \<open>
  The encoding of a response with a body is a status line, headers, an empty line and a body, and the \<^verbatim>\<open>Content-Length\<close> header is the length of
  that body, so that the next response on the connection starts where the reader expects it; the body is the one given or its compression, in which case
  \<^verbatim>\<open>Content-Encoding\<close> says so. (For a response that gives no \<^verbatim>\<open>Content-Length\<close> or its true one, as all constructors do.)
\<close>

theorem response_framing:
  assumes "rs_type resp = RespBody"
    and cl: "headers_get ''Content-Length'' (rs_headers resp) \<in> {None, Some (dec (length (rs_body resp)))}"
    and numify: "\<forall>n. numify_uint32 E (dec n) = (if n < 2 ^ 32 then Some n else None)"
  shows "\<exists>hs body. response_encode E date resp req = ''HTTP/1.1 '' @ rs_status resp @ crlf @ print_headers hs @ crlf @ body
    \<and> headers_get ''Content-Length'' hs = Some (dec (length body))
    \<and> (body = rs_body resp \<or> (gzip_compress E (rs_body resp) = Some body \<and> headers_get ''Content-Encoding'' hs = Some ''gzip''))"
proof -
  obtain body hs where c: "compressed E resp req (headers_set ''Date'' date (rs_headers resp)) = (body, hs)" by fastforce
  note body = compressed_cases [OF c]
  have get: "headers_get ''Content-Length'' hs \<in> {None, Some (dec (length body))}"
    using body cl by (auto simp: headers_get_set header_names_differ)
  let ?hs = "if headers_contains ''Content-Length'' hs then hs else hs @ [(''Content-Length'', dec (length body))]"
  have "response_encode E date resp req = ''HTTP/1.1 '' @ rs_status resp @ crlf @ print_headers ?hs @ crlf @ body"
    using get numify assms(1) c by (auto simp: response_encode_def headers_contains_def print_headers_append print_headers_def)
  moreover have "headers_get ''Content-Length'' ?hs = Some (dec (length body))"
    using get by (auto simp: headers_contains_def headers_get_append)
  moreover have "body = rs_body resp \<or> (gzip_compress E (rs_body resp) = Some body \<and> headers_get ''Content-Encoding'' ?hs = Some ''gzip'')"
    using body by (auto simp: headers_get_append headers_get_set header_names_differ split: option.split)
  ultimately show ?thesis by blast
qed

definition ref_enc_libs :: enc_libs where
  "ref_enc_libs = \<lparr>e_strings = ref_strings, remove_any = (\<lambda>s d. filter (\<lambda>c. c \<notin> set d) s), str_pairs = (\<lambda>_. []), q_positive = (\<lambda>_. True),
     numify_uint32 = (\<lambda>s. if s \<noteq> [] \<and> dec (undec s) = s \<and> undec s < 2 ^ 32 then Some (undec s) else None), gzip_compress = (\<lambda>s. Some (take 1 s))\<rparr>"

lemma ref_numify: "\<forall>n. numify_uint32 ref_enc_libs (dec n) = (if n < 2 ^ 32 then Some n else None)"
proof
  fix n
  have "dec n \<noteq> []" by (subst dec.simps) simp
  then show "numify_uint32 ref_enc_libs (dec n) = (if n < 2 ^ 32 then Some n else None)"
    by (simp add: ref_enc_libs_def undec_dec)
qed

theorem response_framing_witness:
  "\<exists>hs body. response_encode ref_enc_libs ''now'' (InternalServerError ''oops!'') new_request
      = ''HTTP/1.1 '' @ rs_status (InternalServerError ''oops!'') @ crlf @ print_headers hs @ crlf @ body
    \<and> headers_get ''Content-Length'' hs = Some (dec (length body))"
proof -
  have "rs_type (InternalServerError ''oops!'') = RespBody"
    "headers_get ''Content-Length'' (rs_headers (InternalServerError ''oops!'')) \<in> {None, Some (dec (length (rs_body (InternalServerError ''oops!''))))}"
    by code_simp+
  then show ?thesis
    using response_framing [of "InternalServerError ''oops!''" ref_enc_libs "''now''" new_request] ref_numify by blast
qed

section \<open>Chunks\<close>

definition unhex :: "string \<Rightarrow> nat" where
  "unhex s = foldl (\<lambda>n c. 16 * n + hex_value c) 0 s"

lemma hex_lower_props:
  assumes "n < 16"
  shows "isxdigit (hex_lower n)" and "hex_value (hex_lower n) = n"
  using assms by (auto simp: isxdigit_def hex_value_def hex_lower_def Let_def)

lemma hex_digits: "list_all isxdigit (hex n) \<and> hex n \<noteq> []"
proof (induction n rule: hex.induct)
  case (1 n)
  then show ?case by (subst (1 2) hex.simps) (auto simp: hex_lower_props)
qed

lemma unhex_hex: "unhex (hex n) = n"
proof (induction n rule: hex.induct)
  case (1 n)
  then show ?case by (subst hex.simps) (auto simp: unhex_def hex_lower_props)
qed

text \<open>A reader of chunked bodies, after RFC 7230: the chunks and what follows the body.\<close>

function (sequential) unchunk :: "string \<Rightarrow> (string list \<times> string) option" where
  "unchunk s = (let ds = takeWhile isxdigit s; r = dropWhile isxdigit s; n = unhex ds; b = drop 2 r in
     if ds = [] \<or> take 2 r \<noteq> crlf then None
     else if n = 0 then (if take 2 b = crlf then Some ([], drop 2 b) else None)
     else if length b < n + 2 \<or> take 2 (drop n b) \<noteq> crlf then None
     else map_option (apfst (Cons (take n b))) (unchunk (drop (n + 2) b)))"
  by pat_completeness auto
termination
proof (relation "measure length")
  fix s :: string and ds r n b
  assume "ds = takeWhile isxdigit s" "r = dropWhile isxdigit s" "b = drop 2 r" "\<not> (ds = [] \<or> take 2 r \<noteq> crlf)"
  then have "r \<noteq> []" "length r \<le> length s" by (metis list.distinct(1) take_Nil, simp add: length_dropWhile_le)
  with \<open>b = drop 2 r\<close> show "(drop (n + 2) b, s) \<in> measure length" by (cases r) auto
qed simp

declare unchunk.simps [simp del]

lemma not_xdigit_cr: "\<not> isxdigit CHR 0x0D"
  by code_simp

lemma scan_digits:
  assumes "list_all isxdigit ds"
  shows "takeWhile isxdigit (ds @ crlf @ rest) = ds" and "dropWhile isxdigit (ds @ crlf @ rest) = crlf @ rest"
  using assms by (induction ds) (auto simp: not_xdigit_cr)

lemma unchunk_chunk:
  assumes "s \<noteq> []"
  shows "unchunk (chunk s @ rest) = map_option (apfst (Cons s)) (unchunk rest)"
proof -
  have "chunk s @ rest = hex (length s) @ crlf @ s @ crlf @ rest" by (simp add: chunk_def)
  then show ?thesis
    using hex_digits [of "length s"] assms scan_digits [of "hex (length s)" "s @ crlf @ rest"]
    by (subst unchunk.simps) (simp add: Let_def unhex_hex)
qed

lemma unchunk_last: "unchunk (last_chunk @ rest) = Some ([], rest)"
proof -
  have "isxdigit CHR ''0''" "hex_value CHR ''0'' = 0" by code_simp+
  then show ?thesis by (subst unchunk.simps) (simp add: last_chunk_def Let_def not_xdigit_cr unhex_def)
qed

text \<open>
  The body of a streamed request is transmitted faithfully: the data written into the pipe of the encoding for the chunks read from the pipe of the request, up
  to the end of file, is read back by a reader of chunked bodies as the same chunks, followed by whatever comes next on the connection.
\<close>

theorem chunked_roundtrip:
  assumes "list_all (\<lambda>s. s \<noteq> []) cs"
  shows "\<exists>ws. copy_chunks (map ChunkData (cs @ [[]])) = map Write ws @ [CloseWrite] \<and> unchunk (concat ws @ rest) = Some (cs, rest)"
  using assms
proof (induction cs)
  case Nil
  show ?case by (intro exI [of _ "[last_chunk]"]) (simp add: unchunk_last)
next
  case (Cons c cs)
  then obtain ws where "copy_chunks (map ChunkData (cs @ [[]])) = map Write ws @ [CloseWrite]" "unchunk (concat ws @ rest) = Some (cs, rest)"
    by auto
  with Cons.prems show ?case by (intro exI [of _ "chunk c # ws"]) (simp add: unchunk_chunk)
qed

theorem chunked_roundtrip_witness:
  "\<exists>ws. copy_chunks (map ChunkData ([''ab'', ''c''] @ [[]])) = map Write ws @ [CloseWrite] \<and> unchunk (concat ws @ ''GET'') = Some ([''ab'', ''c''], ''GET'')"
  using chunked_roundtrip [of "[''ab'', ''c'']"] by simp

end
