(* ===== verification/Decoders.thy ===== *)
theory Decoders
  imports Http_Messages Channels
begin

text \<open>
  The four decoders of \<^verbatim>\<open>src/decoder.hpp\<close>. They are callbacks of http-parser, which is another library: what it calls for some data, in which
  order, is an argument of \<^verbatim>\<open>decode\<close>, and so are its URL parser, the decompression of gzip and the string functions of stout. What the decoders rely on is
  how http-parser reacts to the value a callback returns, in \<open>run_callback\<close>: it stops for good at a value other than zero, except that 1 from
  \<^verbatim>\<open>on_headers_complete\<close> means that the message has no body (2: nor is there another message). A failing \<^verbatim>\<open>CHECK\<close> ends the program.
\<close>

section \<open>What http-parser does\<close>

record parser_info =
  p_method :: string
  p_keep_alive :: bool
  p_status_code :: nat

datatype parser_call =
    OnMessageBegin
  | OnUrl string
  | OnStatus string
  | OnHeaderField string
  | OnHeaderValue string
  | OnHeadersComplete parser_info
  | OnBody string
  | OnMessageComplete parser_info
  | OnChunkHeader
  | OnChunkComplete

text \<open>\<^verbatim>\<open>parsed == length\<close>; an error in the data; or a message that asks for another protocol, after which the parser returns early without an error.\<close>

datatype parse_end = AllParsed | ParseError | Upgraded

record http_parser =
  errored :: bool
  skipping :: bool

text \<open>The fields of \<^verbatim>\<open>http_parser_url\<close> that are set: offset and length.\<close>

record url_fields =
  uf_path :: "(nat \<times> nat) option"
  uf_query :: "(nat \<times> nat) option"
  uf_fragment :: "(nat \<times> nat) option"

record 'z libs =
  lib_strings :: stout
  parse_url :: "string \<Rightarrow> nat + url_fields"
  gzip_decompress :: "string \<Rightarrow> string option"
  new_decompressor :: 'z
  decompress :: "'z \<Rightarrow> string \<Rightarrow> (string \<times> 'z) option"
  finished :: "'z \<Rightarrow> bool"

section \<open>The members the decoders share\<close>

datatype header_state = HEADER_FIELD | HEADER_VALUE

record 'm decoder =
  dc_failure :: bool
  dc_parser :: http_parser
  dc_header :: header_state
  dc_field :: string
  dc_value :: string
  dc_message :: "'m option"
  dc_messages :: "'m list"

record data_decoder = "request decoder" +
  dd_query :: string
  dd_url :: string

text \<open>The streaming decoders make a pipe for each message; the operations on the pipes are recorded in order.\<close>

record 'm stream_decoder = "'m decoder" +
  sd_writer :: "nat option"
  sd_pipes :: nat
  sd_ops :: "(nat \<times> pipe_op) list"

record 'z request_decoder = "request stream_decoder" +
  sq_query :: string
  sq_url :: string
  sq_decompressor :: "'z option"

datatype 'd outcome = CheckFailed | Returns nat 'd

text \<open>One call: nothing is called after an error, and only the end of the message after \<^verbatim>\<open>on_headers_complete\<close> said that there is no body.\<close>

definition after_callback :: "parser_call \<Rightarrow> nat \<Rightarrow> http_parser \<Rightarrow> http_parser" where
  "after_callback c n p = (case c of
     OnHeadersComplete _ \<Rightarrow> if n = 0 then p else if n \<le> 2 then p\<lparr>skipping := True\<rparr> else p\<lparr>errored := True\<rparr>
   | OnMessageComplete _ \<Rightarrow> if n = 0 then p\<lparr>skipping := False\<rparr> else p\<lparr>errored := True\<rparr>
   | _ \<Rightarrow> if n = 0 then p else p\<lparr>errored := True\<rparr>)"

fun is_complete :: "parser_call \<Rightarrow> bool" where
  "is_complete (OnMessageComplete _) = True"
| "is_complete _ = False"

definition run_callback ::
    "(parser_call \<Rightarrow> ('m, 'x) decoder_scheme \<Rightarrow> ('m, 'x) decoder_scheme outcome) \<Rightarrow> parser_call
      \<Rightarrow> ('m, 'x) decoder_scheme \<Rightarrow> ('m, 'x) decoder_scheme option" where
  "run_callback h c d =
    (if errored (dc_parser d) \<or> (skipping (dc_parser d) \<and> \<not> is_complete c) then Some d
     else case h c d of
       CheckFailed \<Rightarrow> None
     | Returns n d' \<Rightarrow> Some (d'\<lparr>dc_parser := after_callback c n (dc_parser d)\<rparr>))"

fun execute ::
    "(parser_call \<Rightarrow> ('m, 'x) decoder_scheme \<Rightarrow> ('m, 'x) decoder_scheme outcome) \<Rightarrow> parser_call list
      \<Rightarrow> ('m, 'x) decoder_scheme \<Rightarrow> ('m, 'x) decoder_scheme option" where
  "execute h [] d = Some d"
| "execute h (c # cs) d = (case run_callback h c d of None \<Rightarrow> None | Some d' \<Rightarrow> execute h cs d')"

definition parse_failed :: "parse_end \<Rightarrow> ('m, 'x) decoder_scheme \<Rightarrow> ('m, 'x) decoder_scheme" where
  "parse_failed e d = (case e of
     AllParsed \<Rightarrow> d
   | ParseError \<Rightarrow> d\<lparr>dc_failure := True, dc_parser := (dc_parser d)\<lparr>errored := True\<rparr>\<rparr>
   | Upgraded \<Rightarrow> d\<lparr>dc_failure := True\<rparr>)"

definition take_messages :: "('m, 'x) decoder_scheme \<Rightarrow> ('m, 'x) decoder_scheme \<times> 'm list" where
  "take_messages d = (d\<lparr>dc_messages := []\<rparr>, dc_messages d)"

text \<open>Collecting headers. The update of the headers of the message is an argument.\<close>

definition header_field :: "((headers \<Rightarrow> headers) \<Rightarrow> 'm \<Rightarrow> 'm) \<Rightarrow> string \<Rightarrow> 'm \<Rightarrow> ('m, 'x) decoder_scheme \<Rightarrow> ('m, 'x) decoder_scheme" where
  "header_field hu data m d =
    (let (m1, d1) = (if dc_header d \<noteq> HEADER_FIELD
        then (hu (headers_set (dc_field d) (dc_value d)) m, d\<lparr>dc_field := [], dc_value := []\<rparr>) else (m, d))
     in d1\<lparr>dc_message := Some m1, dc_field := dc_field d1 @ data, dc_header := HEADER_FIELD\<rparr>)"

definition header_value :: "string \<Rightarrow> ('m, 'x) decoder_scheme \<Rightarrow> ('m, 'x) decoder_scheme" where
  "header_value data d = d\<lparr>dc_value := dc_value d @ data, dc_header := HEADER_VALUE\<rparr>"

definition final_header :: "((headers \<Rightarrow> headers) \<Rightarrow> 'm \<Rightarrow> 'm) \<Rightarrow> 'm \<Rightarrow> ('m, 'x) decoder_scheme \<Rightarrow> 'm \<times> ('m, 'x) decoder_scheme" where
  "final_header hu m d = (hu (headers_set (dc_field d) (dc_value d)) m, d\<lparr>dc_field := [], dc_value := []\<rparr>)"

text \<open>The URL of a request, and its query; \<open>Inl\<close> is the value the callback returns.\<close>

definition substring :: "string \<Rightarrow> nat \<times> nat \<Rightarrow> string" where
  "substring s ol = take (snd ol) (drop (fst ol) s)"

definition request_url :: "'z libs \<Rightarrow> string \<Rightarrow> string \<Rightarrow> request \<Rightarrow> nat + request \<times> string" where
  "request_url L url q0 r = (case parse_url L url of
     Inl n \<Rightarrow> Inl n
   | Inr u \<Rightarrow>
       let r1 = (case uf_path u of None \<Rightarrow> r | Some ol \<Rightarrow> r\<lparr>rq_path := substring url ol\<rparr>);
           r2 = (case uf_fragment u of None \<Rightarrow> r1 | Some ol \<Rightarrow> r1\<lparr>rq_fragment := Some (substring url ol)\<rparr>);
           q = (case uf_query u of None \<Rightarrow> q0 | Some ol \<Rightarrow> substring url ol)
       in case query_decode (lib_strings L) q of Inl _ \<Rightarrow> Inl 1 | Inr m \<Rightarrow> Inr (r2\<lparr>rq_query := m\<rparr>, q))"

text \<open>The decompression of a whole body: None if it fails; the length must fit into a \<^verbatim>\<open>char\<close>, whose value becomes the \<^verbatim>\<open>Content-Length\<close>.\<close>

datatype gunzip = Plain | GunzipError | TooLong | Gunzipped string string

definition CHAR_MAX :: nat where
  "CHAR_MAX = 127"

definition gunzip_body :: "'z libs \<Rightarrow> headers \<Rightarrow> string \<Rightarrow> gunzip" where
  "gunzip_body L hs body = (if headers_get ''Content-Encoding'' hs = Some ''gzip''
     then case gzip_decompress L body of
       None \<Rightarrow> GunzipError
     | Some s \<Rightarrow> if length s \<le> CHAR_MAX then Gunzipped s [char_of (length s)] else TooLong
     else Plain)"

section \<open>DataDecoder\<close>

definition data_decoder_init :: data_decoder where
  "data_decoder_init = \<lparr>dc_failure = False, dc_parser = \<lparr>errored = False, skipping = False\<rparr>, dc_header = HEADER_FIELD,
     dc_field = [], dc_value = [], dc_message = None, dc_messages = [], dd_query = [], dd_url = []\<rparr>"

definition data_on_message_begin :: "data_decoder \<Rightarrow> data_decoder outcome" where
  "data_on_message_begin d =
    (if dc_failure d then CheckFailed
     else if dc_message d \<noteq> None then CheckFailed
     else Returns 0 (d\<lparr>dc_header := HEADER_FIELD, dc_field := [], dc_value := [], dd_query := [], dd_url := [],
            dc_message := Some new_request\<rparr>))"

definition data_on_url :: "string \<Rightarrow> data_decoder \<Rightarrow> data_decoder outcome" where
  "data_on_url data d = (if dc_message d = None then CheckFailed else Returns 0 (d\<lparr>dd_url := dd_url d @ data\<rparr>))"

definition data_on_header_field :: "string \<Rightarrow> data_decoder \<Rightarrow> data_decoder outcome" where
  "data_on_header_field data d = (case dc_message d of None \<Rightarrow> CheckFailed | Some r \<Rightarrow> Returns 0 (header_field rq_headers_update data r d))"

definition data_on_header_value :: "string \<Rightarrow> data_decoder \<Rightarrow> data_decoder outcome" where
  "data_on_header_value data d = (if dc_message d = None then CheckFailed else Returns 0 (header_value data d))"

definition data_on_headers_complete :: "parser_info \<Rightarrow> data_decoder \<Rightarrow> data_decoder outcome" where
  "data_on_headers_complete i d = (case dc_message d of
     None \<Rightarrow> CheckFailed
   | Some r \<Rightarrow> (case final_header rq_headers_update r d of (r', d') \<Rightarrow>
       Returns 0 (d'\<lparr>dc_message := Some (r'\<lparr>rq_method := p_method i, rq_keepAlive := p_keep_alive i\<rparr>)\<rparr>)))"

definition data_on_body :: "string \<Rightarrow> data_decoder \<Rightarrow> data_decoder outcome" where
  "data_on_body data d = (case dc_message d of
     None \<Rightarrow> CheckFailed | Some r \<Rightarrow> Returns 0 (d\<lparr>dc_message := Some (r\<lparr>rq_body := rq_body r @ data\<rparr>)\<rparr>))"

definition data_on_message_complete :: "'z libs \<Rightarrow> data_decoder \<Rightarrow> data_decoder outcome" where
  "data_on_message_complete L d = (case dc_message d of
     None \<Rightarrow> CheckFailed
   | Some r \<Rightarrow> (case request_url L (dd_url d) (dd_query d) r of
       Inl n \<Rightarrow> Returns n (d\<lparr>dc_failure := True\<rparr>)
     | Inr (r', q) \<Rightarrow> (case gunzip_body L (rq_headers r') (rq_body r') of
         GunzipError \<Rightarrow> Returns 1 (d\<lparr>dc_failure := True, dd_query := q\<rparr>)
       | TooLong \<Rightarrow> CheckFailed
       | Plain \<Rightarrow> Returns 0 (d\<lparr>dd_query := q, dc_messages := dc_messages d @ [r'], dc_message := None\<rparr>)
       | Gunzipped body len \<Rightarrow> Returns 0 (d\<lparr>dd_query := q, dc_message := None, dc_messages := dc_messages d @
           [r'\<lparr>rq_body := body, rq_headers := headers_set ''Content-Length'' len (rq_headers r')\<rparr>]\<rparr>))))"

fun data_callback :: "'z libs \<Rightarrow> parser_call \<Rightarrow> data_decoder \<Rightarrow> data_decoder outcome" where
  "data_callback L OnMessageBegin d = data_on_message_begin d"
| "data_callback L (OnUrl s) d = data_on_url s d"
| "data_callback L (OnHeaderField s) d = data_on_header_field s d"
| "data_callback L (OnHeaderValue s) d = data_on_header_value s d"
| "data_callback L (OnHeadersComplete i) d = data_on_headers_complete i d"
| "data_callback L (OnBody s) d = data_on_body s d"
| "data_callback L (OnMessageComplete i) d = data_on_message_complete L d"
| "data_callback L (OnStatus s) d = Returns 0 d"
| "data_callback L OnChunkHeader d = Returns 0 d"
| "data_callback L OnChunkComplete d = Returns 0 d"

definition data_decode :: "'z libs \<Rightarrow> parser_call list \<times> parse_end \<Rightarrow> data_decoder \<Rightarrow> (data_decoder \<times> request list) option" where
  "data_decode L inp d = (case execute (data_callback L) (fst inp) d of
     None \<Rightarrow> None
   | Some d' \<Rightarrow> Some (take_messages (parse_failed (snd inp) d')))"

section \<open>ResponseDecoder\<close>

type_synonym response_decoder = "response decoder"

definition response_decoder_init :: response_decoder where
  "response_decoder_init = \<lparr>dc_failure = False, dc_parser = \<lparr>errored = False, skipping = False\<rparr>, dc_header = HEADER_FIELD,
     dc_field = [], dc_value = [], dc_message = None, dc_messages = []\<rparr>"

definition response_on_message_begin :: "response_decoder \<Rightarrow> response_decoder outcome" where
  "response_on_message_begin d =
    (if dc_failure d then CheckFailed
     else if dc_message d \<noteq> None then CheckFailed
     else Returns 0 (d\<lparr>dc_header := HEADER_FIELD, dc_field := [], dc_value := [],
            dc_message := Some (new_response\<lparr>rs_status := [], rs_headers := [], rs_type := RespBody, rs_body := [], rs_path := []\<rparr>)\<rparr>))"

definition response_on_header_field :: "string \<Rightarrow> response_decoder \<Rightarrow> response_decoder outcome" where
  "response_on_header_field data d = (case dc_message d of None \<Rightarrow> CheckFailed | Some r \<Rightarrow> Returns 0 (header_field rs_headers_update data r d))"

definition response_on_header_value :: "string \<Rightarrow> response_decoder \<Rightarrow> response_decoder outcome" where
  "response_on_header_value data d = (if dc_message d = None then CheckFailed else Returns 0 (header_value data d))"

definition response_on_headers_complete :: "response_decoder \<Rightarrow> response_decoder outcome" where
  "response_on_headers_complete d = (case dc_message d of
     None \<Rightarrow> CheckFailed
   | Some r \<Rightarrow> (case final_header rs_headers_update r d of (r', d') \<Rightarrow> Returns 0 (d'\<lparr>dc_message := Some r'\<rparr>)))"

definition response_on_body :: "string \<Rightarrow> response_decoder \<Rightarrow> response_decoder outcome" where
  "response_on_body data d = (case dc_message d of
     None \<Rightarrow> CheckFailed | Some r \<Rightarrow> Returns 0 (d\<lparr>dc_message := Some (r\<lparr>rs_body := rs_body r @ data\<rparr>)\<rparr>))"

definition response_on_message_complete :: "'z libs \<Rightarrow> parser_info \<Rightarrow> response_decoder \<Rightarrow> response_decoder outcome" where
  "response_on_message_complete L i d = (case dc_message d of
     None \<Rightarrow> CheckFailed
   | Some r \<Rightarrow>
       if \<not> isValidStatus (p_status_code i) then Returns 1 (d\<lparr>dc_failure := True\<rparr>)
       else let r' = r\<lparr>rs_code := Some (p_status_code i), rs_status := Status_string (p_status_code i)\<rparr> in
         (case gunzip_body L (rs_headers r') (rs_body r') of
           GunzipError \<Rightarrow> Returns 1 (d\<lparr>dc_failure := True, dc_message := Some r'\<rparr>)
         | TooLong \<Rightarrow> CheckFailed
         | Plain \<Rightarrow> Returns 0 (d\<lparr>dc_messages := dc_messages d @ [r'], dc_message := None\<rparr>)
         | Gunzipped body len \<Rightarrow> Returns 0 (d\<lparr>dc_message := None, dc_messages := dc_messages d @
             [r'\<lparr>rs_body := body, rs_headers := headers_set ''Content-Length'' len (rs_headers r')\<rparr>]\<rparr>)))"

fun response_callback :: "'z libs \<Rightarrow> parser_call \<Rightarrow> response_decoder \<Rightarrow> response_decoder outcome" where
  "response_callback L OnMessageBegin d = response_on_message_begin d"
| "response_callback L (OnUrl s) d = Returns 0 d"
| "response_callback L (OnHeaderField s) d = response_on_header_field s d"
| "response_callback L (OnHeaderValue s) d = response_on_header_value s d"
| "response_callback L (OnHeadersComplete i) d = response_on_headers_complete d"
| "response_callback L (OnBody s) d = response_on_body s d"
| "response_callback L (OnMessageComplete i) d = response_on_message_complete L i d"
| "response_callback L (OnStatus s) d = Returns 0 d"
| "response_callback L OnChunkHeader d = Returns 0 d"
| "response_callback L OnChunkComplete d = Returns 0 d"

definition response_decode :: "'z libs \<Rightarrow> parser_call list \<times> parse_end \<Rightarrow> response_decoder \<Rightarrow> (response_decoder \<times> response list) option" where
  "response_decode L inp d = (case execute (response_callback L) (fst inp) d of
     None \<Rightarrow> None
   | Some d' \<Rightarrow> Some (take_messages (parse_failed (snd inp) d')))"

section \<open>Streaming: the pipe of a message\<close>

definition pipe_do :: "nat \<Rightarrow> pipe_op \<Rightarrow> ('m, 'x) stream_decoder_scheme \<Rightarrow> ('m, 'x) stream_decoder_scheme" where
  "pipe_do w oper d = d\<lparr>sd_ops := sd_ops d @ [(w, oper)]\<rparr>"

definition open_pipe :: "('m, 'x) stream_decoder_scheme \<Rightarrow> nat \<times> ('m, 'x) stream_decoder_scheme" where
  "open_pipe d = (sd_pipes d, d\<lparr>sd_writer := Some (sd_pipes d), sd_pipes := Suc (sd_pipes d)\<rparr>)"

definition fail_writer :: "string \<Rightarrow> ('m, 'x) stream_decoder_scheme \<Rightarrow> ('m, 'x) stream_decoder_scheme" where
  "fail_writer reason d = (case sd_writer d of None \<Rightarrow> d | Some w \<Rightarrow> (pipe_do w (FailWrite reason) d)\<lparr>sd_writer := None\<rparr>)"

definition stream_parse_failed :: "parse_end \<Rightarrow> ('m, 'x) stream_decoder_scheme \<Rightarrow> ('m, 'x) stream_decoder_scheme" where
  "stream_parse_failed e d = (if e = AllParsed then d else fail_writer ''failed to decode body'' (parse_failed e d))"

definition stream_destroy :: "('m, 'x) stream_decoder_scheme \<Rightarrow> ('m, 'x) stream_decoder_scheme" where
  "stream_destroy d = fail_writer ''Decoder is being deleted'' d"

section \<open>StreamingResponseDecoder\<close>

type_synonym streaming_response_decoder = "response stream_decoder"

definition streaming_response_init :: streaming_response_decoder where
  "streaming_response_init = \<lparr>dc_failure = False, dc_parser = \<lparr>errored = False, skipping = False\<rparr>, dc_header = HEADER_FIELD,
     dc_field = [], dc_value = [], dc_message = None, dc_messages = [], sd_writer = None, sd_pipes = 0, sd_ops = []\<rparr>"

definition sresponse_on_message_begin :: "streaming_response_decoder \<Rightarrow> streaming_response_decoder outcome" where
  "sresponse_on_message_begin d =
    (if dc_failure d then CheckFailed
     else if dc_message d \<noteq> None \<or> sd_writer d \<noteq> None then CheckFailed
     else Returns 0 (d\<lparr>dc_header := HEADER_FIELD, dc_field := [], dc_value := [],
            dc_message := Some (new_response\<lparr>rs_type := RespPipe\<rparr>), sd_writer := None\<rparr>))"

definition sresponse_on_header_field :: "string \<Rightarrow> streaming_response_decoder \<Rightarrow> streaming_response_decoder outcome" where
  "sresponse_on_header_field data d = (case dc_message d of None \<Rightarrow> Returns 1 d | Some r \<Rightarrow> Returns 0 (header_field rs_headers_update data r d))"

definition sresponse_on_header_value :: "string \<Rightarrow> streaming_response_decoder \<Rightarrow> streaming_response_decoder outcome" where
  "sresponse_on_header_value data d = (if dc_message d = None then Returns 1 d else Returns 0 (header_value data d))"

definition sresponse_on_headers_complete :: "parser_info \<Rightarrow> streaming_response_decoder \<Rightarrow> streaming_response_decoder outcome" where
  "sresponse_on_headers_complete i d = (case dc_message d of
     None \<Rightarrow> CheckFailed
   | Some r \<Rightarrow> (case final_header rs_headers_update r d of (r1, d1) \<Rightarrow>
       if \<not> isValidStatus (p_status_code i) then Returns 1 (d1\<lparr>dc_failure := True, dc_message := Some r1\<rparr>)
       else let r2 = r1\<lparr>rs_code := Some (p_status_code i), rs_status := Status_string (p_status_code i)\<rparr> in
         if headers_get ''Content-Encoding'' (rs_headers r2) = Some ''gzip''
         then Returns 1 (d1\<lparr>dc_failure := True, dc_message := Some r2\<rparr>)
         else if sd_writer d1 \<noteq> None then CheckFailed
         else (case open_pipe d1 of (w, d2) \<Rightarrow>
           Returns 0 (d2\<lparr>dc_messages := dc_messages d2 @ [r2\<lparr>rs_reader := Some w\<rparr>], dc_message := None\<rparr>))))"

definition sresponse_on_body :: "string \<Rightarrow> streaming_response_decoder \<Rightarrow> streaming_response_decoder outcome" where
  "sresponse_on_body data d = (case sd_writer d of None \<Rightarrow> CheckFailed | Some w \<Rightarrow> Returns 0 (pipe_do w (Write data) d))"

definition sresponse_on_message_complete :: "streaming_response_decoder \<Rightarrow> streaming_response_decoder outcome" where
  "sresponse_on_message_complete d = (case sd_writer d of
     None \<Rightarrow> if dc_failure d then Returns 1 d else CheckFailed
   | Some w \<Rightarrow> Returns 0 ((pipe_do w CloseWrite d)\<lparr>sd_writer := None\<rparr>))"

fun sresponse_callback :: "parser_call \<Rightarrow> streaming_response_decoder \<Rightarrow> streaming_response_decoder outcome" where
  "sresponse_callback OnMessageBegin d = sresponse_on_message_begin d"
| "sresponse_callback (OnUrl s) d = Returns 0 d"
| "sresponse_callback (OnHeaderField s) d = sresponse_on_header_field s d"
| "sresponse_callback (OnHeaderValue s) d = sresponse_on_header_value s d"
| "sresponse_callback (OnHeadersComplete i) d = sresponse_on_headers_complete i d"
| "sresponse_callback (OnBody s) d = sresponse_on_body s d"
| "sresponse_callback (OnMessageComplete i) d = sresponse_on_message_complete d"
| "sresponse_callback (OnStatus s) d = Returns 0 d"
| "sresponse_callback OnChunkHeader d = Returns 0 d"
| "sresponse_callback OnChunkComplete d = Returns 0 d"

definition sresponse_decode ::
    "parser_call list \<times> parse_end \<Rightarrow> streaming_response_decoder \<Rightarrow> (streaming_response_decoder \<times> response list) option" where
  "sresponse_decode inp d = (case execute sresponse_callback (fst inp) d of
     None \<Rightarrow> None
   | Some d' \<Rightarrow> Some (take_messages (stream_parse_failed (snd inp) d')))"

definition writingBody :: "streaming_response_decoder \<Rightarrow> bool" where
  "writingBody d = (sd_writer d \<noteq> None)"

section \<open>StreamingRequestDecoder\<close>

definition streaming_request_init :: "'z request_decoder" where
  "streaming_request_init = \<lparr>dc_failure = False, dc_parser = \<lparr>errored = False, skipping = False\<rparr>, dc_header = HEADER_FIELD,
     dc_field = [], dc_value = [], dc_message = None, dc_messages = [], sd_writer = None, sd_pipes = 0, sd_ops = [],
     sq_query = [], sq_url = [], sq_decompressor = None\<rparr>"

definition srequest_on_message_begin :: "'z request_decoder \<Rightarrow> 'z request_decoder outcome" where
  "srequest_on_message_begin d =
    (if dc_failure d then CheckFailed
     else if dc_message d \<noteq> None \<or> sd_writer d \<noteq> None then CheckFailed
     else Returns 0 (d\<lparr>dc_header := HEADER_FIELD, dc_field := [], dc_value := [], sq_query := [], sq_url := [],
            dc_message := Some (new_request\<lparr>rq_type := ReqPipe\<rparr>), sd_writer := None, sq_decompressor := None\<rparr>))"

definition srequest_on_url :: "string \<Rightarrow> 'z request_decoder \<Rightarrow> 'z request_decoder outcome" where
  "srequest_on_url data d = (if dc_message d = None then Returns 1 d else Returns 0 (d\<lparr>sq_url := sq_url d @ data\<rparr>))"

definition srequest_on_header_field :: "string \<Rightarrow> 'z request_decoder \<Rightarrow> 'z request_decoder outcome" where
  "srequest_on_header_field data d = (case dc_message d of None \<Rightarrow> Returns 1 d | Some r \<Rightarrow> Returns 0 (header_field rq_headers_update data r d))"

definition srequest_on_header_value :: "string \<Rightarrow> 'z request_decoder \<Rightarrow> 'z request_decoder outcome" where
  "srequest_on_header_value data d = (if dc_message d = None then Returns 1 d else Returns 0 (header_value data d))"

definition srequest_on_headers_complete :: "'z libs \<Rightarrow> parser_info \<Rightarrow> 'z request_decoder \<Rightarrow> 'z request_decoder outcome" where
  "srequest_on_headers_complete L i d = (case dc_message d of
     None \<Rightarrow> CheckFailed
   | Some r \<Rightarrow> (case final_header rq_headers_update r d of (r0, d1) \<Rightarrow>
       let r1 = r0\<lparr>rq_method := p_method i, rq_keepAlive := p_keep_alive i\<rparr> in
       (case request_url L (sq_url d1) (sq_query d1) r1 of
         Inl n \<Rightarrow> Returns n (d1\<lparr>dc_failure := True, dc_message := Some r1\<rparr>)
       | Inr (r2, q) \<Rightarrow>
           let d2 = d1\<lparr>sq_query := q, sq_decompressor := (if headers_get ''Content-Encoding'' (rq_headers r2) = Some ''gzip''
                         then Some (new_decompressor L) else sq_decompressor d1)\<rparr> in
           if sd_writer d2 \<noteq> None then CheckFailed
           else (case open_pipe d2 of (w, d3) \<Rightarrow>
             Returns 0 (d3\<lparr>dc_messages := dc_messages d3 @ [r2\<lparr>rq_reader := Some w\<rparr>], dc_message := None\<rparr>)))))"

definition srequest_on_body :: "'z libs \<Rightarrow> string \<Rightarrow> 'z request_decoder \<Rightarrow> 'z request_decoder outcome" where
  "srequest_on_body L data d = (case sd_writer d of
     None \<Rightarrow> CheckFailed
   | Some w \<Rightarrow> (case sq_decompressor d of
       None \<Rightarrow> Returns 0 (pipe_do w (Write data) d)
     | Some z \<Rightarrow> (case decompress L z data of
         None \<Rightarrow> Returns 1 (d\<lparr>dc_failure := True\<rparr>)
       | Some (body, z') \<Rightarrow> Returns 0 (pipe_do w (Write body) (d\<lparr>sq_decompressor := Some z'\<rparr>)))))"

definition srequest_on_message_complete :: "'z libs \<Rightarrow> 'z request_decoder \<Rightarrow> 'z request_decoder outcome" where
  "srequest_on_message_complete L d = (case sd_writer d of
     None \<Rightarrow> if dc_failure d then Returns 1 d else CheckFailed
   | Some w \<Rightarrow>
       if (case sq_decompressor d of None \<Rightarrow> False | Some z \<Rightarrow> \<not> finished L z)
       then Returns 1 ((pipe_do w (FailWrite ''Failed to decompress body'') d)\<lparr>dc_failure := True\<rparr>)
       else Returns 0 ((pipe_do w CloseWrite d)\<lparr>sd_writer := None\<rparr>))"

fun srequest_callback :: "'z libs \<Rightarrow> parser_call \<Rightarrow> 'z request_decoder \<Rightarrow> 'z request_decoder outcome" where
  "srequest_callback L OnMessageBegin d = srequest_on_message_begin d"
| "srequest_callback L (OnUrl s) d = srequest_on_url s d"
| "srequest_callback L (OnHeaderField s) d = srequest_on_header_field s d"
| "srequest_callback L (OnHeaderValue s) d = srequest_on_header_value s d"
| "srequest_callback L (OnHeadersComplete i) d = srequest_on_headers_complete L i d"
| "srequest_callback L (OnBody s) d = srequest_on_body L s d"
| "srequest_callback L (OnMessageComplete i) d = srequest_on_message_complete L d"
| "srequest_callback L (OnStatus s) d = Returns 0 d"
| "srequest_callback L OnChunkHeader d = Returns 0 d"
| "srequest_callback L OnChunkComplete d = Returns 0 d"

definition srequest_decode ::
    "'z libs \<Rightarrow> parser_call list \<times> parse_end \<Rightarrow> 'z request_decoder \<Rightarrow> ('z request_decoder \<times> request list) option" where
  "srequest_decode L inp d = (case execute (srequest_callback L) (fst inp) d of
     None \<Rightarrow> None
   | Some d' \<Rightarrow> Some (take_messages (stream_parse_failed (snd inp) d')))"

end
