(* ===== verification/Decoder_Interface.thy ===== *)
theory Decoder_Interface
  imports Decoders
begin

text \<open>
  What the four decoders have in common, as locales over the callbacks: a decoder only appends to its queue of messages, so that it does not matter how
  the data is cut into calls of \<^verbatim>\<open>decode\<close>; and the names and values of headers are collected from any number of fragments.
\<close>

section \<open>The order of the calls\<close>

datatype phase = Idle | Head | Rest

text \<open>The calls http-parser makes: the headers after the beginning of the body are the trailers of a chunked message.\<close>

fun phase_step :: "phase \<Rightarrow> parser_call \<Rightarrow> phase option" where
  "phase_step Idle OnMessageBegin = Some Head"
| "phase_step Head (OnUrl _) = Some Head"
| "phase_step Head (OnStatus _) = Some Head"
| "phase_step Head (OnHeaderField _) = Some Head"
| "phase_step Head (OnHeaderValue _) = Some Head"
| "phase_step Head (OnHeadersComplete _) = Some Rest"
| "phase_step Rest (OnBody _) = Some Rest"
| "phase_step Rest (OnHeaderField _) = Some Rest"
| "phase_step Rest (OnHeaderValue _) = Some Rest"
| "phase_step Rest OnChunkHeader = Some Rest"
| "phase_step Rest OnChunkComplete = Some Rest"
| "phase_step Rest (OnMessageComplete _) = Some Idle"
| "phase_step _ _ = None"

fun phases :: "phase \<Rightarrow> parser_call list \<Rightarrow> phase option" where
  "phases ph [] = Some ph"
| "phases ph (c # cs) = (case phase_step ph c of None \<Rightarrow> None | Some ph' \<Rightarrow> phases ph' cs)"

section \<open>Several calls of decode\<close>

fun decode_all :: "('i \<Rightarrow> 'd \<Rightarrow> ('d \<times> 'm list) option) \<Rightarrow> 'i list \<Rightarrow> 'd \<Rightarrow> ('d \<times> 'm list) option" where
  "decode_all dcd [] d = Some (d, [])"
| "decode_all dcd (i # is) d = (case dcd i d of
     None \<Rightarrow> None
   | Some (d', ms) \<Rightarrow> (case decode_all dcd is d' of None \<Rightarrow> None | Some (d'', ms') \<Rightarrow> Some (d'', ms @ ms')))"

definition prepend :: "'m list \<Rightarrow> ('m, 'x) decoder_scheme \<Rightarrow> ('m, 'x) decoder_scheme" where
  "prepend ms d = d\<lparr>dc_messages := ms @ dc_messages d\<rparr>"

lemma prepend_simps [simp]:
  "dc_parser (prepend ms d) = dc_parser d" "dc_failure (prepend ms d) = dc_failure d" "dc_message (prepend ms d) = dc_message d"
  "dc_header (prepend ms d) = dc_header d" "dc_field (prepend ms d) = dc_field d" "dc_value (prepend ms d) = dc_value d"
  "dc_messages (prepend ms d) = ms @ dc_messages d" "prepend [] d = d"
  "(prepend ms d)\<lparr>dc_parser := p\<rparr> = prepend ms (d\<lparr>dc_parser := p\<rparr>)"
  by (simp_all add: prepend_def)

lemma prepend_take [simp]: "prepend (dc_messages d) (d\<lparr>dc_messages := []\<rparr>) = d"
  by (simp add: prepend_def)

lemma execute_append: "execute h (xs @ ys) d = (case execute h xs d of None \<Rightarrow> None | Some d' \<Rightarrow> execute h ys d')"
  by (induction xs arbitrary: d) (auto split: option.splits)

lemma parse_failed_all [simp]: "parse_failed AllParsed d = d"
  by (simp add: parse_failed_def)

text \<open>The queue of messages is only appended to.\<close>

locale decoder_callbacks =
  fixes h :: "parser_call \<Rightarrow> ('m, 'x) decoder_scheme \<Rightarrow> ('m, 'x) decoder_scheme outcome"
  assumes queue_appended: "h c (prepend ms d) = map_outcome (prepend ms) (h c d)"
begin

lemma invoke_prepend: "run_callback h c (prepend ms d) = map_option (prepend ms) (run_callback h c d)"
  by (auto simp: run_callback_def queue_appended split: outcome.splits)

lemma execute_prepend: "execute h cs (prepend ms d) = map_option (prepend ms) (execute h cs d)"
  by (induction cs arbitrary: d) (auto simp: invoke_prepend split: option.splits)

text \<open>Any way to cut the calls into pieces gives the messages of the whole.\<close>

lemma decode_all_execute:
  assumes "\<And>cs d. dcd (cs, AllParsed) d = map_option take_messages (execute h cs d)"
    and "\<forall>(_, e) \<in> set inputs. e = AllParsed"
    and "execute h (concat (map fst inputs)) d = Some d'" and "dc_messages d = []"
  shows "\<exists>d''. decode_all dcd inputs d = Some (d'', dc_messages d') \<and> d'' = d'\<lparr>dc_messages := []\<rparr>"
  using assms(2-4)
proof (induction inputs arbitrary: d d')
  case (Cons i inputs)
  obtain cs where i: "i = (cs, AllParsed)"
    using Cons.prems(1) by (cases i) auto
  obtain d1 where d1: "execute h cs d = Some d1" and d': "execute h (concat (map fst inputs)) d1 = Some d'"
    using Cons.prems(2) i by (auto simp: execute_append split: option.splits)
  obtain d2 where d2: "execute h (concat (map fst inputs)) (d1\<lparr>dc_messages := []\<rparr>) = Some d2" and d'2: "d' = prepend (dc_messages d1) d2"
    using execute_prepend [of "concat (map fst inputs)" "dc_messages d1" "d1\<lparr>dc_messages := []\<rparr>"] d'
    by (cases "execute h (concat (map fst inputs)) (d1\<lparr>dc_messages := []\<rparr>)") auto
  have "\<exists>d''. decode_all dcd inputs (d1\<lparr>dc_messages := []\<rparr>) = Some (d'', dc_messages d2) \<and> d'' = d2\<lparr>dc_messages := []\<rparr>"
    using Cons.IH [OF _ d2] Cons.prems(1) by simp
  then show ?case
    using i d1 d'2 by (auto simp: assms(1) take_messages_def prepend_def)
qed (auto intro: sym)

end

section \<open>Fragments of headers\<close>

definition header_calls :: "(string list \<times> string list) list \<Rightarrow> parser_call list" where
  "header_calls hs = concat (map (\<lambda>(f, v). map OnHeaderField f @ map OnHeaderValue v) hs)"

text \<open>The headers, put together; a message without headers gets one with the empty name.\<close>

definition header_pairs :: "(string list \<times> string list) list \<Rightarrow> (string \<times> string) list" where
  "header_pairs hs = map (\<lambda>(f, v). (concat f, concat v)) hs"

definition put_all :: "(string \<times> string) list \<Rightarrow> headers \<Rightarrow> headers" where
  "put_all kvs hs = foldl (\<lambda>hs (k, v). headers_set k v hs) hs kvs"

definition collected :: "(string list \<times> string list) list \<Rightarrow> headers" where
  "collected hs = put_all (if hs = [] then [([], [])] else header_pairs hs) []"

lemma put_all_simps [simp]: "put_all [] hs = hs" "put_all (kv # kvs) hs = put_all kvs (headers_set (fst kv) (snd kv) hs)"
  by (auto simp: put_all_def split: prod.split)

locale header_callbacks =
  fixes h :: "parser_call \<Rightarrow> ('m, 'x) decoder_scheme \<Rightarrow> ('m, 'x) decoder_scheme outcome"
    and hu :: "(headers \<Rightarrow> headers) \<Rightarrow> 'm \<Rightarrow> 'm"
  assumes on_field: "dc_message d = Some m \<Longrightarrow> h (OnHeaderField s) d = Returns 0 (header_field hu s m d)"
    and on_value: "dc_message d = Some m \<Longrightarrow> h (OnHeaderValue s) d = Returns 0 (header_value s d)"
    and update_comp: "hu f (hu g m) = hu (\<lambda>hs. f (g hs)) m"
    and update_id: "hu (\<lambda>hs. hs) m = m"
begin

abbreviation active :: "('m, 'x) decoder_scheme \<Rightarrow> bool" where
  "active d \<equiv> \<not> errored (dc_parser d) \<and> \<not> skipping (dc_parser d)"

definition collecting :: "header_state \<Rightarrow> string \<Rightarrow> string \<Rightarrow> 'm \<Rightarrow> ('m, 'x) decoder_scheme \<Rightarrow> ('m, 'x) decoder_scheme" where
  "collecting st k v m d = d\<lparr>dc_header := st, dc_field := k, dc_value := v, dc_message := Some m\<rparr>"

lemma collecting_simps [simp]:
  "dc_parser (collecting st k v m d) = dc_parser d" "dc_message (collecting st k v m d) = Some m"
  "dc_header (collecting st k v m d) = st" "dc_field (collecting st k v m d) = k" "dc_value (collecting st k v m d) = v"
  "(collecting st k v m d)\<lparr>dc_parser := dc_parser d\<rparr> = collecting st k v m d"
  by (simp_all add: collecting_def)

lemma invoke_field:
  assumes "active d"
  shows "run_callback h (OnHeaderField s) (collecting st k v m d) = Some (case st of
      HEADER_FIELD \<Rightarrow> collecting HEADER_FIELD (k @ s) v m d
    | HEADER_VALUE \<Rightarrow> collecting HEADER_FIELD s [] (hu (headers_set k v) m) d)"
  using assms on_field [of "collecting st k v m d" m s]
  by (cases st) (auto simp: run_callback_def after_callback_def header_field_def collecting_def)

lemma invoke_value:
  assumes "active d"
  shows "run_callback h (OnHeaderValue s) (collecting st k v m d) = Some (collecting HEADER_VALUE k (v @ s) m d)"
  using assms on_value [of "collecting st k v m d" m s]
  by (auto simp: run_callback_def after_callback_def header_value_def collecting_def)

lemma execute_fields:
  "active d \<Longrightarrow> execute h (map OnHeaderField fs @ rest) (collecting HEADER_FIELD k v m d) = execute h rest (collecting HEADER_FIELD (k @ concat fs) v m d)"
  by (induction fs arbitrary: k) (simp_all add: invoke_field)

lemma execute_values:
  "active d \<Longrightarrow> vs \<noteq> [] \<Longrightarrow>
    execute h (map OnHeaderValue vs @ rest) (collecting st k v m d) = execute h rest (collecting HEADER_VALUE k (v @ concat vs) m d)"
proof (induction vs arbitrary: st v)
  case (Cons s vs)
  then show ?case by (cases "vs = []") (simp_all add: invoke_value)
qed simp

lemma execute_header:
  assumes "active d" and "f \<noteq> []" and "vs \<noteq> []"
  shows "execute h (map OnHeaderField f @ map OnHeaderValue vs @ rest) (collecting HEADER_VALUE k v m d)
    = execute h rest (collecting HEADER_VALUE (concat f) (concat vs) (hu (headers_set k v) m) d)"
  using assms execute_fields [of d "tl f" "map OnHeaderValue vs @ rest" "hd f"]
  by (cases f) (simp_all add: invoke_field execute_values)

lemma execute_headers:
  assumes "active d" and "\<forall>(f, v) \<in> set hs. f \<noteq> [] \<and> v \<noteq> []"
  shows "execute h (header_calls hs @ rest) (collecting HEADER_VALUE k v m d)
    = execute h rest (case last ((k, v) # header_pairs hs) of (k', v') \<Rightarrow>
        collecting HEADER_VALUE k' v' (hu (put_all (butlast ((k, v) # header_pairs hs))) m) d)"
  using assms(2)
proof (induction hs arbitrary: k v m)
  case Nil
  then show ?case by (simp add: header_calls_def header_pairs_def put_all_def update_id)
next
  case (Cons kv hs)
  obtain f vs where kv: "kv = (f, vs)" by (cases kv)
  have "execute h (header_calls (kv # hs) @ rest) (collecting HEADER_VALUE k v m d)
      = execute h (header_calls hs @ rest) (collecting HEADER_VALUE (concat f) (concat vs) (hu (headers_set k v) m) d)"
    using Cons.prems kv execute_header [OF assms(1)] by (simp add: header_calls_def)
  also have "\<dots> = execute h rest (case last ((concat f, concat vs) # header_pairs hs) of (k', v') \<Rightarrow>
        collecting HEADER_VALUE k' v' (hu (put_all (butlast ((concat f, concat vs) # header_pairs hs))) (hu (headers_set k v) m)) d)"
    using Cons.IH Cons.prems by simp
  finally show ?case by (simp add: kv header_pairs_def update_comp)
qed

text \<open>After all headers, adding the final one gives all of them.\<close>

lemma execute_head:
  assumes "active d" and "\<forall>(f, v) \<in> set hs. f \<noteq> [] \<and> v \<noteq> []"
  shows "\<exists>st k v m'. execute h (header_calls hs @ rest) (collecting HEADER_FIELD [] [] m d) = execute h rest (collecting st k v m' d)
    \<and> hu (headers_set k v) m' = hu (put_all (if hs = [] then [([], [])] else header_pairs hs)) m"
proof (cases hs)
  case Nil
  moreover have "put_all [([], [])] = headers_set [] []"
    by (simp add: fun_eq_iff)
  ultimately show ?thesis
    by (intro exI [of _ HEADER_FIELD] exI [of _ "[]"] exI [of _ m]) (simp add: header_calls_def)
next
  case (Cons kv hs')
  obtain f vs where kv: "kv = (f, vs)" by (cases kv)
  have first: "execute h (header_calls hs @ rest) (collecting HEADER_FIELD [] [] m d)
      = execute h (header_calls hs' @ rest) (collecting HEADER_VALUE (concat f) (concat vs) m d)"
    using assms Cons kv by (simp add: header_calls_def execute_fields execute_values)
  obtain k' v' where l: "last ((concat f, concat vs) # header_pairs hs') = (k', v')" by fastforce
  have "(\<lambda>hs. headers_set k' v' (put_all (butlast ((concat f, concat vs) # header_pairs hs')) hs))
      = put_all (butlast ((concat f, concat vs) # header_pairs hs') @ [(k', v')])"
    by (simp add: put_all_def fun_eq_iff)
  also have "\<dots> = put_all (header_pairs hs)"
    using append_butlast_last_id [of "(concat f, concat vs) # header_pairs hs'"] l Cons kv by (simp add: header_pairs_def)
  finally have "hu (headers_set k' v') (hu (put_all (butlast ((concat f, concat vs) # header_pairs hs'))) m) = hu (put_all (header_pairs hs)) m"
    by (simp add: update_comp)
  moreover have "execute h (header_calls hs' @ rest) (collecting HEADER_VALUE (concat f) (concat vs) m d)
      = execute h rest (collecting HEADER_VALUE k' v' (hu (put_all (butlast ((concat f, concat vs) # header_pairs hs'))) m) d)"
    using execute_headers [OF assms(1), of hs'] assms(2) Cons l by simp
  ultimately show ?thesis
    using first Cons by (intro exI [of _ HEADER_VALUE] exI [of _ k'] exI [of _ v'] exI) auto
qed

end

section \<open>The decoders are instances\<close>

lemmas data_callback_defs = data_on_message_begin_def data_on_url_def data_on_header_field_def data_on_header_value_def
  data_on_headers_complete_def data_on_body_def data_on_message_complete_def

lemmas response_callback_defs = response_on_message_begin_def response_on_header_field_def response_on_header_value_def
  response_on_headers_complete_def response_on_body_def response_on_message_complete_def

lemmas sresponse_callback_defs = sresponse_on_message_begin_def sresponse_on_header_field_def sresponse_on_header_value_def
  sresponse_on_headers_complete_def sresponse_on_body_def sresponse_on_message_complete_def

lemmas srequest_callback_defs = srequest_on_message_begin_def srequest_on_url_def srequest_on_header_field_def srequest_on_header_value_def
  srequest_on_headers_complete_def srequest_on_body_def srequest_on_message_complete_def

lemmas header_defs = header_field_def header_value_def final_header_def

interpretation data: decoder_callbacks "data_callback L" for L
proof
  show "data_callback L c (prepend ms d) = map_outcome (prepend ms) (data_callback L c d)" for c ms d
    by (cases c) (auto simp: data_callback_defs header_defs prepend_def Let_def split: option.split sum.split gunzip.split)
qed

interpretation data: header_callbacks "data_callback L" rq_headers_update for L
  by standard (auto simp: data_callback_defs comp_def)

interpretation response: decoder_callbacks "response_callback L" for L
proof
  show "response_callback L c (prepend ms d) = map_outcome (prepend ms) (response_callback L c d)" for c ms d
    by (cases c) (auto simp: response_callback_defs header_defs prepend_def Let_def split: option.split gunzip.split)
qed

interpretation response: header_callbacks "response_callback L" rs_headers_update for L
  by standard (auto simp: response_callback_defs comp_def)

interpretation sresponse: decoder_callbacks sresponse_callback
proof
  show "sresponse_callback c (prepend ms d) = map_outcome (prepend ms) (sresponse_callback c d)" for c ms d
    by (cases c) (auto simp: sresponse_callback_defs header_defs prepend_def pipe_do_def open_pipe_def Let_def split: option.split)
qed

interpretation sresponse: header_callbacks sresponse_callback rs_headers_update
  by standard (auto simp: sresponse_callback_defs comp_def)

interpretation srequest: decoder_callbacks "srequest_callback L" for L
proof
  show "srequest_callback L c (prepend ms d) = map_outcome (prepend ms) (srequest_callback L c d)" for c ms d
    by (cases c) (auto simp: srequest_callback_defs header_defs prepend_def pipe_do_def open_pipe_def Let_def split: option.split sum.split)
qed

interpretation srequest: header_callbacks "srequest_callback L" rq_headers_update for L
  by standard (auto simp: srequest_callback_defs comp_def)

end
