(* ===== verification/Decoder_Properties.thy ===== *)
theory Decoder_Properties
  imports Decoder_Interface
begin

text \<open>
  The properties of the decoders: what they return for a sequence of messages, however the data and the calls of http-parser are cut into pieces;
  the streaming decoders return the same requests and write the body into the pipe; and no \<^verbatim>\<open>CHECK\<close> of a streaming decoder fails.
\<close>

section \<open>Messages as http-parser reports them\<close>

record wire_message =
  w_info :: parser_info
  w_url :: "string list"
  w_headers :: "(string list \<times> string list) list"
  w_body :: "parser_call list"

definition calls_of :: "wire_message \<Rightarrow> parser_call list" where
  "calls_of m = OnMessageBegin # map OnUrl (w_url m) @ header_calls (w_headers m) @ OnHeadersComplete (w_info m) # w_body m @ [OnMessageComplete (w_info m)]"

fun body_call :: "parser_call \<Rightarrow> bool" where
  "body_call (OnBody _) = True"
| "body_call OnChunkHeader = True"
| "body_call OnChunkComplete = True"
| "body_call _ = False"

fun body_parts :: "parser_call list \<Rightarrow> string list" where
  "body_parts [] = []"
| "body_parts (OnBody s # cs) = s # body_parts cs"
| "body_parts (c # cs) = body_parts cs"

text \<open>Every header has a name and a value, which may be empty: http-parser reports both.\<close>

definition wire_ok :: "wire_message \<Rightarrow> bool" where
  "wire_ok m = (list_all (\<lambda>(f, v). f \<noteq> [] \<and> v \<noteq> []) (w_headers m) \<and> list_all body_call (w_body m))"

text \<open>The request a message stands for.\<close>

definition plain_request :: "wire_message \<Rightarrow> request" where
  "plain_request m = new_request\<lparr>rq_headers := collected (w_headers m), rq_method := p_method (w_info m), rq_keepAlive := p_keep_alive (w_info m)\<rparr>"

definition request_of :: "'z libs \<Rightarrow> wire_message \<Rightarrow> request option" where
  "request_of L m = (case request_url L (concat (w_url m)) [] ((plain_request m)\<lparr>rq_body := concat (body_parts (w_body m))\<rparr>) of
     Inl _ \<Rightarrow> None
   | Inr (r, _) \<Rightarrow> (case gunzip_body L (rq_headers r) (rq_body r) of
       Plain \<Rightarrow> Some r
     | Gunzipped body len \<Rightarrow> Some (r\<lparr>rq_body := body, rq_headers := headers_set ''Content-Length'' len (rq_headers r)\<rparr>)
     | _ \<Rightarrow> None))"

lemma plain_request_body [simp]: "rq_body (plain_request m) = []" "rq_headers (plain_request m) = collected (w_headers m)"
  by (simp_all add: plain_request_def new_request_def)

section \<open>DataDecoder\<close>

definition idle_decoder :: "('m, 'x) decoder_scheme \<Rightarrow> bool" where
  "idle_decoder d = (\<not> errored (dc_parser d) \<and> \<not> skipping (dc_parser d) \<and> \<not> dc_failure d)"

definition ready :: "('m, 'x) decoder_scheme \<Rightarrow> bool" where
  "ready d = (idle_decoder d \<and> dc_message d = None)"





section \<open>StreamingRequestDecoder\<close>

fun stream_body :: "'z libs \<Rightarrow> 'z option \<Rightarrow> string list \<Rightarrow> (string list \<times> 'z option) option" where
  "stream_body L z [] = Some ([], z)"
| "stream_body L None (s # ss) = map_option (apfst (Cons s)) (stream_body L None ss)"
| "stream_body L (Some z) (s # ss) = (case decompress L z s of
     None \<Rightarrow> None
   | Some (b, z') \<Rightarrow> map_option (apfst (Cons b)) (stream_body L (Some z') ss))"

definition gzipped :: "wire_message \<Rightarrow> bool" where
  "gzipped m = (headers_get ''Content-Encoding'' (collected (w_headers m)) = Some ''gzip'')"

text \<open>The request a message stands for when its body goes to pipe \<open>n\<close>, and what is done with the pipe.\<close>

definition streamed :: "'z libs \<Rightarrow> nat \<Rightarrow> wire_message \<Rightarrow> (request \<times> (nat \<times> pipe_op) list) option" where
  "streamed L n m = (case request_url L (concat (w_url m)) [] ((plain_request m)\<lparr>rq_type := ReqPipe\<rparr>) of
     Inl _ \<Rightarrow> None
   | Inr (r, _) \<Rightarrow> (case stream_body L (if gzipped m then Some (new_decompressor L) else None) (body_parts (w_body m)) of
       None \<Rightarrow> None
     | Some (ws, z) \<Rightarrow> if (case z of None \<Rightarrow> True | Some z \<Rightarrow> finished L z)
         then Some (r\<lparr>rq_reader := Some n\<rparr>, map (Pair n) (map Write ws @ [CloseWrite])) else None))"

lemma request_url_headers: "request_url L u q r = Inr (r', q') \<Longrightarrow> rq_headers r' = rq_headers r"
  by (auto simp: request_url_def Let_def split: sum.splits option.splits)

lemma srequest_urls:
  "idle_decoder d \<Longrightarrow> dc_message d = Some r \<Longrightarrow>
    execute (srequest_callback L) (map OnUrl us @ rest) d = execute (srequest_callback L) rest (d\<lparr>sq_url := sq_url d @ concat us\<rparr>)"
  by (induction us arbitrary: d) (auto simp: idle_decoder_def run_callback_def srequest_on_url_def after_callback_def)

lemma srequest_bodies:
  "idle_decoder d \<Longrightarrow> sd_writer d = Some w \<Longrightarrow> list_all body_call bs \<Longrightarrow> stream_body L (sq_decompressor d) (body_parts bs) = Some (ws, z) \<Longrightarrow>
    execute (srequest_callback L) (bs @ rest) d =
    execute (srequest_callback L) rest (d\<lparr>sd_ops := sd_ops d @ map (Pair w) (map Write ws), sq_decompressor := z\<rparr>)"
proof (induction bs arbitrary: d ws)
  case Nil
  then show ?case by (cases d) simp
next
  case (Cons b bs)
  show ?case
  proof (cases b)
    case (OnBody s)
    show ?thesis
    proof (cases "sq_decompressor d")
      case None
      then have "run_callback (srequest_callback L) b d = Some (d\<lparr>sd_ops := sd_ops d @ [(w, Write s)]\<rparr>)"
        using Cons.prems OnBody by (auto simp: idle_decoder_def run_callback_def srequest_on_body_def after_callback_def pipe_do_def)
      then show ?thesis using Cons OnBody None by (auto simp: idle_decoder_def)
    next
      case (Some z0)
      then obtain b' z' where z': "decompress L z0 s = Some (b', z')"
        using Cons.prems OnBody by (auto split: option.splits)
      then have "run_callback (srequest_callback L) b d = Some (d\<lparr>sd_ops := sd_ops d @ [(w, Write b')], sq_decompressor := Some z'\<rparr>)"
        using Cons.prems OnBody Some by (auto simp: idle_decoder_def run_callback_def srequest_on_body_def after_callback_def pipe_do_def)
      then show ?thesis using Cons OnBody Some z' by (auto simp: idle_decoder_def)
    qed
  qed (use Cons in \<open>auto simp: idle_decoder_def run_callback_def after_callback_def\<close>)
qed

definition stream_ready :: "('m, 'x) stream_decoder_scheme \<Rightarrow> bool" where
  "stream_ready d = (ready d \<and> sd_writer d = None)"

lemma srequest_message:
  assumes d: "stream_ready d" and m: "wire_ok m" and r: "streamed L (sd_pipes d) m = Some (r, ops)"
  shows "\<exists>d'. execute (srequest_callback L) (calls_of m @ rest) d = execute (srequest_callback L) rest d' \<and> stream_ready d'
    \<and> dc_messages d' = dc_messages d @ [r] \<and> sd_ops d' = sd_ops d @ ops \<and> sd_pipes d' = Suc (sd_pipes d)"
proof -
  let ?h = "srequest_callback L" and ?bs = "w_body m @ OnMessageComplete (w_info m) # rest"
  have hs: "\<forall>(f, v) \<in> set (w_headers m). f \<noteq> [] \<and> v \<noteq> []" and bs: "list_all body_call (w_body m)"
    using m by (auto simp: wire_ok_def list_all_iff)
  define d0 where "d0 = d\<lparr>sq_query := [], sq_url := concat (w_url m), sq_decompressor := None\<rparr>"
  have q: "\<not> errored (dc_parser d0)" "\<not> skipping (dc_parser d0)" "idle_decoder d0" "sd_writer d0 = None"
    using d by (auto simp: d0_def stream_ready_def ready_def idle_decoder_def)
  obtain r1 q1 ws z where r1: "request_url L (concat (w_url m)) [] ((plain_request m)\<lparr>rq_type := ReqPipe\<rparr>) = Inr (r1, q1)"
    and ws: "stream_body L (if gzipped m then Some (new_decompressor L) else None) (body_parts (w_body m)) = Some (ws, z)"
    and z: "case z of None \<Rightarrow> True | Some z \<Rightarrow> finished L z" and rr: "r = r1\<lparr>rq_reader := Some (sd_pipes d)\<rparr>"
    and ops: "ops = map (Pair (sd_pipes d)) (map Write ws @ [CloseWrite])"
    using r by (auto simp: streamed_def split: sum.splits prod.splits option.splits if_splits)
  have "execute ?h (calls_of m @ rest) d = execute ?h (header_calls (w_headers m) @ OnHeadersComplete (w_info m) # ?bs)
      (srequest.collecting HEADER_FIELD [] [] (new_request\<lparr>rq_type := ReqPipe\<rparr>) d0)"
    using d by (cases d) (simp add: calls_of_def run_callback_def srequest_on_message_begin_def stream_ready_def ready_def idle_decoder_def after_callback_def
        srequest_urls srequest.collecting_def d0_def)
  moreover obtain st k v r' where
      "execute ?h (header_calls (w_headers m) @ OnHeadersComplete (w_info m) # ?bs) (srequest.collecting HEADER_FIELD [] [] (new_request\<lparr>rq_type := ReqPipe\<rparr>) d0)
        = execute ?h (OnHeadersComplete (w_info m) # ?bs) (srequest.collecting st k v r' d0)"
    and r': "(rq_headers_update (headers_set k v) r')\<lparr>rq_method := p_method (w_info m), rq_keepAlive := p_keep_alive (w_info m)\<rparr>
        = (plain_request m)\<lparr>rq_type := ReqPipe\<rparr>"
    using srequest.execute_head [of d0 "w_headers m" L "OnHeadersComplete (w_info m) # ?bs" "new_request\<lparr>rq_type := ReqPipe\<rparr>"] q hs
    by (auto simp: collected_def new_request_def plain_request_def)
  moreover define d1 where "d1 = d0\<lparr>dc_header := st, dc_field := [], dc_value := [], dc_message := None, sq_query := q1,
      dc_messages := dc_messages d @ [r], sd_writer := Some (sd_pipes d), sd_pipes := Suc (sd_pipes d),
      sq_decompressor := (if gzipped m then Some (new_decompressor L) else None)\<rparr>"
  have "run_callback ?h (OnHeadersComplete (w_info m)) (srequest.collecting st k v r' d0) = Some d1"
    using q r' r1 request_url_headers [OF r1] rr
    by (cases d) (auto simp: run_callback_def srequest_on_headers_complete_def final_header_def after_callback_def srequest.collecting_def
        d0_def d1_def open_pipe_def gzipped_def Let_def)
  moreover have "execute ?h ?bs d1 = execute ?h (OnMessageComplete (w_info m) # rest)
      (d1\<lparr>sd_ops := sd_ops d1 @ map (Pair (sd_pipes d)) (map Write ws), sq_decompressor := z\<rparr>)"
    using srequest_bodies [of d1 "sd_pipes d"] q bs ws by (simp add: d1_def idle_decoder_def)
  moreover have "\<exists>d'. run_callback ?h (OnMessageComplete (w_info m))
      (d1\<lparr>sd_ops := sd_ops d1 @ map (Pair (sd_pipes d)) (map Write ws), sq_decompressor := z\<rparr>) = Some d' \<and> stream_ready d'
      \<and> dc_messages d' = dc_messages d @ [r] \<and> sd_ops d' = sd_ops d @ ops \<and> sd_pipes d' = Suc (sd_pipes d)"
    using q z ops by (cases z) (auto simp: run_callback_def srequest_on_message_complete_def after_callback_def d0_def d1_def pipe_do_def
        stream_ready_def ready_def idle_decoder_def)
  ultimately show ?thesis by auto
qed

lemma srequest_messages:
  assumes "stream_ready d" and "list_all wire_ok ms"
    and "map (\<lambda>(n, m). streamed L n m) (enumerate (sd_pipes d) ms) = map Some outs"
  shows "\<exists>d'. execute (srequest_callback L) (concat (map calls_of ms)) d = Some d' \<and> stream_ready d'
    \<and> dc_messages d' = dc_messages d @ map fst outs \<and> sd_ops d' = sd_ops d @ concat (map snd outs)"
  using assms
proof (induction ms arbitrary: d outs)
  case (Cons m ms)
  then obtain r ops outs' where outs: "outs = (r, ops) # outs'" and r: "streamed L (sd_pipes d) m = Some (r, ops)"
    and outs': "map (\<lambda>(n, m). streamed L n m) (enumerate (Suc (sd_pipes d)) ms) = map Some outs'"
    by (cases outs) auto
  obtain d' where d': "execute (srequest_callback L) (calls_of m @ concat (map calls_of ms)) d = execute (srequest_callback L) (concat (map calls_of ms)) d'"
      "stream_ready d'" "dc_messages d' = dc_messages d @ [r]" "sd_ops d' = sd_ops d @ ops" "sd_pipes d' = Suc (sd_pipes d)"
    using srequest_message [OF Cons.prems(1) _ r, of "concat (map calls_of ms)"] Cons.prems(2) by auto
  then show ?case
    using Cons.IH [of d' outs'] Cons.prems(2) outs outs' by auto
qed simp

section \<open>The streaming decoder agrees with the other one\<close>

definition to_pipe :: "nat \<Rightarrow> request \<Rightarrow> request" where
  "to_pipe n r = r\<lparr>rq_type := ReqPipe, rq_body := [], rq_reader := Some n\<rparr>"

definition ops_on :: "nat \<Rightarrow> (nat \<times> pipe_op) list \<Rightarrow> pipe_op list" where
  "ops_on n ops = map snd (filter (\<lambda>(p, _). p = n) ops)"

lemma stream_body_plain: "stream_body L None parts = Some (parts, None)"
  by (induction parts) simp_all

lemma request_url_type:
  "request_url L u q (r\<lparr>rq_type := ReqPipe\<rparr>) = map_sum id (apfst (\<lambda>r. r\<lparr>rq_type := ReqPipe\<rparr>)) (request_url L u q r)"
  "request_url L u q (r\<lparr>rq_body := b\<rparr>) = map_sum id (apfst (\<lambda>r. r\<lparr>rq_body := b\<rparr>)) (request_url L u q r)"
  by (auto simp: request_url_def Let_def split: sum.split option.split)

lemma request_url_body: "request_url L u q r = Inr (r', q') \<Longrightarrow> rq_body r' = rq_body r"
  by (auto simp: request_url_def Let_def split: sum.splits option.splits)

lemma streamed_request_of:
  assumes "request_of L m = Some r" and "\<not> gzipped m"
  shows "streamed L n m = Some (to_pipe n r, map (Pair n) (map Write (body_parts (w_body m)) @ [CloseWrite])) \<and> concat (body_parts (w_body m)) = rq_body r"
proof (cases "request_url L (concat (w_url m)) [] (plain_request m)")
  case (Inl e)
  with assms show ?thesis by (simp add: request_of_def request_url_type)
next
  case (Inr rq)
  obtain r0 q where r0: "request_url L (concat (w_url m)) [] (plain_request m) = Inr (r0, q)"
    using Inr by (cases rq) simp
  have "gunzip_body L (rq_headers r0) b = Plain" for b
    using assms(2) request_url_headers [OF r0] by (simp add: gunzip_body_def gzipped_def)
  then have "r = r0\<lparr>rq_body := concat (body_parts (w_body m))\<rparr>"
    using assms(1) r0 by (simp add: request_of_def request_url_type)
  then show ?thesis
    using assms(2) r0 request_url_body [OF r0] by (cases r0) (simp add: streamed_def request_url_type stream_body_plain to_pipe_def)
qed

lemma ops_on_append [simp]: "ops_on k (xs @ ys) = ops_on k xs @ ops_on k ys"
  by (simp add: ops_on_def)

lemma ops_on_pair [simp]: "ops_on k (map (Pair i) os) = (if i = k then os else [])"
  by (induction os) (auto simp: ops_on_def)

lemma ops_on_later: "k < j \<Longrightarrow> ops_on k (concat (map (\<lambda>(i, ps). map (Pair i) (f ps)) (enumerate j parts))) = []"
  by (induction parts arbitrary: j) (simp_all, simp add: ops_on_def)

lemma ops_on_streams:
  assumes "n \<le> k" and "k < n + length parts"
  shows "ops_on k (concat (map (\<lambda>(i, ps). map (Pair i) (f ps)) (enumerate n parts))) = f (parts ! (k - n))"
  using assms
proof (induction parts arbitrary: n)
  case (Cons ps parts)
  then show ?case by (cases "k = n") (simp_all add: ops_on_later nth_Cons')
qed simp

lemma srequest_all:
  assumes ok: "list_all wire_ok ms" and rs: "map (request_of L) ms = map Some rs" and gz: "list_all (\<lambda>m. \<not> gzipped m) ms"
  shows "map (\<lambda>(n, m). streamed L n m) (enumerate k ms)
    = map Some (map (\<lambda>(n, m, r). (to_pipe n r, map (Pair n) (map Write (body_parts (w_body m)) @ [CloseWrite]))) (enumerate k (zip ms rs)))"
  using assms
proof (induction ms arbitrary: k rs)
  case (Cons m ms)
  then obtain r rs' where "rs = r # rs'" by (cases rs) auto
  with Cons show ?case using streamed_request_of [of L m r k] by simp
qed simp










lemma srequest_decodes:
  fixes L :: "'z libs"
  assumes "list_all wire_ok ms" and "map (request_of L) ms = map Some rs" and "list_all (\<lambda>m. \<not> gzipped m) ms"
    and "concat (map fst inputs) = concat (map calls_of ms)" and "\<forall>(_, e) \<in> set inputs. e = AllParsed"
  shows "\<exists>d. decode_all (srequest_decode L) inputs streaming_request_init = Some (d, map (\<lambda>(n, r). to_pipe n r) (enumerate 0 rs))
    \<and> \<not> dc_failure d \<and> sd_writer d = None
    \<and> (\<forall>n < length rs. \<exists>ws. ops_on n (sd_ops d) = map Write ws @ [CloseWrite] \<and> concat ws = rq_body (rs ! n))"
proof -
  let ?outs = "map (\<lambda>(n, m, r). (to_pipe n r, map (Pair n) (map Write (body_parts (w_body m)) @ [CloseWrite]))) (enumerate 0 (zip ms rs))"
  have len: "length ms = length rs" using assms(2) by (metis length_map)
  let ?i = "streaming_request_init :: 'z request_decoder"
  have init: "stream_ready ?i" "sd_pipes ?i = 0" "dc_messages ?i = []" "sd_ops ?i = []"
    by (simp_all add: stream_ready_def ready_def idle_decoder_def streaming_request_init_def)
  obtain d' where d': "execute (srequest_callback L) (concat (map fst inputs)) streaming_request_init = Some d'" "stream_ready d'"
      "dc_messages d' = map fst ?outs" "sd_ops d' = concat (map snd ?outs)"
    using srequest_messages [OF init(1) assms(1), of L ?outs] srequest_all [OF assms(1-3), of 0] init assms(4) by auto
  have "map fst ?outs = map (\<lambda>(n, r). to_pipe n r) (enumerate 0 rs)"
    using len by (auto simp: list_eq_iff_nth_eq nth_enumerate_eq)
  moreover have "ops_on n (sd_ops d') = map Write (body_parts (w_body (ms ! n))) @ [CloseWrite]" if "n < length rs" for n
  proof -
    have "concat (map snd ?outs) = concat (map (\<lambda>(i, mr). map (Pair i) ((\<lambda>(m, r). map Write (body_parts (w_body m)) @ [CloseWrite]) mr)) (enumerate 0 (zip ms rs)))"
      by (intro arg_cong [where f = concat]) auto
    then show ?thesis
      using ops_on_streams [of 0 n "zip ms rs" "\<lambda>(m, r). map Write (body_parts (w_body m)) @ [CloseWrite]"] that len d'(4) by simp
  qed
  moreover have "concat (body_parts (w_body (ms ! n))) = rq_body (rs ! n)" if "n < length rs" for n
    using streamed_request_of [of L "ms ! n" "rs ! n"] assms(2,3) that len by (metis (no_types, lifting) list_all_length nth_map)
  ultimately show ?thesis
    using srequest.decode_all_execute [of "srequest_decode L" L inputs streaming_request_init d'] d' assms(5)
    by (fastforce simp: srequest_decode_def streaming_request_init_def stream_ready_def ready_def idle_decoder_def stream_parse_failed_def split: option.split)
qed

text \<open>
  The decoder the server uses returns the same requests as DataDecoder, except that they have a pipe of their own instead of a body; into that pipe it
  writes the body in order and then closes it. The two may be given the data in different pieces. (Requests without compressed bodies.)
\<close>

theorem streaming_request_decoder_agrees:
  fixes L :: "'z libs"
  assumes "list_all wire_ok ms" and "map (request_of L) ms = map Some rs" and "list_all (\<lambda>m. \<not> gzipped m) ms"
    and "concat (map fst inputs) = concat (map calls_of ms)" and "\<forall>(_, e) \<in> set inputs. e = AllParsed"
  shows "\<exists>d. decode_all (srequest_decode L) inputs streaming_request_init = Some (d, map (\<lambda>(n, r). to_pipe n r) (enumerate 0 rs))
    \<and> \<not> dc_failure d \<and> sd_writer d = None
    \<and> (\<forall>n < length rs. \<exists>ws. ops_on n (sd_ops d) = map Write ws @ [CloseWrite] \<and> concat ws = rq_body (rs ! n))"
  using assms by (rule srequest_decodes)

section \<open>No CHECK fails\<close>

text \<open>What holds between two calls of a streaming decoder.\<close>

definition stream_inv :: "phase \<Rightarrow> ('m, 'x) stream_decoder_scheme \<Rightarrow> bool" where
  "stream_inv ph d = (errored (dc_parser d) \<or>
    (if skipping (dc_parser d) then ph = Rest \<and> dc_failure d \<and> sd_writer d = None
     else \<not> dc_failure d \<and> (case ph of
       Idle \<Rightarrow> dc_message d = None \<and> sd_writer d = None
     | Head \<Rightarrow> dc_message d \<noteq> None \<and> sd_writer d = None
     | Rest \<Rightarrow> dc_message d = None \<and> sd_writer d \<noteq> None)))"

text \<open>What a callback has to return, when it is invoked.\<close>

definition stream_result :: "phase \<Rightarrow> parser_call \<Rightarrow> http_parser \<Rightarrow> ('m, 'x) stream_decoder_scheme outcome \<Rightarrow> bool" where
  "stream_result ph c p res = (case res of CheckFailed \<Rightarrow> False | Returns n d \<Rightarrow> stream_inv ph (d\<lparr>dc_parser := after_callback c n p\<rparr>))"

lemma stream_invoke:
  assumes "stream_inv ph d" and "phase_step ph c = Some ph'"
    and "\<not> errored (dc_parser d) \<Longrightarrow> skipping (dc_parser d) \<longrightarrow> is_complete c \<Longrightarrow> stream_result ph' c (dc_parser d) (h c d)"
  shows "\<exists>d'. run_callback h c d = Some d' \<and> stream_inv ph' d'"
proof (cases "errored (dc_parser d) \<or> (skipping (dc_parser d) \<and> \<not> is_complete c)")
  case True
  then have "stream_inv ph' d"
    using assms(1,2) by (cases c) (auto simp: stream_inv_def split: if_splits)
  with True show ?thesis by (simp add: run_callback_def)
next
  case False
  with assms(3) show ?thesis by (auto simp: run_callback_def stream_result_def split: outcome.splits)
qed

lemmas stream_defs = stream_result_def stream_inv_def after_callback_def header_defs pipe_do_def open_pipe_def

lemma srequest_step:
  assumes "\<And>s n. parse_url L s = Inl n \<Longrightarrow> n \<noteq> 0" and inv: "stream_inv ph d" and step: "phase_step ph c = Some ph'"
  shows "\<exists>d'. run_callback (srequest_callback L) c d = Some d' \<and> stream_inv ph' d'"
proof (rule stream_invoke [OF inv step])
  assume "\<not> errored (dc_parser d)" and "skipping (dc_parser d) \<longrightarrow> is_complete c"
  moreover have "request_url L u q r \<noteq> Inl 0" for u q r
    using assms(1) by (auto simp: request_url_def Let_def split: sum.splits option.splits)
  ultimately show "stream_result ph' c (dc_parser d) (srequest_callback L c d)"
    using inv step
    by (cases ph; cases c; simp) (auto simp: stream_defs srequest_callback_defs Let_def split: if_splits option.splits sum.splits prod.splits)
qed

lemma sresponse_step:
  assumes inv: "stream_inv ph d" and step: "phase_step ph c = Some ph'"
  shows "\<exists>d'. run_callback sresponse_callback c d = Some d' \<and> stream_inv ph' d'"
proof (rule stream_invoke [OF inv step])
  assume "\<not> errored (dc_parser d)" and "skipping (dc_parser d) \<longrightarrow> is_complete c"
  then show "stream_result ph' c (dc_parser d) (sresponse_callback c d)"
    using inv step
    by (cases ph; cases c; simp) (auto simp: stream_defs sresponse_callback_defs Let_def split: if_splits option.splits)
qed

text \<open>The decoders of whole messages.\<close>

definition body_inv :: "phase \<Rightarrow> ('m, 'x) decoder_scheme \<Rightarrow> bool" where
  "body_inv ph d = (errored (dc_parser d) \<or> (\<not> skipping (dc_parser d) \<and> \<not> dc_failure d \<and> (dc_message d = None \<longleftrightarrow> ph = Idle)))"

lemma data_step:
  assumes "\<And>s n. parse_url L s = Inl n \<Longrightarrow> n \<noteq> 0" and "\<And>s t. gzip_decompress L s = Some t \<Longrightarrow> length t \<le> CHAR_MAX"
    and "body_inv ph d" and "phase_step ph c = Some ph'"
  shows "\<exists>d'. run_callback (data_callback L) c d = Some d' \<and> body_inv ph' d'"
proof (cases "errored (dc_parser d)")
  case False
  moreover have "request_url L u q r \<noteq> Inl 0" for u q r
    using assms(1) by (auto simp: request_url_def Let_def split: sum.splits option.splits)
  moreover have "gunzip_body L hs b \<noteq> TooLong" for hs b
    using assms(2) by (auto simp: gunzip_body_def split: option.splits)
  ultimately show ?thesis
    using assms(3,4)
    by (cases ph; cases c; simp) (auto simp: body_inv_def run_callback_def after_callback_def header_defs data_callback_defs split: option.splits sum.splits gunzip.splits)
qed (simp add: run_callback_def body_inv_def)

lemma response_step:
  assumes "\<And>s t. gzip_decompress L s = Some t \<Longrightarrow> length t \<le> CHAR_MAX" and "body_inv ph d" and "phase_step ph c = Some ph'"
  shows "\<exists>d'. run_callback (response_callback L) c d = Some d' \<and> body_inv ph' d'"
proof (cases "errored (dc_parser d)")
  case False
  moreover have "gunzip_body L hs b \<noteq> TooLong" for hs b
    using assms(1) by (auto simp: gunzip_body_def split: option.splits)
  ultimately show ?thesis
    using assms(2,3)
    by (cases ph; cases c; simp) (auto simp: body_inv_def run_callback_def after_callback_def header_defs response_callback_defs Let_def
        split: option.splits gunzip.splits if_splits)
qed (simp add: run_callback_def body_inv_def)

lemma execute_phases:
  assumes "\<And>ph d c ph'. I ph d \<Longrightarrow> phase_step ph c = Some ph' \<Longrightarrow> \<exists>d'. run_callback h c d = Some d' \<and> I ph' d'"
    and "I ph d" and "phases ph cs = Some ph'"
  shows "\<exists>d'. execute h cs d = Some d' \<and> I ph' d'"
  using assms(2,3)
proof (induction cs arbitrary: ph d)
  case (Cons c cs)
  then obtain ph1 where "phase_step ph c = Some ph1" "phases ph1 cs = Some ph'" by (auto split: option.splits)
  then show ?case using assms(1) [of ph d c ph1] Cons by force
qed simp

lemma phases_append: "phases ph (xs @ ys) = (case phases ph xs of None \<Rightarrow> None | Some ph' \<Rightarrow> phases ph' ys)"
  by (induction xs arbitrary: ph) (auto split: option.splits)

lemma decode_all_phases:
  assumes step: "\<And>ph d c ph'. I ph d \<Longrightarrow> phase_step ph c = Some ph' \<Longrightarrow> \<exists>d'. run_callback h c d = Some d' \<and> I ph' d'"
    and dcd: "\<And>inp d d'. execute h (fst inp) d = Some d' \<Longrightarrow> dcd inp d = Some (take_messages (pf (snd inp) d'))"
    and pf: "\<And>ph e d. I ph d \<Longrightarrow> e \<noteq> Upgraded \<Longrightarrow> I ph (fst (take_messages (pf e d)))"
    and "I ph d" and "phases ph (concat (map fst inputs)) = Some ph'" and "\<forall>(_, e) \<in> set inputs. e \<noteq> Upgraded"
  shows "decode_all dcd inputs d \<noteq> None"
  using assms(4-6)
proof (induction inputs arbitrary: ph d)
  case (Cons inp inputs)
  then obtain ph1 where ph1: "phases ph (fst inp) = Some ph1" "phases ph1 (concat (map fst inputs)) = Some ph'"
    by (auto simp: phases_append split: option.splits)
  obtain d1 where d1: "execute h (fst inp) d = Some d1" "I ph1 d1"
    using execute_phases [of I h ph d "fst inp" ph1] step Cons.prems(1) ph1(1) by blast
  then have "I ph1 (fst (take_messages (pf (snd inp) d1)))"
    using pf Cons.prems(3) by (cases inp) auto
  then have "decode_all dcd inputs (fst (take_messages (pf (snd inp) d1))) \<noteq> None"
    using Cons.IH ph1(2) Cons.prems(3) by simp
  then show ?case
    using dcd [OF d1(1)] by (auto split: option.splits prod.splits)
qed simp

lemma stream_inv_end: "stream_inv ph d \<Longrightarrow> e \<noteq> Upgraded \<Longrightarrow> stream_inv ph (fst (take_messages (stream_parse_failed e d)))"
  by (cases e) (auto simp: stream_inv_def take_messages_def stream_parse_failed_def parse_failed_def fail_writer_def pipe_do_def split: option.splits phase.splits)

lemma body_inv_end: "body_inv ph d \<Longrightarrow> e \<noteq> Upgraded \<Longrightarrow> body_inv ph (fst (take_messages (parse_failed e d)))"
  by (cases e) (auto simp: body_inv_def take_messages_def parse_failed_def)

text \<open>
  Whatever http-parser reports, in the order it documents, whether the data is well-formed or not: no \<^verbatim>\<open>CHECK\<close> of a streaming decoder fails, and one
  of the other two decoders only fails when it decompresses a body to more than 127 bytes.
\<close>

theorem decoder_checks_hold:
  assumes "\<forall>s n. parse_url L s = Inl n \<longrightarrow> n \<noteq> 0"
    and "phases Idle (concat (map fst inputs)) = Some ph" and "\<forall>(_, e) \<in> set inputs. e \<noteq> Upgraded"
  shows "decode_all (srequest_decode L) inputs streaming_request_init \<noteq> None
    \<and> decode_all sresponse_decode inputs streaming_response_init \<noteq> None
    \<and> ((\<forall>s t. gzip_decompress L s = Some t \<longrightarrow> length t \<le> CHAR_MAX) \<longrightarrow>
      decode_all (data_decode L) inputs data_decoder_init \<noteq> None \<and> decode_all (response_decode L) inputs response_decoder_init \<noteq> None)"
proof (intro conjI)
  show "decode_all (srequest_decode L) inputs streaming_request_init \<noteq> None"
    by (rule decode_all_phases [where I = stream_inv and h = "srequest_callback L" and pf = stream_parse_failed, OF srequest_step _ stream_inv_end _ assms(2,3)])
      (use assms(1) in \<open>auto simp: srequest_decode_def stream_inv_def streaming_request_init_def\<close>)
  show "decode_all sresponse_decode inputs streaming_response_init \<noteq> None"
    by (rule decode_all_phases [where I = stream_inv and h = sresponse_callback and pf = stream_parse_failed, OF sresponse_step _ stream_inv_end _ assms(2,3)])
      (auto simp: sresponse_decode_def stream_inv_def streaming_response_init_def)
  show "(\<forall>s t. gzip_decompress L s = Some t \<longrightarrow> length t \<le> CHAR_MAX) \<longrightarrow>
      decode_all (data_decode L) inputs data_decoder_init \<noteq> None \<and> decode_all (response_decode L) inputs response_decoder_init \<noteq> None"
  proof (intro impI conjI)
    assume gz: "\<forall>s t. gzip_decompress L s = Some t \<longrightarrow> length t \<le> CHAR_MAX"
    show "decode_all (data_decode L) inputs data_decoder_init \<noteq> None"
      by (rule decode_all_phases [where I = body_inv and h = "data_callback L" and pf = parse_failed, OF data_step _ body_inv_end _ assms(2,3)])
        (use assms(1) gz in \<open>auto simp: data_decode_def body_inv_def data_decoder_init_def\<close>)
    show "decode_all (response_decode L) inputs response_decoder_init \<noteq> None"
      by (rule decode_all_phases [where I = body_inv and h = "response_callback L" and pf = parse_failed, OF response_step _ body_inv_end _ assms(2,3)])
        (use gz in \<open>auto simp: response_decode_def body_inv_def response_decoder_init_def\<close>)
  qed
qed

section \<open>Concrete runs\<close>

text \<open>A parser that takes the whole URL for the path, and a decompression that doubles its input.\<close>

definition ref_libs :: "unit libs" where
  "ref_libs = \<lparr>lib_strings = ref_strings,
     parse_url = (\<lambda>u. Inr \<lparr>uf_path = Some (0, length u), uf_query = None, uf_fragment = None\<rparr>),
     gzip_decompress = (\<lambda>s. Some (s @ s)), new_decompressor = (), decompress = (\<lambda>_ s. Some (s @ s, ())), finished = (\<lambda>_. True)\<rparr>"

definition get_info :: parser_info where
  "get_info = \<lparr>p_method = ''GET'', p_keep_alive = True, p_status_code = 200\<rparr>"

definition sample_message :: wire_message where
  "sample_message = \<lparr>w_info = get_info, w_url = [''/a'', ''b''], w_headers = [([''Ho'', ''st''], [''x''])], w_body = [OnBody ''hi'', OnChunkComplete, OnBody ''!'']\<rparr>"

definition sample_request :: request where
  "sample_request = \<lparr>rq_method = ''GET'', rq_path = ''/ab'', rq_query = Map.empty, rq_fragment = None, rq_headers = [(''Host'', ''x'')],
     rq_keepAlive = True, rq_type = ReqBody, rq_body = ''hi!'', rq_reader = None\<rparr>"

definition sample_inputs :: "(parser_call list \<times> parse_end) list" where
  "sample_inputs = [(take 4 (calls_of sample_message), AllParsed), (drop 4 (calls_of sample_message) @ calls_of sample_message, AllParsed)]"

lemma sample_ok: "list_all wire_ok [sample_message, sample_message]" "list_all (\<lambda>m. \<not> gzipped m) [sample_message, sample_message]"
  by code_simp+

lemma sample_inputs_ok: "concat (map fst sample_inputs) = concat (map calls_of [sample_message, sample_message])" "\<forall>(_, e) \<in> set sample_inputs. e = AllParsed"
  "phases Idle (concat (map fst sample_inputs)) = Some Idle"
  by code_simp+

lemma sample_request_of: "request_of ref_libs sample_message = Some sample_request"
proof -
  have hs: "collected (w_headers sample_message) = [(''Host'', ''x'')]" "headers_get ''Content-Encoding'' [(''Host'', ''x'')] = None"
    by code_simp+
  then show ?thesis
    by (simp add: request_of_def plain_request_def request_url_def gunzip_body_def ref_libs_def sample_message_def sample_request_def get_info_def
        substring_def query_decode_def ref_strings_def new_request_def)
qed



theorem streaming_request_decoder_agrees_witness:
  "\<exists>d. decode_all (srequest_decode ref_libs) sample_inputs streaming_request_init = Some (d, [to_pipe 0 sample_request, to_pipe 1 sample_request])
    \<and> \<not> dc_failure d \<and> sd_writer d = None"
  using streaming_request_decoder_agrees [of "[sample_message, sample_message]" ref_libs "[sample_request, sample_request]" sample_inputs]
    sample_ok sample_inputs_ok sample_request_of by auto

theorem decoder_checks_hold_witness:
  "decode_all (srequest_decode ref_libs) sample_inputs streaming_request_init \<noteq> None"
proof -
  have "\<forall>s n. parse_url ref_libs s = Inl n \<longrightarrow> n \<noteq> 0" by (simp add: ref_libs_def)
  moreover have "\<forall>(_, e) \<in> set sample_inputs. e \<noteq> Upgraded" by code_simp
  ultimately show ?thesis
    using decoder_checks_hold [of ref_libs sample_inputs Idle] sample_inputs_ok(3) by blast
qed

text \<open>A body that is decompressed to more than 127 bytes ends the program, and the length of a shorter one is written as a byte, not in digits.\<close>

definition gzip_request :: "nat \<Rightarrow> parser_call list" where
  "gzip_request n = [OnMessageBegin, OnUrl ''/'', OnHeaderField ''Content-Encoding'', OnHeaderValue ''gzip'', OnHeadersComplete get_info,
     OnBody (replicate n CHR ''x''), OnMessageComplete get_info]"

lemma long_gzip_body_aborts:
  "data_decode ref_libs (gzip_request 64, AllParsed) data_decoder_init = None"
  "map_option (map (headers_get ''Content-Length'' \<circ> rq_headers) \<circ> snd) (data_decode ref_libs (gzip_request 25, AllParsed) data_decoder_init) = Some [Some ''2'']"
  by code_simp+

text \<open>A request without headers gets one with the empty name; of trailers, DataDecoder drops the last and adds a header with the empty name.\<close>

lemma request_without_headers:
  "map_option (map rq_headers \<circ> snd) (data_decode ref_libs ([OnMessageBegin, OnUrl ''/'', OnHeadersComplete get_info, OnMessageComplete get_info], AllParsed)
     data_decoder_init) = Some [[([], [])]]"
  by code_simp

lemma trailers_lost:
  "map_option (map rq_headers \<circ> snd) (data_decode ref_libs ([OnMessageBegin, OnUrl ''/'', OnHeaderField ''A'', OnHeaderValue ''1'', OnHeadersComplete get_info,
     OnHeaderField ''T'', OnHeaderValue ''2'', OnMessageComplete get_info], AllParsed) data_decoder_init) = Some [[(''A'', ''1''), ([], [])]]"
  by code_simp

text \<open>
  A request to change the protocol is not an error of the parser, but \<^verbatim>\<open>decode\<close> sets \<open>failure\<close> if data follows it; the server goes on reading as long as
  requests were decoded, and the beginning of the next message then fails the \<^verbatim>\<open>CHECK\<close>.
\<close>

lemma message_after_upgrade_aborts:
  "decode_all (srequest_decode ref_libs) [([OnMessageBegin, OnUrl ''/'', OnHeadersComplete get_info, OnMessageComplete get_info], Upgraded),
     ([OnMessageBegin], AllParsed)] streaming_request_init = None"
  by code_simp

end
