(* ===== verification/Pids.thy ===== *)
theory Pids
  imports Encoder_Properties Decoder_Properties "HOL-Library.Char_ord" "HOL-Library.List_Lexorder"
begin

text \<open>
  Addresses and process identifiers (\<^verbatim>\<open>include/process/address.hpp\<close>, \<^verbatim>\<open>pid.hpp\<close>, \<^verbatim>\<open>src/pid.cpp\<close>) and the messages between nodes: \<^verbatim>\<open>MessageEncoder\<close> of
  \<^verbatim>\<open>src/encoder.hpp\<close> and \<^verbatim>\<open>libprocess\<close> and \<^verbatim>\<open>parse\<close> of \<^verbatim>\<open>src/process.cpp\<close>. Printing and parsing of IP addresses and trimming are functions of stout, and
  parameters here. The host name that a UPID keeps for display and for TLS is left out.
\<close>

section \<open>Addresses and UPIDs\<close>

datatype 'ip address = Address (a_ip: 'ip) (a_port: nat)

datatype 'ip upid = UPID (u_id: string) (u_address: "'ip address")

definition address_less :: "'ip :: linorder address \<Rightarrow> 'ip address \<Rightarrow> bool" where
  "address_less a b = (if a_ip a = a_ip b then a_port a < a_port b else a_ip a < a_ip b)"

definition upid_less :: "'ip :: linorder upid \<Rightarrow> 'ip upid \<Rightarrow> bool" where
  "upid_less p q = (if u_address p = u_address q then u_id p < u_id q else address_less (u_address p) (u_address q))"

text \<open>Both orders are linear, as ordered containers need them.\<close>

instantiation address :: (linorder) linorder
begin

definition less_address :: "'a address \<Rightarrow> 'a address \<Rightarrow> bool" where
  "less_address a b = address_less a b"

definition less_eq_address :: "'a address \<Rightarrow> 'a address \<Rightarrow> bool" where
  "less_eq_address a b = (a = b \<or> address_less a b)"

instance
  by standard (auto simp: less_address_def less_eq_address_def address_less_def address.expand split: if_splits)

end

instantiation upid :: (linorder) linorder
begin

definition less_upid :: "'a upid \<Rightarrow> 'a upid \<Rightarrow> bool" where
  "less_upid p q = upid_less p q"

definition less_eq_upid :: "'a upid \<Rightarrow> 'a upid \<Rightarrow> bool" where
  "less_eq_upid p q = (p = q \<or> upid_less p q)"

instance
proof -
  have less: "upid_less p q = (u_address p < u_address q \<or> (u_address p = u_address q \<and> u_id p < u_id q))" for p q :: "'a upid"
    by (auto simp: upid_less_def less_address_def address_less_def)
  have eq: "p = q \<longleftrightarrow> u_address p = u_address q \<and> u_id p = u_id q" for p q :: "'a upid"
    by (auto intro: upid.expand)
  show "OFCLASS('a upid, linorder_class)"
    by standard (auto simp: less_upid_def less_eq_upid_def less eq)
qed

end

section \<open>Printing and parsing\<close>

record 'ip inet =
  show_ip :: "'ip \<Rightarrow> string"
  parse_ip :: "string \<Rightarrow> 'ip option"
  get_ip :: "string \<Rightarrow> 'ip option"
  any_ip :: 'ip
  trim :: "string \<Rightarrow> string"

definition address_print :: "'ip inet \<Rightarrow> 'ip address \<Rightarrow> string" where
  "address_print I a = show_ip I (a_ip a) @ '':'' @ dec (a_port a)"

definition upid_print :: "'ip inet \<Rightarrow> 'ip upid \<Rightarrow> string" where
  "upid_print I p = u_id p @ [CHR 0x40] @ address_print I (u_address p)"

definition isspace :: "char \<Rightarrow> bool" where
  "isspace c = (c = CHR '' '' \<or> (9 \<le> (of_char c :: nat) \<and> (of_char c :: nat) \<le> 13))"

text \<open>\<^verbatim>\<open>stream >> str\<close>.\<close>

definition next_word :: "string \<Rightarrow> string" where
  "next_word s = takeWhile (\<lambda>c. \<not> isspace c) (dropWhile isspace s)"

text \<open>\<^verbatim>\<open>find\<close> with the two calls of \<^verbatim>\<open>substr\<close>.\<close>

definition split_first :: "char \<Rightarrow> string \<Rightarrow> (string \<times> string) option" where
  "split_first c s = (if c \<in> set s then Some (takeWhile (\<lambda>x. x \<noteq> c) s, tl (dropWhile (\<lambda>x. x \<noteq> c) s)) else None)"

definition isdigit :: "char \<Rightarrow> bool" where
  "isdigit c = (48 \<le> (of_char c :: nat) \<and> (of_char c :: nat) \<le> 57)"

text \<open>\<^verbatim>\<open>sscanf(s, "%hu", &port)\<close>: an optional sign and digits; the value is read as an unsigned long and cut to 16 bits.\<close>

definition scan_hu :: "string \<Rightarrow> nat option" where
  "scan_hu s =
    (let (neg, t) = (case s of c # cs \<Rightarrow> if c = CHR ''-'' then (True, cs) else if c = CHR ''+'' then (False, cs) else (False, s) | [] \<Rightarrow> (False, []));
         ds = takeWhile isdigit t
     in if ds = [] then None
        else let v = min (undec ds) (2 ^ 64 - 1) in
          Some (nat ((if neg then - int v else int v) mod 2 ^ 16)))"

definition upid_read :: "'ip inet \<Rightarrow> string \<Rightarrow> 'ip upid option" where
  "upid_read I s = (let str = next_word s in
     if str = [] then None
     else case split_first (CHR 0x40) str of
       None \<Rightarrow> None
     | Some (i, rest) \<Rightarrow> (case split_first (CHR '':'') rest of
         None \<Rightarrow> None
       | Some (host, port_text) \<Rightarrow> (case (case parse_ip I host of Some a \<Rightarrow> Some a | None \<Rightarrow> get_ip I host) of
           None \<Rightarrow> None
         | Some a \<Rightarrow> map_option (\<lambda>p. UPID i (Address a p)) (scan_hu port_text))))"

text \<open>The constructor ignores the state of the stream: what cannot be parsed is the empty UPID.\<close>

definition upid_of_string :: "'ip inet \<Rightarrow> string \<Rightarrow> 'ip upid" where
  "upid_of_string I s = (case upid_read I s of Some p \<Rightarrow> p | None \<Rightarrow> UPID [] (Address (any_ip I) 0))"

section \<open>Messages\<close>

record 'ip message =
  m_name :: string
  m_from :: "'ip upid"
  m_to :: "'ip upid"
  m_body :: string

definition message_target :: "'ip message \<Rightarrow> string" where
  "message_target m = (if u_id (m_to m) \<noteq> [] then ''/'' @ u_id (m_to m) else []) @ ''/'' @ m_name m"

definition message_encode :: "'ip inet \<Rightarrow> 'ip message \<Rightarrow> string" where
  "message_encode I m =
    ''POST '' @ message_target m @ '' HTTP/1.1'' @ crlf @
    ''User-Agent: libprocess/'' @ upid_print I (m_from m) @ crlf @
    ''Libprocess-From: '' @ upid_print I (m_from m) @ crlf @
    ''Connection: Keep-Alive'' @ crlf @
    ''Host: '' @ crlf @
    (if length (m_body m) > 0 then ''Transfer-Encoding: chunked'' @ crlf @ crlf @ hex (length (m_body m)) @ crlf @ m_body m @ crlf @ ''0'' @ crlf @ crlf
     else crlf)"

definition libprocess :: "request \<Rightarrow> bool" where
  "libprocess r = (
    (rq_method r = ''POST'' \<and> headers_contains ''User-Agent'' (rq_headers r)
      \<and> take 11 (the (headers_get ''User-Agent'' (rq_headers r))) = ''libprocess/'')
    \<or> (rq_method r = ''POST'' \<and> headers_contains ''Libprocess-From'' (rq_headers r)))"

text \<open>What follows the first occurrence of \<^verbatim>\<open>libprocess/\<close>.\<close>

fun after_identifier :: "string \<Rightarrow> string option" where
  "after_identifier [] = None"
| "after_identifier (c # cs) = (if take 11 (c # cs) = ''libprocess/'' then Some (drop 11 (c # cs)) else after_identifier cs)"

datatype message_error = NoSender | PathNotAbsolute | PathNotDecoded | OutOfRange

definition message_sender :: "'ip inet \<Rightarrow> request \<Rightarrow> message_error + 'ip upid" where
  "message_sender I r = (case headers_get ''Libprocess-From'' (rq_headers r) of
     Some v \<Rightarrow> Inr (upid_of_string I (trim I v))
   | None \<Rightarrow> (case headers_get ''User-Agent'' (rq_headers r) of
       None \<Rightarrow> Inl OutOfRange
     | Some agent \<Rightarrow> (case after_identifier agent of None \<Rightarrow> Inl NoSender | Some s \<Rightarrow> Inr (upid_of_string I s))))"

text \<open>The body is what is read from the pipe of the request.\<close>

definition message_parse :: "'ip inet \<Rightarrow> 'ip address \<Rightarrow> request \<Rightarrow> string \<Rightarrow> message_error + 'ip message" where
  "message_parse I self r body = (case message_sender I r of
     Inl e \<Rightarrow> Inl e
   | Inr from \<Rightarrow> (case rq_path r of
       c # rest \<Rightarrow>
         if c \<noteq> CHR ''/'' then Inl PathNotAbsolute
         else let (target, name) = (case split_first (CHR ''/'') rest of Some (a, b) \<Rightarrow> (a, b) | None \<Rightarrow> (rest, [])) in
           (case http_decode target of
             Inl _ \<Rightarrow> Inl PathNotDecoded
           | Inr i \<Rightarrow> Inr \<lparr>m_name = name, m_from = from, m_to = UPID i self, m_body = body\<rparr>)
     | [] \<Rightarrow> Inl PathNotAbsolute))"

end
