(* ===== verification/Message_Passing.thy ===== *)
theory Message_Passing
  imports Pids
begin

text \<open>
  A message that is sent to another node arrives there as the same message: the composition of \<^verbatim>\<open>MessageEncoder\<close>, http-parser,
  \<^verbatim>\<open>StreamingRequestDecoder\<close> and \<^verbatim>\<open>parse\<close>. What http-parser does with the text of a request, and its URL parser with a path, is a hypothesis.
\<close>

section \<open>UPIDs\<close>

text \<open>What stout documents: parsing inverts printing of IP addresses, which have no colon or white space, and \<^verbatim>\<open>trim\<close> only removes white space.\<close>

definition inet_ok :: "'ip inet \<Rightarrow> bool" where
  "inet_ok I = ((\<forall>a. parse_ip I (show_ip I a) = Some a \<and> list_all (\<lambda>c. \<not> isspace c \<and> c \<noteq> CHR '':'') (show_ip I a))
    \<and> (\<forall>s. list_all (\<lambda>c. \<not> isspace c) s \<longrightarrow> trim I s = s))"

definition upid_ok :: "'ip upid \<Rightarrow> bool" where
  "upid_ok p = (list_all (\<lambda>c. \<not> isspace c \<and> c \<noteq> CHR 0x40) (u_id p) \<and> a_port (u_address p) < 65536)"

lemma split_first_append: "c \<notin> set a \<Longrightarrow> split_first c (a @ c # b) = Some (a, b)"
  by (induction a) (auto simp: split_first_def)

lemma isdigit_digit: "k < 10 \<Longrightarrow> isdigit (char_of (48 + k :: nat))"
  by (simp add: isdigit_def)

lemma dec_isdigit: "list_all isdigit (dec n) \<and> dec n \<noteq> []"
proof (induction n rule: dec.induct)
  case (1 n)
  show ?case
  proof (cases "n < 10")
    case True
    then show ?thesis by (subst (1 2) dec.simps) (simp add: isdigit_digit)
  next
    case False
    with 1 show ?thesis by (subst (1 2) dec.simps) (simp add: isdigit_digit)
  qed
qed

lemma scan_hu_dec: "n < 65536 \<Longrightarrow> scan_hu (dec n) = Some n"
proof -
  assume n: "n < 65536"
  obtain c cs where c: "dec n = c # cs" "isdigit c" using dec_isdigit [of n] by (cases "dec n") auto
  then have "c \<noteq> CHR ''-''" "c \<noteq> CHR ''+''" by (auto simp: isdigit_def)
  moreover have tw: "takeWhile isdigit cs = cs" using dec_isdigit [of n] c(1) by (simp add: takeWhile_eq_all_conv list_all_iff)
  moreover have "undec (c # cs) = n" using undec_dec [of n] c(1) by simp
  ultimately show ?thesis using n c by (simp add: scan_hu_def Let_def tw)
qed

lemma next_word_all: "list_all (\<lambda>c. \<not> isspace c) s \<Longrightarrow> next_word s = s"
  by (cases s) (auto simp: next_word_def takeWhile_eq_all_conv list_all_iff)

lemma upid_print_no_space:
  assumes "inet_ok I" and "upid_ok p"
  shows "list_all (\<lambda>c. \<not> isspace c) (upid_print I p)"
proof -
  have "\<not> isspace c" if "isdigit c" for c using that by (auto simp: isspace_def isdigit_def)
  moreover have "\<not> isspace (CHR 0x40)" "\<not> isspace (CHR '':'')" by code_simp+
  ultimately show ?thesis
    using assms dec_isdigit [of "a_port (u_address p)"] by (auto simp: upid_print_def address_print_def inet_ok_def upid_ok_def list_all_iff)
qed

lemma upid_roundtrip:
  assumes "inet_ok I" and "upid_ok p"
  shows "upid_read I (upid_print I p) = Some p"
proof -
  have "next_word (upid_print I p) = upid_print I p" using next_word_all upid_print_no_space [OF assms] by blast
  moreover have "split_first (CHR 0x40) (upid_print I p) = Some (u_id p, address_print I (u_address p))"
    using assms(2) split_first_append [of "CHR 0x40" "u_id p"] by (auto simp: upid_print_def upid_ok_def list_all_iff)
  moreover have "split_first (CHR '':'') (address_print I (u_address p)) = Some (show_ip I (a_ip (u_address p)), dec (a_port (u_address p)))"
    using assms(1) split_first_append [of "CHR '':''" "show_ip I (a_ip (u_address p))"] by (auto simp: address_print_def inet_ok_def list_all_iff)
  moreover have "upid_print I p \<noteq> []" by (simp add: upid_print_def)
  ultimately show ?thesis
    using assms by (simp add: upid_read_def Let_def inet_ok_def upid_ok_def scan_hu_dec)
qed

section \<open>The text of a message\<close>

definition request_text :: "string \<Rightarrow> string \<Rightarrow> headers \<Rightarrow> string \<Rightarrow> string" where
  "request_text method target hs body = method @ '' '' @ target @ '' HTTP/1.1'' @ crlf @ print_headers hs @ crlf @
    (if body = [] then [] else chunk body @ last_chunk)"

definition message_headers :: "'ip inet \<Rightarrow> 'ip message \<Rightarrow> headers" where
  "message_headers I m = [(''User-Agent'', ''libprocess/'' @ upid_print I (m_from m)), (''Libprocess-From'', upid_print I (m_from m)),
     (''Connection'', ''Keep-Alive''), (''Host'', [])] @ (if m_body m = [] then [] else [(''Transfer-Encoding'', ''chunked'')])"

lemma message_encode_text: "message_encode I m = request_text ''POST'' (message_target m) (message_headers I m) (m_body m)"
  by (simp add: message_encode_def request_text_def message_headers_def print_headers_def chunk_def last_chunk_def)

lemma message_header_names:
  "\<not> CaseInsensitiveEqual ''Content-Encoding'' ''User-Agent''" "\<not> CaseInsensitiveEqual ''Content-Encoding'' ''Libprocess-From''"
  "\<not> CaseInsensitiveEqual ''Content-Encoding'' ''Connection''" "\<not> CaseInsensitiveEqual ''Content-Encoding'' ''Host''"
  "\<not> CaseInsensitiveEqual ''Content-Encoding'' ''Transfer-Encoding''" "\<not> CaseInsensitiveEqual ''Libprocess-From'' ''User-Agent''"
  "\<not> CaseInsensitiveEqual ''Libprocess-From'' ''Connection''" "\<not> CaseInsensitiveEqual ''Libprocess-From'' ''Host''"
  "\<not> CaseInsensitiveEqual ''Libprocess-From'' ''Transfer-Encoding''"
  by code_simp+

lemma message_headers_get:
  "headers_get ''Content-Encoding'' (put_all (message_headers I m) []) = None"
  "headers_get ''Libprocess-From'' (put_all (message_headers I m) []) = Some (upid_print I (m_from m))"
  unfolding put_all_def headers_get_fold by (simp_all add: message_headers_def message_header_names)

section \<open>What http-parser does with it\<close>

text \<open>
  The text of a request, with a chunked body if it has one, is reported in some fragments that together are the method, the path, the headers and the
  body; the URL parser finds only a path in a path of printable characters (no spaces, no control characters, which it rejects) without a question mark and a number sign.
\<close>

definition path_chars :: "string \<Rightarrow> bool" where
  "path_chars t = list_all (\<lambda>c. of_char c > (32 :: nat) \<and> of_char c < (127 :: nat) \<and> c \<noteq> CHR ''?'' \<and> c \<noteq> CHR ''#'') t"

definition parser_reports :: "(string \<Rightarrow> wire_message \<Rightarrow> bool) \<Rightarrow> string \<Rightarrow> string \<Rightarrow> headers \<Rightarrow> string \<Rightarrow> bool" where
  "parser_reports reports method target hs body = (\<forall>w. reports (request_text method target hs body) w \<longrightarrow>
     wire_ok w \<and> p_method (w_info w) = method \<and> concat (w_url w) = target \<and> header_pairs (w_headers w) = hs \<and> concat (body_parts (w_body w)) = body)"

definition url_parser_ok :: "'z libs \<Rightarrow> bool" where
  "url_parser_ok L = (\<forall>t. path_chars t \<longrightarrow> take 1 t = ''/'' \<longrightarrow> parse_url L t = Inr \<lparr>uf_path = Some (0, length t), uf_query = None, uf_fragment = None\<rparr>)"

text \<open>Ids that the receiver reads as they are: neither slashes nor anything that is escaped in a URL.\<close>

definition message_ok :: "'ip message \<Rightarrow> bool" where
  "message_ok m = (upid_ok (m_from m) \<and> u_id (m_to m) \<noteq> [] \<and> path_chars (u_id (m_to m)) \<and> path_chars (m_name m)
    \<and> set (u_id (m_to m)) \<inter> {CHR ''/'', CHR ''%'', CHR ''+''} = {})"

lemma decode_plain: "set s \<inter> {CHR ''%'', CHR ''+''} = {} \<Longrightarrow> decode_from t s = Inr s"
  by (induction s) auto

lemma message_target_ok: "message_ok m \<Longrightarrow> path_chars (message_target m) \<and> message_target m = ''/'' @ u_id (m_to m) @ ''/'' @ m_name m"
  by (auto simp: message_ok_def message_target_def path_chars_def)

lemma message_request_of:
  assumes "stout_strings (lib_strings L)" and "url_parser_ok L" and "message_ok m"
    and w: "wire_ok w" "p_method (w_info w) = ''POST''" "concat (w_url w) = message_target m" "header_pairs (w_headers w) = message_headers I m"
      "concat (body_parts (w_body w)) = m_body m"
  shows "\<not> gzipped w \<and> (\<exists>r. request_of L w = Some r \<and> rq_method r = ''POST'' \<and> rq_path r = message_target m
    \<and> rq_headers r = put_all (message_headers I m) [] \<and> rq_body r = m_body m)"
proof -
  have hs: "collected (w_headers w) = put_all (message_headers I m) []"
    using w(4) by (auto simp: collected_def header_pairs_def message_headers_def)
  have url: "parse_url L (message_target m) = Inr \<lparr>uf_path = Some (0, length (message_target m)), uf_query = None, uf_fragment = None\<rparr>"
  proof -
    have "path_chars (message_target m)" "take 1 (message_target m) = ''/''" using message_target_ok [OF assms(3)] by auto
    then show ?thesis using assms(2) unfolding url_parser_ok_def by blast
  qed
  have q: "query_decode (lib_strings L) [] = Inr Map.empty"
    using stout_strings.tokenize_nil [OF assms(1)] by (simp add: query_decode_def)
  show ?thesis
    using w hs url q by (simp add: gzipped_def message_headers_get request_of_def request_url_def substring_def gunzip_body_def plain_request_def new_request_def)
qed

text \<open>C20.
  A message is received as it was sent: whatever the fragments in which the network and http-parser deliver the text that \<^verbatim>\<open>MessageEncoder\<close> makes of it,
  the decoder of the receiver returns one request, which is recognized as a message, and \<^verbatim>\<open>parse\<close> recovers name, sender, receiver and body from it. This holds for a sender whose id has no white space and no at sign,
  and if the id of the receiver and the name are of printable characters without question marks and number signs, and the id is not empty and has no slash, percent or plus sign:
  ids are not escaped, so that others arrive changed (\<open>receiver_ids_not_escaped\<close>, \<open>empty_receiver_id\<close>).
\<close>

theorem message_roundtrip:
  fixes L :: "'z libs"
  assumes "inet_ok I" and "stout_strings (lib_strings L)" and "url_parser_ok L" and "message_ok m"
    and "parser_reports reports ''POST'' (message_target m) (message_headers I m) (m_body m)"
    and "reports (message_encode I m) w" and "concat (map fst inputs) = calls_of w" and "\<forall>(_, e) \<in> set inputs. e = AllParsed"
  shows "\<exists>d r ws. decode_all (srequest_decode L) inputs streaming_request_init = Some (d, [r])
    \<and> ops_on 0 (sd_ops d) = map Write ws @ [CloseWrite]
    \<and> libprocess r \<and> message_parse I (u_address (m_to m)) r (concat ws) = Inr m"
proof -
  have w: "wire_ok w" "p_method (w_info w) = ''POST''" "concat (w_url w) = message_target m" "header_pairs (w_headers w) = message_headers I m"
      "concat (body_parts (w_body w)) = m_body m"
    using assms(5,6) by (auto simp: parser_reports_def message_encode_text)
  obtain r where r: "\<not> gzipped w" "request_of L w = Some r" "rq_method r = ''POST''" "rq_path r = message_target m"
      "rq_headers r = put_all (message_headers I m) []" "rq_body r = m_body m"
    using message_request_of [OF assms(2,3,4) w] by blast
  obtain d ws where d: "decode_all (srequest_decode L) inputs streaming_request_init = Some (d, [to_pipe 0 r])"
      "ops_on 0 (sd_ops d) = map Write ws @ [CloseWrite]" "concat ws = rq_body r"
    using srequest_decodes [of "[w]" L "[r]" inputs] w(1) r(1,2) assms(7,8) by auto
  have "message_sender I (to_pipe 0 r) = Inr (m_from m)"
  proof -
    have "trim I (upid_print I (m_from m)) = upid_print I (m_from m)"
      using assms(1,4) upid_print_no_space by (auto simp: inet_ok_def message_ok_def)
    then show ?thesis
      using assms(1,4) upid_roundtrip [of I "m_from m"] r(5) by (simp add: message_sender_def to_pipe_def message_headers_get upid_of_string_def message_ok_def)
  qed
  moreover have "http_decode (u_id (m_to m)) = Inr (u_id (m_to m))"
    using assms(4) by (auto simp: message_ok_def http_decode_def intro!: decode_plain)
  moreover have "split_first (CHR ''/'') (u_id (m_to m) @ ''/'' @ m_name m) = Some (u_id (m_to m), m_name m)"
    using assms(4) split_first_append [of "CHR ''/''" "u_id (m_to m)"] by (auto simp: message_ok_def)
  ultimately have "message_parse I (u_address (m_to m)) (to_pipe 0 r) (concat ws) = Inr m"
    using r(4,6) d(3) message_target_ok [OF assms(4)] by (simp add: message_parse_def to_pipe_def Let_def)
  moreover have "libprocess (to_pipe 0 r)"
    using r(3,5) by (simp add: libprocess_def to_pipe_def headers_contains_def message_headers_get)
  ultimately show ?thesis using d by blast
qed

definition ref_inet :: "nat inet" where
  "ref_inet = \<lparr>show_ip = dec, parse_ip = (\<lambda>s. Some (undec s)), get_ip = (\<lambda>_. None), any_ip = 0,
     trim = (\<lambda>s. rev (dropWhile isspace (rev (dropWhile isspace s))))\<rparr>"

lemma ref_inet_ok: "inet_ok ref_inet"
proof -
  have "\<not> isspace c \<and> c \<noteq> CHR '':''" if "isdigit c" for c using that by (auto simp: isspace_def isdigit_def)
  then have "list_all (\<lambda>c. \<not> isspace c \<and> c \<noteq> CHR '':'') (dec a)" for a using dec_isdigit [of a] by (auto simp: list_all_iff)
  moreover have "dropWhile isspace s = s" if "list_all (\<lambda>c. \<not> isspace c) s" for s using that by (cases s) auto
  ultimately show ?thesis by (simp add: inet_ok_def ref_inet_def undec_dec list_all_rev)
qed

definition demo_message :: "nat message" where
  "demo_message = \<lparr>m_name = ''ping'', m_from = UPID ''a'' (Address 1 5050), m_to = UPID ''b(1)'' (Address 2 5051), m_body = ''hi''\<rparr>"

definition demo_wire :: wire_message where
  "demo_wire = \<lparr>w_info = \<lparr>p_method = ''POST'', p_keep_alive = True, p_status_code = 0\<rparr>, w_url = [''/b(1)'', ''/ping''],
     w_headers = map (\<lambda>(k, v). ([k], [v])) (message_headers ref_inet demo_message), w_body = [OnChunkHeader, OnBody ''h'', OnBody ''i'', OnChunkComplete]\<rparr>"

theorem message_roundtrip_witness:
  "\<exists>d r ws. decode_all (srequest_decode ref_libs) [(take 3 (calls_of demo_wire), AllParsed), (drop 3 (calls_of demo_wire), AllParsed)] streaming_request_init
      = Some (d, [r]) \<and> ops_on 0 (sd_ops d) = map Write ws @ [CloseWrite]
    \<and> libprocess r \<and> message_parse ref_inet (u_address (m_to demo_message)) r (concat ws) = Inr demo_message"
proof -
  have L: "stout_strings (lib_strings ref_libs)" "url_parser_ok ref_libs"
    using rs.stout_strings_axioms by (simp_all add: ref_libs_def url_parser_ok_def)
  have m: "message_ok demo_message"
    by (simp add: message_ok_def upid_ok_def path_chars_def demo_message_def isspace_def)
  have "header_pairs (w_headers demo_wire) = message_headers ref_inet demo_message" "wire_ok demo_wire"
    "p_method (w_info demo_wire) = ''POST''" "concat (w_url demo_wire) = message_target demo_message"
    "concat (body_parts (w_body demo_wire)) = m_body demo_message"
    by (simp_all add: demo_wire_def header_pairs_def wire_ok_def message_target_def demo_message_def list_all_iff case_prod_beta comp_def)
  then have rep: "parser_reports (\<lambda>s w. w = demo_wire) ''POST'' (message_target demo_message) (message_headers ref_inet demo_message) (m_body demo_message)"
    unfolding parser_reports_def by blast
  have inp: "concat (map fst [(take 3 (calls_of demo_wire), AllParsed), (drop 3 (calls_of demo_wire), AllParsed)]) = calls_of demo_wire"
    by (simp only: list.map concat.simps fst_conv append_Nil2 append_take_drop_id)
  show ?thesis
    by (rule message_roundtrip [OF ref_inet_ok L m rep refl inp]) simp
qed

section \<open>Ids that are not read as they are\<close>

text \<open>
  The encoder does not escape the id of the receiver, but \<^verbatim>\<open>parse\<close> decodes it: a plus sign becomes a space, so that such a process gets no messages from
  other nodes. Without an id the name of the message is taken for the id, although the encoder takes care of that case.
\<close>

definition message_path :: "string \<Rightarrow> string \<Rightarrow> (string \<times> string) option" where
  "message_path i name = (case message_parse ref_inet (Address 2 5051)
       (new_request\<lparr>rq_path := message_target (demo_message\<lparr>m_to := UPID i (Address 2 5051), m_name := name\<rparr>), rq_headers := [(''Libprocess-From'', [])]\<rparr>) [] of
     Inr m \<Rightarrow> Some (u_id (m_to m), m_name m) | Inl _ \<Rightarrow> None)"

lemma receiver_ids_not_escaped: "message_path ''a+b'' ''ping'' = Some (''a b'', ''ping'')" "message_path ''a/b'' ''ping'' = Some (''a'', ''b/ping'')"
  by code_simp+

lemma empty_receiver_id: "message_path [] ''ping'' = Some (''ping'', [])"
  by code_simp

end
