(* ===== verification/Routing.thy ===== *)
theory Routing
  imports Pids
begin

text \<open>
  The way of a request from the socket to a handler: \<^verbatim>\<open>ProcessManager::handle\<close>, \<^verbatim>\<open>ProcessBase::route\<close>, \<^verbatim>\<open>consume(HttpEvent)\<close> and \<^verbatim>\<open>_consume\<close> of
  \<^verbatim>\<open>src/process.cpp\<close>, and the firewall. The string and path functions of stout are parameters; so are the processes that exist, the firewall rules, the
  authenticator and the authorization callback. A process may end between two uses, so each use has its own argument.
\<close>

section \<open>handle\<close>

record route_libs =
  r_strings :: stout
  trim_prefix :: "string \<Rightarrow> string \<Rightarrow> string"
  trim_suffix :: "string \<Rightarrow> string \<Rightarrow> string"
  dirname :: "string \<Rightarrow> string"
  extension :: "string \<Rightarrow> string option"

datatype action = Reply response | Deliver string request

fun contains_dotdot :: "string \<Rightarrow> bool" where
  "contains_dotdot [] = False"
| "contains_dotdot (c # cs) = (take 3 (c # cs) = ''/..'' \<or> contains_dotdot cs)"

definition not_found :: response where
  "not_found = NotFound ''404 Not Found.''"

text \<open>The receiver without an id is the empty UPID.\<close>

definition first_receiver :: "route_libs \<Rightarrow> string option \<Rightarrow> string \<Rightarrow> string \<times> string" where
  "first_receiver R delegate p = (case tokenize (r_strings R) p ''/'' of
     [] \<Rightarrow> (case delegate of Some d \<Rightarrow> (''/'' @ d, d) | None \<Rightarrow> (p, []))
   | t # _ \<Rightarrow> (case http_decode t of Inr i \<Rightarrow> (p, i) | Inl _ \<Rightarrow> (p, [])))"

definition delegated :: "string option \<Rightarrow> (string \<Rightarrow> bool) \<Rightarrow> string \<times> string \<Rightarrow> string \<times> string" where
  "delegated delegate use pr = (case delegate of
     Some d \<Rightarrow> if \<not> use (snd pr) then (''/'' @ d @ fst pr, d) else pr
   | None \<Rightarrow> pr)"

fun firewall :: "(request \<Rightarrow> response option) list \<Rightarrow> request \<Rightarrow> response option" where
  "firewall [] r = None"
| "firewall (rule # rules) r = (case rule r of Some resp \<Rightarrow> Some resp | None \<Rightarrow> firewall rules r)"

definition handle_http ::
    "route_libs \<Rightarrow> string option \<Rightarrow> (string \<Rightarrow> bool) \<Rightarrow> (request \<Rightarrow> response option) list \<Rightarrow> (string \<Rightarrow> bool) \<Rightarrow> request \<Rightarrow> action" where
  "handle_http R delegate use1 rules use2 r =
    (if contains_dotdot (rq_path r) then Reply not_found
     else case delegated delegate use1 (first_receiver R delegate (rq_path r)) of (p, receiver) \<Rightarrow>
       let r' = r\<lparr>rq_path := p\<rparr> in
       case firewall rules r' of
         Some rejection \<Rightarrow> Reply rejection
       | None \<Rightarrow> if use2 receiver then Deliver receiver r' else Reply not_found)"

text \<open>
  A message: the result of \<^verbatim>\<open>parse\<close> (\<open>Inl None\<close> when it was discarded), the client as it prints and the IP address it converts to, and whether the receiver
  accepted the message. None: a \<^verbatim>\<open>CHECK\<close> fails.
\<close>

definition handle_message ::
    "'ip inet \<Rightarrow> bool \<Rightarrow> (string option + 'ip message) \<Rightarrow> (string \<times> 'ip option) option \<Rightarrow> ('ip message \<Rightarrow> bool) \<Rightarrow> (response \<times> 'ip message option) option" where
  "handle_message I require_match parsed client deliver = (case parsed of
     Inl e \<Rightarrow> Some (InternalServerError (case e of Some msg \<Rightarrow> msg | None \<Rightarrow> ''discarded future''), None)
   | Inr m \<Rightarrow>
       if require_match \<and> client = None then None
       else if require_match \<and> snd (the client) \<noteq> Some (a_ip (u_address (m_from m)))
       then Some (BadRequest (''UPID IP address validation failed: Message from '' @ upid_print I (m_from m) @ '' was sent from IP '' @ fst (the client)), None)
       else Some (if deliver m then Response_code 202 else not_found, Some m))"

datatype handled = BadPath response | AsMessage | AsHttp action

definition handle_request ::
    "route_libs \<Rightarrow> string option \<Rightarrow> (string \<Rightarrow> bool) \<Rightarrow> (request \<Rightarrow> response option) list \<Rightarrow> (string \<Rightarrow> bool) \<Rightarrow> request \<Rightarrow> handled" where
  "handle_request R delegate use1 rules use2 r =
    (if take 1 (rq_path r) \<noteq> ''/'' then BadPath (BadRequest (''Request URL path must start with '' @ quoted ''/''))
     else if libprocess r then AsMessage
     else AsHttp (handle_http R delegate use1 rules use2 r))"

text \<open>\<^verbatim>\<open>DisabledEndpointsFirewallRule\<close>, with the absolute paths it disables.\<close>

definition disabled_endpoints :: "string list \<Rightarrow> request \<Rightarrow> response option" where
  "disabled_endpoints paths r = (if rq_path r \<in> set paths then Some (Forbidden (''Endpoint '' @ quoted (rq_path r) @ '' is disabled'')) else None)"

section \<open>Routes of a process\<close>

record 'h endpoint =
  ep_realm :: "string option"
  ep_handler :: 'h
  ep_streaming :: bool

record asset =
  as_path :: string
  as_types :: "string \<rightharpoonup> string"

text \<open>None: a \<^verbatim>\<open>CHECK\<close> fails.\<close>

definition route :: "string \<Rightarrow> 'h endpoint \<Rightarrow> (string \<rightharpoonup> 'h endpoint) \<Rightarrow> (string \<rightharpoonup> 'h endpoint) option" where
  "route name e handlers =
    (if take 1 name \<noteq> ''/'' then None
     else if length name \<noteq> 1 \<and> last name = CHR ''/'' then None
     else Some (handlers(drop 1 name \<mapsto> e)))"

text \<open>The loop that shortens the name until there is a handler for it.\<close>

partial_function (option) find_route :: "(string \<Rightarrow> string) \<Rightarrow> (string \<Rightarrow> bool) \<Rightarrow> string \<Rightarrow> string option option" where
  [code]: "find_route dir has name =
    (if dir name = name then Some None
     else if has name then Some (Some name)
     else find_route dir has (dir name))"

text \<open>The request for a handler that does not stream, once its body is read.\<close>

definition convert_request :: "request \<Rightarrow> string \<Rightarrow> request option" where
  "convert_request r body =
    (if rq_type r = ReqPipe \<and> rq_reader r \<noteq> None \<and> rq_body r = []
     then Some (r\<lparr>rq_type := ReqBody, rq_body := body, rq_reader := None\<rparr>) else None)"

definition endpoint_request :: "'h endpoint \<Rightarrow> request \<Rightarrow> string \<Rightarrow> request option" where
  "endpoint_request e r body = (if ep_streaming e then Some r else convert_request r body)"

datatype 'h routed = ToHandler 'h string request | ToAsset response | NoRoute response

definition asset_response :: "route_libs \<Rightarrow> asset \<Rightarrow> string list \<Rightarrow> response" where
  "asset_response R a rest =
    (let p = as_path a @ concat (map (\<lambda>t. ''/'' @ t) rest);
         resp = (Response_code 200)\<lparr>rs_type := RespPath, rs_path := p\<rparr>
     in case extension R p of
       None \<Rightarrow> resp
     | Some x \<Rightarrow> (case as_types a x of None \<Rightarrow> resp | Some ty \<Rightarrow> resp\<lparr>rs_headers := headers_set ''Content-Type'' ty (rs_headers resp)\<rparr>))"

definition route_name :: "route_libs \<Rightarrow> string \<Rightarrow> string \<Rightarrow> string" where
  "route_name R p t = trim_suffix R (trim_prefix R (remove_prefix (r_strings R) p (''/'' @ t)) ''/'') ''/''"

definition find_asset :: "route_libs \<Rightarrow> (string \<rightharpoonup> asset) \<Rightarrow> string list \<Rightarrow> 'h routed" where
  "find_asset R assets ts = (case assets (case ts of _ # t # _ \<Rightarrow> t | _ \<Rightarrow> []) of
     Some a \<Rightarrow> ToAsset (asset_response R a (drop 2 ts))
   | None \<Rightarrow> NoRoute not_found)"

text \<open>
  The result when \<open>body\<close> is what the pipe of the request holds, which is read for a handler that does not stream and when there is no handler.
  \<open>Inl\<close>: a \<^verbatim>\<open>CHECK\<close> fails; None: the loop does not end.
\<close>

definition consume_http ::
    "route_libs \<Rightarrow> string \<Rightarrow> (string \<rightharpoonup> 'h endpoint) \<Rightarrow> (string \<rightharpoonup> asset) \<Rightarrow> request \<Rightarrow> string \<Rightarrow> unit + 'h endpoint routed option" where
  "consume_http R self handlers assets r body =
    (if take 1 (rq_path r) \<noteq> ''/'' then Inl ()
     else case tokenize (r_strings R) (rq_path r) ''/'' of
       [] \<Rightarrow> Inl ()
     | t # ts \<Rightarrow> (case http_decode t of
         Inl _ \<Rightarrow> Inl ()
       | Inr i \<Rightarrow>
           if i \<noteq> self then Inl ()
           else case find_route (dirname R) (\<lambda>n. handlers n \<noteq> None) (route_name R (rq_path r) t) of
               None \<Rightarrow> Inr None
             | Some (Some n) \<Rightarrow> (case endpoint_request (the (handlers n)) r body of
                 None \<Rightarrow> Inl ()
               | Some r' \<Rightarrow> Inr (Some (ToHandler (the (handlers n)) n r')))
             | Some None \<Rightarrow> if rq_reader r = None then Inl () else Inr (Some (find_asset R assets (t # ts)))))"

section \<open>Authentication and authorization\<close>

record principal =
  pr_value :: "string option"
  pr_claims :: "(string \<times> string) list"

record authentication_result =
  au_principal :: "principal option"
  au_unauthorized :: "response option"
  au_forbidden :: "response option"

text \<open>\<^verbatim>\<open>src/authenticator_manager.cpp\<close>. A failure of the authenticator, or of the validation of its result, is \<open>Inl\<close>.\<close>

type_synonym authenticators = "string \<rightharpoonup> (request \<Rightarrow> string + authentication_result)"

definition setAuthenticator :: "string \<Rightarrow> (request \<Rightarrow> string + authentication_result) \<Rightarrow> authenticators \<Rightarrow> authenticators" where
  "setAuthenticator realm a as = as(realm \<mapsto> a)"

definition unsetAuthenticator :: "string \<Rightarrow> authenticators \<Rightarrow> authenticators" where
  "unsetAuthenticator realm as = as(realm := None)"

definition validate :: "authentication_result \<Rightarrow> string + authentication_result" where
  "validate a =
    (if (if au_principal a \<noteq> None then 1 else 0) + (if au_unauthorized a \<noteq> None then 1 else 0) + (if au_forbidden a \<noteq> None then 1 else 0) \<noteq> (1 :: nat)
     then Inl ''HTTP authenticators must return only one of an authenticated principal, an Unauthorized response, or a Forbidden response''
     else case au_principal a of
       Some p \<Rightarrow> if pr_value p = None \<and> pr_claims p = [] then Inl ''In the principal returned by an HTTP authenticator, at least one of 'value' and 'claims' must be set'' else Inr a
     | None \<Rightarrow> Inr a)"

definition authenticate :: "authenticators \<Rightarrow> request \<Rightarrow> string \<Rightarrow> string + authentication_result option" where
  "authenticate as r realm = (case as realm of
     None \<Rightarrow> Inr None
   | Some f \<Rightarrow> (case f r of Inl e \<Rightarrow> Inl e | Inr a \<Rightarrow> (case validate a of Inl e \<Rightarrow> Inl e | Inr a \<Rightarrow> Inr (Some a))))"

datatype 'h auth_outcome = AuthReply response | CallHandler 'h | CallAuthenticated 'h "principal option" | AuthCheckFailed | AuthFailed string

text \<open>The futures of the authenticator and of the authorization callback are given by their results; \<open>path_join\<close> is stout's.\<close>

type_synonym callbacks = "string \<rightharpoonup> (request \<Rightarrow> principal option \<Rightarrow> bool)"

definition callback_for :: "(string \<Rightarrow> string \<Rightarrow> string) \<Rightarrow> callbacks option \<Rightarrow> string \<Rightarrow> string \<Rightarrow> (request \<Rightarrow> principal option \<Rightarrow> bool) option" where
  "callback_for path_join cbs self name = (case cbs of None \<Rightarrow> None | Some m \<Rightarrow> m (path_join (''/'' @ self) name))"

definition authorize_and_call :: "'h endpoint \<Rightarrow> (request \<Rightarrow> principal option \<Rightarrow> bool) option \<Rightarrow> request \<Rightarrow> principal option \<Rightarrow> 'h auth_outcome" where
  "authorize_and_call e authorize r p =
    (if (case authorize of None \<Rightarrow> True | Some f \<Rightarrow> f r p)
     then (if ep_realm e = None then CallHandler (ep_handler e) else CallAuthenticated (ep_handler e) p)
     else AuthReply (Forbidden ''403 Forbidden.''))"

definition consume_endpoint ::
    "authenticators \<Rightarrow> 'h endpoint \<Rightarrow> (request \<Rightarrow> principal option \<Rightarrow> bool) option \<Rightarrow> request \<Rightarrow> 'h auth_outcome" where
  "consume_endpoint as e authorize r =
    (case (case ep_realm e of None \<Rightarrow> Inr None | Some realm \<Rightarrow> authenticate as r realm) of
       Inl m \<Rightarrow> AuthFailed m
     | Inr None \<Rightarrow> authorize_and_call e authorize r None
     | Inr (Some a) \<Rightarrow> (case au_unauthorized a of
         Some resp \<Rightarrow> AuthReply resp
       | None \<Rightarrow> (case au_forbidden a of
           Some resp \<Rightarrow> AuthReply resp
         | None \<Rightarrow> if au_principal a = None then AuthCheckFailed else authorize_and_call e authorize r (au_principal a))))"

section \<open>Absolute paths\<close>

definition absolutePath :: "route_libs \<Rightarrow> string option \<Rightarrow> (string \<Rightarrow> bool) \<Rightarrow> string \<Rightarrow> string" where
  "absolutePath R delegate processes p = (case delegate of
     None \<Rightarrow> p
   | Some d \<Rightarrow> (case tokenize (r_strings R) p ''/'' of
       [] \<Rightarrow> ''/'' @ d
     | t # _ \<Rightarrow> (case http_decode t of Inl _ \<Rightarrow> p | Inr i \<Rightarrow> if processes i then p else ''/'' @ d @ p)))"

text \<open>The paths of firewall rules are rewritten as those of requests are.\<close>

lemma absolutePath_handle:
  assumes "\<And>d. delegate = Some d \<Longrightarrow> use d"
    and "case tokenize (r_strings R) p ''/'' of [] \<Rightarrow> True | t # _ \<Rightarrow> \<exists>i. http_decode t = Inr i"
  shows "absolutePath R delegate use p = fst (delegated delegate use (first_receiver R delegate p))"
  using assms by (auto simp: absolutePath_def delegated_def first_receiver_def split: option.splits list.splits sum.splits)

section \<open>A request that is delivered passes the checks of its receiver\<close>

definition delegate_ok :: "string option \<Rightarrow> bool" where
  "delegate_ok delegate = (case delegate of None \<Rightarrow> True | Some d \<Rightarrow> d \<noteq> [] \<and> CHR ''/'' \<notin> set d \<and> http_decode d = Inr d)"

text \<open>The first component of the path is the id of the receiver.\<close>

definition addressed :: "route_libs \<Rightarrow> string \<times> string \<Rightarrow> bool" where
  "addressed R pr = (take 1 (fst pr) = ''/'' \<and> (\<exists>t ts. tokenize (r_strings R) (fst pr) ''/'' = t # ts \<and> http_decode t = Inr (snd pr)))"

lemma addressed_delegate:
  assumes S: "stout_strings (r_strings R)" and "delegate_ok (Some d)" and "p = [] \<or> take 1 p = ''/''"
  shows "addressed R (''/'' @ d @ p, d)"
proof -
  have d: "d \<noteq> []" "set d \<inter> set ''/'' = {}" "http_decode d = Inr d" using assms(2) by (auto simp: delegate_ok_def)
  have "\<exists>ts. tokenize (r_strings R) (d @ p) ''/'' = d # ts"
  proof (cases p)
    case Nil
    then show ?thesis using stout_strings.tokenize_last [OF S d(1,2)] by simp
  next
    case (Cons c rest)
    then show ?thesis using stout_strings.tokenize_more [OF S d(1,2), of "CHR ''/''" rest] assms(3) by auto
  qed
  then show ?thesis using d(3) stout_strings.tokenize_delim [OF S, of "CHR ''/''" "''/''"] by (auto simp: addressed_def)
qed

lemma receiver_addressed:
  assumes S: "stout_strings (r_strings R)" and "delegate_ok delegate" and "take 1 p = ''/''"
    and "delegated delegate use (first_receiver R delegate p) = (p', i)" and "i \<noteq> []"
  shows "addressed R (p', i)"
proof (cases delegate)
  case None
  then have "first_receiver R None p = (p', i)" using assms(4) by (simp add: delegated_def)
  then show ?thesis using assms(3,5) by (auto simp: first_receiver_def addressed_def split: list.splits sum.splits)
next
  case (Some d)
  show ?thesis
  proof (cases "use (snd (first_receiver R delegate p))")
    case True
    then have r: "first_receiver R delegate p = (p', i)" using assms(4) Some by (simp add: delegated_def)
    show ?thesis
      using r Some assms(2,3,5) addressed_delegate [OF S, of d "[]"]
      by (auto simp: first_receiver_def addressed_def split: list.splits sum.splits)
  next
    case False
    moreover have "take 1 (fst (first_receiver R delegate p)) = ''/''"
      using assms(3) Some by (auto simp: first_receiver_def split: list.splits sum.splits)
    ultimately show ?thesis
      using assms(2,4) Some addressed_delegate [OF S, of d "fst (first_receiver R delegate p)"] by (auto simp: delegated_def)
  qed
qed

text \<open>C21.
  A request that \<^verbatim>\<open>ProcessManager::handle\<close> delivers to a process never fails a \<^verbatim>\<open>CHECK\<close> of \<^verbatim>\<open>ProcessBase::consume\<close>: whether it is addressed to the
  process or delegated to it, its path is absolute and begins with the id of the process. No firewall rule rejects it, and it has no relative component. This holds for a delegate that is
  not empty, has no slash and decodes to itself (the code prepends it to the path as it is), if no process has an empty id, and for requests as the streaming decoder makes them, with a pipe.
\<close>

theorem delivered_requests_pass_checks:
  assumes "stout_strings (r_strings R)" and "delegate_ok delegate" and "\<not> use2 []"
    and "rq_type r = ReqPipe \<and> rq_reader r \<noteq> None \<and> rq_body r = []"
    and "handle_request R delegate use1 rules use2 r = AsHttp (Deliver i r')"
  shows "consume_http R i handlers assets r' body \<noteq> Inl () \<and> \<not> contains_dotdot (rq_path r) \<and> firewall rules r' = None \<and> use2 i"
proof -
  obtain p where p: "delegated delegate use1 (first_receiver R delegate (rq_path r)) = (p, i)" "r' = r\<lparr>rq_path := p\<rparr>" "firewall rules r' = None" "use2 i"
      "take 1 (rq_path r) = ''/''" "\<not> contains_dotdot (rq_path r)"
    using assms(5) by (auto simp: handle_request_def handle_http_def Let_def split: if_splits option.splits prod.splits)
  have "i \<noteq> []" using p(4) assms(3) by auto
  then have "addressed R (p, i)" using receiver_addressed [OF assms(1,2) p(5,1)] by simp
  then show ?thesis using p assms(4) by (auto simp: addressed_def consume_http_def endpoint_request_def convert_request_def split: option.splits if_split_asm)
qed

text \<open>A reference of the functions of stout on paths.\<close>

definition ref_dirname :: "string \<Rightarrow> string" where
  "ref_dirname s = (let d = dropWhile (\<lambda>c. c \<noteq> CHR ''/'') (rev s) in if d = [] then ''.'' else rev (tl d))"

definition ref_route_libs :: route_libs where
  "ref_route_libs = \<lparr>r_strings = ref_strings, trim_prefix = (\<lambda>s d. dropWhile (\<lambda>c. c \<in> set d) s),
     trim_suffix = (\<lambda>s d. rev (dropWhile (\<lambda>c. c \<in> set d) (rev s))), dirname = ref_dirname, extension = (\<lambda>_. None)\<rparr>"

definition demo_request :: request where
  "demo_request = new_request\<lparr>rq_method := ''GET'', rq_path := ''/p/x'', rq_type := ReqPipe, rq_reader := Some 0\<rparr>"

theorem delivered_requests_pass_checks_witness:
  "consume_http ref_route_libs ''p'' [''x'' \<mapsto> \<lparr>ep_realm = None, ep_handler = (), ep_streaming = True\<rparr>] Map.empty demo_request [] \<noteq> Inl ()
    \<and> \<not> contains_dotdot (rq_path demo_request) \<and> firewall [disabled_endpoints [''/q'']] demo_request = None \<and> ''p'' = ''p''"
proof (rule delivered_requests_pass_checks [where ?use2.0 = "\<lambda>i. i = ''p''" and ?use1.0 = "(=) ''p''" and delegate = None and r = demo_request])
  show "stout_strings (r_strings ref_route_libs)" using rs.stout_strings_axioms by (simp add: ref_route_libs_def)
  show "delegate_ok None" by (simp add: delegate_ok_def)
  show "\<not> [] = ''p''" by simp
  show "rq_type demo_request = ReqPipe \<and> rq_reader demo_request \<noteq> None \<and> rq_body demo_request = []" by (simp add: demo_request_def new_request_def)
  have "tokenize (r_strings ref_route_libs) ''/p/x'' ''/'' = [''p'', ''x'']" by (simp add: ref_route_libs_def ref_strings_def; code_simp)
  moreover have "http_decode ''p'' = Inr ''p''" by code_simp
  ultimately have "first_receiver ref_route_libs None ''/p/x'' = (''/p/x'', ''p'')" by (simp add: first_receiver_def)
  then show "handle_request ref_route_libs None ((=) ''p'') [disabled_endpoints [''/q'']] (\<lambda>i. i = ''p'') demo_request = AsHttp (Deliver ''p'' demo_request)"
    by (simp add: handle_request_def handle_http_def delegated_def disabled_endpoints_def libprocess_def demo_request_def new_request_def)
qed

text \<open>A delegate whose id changes when it is decoded: the request is delivered to it and the \<^verbatim>\<open>CHECK\<close> on the id fails.\<close>

lemma unescaped_delegate_aborts:
  "\<exists>r'. handle_request ref_route_libs (Some ''a%20b'') (\<lambda>i. i = ''a%20b'') [] (\<lambda>i. i = ''a%20b'') demo_request = AsHttp (Deliver ''a%20b'' r')
    \<and> consume_http ref_route_libs ''a%20b'' Map.empty Map.empty r' [] = Inl ()"
proof -
  have t: "tokenize (r_strings ref_route_libs) ''/p/x'' ''/'' = [''p'', ''x'']" "tokenize (r_strings ref_route_libs) ''/a%20b/p/x'' ''/'' = [''a%20b'', ''p'', ''x'']"
    by ((simp add: ref_route_libs_def ref_strings_def; code_simp), (simp add: ref_route_libs_def ref_strings_def; code_simp))
  have d: "http_decode ''p'' = Inr ''p''" "http_decode ''a%20b'' = Inr ''a b''" by code_simp+
  have "first_receiver ref_route_libs (Some ''a%20b'') ''/p/x'' = (''/p/x'', ''p'')" using t d by (simp add: first_receiver_def)
  then have "handle_request ref_route_libs (Some ''a%20b'') (\<lambda>i. i = ''a%20b'') [] (\<lambda>i. i = ''a%20b'') demo_request = AsHttp (Deliver ''a%20b'' (demo_request\<lparr>rq_path := ''/a%20b/p/x''\<rparr>))"
    by (simp add: handle_request_def handle_http_def delegated_def libprocess_def demo_request_def new_request_def)
  moreover have "consume_http ref_route_libs ''a%20b'' Map.empty Map.empty (demo_request\<lparr>rq_path := ''/a%20b/p/x''\<rparr>) [] = Inl ()" using t d by (simp add: consume_http_def)
  ultimately show ?thesis by blast
qed

section \<open>The longest route\<close>

text \<open>The directory part of a path, as POSIX defines it.\<close>

definition path_of :: "string list \<Rightarrow> string" where
  "path_of segs = join ''/'' segs"

definition segments_ok :: "string list \<Rightarrow> bool" where
  "segments_ok segs = (segs \<noteq> [] \<and> list_all (\<lambda>s. s \<noteq> [] \<and> CHR ''/'' \<notin> set s) segs \<and> hd segs \<noteq> ''.'')"

definition dirname_ok :: "(string \<Rightarrow> string) \<Rightarrow> bool" where
  "dirname_ok dir = (dir ''.'' = ''.'' \<and> (\<forall>segs s. segments_ok (segs @ [s]) \<longrightarrow> dir (path_of (segs @ [s])) = (if segs = [] then ''.'' else path_of segs)))"

definition prefixes_down :: "string list \<Rightarrow> string list" where
  "prefixes_down segs = map (\<lambda>k. path_of (take k segs)) (rev [1..<Suc (length segs)])"

lemma path_of_snoc: "segs \<noteq> [] \<Longrightarrow> path_of (segs @ [s]) = path_of segs @ ''/'' @ s"
  by (cases segs) (simp_all add: path_of_def join_def)

lemma prefixes_down_snoc: "prefixes_down (segs @ [s]) = path_of (segs @ [s]) # prefixes_down segs"
  by (auto simp: prefixes_down_def)

lemma find_route_prefixes:
  assumes "dirname_ok dir" and "segments_ok segs"
  shows "find_route dir has (path_of segs) = Some (find has (prefixes_down segs))"
  using assms(2)
proof (induction segs rule: rev_induct)
  case (snoc s segs)
  have dir: "dir (path_of (segs @ [s])) = (if segs = [] then ''.'' else path_of segs)"
    using assms(1) snoc.prems by (auto simp: dirname_ok_def)
  show ?case
  proof (cases "segs = []")
    case True
    then have "path_of (segs @ [s]) \<noteq> ''.''" using snoc.prems by (simp add: segments_ok_def path_of_def join_def)
    moreover have "find_route dir has ''.'' = Some None"
      using assms(1) by (subst find_route.simps) (simp add: dirname_ok_def)
    ultimately show ?thesis
      using dir True by (subst find_route.simps) (auto simp: prefixes_down_def)
  next
    case False
    then have "segments_ok segs" using snoc.prems by (auto simp: segments_ok_def)
    moreover have "path_of segs \<noteq> path_of (segs @ [s])" using False by (simp add: path_of_snoc)
    ultimately show ?thesis
      using dir False snoc.IH by (subst find_route.simps) (auto simp: prefixes_down_snoc)
  qed
qed (simp add: segments_ok_def)

text \<open>
  The handler of a request is the one of the longest prefix of its path, by components, for which there is a route; the search ends.
\<close>

theorem longest_route_wins:
  assumes "dirname_ok dir" and "segments_ok segs"
  shows "\<exists>found. find_route dir has (path_of segs) = Some found
    \<and> (case found of
         None \<Rightarrow> list_all (\<lambda>k. \<not> has (path_of (take k segs))) [1..<Suc (length segs)]
       | Some n \<Rightarrow> (\<exists>k\<in>{1..length segs}. n = path_of (take k segs) \<and> has n \<and> list_all (\<lambda>j. \<not> has (path_of (take j segs))) [Suc k..<Suc (length segs)]))"
proof -
  let ?f = "find has (prefixes_down segs)"
  have "case ?f of
         None \<Rightarrow> list_all (\<lambda>k. \<not> has (path_of (take k segs))) [1..<Suc (length segs)]
       | Some n \<Rightarrow> (\<exists>k\<in>{1..length segs}. n = path_of (take k segs) \<and> has n \<and> list_all (\<lambda>j. \<not> has (path_of (take j segs))) [Suc k..<Suc (length segs)])"
  proof (cases ?f)
    case None
    then have "\<forall>p\<in>set (prefixes_down segs). \<not> has p" by (auto simp: find_None_iff)
    then have "list_all (\<lambda>k. \<not> has (path_of (take k segs))) [1..<Suc (length segs)]" by (auto simp: prefixes_down_def list_all_iff)
    then show ?thesis using None by simp
  next
    case (Some n)
    then obtain i where i: "i < length (prefixes_down segs)" "has (prefixes_down segs ! i)" "n = prefixes_down segs ! i"
        "\<forall>j<i. \<not> has (prefixes_down segs ! j)"
      by (auto simp: find_Some_iff)
    have at: "prefixes_down segs ! j = path_of (take (length segs - j) segs)" if "j < length segs" for j
      using that by (simp add: prefixes_down_def rev_nth Suc_diff_Suc del: upt_Suc)
    have "i < length segs" using i(1) by (simp add: prefixes_down_def del: upt_Suc)
    moreover have "\<not> has (path_of (take j segs))" if "length segs - i < j" "j \<le> length segs" for j
      using i(4) [rule_format, of "length segs - j"] at [of "length segs - j"] that \<open>i < length segs\<close> by simp
    ultimately show ?thesis
      using i(2,3) at [of i] Some by (auto simp: list_all_iff simp del: upt_Suc intro!: bexI [of _ "length segs - i"])
  qed
  then show ?thesis using find_route_prefixes [OF assms, of has] by blast
qed

lemma ref_dirname_ok: "dirname_ok ref_dirname"
proof -
  have "ref_dirname (path_of (segs @ [s])) = (if segs = [] then ''.'' else path_of segs)" if "segments_ok (segs @ [s])" for segs s
  proof -
    have "CHR ''/'' \<notin> set (rev s)" using that by (simp add: segments_ok_def)
    then have "dropWhile (\<lambda>c. c \<noteq> CHR ''/'') (rev s @ t) = dropWhile (\<lambda>c. c \<noteq> CHR ''/'') t" for t
      by (intro dropWhile_append2) auto
    from this [of "[]"] this [of "CHR ''/'' # rev (path_of segs)"] show ?thesis
      using \<open>CHR ''/'' \<notin> set (rev s)\<close> by (cases "segs = []") (simp_all add: ref_dirname_def path_of_snoc, simp_all add: path_of_def join_def)
  qed
  then show ?thesis by (simp add: dirname_ok_def, simp add: ref_dirname_def)
qed

theorem longest_route_wins_witness:
  "find_route ref_dirname (\<lambda>n. n = ''a'' \<or> n = ''a/b'') (path_of [''a'', ''b'', ''c'']) = Some (Some ''a/b'')"
proof -
  have "segments_ok [''a'', ''b'', ''c'']" by (simp add: segments_ok_def)
  then have "\<exists>found. find_route ref_dirname (\<lambda>n. n = ''a'' \<or> n = ''a/b'') (path_of [''a'', ''b'', ''c'']) = Some found
    \<and> (case found of
         None \<Rightarrow> list_all (\<lambda>k. \<not> (path_of (take k [''a'', ''b'', ''c'']) = ''a'' \<or> path_of (take k [''a'', ''b'', ''c'']) = ''a/b'')) [1..<Suc (length [''a'', ''b'', ''c''])]
       | Some n \<Rightarrow> (\<exists>k\<in>{1..length [''a'', ''b'', ''c'']}. n = path_of (take k [''a'', ''b'', ''c'']) \<and> (n = ''a'' \<or> n = ''a/b'') \<and>
           list_all (\<lambda>j. \<not> (path_of (take j [''a'', ''b'', ''c'']) = ''a'' \<or> path_of (take j [''a'', ''b'', ''c'']) = ''a/b'')) [Suc k..<Suc (length [''a'', ''b'', ''c''])]))"
    by (rule longest_route_wins [OF ref_dirname_ok])
  moreover have "path_of [''a''] = ''a''" "path_of [''a'', ''b''] = ''a/b''" "path_of [''a'', ''b'', ''c''] = ''a/b/c''"
    by (simp_all add: path_of_def join_def)
  moreover have "{1..length [''a'', ''b'', ''c'']} = {1, 2, 3 :: nat}" by auto
  ultimately show ?thesis by (auto simp: upt_rec numeral_2_eq_2 numeral_3_eq_3 split: option.splits)
qed

section \<open>Who reaches a handler\<close>

text \<open>C22.
  The handler of an endpoint with a realm that has an authenticator is called only with a principal that this authenticator returned, and, if an
  authorization callback is installed, only if it allowed that principal; a result of the authenticator that is not exactly one of the three never reaches the
  \<^verbatim>\<open>CHECK\<close>.
\<close>

theorem only_authenticated_requests_are_handled:
  assumes "ep_realm e = Some realm" and "as realm = Some f"
  shows "(case consume_endpoint as e authorize r of
      CallHandler _ \<Rightarrow> False
    | AuthCheckFailed \<Rightarrow> False
    | CallAuthenticated h p \<Rightarrow> h = ep_handler e \<and> (\<exists>a q. f r = Inr a \<and> au_principal a = Some q \<and> p = Some q \<and> au_unauthorized a = None \<and> au_forbidden a = None)
        \<and> (\<forall>g. authorize = Some g \<longrightarrow> g r p)
    | _ \<Rightarrow> True)"
proof (cases "f r")
  case (Inl m)
  then show ?thesis using assms by (simp add: consume_endpoint_def authenticate_def)
next
  case (Inr a)
  show ?thesis
  proof (cases "validate a")
    case (Inl m)
    then show ?thesis using assms Inr by (simp add: consume_endpoint_def authenticate_def)
  next
    case valid: (Inr b)
    then have "b = a" and "au_unauthorized a = None \<Longrightarrow> au_forbidden a = None \<Longrightarrow> \<exists>q. au_principal a = Some q"
      by (auto simp: validate_def split: if_splits option.splits)
    with valid show ?thesis
      using assms Inr by (auto simp: consume_endpoint_def authenticate_def authorize_and_call_def split: option.splits)
  qed
qed

theorem only_authenticated_requests_are_handled_witness:
  "case consume_endpoint [''r'' \<mapsto> (\<lambda>q. Inr \<lparr>au_principal = Some \<lparr>pr_value = Some ''me'', pr_claims = []\<rparr>, au_unauthorized = None, au_forbidden = None\<rparr>)]
      \<lparr>ep_realm = Some ''r'', ep_handler = True, ep_streaming = False\<rparr> None demo_request of
     CallHandler _ \<Rightarrow> False | AuthCheckFailed \<Rightarrow> False | CallAuthenticated h p \<Rightarrow> h \<and> p \<noteq> None | _ \<Rightarrow> True"
  using only_authenticated_requests_are_handled [of "\<lparr>ep_realm = Some ''r'', ep_handler = True, ep_streaming = False\<rparr>" "''r''"
      "[''r'' \<mapsto> (\<lambda>q. Inr \<lparr>au_principal = Some \<lparr>pr_value = Some ''me'', pr_claims = []\<rparr>, au_unauthorized = None, au_forbidden = None\<rparr>)]"
      "\<lambda>q. Inr \<lparr>au_principal = Some \<lparr>pr_value = Some ''me'', pr_claims = []\<rparr>, au_unauthorized = None, au_forbidden = None\<rparr>" demo_request None]
  by (auto split: auth_outcome.splits)

end
