(* ===== verification/Http_Proxy.thy ===== *)
theory Http_Proxy
  imports Encoders
begin

text \<open>
  \<^verbatim>\<open>src/http_proxy.cpp\<close>: the process that sends the responses to the requests of one connection, in the order of the requests. Its methods run one at a
  time. The callbacks it installs on futures are dispatched to it when the future has completed: \<open>px_watching\<close> are the futures on which \<^verbatim>\<open>waited\<close> is
  installed, \<open>px_reading\<close> the reads on which \<^verbatim>\<open>stream\<close> is installed. Requests are numbered in the order of \<^verbatim>\<open>handle\<close>; what is sent is
  recorded with the number of the request it answers. A failing \<^verbatim>\<open>CHECK\<close> is None.
\<close>

section \<open>State\<close>

datatype response_future = Waiting | Ready response | FutureFailed string | FutureDiscarded

text \<open>What opening a path gives: an error that is reported as not found, another error, a failing \<^verbatim>\<open>stat\<close>, a directory, or a file.\<close>

datatype file_status = NoEntry | OpenError | StatError | Directory | File nat nat

datatype sent =
    SendResponse response request
  | SendHead response request
  | SendFile nat nat bool
  | SendChunk string bool

record item =
  it_number :: nat
  it_request :: request
  it_future :: nat

record proxy =
  px_items :: "item list"
  px_pipe :: "nat option"
  px_watching :: "nat list"
  px_reading :: "(nat \<times> request) list"
  px_futures :: "nat \<Rightarrow> response_future"
  px_handled :: nat
  px_outputs :: "(nat \<times> sent) list"
  px_closed :: "nat list"

definition proxy_init :: proxy where
  "proxy_init = \<lparr>px_items = [], px_pipe = None, px_watching = [], px_reading = [], px_futures = (\<lambda>_. Waiting), px_handled = 0, px_outputs = [], px_closed = []\<rparr>"

definition out :: "nat \<Rightarrow> sent \<Rightarrow> proxy \<Rightarrow> proxy" where
  "out n x s = s\<lparr>px_outputs := px_outputs s @ [(n, x)]\<rparr>"

section \<open>Methods\<close>

definition proxy_next :: "proxy \<Rightarrow> proxy" where
  "proxy_next s = (case px_items s of [] \<Rightarrow> s | i # _ \<Rightarrow> s\<lparr>px_watching := px_watching s @ [it_future i]\<rparr>)"

definition proxy_handle :: "nat \<Rightarrow> request \<Rightarrow> proxy \<Rightarrow> proxy" where
  "proxy_handle f r s =
    (let s1 = s\<lparr>px_items := px_items s @ [\<lparr>it_number = px_handled s, it_request = r, it_future = f\<rparr>], px_handled := Suc (px_handled s)\<rparr>
     in if length (px_items s1) = 1 then proxy_next s1 else s1)"

text \<open>The future of \<^verbatim>\<open>enqueue\<close> is ready from the start.\<close>

definition proxy_enqueue :: "nat \<Rightarrow> response \<Rightarrow> request \<Rightarrow> proxy \<Rightarrow> proxy" where
  "proxy_enqueue f resp r s = proxy_handle f r (s\<lparr>px_futures := (px_futures s)(f := Ready resp)\<rparr>)"

definition process_path :: "(string \<Rightarrow> file_status) \<Rightarrow> nat \<Rightarrow> response \<Rightarrow> request \<Rightarrow> proxy \<Rightarrow> proxy" where
  "process_path fs n resp0 r s = (let resp = resp0\<lparr>rs_body := []\<rparr> in case fs (rs_path resp) of
     NoEntry \<Rightarrow> out n (SendResponse (NotFound ''404 Not Found.'') r) s
   | OpenError \<Rightarrow> out n (SendResponse (InternalServerError ''500 Internal Server Error.'') r) s
   | StatError \<Rightarrow> out n (SendResponse (InternalServerError ''500 Internal Server Error.'') r) s
   | Directory \<Rightarrow> out n (SendResponse (NotFound ''404 Not Found.'') r) s
   | File fd len \<Rightarrow>
       let resp' = resp\<lparr>rs_headers := headers_set ''Content-Length'' (dec len) (rs_headers resp)\<rparr> in
       if len = 0 then out n (SendResponse resp' r) s
       else out n (SendFile fd len (rq_keepAlive r)) (out n (SendHead resp' r) s))"

definition process_pipe :: "nat \<Rightarrow> response \<Rightarrow> request \<Rightarrow> proxy \<Rightarrow> proxy option" where
  "process_pipe n resp r s =
    (let s1 = out n (SendHead (resp\<lparr>rs_body := [], rs_headers := headers_set ''Transfer-Encoding'' ''chunked'' (rs_headers resp)\<rparr>) r) s
     in case rs_reader resp of
       None \<Rightarrow> None
     | Some p \<Rightarrow> Some (s1\<lparr>px_pipe := Some p, px_reading := px_reading s1 @ [(n, r)]\<rparr>))"

text \<open>The boolean says whether the next response can be processed.\<close>

definition proxy_process :: "(string \<Rightarrow> file_status) \<Rightarrow> item \<Rightarrow> proxy \<Rightarrow> (bool \<times> proxy) option" where
  "proxy_process fs i s = (case px_futures s (it_future i) of
     Ready resp \<Rightarrow> (case rs_type resp of
         RespPath \<Rightarrow> Some (True, process_path fs (it_number i) resp (it_request i) s)
       | RespPipe \<Rightarrow> map_option (Pair False) (process_pipe (it_number i) resp (it_request i) s)
       | _ \<Rightarrow> Some (True, out (it_number i) (SendResponse resp (it_request i)) s))
   | FutureFailed m \<Rightarrow> Some (True, out (it_number i) (SendResponse (InternalServerError m) (it_request i)) s)
   | _ \<Rightarrow> Some (True, out (it_number i) (SendResponse (InternalServerError ''discarded future'') (it_request i)) s))"

definition proxy_waited :: "(string \<Rightarrow> file_status) \<Rightarrow> nat \<Rightarrow> proxy \<Rightarrow> proxy option" where
  "proxy_waited fs f s = (case px_items s of
     [] \<Rightarrow> None
   | i # _ \<Rightarrow>
       if f \<noteq> it_future i then None
       else case proxy_process fs i s of
         None \<Rightarrow> None
       | Some (processed, s1) \<Rightarrow>
           let s2 = s1\<lparr>px_items := tl (px_items s1)\<rparr> in Some (if processed then proxy_next s2 else s2))"

definition proxy_stream :: "nat \<Rightarrow> request \<Rightarrow> chunk_read \<Rightarrow> proxy \<Rightarrow> proxy option" where
  "proxy_stream n r c s = (case px_pipe s of
     None \<Rightarrow> None
   | Some p \<Rightarrow>
       let finish = (\<lambda>s. proxy_next (s\<lparr>px_closed := px_closed s @ [p], px_pipe := None\<rparr>)) in
       Some (case c of
         ChunkData d \<Rightarrow>
           if d = [] then finish (out n (SendChunk last_chunk (rq_keepAlive r)) s)
           else out n (SendChunk (chunk d) True) (s\<lparr>px_reading := px_reading s @ [(n, r)]\<rparr>)
       | _ \<Rightarrow> finish (out n (SendResponse (InternalServerError ''500 Internal Server Error.'') r) s)))"

text \<open>Pipes that are closed, and the futures that are discarded or whose pipe will be closed when they are ready.\<close>

definition proxy_finalize :: "proxy \<Rightarrow> proxy \<times> nat list" where
  "proxy_finalize s = (s\<lparr>px_closed := px_closed s @ (case px_pipe s of None \<Rightarrow> [] | Some p \<Rightarrow> [p]), px_pipe := None, px_items := []\<rparr>, map it_future (px_items s))"

section \<open>Runs\<close>

datatype proxy_event = Handle nat request | Enqueue nat response request | Complete nat response_future | Waited nat | Streamed chunk_read

text \<open>A dispatched callback runs once; \<^verbatim>\<open>stream\<close> runs for the read that was made first. Events that cannot happen change nothing.\<close>

fun proxy_step :: "(string \<Rightarrow> file_status) \<Rightarrow> proxy_event \<Rightarrow> proxy \<Rightarrow> proxy option" where
  "proxy_step fs (Handle f r) s = Some (proxy_handle f r s)"
| "proxy_step fs (Enqueue f resp r) s = (if px_futures s f = Waiting then Some (proxy_enqueue f resp r s) else Some s)"
| "proxy_step fs (Complete f v) s = Some (if px_futures s f = Waiting then s\<lparr>px_futures := (px_futures s)(f := v)\<rparr> else s)"
| "proxy_step fs (Waited f) s =
    (if f \<in> set (px_watching s) \<and> px_futures s f \<noteq> Waiting then proxy_waited fs f (s\<lparr>px_watching := remove1 f (px_watching s)\<rparr>) else Some s)"
| "proxy_step fs (Streamed c) s = (case px_reading s of
     [] \<Rightarrow> Some s
   | (n, r) # rs \<Rightarrow> proxy_stream n r c (s\<lparr>px_reading := rs\<rparr>))"

fun proxy_run :: "(string \<Rightarrow> file_status) \<Rightarrow> proxy_event list \<Rightarrow> proxy \<Rightarrow> proxy option" where
  "proxy_run fs [] s = Some s"
| "proxy_run fs (e # es) s = (case proxy_step fs e s of None \<Rightarrow> None | Some s' \<Rightarrow> proxy_run fs es s')"

section \<open>A request that arrives while a response is streamed\<close>

definition stream_response :: response where
  "stream_response = (Response_code 200)\<lparr>rs_type := RespPipe, rs_reader := Some 0\<rparr>"

text \<open>
  \<^verbatim>\<open>waited\<close> removes the item whose response is streamed, so \<^verbatim>\<open>handle\<close> takes the next request for the only one and waits for its response: the two
  responses are mixed, or the callback is installed a second time when the stream ends, and the second one fails a \<^verbatim>\<open>CHECK\<close>.
\<close>

lemma pipelined_request_mixes_responses:
  "map_option (map fst \<circ> px_outputs) (proxy_run (\<lambda>_. NoEntry) [Handle 0 new_request, Complete 0 (Ready stream_response), Waited 0,
     Handle 1 new_request, Complete 1 (Ready (NotFound [])), Waited 1, Streamed (ChunkData ''x'')] proxy_init) = Some [0, 1, 0]"
  by code_simp

lemma pipelined_request_aborts:
  "proxy_run (\<lambda>_. NoEntry) [Handle 0 new_request, Complete 0 (Ready stream_response), Waited 0,
     Handle 1 new_request, Streamed (ChunkData []), Complete 1 (Ready (NotFound [])), Waited 1, Waited 1] proxy_init = None"
  by code_simp

section \<open>Responses in order\<close>

text \<open>
  Otherwise responses are sent in the order of the requests. A run is polite if no request arrives while a response is streamed and no other request
  waits, and a response of type PIPE has a pipe.
\<close>

definition has_pipe :: "response \<Rightarrow> bool" where
  "has_pipe resp = (rs_type resp = RespPipe \<longrightarrow> rs_reader resp \<noteq> None)"

fun polite :: "proxy_event \<Rightarrow> proxy \<Rightarrow> bool" where
  "polite (Handle f r) s = (px_pipe s = None \<or> px_items s \<noteq> [])"
| "polite (Enqueue f resp r) s = ((px_pipe s = None \<or> px_items s \<noteq> []) \<and> has_pipe resp)"
| "polite (Complete f v) s = (case v of Ready resp \<Rightarrow> has_pipe resp | _ \<Rightarrow> True)"
| "polite _ s = True"

fun polite_run :: "(string \<Rightarrow> file_status) \<Rightarrow> proxy_event list \<Rightarrow> proxy \<Rightarrow> bool" where
  "polite_run fs [] s = True"
| "polite_run fs (e # es) s = (polite e s \<and> (case proxy_step fs e s of None \<Rightarrow> True | Some s' \<Rightarrow> polite_run fs es s'))"

definition answered :: "proxy \<Rightarrow> nat" where
  "answered s = px_handled s - length (px_items s)"

text \<open>What is sent is grouped by request, in order, one group for each answered request.\<close>

definition in_order :: "proxy \<Rightarrow> bool" where
  "in_order s = (remdups_adj (map fst (px_outputs s)) = [0..<answered s])"

definition proxy_inv :: "proxy \<Rightarrow> bool" where
  "proxy_inv s = (length (px_items s) \<le> px_handled s
    \<and> map it_number (px_items s) = [answered s..<px_handled s]
    \<and> (\<forall>f resp. px_futures s f = Ready resp \<longrightarrow> has_pipe resp)
    \<and> in_order s
    \<and> (if px_pipe s = None then px_reading s = [] \<and> px_watching s = map it_future (take 1 (px_items s))
       else px_watching s = [] \<and> answered s > 0 \<and> (\<exists>r. px_reading s = [(answered s - 1, r)])))"

lemma remdups_adj_snoc: "remdups_adj (xs @ [x]) = (if xs \<noteq> [] \<and> last xs = x then remdups_adj xs else remdups_adj xs @ [x])"
  by (induction xs rule: remdups_adj.induct) auto

lemma last_upt_remdups: "remdups_adj xs = [0..<n] \<Longrightarrow> 0 < n \<Longrightarrow> xs \<noteq> [] \<and> last xs = n - 1"
proof -
  assume xs: "remdups_adj xs = [0..<n]" and n: "0 < n"
  have "last (remdups_adj xs) = last xs" by (induction xs rule: remdups_adj.induct) auto
  moreover have "xs \<noteq> []" using xs n by (auto simp: upt_rec)
  ultimately show ?thesis using xs n by simp
qed

text \<open>The next answer, or more of the last one.\<close>

lemma out_new: "remdups_adj xs = [0..<n] \<Longrightarrow> remdups_adj (xs @ [n]) = [0..<Suc n]"
  using last_upt_remdups [of xs n] by (cases "n = 0") (auto simp: remdups_adj_snoc)

lemma out_more: "remdups_adj xs = [0..<n] \<Longrightarrow> 0 < n \<Longrightarrow> remdups_adj (xs @ [n - 1]) = [0..<n]"
  using last_upt_remdups [of xs n] by (simp add: remdups_adj_snoc)

lemma handle_inv:
  assumes "proxy_inv s" and "px_pipe s = None \<or> px_items s \<noteq> []"
  shows "proxy_inv (proxy_handle f r s)"
  using assms by (cases "px_items s") (auto simp: proxy_inv_def proxy_handle_def proxy_next_def answered_def in_order_def)

lemma next_inv:
  assumes "proxy_inv (s\<lparr>px_watching := map it_future (take 1 (px_items s))\<rparr>)" and "px_watching s = []"
  shows "proxy_inv (proxy_next s)"
  using assms by (cases s; cases "px_items s") (simp_all add: proxy_next_def)

text \<open>What answering the first item does.\<close>

lemma process_outputs:
  assumes "px_futures s (it_future i) \<noteq> Waiting" and "\<forall>f resp. px_futures s f = Ready resp \<longrightarrow> has_pipe resp"
  shows "\<exists>b s'. proxy_process fs i s = Some (b, s') \<and> px_items s' = px_items s \<and> px_handled s' = px_handled s \<and> px_futures s' = px_futures s
    \<and> px_watching s' = px_watching s
    \<and> (\<exists>xs. xs \<noteq> [] \<and> map fst (px_outputs s') = map fst (px_outputs s) @ xs \<and> set xs = {it_number i})
    \<and> (if b then px_pipe s' = px_pipe s \<and> px_reading s' = px_reading s
       else px_pipe s' \<noteq> None \<and> (\<exists>r. px_reading s' = px_reading s @ [(it_number i, r)]))"
  using assms(1) assms(2) [rule_format, of "it_future i"]
  by (cases "px_futures s (it_future i)")
    (auto simp: proxy_process_def process_path_def process_pipe_def out_def has_pipe_def Let_def split: response_type.splits file_status.splits option.splits)

lemma remdups_adj_same: "xs \<noteq> [] \<Longrightarrow> set xs = {n} \<Longrightarrow> remdups_adj ys = [0..<n] \<Longrightarrow> remdups_adj (ys @ xs) = [0..<Suc n]"
proof (induction xs rule: rev_induct)
  case (snoc x xs)
  show ?case
  proof (cases "xs = []")
    case True
    with snoc.prems show ?thesis using out_new by simp
  next
    case False
    then have "set xs = {n}" using snoc.prems(2) by (cases xs) auto
    then have "remdups_adj (ys @ xs) = [0..<Suc n]" using snoc False by auto
    with snoc.prems out_more [of "ys @ xs" "Suc n"] show ?thesis by simp
  qed
qed simp

lemma waited_inv:
  assumes inv: "proxy_inv s" and f: "f \<in> set (px_watching s)" "px_futures s f \<noteq> Waiting"
  shows "\<exists>s'. proxy_waited fs f (s\<lparr>px_watching := remove1 f (px_watching s)\<rparr>) = Some s' \<and> proxy_inv s'"
proof -
  obtain i rest where i: "px_items s = i # rest" "px_pipe s = None" "px_reading s = []" "px_watching s = [it_future i]" "f = it_future i"
    using inv f(1) by (cases "px_items s") (auto simp: proxy_inv_def split: if_splits)
  have num: "it_number i = answered s" "map it_number rest = [Suc (answered s)..<px_handled s]" "answered s < px_handled s"
    using inv i(1) by (auto simp: proxy_inv_def answered_def upt_conv_Cons)
  let ?s = "s\<lparr>px_watching := []\<rparr>"
  obtain b s1 where s1: "proxy_process fs i ?s = Some (b, s1)" "px_items s1 = i # rest" "px_handled s1 = px_handled s" "px_futures s1 = px_futures s"
      "px_watching s1 = []"
    and xs: "\<exists>xs. xs \<noteq> [] \<and> map fst (px_outputs s1) = map fst (px_outputs s) @ xs \<and> set xs = {it_number i}"
    and b: "if b then px_pipe s1 = None \<and> px_reading s1 = [] else px_pipe s1 \<noteq> None \<and> (\<exists>r. px_reading s1 = [(it_number i, r)])"
    using process_outputs [of ?s i fs] inv f(2) i by (auto simp: proxy_inv_def cong: if_cong)
  let ?s2 = "s1\<lparr>px_items := rest\<rparr>"
  have ans: "answered ?s2 = Suc (answered s)"
    using s1(3) num(3) i(1) inv by (auto simp: answered_def proxy_inv_def)
  have order: "in_order ?s2"
    using xs num(1) inv ans remdups_adj_same [of _ "answered s"] by (auto simp: in_order_def proxy_inv_def)
  have res: "proxy_waited fs f (s\<lparr>px_watching := remove1 f (px_watching s)\<rparr>) = Some (if b then proxy_next ?s2 else ?s2)"
    using i s1(1,2) by (simp add: proxy_waited_def Let_def)
  have common: "length rest \<le> px_handled s1" "map it_number rest = [answered ?s2..<px_handled ?s2]" "\<forall>f resp. px_futures s1 f = Ready resp \<longrightarrow> has_pipe resp"
    using s1(3,4) num ans inv i(1) by (auto simp: proxy_inv_def)
  show ?thesis
  proof (cases b)
    case True
    then have "proxy_inv (proxy_next ?s2)"
      using common order b s1 by (intro next_inv) (auto simp: proxy_inv_def in_order_def answered_def)
    then show ?thesis using res True by simp
  next
    case False
    then have "proxy_inv ?s2" using common order b s1 ans num(1) by (auto simp: proxy_inv_def)
    then show ?thesis using res False by simp
  qed
qed

lemma stream_inv:
  assumes inv: "proxy_inv s" and r: "px_reading s = (n, r) # rs"
  shows "\<exists>s'. proxy_stream n r c (s\<lparr>px_reading := rs\<rparr>) = Some s' \<and> proxy_inv s'"
proof -
  obtain p where p: "px_pipe s = Some p" "px_watching s = []" "rs = []" "n = answered s - 1" "0 < answered s"
    using inv r by (auto simp: proxy_inv_def split: if_splits)
  have more: "remdups_adj (map fst (px_outputs s) @ [n]) = [0..<answered s]"
    using out_more inv p(4,5) by (simp add: proxy_inv_def in_order_def)
  let ?finish = "\<lambda>x. s\<lparr>px_reading := rs, px_outputs := px_outputs s @ [(n, x)], px_closed := px_closed s @ [p], px_pipe := None\<rparr>"
  have "proxy_inv (proxy_next (?finish x))" for x
    using inv more p by (intro next_inv) (auto simp: proxy_inv_def in_order_def answered_def)
  moreover have "proxy_inv (s\<lparr>px_reading := [(n, r)], px_outputs := px_outputs s @ [(n, x)]\<rparr>)" for x
    using inv more p by (auto simp: proxy_inv_def in_order_def answered_def)
  ultimately show ?thesis
    using p by (cases c) (auto simp: proxy_stream_def out_def Let_def)
qed

lemma step_inv:
  assumes "proxy_inv s" and "polite e s"
  shows "\<exists>s'. proxy_step fs e s = Some s' \<and> proxy_inv s'"
proof (cases e)
  case (Handle f r)
  with assms handle_inv show ?thesis by simp
next
  case (Enqueue f resp r)
  have "proxy_inv (s\<lparr>px_futures := (px_futures s)(f := Ready resp)\<rparr>)"
    using assms Enqueue by (auto simp: proxy_inv_def in_order_def answered_def)
  then show ?thesis using assms Enqueue handle_inv by (auto simp: proxy_enqueue_def)
next
  case (Complete f v)
  with assms show ?thesis by (auto simp: proxy_inv_def in_order_def answered_def)
next
  case (Waited f)
  with assms waited_inv show ?thesis by auto
next
  case (Streamed c)
  with assms stream_inv show ?thesis by (cases "px_reading s") auto
qed

text \<open>C25.
  If no request arrives while a response is streamed and no other request waits, responses are sent in the order of their requests:
  what was sent is one uninterrupted group per request, in order and without gaps. No \<^verbatim>\<open>CHECK\<close> fails, and no request is forgotten: as long as one waits,
  the response of the first one is being waited for, or the response before it is being streamed.
\<close>

theorem proxy_sends_in_order:
  assumes "polite_run fs es proxy_init"
  shows "\<exists>s. proxy_run fs es proxy_init = Some s
    \<and> remdups_adj (map fst (px_outputs s)) = [0..<px_handled s - length (px_items s)]
    \<and> (px_items s = [] \<or> px_watching s = [it_future (hd (px_items s))] \<or> length (px_reading s) = 1)"
proof -
  have "\<exists>s'. proxy_run fs es s = Some s' \<and> proxy_inv s'" if "polite_run fs es s" "proxy_inv s" for s
    using that
  proof (induction es arbitrary: s)
    case (Cons e es)
    then show ?case using step_inv [of s e fs] by fastforce
  qed simp
  moreover have "proxy_inv proxy_init"
    by (simp add: proxy_inv_def proxy_init_def in_order_def answered_def)
  ultimately obtain s where s: "proxy_run fs es proxy_init = Some s" "proxy_inv s" using assms by blast
  then have "px_items s = [] \<or> px_watching s = [it_future (hd (px_items s))] \<or> length (px_reading s) = 1"
    by (cases "px_items s") (auto simp: proxy_inv_def split: if_splits)
  with s show ?thesis by (auto simp: proxy_inv_def in_order_def answered_def)
qed

theorem proxy_sends_in_order_witness:
  "\<exists>s. proxy_run (\<lambda>_. NoEntry) [Handle 0 new_request, Handle 1 new_request, Complete 1 (Ready (NotFound [])), Complete 0 (Ready stream_response), Waited 0,
       Streamed (ChunkData ''x''), Streamed (ChunkData []), Waited 1] proxy_init = Some s \<and> map fst (px_outputs s) = [0, 0, 0, 1]
     \<and> remdups_adj (map fst (px_outputs s)) = [0..<px_handled s - length (px_items s)]"
proof -
  define es where "es = [Handle 0 new_request, Handle 1 new_request, Complete 1 (Ready (NotFound [])), Complete 0 (Ready stream_response), Waited 0,
       Streamed (ChunkData ''x''), Streamed (ChunkData []), Waited 1]"
  have "polite_run (\<lambda>_. NoEntry) es proxy_init" unfolding es_def by code_simp
  then obtain s where s: "proxy_run (\<lambda>_. NoEntry) es proxy_init = Some s"
      "remdups_adj (map fst (px_outputs s)) = [0..<px_handled s - length (px_items s)]"
    using proxy_sends_in_order [of "\<lambda>_. NoEntry" es] by blast
  have "map_option (map fst \<circ> px_outputs) (proxy_run (\<lambda>_. NoEntry) es proxy_init) = Some [0, 0, 0, 1]" unfolding es_def by code_simp
  then have order: "map fst (px_outputs s) = [0, 0, 0, 1]" using s(1) by simp
  show ?thesis
    by (rule exI [of _ s], intro conjI, fact s(1) [unfolded es_def], fact order, fact s(2))
qed

end
