(* ===== verification/Connections.thy ===== *)
theory Connections
  imports Encoder_Properties Decoder_Properties
begin

text \<open>
  \<^verbatim>\<open>ConnectionProcess\<close> of \<^verbatim>\<open>src/http.cpp\<close>: the client's end of a connection, which pipelines requests and matches responses to them. The model composes the
  decoder of streamed responses with the pipeline; what http-parser calls for the data received is an argument of each event, as in the theory of the
  decoders. A promise is its number, in the order of \<^verbatim>\<open>send\<close>. The result of \<^verbatim>\<open>shutdown\<close>, which \<^verbatim>\<open>disconnect\<close> hands to its caller, is left out.
\<close>

section \<open>State\<close>

type_synonym parser_input = "parser_call list \<times> parse_end"

text \<open>What a promise is set to: the response as it is, the response once its body is read, or a failure.\<close>

datatype reply = Streaming response | Converted response | ReplyFailed string

datatype received = Received | Eof | RecvFailed string | RecvDiscarded

text \<open>
  \<open>cn_chain\<close> are the requests of \<^verbatim>\<open>sendChain\<close> that are not sent yet, \<open>cn_chain_failure\<close> how the chain failed, \<open>cn_deferred\<close> the calls of \<^verbatim>\<open>disconnect\<close> which that
  causes. Ghost: the requests accepted and those sent, the replies in order, what the decoder was fed and what it returned.
\<close>

record 'ip connection =
  cn_decoder :: streaming_response_decoder
  cn_pipeline :: "(bool \<times> nat) list"
  cn_close :: bool
  cn_disconnected :: bool
  cn_chain :: "'ip client_request list"
  cn_chain_failure :: "string option"
  cn_deferred :: "string list"
  cn_reading :: bool
  cn_accepted :: "'ip client_request list"
  cn_sent :: "'ip client_request list"
  cn_replies :: "(nat \<times> reply) list"
  cn_fed :: "parser_input list"
  cn_decoded :: "response list"

definition connection_init :: "'ip connection" where
  "connection_init = \<lparr>cn_decoder = streaming_response_init, cn_pipeline = [], cn_close = False, cn_disconnected = False, cn_chain = [],
     cn_chain_failure = None, cn_deferred = [], cn_reading = True, cn_accepted = [], cn_sent = [], cn_replies = [], cn_fed = [], cn_decoded = []\<rparr>"

section \<open>Methods\<close>

definition send_refused :: "'ip client_request \<Rightarrow> 'ip connection \<Rightarrow> string option" where
  "send_refused r c =
    (if cn_disconnected c then Some ''Disconnected''
     else if cn_close c then Some (''Cannot pipeline after '' @ quoted ''Connection: close'')
     else if c_type r = ReqPipe \<and> c_reader r = None then Some ''Request reader must be set for PIPE request''
     else if c_type r = ReqPipe \<and> c_body r \<noteq> [] then Some ''Request body must be empty for PIPE request''
     else if c_type r = ReqPipe \<and> headers_contains ''Content-Length'' (c_headers r) then Some (quoted ''Content-Length'' @ '' cannot be set for PIPE request'')
     else None)"

definition connection_send :: "'ip client_request \<Rightarrow> bool \<Rightarrow> 'ip connection \<Rightarrow> (string + nat) \<times> 'ip connection" where
  "connection_send r st c = (case send_refused r c of
     Some e \<Rightarrow> (Inl e, c)
   | None \<Rightarrow>
       let c1 = c\<lparr>cn_close := (cn_close c \<or> \<not> c_keepAlive r)\<rparr>;
           c2 = (case cn_chain_failure c1 of
             None \<Rightarrow> c1\<lparr>cn_chain := cn_chain c1 @ [r]\<rparr>
           | Some m \<Rightarrow> c1\<lparr>cn_deferred := cn_deferred c1 @ [m]\<rparr>)
       in (Inr (length (cn_accepted c2)),
           c2\<lparr>cn_pipeline := cn_pipeline c2 @ [(st, length (cn_accepted c2))], cn_accepted := cn_accepted c2 @ [r]\<rparr>))"

text \<open>The first request of the chain was sent, or could not be; then all that follow fail in the same way.\<close>

definition chain_ended :: "string option \<Rightarrow> 'ip connection \<Rightarrow> 'ip connection" where
  "chain_ended failed c = (case cn_chain c of
     [] \<Rightarrow> c
   | r # rs \<Rightarrow> (case failed of
       None \<Rightarrow> c\<lparr>cn_chain := rs, cn_sent := cn_sent c @ [r]\<rparr>
     | Some m \<Rightarrow> c\<lparr>cn_chain := [], cn_chain_failure := Some m, cn_deferred := cn_deferred c @ map (\<lambda>_. m) (r # rs)\<rparr>))"

text \<open>\<open>Inl\<close>: a \<^verbatim>\<open>CHECK\<close> failed, after the decoder was fed this.\<close>

definition feed :: "parser_input \<Rightarrow> 'ip connection \<Rightarrow> parser_input list + 'ip connection \<times> response list" where
  "feed inp c = (case sresponse_decode inp (cn_decoder c) of
     None \<Rightarrow> Inl (cn_fed c @ [inp])
   | Some (d, rs) \<Rightarrow> Inr (c\<lparr>cn_decoder := d, cn_fed := cn_fed c @ [inp]\<rparr>, rs))"

definition fail_pipeline :: "string \<Rightarrow> 'ip connection \<Rightarrow> 'ip connection" where
  "fail_pipeline m c = c\<lparr>cn_replies := cn_replies c @ map (\<lambda>(_, p). (p, ReplyFailed m)) (cn_pipeline c), cn_pipeline := []\<rparr>"

definition connection_disconnect :: "string option \<Rightarrow> parser_input \<Rightarrow> 'ip connection \<Rightarrow> parser_input list + 'ip connection" where
  "connection_disconnect message eof c =
    (case (if writingBody (cn_decoder c) then map_sum id fst (feed eof c) else Inr c) of
       Inl f \<Rightarrow> Inl f
     | Inr c1 \<Rightarrow> Inr ((fail_pipeline (case message of Some m \<Rightarrow> m | None \<Rightarrow> ''Disconnected'') c1)\<lparr>cn_disconnected := True\<rparr>))"

definition convert_response :: "response \<Rightarrow> reply option" where
  "convert_response r = (if rs_type r = RespPipe \<and> rs_reader r \<noteq> None then Some (Converted r) else None)"

text \<open>A response is taken by the first request; one that says \<^verbatim>\<open>Connection: close\<close> is the last.\<close>

definition take_response :: "response \<Rightarrow> nat \<Rightarrow> (bool \<times> nat) list \<Rightarrow> reply \<Rightarrow> 'ip connection \<Rightarrow> 'ip connection" where
  "take_response r p ps reply c = (let c1 = c\<lparr>cn_pipeline := ps, cn_replies := cn_replies c @ [(p, reply)]\<rparr> in
     if headers_get ''Connection'' (rs_headers r) = Some ''close''
     then fail_pipeline (''Received '' @ quoted ''Connection: close'' @ '' from the server'') (c1\<lparr>cn_close := True\<rparr>) else c1)"

text \<open>The loop over the decoded responses. The boolean says that a response was left for which there is no request.\<close>

fun process_responses :: "response list \<Rightarrow> 'ip connection \<Rightarrow> parser_input list + bool \<times> 'ip connection" where
  "process_responses [] c = Inr (False, c)"
| "process_responses (r # rs) c = (case cn_pipeline c of
     [] \<Rightarrow> Inr (True, c)
   | (st, p) # ps \<Rightarrow> (case (if st then Some (Streaming r) else convert_response r) of
       None \<Rightarrow> Inl (cn_fed c)
     | Some reply \<Rightarrow> process_responses rs (take_response r p ps reply c)))"

definition after_responses :: "received \<Rightarrow> parser_input \<Rightarrow> bool \<times> 'ip connection \<Rightarrow> parser_input list + 'ip connection" where
  "after_responses data eof bc = (case bc of (left, c) \<Rightarrow>
     if left then connection_disconnect (Some ''Received response without a request'') eof c
     else case data of
       RecvFailed m \<Rightarrow> connection_disconnect (Some m) eof c
     | RecvDiscarded \<Rightarrow> connection_disconnect (Some ''discarded'') eof c
     | Eof \<Rightarrow> connection_disconnect None eof c
     | Received \<Rightarrow>
         if dc_failure (cn_decoder c) then connection_disconnect (Some ''Failed to decode response'') eof c
         else if cn_close c \<and> cn_pipeline c = [] \<and> \<not> writingBody (cn_decoder c) then connection_disconnect None eof c
         else Inr (c\<lparr>cn_reading := True\<rparr>))"

text \<open>\<^verbatim>\<open>_read\<close>: \<open>inp\<close> is what the parser calls for the data (or the end of file), \<open>eof\<close> for the end of file that \<^verbatim>\<open>disconnect\<close> may send.\<close>

definition connection_read :: "received \<Rightarrow> parser_input \<Rightarrow> parser_input \<Rightarrow> 'ip connection \<Rightarrow> parser_input list + 'ip connection" where
  "connection_read data inp eof c0 = (let c = c0\<lparr>cn_reading := False\<rparr> in
     if data = Received \<and> cn_pipeline c = [] \<and> \<not> writingBody (cn_decoder c)
     then connection_disconnect (Some ''Received data when none is expected'') eof c
     else case feed inp c of
       Inl f \<Rightarrow> Inl f
     | Inr (c1, rs) \<Rightarrow> (case process_responses rs (c1\<lparr>cn_decoded := cn_decoded c1 @ rs\<rparr>) of
         Inl f \<Rightarrow> Inl f
       | Inr bc \<Rightarrow> after_responses data eof bc))"

section \<open>Runs\<close>

datatype 'ip conn_event =
    Send "'ip client_request" bool
  | ChainEnded "string option"
  | Read received parser_input parser_input
  | Disconnect "string option" parser_input
  | Deferred parser_input

text \<open>A read happens when one is outstanding, a deferred call when there is one.\<close>

fun conn_step :: "'ip conn_event \<Rightarrow> 'ip connection \<Rightarrow> parser_input list + 'ip connection" where
  "conn_step (Send r st) c = Inr (snd (connection_send r st c))"
| "conn_step (ChainEnded failed) c = Inr (chain_ended failed c)"
| "conn_step (Read data inp eof) c = (if cn_reading c then connection_read data inp eof c else Inr c)"
| "conn_step (Disconnect m eof) c = connection_disconnect m eof c"
| "conn_step (Deferred eof) c = (case cn_deferred c of [] \<Rightarrow> Inr c | m # ms \<Rightarrow> connection_disconnect (Some m) eof (c\<lparr>cn_deferred := ms\<rparr>))"

fun conn_run :: "'ip conn_event list \<Rightarrow> 'ip connection \<Rightarrow> parser_input list + 'ip connection" where
  "conn_run [] c = Inr c"
| "conn_run (e # es) c = (case conn_step e c of Inl f \<Rightarrow> Inl f | Inr c' \<Rightarrow> conn_run es c')"

section \<open>Accounting for every request\<close>

fun reply_response :: "reply \<Rightarrow> response option" where
  "reply_response (Streaming r) = Some r"
| "reply_response (Converted r) = Some r"
| "reply_response (ReplyFailed m) = None"

text \<open>\<open>k\<close> responses were matched, the rest of the replies are failures.\<close>

definition matched :: "nat \<Rightarrow> 'ip connection \<Rightarrow> bool" where
  "matched k c = (k \<le> length (cn_replies c) \<and> k \<le> length (cn_decoded c)
    \<and> map (reply_response \<circ> snd) (cn_replies c) = map Some (take k (cn_decoded c)) @ replicate (length (cn_replies c) - k) None)"

definition accounted :: "nat \<Rightarrow> bool \<Rightarrow> 'ip connection \<Rightarrow> bool" where
  "accounted k left c = (map fst (cn_replies c) @ map snd (cn_pipeline c) = [0..<length (cn_accepted c)]
    \<and> (cn_disconnected c \<longrightarrow> cn_pipeline c = []) \<and> matched k c
    \<and> (length (cn_replies c) \<noteq> k \<longrightarrow> cn_pipeline c = [] \<and> (cn_close c \<or> cn_disconnected c))
    \<and> (length (cn_decoded c) \<noteq> k \<longrightarrow> left \<or> cn_disconnected c))"

lemma fail_pipeline_simps [simp]:
  "cn_decoder (fail_pipeline m c) = cn_decoder c" "cn_pipeline (fail_pipeline m c) = []" "cn_close (fail_pipeline m c) = cn_close c"
  "cn_disconnected (fail_pipeline m c) = cn_disconnected c" "cn_accepted (fail_pipeline m c) = cn_accepted c" "cn_fed (fail_pipeline m c) = cn_fed c"
  "cn_decoded (fail_pipeline m c) = cn_decoded c" "length (cn_replies (fail_pipeline m c)) = length (cn_replies c) + length (cn_pipeline c)"
  "map fst (cn_replies (fail_pipeline m c)) = map fst (cn_replies c) @ map snd (cn_pipeline c)"
  "cn_reading (fail_pipeline m c) = cn_reading c" "cn_chain (fail_pipeline m c) = cn_chain c" "cn_sent (fail_pipeline m c) = cn_sent c"
  "cn_chain_failure (fail_pipeline m c) = cn_chain_failure c"
  by (auto simp: fail_pipeline_def case_prod_beta comp_def)

lemma matched_fail: "matched k c \<Longrightarrow> matched k (fail_pipeline m c)"
proof -
  assume m: "matched k c"
  have "map (reply_response \<circ> snd) (map (\<lambda>(_, p). (p, ReplyFailed m)) ps) = replicate (length ps) None" for ps :: "(bool \<times> nat) list"
    by (induction ps) auto
  then show ?thesis
    using m by (simp add: matched_def fail_pipeline_def replicate_add [symmetric])
qed

lemma fail_close: "accounted k left c \<Longrightarrow> cn_close c \<Longrightarrow> accounted k left (fail_pipeline m c)"
  using matched_fail [of k c m] by (auto simp: accounted_def)

lemma fail_disconnect: "accounted k left c \<Longrightarrow> accounted k False ((fail_pipeline m c)\<lparr>cn_disconnected := True\<rparr>)"
  using matched_fail [of k c m] by (auto simp: accounted_def matched_def)

lemma feed_accounted: "feed inp c = Inr (c', rs) \<Longrightarrow> accounted k left c \<Longrightarrow> accounted k left c'"
  by (auto simp: feed_def accounted_def matched_def split: option.splits)

lemma disconnect_cases:
  assumes "connection_disconnect m eof c = Inr c'"
  obtains msg c1 where "c' = (fail_pipeline msg c1)\<lparr>cn_disconnected := True\<rparr>" "c1 = c \<or> (\<exists>rs. feed eof c = Inr (c1, rs))"
proof -
  have "map_sum id fst x = Inr c1 \<Longrightarrow> \<exists>rs. x = Inr (c1, rs)" for x :: "parser_input list + 'a connection \<times> response list" and c1
    by (cases x) auto
  then show thesis
    using assms that by (fastforce simp: connection_disconnect_def split: if_splits sum.splits)
qed

lemma disconnect_accounted: "accounted k left c \<Longrightarrow> connection_disconnect m eof c = Inr c' \<Longrightarrow> accounted k False c'"
  by (erule disconnect_cases) (auto intro: fail_disconnect feed_accounted)

lemma reply_accounted:
  assumes "accounted k True c" and "cn_pipeline c = (st, p) # ps" and "drop k (cn_decoded c) = r # rs" and "reply_response y = Some r"
  shows "accounted (Suc k) True (c\<lparr>cn_pipeline := ps, cn_replies := cn_replies c @ [(p, y)]\<rparr>)"
proof -
  have "k < length (cn_decoded c)" "cn_decoded c ! k = r"
    using assms(3) by (metis drop_all leI list.distinct(1), metis nth_via_drop)
  moreover have "length (cn_replies c) = k" "\<not> cn_disconnected c" using assms(1,2) by (auto simp: accounted_def)
  ultimately show ?thesis
    using assms by (auto simp: accounted_def matched_def take_Suc_conv_app_nth)
qed

lemma process_accounted:
  assumes "process_responses rs c = Inr (left, c')" and "accounted k True c" and "drop k (cn_decoded c) = rs" and "\<not> cn_disconnected c"
  shows "\<exists>k'. accounted k' left c'"
  using assms
proof (induction rs arbitrary: c k)
  case Nil
  then show ?case by (auto simp: accounted_def matched_def)
next
  case (Cons r rs)
  show ?case
  proof (cases "cn_pipeline c")
    case Nil
    then show ?thesis using Cons.prems by auto
  next
    case (Cons q ps)
    obtain st p where q: "q = (st, p)" by (cases q)
    with Cons Cons.prems(1) obtain y where y: "(if st then Some (Streaming r) else convert_response r) = Some y" by (auto split: option.splits)
    then have "reply_response y = Some r" by (auto simp: convert_response_def split: if_splits)
    let ?c1 = "c\<lparr>cn_pipeline := ps, cn_replies := cn_replies c @ [(p, y)]\<rparr>"
    have "accounted (Suc k) True ?c1"
      using reply_accounted [OF Cons.prems(2)] Cons q Cons.prems(3) \<open>reply_response y = Some r\<close> by simp
    moreover have "accounted (Suc k) True (?c1\<lparr>cn_close := True\<rparr>)" using calculation by (auto simp: accounted_def matched_def)
    ultimately have "accounted (Suc k) True (take_response r p ps y c)"
      using fail_close [of "Suc k" True "?c1\<lparr>cn_close := True\<rparr>"] by (simp add: take_response_def Let_def)
    moreover have "process_responses rs (take_response r p ps y c) = Inr (left, c')" using Cons.prems(1) Cons q y by simp
    moreover have "cn_decoded (take_response r p ps y c) = cn_decoded c" "cn_disconnected (take_response r p ps y c) = cn_disconnected c"
      by (simp_all add: take_response_def Let_def)
    moreover have "drop (Suc k) (cn_decoded c) = rs" using Cons.prems(3) by (metis drop_Suc list.sel(3) tl_drop)
    ultimately show ?thesis using Cons.IH [of "take_response r p ps y c" "Suc k"] Cons.prems(4) by simp
  qed
qed

lemma accounted_update [simp]:
  "accounted k left (c\<lparr>cn_reading := b\<rparr>) = accounted k left c" "accounted k left (c\<lparr>cn_deferred := ms\<rparr>) = accounted k left c"
  by (simp_all add: accounted_def matched_def)

lemma after_accounted:
  assumes "accounted k left c" and "after_responses data eof (left, c) = Inr c'"
  shows "accounted k False c'"
proof (cases "\<exists>m. connection_disconnect m eof c = Inr c'")
  case True
  then show ?thesis using disconnect_accounted [OF assms(1)] by blast
next
  case False
  then have "\<not> left \<and> c' = c\<lparr>cn_reading := True\<rparr>"
    using assms(2) by (cases left; cases data) (simp_all add: after_responses_def split: if_splits)
  then show ?thesis using assms(1) by simp
qed

lemma read_accounted:
  assumes "accounted k False c" and "connection_read data inp eof c = Inr c'"
  shows "\<exists>k'. accounted k' False c'"
proof -
  let ?c = "c\<lparr>cn_reading := False\<rparr>"
  have acc: "accounted k False ?c" using assms(1) by simp
  show ?thesis
  proof (cases "data = Received \<and> cn_pipeline c = [] \<and> \<not> writingBody (cn_decoder c)")
    case True
    then have "connection_disconnect (Some ''Received data when none is expected'') eof ?c = Inr c'" using assms(2) by (simp add: connection_read_def)
    then show ?thesis using disconnect_accounted [OF acc] by blast
  next
    case False
    then obtain c1 rs left c2 where c1: "feed inp ?c = Inr (c1, rs)"
      and c2: "process_responses rs (c1\<lparr>cn_decoded := cn_decoded c1 @ rs\<rparr>) = Inr (left, c2)" "after_responses data eof (left, c2) = Inr c'"
      using assms(2) by (auto simp: connection_read_def Let_def split: if_splits sum.splits)
    let ?c1 = "c1\<lparr>cn_decoded := cn_decoded c1 @ rs\<rparr>"
    have a1: "accounted k False c1" using feed_accounted [OF c1 acc] .
    have "\<exists>k'. accounted k' left c2"
    proof (cases "cn_pipeline c1 = []")
      case True
      then have "c2 = ?c1" "left \<longleftrightarrow> rs \<noteq> []" using c2(1) by (cases rs; auto)+
      then show ?thesis using a1 True by (auto simp: accounted_def matched_def intro!: exI [of _ k])
    next
      case False
      then have "\<not> cn_disconnected c1" "length (cn_decoded c1) = k" using a1 by (auto simp: accounted_def)
      then show ?thesis
        using process_accounted [OF c2(1), of k] a1 by (auto simp: accounted_def matched_def)
    qed
    then show ?thesis using after_accounted c2(2) by blast
  qed
qed

lemma send_accounted: "accounted k False c \<Longrightarrow> accounted k False (snd (connection_send r st c))"
  by (auto simp: connection_send_def send_refused_def accounted_def matched_def Let_def split: option.splits if_splits)

lemma step_accounted:
  assumes "accounted k False c" and "conn_step e c = Inr c'"
  shows "\<exists>k'. accounted k' False c'"
proof (cases e)
  case (Send r st)
  then show ?thesis using assms send_accounted [OF assms(1)] by auto
next
  case (ChainEnded f)
  then show ?thesis using assms by (auto simp: chain_ended_def accounted_def matched_def intro!: exI [of _ k] split: list.splits option.splits)
next
  case (Read data inp eof)
  then show ?thesis using assms read_accounted [OF assms(1)] by (auto split: if_splits)
next
  case (Disconnect m eof)
  then have "connection_disconnect m eof c = Inr c'" using assms(2) by simp
  then show ?thesis using disconnect_accounted [OF assms(1)] by blast
next
  case (Deferred eof)
  show ?thesis
  proof (cases "cn_deferred c")
    case (Cons m ms)
    then have "connection_disconnect (Some m) eof (c\<lparr>cn_deferred := ms\<rparr>) = Inr c'" using assms(2) Deferred by simp
    moreover have "accounted k False (c\<lparr>cn_deferred := ms\<rparr>)" using assms(1) by simp
    ultimately show ?thesis using disconnect_accounted by blast
  qed (use assms Deferred in auto)
qed

section \<open>What is on the wire\<close>

definition wire :: "'ip connection \<Rightarrow> 'ip client_request list \<times> 'ip client_request list \<times> 'ip client_request list \<times> string option" where
  "wire c = (cn_accepted c, cn_sent c, cn_chain c, cn_chain_failure c)"

definition wire_inv :: "'ip connection \<Rightarrow> bool" where
  "wire_inv c = (\<exists>rest. cn_accepted c = cn_sent c @ cn_chain c @ rest \<and> (cn_chain_failure c = None \<longrightarrow> rest = []) \<and> (cn_chain_failure c \<noteq> None \<longrightarrow> cn_chain c = []))"

lemma wire_inv_cong: "wire c' = wire c \<Longrightarrow> wire_inv c' = wire_inv c"
  by (simp add: wire_def wire_inv_def)

lemma wire_update [simp]:
  "wire (c\<lparr>cn_reading := b\<rparr>) = wire c" "wire (c\<lparr>cn_deferred := ms\<rparr>) = wire c" "wire (c\<lparr>cn_decoded := ds\<rparr>) = wire c" "wire (c\<lparr>cn_close := b\<rparr>) = wire c"
  "wire (c\<lparr>cn_disconnected := b\<rparr>) = wire c" "wire (c\<lparr>cn_pipeline := ps\<rparr>) = wire c" "wire (c\<lparr>cn_replies := ys\<rparr>) = wire c" "wire (fail_pipeline m c) = wire c"
  by (simp_all add: wire_def)

lemma wire_feed: "feed inp c = Inr (c', rs) \<Longrightarrow> wire c' = wire c"
  by (auto simp: feed_def wire_def split: option.splits)

lemma wire_disconnect: "connection_disconnect m eof c = Inr c' \<Longrightarrow> wire c' = wire c"
  by (erule disconnect_cases) (auto dest: wire_feed)

lemma wire_process: "process_responses rs c = Inr (left, c') \<Longrightarrow> wire c' = wire c"
proof (induction rs arbitrary: c)
  case (Cons r rs)
  show ?case
  proof (cases "cn_pipeline c")
    case Nil
    then show ?thesis using Cons.prems by simp
  next
    case (Cons q ps)
    obtain st p where "q = (st, p)" by (cases q)
    with Cons obtain y where "process_responses rs (take_response r p ps y c) = Inr (left, c')"
      using Cons.prems by (auto split: option.splits)
    then show ?thesis using Cons.IH by (simp add: take_response_def Let_def)
  qed
qed simp

lemma wire_read:
  assumes "connection_read data inp eof c = Inr c'"
  shows "wire c' = wire c"
proof (cases "data = Received \<and> cn_pipeline c = [] \<and> \<not> writingBody (cn_decoder c)")
  case True
  then show ?thesis using assms wire_disconnect by (fastforce simp: connection_read_def)
next
  case False
  then obtain c1 rs bc where "feed inp (c\<lparr>cn_reading := False\<rparr>) = Inr (c1, rs)"
      "process_responses rs (c1\<lparr>cn_decoded := cn_decoded c1 @ rs\<rparr>) = Inr bc" "after_responses data eof bc = Inr c'"
    using assms by (auto simp: connection_read_def Let_def split: if_splits sum.splits)
  moreover from this have "wire c' = wire (snd bc)"
    by (auto simp: after_responses_def dest: wire_disconnect split: prod.splits if_splits received.splits)
  ultimately show ?thesis using wire_process [of rs "c1\<lparr>cn_decoded := cn_decoded c1 @ rs\<rparr>" "fst bc" "snd bc"] wire_feed by fastforce
qed

lemma wire_step:
  assumes "wire_inv c" and "conn_step e c = Inr c'"
  shows "wire_inv c'"
proof (cases e)
  case (Send r st)
  then show ?thesis using assms by (auto simp: connection_send_def Let_def wire_inv_def split: option.splits)
next
  case (ChainEnded f)
  then show ?thesis using assms by (auto simp: chain_ended_def wire_inv_def split: list.splits option.splits)
next
  case (Read data inp eof)
  then have "wire c' = wire c" using assms(2) wire_read by (cases "cn_reading c") (simp_all, blast)
  then show ?thesis using assms(1) wire_inv_cong by blast
next
  case (Disconnect m eof)
  then have "wire c' = wire c" using assms(2) wire_disconnect by (simp, blast)
  then show ?thesis using assms(1) wire_inv_cong by blast
next
  case (Deferred eof)
  then have "wire c' = wire c" using assms(2) by (auto dest!: wire_disconnect split: list.splits)
  then show ?thesis using assms(1) wire_inv_cong by blast
qed

lemma conn_run_inv:
  assumes "\<And>c e c'. I c \<Longrightarrow> conn_step e c = Inr c' \<Longrightarrow> I c'" and "I c" and "conn_run es c = Inr c'"
  shows "I c'"
  using assms(2,3)
proof (induction es arbitrary: c)
  case (Cons e es)
  then obtain c1 where "conn_step e c = Inr c1" "conn_run es c1 = Inr c'" by (auto split: sum.splits)
  then show ?case using assms(1) Cons by blast
qed simp

text \<open>C26.
  Responses are matched to requests in order and no request is forgotten: however requests, received data, failures to send and disconnections are interleaved,
  the promises handed out are, in order, those completed and those in the pipeline; the first \<open>k\<close> of them got the first \<open>k\<close> responses the decoder
  returned, those after them failures; once the connection is disconnected, all have been completed. Requests go out whole and in the order of \<^verbatim>\<open>send\<close>.
\<close>

theorem responses_match_requests:
  assumes "conn_run es connection_init = Inr c"
  shows "map fst (cn_replies c) @ map snd (cn_pipeline c) = [0..<length (cn_accepted c)]
    \<and> (\<exists>k \<le> length (cn_decoded c). map (reply_response \<circ> snd) (cn_replies c) = map Some (take k (cn_decoded c)) @ replicate (length (cn_replies c) - k) None)
    \<and> (cn_disconnected c \<longrightarrow> length (cn_replies c) = length (cn_accepted c))
    \<and> (\<exists>rest. cn_accepted c = cn_sent c @ rest)"
proof -
  have "\<exists>k. accounted k False c"
  proof (rule conn_run_inv [where I = "\<lambda>c. \<exists>k. accounted k False c", OF _ _ assms])
    have "accounted 0 False connection_init" by (simp add: accounted_def matched_def connection_init_def)
    then show "\<exists>k. accounted k False connection_init" by blast
  qed (use step_accounted in blast)
  moreover have "wire_inv c"
    by (rule conn_run_inv [where I = wire_inv, OF wire_step _ assms]) (simp_all add: wire_inv_def connection_init_def)
  ultimately obtain k where k: "accounted k False c" "wire_inv c" by blast
  then have order: "map fst (cn_replies c) @ map snd (cn_pipeline c) = [0..<length (cn_accepted c)]" by (simp add: accounted_def)
  have "length (cn_replies c) + length (cn_pipeline c) = length (cn_accepted c)" using arg_cong [of _ _ length, OF order] by simp
  then have "cn_disconnected c \<longrightarrow> length (cn_replies c) = length (cn_accepted c)" using k(1) by (auto simp: accounted_def)
  moreover have "matched k c" "\<exists>rest. cn_accepted c = cn_sent c @ rest" using k by (auto simp: accounted_def wire_inv_def)
  ultimately show ?thesis using order unfolding matched_def by blast
qed

section \<open>Checks\<close>

text \<open>What the decoder was fed is what http-parser may report.\<close>

definition legal_input :: "parser_input list \<Rightarrow> bool" where
  "legal_input fed = (phases Idle (concat (map fst fed)) \<noteq> None \<and> list_all (\<lambda>(_, e). e \<noteq> Upgraded) fed)"

text \<open>The responses of the decoder have a pipe.\<close>

definition piped :: "streaming_response_decoder \<Rightarrow> bool" where
  "piped d = ((\<forall>r. dc_message d = Some r \<longrightarrow> rs_type r = RespPipe) \<and> list_all (\<lambda>r. rs_type r = RespPipe \<and> rs_reader r \<noteq> None) (dc_messages d))"

lemma piped_callback: "piped d \<Longrightarrow> run_callback sresponse_callback c d = Some d' \<Longrightarrow> piped d'"
  by (cases c) (auto simp: piped_def run_callback_def sresponse_callback_defs header_defs open_pipe_def pipe_do_def new_response_def Let_def
      split: if_splits outcome.splits option.splits)

lemma piped_execute: "piped d \<Longrightarrow> execute sresponse_callback cs d = Some d' \<Longrightarrow> piped d'"
proof (induction cs arbitrary: d)
  case (Cons c cs)
  then show ?case using piped_callback by (auto split: option.splits)
qed simp

lemma piped_decode:
  assumes "piped d" and "sresponse_decode inp d = Some (d', rs)"
  shows "piped d' \<and> list_all (\<lambda>r. rs_type r = RespPipe \<and> rs_reader r \<noteq> None) rs"
proof -
  obtain d1 where d1: "execute sresponse_callback (fst inp) d = Some d1" "(d', rs) = take_messages (stream_parse_failed (snd inp) d1)"
    using assms(2) by (auto simp: sresponse_decode_def split: option.splits)
  then have "piped d1" using piped_execute assms(1) by blast
  then show ?thesis
    using d1(2)
    by (auto simp: piped_def take_messages_def stream_parse_failed_def parse_failed_def fail_writer_def pipe_do_def split: if_splits option.splits parse_end.splits)
qed

definition decoder_inv :: "'ip connection \<Rightarrow> bool" where
  "decoder_inv c = (piped (cn_decoder c) \<and> (legal_input (cn_fed c) \<longrightarrow> (\<exists>ph. phases Idle (concat (map fst (cn_fed c))) = Some ph \<and> stream_inv ph (cn_decoder c))))"

lemma decode_legal:
  assumes "stream_inv ph d" and "phases ph (fst inp) = Some ph'" and "snd inp \<noteq> Upgraded"
  shows "\<exists>d' rs. sresponse_decode inp d = Some (d', rs) \<and> stream_inv ph' d'"
proof -
  obtain d1 where "execute sresponse_callback (fst inp) d = Some d1" "stream_inv ph' d1"
    using execute_phases [of stream_inv sresponse_callback ph d "fst inp" ph'] sresponse_step assms(1,2) by blast
  then show ?thesis
    using stream_inv_end [of ph' d1 "snd inp"] assms(3) by (auto simp: sresponse_decode_def take_messages_def)
qed

lemma feed_checks:
  assumes "decoder_inv c"
  shows "case feed inp c of Inl f \<Rightarrow> \<not> legal_input f
    | Inr (c', rs) \<Rightarrow> decoder_inv c' \<and> list_all (\<lambda>r. rs_type r = RespPipe \<and> rs_reader r \<noteq> None) rs"
proof -
  have legal: "legal_input (cn_fed c @ [inp]) \<longleftrightarrow> legal_input (cn_fed c) \<and> snd inp \<noteq> Upgraded
      \<and> (\<exists>ph ph'. phases Idle (concat (map fst (cn_fed c))) = Some ph \<and> phases ph (fst inp) = Some ph')"
    by (cases inp) (auto simp: legal_input_def phases_append split: option.splits)
  show ?thesis
  proof (cases "sresponse_decode inp (cn_decoder c)")
    case None
    then have "\<not> legal_input (cn_fed c @ [inp])"
      using assms legal decode_legal by (auto simp: decoder_inv_def) fastforce
    then show ?thesis using None by (simp add: feed_def)
  next
    case (Some p)
    obtain d' rs where p: "p = (d', rs)" by (cases p)
    have "\<exists>ph. phases Idle (concat (map fst (cn_fed c @ [inp]))) = Some ph \<and> stream_inv ph d'" if "legal_input (cn_fed c @ [inp])"
      using that assms legal decode_legal Some p by (fastforce simp: decoder_inv_def phases_append)
    then show ?thesis
      using Some p piped_decode [of "cn_decoder c" inp d' rs] assms by (simp add: feed_def decoder_inv_def)
  qed
qed

definition checked :: "parser_input list + 'ip connection \<Rightarrow> bool" where
  "checked res = (case res of Inl f \<Rightarrow> \<not> legal_input f | Inr c \<Rightarrow> decoder_inv c)"

lemma decoder_inv_cong: "cn_decoder c' = cn_decoder c \<Longrightarrow> cn_fed c' = cn_fed c \<Longrightarrow> decoder_inv c' = decoder_inv c"
  by (simp add: decoder_inv_def)

lemma disconnect_checks: "decoder_inv c \<Longrightarrow> checked (connection_disconnect m eof c)"
proof -
  assume c: "decoder_inv c"
  have d: "decoder_inv ((fail_pipeline msg c1)\<lparr>cn_disconnected := True\<rparr>) = decoder_inv c1" for msg and c1 :: "'a connection"
    by (rule decoder_inv_cong) simp_all
  show ?thesis
    using feed_checks [OF c, of eof] c
    by (cases "feed eof c") (simp_all add: connection_disconnect_def checked_def d case_prod_beta)
qed

lemma process_checks:
  assumes "list_all (\<lambda>r. rs_type r = RespPipe \<and> rs_reader r \<noteq> None) rs"
  shows "\<exists>left c'. process_responses rs c = Inr (left, c') \<and> cn_decoder c' = cn_decoder c \<and> cn_fed c' = cn_fed c"
  using assms
proof (induction rs arbitrary: c)
  case (Cons r rs)
  have "convert_response r \<noteq> None" using Cons.prems by (simp add: convert_response_def)
  moreover have "cn_decoder (take_response r p ps y c) = cn_decoder c" "cn_fed (take_response r p ps y c) = cn_fed c" for p ps y
    by (simp_all add: take_response_def Let_def)
  moreover have "\<exists>left c'. process_responses rs (take_response r p ps y c) = Inr (left, c') \<and> cn_decoder c' = cn_decoder (take_response r p ps y c)
      \<and> cn_fed c' = cn_fed (take_response r p ps y c)" for p ps y
    using Cons by (intro Cons.IH) simp
  ultimately show ?case
    by (auto split: list.splits option.splits prod.splits)
qed auto

lemma after_checks: "decoder_inv c \<Longrightarrow> checked (after_responses data eof (left, c))"
proof -
  assume c: "decoder_inv c"
  then have "decoder_inv (c\<lparr>cn_reading := True\<rparr>)" by (simp add: decoder_inv_def)
  then show ?thesis
    using disconnect_checks [OF c] by (cases left; cases data) (auto simp: after_responses_def checked_def)
qed

lemma read_checks:
  assumes "decoder_inv c"
  shows "checked (connection_read data inp eof c)"
proof -
  let ?c = "c\<lparr>cn_reading := False\<rparr>"
  have c: "decoder_inv ?c" using assms by (simp add: decoder_inv_def)
  show ?thesis
  proof (cases "data = Received \<and> cn_pipeline c = [] \<and> \<not> writingBody (cn_decoder c)")
    case True
    then show ?thesis using disconnect_checks [OF c] by (simp add: connection_read_def)
  next
    case new: False
    show ?thesis
    proof (cases "feed inp ?c")
      case (Inl f)
      then show ?thesis using new feed_checks [OF c, of inp] by (auto simp: connection_read_def checked_def)
    next
      case (Inr p)
      obtain c1 rs where "p = (c1, rs)" by (cases p)
      with Inr have p: "feed inp ?c = Inr (c1, rs)" by simp
      then have "decoder_inv c1" "list_all (\<lambda>r. rs_type r = RespPipe \<and> rs_reader r \<noteq> None) rs" using feed_checks [OF c, of inp] by auto
      with process_checks [of rs "c1\<lparr>cn_decoded := cn_decoded c1 @ rs\<rparr>"]
      obtain left c2 where "process_responses rs (c1\<lparr>cn_decoded := cn_decoded c1 @ rs\<rparr>) = Inr (left, c2)" "decoder_inv c2"
        by (auto simp: decoder_inv_def)
      then show ?thesis using new p after_checks [of c2 data eof left] by (auto simp: connection_read_def)
    qed
  qed
qed

lemma step_checks:
  assumes "decoder_inv c"
  shows "checked (conn_step e c)"
proof (cases e)
  case (Send r st)
  then show ?thesis using assms by (auto simp: checked_def connection_send_def decoder_inv_def Let_def split: option.splits)
next
  case (ChainEnded f)
  then show ?thesis using assms by (auto simp: checked_def chain_ended_def decoder_inv_def split: option.splits list.splits)
next
  case (Read data inp eof)
  then show ?thesis using assms read_checks [OF assms, of data inp eof] by (simp add: checked_def)
next
  case (Disconnect m eof)
  then show ?thesis using disconnect_checks [OF assms] by simp
next
  case (Deferred eof)
  have "decoder_inv (c\<lparr>cn_deferred := ms\<rparr>)" for ms using assms by (simp add: decoder_inv_def)
  then have "checked (connection_disconnect m eof (c\<lparr>cn_deferred := ms\<rparr>))" for m ms by (rule disconnect_checks)
  then show ?thesis using Deferred assms by (cases "cn_deferred c") (simp_all add: checked_def)
qed

lemma run_checks: "decoder_inv c \<Longrightarrow> checked (conn_run es c)"
proof (induction es arbitrary: c)
  case (Cons e es)
  then show ?case using step_checks [of c e] by (cases "conn_step e c") (simp_all add: checked_def)
qed (simp add: checked_def)

lemma encode_accepted:
  assumes "send_refused r c = None"
  shows "request_encode E show_ip r rds \<noteq> None \<longleftrightarrow> domain (c_url r) \<noteq> None \<or> ip (c_url r) \<noteq> None"
proof -
  have "\<not> CaseInsensitiveEqual ''Content-Length'' ''Host''" "\<not> CaseInsensitiveEqual ''Content-Length'' ''Connection''" by code_simp+
  then have names: "headers_contains ''Content-Length'' (headers_set ''Host'' h hs) = headers_contains ''Content-Length'' hs"
      "headers_contains ''Content-Length'' (headers_set ''Connection'' h hs) = headers_contains ''Content-Length'' hs" for h hs
    by (simp_all add: headers_contains_def headers_get_set)
  have "request_host show_ip r \<noteq> None \<longleftrightarrow> domain (c_url r) \<noteq> None \<or> ip (c_url r) \<noteq> None"
    by (auto simp: request_host_def Let_def split: option.splits)
  moreover have "request_headers show_ip r \<noteq> None \<longleftrightarrow> request_host show_ip r \<noteq> None"
    using assms by (cases "request_host show_ip r") (simp_all add: request_headers_def names send_refused_def Let_def split: if_splits, blast)
  moreover have "request_encode E show_ip r rds \<noteq> None \<longleftrightarrow> request_headers show_ip r \<noteq> None"
    using assms by (cases "request_headers show_ip r"; cases "c_type r") (simp_all add: request_encode_def send_refused_def Let_def split: if_splits)
  ultimately show ?thesis by simp
qed

text \<open>
  As long as http-parser reports what it documents, no \<^verbatim>\<open>CHECK\<close> of the connection, of its decoder and of the conversion of responses fails. And the conditions under
  which \<^verbatim>\<open>send\<close> refuses a request are those under which \<^verbatim>\<open>encode\<close> would fail a \<^verbatim>\<open>CHECK\<close>, except that the URL must have a host.
\<close>

theorem connection_checks_hold:
  "(\<forall>fed. conn_run es connection_init = Inl fed \<longrightarrow> \<not> legal_input fed)
    \<and> (send_refused r c = None \<longrightarrow> (request_encode E show_ip r rds \<noteq> None \<longleftrightarrow> domain (c_url r) \<noteq> None \<or> ip (c_url r) \<noteq> None))"
proof -
  have "decoder_inv connection_init"
    by (simp add: decoder_inv_def connection_init_def piped_def stream_inv_def streaming_response_init_def)
  then show ?thesis
    using run_checks [of connection_init es] encode_accepted [of r c E show_ip rds] by (auto simp: checked_def)
qed

section \<open>Concrete runs\<close>

definition demo_client_request :: "nat client_request" where
  "demo_client_request = \<lparr>c_method = ''GET'', c_url = \<lparr>scheme = None, domain = Some ''h'', ip = None, port = None, path = ''/'', query = [], fragment = None\<rparr>,
     c_headers = [], c_keepAlive = True, c_type = ReqBody, c_body = [], c_reader = None\<rparr>"

text \<open>The beginning of a response; without a length its body ends with the connection.\<close>

definition demo_response :: "parser_call list" where
  "demo_response = [OnMessageBegin, OnStatus ''OK'', OnHeaderField ''A'', OnHeaderValue ''1'', OnHeadersComplete get_info, OnBody ''x'']"

definition demo_events :: "nat conn_event list" where
  "demo_events = [Send demo_client_request False, Send demo_client_request True, Send demo_client_request True, ChainEnded None, ChainEnded None,
     Read Received (demo_response @ [OnMessageComplete get_info] @ demo_response, AllParsed) ([], AllParsed),
     Read Eof ([OnMessageComplete get_info], AllParsed) ([], AllParsed)]"

theorem responses_match_requests_witness:
  "\<exists>c. conn_run demo_events connection_init = Inr c \<and> cn_disconnected c \<and> length (cn_accepted c) = 3 \<and> length (cn_replies c) = 3"
proof -
  have "(case conn_run demo_events connection_init of Inl _ \<Rightarrow> False | Inr c \<Rightarrow> cn_disconnected c \<and> length (cn_accepted c) = 3)" by code_simp
  then obtain c where "conn_run demo_events connection_init = Inr c" "cn_disconnected c" "length (cn_accepted c) = 3" by (auto split: sum.splits)
  with responses_match_requests [of demo_events c] show ?thesis by auto
qed

text \<open>
  The end of file can reach the decoder twice: \<^verbatim>\<open>disconnect\<close> sends it when a response is streamed, and then the shutdown ends the outstanding read. For a response
  whose body ends with the connection http-parser reports the end of the message each time.
\<close>

definition twice_eof :: "nat conn_event list" where
  "twice_eof = [Send demo_client_request True, ChainEnded None, Read Received (demo_response, AllParsed) ([], AllParsed),
     Disconnect None ([OnMessageComplete get_info], AllParsed), Read Eof ([OnMessageComplete get_info], AllParsed) ([], AllParsed)]"

lemma disconnect_while_streaming_aborts: "isl (conn_run twice_eof connection_init)"
  by code_simp

theorem connection_checks_hold_witness:
  "(\<exists>fed. conn_run twice_eof connection_init = Inl fed \<and> \<not> legal_input fed)
    \<and> request_encode ref_enc_libs dec demo_client_request [] \<noteq> None"
proof -
  obtain fed where "conn_run twice_eof connection_init = Inl fed"
    using disconnect_while_streaming_aborts by (cases "conn_run twice_eof connection_init") auto
  moreover have "send_refused demo_client_request connection_init = None" by code_simp
  moreover have "domain (c_url demo_client_request) \<noteq> None" by code_simp
  ultimately show ?thesis
    using connection_checks_hold [of twice_eof demo_client_request connection_init ref_enc_libs dec "[]"] by blast
qed

end
