(* ===== verification/Mpsc_Queue.thy ===== *)
theory Mpsc_Queue
  imports Processes
begin

text \<open>
  \<^verbatim>\<open>src/mpsc_linked_queue.hpp\<close>: the queue of many producers and one consumer behind the lock-free event queue. The nodes are cells of an explicit heap. A producer makes
  two atomic steps, the exchange of \<^verbatim>\<open>head\<close> and the link from the old head; between them any number of other steps may happen. The consumer makes one step for each
  atomic load; the writes at the end of \<^verbatim>\<open>dequeue\<close> are to nodes only it refers to, and are one step. Access to a deleted node is an error.
\<close>

section \<open>State\<close>

record 'a node =
  nd_element :: "'a option"
  nd_next :: "nat option"

datatype consumer = Resting | AppearsEmpty | Spinning | Got nat | Visiting nat nat

text \<open>
  \<open>mq_producers\<close>: the old head and the new node of each producer between its two steps. \<open>Visiting\<close>: inside \<^verbatim>\<open>for_each\<close>, with its \<^verbatim>\<open>end\<close> and \<^verbatim>\<open>node\<close>. Ghost: what was enqueued and dequeued,
  in order, what the last \<^verbatim>\<open>for_each\<close> has visited, and how many elements there were when it began.
\<close>

record 'a mpsc =
  mq_heap :: "nat \<rightharpoonup> 'a node"
  mq_fresh :: nat
  mq_head :: nat
  mq_tail :: nat
  mq_producers :: "(nat \<times> nat) list"
  mq_consumer :: consumer
  mq_enqueued :: "'a list"
  mq_dequeued :: "'a list"
  mq_visited :: "'a option list"
  mq_todo :: nat

definition mpsc_init :: "'a mpsc" where
  "mpsc_init = \<lparr>mq_heap = [0 \<mapsto> \<lparr>nd_element = None, nd_next = None\<rparr>], mq_fresh = 1, mq_head = 0, mq_tail = 0, mq_producers = [],
     mq_consumer = Resting, mq_enqueued = [], mq_dequeued = [], mq_visited = [], mq_todo = 0\<rparr>"

section \<open>Operations\<close>

definition enqueue_exchange :: "'a \<Rightarrow> 'a mpsc \<Rightarrow> 'a mpsc" where
  "enqueue_exchange e q = q\<lparr>mq_heap := (mq_heap q)(mq_fresh q \<mapsto> \<lparr>nd_element = Some e, nd_next = None\<rparr>), mq_fresh := Suc (mq_fresh q),
     mq_head := mq_fresh q, mq_producers := mq_producers q @ [(mq_head q, mq_fresh q)], mq_enqueued := mq_enqueued q @ [e]\<rparr>"

datatype mpsc_error = UseAfterFree | NullNode

definition enqueue_link :: "nat \<times> nat \<Rightarrow> 'a mpsc \<Rightarrow> mpsc_error + 'a mpsc" where
  "enqueue_link p q = (case mq_heap q (fst p) of
     None \<Rightarrow> Inl UseAfterFree
   | Some nd \<Rightarrow> Inr (q\<lparr>mq_heap := (mq_heap q)(fst p \<mapsto> nd\<lparr>nd_next := Some (snd p)\<rparr>), mq_producers := remove1 p (mq_producers q)\<rparr>))"

datatype 'a progress = Running | Returned "'a option"

text \<open>One step of \<^verbatim>\<open>dequeue\<close>.\<close>

definition dequeue_step :: "'a mpsc \<Rightarrow> mpsc_error + 'a mpsc \<times> 'a progress" where
  "dequeue_step q = (case mq_heap q (mq_tail q) of
     None \<Rightarrow> Inl UseAfterFree
   | Some t \<Rightarrow> (case mq_consumer q of
       Resting \<Rightarrow> Inr (q\<lparr>mq_consumer := (case nd_next t of None \<Rightarrow> AppearsEmpty | Some n \<Rightarrow> Got n)\<rparr>, Running)
     | AppearsEmpty \<Rightarrow>
         if mq_head q = mq_tail q then Inr (q\<lparr>mq_consumer := Resting\<rparr>, Returned None)
         else Inr (q\<lparr>mq_consumer := Spinning\<rparr>, Running)
     | Spinning \<Rightarrow> Inr (q\<lparr>mq_consumer := (case nd_next t of None \<Rightarrow> Spinning | Some n \<Rightarrow> Got n)\<rparr>, Running)
     | Got n \<Rightarrow> (case mq_heap q n of
         None \<Rightarrow> Inl UseAfterFree
       | Some nd \<Rightarrow> (case nd_element nd of
           None \<Rightarrow> Inl NullNode
         | Some e \<Rightarrow> Inr (q\<lparr>mq_heap := (mq_heap q)(n \<mapsto> nd\<lparr>nd_element := None\<rparr>, mq_tail q := None), mq_tail := n, mq_consumer := Resting,
             mq_dequeued := mq_dequeued q @ [e]\<rparr>, Returned (Some e))))
     | Visiting _ _ \<Rightarrow> Inr (q, Running)))"

definition mpsc_empty :: "'a mpsc \<Rightarrow> bool" where
  "mpsc_empty q = (map_option nd_next (mq_heap q (mq_tail q)) = Some None \<and> mq_head q = mq_tail q)"

text \<open>One step of \<^verbatim>\<open>for_each\<close>: its start, then one load of \<^verbatim>\<open>next\<close> in each step. True: it returns.\<close>

definition for_each_step :: "'a mpsc \<Rightarrow> mpsc_error + 'a mpsc \<times> bool" where
  "for_each_step q = (case mq_consumer q of
     Resting \<Rightarrow> Inr (q\<lparr>mq_consumer := Visiting (mq_head q) (mq_tail q), mq_visited := [], mq_todo := length (mq_enqueued q) - length (mq_dequeued q)\<rparr>, False)
   | Visiting end_node node \<Rightarrow> (case mq_heap q node of
       None \<Rightarrow> Inl UseAfterFree
     | Some nd \<Rightarrow> (case nd_next nd of
         None \<Rightarrow> Inr (q\<lparr>mq_consumer := Resting\<rparr>, True)
       | Some n \<Rightarrow> (case mq_heap q n of
           None \<Rightarrow> Inl UseAfterFree
         | Some nx \<Rightarrow> Inr (q\<lparr>mq_consumer := if n = end_node then Resting else Visiting end_node n, mq_visited := mq_visited q @ [nd_element nx]\<rparr>, n = end_node))))
   | _ \<Rightarrow> Inr (q, False))"

section \<open>Runs\<close>

datatype 'a mpsc_act = Exchange 'a | Link "nat \<times> nat" | Consume | Visit

text \<open>A producer links once, after its exchange.\<close>

fun mpsc_step :: "'a mpsc_act \<Rightarrow> 'a mpsc \<Rightarrow> mpsc_error + 'a mpsc" where
  "mpsc_step (Exchange e) q = Inr (enqueue_exchange e q)"
| "mpsc_step (Link p) q = (if p \<in> set (mq_producers q) then enqueue_link p q else Inr q)"
| "mpsc_step Consume q = map_sum id fst (dequeue_step q)"
| "mpsc_step Visit q = map_sum id fst (for_each_step q)"

fun mpsc_run :: "'a mpsc_act list \<Rightarrow> 'a mpsc \<Rightarrow> mpsc_error + 'a mpsc" where
  "mpsc_run [] q = Inr q"
| "mpsc_run (a # as) q = (case mpsc_step a q of Inl e \<Rightarrow> Inl e | Inr q' \<Rightarrow> mpsc_run as q')"

section \<open>The list behind the links\<close>

definition next_of :: "(nat \<rightharpoonup> 'a node) \<Rightarrow> nat \<Rightarrow> nat option" where
  "next_of h x = (case h x of None \<Rightarrow> None | Some nd \<Rightarrow> nd_next nd)"

definition element_of :: "(nat \<rightharpoonup> 'a node) \<Rightarrow> nat \<Rightarrow> 'a option" where
  "element_of h x = (case h x of None \<Rightarrow> None | Some nd \<Rightarrow> nd_element nd)"

text \<open>Each node is linked to the next one, unless the producer that will do so is still between its steps.\<close>

fun linked :: "(nat \<rightharpoonup> 'a node) \<Rightarrow> (nat \<times> nat) set \<Rightarrow> nat list \<Rightarrow> bool" where
  "linked h P [] = True"
| "linked h P [x] = (next_of h x = None)"
| "linked h P (x # y # r) = (next_of h x = (if (x, y) \<in> P then None else Some y) \<and> linked h P (y # r))"

definition consumer_ok :: "consumer \<Rightarrow> (nat \<times> nat) set \<Rightarrow> nat list \<Rightarrow> bool" where
  "consumer_ok c P order = (case c of
     Got n \<Rightarrow> (\<exists>r. order = hd order # n # r) \<and> (hd order, n) \<notin> P
   | Spinning \<Rightarrow> length order > 1
   | _ \<Rightarrow> True)"

text \<open>\<^verbatim>\<open>for_each\<close> is at the node \<open>k\<close> and has visited the elements before it; its end is the last node of when it began.\<close>

definition visit_ok :: "nat list \<Rightarrow> 'a mpsc \<Rightarrow> bool" where
  "visit_ok order q = (\<forall>e x. mq_consumer q = Visiting e x \<longrightarrow>
     (\<exists>k < length order. order ! k = x \<and> mq_todo q < length order \<and> e = order ! mq_todo q \<and> (mq_todo q = 0 \<or> k < mq_todo q)
       \<and> mq_visited q = map (element_of (mq_heap q)) (take k (tl order))))"

definition mpsc_inv :: "nat list \<Rightarrow> 'a mpsc \<Rightarrow> bool" where
  "mpsc_inv order q = (order \<noteq> [] \<and> distinct order \<and> hd order = mq_tail q \<and> last order = mq_head q \<and> dom (mq_heap q) = set order
    \<and> list_all (\<lambda>x. x < mq_fresh q) order \<and> distinct (mq_producers q) \<and> set (mq_producers q) \<subseteq> set (zip order (tl order))
    \<and> linked (mq_heap q) (set (mq_producers q)) order \<and> consumer_ok (mq_consumer q) (set (mq_producers q)) order \<and> visit_ok order q
    \<and> (\<exists>contents. map (element_of (mq_heap q)) (tl order) = map Some contents \<and> mq_enqueued q = mq_dequeued q @ contents))"

lemma linked_cong:
  assumes "\<And>x. x \<in> set xs \<Longrightarrow> next_of h' x = next_of h x" and "\<And>x y. (x, y) \<in> set (zip xs (tl xs)) \<Longrightarrow> (x, y) \<in> P' \<longleftrightarrow> (x, y) \<in> P"
  shows "linked h' P' xs = linked h P xs"
  using assms by (induction h P xs rule: linked.induct) auto

lemma zip_tl_in: "(x, y) \<in> set (zip xs (tl xs)) \<Longrightarrow> x \<in> set xs \<and> y \<in> set (tl xs)"
  by (auto dest: set_zip_leftD set_zip_rightD)

lemma linked_snoc:
  assumes "linked h P xs" and "xs \<noteq> []" and "n \<notin> set xs" and "next_of h n = None"
  shows "linked h (insert (last xs, n) P) (xs @ [n])"
  using assms
proof (induction h P xs rule: linked.induct)
  case (3 h P x y r)
  then show ?case by auto
qed auto

lemma zip_tl_snoc: "xs \<noteq> [] \<Longrightarrow> set (zip (xs @ [n]) (tl (xs @ [n]))) = insert (last xs, n) (set (zip xs (tl xs)))"
proof (induction xs)
  case (Cons x xs)
  then show ?case by (cases xs) auto
qed simp

lemma linked_link:
  assumes "linked h P xs" and "distinct xs" and "(a, b) \<in> set (zip xs (tl xs))" and "h a = Some nd"
  shows "linked (h(a \<mapsto> nd\<lparr>nd_next := Some b\<rparr>)) (P - {(a, b)}) xs"
  using assms
proof (induction h P xs rule: linked.induct)
  case (3 h P x y r)
  show ?case
  proof (cases "x = a")
    case True
    then have "y = b" using "3.prems" by (auto dest: set_zip_leftD)
    moreover have "linked (h(a \<mapsto> nd\<lparr>nd_next := Some b\<rparr>)) (P - {(a, b)}) (y # r) = linked h P (y # r)"
      using "3.prems"(2) True by (intro linked_cong) (auto simp: next_of_def dest: set_zip_leftD)
    moreover have "next_of (h(a \<mapsto> nd\<lparr>nd_next := Some b\<rparr>)) x = Some b" using True by (simp add: next_of_def)
    ultimately show ?thesis using "3.prems"(1) True unfolding linked.simps(3) by (metis Diff_iff insertI1)
  next
    case False
    then show ?thesis using 3 by (auto simp: next_of_def)
  qed
qed auto

section \<open>Steps keep it\<close>

lemma mpsc_exchange_inv:
  assumes "mpsc_inv order q"
  shows "mpsc_inv (order @ [mq_fresh q]) (enqueue_exchange e q)"
proof -
  let ?n = "mq_fresh q" and ?nd = "\<lparr>nd_element = Some e, nd_next = None\<rparr>"
  have o: "order \<noteq> []" "hd order = mq_tail q" "last order = mq_head q" "dom (mq_heap q) = set order" "distinct order"
    "set (mq_producers q) \<subseteq> set (zip order (tl order))" "linked (mq_heap q) (set (mq_producers q)) order"
    using assms by (auto simp: mpsc_inv_def)
  have fresh: "?n \<notin> set order" using assms by (auto simp: mpsc_inv_def list_all_iff)
  have "linked ((mq_heap q)(?n \<mapsto> ?nd)) (set (mq_producers q)) order"
    using o(7) fresh by (subst linked_cong [where h = "mq_heap q" and P = "set (mq_producers q)"]) (auto simp: next_of_def)
  then have "linked ((mq_heap q)(?n \<mapsto> ?nd)) (insert (mq_head q, ?n) (set (mq_producers q))) (order @ [?n])"
    using linked_snoc [of "(mq_heap q)(?n \<mapsto> ?nd)" "set (mq_producers q)" order ?n] o fresh by (simp add: next_of_def)
  moreover have "map (element_of ((mq_heap q)(?n \<mapsto> ?nd))) (tl order) = map (element_of (mq_heap q)) (tl order)"
    using fresh o(1) by (auto simp: element_of_def dest: list.set_sel(2))
  moreover have "(mq_head q, ?n) \<notin> set (mq_producers q)" using o(1,6) fresh zip_tl_in [of "mq_head q" ?n order] by (auto dest: list.set_sel(2))
  moreover have "consumer_ok (mq_consumer q) (insert (mq_head q, ?n) (set (mq_producers q))) (order @ [?n])"
    using assms fresh by (cases order) (auto simp: mpsc_inv_def consumer_ok_def split: consumer.splits)
  moreover have "visit_ok (order @ [?n]) (enqueue_exchange e q)"
    unfolding visit_ok_def
  proof (intro allI impI)
    fix d x
    assume "mq_consumer (enqueue_exchange e q) = Visiting d x"
    then obtain k where k: "k < length order" "order ! k = x" "mq_todo q < length order" "d = order ! mq_todo q" "mq_todo q = 0 \<or> k < mq_todo q"
        "mq_visited q = map (element_of (mq_heap q)) (take k (tl order))"
      using assms by (auto simp: mpsc_inv_def visit_ok_def enqueue_exchange_def)
    have t: "take k (tl (order @ [?n])) = take k (tl order)" using o(1) k(1) by (cases order) auto
    have "map (element_of ((mq_heap q)(?n \<mapsto> ?nd))) (take k (tl order)) = map (element_of (mq_heap q)) (take k (tl order))"
      using fresh o(1) by (auto simp: element_of_def dest!: in_set_takeD list.set_sel(2))
    then show "\<exists>k < length (order @ [?n]). (order @ [?n]) ! k = x \<and> mq_todo (enqueue_exchange e q) < length (order @ [?n]) \<and> d = (order @ [?n]) ! mq_todo (enqueue_exchange e q)
        \<and> (mq_todo (enqueue_exchange e q) = 0 \<or> k < mq_todo (enqueue_exchange e q))
        \<and> mq_visited (enqueue_exchange e q) = map (element_of (mq_heap (enqueue_exchange e q))) (take k (tl (order @ [?n])))"
      using k t by (intro exI [of _ k]) (simp add: enqueue_exchange_def nth_append)
  qed
  moreover have "element_of ((mq_heap q)(?n \<mapsto> ?nd)) ?n = Some e" by (simp add: element_of_def)
  moreover obtain contents where "map (element_of (mq_heap q)) (tl order) = map Some contents" "mq_enqueued q = mq_dequeued q @ contents"
    using assms by (auto simp: mpsc_inv_def)
  ultimately have "map (element_of ((mq_heap q)(?n \<mapsto> ?nd))) (tl (order @ [?n])) = map Some (contents @ [e])"
      "mq_enqueued q @ [e] = mq_dequeued q @ contents @ [e]"
      and rest: "linked ((mq_heap q)(?n \<mapsto> ?nd)) (insert (mq_head q, ?n) (set (mq_producers q))) (order @ [?n])" "(mq_head q, ?n) \<notin> set (mq_producers q)"
      "consumer_ok (mq_consumer q) (insert (mq_head q, ?n) (set (mq_producers q))) (order @ [?n])" "visit_ok (order @ [?n]) (enqueue_exchange e q)"
    using o(1) by auto
  then have "\<exists>contents. map (element_of ((mq_heap q)(?n \<mapsto> ?nd))) (tl (order @ [?n])) = map Some contents \<and> mq_enqueued q @ [e] = mq_dequeued q @ contents"
    by blast
  moreover have "mq_enqueued (enqueue_exchange e q) = mq_enqueued q @ [e]" "mq_dequeued (enqueue_exchange e q) = mq_dequeued q"
      "mq_heap (enqueue_exchange e q) = (mq_heap q)(?n \<mapsto> ?nd)" "mq_tail (enqueue_exchange e q) = mq_tail q" "mq_head (enqueue_exchange e q) = ?n"
      "mq_producers (enqueue_exchange e q) = mq_producers q @ [(mq_head q, ?n)]" "mq_consumer (enqueue_exchange e q) = mq_consumer q" "mq_fresh (enqueue_exchange e q) = Suc ?n"
    by (simp_all add: enqueue_exchange_def)
  ultimately show ?thesis
    using assms o zip_tl_snoc [OF o(1), of ?n] fresh rest
    by (auto simp: mpsc_inv_def list_all_iff less_Suc_eq)
qed

lemma mpsc_link_inv:
  assumes "mpsc_inv order q" and "p \<in> set (mq_producers q)"
  shows "\<exists>q'. enqueue_link p q = Inr q' \<and> mpsc_inv order q' \<and> mq_dequeued q' = mq_dequeued q \<and> mq_enqueued q' = mq_enqueued q"
proof -
  obtain a b where p: "p = (a, b)" by (cases p)
  have o: "dom (mq_heap q) = set order" "distinct order" "(a, b) \<in> set (zip order (tl order))" "linked (mq_heap q) (set (mq_producers q)) order"
    "distinct (mq_producers q)"
    using assms p by (auto simp: mpsc_inv_def)
  then obtain nd where nd: "mq_heap q a = Some nd" using zip_tl_in [of a b order] by blast
  let ?h = "(mq_heap q)(a \<mapsto> nd\<lparr>nd_next := Some b\<rparr>)"
  have "linked ?h (set (mq_producers q) - {(a, b)}) order" using linked_link [OF o(4,2,3) nd] .
  moreover have "element_of ?h = element_of (mq_heap q)" using nd by (auto simp: element_of_def fun_eq_iff)
  moreover have "consumer_ok (mq_consumer q) (set (mq_producers q) - {(a, b)}) order"
    using assms(1) by (auto simp: mpsc_inv_def consumer_ok_def split: consumer.splits)
  moreover have "a \<in> set order" using o(3) zip_tl_in by fastforce
  ultimately show ?thesis
    using assms(1) p nd o(5) by (auto simp: enqueue_link_def mpsc_inv_def visit_ok_def)
qed

lemma mpsc_finish_inv:
  assumes "mpsc_inv (t # n # r) q" and "mq_consumer q = Got n" and "(t, n) \<notin> set (mq_producers q)"
  shows "\<exists>e rest q'. dequeue_step q = Inr (q', Returned (Some e)) \<and> mpsc_inv (n # r) q' \<and> mq_enqueued q = mq_dequeued q @ e # rest
    \<and> mq_dequeued q' = mq_dequeued q @ [e] \<and> mq_enqueued q' = mq_enqueued q"
proof -
  have o: "dom (mq_heap q) = {t, n} \<union> set r" "distinct (t # n # r)" "mq_tail q = t" "linked (mq_heap q) (set (mq_producers q)) (n # r)"
    "set (mq_producers q) \<subseteq> set (zip (t # n # r) (n # r))"
    using assms(1) by (auto simp: mpsc_inv_def)
  obtain e rest where c: "element_of (mq_heap q) n = Some e" "map (element_of (mq_heap q)) r = map Some rest" "mq_enqueued q = mq_dequeued q @ e # rest"
    using assms(1) by (auto simp: mpsc_inv_def map_eq_Cons_conv)
  obtain nd td where nd: "mq_heap q n = Some nd" "mq_heap q t = Some td" using o(1) by blast
  then have el: "nd_element nd = Some e" using c(1) by (simp add: element_of_def)
  let ?h = "(mq_heap q)(n \<mapsto> nd\<lparr>nd_element := None\<rparr>, t := None)"
  have "linked ?h (set (mq_producers q)) (n # r)"
    using o nd by (subst linked_cong [where h = "mq_heap q" and P = "set (mq_producers q)"]) (auto simp: next_of_def)
  moreover have "map (element_of ?h) r = map (element_of (mq_heap q)) r" using o(2) by (auto simp: element_of_def)
  moreover have "set (mq_producers q) \<subseteq> set (zip (n # r) r)" using o(5) assms(3) by auto
  moreover have "dom ?h = set (n # r)" using o(1,2) by auto
  ultimately have "mpsc_inv (n # r) (q\<lparr>mq_heap := ?h, mq_tail := n, mq_consumer := Resting, mq_dequeued := mq_dequeued q @ [e]\<rparr>)"
    using assms(1) c by (auto simp: mpsc_inv_def consumer_ok_def visit_ok_def)
  then show ?thesis
    using assms(2) nd el o(3) c(3) by (auto simp: dequeue_step_def)
qed

lemma inv_consumer:
  assumes "mpsc_inv order q" and "consumer_ok c (set (mq_producers q)) order" and "\<And>e x. c \<noteq> Visiting e x"
  shows "mpsc_inv order (q\<lparr>mq_consumer := c\<rparr>)"
  using assms by (auto simp: mpsc_inv_def visit_ok_def)

lemma load_next:
  assumes "mpsc_inv order q" and "mq_heap q (mq_tail q) = Some t"
  shows "nd_next t = Some n \<Longrightarrow> consumer_ok (Got n) (set (mq_producers q)) order"
    and "nd_next t = None \<Longrightarrow> length order > 1 \<Longrightarrow> \<exists>n. (mq_tail q, n) \<in> set (mq_producers q)"
proof -
  have t: "next_of (mq_heap q) (hd order) = nd_next t" using assms by (auto simp: mpsc_inv_def next_of_def)
  have l: "linked (mq_heap q) (set (mq_producers q)) order" "order \<noteq> []" "hd order = mq_tail q" using assms(1) by (auto simp: mpsc_inv_def)
  obtain x rest where x: "order = x # rest" using l(2) by (cases order) auto
  show "nd_next t = Some n \<Longrightarrow> consumer_ok (Got n) (set (mq_producers q)) order"
    using t l x by (cases rest) (auto simp: consumer_ok_def split: if_splits)
  show "nd_next t = None \<Longrightarrow> length order > 1 \<Longrightarrow> \<exists>n. (mq_tail q, n) \<in> set (mq_producers q)"
    using t l x by (cases rest) (auto split: if_splits)
qed

text \<open>What one step of the consumer does to the queue.\<close>

definition consumed :: "'a mpsc \<Rightarrow> mpsc_error + 'a mpsc \<times> 'a progress \<Rightarrow> bool" where
  "consumed q res = (case res of
     Inl _ \<Rightarrow> False
   | Inr (q', r) \<Rightarrow> mq_enqueued q' = mq_enqueued q \<and> (case r of
       Running \<Rightarrow> mq_dequeued q' = mq_dequeued q
     | Returned None \<Rightarrow> mq_dequeued q' = mq_dequeued q \<and> mq_enqueued q = mq_dequeued q
     | Returned (Some e) \<Rightarrow> mq_dequeued q' = mq_dequeued q @ [e] \<and> (\<exists>rest. mq_enqueued q = mq_dequeued q @ e # rest)))"

lemma inv_tail: "mpsc_inv order q \<Longrightarrow> \<exists>t. mq_heap q (mq_tail q) = Some t"
  by (cases order) (auto simp: mpsc_inv_def)

lemma head_is_tail: "mpsc_inv order q \<Longrightarrow> mq_head q = mq_tail q \<longleftrightarrow> order = [mq_tail q]"
  by (cases order) (auto simp: mpsc_inv_def split: if_split_asm dest: last_in_set)

lemma inv_empty: "mpsc_inv [x] q \<Longrightarrow> mq_enqueued q = mq_dequeued q"
  by (simp add: mpsc_inv_def)

lemma mpsc_dequeue_inv:
  assumes "mpsc_inv order q"
  shows "consumed q (dequeue_step q) \<and> (\<forall>q' r. dequeue_step q = Inr (q', r) \<longrightarrow> (\<exists>order'. mpsc_inv order' q'))"
proof -
  obtain t where t: "mq_heap q (mq_tail q) = Some t" using inv_tail [OF assms] by blast
  have ne: "order \<noteq> []" using assms by (simp add: mpsc_inv_def)
  show ?thesis
  proof (cases "mq_consumer q")
    case Resting
    have "consumer_ok (case nd_next t of None \<Rightarrow> AppearsEmpty | Some n \<Rightarrow> Got n) (set (mq_producers q)) order"
      using load_next(1) [OF assms t] by (auto simp: consumer_ok_def split: option.splits)
    then show ?thesis using inv_consumer [OF assms] t Resting by (cases "nd_next t") (auto simp: dequeue_step_def consumed_def)
  next
    case AppearsEmpty
    show ?thesis
    proof (cases "mq_head q = mq_tail q")
      case True
      then have "mpsc_inv [mq_tail q] q" using head_is_tail [OF assms] assms by simp
      then show ?thesis using inv_empty inv_consumer [of "[mq_tail q]" q Resting] True AppearsEmpty t by (auto simp: dequeue_step_def consumed_def consumer_ok_def)
    next
      case False
      then have "length order > 1" using assms ne by (cases order; cases "tl order") (auto simp: mpsc_inv_def)
      then show ?thesis using inv_consumer [OF assms, of Spinning] False AppearsEmpty t by (auto simp: dequeue_step_def consumed_def consumer_ok_def)
    qed
  next
    case Spinning
    then have "length order > 1" using assms by (simp add: mpsc_inv_def consumer_ok_def)
    then have "consumer_ok (case nd_next t of None \<Rightarrow> Spinning | Some n \<Rightarrow> Got n) (set (mq_producers q)) order"
      using load_next(1) [OF assms t] by (auto simp: consumer_ok_def split: option.splits)
    then show ?thesis using inv_consumer [OF assms] t Spinning by (cases "nd_next t") (auto simp: dequeue_step_def consumed_def)
  next
    case (Got n)
    then obtain r where r: "order = mq_tail q # n # r" "(mq_tail q, n) \<notin> set (mq_producers q)"
      using assms by (auto simp: mpsc_inv_def consumer_ok_def)
    then show ?thesis using mpsc_finish_inv [of "mq_tail q" n r q] assms Got by (fastforce simp: consumed_def)
  next
    case (Visiting e x)
    then show ?thesis using assms t by (auto simp: dequeue_step_def consumed_def)
  qed
qed

text \<open>What one step of \<^verbatim>\<open>for_each\<close> has visited, and when it returns: at the last element of when it began, at the end of the queue, or before an element whose producer is between its two steps.\<close>

definition iterated :: "'a mpsc \<Rightarrow> mpsc_error + 'a mpsc \<times> bool \<Rightarrow> bool" where
  "iterated q res = (case res of
     Inl _ \<Rightarrow> False
   | Inr (q', returns) \<Rightarrow> mq_enqueued q' = mq_enqueued q \<and> mq_dequeued q' = mq_dequeued q
       \<and> (\<forall>e x. mq_consumer q = Visiting e x \<longrightarrow> (\<exists>k. let contents = drop (length (mq_dequeued q)) (mq_enqueued q) in
           mq_visited q' = map Some (take k contents) \<and> k \<le> length contents \<and> (mq_todo q > 0 \<longrightarrow> k \<le> mq_todo q)
           \<and> (if returns then k = mq_todo q \<and> k > 0 \<or> k = length contents \<or> (\<exists>n. (x, n) \<in> set (mq_producers q) \<and> element_of (mq_heap q) n = Some (contents ! k))
              else k = Suc (length (mq_visited q))))))"

lemma iteratedI:
  assumes "mq_consumer q = Visiting e x" and "mq_enqueued q = mq_dequeued q @ contents" and "mq_enqueued q' = mq_enqueued q" and "mq_dequeued q' = mq_dequeued q"
    and "mq_visited q' = map Some (take k contents)" and "k \<le> length contents" and "mq_todo q > 0 \<longrightarrow> k \<le> mq_todo q"
    and "if returns then k = mq_todo q \<and> k > 0 \<or> k = length contents \<or> (\<exists>n. (x, n) \<in> set (mq_producers q) \<and> element_of (mq_heap q) n = Some (contents ! k))
         else k = Suc (length (mq_visited q))"
  shows "iterated q (Inr (q', returns))"
proof -
  have "drop (length (mq_dequeued q)) (mq_enqueued q) = contents" using assms(2) by simp
  then show ?thesis unfolding iterated_def using assms by (simp add: Let_def) (rule exI [of _ k], cases returns, auto)
qed

lemma linked_nth: "linked h P xs \<Longrightarrow> k < length xs \<Longrightarrow> next_of h (xs ! k) = (if Suc k < length xs \<and> (xs ! k, xs ! Suc k) \<notin> P then Some (xs ! Suc k) else None)"
proof (induction h P xs arbitrary: k rule: linked.induct)
  case (3 h P x y r)
  then show ?case by (cases k) auto
qed auto

lemma visiting_step:
  assumes inv: "mpsc_inv order q" and c: "mq_consumer q = Visiting e x"
  shows "iterated q (for_each_step q) \<and> (\<forall>q' r. for_each_step q = Inr (q', r) \<longrightarrow> (\<exists>order'. mpsc_inv order' q'))"
proof -
  obtain k where k: "k < length order" "order ! k = x" "mq_todo q < length order" "e = order ! mq_todo q" "mq_todo q = 0 \<or> k < mq_todo q"
      "mq_visited q = map (element_of (mq_heap q)) (take k (tl order))"
    using inv c by (auto simp: mpsc_inv_def visit_ok_def)
  obtain contents where m: "map (element_of (mq_heap q)) (tl order) = map Some contents" "mq_enqueued q = mq_dequeued q @ contents" using inv by (auto simp: mpsc_inv_def)
  have o: "order \<noteq> []" "dom (mq_heap q) = set order" "distinct order" using inv by (auto simp: mpsc_inv_def)
  have len: "length order = Suc (length contents)" using arg_cong [OF m(1), of length] o(1) by (cases order) auto
  have vis: "mq_visited q = map Some (take k contents)" using k(6) m(1) by (metis take_map)
  have at: "order ! Suc i = tl order ! i" "i < length contents \<Longrightarrow> element_of (mq_heap q) (order ! Suc i) = Some (contents ! i)" for i
  proof -
    show "order ! Suc i = tl order ! i" using o(1) by (cases order) auto
    moreover assume "i < length contents"
    ultimately show "element_of (mq_heap q) (order ! Suc i) = Some (contents ! i)" using arg_cong [OF m(1), of "\<lambda>xs. xs ! i"] len by simp
  qed
  have in_heap: "\<exists>nd. mq_heap q (order ! i) = Some nd" if "i < length order" for i using nth_mem [OF that] o(2) by (metis domD)
  obtain nd where nd: "mq_heap q x = Some nd" using in_heap [OF k(1)] k(2) by blast
  have nx: "nd_next nd = (if Suc k < length order \<and> (x, order ! Suc k) \<notin> set (mq_producers q) then Some (order ! Suc k) else None)"
    using linked_nth [of "mq_heap q" "set (mq_producers q)" order k] inv k(1,2) nd by (simp add: mpsc_inv_def next_of_def)
  show ?thesis
  proof (cases "Suc k < length order \<and> (x, order ! Suc k) \<notin> set (mq_producers q)")
    case False
    then have "k = length contents \<or> (\<exists>n. (x, n) \<in> set (mq_producers q) \<and> element_of (mq_heap q) n = Some (contents ! k))"
      using k(1) len at(2) [of k] False by (cases "k = length contents") (auto intro!: exI [of _ "order ! Suc k"])
    moreover have "mpsc_inv order (q\<lparr>mq_consumer := Resting\<rparr>)" using inv_consumer [OF inv, of Resting] by (simp add: consumer_ok_def)
    moreover have "for_each_step q = Inr (q\<lparr>mq_consumer := Resting\<rparr>, True)" using c nd nx False by (simp add: for_each_step_def)
    moreover have "k \<le> length contents" "mq_todo q > 0 \<longrightarrow> k \<le> mq_todo q" using k(1,5) len by auto
    ultimately have "iterated q (Inr (q\<lparr>mq_consumer := Resting\<rparr>, True))" "mpsc_inv order (q\<lparr>mq_consumer := Resting\<rparr>)" and
      "for_each_step q = Inr (q\<lparr>mq_consumer := Resting\<rparr>, True)" using iteratedI [OF c m(2), where k = k] vis by simp_all
    then show ?thesis by auto
  next
    case True
    let ?n = "order ! Suc k"
    obtain nxd where nxd: "mq_heap q ?n = Some nxd" using in_heap [of "Suc k"] True by blast
    then have el: "nd_element nxd = Some (contents ! k)" using at(2) [of k] True len by (simp add: element_of_def)
    have e: "?n = e \<longleftrightarrow> Suc k = mq_todo q" using k(3,4) True o(3) by (simp add: nth_eq_iff_index_eq)
    let ?q = "q\<lparr>mq_consumer := if ?n = e then Resting else Visiting e ?n, mq_visited := mq_visited q @ [nd_element nxd]\<rparr>"
    have step: "for_each_step q = Inr (?q, ?n = e)" using c nd nx True nxd by (simp add: for_each_step_def)
    have tk: "map Some (take (Suc k) contents) = mq_visited q @ [nd_element nxd]" using vis el True len by (simp add: take_Suc_conv_app_nth)
    have "map (element_of (mq_heap q)) (take (Suc k) (tl order)) = mq_visited q @ [nd_element nxd]" using tk m(1) by (metis take_map)
    then have "visit_ok order ?q"
      using k(3,4,5) True e unfolding visit_ok_def by (auto intro!: exI [of _ "Suc k"])
    then have "mpsc_inv order ?q" using inv by (auto simp: mpsc_inv_def consumer_ok_def)
    moreover have "iterated q (Inr (?q, ?n = e))"
      using tk vis k(5) True len e by (intro iteratedI [OF c m(2), where k = "Suc k"]) auto
    ultimately show ?thesis using step by auto
  qed
qed

lemma for_each_inv:
  assumes inv: "mpsc_inv order q"
  shows "iterated q (for_each_step q) \<and> (\<forall>q' r. for_each_step q = Inr (q', r) \<longrightarrow> (\<exists>order'. mpsc_inv order' q'))"
proof (cases "mq_consumer q")
  case Resting
  obtain contents where m: "map (element_of (mq_heap q)) (tl order) = map Some contents" "mq_enqueued q = mq_dequeued q @ contents" using inv by (auto simp: mpsc_inv_def)
  have o: "order \<noteq> []" "hd order = mq_tail q" "last order = mq_head q" using inv by (auto simp: mpsc_inv_def)
  have len: "length order = Suc (length contents)" using arg_cong [OF m(1), of length] o(1) by (cases order) auto
  let ?q = "q\<lparr>mq_consumer := Visiting (mq_head q) (mq_tail q), mq_visited := [], mq_todo := length (mq_enqueued q) - length (mq_dequeued q)\<rparr>"
  have "visit_ok order ?q" using o m(2) len unfolding visit_ok_def by (auto simp: hd_conv_nth last_conv_nth intro!: exI [of _ 0])
  then have "mpsc_inv order ?q" using inv by (auto simp: mpsc_inv_def consumer_ok_def)
  then show ?thesis using Resting by (auto simp: for_each_step_def iterated_def)
next
  case (Visiting e x)
  then show ?thesis using visiting_step [OF inv] by simp
qed (use inv in \<open>auto simp: for_each_step_def iterated_def\<close>)

lemma mpsc_step_inv:
  assumes "mpsc_inv order q"
  shows "\<exists>order' q'. mpsc_step a q = Inr q' \<and> mpsc_inv order' q'"
proof (cases a)
  case (Exchange e)
  then show ?thesis using mpsc_exchange_inv [OF assms] by auto
next
  case (Link p)
  then show ?thesis using mpsc_link_inv [OF assms, of p] assms by (cases "p \<in> set (mq_producers q)") auto
next
  case Consume
  then show ?thesis using mpsc_dequeue_inv [OF assms] by (cases "dequeue_step q") (auto simp: consumed_def)
next
  case Visit
  then show ?thesis using for_each_inv [OF assms] by (cases "for_each_step q") (auto simp: iterated_def)
qed

lemma mpsc_run_inv: "mpsc_inv order q \<Longrightarrow> \<exists>order' q'. mpsc_run as q = Inr q' \<and> mpsc_inv order' q'"
proof (induction as arbitrary: order q)
  case (Cons a as)
  obtain order1 q1 where "mpsc_step a q = Inr q1" "mpsc_inv order1 q1" using mpsc_step_inv [OF Cons.prems] by blast
  then show ?case using Cons.IH by fastforce
qed auto

lemma mpsc_init_inv: "mpsc_inv [0] mpsc_init"
  by (simp add: mpsc_inv_def mpsc_init_def consumer_ok_def next_of_def visit_ok_def)

text \<open>C37.
  The linked queue implements a first-in first-out queue under every interleaving of its producers and its consumer. No step follows a deleted node or dereferences null;
  elements are dequeued in the order of the exchanges, each once; \<^verbatim>\<open>dequeue\<close> returns null, and \<^verbatim>\<open>empty\<close> true, only when everything enqueued has been dequeued;
  a consumer only spins while a producer is between its two steps; and \<^verbatim>\<open>for_each\<close>, each of whose loads may come after any steps of producers, visits the contents from the front without a gap,
  no more than there were when it began if there were any, and returns only after the last of these, at the end of the queue, or when the very next element belongs to a producer that has
  not linked it yet.
\<close>

theorem mpsc_refines_fifo:
  "\<exists>q. mpsc_run as mpsc_init = Inr q \<and> consumed q (dequeue_step q)
    \<and> (\<exists>rest. mq_enqueued q = mq_dequeued q @ rest)
    \<and> (mpsc_empty q \<longleftrightarrow> mq_enqueued q = mq_dequeued q)
    \<and> iterated q (for_each_step q)
    \<and> (\<forall>q' r. mq_consumer q = Spinning \<longrightarrow> dequeue_step q = Inr (q', r) \<longrightarrow> mq_consumer q' = Spinning \<longrightarrow> (\<exists>n. (mq_tail q, n) \<in> set (mq_producers q)))"
proof -
  obtain order q where q: "mpsc_run as mpsc_init = Inr q" "mpsc_inv order q" using mpsc_run_inv [OF mpsc_init_inv] by blast
  obtain t where t: "mq_heap q (mq_tail q) = Some t" using inv_tail [OF q(2)] by blast
  have spin: "\<exists>n. (mq_tail q, n) \<in> set (mq_producers q)" if "mq_consumer q = Spinning" "dequeue_step q = Inr (q', r)" "mq_consumer q' = Spinning" for q' r
  proof -
    have "nd_next t = None" using that t by (auto simp: dequeue_step_def split: option.splits)
    moreover have "length order > 1" using q(2) that(1) by (simp add: mpsc_inv_def consumer_ok_def)
    ultimately show ?thesis using load_next(2) [OF q(2) t] by simp
  qed
  have "mq_enqueued q = mq_dequeued q \<Longrightarrow> order = [mq_tail q]" using q(2) by (cases order) (auto simp: mpsc_inv_def)
  moreover have "mpsc_empty q \<longleftrightarrow> order = [mq_tail q]"
    using q(2) t head_is_tail [OF q(2)] by (auto simp: mpsc_empty_def mpsc_inv_def next_of_def)
  moreover have "order = [mq_tail q] \<Longrightarrow> mq_enqueued q = mq_dequeued q" using q(2) inv_empty [of "mq_tail q" q] by simp
  moreover have "\<exists>rest. mq_enqueued q = mq_dequeued q @ rest" using q(2) by (auto simp: mpsc_inv_def)
  ultimately show ?thesis
    using q(1) mpsc_dequeue_inv [OF q(2)] spin for_each_inv [OF q(2)] by blast
qed

theorem mpsc_refines_fifo_witness:
  "\<exists>q n. mpsc_run [Exchange (7 :: nat), Consume, Consume] mpsc_init = Inr q \<and> mq_consumer q = Spinning \<and> (mq_tail q, n) \<in> set (mq_producers q)"
proof -
  define as where "as = [Exchange (7 :: nat), Consume, Consume]"
  obtain q where q: "mpsc_run as mpsc_init = Inr q" "mq_consumer q = Spinning" "\<exists>q' r. dequeue_step q = Inr (q', r) \<and> mq_consumer q' = Spinning"
    unfolding as_def by (simp add: mpsc_init_def enqueue_exchange_def dequeue_step_def)
  have "\<exists>q. mpsc_run as mpsc_init = Inr q \<and> (\<forall>q' r. mq_consumer q = Spinning \<longrightarrow> dequeue_step q = Inr (q', r) \<longrightarrow> mq_consumer q' = Spinning
      \<longrightarrow> (\<exists>n. (mq_tail q, n) \<in> set (mq_producers q)))"
    using mpsc_refines_fifo [of as] by blast
  then show ?thesis using q unfolding as_def by auto
qed

text \<open>A \<^verbatim>\<open>for_each\<close> that begins on an empty queue never meets its end and visits elements that came later.\<close>

lemma for_each_passes_its_end:
  "\<exists>q. mpsc_run [Visit, Exchange (7 :: nat), Link (0, 1), Visit] mpsc_init = Inr q \<and> mq_todo q = 0 \<and> mq_visited q = [Some 7]"
  by (simp add: mpsc_init_def enqueue_exchange_def enqueue_link_def for_each_step_def)

section \<open>Used by one thread\<close>

text \<open>Without interleaving, both operations run to their end.\<close>

definition mpsc_enqueue :: "'a \<Rightarrow> 'a mpsc \<Rightarrow> mpsc_error + 'a mpsc" where
  "mpsc_enqueue e q = enqueue_link (mq_head q, mq_fresh q) (enqueue_exchange e q)"

definition mpsc_dequeue :: "'a mpsc \<Rightarrow> mpsc_error + 'a mpsc \<times> 'a progress" where
  "mpsc_dequeue q = (case dequeue_step q of Inl e \<Rightarrow> Inl e | Inr (q1, _) \<Rightarrow> dequeue_step q1)"

text \<open>A queue: what an enqueue and a dequeue do to the contents, under the invariant both keep.\<close>

locale fifo =
  fixes good :: "'q \<Rightarrow> bool" and contents :: "'q \<Rightarrow> 'a list" and enq :: "'a \<Rightarrow> 'q \<Rightarrow> 'q option" and deq :: "'q \<Rightarrow> ('q \<times> 'a option) option"
  assumes enq_law: "good q \<Longrightarrow> \<exists>q'. enq e q = Some q' \<and> good q' \<and> contents q' = contents q @ [e]"
    and deq_law: "good q \<Longrightarrow> \<exists>q' r. deq q = Some (q', r) \<and> good q' \<and> (case contents q of [] \<Rightarrow> r = None \<and> contents q' = [] | e # es \<Rightarrow> r = Some e \<and> contents q' = es)"
begin

fun enq_all :: "'a list \<Rightarrow> 'q \<Rightarrow> 'q option" where
  "enq_all [] q = Some q"
| "enq_all (e # es) q = Option.bind (enq e q) (enq_all es)"

fun deq_n :: "nat \<Rightarrow> 'q \<Rightarrow> ('q \<times> 'a option list) option" where
  "deq_n 0 q = Some (q, [])"
| "deq_n (Suc n) q = Option.bind (deq q) (\<lambda>(q', r). Option.bind (deq_n n q') (\<lambda>(q'', rs). Some (q'', r # rs)))"

lemma enq_all_contents: "good q \<Longrightarrow> \<exists>q'. enq_all es q = Some q' \<and> good q' \<and> contents q' = contents q @ es"
proof (induction es arbitrary: q)
  case (Cons e es)
  obtain q1 where "enq e q = Some q1" "good q1" "contents q1 = contents q @ [e]" using enq_law [OF Cons.prems] by blast
  then show ?case using Cons.IH [of q1] by auto
qed simp

lemma deq_n_contents:
  "good q \<Longrightarrow> n \<le> length (contents q) \<Longrightarrow> \<exists>q'. deq_n n q = Some (q', map Some (take n (contents q))) \<and> good q' \<and> contents q' = drop n (contents q)"
proof (induction n arbitrary: q)
  case (Suc n)
  then obtain e es where c: "contents q = e # es" by (cases "contents q") auto
  obtain q1 where "deq q = Some (q1, Some e)" "good q1" "contents q1 = es" using deq_law [OF Suc.prems(1)] c by auto
  then show ?case using Suc.IH [of q1] Suc.prems(2) c by auto
qed simp

theorem drains_in_order:
  assumes "good q" and "contents q = []"
  shows "\<exists>q1 q2. enq_all es q = Some q1 \<and> deq_n (length es) q1 = Some (q2, map Some es) \<and> contents q2 = []"
proof -
  obtain q1 where "enq_all es q = Some q1" "good q1" "contents q1 = es" using enq_all_contents [OF assms(1), of es] assms(2) by auto
  then show ?thesis using deq_n_contents [of q1 "length es"] by auto
qed

end

definition mpsc_good :: "'a mpsc \<Rightarrow> bool" where
  "mpsc_good q = (mq_consumer q = Resting \<and> mq_producers q = [] \<and> (\<exists>order. mpsc_inv order q))"

definition mpsc_contents :: "'a mpsc \<Rightarrow> 'a list" where
  "mpsc_contents q = drop (length (mq_dequeued q)) (mq_enqueued q)"

definition mpsc_enq :: "'a \<Rightarrow> 'a mpsc \<Rightarrow> 'a mpsc option" where
  "mpsc_enq e q = (case mpsc_enqueue e q of Inl _ \<Rightarrow> None | Inr q' \<Rightarrow> Some q')"

definition mpsc_deq :: "'a mpsc \<Rightarrow> ('a mpsc \<times> 'a option) option" where
  "mpsc_deq q = (case mpsc_dequeue q of Inr (q', Returned r) \<Rightarrow> Some (q', r) | _ \<Rightarrow> None)"

lemma mpsc_enq_good:
  assumes "mpsc_good q"
  shows "\<exists>q'. mpsc_enq e q = Some q' \<and> mpsc_good q' \<and> mpsc_contents q' = mpsc_contents q @ [e]"
proof -
  obtain order where o: "mpsc_inv order q" using assms by (auto simp: mpsc_good_def)
  let ?q = "enqueue_exchange e q"
  have p: "mq_producers ?q = [(mq_head q, mq_fresh q)]" using assms by (simp add: enqueue_exchange_def mpsc_good_def)
  obtain q' where q': "enqueue_link (mq_head q, mq_fresh q) ?q = Inr q'" "mpsc_inv (order @ [mq_fresh q]) q'" "mq_dequeued q' = mq_dequeued ?q"
      "mq_enqueued q' = mq_enqueued ?q"
    using mpsc_link_inv [OF mpsc_exchange_inv [OF o, of e], of "(mq_head q, mq_fresh q)"] p by auto
  moreover have "mq_producers q' = []" "mq_consumer q' = Resting"
    using q'(1) p assms by (auto simp: enqueue_link_def mpsc_good_def enqueue_exchange_def split: option.splits)
  moreover have "length (mq_dequeued q) \<le> length (mq_enqueued q)" using o by (auto simp: mpsc_inv_def)
  ultimately show ?thesis
    by (auto simp: mpsc_enq_def mpsc_enqueue_def mpsc_good_def mpsc_contents_def enqueue_exchange_def)
qed

lemma mpsc_deq_good:
  assumes "mpsc_good q"
  shows "\<exists>q' r. mpsc_deq q = Some (q', r) \<and> mpsc_good q'
    \<and> (case mpsc_contents q of [] \<Rightarrow> r = None \<and> mpsc_contents q' = [] | e # es \<Rightarrow> r = Some e \<and> mpsc_contents q' = es)"
proof -
  obtain order where o: "mpsc_inv order q" using assms by (auto simp: mpsc_good_def)
  obtain t where t: "mq_heap q (mq_tail q) = Some t" using inv_tail [OF o] by blast
  have idle: "mq_consumer q = Resting" "mq_producers q = []" using assms by (auto simp: mpsc_good_def)
  let ?c = "case nd_next t of None \<Rightarrow> AppearsEmpty | Some n \<Rightarrow> Got n"
  let ?q = "q\<lparr>mq_consumer := ?c\<rparr>"
  have step: "dequeue_step q = Inr (?q, Running)" using t idle by (simp add: dequeue_step_def)
  obtain order' where o': "mpsc_inv order' ?q" using mpsc_dequeue_inv [OF o] step by blast
  show ?thesis
  proof (cases "nd_next t")
    case None
    then have "mq_head q = mq_tail q" using load_next(2) [OF o t] idle head_is_tail [OF o] o by (cases order; cases "tl order") (auto simp: mpsc_inv_def)
    then have "order = [mq_tail q]" using head_is_tail [OF o] by simp
    then have "mq_enqueued q = mq_dequeued q" using o inv_empty by auto
    moreover have "dequeue_step ?q = Inr (q\<lparr>mq_consumer := Resting\<rparr>, Returned None)" using None t \<open>mq_head q = mq_tail q\<close> by (simp add: dequeue_step_def)
    moreover have "q\<lparr>mq_consumer := Resting\<rparr> = q" using idle(1) by simp
    ultimately show ?thesis
      using step assms by (simp add: mpsc_deq_def mpsc_dequeue_def mpsc_contents_def)
  next
    case (Some n)
    then obtain r where "order' = mq_tail q # n # r" "(mq_tail q, n) \<notin> set (mq_producers ?q)"
      using o' idle by (auto simp: mpsc_inv_def consumer_ok_def)
    then obtain e rest q' where q': "dequeue_step ?q = Inr (q', Returned (Some e))" "mpsc_inv (n # r) q'" "mq_enqueued q = mq_dequeued q @ e # rest"
        "mq_dequeued q' = mq_dequeued q @ [e]" "mq_enqueued q' = mq_enqueued q"
      using mpsc_finish_inv [of "mq_tail q" n r ?q] o' Some by auto
    moreover have "mq_producers q' = []" "mq_consumer q' = Resting"
      using q'(1) idle Some t by (auto simp: dequeue_step_def split: option.splits)
    ultimately show ?thesis
      using step by (auto simp: mpsc_deq_def mpsc_dequeue_def mpsc_contents_def mpsc_good_def)
  qed
qed

interpretation linked_fifo: fifo mpsc_good mpsc_contents mpsc_enq mpsc_deq
  by unfold_locales (erule mpsc_enq_good, erule mpsc_deq_good)

text \<open>The event queue with a lock, whose consumer asks \<^verbatim>\<open>empty\<close> first.\<close>

definition eq_enq :: "pevent \<Rightarrow> event_queue \<Rightarrow> event_queue option" where
  "eq_enq e q = (case eq_enqueue e q of (q', ok) \<Rightarrow> if ok then Some q' else None)"

definition eq_deq :: "event_queue \<Rightarrow> (event_queue \<times> pevent option) option" where
  "eq_deq q = (if eq_empty q then Some (q, None) else map_option (map_prod id Some) (eq_dequeue q))"

interpretation locked_fifo: fifo comissioned events eq_enq eq_deq
  by unfold_locales (auto simp: eq_enq_def eq_enqueue_def eq_deq_def eq_empty_def eq_dequeue_def split: list.splits)

end
