(* ===== verification/Gathering.thy ===== *)
theory Gathering
  imports Prelude
begin

text \<open>
  \<^verbatim>\<open>collect\<close> and \<^verbatim>\<open>await\<close> of \<^verbatim>\<open>include/process/collect.hpp\<close>: a process that waits for a list of futures and completes one promise. The calls deferred to the process by the
  callbacks it installs are its queue, handled in order until it terminates itself; then its promise is deleted, which abandons it if it is still pending. The
  futures it waits for complete, or are abandoned, at any time; the result may be discarded at any time.
\<close>

section \<open>State\<close>

datatype 'v awaited = Awaiting | IsReady 'v | IsFailed string | IsDiscarded

datatype 'r result = ResPending | ResSet 'r | ResFailed string | ResDiscarded | ResAbandoned

datatype gather_call = WaitedCall nat | AbandonedCall | DiscardedCall

text \<open>\<open>ga_abandoned\<close> and \<open>ga_discard\<close>: a future was abandoned, a discard of the result was requested; \<open>ga_propagated\<close>: a discard of all futures was requested.\<close>

record ('v, 'r) gather =
  ga_futures :: "'v awaited list"
  ga_ready :: nat
  ga_result :: "'r result"
  ga_calls :: "gather_call list"
  ga_terminated :: bool
  ga_abandoned :: bool
  ga_discard :: bool
  ga_propagated :: bool

text \<open>The constructor and \<^verbatim>\<open>initialize\<close>: the callback of a future that has completed already is called at once.\<close>

definition gather_init :: "'v awaited list \<Rightarrow> ('v, 'r) gather" where
  "gather_init fs = \<lparr>ga_futures = fs, ga_ready = 0, ga_result = ResPending,
     ga_calls = map WaitedCall (filter (\<lambda>i. fs ! i \<noteq> Awaiting) [0..<length fs]), ga_terminated = False,
     ga_abandoned = False, ga_discard = False, ga_propagated = False\<rparr>"

definition gather_terminate :: "('v, 'r) gather \<Rightarrow> ('v, 'r) gather" where
  "gather_terminate g = g\<lparr>ga_terminated := True, ga_result := (if ga_result g = ResPending then ResAbandoned else ga_result g)\<rparr>"

definition complete :: "'r result \<Rightarrow> ('v, 'r) gather \<Rightarrow> ('v, 'r) gather" where
  "complete r g = (if ga_result g = ResPending then g\<lparr>ga_result := r\<rparr> else g)"

section \<open>CollectProcess\<close>

text \<open>\<^verbatim>\<open>future.get()\<close> of each; None: one is not ready.\<close>

fun all_values :: "'v awaited list \<Rightarrow> 'v list option" where
  "all_values [] = Some []"
| "all_values (IsReady v # fs) = map_option ((#) v) (all_values fs)"
| "all_values (_ # fs) = None"

text \<open>None: a \<^verbatim>\<open>CHECK\<close> fails.\<close>

definition collect_waited :: "nat \<Rightarrow> ('v, 'v list) gather \<Rightarrow> ('v, 'v list) gather option" where
  "collect_waited i g = (case ga_futures g ! i of
     IsFailed m \<Rightarrow> Some (gather_terminate (complete (ResFailed (''Collect failed: '' @ m)) g))
   | IsDiscarded \<Rightarrow> Some (gather_terminate (complete (ResFailed ''Collect failed: future discarded'') g))
   | Awaiting \<Rightarrow> None
   | IsReady _ \<Rightarrow>
       let g1 = g\<lparr>ga_ready := Suc (ga_ready g)\<rparr> in
       if ga_ready g1 = length (ga_futures g1)
       then map_option (\<lambda>vs. gather_terminate (complete (ResSet vs) g1)) (all_values (ga_futures g1))
       else Some g1)"

section \<open>AwaitProcess\<close>

definition await_waited :: "nat \<Rightarrow> ('v, 'v awaited list) gather \<Rightarrow> ('v, 'v awaited list) gather option" where
  "await_waited i g =
    (if ga_futures g ! i = Awaiting then None
     else let g1 = g\<lparr>ga_ready := Suc (ga_ready g)\<rparr> in
       Some (if ga_ready g1 = length (ga_futures g1) then gather_terminate (complete (ResSet (ga_futures g1)) g1) else g1))"

section \<open>Runs\<close>

definition gather_abandoned :: "('v, 'r) gather \<Rightarrow> ('v, 'r) gather" where
  "gather_abandoned g = gather_terminate g"

definition gather_discarded :: "('v, 'r) gather \<Rightarrow> ('v, 'r) gather" where
  "gather_discarded g = gather_terminate (complete ResDiscarded (g\<lparr>ga_propagated := True\<rparr>))"

datatype 'v gather_event = Completes nat "'v awaited" | Abandons nat | DiscardResult | HandleNext

fun gather_handle ::
    "(nat \<Rightarrow> ('v, 'r) gather \<Rightarrow> ('v, 'r) gather option) \<Rightarrow> gather_call \<Rightarrow> ('v, 'r) gather \<Rightarrow> ('v, 'r) gather option" where
  "gather_handle waited (WaitedCall i) g = waited i g"
| "gather_handle waited AbandonedCall g = Some (gather_abandoned g)"
| "gather_handle waited DiscardedCall g = Some (gather_discarded g)"

fun gather_step ::
    "(nat \<Rightarrow> ('v, 'r) gather \<Rightarrow> ('v, 'r) gather option) \<Rightarrow> 'v gather_event \<Rightarrow> ('v, 'r) gather \<Rightarrow> ('v, 'r) gather option" where
  "gather_step waited (Completes i x) g = Some
     (if i < length (ga_futures g) \<and> ga_futures g ! i = Awaiting \<and> x \<noteq> Awaiting
      then g\<lparr>ga_futures := (ga_futures g)[i := x], ga_calls := ga_calls g @ [WaitedCall i]\<rparr> else g)"
| "gather_step waited (Abandons i) g = Some
     (if i < length (ga_futures g) \<and> ga_futures g ! i = Awaiting then g\<lparr>ga_abandoned := True, ga_calls := ga_calls g @ [AbandonedCall]\<rparr> else g)"
| "gather_step waited DiscardResult g = Some
     (if ga_result g = ResPending \<and> \<not> ga_discard g then g\<lparr>ga_discard := True, ga_calls := ga_calls g @ [DiscardedCall]\<rparr> else g)"
| "gather_step waited HandleNext g = (case ga_calls g of
     [] \<Rightarrow> Some g
   | c # cs \<Rightarrow> if ga_terminated g then Some g else gather_handle waited c (g\<lparr>ga_calls := cs\<rparr>))"

fun gather_run ::
    "(nat \<Rightarrow> ('v, 'r) gather \<Rightarrow> ('v, 'r) gather option) \<Rightarrow> 'v gather_event list \<Rightarrow> ('v, 'r) gather \<Rightarrow> ('v, 'r) gather option" where
  "gather_run waited [] g = Some g"
| "gather_run waited (e # es) g = Option.bind (gather_step waited e g) (gather_run waited es)"

section \<open>What both processes rely on\<close>

text \<open>
  A process of this kind fails at once for some outcomes of a future, and otherwise combines all of them at the end.
\<close>

definition gather_waited ::
    "('v awaited \<Rightarrow> string option) \<Rightarrow> ('v awaited list \<Rightarrow> 'r option) \<Rightarrow> nat \<Rightarrow> ('v, 'r) gather \<Rightarrow> ('v, 'r) gather option" where
  "gather_waited early finish i g = (let x = ga_futures g ! i; g1 = g\<lparr>ga_ready := Suc (ga_ready g)\<rparr> in
     if x = Awaiting then None
     else case early x of
       Some m \<Rightarrow> Some (gather_terminate (complete (ResFailed m) g))
     | None \<Rightarrow>
         if ga_ready g1 = length (ga_futures g1) then map_option (\<lambda>r. gather_terminate (complete (ResSet r) g1)) (finish (ga_futures g1))
         else Some g1)"

fun waited_index :: "gather_call \<Rightarrow> nat option" where
  "waited_index (WaitedCall i) = Some i"
| "waited_index _ = None"

definition waiting :: "('v, 'r) gather \<Rightarrow> nat list" where
  "waiting g = List.map_filter waited_index (ga_calls g)"

definition completed :: "('v, 'r) gather \<Rightarrow> nat list" where
  "completed g = filter (\<lambda>i. ga_futures g ! i \<noteq> Awaiting) [0..<length (ga_futures g)]"

locale gathering =
  fixes early :: "'v awaited \<Rightarrow> string option" and finish :: "'v awaited list \<Rightarrow> 'r option"
  assumes finish_defined: "list_all (\<lambda>x. x \<noteq> Awaiting \<and> early x = None) fs \<Longrightarrow> finish fs \<noteq> None"
begin

definition inv :: "('v, 'r) gather \<Rightarrow> bool" where
  "inv g = (distinct (waiting g) \<and> set (waiting g) \<subseteq> set (completed g)
    \<and> (if ga_terminated g
       then (case ga_result g of
           ResPending \<Rightarrow> False
         | ResSet r \<Rightarrow> finish (ga_futures g) = Some r \<and> list_all (\<lambda>x. x \<noteq> Awaiting \<and> early x = None) (ga_futures g)
         | ResFailed m \<Rightarrow> \<exists>x\<in>set (ga_futures g). x \<noteq> Awaiting \<and> early x = Some m
         | ResDiscarded \<Rightarrow> ga_discard g \<and> ga_propagated g
         | ResAbandoned \<Rightarrow> ga_abandoned g)
       else ga_result g = ResPending \<and> ga_ready g + length (waiting g) = length (completed g) \<and> ga_ready g < length (ga_futures g)
         \<and> (\<forall>i\<in>set (completed g) - set (waiting g). early (ga_futures g ! i) = None)
         \<and> (ga_discard g \<longrightarrow> DiscardedCall \<in> set (ga_calls g)) \<and> (DiscardedCall \<in> set (ga_calls g) \<longrightarrow> ga_discard g)
         \<and> (ga_abandoned g \<longrightarrow> AbandonedCall \<in> set (ga_calls g)) \<and> (AbandonedCall \<in> set (ga_calls g) \<longrightarrow> ga_abandoned g)))"

lemma waiting_simps:
  "waiting (g\<lparr>ga_calls := ga_calls g @ [WaitedCall i]\<rparr>) = waiting g @ [i]"
  "ga_calls g = WaitedCall i # cs \<Longrightarrow> waiting g = i # waiting (g\<lparr>ga_calls := cs\<rparr>)"
  by (simp_all add: waiting_def List.map_filter_def)

lemma completed_set: "set (completed g) = {i. i < length (ga_futures g) \<and> ga_futures g ! i \<noteq> Awaiting}" "distinct (completed g)"
  by (auto simp: completed_def)

lemma completes_inv:
  assumes "inv g" and "i < length (ga_futures g)" and "ga_futures g ! i = Awaiting" and "x \<noteq> Awaiting"
  shows "inv (g\<lparr>ga_futures := (ga_futures g)[i := x], ga_calls := ga_calls g @ [WaitedCall i]\<rparr>)"
proof -
  let ?g = "g\<lparr>ga_futures := (ga_futures g)[i := x], ga_calls := ga_calls g @ [WaitedCall i]\<rparr>"
  have w: "waiting ?g = waiting g @ [i]" by (simp add: waiting_def List.map_filter_def)
  have c: "set (completed ?g) = insert i (set (completed g))" "i \<notin> set (completed g)"
    using assms by (auto simp: completed_set nth_list_update)
  then have len: "length (completed ?g) = Suc (length (completed g))"
    using distinct_card [OF completed_set(2), of ?g] distinct_card [OF completed_set(2), of g] by simp
  have keep: "y \<in> set (ga_futures g) \<Longrightarrow> y \<noteq> Awaiting \<Longrightarrow> y \<in> set ((ga_futures g)[i := x])" for y
    using assms(3) by (metis in_set_conv_nth length_list_update nth_list_update_neq)
  have "\<not> list_all (\<lambda>x. x \<noteq> Awaiting \<and> early x = None) (ga_futures g)" using assms(2,3) by (auto simp: list_all_length)
  moreover have "\<forall>j\<in>set (completed ?g) - set (waiting ?g). early ((ga_futures g)[i := x] ! j) = None"
    if "\<forall>j\<in>set (completed g) - set (waiting g). early (ga_futures g ! j) = None"
    using that c w by auto (metis DiffI nth_list_update_neq)
  ultimately show ?thesis
    using assms(1) w c len by (auto simp: inv_def split: result.splits) (metis keep)
qed

lemma gather_waited_inv:
  assumes g: "inv g" and "ga_calls g = WaitedCall i # cs" and "\<not> ga_terminated g"
  shows "\<exists>g'. gather_waited early finish i (g\<lparr>ga_calls := cs\<rparr>) = Some g' \<and> inv g'"
proof -
  let ?g = "g\<lparr>ga_calls := cs\<rparr>"
  have w: "waiting g = i # waiting ?g" using assms(2) by (simp add: waiting_def List.map_filter_def)
  have c: "completed ?g = completed g" by (simp add: completed_def)
  have i: "i < length (ga_futures g)" "ga_futures g ! i \<noteq> Awaiting" using g w by (auto simp: inv_def completed_set)
  have calls: "DiscardedCall \<in> set cs \<longleftrightarrow> DiscardedCall \<in> set (ga_calls g)" "AbandonedCall \<in> set cs \<longleftrightarrow> AbandonedCall \<in> set (ga_calls g)"
    using assms(2) by auto
  show ?thesis
  proof (cases "early (ga_futures g ! i)")
    case (Some m)
    then have "\<exists>x\<in>set (ga_futures g). x \<noteq> Awaiting \<and> early x = Some m" using i nth_mem by blast
    then show ?thesis
      using Some i g w c assms(3) by (auto simp: gather_waited_def gather_terminate_def complete_def inv_def waiting_def completed_def)
  next
    case None
    have early: "\<forall>j\<in>set (completed g) - set (waiting ?g). early (ga_futures g ! j) = None" using g assms(3) None w by (auto simp: inv_def)
    have count: "ga_ready g + Suc (length (waiting ?g)) = length (completed g)" "ga_ready g < length (ga_futures g)" "ga_result g = ResPending"
      "distinct (waiting ?g)" "set (waiting ?g) \<subseteq> set (completed g)"
      using g assms(3) w by (auto simp: inv_def)
    show ?thesis
    proof (cases "Suc (ga_ready g) = length (ga_futures g)")
      case True
      have "length (completed g) \<le> length (ga_futures g)" unfolding completed_def by (metis length_filter_le length_upt minus_nat.diff_0)
      then have "length (waiting ?g) = 0" "length (completed g) = length (ga_futures g)" using count(1) True by linarith+
      then have all: "waiting ?g = []" "length (completed g) = length (ga_futures g)" by simp_all
      then have "completed g = [0..<length (ga_futures g)]" unfolding completed_def by (metis filter_id_conv length_filter_less length_upt minus_nat.diff_0 nat_neq_iff)
      then have fs: "list_all (\<lambda>x. x \<noteq> Awaiting \<and> early x = None) (ga_futures g)" using early all(1) completed_set(1) [of g] by (auto simp: list_all_length)
      then obtain r where "finish (ga_futures g) = Some r" using finish_defined by blast
      then show ?thesis
        using True None i fs count all by (auto simp: gather_waited_def gather_terminate_def complete_def inv_def waiting_def completed_def Let_def)
    next
      case False
      then show ?thesis
        using None i g early count assms(3) calls by (auto simp: gather_waited_def inv_def waiting_def completed_def Let_def)
    qed
  qed
qed

lemma gather_step_inv:
  assumes "inv g"
  shows "\<exists>g'. gather_step (gather_waited early finish) e g = Some g' \<and> inv g'"
proof (cases e)
  case (Completes i x)
  show ?thesis
  proof (cases "i < length (ga_futures g) \<and> ga_futures g ! i = Awaiting \<and> x \<noteq> Awaiting")
    case True
    then show ?thesis using Completes completes_inv [OF assms, of i x] by simp
  next
    case False
    then show ?thesis using Completes assms by (simp only: gather_step.simps if_False) blast
  qed
next
  case (Abandons i)
  have "inv (g\<lparr>ga_abandoned := True, ga_calls := ga_calls g @ [AbandonedCall]\<rparr>)"
    using assms by (cases "ga_terminated g"; cases "ga_result g") (simp_all add: inv_def waiting_def completed_def List.map_filter_def)
  then show ?thesis using Abandons assms by simp
next
  case DiscardResult
  have "inv (g\<lparr>ga_discard := True, ga_calls := ga_calls g @ [DiscardedCall]\<rparr>)" if "ga_result g = ResPending"
    using assms that by (cases "ga_terminated g") (simp_all add: inv_def waiting_def completed_def List.map_filter_def)
  then show ?thesis using DiscardResult assms by simp
next
  case HandleNext
  show ?thesis
  proof (cases "ga_calls g")
    case (Cons c cs)
    then show ?thesis
      using HandleNext assms gather_waited_inv [OF assms]
      by (cases c; cases "ga_terminated g")
        (auto simp: gather_abandoned_def gather_discarded_def gather_terminate_def complete_def inv_def waiting_def completed_def List.map_filter_def)
  qed (use HandleNext assms in auto)
qed

lemma gather_run_inv: "inv g \<Longrightarrow> \<exists>g'. gather_run (gather_waited early finish) es g = Some g' \<and> inv g'"
proof (induction es arbitrary: g)
  case (Cons e es)
  obtain g1 where "gather_step (gather_waited early finish) e g = Some g1" "inv g1" using gather_step_inv [OF Cons.prems] by blast
  then show ?case using Cons.IH by auto
qed simp

lemma gather_init_inv: "fs \<noteq> [] \<Longrightarrow> inv (gather_init fs)"
  by (auto simp: inv_def gather_init_def waiting_def completed_def List.map_filter_def comp_def)

text \<open>Once the futures have completed and the calls are handled, the process has terminated with a result.\<close>

lemma finished:
  assumes "inv g" and "ga_calls g = [] \<or> ga_terminated g" and "Awaiting \<notin> set (ga_futures g)"
  shows "ga_terminated g"
proof (rule ccontr)
  assume "\<not> ga_terminated g"
  then have "waiting g = []" "ga_ready g + length (waiting g) = length (completed g)" "ga_ready g < length (ga_futures g)"
    using assms by (auto simp: inv_def waiting_def List.map_filter_def)
  moreover have "filter (\<lambda>i. ga_futures g ! i \<noteq> Awaiting) [0..<length (ga_futures g)] = [0..<length (ga_futures g)]"
    using assms(3) by (intro filter_True) (auto simp: in_set_conv_nth)
  ultimately show False by (simp add: completed_def)
qed

end

section \<open>collect and await\<close>

definition collect_early :: "'v awaited \<Rightarrow> string option" where
  "collect_early x = (case x of
     IsFailed m \<Rightarrow> Some (''Collect failed: '' @ m)
   | IsDiscarded \<Rightarrow> Some ''Collect failed: future discarded''
   | _ \<Rightarrow> None)"

lemma collect_early_None: "list_all (\<lambda>x. x \<noteq> Awaiting \<and> collect_early x = None) fs \<Longrightarrow> \<exists>vs. fs = map IsReady vs"
proof (induction fs)
  case (Cons x fs)
  then obtain vs where "fs = map IsReady vs" by auto
  moreover obtain v where "x = IsReady v" using Cons.prems by (cases x) (auto simp: collect_early_def)
  ultimately show ?case by (metis list.simps(9))
qed simp

lemma all_values_ready: "all_values (map IsReady vs) = Some vs"
  by (induction vs) simp_all

lemma collect_waited_gather: "collect_waited = gather_waited collect_early all_values"
  by (auto simp: fun_eq_iff collect_waited_def gather_waited_def collect_early_def Let_def split: awaited.splits)

lemma await_waited_gather: "await_waited = gather_waited (\<lambda>_. None) Some"
  by (auto simp: fun_eq_iff await_waited_def gather_waited_def Let_def)

interpretation collecting: gathering collect_early all_values
  using collect_early_None all_values_ready by unfold_locales fastforce

interpretation awaiting: gathering "\<lambda>_. None" Some
  by unfold_locales simp

text \<open>With no futures the result is ready at once; otherwise the process is spawned.\<close>

definition collect_result :: "'v awaited list \<Rightarrow> 'v gather_event list \<Rightarrow> 'v list result option" where
  "collect_result fs es = (if fs = [] then Some (ResSet []) else map_option ga_result (gather_run collect_waited es (gather_init fs)))"

definition await_result :: "'v awaited list \<Rightarrow> 'v gather_event list \<Rightarrow> 'v awaited list result option" where
  "await_result fs es = (if fs = [] then Some (ResSet []) else map_option ga_result (gather_run await_waited es (gather_init fs)))"

lemma collect_outcome:
  assumes "fs \<noteq> []"
  shows "(\<exists>g. gather_run collect_waited es (gather_init fs) = Some g
      \<and> (case ga_result g of
          ResPending \<Rightarrow> Awaiting \<in> set (ga_futures g) \<or> ga_calls g \<noteq> []
        | ResSet vs \<Rightarrow> ga_futures g = map IsReady vs
        | ResFailed m \<Rightarrow> (\<exists>e. IsFailed e \<in> set (ga_futures g) \<and> m = ''Collect failed: '' @ e) \<or> (IsDiscarded \<in> set (ga_futures g) \<and> m = ''Collect failed: future discarded'')
        | ResDiscarded \<Rightarrow> ga_discard g \<and> ga_propagated g
        | ResAbandoned \<Rightarrow> ga_abandoned g))"
proof -
  obtain g where g: "gather_run collect_waited es (gather_init fs) = Some g" "collecting.inv g"
    using collecting.gather_run_inv [OF collecting.gather_init_inv [OF assms]] by (auto simp: collect_waited_gather)
  have "ga_result g \<noteq> ResPending \<longleftrightarrow> ga_terminated g" using g(2) by (auto simp: collecting.inv_def split: if_splits result.splits)
  moreover have "ga_futures g = map IsReady vs" if "ga_result g = ResSet vs" for vs
  proof -
    have r: "all_values (ga_futures g) = Some vs" "list_all (\<lambda>x. x \<noteq> Awaiting \<and> collect_early x = None) (ga_futures g)"
      using g(2) that by (simp_all add: collecting.inv_def split: if_splits)
    then obtain ws where "ga_futures g = map IsReady ws" using collect_early_None by blast
    then show ?thesis using r(1) by (simp add: all_values_ready)
  qed
  moreover have "(\<exists>e. IsFailed e \<in> set (ga_futures g) \<and> m = ''Collect failed: '' @ e) \<or> (IsDiscarded \<in> set (ga_futures g) \<and> m = ''Collect failed: future discarded'')"
    if failed: "ga_result g = ResFailed m" for m
  proof -
    obtain x where "x \<in> set (ga_futures g)" "collect_early x = Some m" using g(2) failed by (auto simp: collecting.inv_def split: if_splits)
    then show ?thesis by (cases x rule: awaited.exhaust) (auto simp: collect_early_def)
  qed
  moreover have "ga_result g = ResDiscarded \<Longrightarrow> ga_discard g \<and> ga_propagated g" "ga_result g = ResAbandoned \<Longrightarrow> ga_abandoned g"
    using g(2) by (simp_all add: collecting.inv_def split: if_splits)
  moreover have "ga_result g = ResPending \<Longrightarrow> Awaiting \<in> set (ga_futures g) \<or> ga_calls g \<noteq> []"
    using collecting.finished [OF g(2)] calculation(1) by blast
  ultimately show ?thesis using g(1) by (cases "ga_result g") simp_all
qed

lemma await_outcome:
  assumes "fs \<noteq> []"
  shows "(\<exists>g. gather_run await_waited es (gather_init fs) = Some g
      \<and> (case ga_result g of
          ResPending \<Rightarrow> Awaiting \<in> set (ga_futures g) \<or> ga_calls g \<noteq> []
        | ResSet xs \<Rightarrow> xs = ga_futures g \<and> Awaiting \<notin> set xs
        | ResFailed m \<Rightarrow> False
        | ResDiscarded \<Rightarrow> ga_discard g \<and> ga_propagated g
        | ResAbandoned \<Rightarrow> ga_abandoned g))"
proof -
  obtain g where g: "gather_run await_waited es (gather_init fs) = Some g" "awaiting.inv g"
    using awaiting.gather_run_inv [OF awaiting.gather_init_inv [OF assms]] by (auto simp: await_waited_gather)
  have "ga_result g \<noteq> ResPending \<longleftrightarrow> ga_terminated g" using g(2) by (auto simp: awaiting.inv_def split: if_splits result.splits)
  then show ?thesis
    using g awaiting.finished [OF g(2)] by (auto simp: awaiting.inv_def list_all_iff split: result.splits if_splits)
qed

text \<open>C32.
  \<^verbatim>\<open>collect\<close> returns the values of its futures in their order, or the failure of one of them, whatever the order in which they complete and the calls are handled:
  no \<^verbatim>\<open>CHECK\<close> fails; a set result holds exactly the values; a failed one is due to a future that failed or was discarded; a discarded one to a discard of the result,
  which was passed on to all futures; an abandoned one to the abandonment of a future; and when all futures have completed and the calls are handled, the
  result is no longer pending. \<^verbatim>\<open>await\<close> is set exactly with the completed futures.
\<close>

theorem collect_and_await:
  assumes "fs \<noteq> []"
  shows "(\<exists>g. gather_run collect_waited es (gather_init fs) = Some g
      \<and> (case ga_result g of
          ResPending \<Rightarrow> Awaiting \<in> set (ga_futures g) \<or> ga_calls g \<noteq> []
        | ResSet vs \<Rightarrow> ga_futures g = map IsReady vs
        | ResFailed m \<Rightarrow> (\<exists>e. IsFailed e \<in> set (ga_futures g) \<and> m = ''Collect failed: '' @ e) \<or> (IsDiscarded \<in> set (ga_futures g) \<and> m = ''Collect failed: future discarded'')
        | ResDiscarded \<Rightarrow> ga_discard g \<and> ga_propagated g
        | ResAbandoned \<Rightarrow> ga_abandoned g))
    \<and> (\<exists>g. gather_run await_waited es (gather_init fs) = Some g
      \<and> (case ga_result g of
          ResPending \<Rightarrow> Awaiting \<in> set (ga_futures g) \<or> ga_calls g \<noteq> []
        | ResSet xs \<Rightarrow> xs = ga_futures g \<and> Awaiting \<notin> set xs
        | ResFailed m \<Rightarrow> False
        | ResDiscarded \<Rightarrow> ga_discard g \<and> ga_propagated g
        | ResAbandoned \<Rightarrow> ga_abandoned g))"
  using collect_outcome [OF assms] await_outcome [OF assms] by (rule conjI)

theorem collect_and_await_witness:
  "\<exists>g. gather_run collect_waited [Completes 1 (IsReady 8), HandleNext, Completes 0 (IsReady 7), HandleNext] (gather_init [Awaiting, Awaiting :: nat awaited]) = Some g
    \<and> ga_futures g = map IsReady [7, 8]"
proof -
  define es where "es = [Completes 1 (IsReady 8), HandleNext, Completes 0 (IsReady (7 :: nat)), HandleNext]"
  obtain g where g: "gather_run collect_waited es (gather_init [Awaiting, Awaiting]) = Some g" "ga_result g = ResSet [7, 8]"
    unfolding es_def by (simp add: gather_init_def collect_waited_def complete_def gather_terminate_def)
  then show ?thesis using collect_and_await [of "[Awaiting, Awaiting]" es] unfolding es_def by auto
qed

end
