(* ===== verification/Pacing.thy ===== *)
theory Pacing
  imports Prelude
begin

text \<open>
  \<^verbatim>\<open>RateLimiter\<close> (\<^verbatim>\<open>include/process/limiter.hpp\<close>), \<^verbatim>\<open>Sequence\<close> (\<^verbatim>\<open>sequence.hpp\<close>) and \<^verbatim>\<open>CountDownLatch\<close> (\<^verbatim>\<open>count_down_latch.hpp\<close>): when a waiter gets its turn. Futures are numbers in the
  order in which they are handed out. Times are nanoseconds; the time between two permits, a duration divided by a floating-point rate, is a parameter.
\<close>

section \<open>RateLimiter\<close>

datatype permit = Requested | Acquired | PermitDiscarded

text \<open>\<open>rl_delays\<close>: when the outstanding calls of \<^verbatim>\<open>_acquire\<close> are due. Ghost: who got a permit, and when.\<close>

record limiter =
  rl_timeout :: int
  rl_promises :: "nat list"
  rl_futures :: "permit list"
  rl_delays :: "int list"
  rl_now :: int
  rl_grants :: "(nat \<times> int) list"

definition limiter_init :: "int \<Rightarrow> limiter" where
  "limiter_init now = \<lparr>rl_timeout = now, rl_promises = [], rl_futures = [], rl_delays = [], rl_now = now, rl_grants = []\<rparr>"

definition remaining :: "limiter \<Rightarrow> int" where
  "remaining l = max 0 (rl_timeout l - rl_now l)"

definition grant :: "int \<Rightarrow> nat \<Rightarrow> limiter \<Rightarrow> limiter" where
  "grant interval f l = l\<lparr>rl_futures := (rl_futures l)[f := Acquired], rl_timeout := rl_now l + interval, rl_grants := rl_grants l @ [(f, rl_now l)]\<rparr>"

definition acquire :: "int \<Rightarrow> limiter \<Rightarrow> limiter" where
  "acquire interval l =
    (let f = length (rl_futures l); l1 = l\<lparr>rl_futures := rl_futures l @ [Requested]\<rparr> in
     if rl_promises l \<noteq> [] then l1\<lparr>rl_promises := rl_promises l @ [f]\<rparr>
     else if remaining l > 0 then l1\<lparr>rl_promises := [f], rl_delays := rl_delays l @ [rl_now l + remaining l]\<rparr>
     else grant interval f l1)"

text \<open>The loop that removes discarded promises from the front.\<close>

fun first_waiting :: "permit list \<Rightarrow> nat list \<Rightarrow> nat option \<times> nat list" where
  "first_waiting fs [] = (None, [])"
| "first_waiting fs (p # ps) = (if fs ! p \<noteq> PermitDiscarded then (Some p, ps) else first_waiting fs ps)"

text \<open>\<^verbatim>\<open>_acquire\<close>, for the first delay. None: its \<^verbatim>\<open>CHECK\<close> fails.\<close>

definition acquire_next :: "int \<Rightarrow> limiter \<Rightarrow> limiter option" where
  "acquire_next interval l =
    (if rl_promises l = [] then None
     else case first_waiting (rl_futures l) (rl_promises l) of (found, rest) \<Rightarrow>
       let l1 = l\<lparr>rl_promises := rest, rl_delays := tl (rl_delays l)\<rparr>;
           l2 = (case found of None \<Rightarrow> l1 | Some p \<Rightarrow> grant interval p l1)
       in Some (if rest \<noteq> [] then l2\<lparr>rl_delays := rl_delays l2 @ [rl_now l2 + remaining l2]\<rparr> else l2))"

definition limiter_discard :: "nat \<Rightarrow> limiter \<Rightarrow> limiter" where
  "limiter_discard f l = (if f \<in> set (rl_promises l) then l\<lparr>rl_futures := (rl_futures l)[f := PermitDiscarded]\<rparr> else l)"

definition limiter_finalize :: "limiter \<Rightarrow> limiter" where
  "limiter_finalize l = l\<lparr>rl_futures := foldl (\<lambda>fs p. fs[p := PermitDiscarded]) (rl_futures l) (rl_promises l), rl_promises := []\<rparr>"

datatype limiter_event = Acquire | Fire | DiscardPermit nat | Pass nat

fun limiter_step :: "int \<Rightarrow> limiter_event \<Rightarrow> limiter \<Rightarrow> limiter option" where
  "limiter_step interval Acquire l = Some (acquire interval l)"
| "limiter_step interval Fire l = (case rl_delays l of [] \<Rightarrow> Some l | t # _ \<Rightarrow> if t \<le> rl_now l then acquire_next interval l else Some l)"
| "limiter_step interval (DiscardPermit f) l = Some (limiter_discard f l)"
| "limiter_step interval (Pass d) l = Some (l\<lparr>rl_now := rl_now l + int d\<rparr>)"

fun limiter_run :: "int \<Rightarrow> limiter_event list \<Rightarrow> limiter \<Rightarrow> limiter option" where
  "limiter_run interval [] l = Some l"
| "limiter_run interval (e # es) l = Option.bind (limiter_step interval e l) (limiter_run interval es)"

fun spaced :: "int \<Rightarrow> (nat \<times> int) list \<Rightarrow> bool" where
  "spaced d [] = True"
| "spaced d [x] = True"
| "spaced d (x # y # r) = (fst x < fst y \<and> snd x + d \<le> snd y \<and> spaced d (y # r))"

definition limiter_inv :: "int \<Rightarrow> limiter \<Rightarrow> bool" where
  "limiter_inv d l = (spaced d (rl_grants l) \<and> (rl_grants l \<noteq> [] \<longrightarrow> rl_timeout l = snd (last (rl_grants l)) + d)
    \<and> (if rl_promises l = [] then rl_delays l = [] else \<exists>t. rl_delays l = [t] \<and> rl_timeout l \<le> t)
    \<and> sorted_wrt (<) (map fst (rl_grants l) @ rl_promises l) \<and> list_all (\<lambda>f. f < length (rl_futures l)) (map fst (rl_grants l) @ rl_promises l)
    \<and> (\<forall>f < length (rl_futures l). (rl_futures l ! f = Acquired \<longleftrightarrow> f \<in> fst ` set (rl_grants l)) \<and> (rl_futures l ! f = Requested \<longrightarrow> f \<in> set (rl_promises l))))"

lemma spaced_snoc: "spaced d (xs @ [y]) = (spaced d xs \<and> (xs \<noteq> [] \<longrightarrow> fst (last xs) < fst y \<and> snd (last xs) + d \<le> snd y))"
  by (induction d xs rule: spaced.induct) auto

lemma first_waiting_split:
  assumes "first_waiting fs ps = (found, rest)"
  shows "\<exists>skipped. list_all (\<lambda>p. fs ! p = PermitDiscarded) skipped
    \<and> (case found of None \<Rightarrow> ps = skipped \<and> rest = [] | Some p \<Rightarrow> ps = skipped @ p # rest \<and> fs ! p \<noteq> PermitDiscarded)"
  using assms
proof (induction ps)
  case (Cons p ps)
  show ?case
  proof (cases "fs ! p = PermitDiscarded")
    case True
    then obtain sk where "list_all (\<lambda>p. fs ! p = PermitDiscarded) sk"
        "case found of None \<Rightarrow> ps = sk \<and> rest = [] | Some p \<Rightarrow> ps = sk @ p # rest \<and> fs ! p \<noteq> PermitDiscarded"
      using Cons by auto
    then show ?thesis using True by (intro exI [of _ "p # sk"]) (auto split: option.splits)
  next
    case False
    then show ?thesis using Cons.prems by (intro exI [of _ "[]"]) auto
  qed
qed auto

lemma grant_inv:
  assumes "limiter_inv d (l\<lparr>rl_promises := f # ps, rl_delays := [t]\<rparr>)" and "rl_timeout l \<le> rl_now l" and "rl_futures l ! f \<noteq> PermitDiscarded"
  shows "limiter_inv d (let l1 = grant d f (l\<lparr>rl_promises := ps, rl_delays := []\<rparr>) in
    if ps \<noteq> [] then l1\<lparr>rl_delays := [rl_now l1 + remaining l1]\<rparr> else l1)"
proof -
  have sorted: "sorted_wrt (<) (map fst (rl_grants l) @ f # ps)" and grants: "spaced d (rl_grants l)"
    "rl_grants l \<noteq> [] \<longrightarrow> rl_timeout l = snd (last (rl_grants l)) + d"
    and len: "list_all (\<lambda>f. f < length (rl_futures l)) (map fst (rl_grants l) @ f # ps)"
    and st: "\<And>i. i < length (rl_futures l) \<Longrightarrow> (rl_futures l ! i = Acquired \<longleftrightarrow> i \<in> fst ` set (rl_grants l)) \<and> (rl_futures l ! i = Requested \<longrightarrow> i \<in> set (f # ps))"
    using assms(1) by (auto simp: limiter_inv_def)
  have "rl_grants l \<noteq> [] \<Longrightarrow> fst (last (rl_grants l)) < f \<and> snd (last (rl_grants l)) + d \<le> rl_now l"
    using sorted grants(2) assms(2) by (auto simp: sorted_wrt_append)
  then have "spaced d (rl_grants l @ [(f, rl_now l)])" using grants(1) by (simp add: spaced_snoc)
  moreover have "f \<notin> set ps" using sorted by (auto simp: sorted_wrt_append)
  ultimately show ?thesis
    using sorted len st by (auto simp: limiter_inv_def grant_def remaining_def Let_def nth_list_update)
qed

lemma drop_skipped:
  assumes "limiter_inv d l" and "rl_promises l = sk @ ps" and "list_all (\<lambda>p. rl_futures l ! p = PermitDiscarded) sk" and "rl_promises l \<noteq> []"
  shows "limiter_inv d (l\<lparr>rl_promises := ps, rl_delays := (if ps = [] then [] else rl_delays l)\<rparr>)"
proof -
  have "rl_futures l ! f = Requested \<longrightarrow> f \<in> set ps" if "f < length (rl_futures l)" for f
    using assms that by (auto simp: limiter_inv_def list_all_iff)
  moreover have "sorted_wrt (<) (map fst (rl_grants l) @ ps)" "list_all (\<lambda>f. f < length (rl_futures l)) (map fst (rl_grants l) @ ps)"
    using assms(1,2) by (simp_all add: limiter_inv_def sorted_wrt_append)
  ultimately show ?thesis
    using assms(1,4) by (simp add: limiter_inv_def)
qed

lemma acquire_next_inv:
  assumes "limiter_inv d l" and "rl_delays l = t # ts" and "t \<le> rl_now l"
  shows "\<exists>l'. acquire_next d l = Some l' \<and> limiter_inv d l'"
proof -
  have p: "rl_promises l \<noteq> []" "ts = []" "rl_timeout l \<le> rl_now l" using assms by (auto simp: limiter_inv_def split: if_splits)
  obtain found rest where fw: "first_waiting (rl_futures l) (rl_promises l) = (found, rest)" by (cases "first_waiting (rl_futures l) (rl_promises l)")
  then obtain sk where sk: "list_all (\<lambda>p. rl_futures l ! p = PermitDiscarded) sk"
      "case found of None \<Rightarrow> rl_promises l = sk \<and> rest = [] | Some p \<Rightarrow> rl_promises l = sk @ p # rest \<and> rl_futures l ! p \<noteq> PermitDiscarded"
    using first_waiting_split by blast
  show ?thesis
  proof (cases found)
    case None
    then have "limiter_inv d (l\<lparr>rl_promises := [], rl_delays := []\<rparr>)" using drop_skipped [OF assms(1), of sk "[]"] sk p(1) by simp
    then show ?thesis using None sk fw p assms(2) by (simp add: acquire_next_def)
  next
    case (Some q)
    then have split: "rl_promises l = sk @ q # rest" "rl_futures l ! q \<noteq> PermitDiscarded" using sk(2) by simp_all
    have "limiter_inv d (l\<lparr>rl_promises := q # rest, rl_delays := [t]\<rparr>)"
      using drop_skipped [OF assms(1) split(1) sk(1) p(1)] assms(2) p(2) by simp
    from grant_inv [OF this p(3) split(2)] show ?thesis
      using Some fw p assms(2) by (auto simp: acquire_next_def Let_def remaining_def grant_def)
  qed
qed

lemma acquire_inv:
  assumes "limiter_inv d l"
  shows "limiter_inv d (acquire d l)"
proof -
  let ?f = "length (rl_futures l)" and ?l1 = "l\<lparr>rl_futures := rl_futures l @ [Requested]\<rparr>"
  have queue: "limiter_inv d (?l1\<lparr>rl_promises := rl_promises l @ [?f], rl_delays := (if rl_promises l = [] then [u] else rl_delays l)\<rparr>)" if "rl_timeout l \<le> u" for u
    using assms that by (auto simp: limiter_inv_def sorted_wrt_append list_all_iff nth_append less_Suc_eq)
  have "remaining l \<ge> 0" by (simp add: remaining_def)
  then consider "rl_promises l \<noteq> []" | "rl_promises l = []" "remaining l > 0" | "rl_promises l = []" "remaining l = 0"
    by force
  then show ?thesis
  proof cases
    case 1
    then show ?thesis using queue [of "rl_timeout l"] by (simp add: acquire_def Let_def)
  next
    case 2
    then have "rl_delays l = []" using assms by (simp add: limiter_inv_def)
    moreover have "rl_timeout l \<le> rl_now l + remaining l" by (simp add: remaining_def)
    ultimately show ?thesis using queue [of "rl_now l + remaining l"] 2 by (simp add: acquire_def Let_def)
  next
    case 3
    then have "rl_delays l = []" "rl_timeout l \<le> rl_now l" using assms by (auto simp: limiter_inv_def remaining_def)
    moreover have "limiter_inv d (?l1\<lparr>rl_promises := [?f], rl_delays := [rl_timeout l]\<rparr>)" using queue [of "rl_timeout l"] 3 by simp
    ultimately have "limiter_inv d (grant d ?f (?l1\<lparr>rl_promises := [], rl_delays := []\<rparr>))"
      using grant_inv [where d = d and l = ?l1 and f = ?f and ps = "[]" and t = "rl_timeout l"] by simp
    moreover have "?l1\<lparr>rl_promises := [], rl_delays := []\<rparr> = ?l1" using 3 \<open>rl_delays l = []\<close> by (cases l) simp
    ultimately have "limiter_inv d (grant d ?f ?l1)" by (simp only:)
    then show ?thesis using 3 by (simp add: acquire_def Let_def)
  qed
qed

lemma limiter_step_inv:
  assumes "limiter_inv d l"
  shows "\<exists>l'. limiter_step d e l = Some l' \<and> limiter_inv d l'"
proof (cases e)
  case Fire
  then show ?thesis using assms acquire_next_inv [OF assms] by (auto split: list.splits)
next
  case (DiscardPermit f)
  have "f \<notin> fst ` set (rl_grants l)" "f < length (rl_futures l)" if "f \<in> set (rl_promises l)"
    using assms that by (auto simp: limiter_inv_def sorted_wrt_append list_all_iff)
  then show ?thesis using DiscardPermit assms by (auto simp: limiter_discard_def limiter_inv_def nth_list_update)
qed (use assms acquire_inv in \<open>auto simp: limiter_inv_def\<close>)

lemma limiter_run_inv: "limiter_inv d l \<Longrightarrow> \<exists>l'. limiter_run d es l = Some l' \<and> limiter_inv d l'"
proof (induction es arbitrary: l)
  case (Cons e es)
  obtain l1 where "limiter_step d e l = Some l1" "limiter_inv d l1" using limiter_step_inv [OF Cons.prems] by blast
  then show ?case using Cons.IH by auto
qed simp

lemma spaced_apart:
  assumes "spaced d xs" and "i + k < length xs"
  shows "snd (xs ! i) + int k * d \<le> snd (xs ! (i + k))"
  using assms(2)
proof (induction k)
  case (Suc k)
  have next_one: "j + 1 < length xs \<Longrightarrow> snd (xs ! j) + d \<le> snd (xs ! (j + 1))" for j
    using assms(1)
  proof (induction d xs arbitrary: j rule: spaced.induct)
    case (3 d x y r)
    then show ?case by (cases j) auto
  qed auto
  have "snd (xs ! (i + k)) + d \<le> snd (xs ! (i + Suc k))" using next_one [of "i + k"] Suc.prems by simp
  moreover have "snd (xs ! i) + int k * d \<le> snd (xs ! (i + k))" using Suc by simp
  ultimately show ?case by (simp add: algebra_simps)
qed simp

lemma discard_all: "f < length fs \<Longrightarrow> foldl (\<lambda>fs p. fs[p := PermitDiscarded]) fs ps ! f = (if f \<in> set ps then PermitDiscarded else fs ! f)"
  by (induction ps arbitrary: fs) (auto simp: nth_list_update)

lemma discard_all_length: "length (foldl (\<lambda>fs p. fs[p := PermitDiscarded]) fs ps) = length fs"
  by (induction ps arbitrary: fs) auto

text \<open>C35.
  A rate limiter hands out permits at its rate, in the order of the requests: whatever requests, discards and passing of time, the \<open>k\<close>-th permit after another comes at least
  \<open>k\<close> intervals later; permits go to requests in order; exactly those that got one are ready; a request that still waits has a call of \<^verbatim>\<open>_acquire\<close> outstanding, exactly
  one, so it is not forgotten, and \<^verbatim>\<open>finalize\<close> leaves no request waiting; and no \<^verbatim>\<open>CHECK\<close> fails.
\<close>

theorem rate_limited:
  "\<exists>l. limiter_run d es (limiter_init now) = Some l
    \<and> (\<forall>i k. i + k < length (rl_grants l) \<longrightarrow> snd (rl_grants l ! i) + int k * d \<le> snd (rl_grants l ! (i + k)))
    \<and> sorted_wrt (<) (map fst (rl_grants l) @ rl_promises l)
    \<and> (\<forall>f < length (rl_futures l). (rl_futures l ! f = Acquired \<longleftrightarrow> f \<in> fst ` set (rl_grants l))
        \<and> (rl_futures l ! f = Requested \<longrightarrow> f \<in> set (rl_promises l) \<and> length (rl_delays l) = 1))
    \<and> Requested \<notin> set (rl_futures (limiter_finalize l))"
proof -
  have "limiter_inv d (limiter_init now)" by (simp add: limiter_inv_def limiter_init_def)
  then obtain l where l: "limiter_run d es (limiter_init now) = Some l" "limiter_inv d l" using limiter_run_inv by blast
  have waits: "f \<in> set (rl_promises l) \<and> length (rl_delays l) = 1" if "f < length (rl_futures l)" "rl_futures l ! f = Requested" for f
    using l(2) that by (auto simp: limiter_inv_def split: if_splits)
  have "spaced d (rl_grants l)" "sorted_wrt (<) (map fst (rl_grants l) @ rl_promises l)"
    and acquired: "f < length (rl_futures l) \<Longrightarrow> (rl_futures l ! f = Acquired) = (f \<in> fst ` set (rl_grants l))" for f
    using l(2) by (simp_all add: limiter_inv_def)
  moreover have "Requested \<notin> set (rl_futures (limiter_finalize l))"
    using waits by (auto simp: limiter_finalize_def in_set_conv_nth discard_all discard_all_length)
  ultimately show ?thesis
    using l(1) spaced_apart waits by (intro exI [of _ l] conjI allI impI) simp_all
qed

theorem rate_limited_witness:
  "\<exists>l. limiter_run 10 [Acquire, Acquire, Acquire, Pass 12, Fire, Fire, Pass 10, Fire] (limiter_init 0) = Some l
    \<and> length (rl_grants l) = 3 \<and> snd (rl_grants l ! 0) + 2 * 10 \<le> snd (rl_grants l ! 2)"
proof -
  define es where "es = [Acquire, Acquire, Acquire, Pass 12, Fire, Fire, Pass 10, Fire]"
  obtain l where l: "limiter_run 10 es (limiter_init 0) = Some l" "length (rl_grants l) = 3"
    unfolding es_def by (simp add: limiter_init_def acquire_def acquire_next_def grant_def remaining_def)
  obtain l' where l': "limiter_run 10 es (limiter_init 0) = Some l'"
      "\<forall>i k. i + k < length (rl_grants l') \<longrightarrow> snd (rl_grants l' ! i) + int k * 10 \<le> snd (rl_grants l' ! (i + k))"
    using rate_limited [of 10 es 0] by blast
  have "snd (rl_grants l ! 0) + 2 * 10 \<le> snd (rl_grants l ! 2)" using l'(2) [rule_format, of 0 2] l'(1) l by (simp add: numeral_2_eq_2)
  then show ?thesis using l unfolding es_def by (intro exI [of _ l]) simp
qed

section \<open>Sequence\<close>

text \<open>
  The futures \<open>F\<close> of the calls of \<^verbatim>\<open>add\<close>, in order, with whether a discard of each was requested. The notifier \<open>N\<close> after each is set when it completes, and
  completing a notifier calls \<^verbatim>\<open>notified\<close> for the next: this chain is \<open>notified\<close> below. Ghost: which callbacks were called, in order.
\<close>

datatype outcome3 = OReady | OFailed | ODiscarded

datatype seq_state = SWaiting | SRunning | SDone outcome3

record seq =
  sq_items :: "(bool \<times> seq_state) list"
  sq_called :: "nat list"

definition seq_init :: seq where
  "seq_init = \<lparr>sq_items = [], sq_called = []\<rparr>"

text \<open>\<^verbatim>\<open>notified\<close> for item \<open>i\<close> and, when it skips the callback, \<^verbatim>\<open>completed\<close> and so on.\<close>

function notified :: "nat \<Rightarrow> seq \<Rightarrow> seq" where
  "notified i s =
    (if i < length (sq_items s)
     then (if fst (sq_items s ! i) then notified (Suc i) (s\<lparr>sq_items := (sq_items s)[i := (True, SDone ODiscarded)]\<rparr>)
           else s\<lparr>sq_items := (sq_items s)[i := (False, SRunning)], sq_called := sq_called s @ [i]\<rparr>)
     else s)"
  by pat_completeness auto
termination by (relation "measure (\<lambda>(i, s). length (sq_items s) - i)") auto

declare notified.simps [simp del]

fun is_done :: "seq_state \<Rightarrow> bool" where
  "is_done (SDone _) = True"
| "is_done _ = False"

definition seq_add :: "seq \<Rightarrow> seq" where
  "seq_add s = (let n = length (sq_items s); s1 = s\<lparr>sq_items := sq_items s @ [(False, SWaiting)]\<rparr> in
     if n = 0 \<or> is_done (snd (sq_items s ! (n - 1))) then notified n s1 else s1)"

text \<open>The future a callback returned completes, and with it \<open>F\<close>, which is associated with it.\<close>

definition seq_completed :: "nat \<Rightarrow> outcome3 \<Rightarrow> seq \<Rightarrow> seq" where
  "seq_completed i x s =
    (if i < length (sq_items s) \<and> snd (sq_items s ! i) = SRunning
     then notified (Suc i) (s\<lparr>sq_items := (sq_items s)[i := (fst (sq_items s ! i), SDone x)]\<rparr>) else s)"

definition seq_discard :: "nat \<Rightarrow> seq \<Rightarrow> seq" where
  "seq_discard i s =
    (if i < length (sq_items s) \<and> \<not> is_done (snd (sq_items s ! i)) then s\<lparr>sq_items := (sq_items s)[i := (True, snd (sq_items s ! i))]\<rparr> else s)"

text \<open>The discard of the last notifier reaches every future that has not completed.\<close>

definition seq_finalize :: "seq \<Rightarrow> seq" where
  "seq_finalize s = s\<lparr>sq_items := map (\<lambda>(d, x). (d \<or> \<not> is_done x, x)) (sq_items s)\<rparr>"

datatype seq_event = AddCallback | CallbackDone nat outcome3 | DiscardCallback nat | FinalizeSeq

fun sequence_step :: "seq_event \<Rightarrow> seq \<Rightarrow> seq" where
  "sequence_step AddCallback s = seq_add s"
| "sequence_step (CallbackDone i x) s = seq_completed i x s"
| "sequence_step (DiscardCallback i) s = seq_discard i s"
| "sequence_step FinalizeSeq s = seq_finalize s"

fun seq_run :: "seq_event list \<Rightarrow> seq \<Rightarrow> seq" where
  "seq_run [] s = s"
| "seq_run (e # es) s = seq_run es (sequence_step e s)"

text \<open>Done, then, unless all are done, one that runs and is the last that was called, then waiting ones.\<close>

definition seq_shape :: "seq_state list \<Rightarrow> nat list \<Rightarrow> bool" where
  "seq_shape xs cs = (\<exists>ds. list_all is_done ds \<and> sorted_wrt (<) cs
     \<and> ((xs = ds \<and> list_all (\<lambda>c. c < length ds) cs)
        \<or> (\<exists>k cs'. xs = ds @ SRunning # replicate k SWaiting \<and> cs = cs' @ [length ds])))"

definition skipped_ok :: "seq \<Rightarrow> bool" where
  "skipped_ok s = (\<forall>i < length (sq_items s). is_done (snd (sq_items s ! i)) \<and> i \<notin> set (sq_called s) \<longrightarrow> sq_items s ! i = (True, SDone ODiscarded))"

lemma notified_shape:
  assumes "map snd (sq_items s) = ds @ replicate k SWaiting" and "i = length ds" and "list_all is_done ds"
    and "sorted_wrt (<) (sq_called s)" and "list_all (\<lambda>c. c < length ds) (sq_called s)"
  shows "seq_shape (map snd (sq_items (notified i s))) (sq_called (notified i s))"
  using assms
proof (induction i s arbitrary: ds k rule: notified.induct)
  case (1 i s)
  have len: "length (sq_items s) = length ds + k" using arg_cong [OF "1.prems"(1), of length] by simp
  show ?case
  proof (cases k)
    case 0
    then show ?thesis using "1.prems" len by (subst (1 2) notified.simps) (auto simp: seq_shape_def)
  next
    case (Suc n)
    then have i: "i < length (sq_items s)" "map snd ((sq_items s)[i := x]) = ds @ snd x # replicate n SWaiting" for x
      using "1.prems"(1,2) len by (simp_all add: map_update list_update_append)
    show ?thesis
    proof (cases "fst (sq_items s ! i)")
      case True
      have "list_all (\<lambda>c. c < Suc (length ds)) (sq_called s)" using "1.prems"(5) by (auto simp: list_all_iff)
      then show ?thesis
        using 1(1) [where ds = "ds @ [SDone ODiscarded]" and k = n] "1.prems" i True by (subst (1 2) notified.simps) simp
    next
      case False
      have "seq_shape (ds @ SRunning # replicate n SWaiting) (sq_called s @ [i])"
        using "1.prems"(2-5) by (auto simp: seq_shape_def sorted_wrt_append list_all_iff intro!: exI [of _ ds])
      then show ?thesis using i False by (subst (1 2) notified.simps) simp
    qed
  qed
qed

lemma notified_skips: "skipped_ok s \<Longrightarrow> skipped_ok (notified i s)"
proof (induction i s rule: notified.induct)
  case (1 i s)
  have "skipped_ok (s\<lparr>sq_items := (sq_items s)[i := (True, SDone ODiscarded)]\<rparr>)"
      "skipped_ok (s\<lparr>sq_items := (sq_items s)[i := (False, SRunning)], sq_called := sq_called s @ [i]\<rparr>)"
    using "1.prems" by (cases "i < length (sq_items s)"; auto simp: skipped_ok_def nth_list_update)+
  then show ?case using 1 by (subst notified.simps) simp
qed

lemma notified_keeps:
  assumes "j < length (sq_items s)" and "fst (sq_items s ! j)" and "j \<notin> set (sq_called s)"
  shows "j < length (sq_items (notified i s)) \<and> fst (sq_items (notified i s) ! j) \<and> j \<notin> set (sq_called (notified i s))"
  using assms
proof (induction i s rule: notified.induct)
  case (1 i s)
  then show ?case by (subst (1 2 3) notified.simps) (auto simp: nth_list_update)
qed

lemma running_position:
  assumes "seq_shape xs cs" and "i < length xs" and "xs ! i = SRunning"
  shows "\<exists>ds k cs'. list_all is_done ds \<and> sorted_wrt (<) cs \<and> xs = ds @ SRunning # replicate k SWaiting \<and> cs = cs' @ [length ds] \<and> i = length ds"
proof -
  from assms(1) obtain ds where ds: "list_all is_done ds" "sorted_wrt (<) cs"
    and c: "(xs = ds \<and> list_all (\<lambda>c. c < length ds) cs) \<or> (\<exists>k cs'. xs = ds @ SRunning # replicate k SWaiting \<and> cs = cs' @ [length ds])"
    by (auto simp: seq_shape_def)
  have not_done: "\<not> i < length ds \<or> xs ! i \<noteq> ds ! i" using ds(1) assms(3) by (auto simp: list_all_length)
  then obtain k cs' where k: "xs = ds @ SRunning # replicate k SWaiting" "cs = cs' @ [length ds]" using c assms(2) by auto
  then have "i = length ds" using not_done assms(2,3) by (auto simp: nth_append nth_Cons' split: if_splits)
  then show ?thesis using k ds by blast
qed

lemma running_split:
  assumes "seq_shape xs cs" and "i < length xs" and "xs ! i = SRunning"
  shows "(\<forall>j < i. is_done (xs ! j)) \<and> (\<forall>j < length xs. i < j \<longrightarrow> xs ! j = SWaiting) \<and> i = last cs"
  using running_position [OF assms] by (auto simp: nth_append nth_Cons' list_all_length)

lemma waiting_behind:
  assumes "seq_shape xs cs" and "i < length xs" and "xs ! i = SWaiting"
  shows "\<exists>j < i. xs ! j = SRunning"
proof -
  from assms(1) obtain ds where ds: "list_all is_done ds" "xs = ds \<or> (\<exists>k. xs = ds @ SRunning # replicate k SWaiting)" by (auto simp: seq_shape_def)
  have "i < length ds \<Longrightarrow> ds ! i \<noteq> SWaiting" using ds(1) by (auto simp: list_all_length)
  then have "length ds < i" "xs ! length ds = SRunning" using ds(2) assms(2,3) by (auto simp: nth_append nth_Cons' split: if_splits)
  then show ?thesis by blast
qed

definition seq_inv :: "seq \<Rightarrow> bool" where
  "seq_inv s = (seq_shape (map snd (sq_items s)) (sq_called s) \<and> skipped_ok s)"

lemma seq_add_inv:
  assumes "seq_inv s"
  shows "seq_inv (seq_add s)"
proof -
  let ?s = "s\<lparr>sq_items := sq_items s @ [(False, SWaiting)]\<rparr>" and ?n = "length (sq_items s)"
  have skipped: "skipped_ok ?s" using assms by (auto simp: seq_inv_def skipped_ok_def nth_append less_Suc_eq)
  from assms obtain ds where ds: "list_all is_done ds" "sorted_wrt (<) (sq_called s)"
    and c: "(map snd (sq_items s) = ds \<and> list_all (\<lambda>c. c < length ds) (sq_called s))
      \<or> (\<exists>k cs'. map snd (sq_items s) = ds @ SRunning # replicate k SWaiting \<and> sq_called s = cs' @ [length ds])"
    by (auto simp: seq_inv_def seq_shape_def)
  from c show ?thesis
  proof (elim disjE exE)
    assume a: "map snd (sq_items s) = ds \<and> list_all (\<lambda>c. c < length ds) (sq_called s)"
    then have "?n = length ds" by auto
    moreover have "?n = 0 \<or> is_done (snd (sq_items s ! (?n - 1)))" using a ds(1) by (cases "?n = 0") (auto simp: list_all_length)
    moreover have "seq_shape (map snd (sq_items (notified ?n ?s))) (sq_called (notified ?n ?s))"
      using notified_shape [of ?s ds 1 ?n] a ds \<open>?n = length ds\<close> by simp
    ultimately show ?thesis using notified_skips [OF skipped] by (simp add: seq_add_def seq_inv_def Let_def)
  next
    fix k cs' assume a: "map snd (sq_items s) = ds @ SRunning # replicate k SWaiting \<and> sq_called s = cs' @ [length ds]"
    then have "map snd (sq_items ?s) = ds @ SRunning # replicate (Suc k) SWaiting" by (simp add: replicate_append_same)
    then have "seq_shape (map snd (sq_items ?s)) (sq_called ?s)" using a ds unfolding seq_shape_def by (intro exI [of _ ds] conjI disjI2 exI [of _ "Suc k"] exI [of _ cs']) simp_all
    moreover have "?n \<noteq> 0" using a by auto
    moreover have "snd (last (sq_items s)) = last (ds @ SRunning # replicate k SWaiting)" using a \<open>?n \<noteq> 0\<close> by (metis last_map length_0_conv)
    then have "\<not> is_done (snd (last (sq_items s)))" by (cases k) simp_all
    then have "\<not> is_done (snd (sq_items s ! (?n - 1)))" using \<open>?n \<noteq> 0\<close> by (simp add: last_conv_nth)
    ultimately show ?thesis using skipped by (simp add: seq_add_def seq_inv_def Let_def)
  qed
qed

lemma seq_completed_inv:
  assumes "seq_inv s"
  shows "seq_inv (seq_completed i x s)"
proof (cases "i < length (sq_items s) \<and> snd (sq_items s ! i) = SRunning")
  case True
  let ?s = "s\<lparr>sq_items := (sq_items s)[i := (fst (sq_items s ! i), SDone x)]\<rparr>"
  obtain ds k cs' where ds: "list_all is_done ds" "sorted_wrt (<) (sq_called s)" "map snd (sq_items s) = ds @ SRunning # replicate k SWaiting"
      "sq_called s = cs' @ [length ds]" "i = length ds"
    using running_position [of "map snd (sq_items s)" "sq_called s" i] assms True by (auto simp: seq_inv_def)
  have "map snd (sq_items ?s) = (ds @ [SDone x]) @ replicate k SWaiting" using ds(3,5) by (simp add: map_update list_update_append)
  moreover have "list_all (\<lambda>c. c < length (ds @ [SDone x])) (sq_called ?s)" using ds(2,4) by (auto simp: sorted_wrt_append list_all_iff)
  ultimately have "seq_shape (map snd (sq_items (notified (Suc i) ?s))) (sq_called (notified (Suc i) ?s))"
    using ds(1,2,5) by (intro notified_shape [where ds = "ds @ [SDone x]" and k = k]) simp_all
  moreover have "skipped_ok ?s" using assms ds(4,5) by (auto simp: seq_inv_def skipped_ok_def nth_list_update)
  ultimately show ?thesis using True notified_skips by (simp add: seq_completed_def seq_inv_def)
qed (use assms in \<open>auto simp: seq_completed_def\<close>)

lemma sequence_step_inv:
  assumes "seq_inv s"
  shows "seq_inv (sequence_step e s)"
proof (cases e)
  case (DiscardCallback i)
  have "map snd ((sq_items s)[i := (True, snd (sq_items s ! i))]) = map snd (sq_items s)" if "i < length (sq_items s)"
    using that by (metis list_update_id map_update nth_map snd_conv)
  then show ?thesis using DiscardCallback assms by (auto simp: seq_discard_def seq_inv_def skipped_ok_def nth_list_update)
next
  case FinalizeSeq
  have "map snd (map (\<lambda>(d, x). (d \<or> \<not> is_done x, x)) (sq_items s)) = map snd (sq_items s)" and "snd \<circ> (\<lambda>(d, x). (d \<or> \<not> is_done x, x)) = snd" by auto
  then show ?thesis using FinalizeSeq assms by (auto simp: seq_finalize_def seq_inv_def skipped_ok_def split: prod.splits)
qed (use assms seq_add_inv seq_completed_inv in simp_all)

lemma seq_run_inv: "seq_inv s \<Longrightarrow> seq_inv (seq_run es s)"
  by (induction es arbitrary: s) (simp_all add: sequence_step_inv)

lemma seq_run_append: "seq_run (es @ fs) s = seq_run fs (seq_run es s)"
  by (induction es arbitrary: s) simp_all

lemma discarded_stays:
  assumes "j < length (sq_items s)" and "fst (sq_items s ! j)" and "j \<notin> set (sq_called s)"
  shows "j \<notin> set (sq_called (seq_run es s))"
  using assms
proof (induction es arbitrary: s)
  case (Cons e es)
  note keeps = notified_keeps [of j "s\<lparr>sq_items := sq_items s @ [(False, SWaiting)]\<rparr>" "length (sq_items s)"]
  have "j < length (sq_items (sequence_step e s)) \<and> fst (sq_items (sequence_step e s) ! j) \<and> j \<notin> set (sq_called (sequence_step e s))"
  proof (cases e)
    case (CallbackDone i x)
    then show ?thesis
      using Cons.prems notified_keeps [of j "s\<lparr>sq_items := (sq_items s)[i := (fst (sq_items s ! i), SDone x)]\<rparr>" "Suc i"]
      by (auto simp: seq_completed_def nth_list_update)
  qed (use Cons.prems keeps in \<open>auto simp: seq_add_def seq_discard_def seq_finalize_def Let_def nth_append nth_list_update split: prod.splits\<close>)
  then show ?case using Cons.IH by simp
qed simp

text \<open>
  A sequence runs one callback at a time, in the order of \<^verbatim>\<open>add\<close>: whatever is added, completes, is discarded, and when, the callbacks called are in order; at most one runs,
  and while it runs every earlier future is done and no later callback was called; if a future waits then some callback runs, so the sequence is never stuck; a future that is
  done although its callback was not called had a discard requested and is discarded; and a discard requested before the callback was called keeps it from ever being called.
\<close>

theorem sequence_serializes:
  fixes es fs :: "seq_event list"
  defines "s \<equiv> seq_run es seq_init"
  shows "sorted_wrt (<) (sq_called s)
    \<and> (\<forall>i < length (sq_items s). snd (sq_items s ! i) = SRunning \<longrightarrow>
         (\<forall>j < i. is_done (snd (sq_items s ! j))) \<and> (\<forall>j < length (sq_items s). i < j \<longrightarrow> snd (sq_items s ! j) = SWaiting) \<and> i = last (sq_called s))
    \<and> (\<forall>i < length (sq_items s). snd (sq_items s ! i) = SWaiting \<longrightarrow> (\<exists>j < i. snd (sq_items s ! j) = SRunning))
    \<and> (\<forall>i < length (sq_items s). is_done (snd (sq_items s ! i)) \<and> i \<notin> set (sq_called s) \<longrightarrow> sq_items s ! i = (True, SDone ODiscarded))
    \<and> (\<forall>i < length (sq_items s). fst (sq_items s ! i) \<and> i \<notin> set (sq_called s) \<longrightarrow> i \<notin> set (sq_called (seq_run (es @ fs) seq_init)))"
proof -
  let ?xs = "map snd (sq_items s)"
  have "seq_inv seq_init" by (simp add: seq_inv_def seq_init_def seq_shape_def skipped_ok_def)
  then have inv: "seq_shape ?xs (sq_called s)" "skipped_ok s" using seq_run_inv by (auto simp: s_def seq_inv_def)
  have sorted: "sorted_wrt (<) (sq_called s)" using inv(1) by (auto simp: seq_shape_def)
  have runs: "(\<forall>j < i. is_done (snd (sq_items s ! j))) \<and> (\<forall>j < length (sq_items s). i < j \<longrightarrow> snd (sq_items s ! j) = SWaiting) \<and> i = last (sq_called s)"
    if "i < length (sq_items s)" "snd (sq_items s ! i) = SRunning" for i
    using running_split [OF inv(1), of i] that by (auto simp del: map_eq_conv)
  have stuck: "\<exists>j < i. snd (sq_items s ! j) = SRunning" if "i < length (sq_items s)" "snd (sq_items s ! i) = SWaiting" for i
    using waiting_behind [OF inv(1), of i] that by auto
  have never: "i \<notin> set (sq_called (seq_run (es @ fs) seq_init))" if "i < length (sq_items s)" "fst (sq_items s ! i) \<and> i \<notin> set (sq_called s)" for i
    using discarded_stays [of i s fs] that by (simp add: seq_run_append s_def)
  show ?thesis using sorted runs stuck never inv(2) unfolding skipped_ok_def by blast
qed

theorem sequence_serializes_witness:
  "sq_called (seq_run [AddCallback, AddCallback, AddCallback, DiscardCallback 1, CallbackDone 0 OFailed] seq_init) = [0, 2]
    \<and> 1 \<notin> set (sq_called (seq_run ([AddCallback, AddCallback, AddCallback, DiscardCallback 1] @ [CallbackDone 0 OFailed]) seq_init))"
proof
  let ?es = "[AddCallback, AddCallback, AddCallback, DiscardCallback 1]"
  show "1 \<notin> set (sq_called (seq_run (?es @ [CallbackDone 0 OFailed]) seq_init))"
    using sequence_serializes [of ?es "[CallbackDone 0 OFailed]", THEN conjunct2, THEN conjunct2, THEN conjunct2, THEN conjunct2, rule_format, of 1]
    by (simp add: seq_init_def seq_add_def seq_discard_def notified.simps)
  show "sq_called (seq_run [AddCallback, AddCallback, AddCallback, DiscardCallback 1, CallbackDone 0 OFailed] seq_init) = [0, 2]"
    by (simp add: seq_init_def seq_add_def seq_discard_def seq_completed_def notified.simps)
qed

section \<open>CountDownLatch\<close>

text \<open>
  Each thread runs \<^verbatim>\<open>decrement\<close> once, in steps as the atomic operations divide it: the load, each round of the loop with its compare-and-exchange (a failed one
  reloads), and the \<^verbatim>\<open>set\<close>. \<open>cl_sets\<close> counts the calls of \<^verbatim>\<open>set\<close>.
\<close>

datatype decrementing = NotLoaded | Loaded nat | Setting | Finished

record latch =
  cl_count :: nat
  cl_sets :: nat
  cl_threads :: "decrementing list"

definition latch_init :: "nat \<Rightarrow> nat \<Rightarrow> latch" where
  "latch_init n k = \<lparr>cl_count = n, cl_sets = 0, cl_threads = replicate k NotLoaded\<rparr>"

definition decrement :: "nat \<Rightarrow> latch \<Rightarrow> latch" where
  "decrement t l =
    (if t < length (cl_threads l)
     then (case cl_threads l ! t of
         NotLoaded \<Rightarrow> l\<lparr>cl_threads := (cl_threads l)[t := Loaded (cl_count l)]\<rparr>
       | Loaded expected \<Rightarrow>
           if expected = 0 then l\<lparr>cl_threads := (cl_threads l)[t := Finished]\<rparr>
           else if cl_count l = expected
           then l\<lparr>cl_count := expected - 1, cl_threads := (cl_threads l)[t := if expected = 1 then Setting else Finished]\<rparr>
           else l\<lparr>cl_threads := (cl_threads l)[t := Loaded (cl_count l)]\<rparr>
       | Setting \<Rightarrow> l\<lparr>cl_sets := Suc (cl_sets l), cl_threads := (cl_threads l)[t := Finished]\<rparr>
       | Finished \<Rightarrow> l)
     else l)"

definition past_loop :: "decrementing \<Rightarrow> bool" where
  "past_loop x = (x = Setting \<or> x = Finished)"

definition latch_inv :: "nat \<Rightarrow> latch \<Rightarrow> bool" where
  "latch_inv n l = (cl_count l = n - how_many past_loop (cl_threads l)
    \<and> cl_sets l + how_many (\<lambda>x. x = Setting) (cl_threads l) = (if 0 < n \<and> n \<le> how_many past_loop (cl_threads l) then 1 else 0)
    \<and> (\<forall>e. Loaded e \<in> set (cl_threads l) \<longrightarrow> cl_count l \<le> e))"

lemma decrement_inv:
  assumes "latch_inv n l"
  shows "latch_inv n (decrement t l)"
proof (cases "t < length (cl_threads l)")
  case t: True
  have past: "how_many past_loop ((cl_threads l)[t := x]) + (if past_loop (cl_threads l ! t) then 1 else 0) = how_many past_loop (cl_threads l) + (if past_loop x then 1 else 0)"
    and setting: "how_many (\<lambda>x. x = Setting) ((cl_threads l)[t := x]) + (if cl_threads l ! t = Setting then 1 else 0)
      = how_many (\<lambda>x. x = Setting) (cl_threads l) + (if x = Setting then 1 else 0)" for x
    using how_many_update [OF t] by blast+
  have loaded: "\<forall>e. Loaded e \<in> set ((cl_threads l)[t := x]) \<longrightarrow> c \<le> e" if "\<forall>e. x = Loaded e \<longrightarrow> c \<le> e" "c \<le> cl_count l" for x c
  proof (intro allI impI)
    fix e assume "Loaded e \<in> set ((cl_threads l)[t := x])"
    then consider "x = Loaded e" | "Loaded e \<in> set (cl_threads l)" using set_update_subset_insert [of "cl_threads l" t x] by auto
    then show "c \<le> e" using assms that by cases (auto simp: latch_inv_def)
  qed
  show ?thesis
  proof (cases "cl_threads l ! t")
    case NotLoaded
    then show ?thesis using assms t past [of "Loaded (cl_count l)"] setting [of "Loaded (cl_count l)"] loaded [of "Loaded (cl_count l)" "cl_count l"]
      by (simp add: decrement_def latch_inv_def past_loop_def)
  next
    case (Loaded e)
    then have "cl_count l \<le> e" using assms t nth_mem [OF t] by (metis latch_inv_def)
    then consider "e = 0" "cl_count l = 0" | "e > 0" "cl_count l = e" | "e > 0" "cl_count l \<noteq> e" by fastforce
    then show ?thesis
    proof cases
      case 1
      then show ?thesis using assms t Loaded past [of Finished] setting [of Finished] loaded [of Finished "cl_count l"]
        by (auto simp: decrement_def latch_inv_def past_loop_def split: if_splits)
    next
      case 2
      let ?x = "if e = 1 then Setting else Finished"
      have counts: "how_many past_loop ((cl_threads l)[t := ?x]) = Suc (how_many past_loop (cl_threads l))"
          "how_many (\<lambda>x. x = Setting) ((cl_threads l)[t := ?x]) = how_many (\<lambda>x. x = Setting) (cl_threads l) + (if e = 1 then 1 else 0)"
        using past [of ?x] setting [of ?x] Loaded by (simp_all add: past_loop_def split: if_splits)
      have e: "e = n - how_many past_loop (cl_threads l)" "cl_sets l + how_many (\<lambda>x. x = Setting) (cl_threads l) = 0"
        using assms 2 unfolding latch_inv_def by (simp_all split: if_splits)
      have l': "decrement t l = l\<lparr>cl_count := e - 1, cl_threads := (cl_threads l)[t := ?x]\<rparr>" using t Loaded 2 by (simp add: decrement_def)
      show ?thesis unfolding l' latch_inv_def using counts e 2 loaded [of ?x "e - 1"] by (cases "e = 1") simp_all
    next
      case 3
      then show ?thesis using assms t Loaded past [of "Loaded (cl_count l)"] setting [of "Loaded (cl_count l)"] loaded [of "Loaded (cl_count l)" "cl_count l"]
        by (simp add: decrement_def latch_inv_def past_loop_def)
    qed
  next
    case Setting
    then show ?thesis using assms t past [of Finished] setting [of Finished] loaded [of Finished "cl_count l"]
      by (auto simp: decrement_def latch_inv_def past_loop_def split: if_splits)
  next
    case Finished
    then show ?thesis using assms by (simp add: decrement_def)
  qed
qed (simp add: decrement_def assms)

lemma decrement_threads: "length (cl_threads (decrement t l)) = length (cl_threads l)"
  by (simp add: decrement_def split: decrementing.splits)

text \<open>
  A latch that counts down from \<open>n\<close>, with \<open>k\<close> threads that decrement it in any interleaving: the count is \<open>n\<close> less the threads that are past the loop, so no decrement is
  lost and none goes below zero; the promise is set at most once, so \<^verbatim>\<open>set\<close> never fails; and once every thread has returned it has been set exactly if
  there were at least \<open>n > 0\<close> of them.
\<close>

theorem latch_counts_down:
  fixes n k :: nat and ts :: "nat list"
  defines "l \<equiv> fold decrement ts (latch_init n k)"
  shows "cl_count l = n - how_many past_loop (cl_threads l) \<and> cl_sets l \<le> 1
    \<and> (set (cl_threads l) \<subseteq> {Finished} \<longrightarrow> cl_sets l = (if 0 < n \<and> n \<le> k then 1 else 0))"
proof -
  have none: "how_many P (replicate k NotLoaded) = 0" if "\<not> P NotLoaded" for P using that by (simp add: how_many_def)
  have "latch_inv n (fold decrement ts l0) \<and> length (cl_threads (fold decrement ts l0)) = length (cl_threads l0)" if "latch_inv n l0" for l0
    using that by (induction ts arbitrary: l0) (simp_all add: decrement_inv decrement_threads)
  moreover have "latch_inv n (latch_init n k)" by (auto simp: latch_inv_def latch_init_def none past_loop_def)
  ultimately have inv: "latch_inv n l" "length (cl_threads l) = k" by (auto simp: l_def latch_init_def)
  have "how_many past_loop (cl_threads l) = k \<and> how_many (\<lambda>x. x = Setting) (cl_threads l) = 0" if "set (cl_threads l) \<subseteq> {Finished}"
  proof -
    have "filter past_loop (cl_threads l) = cl_threads l" "filter (\<lambda>x. x = Setting) (cl_threads l) = []"
      using that by (auto simp: past_loop_def filter_id_conv filter_empty_conv)
    then show ?thesis using inv(2) by (simp add: how_many_def)
  qed
  then show ?thesis using inv(1) by (auto simp: latch_inv_def split: if_splits)
qed

theorem latch_counts_down_witness:
  "cl_sets (fold decrement [0, 1, 2, 0, 1, 2, 1, 2, 2, 1] (latch_init 2 3)) = 1"
proof -
  have "set (cl_threads (fold decrement [0, 1, 2, 0, 1, 2, 1, 2, 2, 1] (latch_init 2 3))) \<subseteq> {Finished}"
    by (simp add: latch_init_def decrement_def numeral_3_eq_3)
  then show ?thesis using latch_counts_down [of "[0, 1, 2, 0, 1, 2, 1, 2, 2, 1]" 2 3] by simp
qed

end
