(* ===== verification/Semaphores.thy ===== *)
theory Semaphores
  imports Prelude
begin

text \<open>
  \<^verbatim>\<open>src/semaphore.hpp\<close>: the two semaphores on which worker threads wait for the run queue, each in steps as its atomic operations divide it. A kernel
  semaphore is its value; threads are numbers. Both can be decomissioned, which is to release every waiter.
\<close>

section \<open>DecomissionableKernelSemaphore\<close>

datatype kernel_pc = KOut | KIncremented | KBlocked | KLeaving

text \<open>What is left of the call of \<^verbatim>\<open>decomission\<close>: not called, before the load of \<^verbatim>\<open>waiters\<close>, this many calls of \<^verbatim>\<open>signal\<close>.\<close>

datatype decomissioning = NotCalled | Stored | Signals nat

record kernel_sem =
  ks_value :: nat
  ks_comissioned :: bool
  ks_waiters :: nat
  ks_threads :: "kernel_pc list"
  ks_decomission :: decomissioning

definition kernel_sem_init :: "nat \<Rightarrow> kernel_sem" where
  "kernel_sem_init n = \<lparr>ks_value = 0, ks_comissioned = True, ks_waiters = 0, ks_threads = replicate n KOut, ks_decomission = NotCalled\<rparr>"

text \<open>The next step of a thread in \<^verbatim>\<open>wait\<close>; a thread that is out calls it. A blocked thread stays until the value is positive.\<close>

definition kernel_wait :: "nat \<Rightarrow> kernel_sem \<Rightarrow> kernel_sem" where
  "kernel_wait t s = (case ks_threads s ! t of
     KOut \<Rightarrow> s\<lparr>ks_waiters := Suc (ks_waiters s), ks_threads := (ks_threads s)[t := KIncremented]\<rparr>
   | KIncremented \<Rightarrow> s\<lparr>ks_threads := (ks_threads s)[t := if ks_comissioned s then KBlocked else KLeaving]\<rparr>
   | KBlocked \<Rightarrow> if ks_value s = 0 then s else s\<lparr>ks_value := ks_value s - 1, ks_threads := (ks_threads s)[t := KLeaving]\<rparr>
   | KLeaving \<Rightarrow> s\<lparr>ks_waiters := ks_waiters s - 1, ks_threads := (ks_threads s)[t := KOut]\<rparr>)"

definition kernel_signal :: "kernel_sem \<Rightarrow> kernel_sem" where
  "kernel_signal s = s\<lparr>ks_value := Suc (ks_value s)\<rparr>"

definition kernel_decomission :: "kernel_sem \<Rightarrow> kernel_sem" where
  "kernel_decomission s = (case ks_decomission s of
     NotCalled \<Rightarrow> s\<lparr>ks_comissioned := False, ks_decomission := Stored\<rparr>
   | Stored \<Rightarrow> s\<lparr>ks_decomission := Signals (ks_waiters s)\<rparr>
   | Signals 0 \<Rightarrow> s
   | Signals (Suc i) \<Rightarrow> (kernel_signal s)\<lparr>ks_decomission := Signals i\<rparr>)"

datatype kernel_event = KWait nat | KSignal | KDecomission

fun kernel_step :: "kernel_event \<Rightarrow> kernel_sem \<Rightarrow> kernel_sem" where
  "kernel_step (KWait t) s = (if t < length (ks_threads s) then kernel_wait t s else s)"
| "kernel_step KSignal s = kernel_signal s"
| "kernel_step KDecomission s = kernel_decomission s"

definition blocked :: "kernel_sem \<Rightarrow> nat" where
  "blocked s = how_many (\<lambda>x. x = KBlocked) (ks_threads s)"

definition kernel_inv :: "kernel_sem \<Rightarrow> bool" where
  "kernel_inv s = (ks_waiters s = how_many (\<lambda>x. x \<noteq> KOut) (ks_threads s) \<and> (ks_comissioned s \<longleftrightarrow> ks_decomission s = NotCalled)
    \<and> (\<forall>i. ks_decomission s = Signals i \<longrightarrow> blocked s \<le> ks_value s + i))"

lemma kernel_wait_inv:
  assumes "kernel_inv s" and t: "t < length (ks_threads s)"
  shows "kernel_inv (kernel_wait t s)"
proof -
  note counts = how_many_update [OF t, of "\<lambda>x. x = KBlocked"] how_many_update [OF t, of "\<lambda>x. x \<noteq> KOut"]
  show ?thesis
  proof (cases "ks_threads s ! t")
    case KOut
    then show ?thesis using assms counts [of KIncremented] by (simp add: kernel_inv_def kernel_wait_def blocked_def)
  next
    case KIncremented
    let ?x = "if ks_comissioned s then KBlocked else KLeaving"
    show ?thesis using KIncremented assms counts [of ?x] by (auto simp: kernel_inv_def kernel_wait_def blocked_def split: if_splits)
  next
    case KBlocked
    then show ?thesis using assms counts [of KLeaving] by (auto simp: kernel_inv_def kernel_wait_def blocked_def)
  next
    case KLeaving
    then show ?thesis using assms counts [of KOut] by (simp add: kernel_inv_def kernel_wait_def blocked_def)
  qed
qed

lemma kernel_decomission_inv:
  assumes "kernel_inv s"
  shows "kernel_inv (kernel_decomission s)"
proof -
  have "blocked s \<le> ks_waiters s" using assms by (auto simp: kernel_inv_def blocked_def intro: how_many_mono)
  then show ?thesis using assms
    by (auto simp: kernel_inv_def kernel_decomission_def kernel_signal_def blocked_def split: decomissioning.splits nat.splits)
qed

lemma kernel_run_inv: "kernel_inv s \<Longrightarrow> kernel_inv (fold kernel_step es s)"
proof (induction es arbitrary: s)
  case (Cons e es)
  have "kernel_inv (kernel_step e s)"
    using Cons.prems kernel_wait_inv kernel_decomission_inv by (cases e) (auto simp: kernel_inv_def kernel_signal_def blocked_def)
  then show ?case using Cons.IH by simp
qed simp

text \<open>
  Decomissioning the kernel semaphore releases every thread: in every interleaving of threads that wait, signals and one call of \<^verbatim>\<open>decomission\<close>, once that call has
  returned the value of the semaphore is enough for all threads that are blocked, and a thread that calls \<^verbatim>\<open>wait\<close> afterwards does not block.
\<close>

theorem decomission_releases_all:
  assumes "s = fold kernel_step es (kernel_sem_init n)" and "ks_decomission s = Signals 0"
  shows "blocked s \<le> ks_value s \<and> (\<forall>t < n. ks_threads s ! t = KIncremented \<longrightarrow> ks_threads (kernel_wait t s) ! t = KLeaving)"
proof -
  have len: "length (ks_threads (fold kernel_step es s)) = length (ks_threads s)" for s
  proof (induction es arbitrary: s)
    case (Cons e es)
    have "length (ks_threads (kernel_step e s)) = length (ks_threads s)"
      by (cases e) (auto simp: kernel_wait_def kernel_signal_def kernel_decomission_def split: kernel_pc.splits decomissioning.splits nat.splits)
    then show ?case using Cons.IH by simp
  qed simp
  have "kernel_inv (kernel_sem_init n)" by (simp add: kernel_inv_def kernel_sem_init_def how_many_replicate)
  then have "kernel_inv s" using kernel_run_inv assms(1) by simp
  moreover have "length (ks_threads s) = n" using len assms(1) by (simp add: kernel_sem_init_def)
  ultimately show ?thesis using assms(2) by (auto simp: kernel_inv_def kernel_wait_def)
qed

theorem decomission_releases_all_witness:
  "\<exists>s. s = fold kernel_step [KWait 0, KWait 0, KWait 1, KDecomission, KDecomission, KDecomission, KDecomission] (kernel_sem_init 2)
    \<and> ks_threads s ! 0 = KBlocked \<and> blocked s \<le> ks_value s \<and> ks_threads (kernel_wait 1 s) ! 1 = KLeaving"
proof -
  define s where "s = fold kernel_step [KWait 0, KWait 0, KWait 1, KDecomission, KDecomission, KDecomission, KDecomission] (kernel_sem_init 2)"
  have "ks_threads s ! 0 = KBlocked" "ks_threads s ! 1 = KIncremented" "ks_decomission s = Signals 0"
    by (simp_all add: s_def kernel_sem_init_def kernel_wait_def kernel_decomission_def kernel_signal_def numeral_2_eq_2)
  then show ?thesis using decomission_releases_all [OF s_def] unfolding s_def [symmetric] by simp
qed

section \<open>DecomissionableLastInFirstOutFixedSizeSemaphore\<close>

text \<open>
  Where a thread is: in \<^verbatim>\<open>wait\<close> (\<open>W\<close>), in \<^verbatim>\<open>signal\<close> (\<open>S\<close>), in \<^verbatim>\<open>decomission\<close> (\<open>D\<close>). The arguments are the local variables: \<^verbatim>\<open>old\<close>, the
  index \<^verbatim>\<open>i\<close>, the thread whose semaphore was loaded from a slot.
\<close>

datatype lifo_pc = Idle
  | WLoad | WCas nat | WRegister | WCheck | WScan nat | WRecheck nat | WUnregister nat | WInstall nat | WPark | WQuit
  | SAdd | SWaiters | SCount | SScanWaiters nat | SScanCount nat | SSlot nat | SSwap nat nat | SClaimed nat | SPost nat
  | DStore | DLoad

text \<open>
  \<open>lf_slots\<close> is the array \<^verbatim>\<open>semaphores\<close>; a pointer to the semaphore of a thread is the thread. \<open>lf_sems\<close> are the values of these semaphores, \<open>lf_repeat\<close> the
  calls of \<^verbatim>\<open>signal\<close> that the loop of \<^verbatim>\<open>decomission\<close> has left. Ghost: the units added and taken.
\<close>

record lifo =
  lf_count :: nat
  lf_waiters :: nat
  lf_comissioned :: bool
  lf_slots :: "nat option list"
  lf_sems :: "nat \<Rightarrow> nat"
  lf_pcs :: "lifo_pc list"
  lf_repeat :: "nat \<Rightarrow> nat"
  lf_added :: nat
  lf_taken :: nat

definition lifo_init :: "nat \<Rightarrow> nat \<Rightarrow> lifo" where
  "lifo_init capacity n = \<lparr>lf_count = 0, lf_waiters = 0, lf_comissioned = True, lf_slots = replicate capacity None, lf_sems = (\<lambda>_. 0),
     lf_pcs = replicate n Idle, lf_repeat = (\<lambda>_. 0), lf_added = 0, lf_taken = 0\<rparr>"

abbreviation goto :: "nat \<Rightarrow> lifo_pc \<Rightarrow> lifo \<Rightarrow> lifo" where
  "goto t p s \<equiv> s\<lparr>lf_pcs := (lf_pcs s)[t := p]\<rparr>"

text \<open>\<^verbatim>\<open>signal\<close> returns, to \<^verbatim>\<open>decomission\<close> if that called it.\<close>

definition signal_returns :: "nat \<Rightarrow> lifo \<Rightarrow> lifo" where
  "signal_returns t s = (case lf_repeat s t of
     0 \<Rightarrow> goto t Idle s
   | Suc r \<Rightarrow> goto t SAdd (s\<lparr>lf_repeat := (lf_repeat s)(t := r)\<rparr>))"

text \<open>After the last slot the scan begins again: at once in \<^verbatim>\<open>wait\<close>, after the test of the outer loop in \<^verbatim>\<open>signal\<close>.\<close>

definition next_slot :: "nat \<Rightarrow> lifo \<Rightarrow> lifo_pc" where
  "next_slot i s = (if Suc i < length (lf_slots s) then WScan (Suc i) else WScan 0)"

definition next_signal :: "nat \<Rightarrow> lifo \<Rightarrow> lifo_pc" where
  "next_signal i s = (if Suc i < length (lf_slots s) then SScanWaiters (Suc i) else SWaiters)"

fun lifo_wait :: "nat \<Rightarrow> lifo_pc \<Rightarrow> lifo \<Rightarrow> lifo" where
  "lifo_wait t WLoad s = goto t (WCas (lf_count s)) s"
| "lifo_wait t (WCas old) s =
    (if old = 0 then goto t WRegister s
     else if lf_count s = old then goto t Idle (s\<lparr>lf_count := old - 1, lf_taken := Suc (lf_taken s)\<rparr>)
     else goto t (WCas (lf_count s)) s)"
| "lifo_wait t WRegister s = goto t WCheck (s\<lparr>lf_waiters := Suc (lf_waiters s)\<rparr>)"
| "lifo_wait t WCheck s = goto t (if lf_comissioned s then WScan 0 else WQuit) s"
| "lifo_wait t (WScan i) s = goto t (if lf_slots s ! i = None then WRecheck i else next_slot i s) s"
| "lifo_wait t (WRecheck i) s = goto t (if lf_count s > 0 then WUnregister (lf_count s) else WInstall i) s"
| "lifo_wait t (WUnregister old) s = goto t (WCas old) (s\<lparr>lf_waiters := lf_waiters s - 1\<rparr>)"
| "lifo_wait t (WInstall i) s =
    (if lf_slots s ! i = None then goto t WPark (s\<lparr>lf_slots := (lf_slots s)[i := Some t]\<rparr>) else goto t (next_slot i s) s)"
| "lifo_wait t WPark s = (if lf_sems s t = 0 then s else goto t WLoad (s\<lparr>lf_sems := (lf_sems s)(t := lf_sems s t - 1)\<rparr>))"
| "lifo_wait t WQuit s = goto t Idle (s\<lparr>lf_waiters := lf_waiters s - 1\<rparr>)"
| "lifo_wait t _ s = s"

fun lifo_signal :: "nat \<Rightarrow> lifo_pc \<Rightarrow> lifo \<Rightarrow> lifo" where
  "lifo_signal t SAdd s = goto t SWaiters (s\<lparr>lf_count := Suc (lf_count s), lf_added := Suc (lf_added s)\<rparr>)"
| "lifo_signal t SWaiters s = (if lf_waiters s > 0 then goto t SCount s else signal_returns t s)"
| "lifo_signal t SCount s = (if lf_count s > 0 then goto t (SScanWaiters 0) s else signal_returns t s)"
| "lifo_signal t (SScanWaiters i) s = (if lf_waiters s = 0 then signal_returns t s else goto t (SScanCount i) s)"
| "lifo_signal t (SScanCount i) s = (if lf_count s = 0 then signal_returns t s else goto t (SSlot i) s)"
| "lifo_signal t (SSlot i) s = goto t (case lf_slots s ! i of None \<Rightarrow> next_signal i s | Some u \<Rightarrow> SSwap i u) s"
| "lifo_signal t (SSwap i u) s =
    (if lf_slots s ! i = Some u then goto t (SClaimed u) (s\<lparr>lf_slots := (lf_slots s)[i := None]\<rparr>) else goto t (next_signal i s) s)"
| "lifo_signal t (SClaimed u) s = goto t (SPost u) (s\<lparr>lf_waiters := lf_waiters s - 1\<rparr>)"
| "lifo_signal t (SPost u) s = signal_returns t (s\<lparr>lf_sems := (lf_sems s)(u := Suc (lf_sems s u))\<rparr>)"
| "lifo_signal t _ s = s"

fun lifo_decomission :: "nat \<Rightarrow> lifo_pc \<Rightarrow> lifo \<Rightarrow> lifo" where
  "lifo_decomission t DStore s = goto t DLoad (s\<lparr>lf_comissioned := False\<rparr>)"
| "lifo_decomission t DLoad s = signal_returns t (s\<lparr>lf_repeat := (lf_repeat s)(t := lf_waiters s)\<rparr>)"
| "lifo_decomission t _ s = s"

datatype lifo_event = CallWait nat | CallSignal nat | CallDecomission nat | Step nat

definition enter :: "nat \<Rightarrow> lifo_pc \<Rightarrow> lifo \<Rightarrow> lifo" where
  "enter t p s = (if t < length (lf_pcs s) \<and> lf_pcs s ! t = Idle then goto t p (s\<lparr>lf_repeat := (lf_repeat s)(t := 0)\<rparr>) else s)"

text \<open>One step of a thread: each of the three is the identity on the places of the others.\<close>

definition lifo_thread :: "nat \<Rightarrow> lifo \<Rightarrow> lifo" where
  "lifo_thread t s = (let p = lf_pcs s ! t in
     if t < length (lf_pcs s) then lifo_decomission t p (lifo_signal t p (lifo_wait t p s)) else s)"

fun lifo_step :: "lifo_event \<Rightarrow> lifo \<Rightarrow> lifo" where
  "lifo_step (CallWait t) s = enter t WLoad s"
| "lifo_step (CallSignal t) s = enter t SAdd s"
| "lifo_step (CallDecomission t) s = enter t DStore s"
| "lifo_step (Step t) s = lifo_thread t s"

subsection \<open>Invariant\<close>

fun signaling :: "lifo_pc \<Rightarrow> bool" where
  "signaling SWaiters = True" | "signaling SCount = True" | "signaling (SScanWaiters _) = True" | "signaling (SScanCount _) = True"
| "signaling (SSlot _) = True" | "signaling (SSwap _ _) = True" | "signaling (SClaimed _) = True" | "signaling (SPost _) = True" | "signaling _ = False"

fun looking :: "lifo_pc \<Rightarrow> bool" where
  "looking WLoad = True" | "looking (WCas _) = True" | "looking WRegister = True" | "looking WCheck = True" | "looking (WScan _) = True"
| "looking (WRecheck _) = True" | "looking (WUnregister _) = True" | "looking _ = False"

fun counted_in :: "lifo_pc \<Rightarrow> bool" where
  "counted_in WCheck = True" | "counted_in (WScan _) = True" | "counted_in (WRecheck _) = True" | "counted_in (WUnregister _) = True"
| "counted_in (WInstall _) = True" | "counted_in WQuit = True" | "counted_in _ = False"

fun installing :: "lifo_pc \<Rightarrow> bool" where
  "installing (WInstall _) = True" | "installing _ = False"

fun claims :: "nat \<Rightarrow> lifo_pc \<Rightarrow> bool" where
  "claims u (SClaimed v) = (u = v)" | "claims u (SPost v) = (u = v)" | "claims u _ = False"

fun claimed :: "lifo_pc \<Rightarrow> bool" where
  "claimed (SClaimed _) = True" | "claimed _ = False"

fun index_ok :: "nat \<Rightarrow> lifo_pc \<Rightarrow> bool" where
  "index_ok n (WScan i) = (i < n)" | "index_ok n (WRecheck i) = (i < n)" | "index_ok n (WInstall i) = (i < n)" | "index_ok n (SScanWaiters i) = (i < n)"
| "index_ok n (SScanCount i) = (i < n)" | "index_ok n (SSlot i) = (i < n)" | "index_ok n (SSwap i _) = (i < n)" | "index_ok n _ = True"

text \<open>
  A parked thread is in one slot, or claimed by one signaler, or its semaphore has been posted; \<^verbatim>\<open>waiters\<close> counts those that are registered and not claimed; and while
  some thread is, or is about to be, in a slot there are no more units than threads that will still look for one or wake a thread.
\<close>

definition tokens_ok :: "lifo \<Rightarrow> bool" where
  "tokens_ok s = (\<forall>u. how_many (\<lambda>x. x = Some u) (lf_slots s) + how_many (claims u) (lf_pcs s) + lf_sems s u
     = of_bool (u < length (lf_pcs s) \<and> lf_pcs s ! u = WPark))"

definition waiters_ok :: "lifo \<Rightarrow> bool" where
  "waiters_ok s = (lf_waiters s = how_many counted_in (lf_pcs s) + how_many (\<lambda>x. x \<noteq> None) (lf_slots s) + how_many claimed (lf_pcs s))"

definition covered :: "lifo \<Rightarrow> bool" where
  "covered s = (lf_comissioned s \<longrightarrow> 0 < how_many installing (lf_pcs s) + how_many (\<lambda>x. x \<noteq> None) (lf_slots s)
     \<longrightarrow> lf_count s \<le> how_many signaling (lf_pcs s) + how_many looking (lf_pcs s) + (\<Sum>u < length (lf_pcs s). lf_sems s u))"

definition lifo_inv :: "lifo \<Rightarrow> bool" where
  "lifo_inv s = (tokens_ok s \<and> waiters_ok s \<and> covered s \<and> list_all (index_ok (length (lf_slots s))) (lf_pcs s) \<and> lf_slots s \<noteq> []
     \<and> lf_count s + lf_taken s = lf_added s)"

lemma how_many_of_bool: "i < length xs \<Longrightarrow> how_many P (xs[i := x]) + of_bool (P (xs ! i)) = how_many P xs + of_bool (P x)"
  using how_many_update [of i xs P x] by (simp add: of_bool_def)

lemma install_registered: "how_many installing ps \<le> how_many counted_in ps"
  by (rule how_many_mono) (auto elim: installing.elims)

lemma move_inv:
  assumes inv: "lifo_inv s" and t: "t < length (lf_pcs s)" and p: "p = lf_pcs s ! t" and pcs: "lf_pcs s' = (lf_pcs s)[t := q]"
    and same: "lf_slots s' = lf_slots s" "lf_sems s' = lf_sems s" and pq: "p \<noteq> WPark" "q \<noteq> WPark" "\<And>u. claims u q = claims u p"
    and idx: "index_ok (length (lf_slots s)) q"
    and w: "lf_waiters s' + of_bool (counted_in p) + of_bool (claimed p) = lf_waiters s + of_bool (counted_in q) + of_bool (claimed q)"
    and units: "lf_count s' + lf_taken s' = lf_added s'"
    and main: "lf_comissioned s' \<longrightarrow> lf_comissioned s \<and> (lf_count s' = 0 \<or> lf_waiters s' = 0
      \<or> ((installing q \<longrightarrow> installing p) \<and> lf_count s' + of_bool (signaling p) + of_bool (looking p) \<le> lf_count s + of_bool (signaling q) + of_bool (looking q)))"
  shows "lifo_inv s'"
proof -
  note n = how_many_of_bool [OF t, where x = q, folded p]
  have "tokens_ok s'"
    using inv n [of "claims _"] pq t pcs same p unfolding lifo_inv_def tokens_ok_def by (auto simp: nth_list_update)
  moreover have wok: "waiters_ok s'"
    using inv n [of counted_in] n [of claimed] w unfolding lifo_inv_def waiters_ok_def pcs same by linarith
  moreover have "covered s'"
  proof -
    have "lf_count s' = 0" if "0 < how_many installing (lf_pcs s') + how_many (\<lambda>x. x \<noteq> None) (lf_slots s')" "lf_waiters s' = 0"
      using wok that install_registered [of "lf_pcs s'"] by (simp add: waiters_ok_def)
    moreover have "how_many installing (lf_pcs s') \<le> how_many installing (lf_pcs s)" if "installing q \<longrightarrow> installing p"
      using n [of installing] that by (auto simp: pcs of_bool_def split: if_splits)
    ultimately show ?thesis
      using main inv n [of signaling] n [of looking] pcs same unfolding covered_def lifo_inv_def by fastforce
  qed
  moreover have "list_all (index_ok (length (lf_slots s'))) (lf_pcs s')"
    using inv idx set_update_subset_insert [of "lf_pcs s" t q] by (auto simp: lifo_inv_def pcs same list_all_iff)
  ultimately show ?thesis using inv units by (simp add: lifo_inv_def same)
qed

lemma index_at: "lifo_inv s \<Longrightarrow> t < length (lf_pcs s) \<Longrightarrow> index_ok (length (lf_slots s)) (lf_pcs s ! t)"
  by (simp add: lifo_inv_def list_all_length)

lemma index_goto:
  "lifo_inv s \<Longrightarrow> index_ok (length (lf_slots s)) q \<Longrightarrow> list_all (index_ok (length (lf_slots s))) ((lf_pcs s)[t := q])"
  using set_update_subset_insert [of "lf_pcs s" t q] by (auto simp: lifo_inv_def list_all_iff)

lemma tokens_okI:
  assumes "tokens_ok s" and t: "t < length (lf_pcs s)" and pcs: "lf_pcs s' = (lf_pcs s)[t := q]"
    and bal: "\<And>u. how_many (\<lambda>x. x = Some u) (lf_slots s') + how_many (claims u) (lf_pcs s') + lf_sems s' u + of_bool (lf_pcs s ! t = WPark \<and> u = t)
      = how_many (\<lambda>x. x = Some u) (lf_slots s) + how_many (claims u) (lf_pcs s) + lf_sems s u + of_bool (q = WPark \<and> u = t)"
  shows "tokens_ok s'"
  unfolding tokens_ok_def
proof
  fix u
  have "of_bool (u < length (lf_pcs s') \<and> lf_pcs s' ! u = WPark) + of_bool (lf_pcs s ! t = WPark \<and> u = t)
      = of_bool (u < length (lf_pcs s) \<and> lf_pcs s ! u = WPark) + (of_bool (q = WPark \<and> u = t) :: nat)"
    using t pcs by (cases "u = t") auto
  then show "how_many (\<lambda>x. x = Some u) (lf_slots s') + how_many (claims u) (lf_pcs s') + lf_sems s' u = of_bool (u < length (lf_pcs s') \<and> lf_pcs s' ! u = WPark)"
    using assms(1) [unfolded tokens_ok_def, rule_format, of u] bal [of u] by linarith
qed

lemma token_bounds:
  assumes "lifo_inv s"
  shows "0 < how_many (claims u) (lf_pcs s) \<or> 0 < how_many (\<lambda>x. x = Some u) (lf_slots s) \<or> 0 < lf_sems s u \<Longrightarrow> u < length (lf_pcs s)" and "lf_sems s u \<le> 1"
proof -
  have bal: "how_many (\<lambda>x. x = Some u) (lf_slots s) + how_many (claims u) (lf_pcs s) + lf_sems s u = of_bool (u < length (lf_pcs s) \<and> lf_pcs s ! u = WPark)"
    using assms by (simp add: lifo_inv_def tokens_ok_def)
  show "lf_sems s u \<le> 1" using bal by (simp add: of_bool_def split: if_splits)
  show "0 < how_many (claims u) (lf_pcs s) \<or> 0 < how_many (\<lambda>x. x = Some u) (lf_slots s) \<or> 0 < lf_sems s u \<Longrightarrow> u < length (lf_pcs s)"
    using bal by (auto simp: of_bool_def split: if_splits)
qed

lemma install_inv:
  assumes inv: "lifo_inv s" and t: "t < length (lf_pcs s)" and p: "lf_pcs s ! t = WInstall i" and free: "lf_slots s ! i = None"
  shows "lifo_inv (goto t WPark (s\<lparr>lf_slots := (lf_slots s)[i := Some t]\<rparr>))" (is "lifo_inv ?s")
proof -
  have i: "i < length (lf_slots s)" using index_at [OF inv t] p by simp
  note n = how_many_of_bool [OF t, of _ WPark, unfolded p] and m = how_many_of_bool [OF i, of _ "Some t", unfolded free]
  have "tokens_ok ?s"
  proof (rule tokens_okI [OF _ t])
    show "tokens_ok s" using inv by (simp add: lifo_inv_def)
  next
    fix u show "how_many (\<lambda>x. x = Some u) (lf_slots ?s) + how_many (claims u) (lf_pcs ?s) + lf_sems ?s u + of_bool (lf_pcs s ! t = WPark \<and> u = t)
        = how_many (\<lambda>x. x = Some u) (lf_slots s) + how_many (claims u) (lf_pcs s) + lf_sems s u + of_bool (WPark = WPark \<and> u = t)"
      using n [of "claims u"] m [of "\<lambda>x. x = Some u"] p by (cases "u = t") simp_all
  qed simp
  moreover have "waiters_ok ?s"
    using inv n [of counted_in] n [of claimed] m [of "\<lambda>x. x \<noteq> None"] by (simp add: lifo_inv_def waiters_ok_def)
  moreover have "covered ?s"
    using inv n [of installing] n [of signaling] n [of looking] m [of "\<lambda>x. x \<noteq> None"] by (simp add: lifo_inv_def covered_def)
  ultimately show ?thesis using inv index_goto [OF inv, of WPark t] by (simp add: lifo_inv_def)
qed

lemma unpark_inv:
  assumes inv: "lifo_inv s" and t: "t < length (lf_pcs s)" and p: "lf_pcs s ! t = WPark" and posted: "lf_sems s t \<noteq> 0"
  shows "lifo_inv (goto t WLoad (s\<lparr>lf_sems := (lf_sems s)(t := lf_sems s t - 1)\<rparr>))" (is "lifo_inv ?s")
proof -
  note n = how_many_of_bool [OF t, of _ WLoad, unfolded p]
  have one: "lf_sems s t = 1" using token_bounds(2) [OF inv, of t] posted by simp
  have "tokens_ok ?s"
  proof (rule tokens_okI [OF _ t])
    show "tokens_ok s" using inv by (simp add: lifo_inv_def)
  next
    fix u show "how_many (\<lambda>x. x = Some u) (lf_slots ?s) + how_many (claims u) (lf_pcs ?s) + lf_sems ?s u + of_bool (lf_pcs s ! t = WPark \<and> u = t)
        = how_many (\<lambda>x. x = Some u) (lf_slots s) + how_many (claims u) (lf_pcs s) + lf_sems s u + of_bool (WLoad = WPark \<and> u = t)"
      using n [of "claims u"] p one by (cases "u = t") simp_all
  qed simp
  moreover have "waiters_ok ?s"
    using inv n [of counted_in] n [of claimed] by (simp add: lifo_inv_def waiters_ok_def)
  moreover have "covered ?s"
    using inv n [of installing] n [of signaling] n [of looking] sum_fun_upd_below [OF t, of "\<lambda>x. x" "lf_sems s" 0] one
    by (auto simp: lifo_inv_def covered_def)
  ultimately show ?thesis using inv index_goto [OF inv, of WLoad t] by (simp add: lifo_inv_def)
qed

lemma claim_inv:
  assumes inv: "lifo_inv s" and t: "t < length (lf_pcs s)" and p: "lf_pcs s ! t = SSwap i v" and slot: "lf_slots s ! i = Some v"
  shows "lifo_inv (goto t (SClaimed v) (s\<lparr>lf_slots := (lf_slots s)[i := None]\<rparr>))" (is "lifo_inv ?s")
proof -
  have i: "i < length (lf_slots s)" using index_at [OF inv t] p by simp
  note n = how_many_of_bool [OF t, of _ "SClaimed v", unfolded p] and m = how_many_of_bool [OF i, of _ None, unfolded slot]
  have "tokens_ok ?s"
  proof (rule tokens_okI [OF _ t])
    show "tokens_ok s" using inv by (simp add: lifo_inv_def)
  next
    fix u show "how_many (\<lambda>x. x = Some u) (lf_slots ?s) + how_many (claims u) (lf_pcs ?s) + lf_sems ?s u + of_bool (lf_pcs s ! t = WPark \<and> u = t)
        = how_many (\<lambda>x. x = Some u) (lf_slots s) + how_many (claims u) (lf_pcs s) + lf_sems s u + of_bool (SClaimed v = WPark \<and> u = t)"
      using n [of "claims u"] m [of "\<lambda>x. x = Some u"] p by (cases "u = v") auto
  qed simp
  moreover have "waiters_ok ?s"
    using inv n [of counted_in] n [of claimed] m [of "\<lambda>x. x \<noteq> None"] by (simp add: lifo_inv_def waiters_ok_def)
  moreover have "covered ?s"
    using inv n [of installing] n [of signaling] n [of looking] m [of "\<lambda>x. x \<noteq> None"] by (simp add: lifo_inv_def covered_def)
  ultimately show ?thesis using inv index_goto [OF inv, of "SClaimed v" t] by (simp add: lifo_inv_def)
qed

lemma signal_returns_cases:
  obtains q r where "signal_returns t s = s\<lparr>lf_pcs := (lf_pcs s)[t := q], lf_repeat := r\<rparr>" and "q = Idle \<or> q = SAdd"
proof (cases "lf_repeat s t")
  case 0
  then have "signal_returns t s = s\<lparr>lf_pcs := (lf_pcs s)[t := Idle], lf_repeat := lf_repeat s\<rparr>" by (simp add: signal_returns_def)
  then show ?thesis using that by blast
next
  case (Suc k)
  then have "signal_returns t s = s\<lparr>lf_pcs := (lf_pcs s)[t := SAdd], lf_repeat := (lf_repeat s)(t := k)\<rparr>" by (simp add: signal_returns_def)
  then show ?thesis using that by blast
qed

lemma post_inv:
  assumes inv: "lifo_inv s" and t: "t < length (lf_pcs s)" and p: "lf_pcs s ! t = SPost v"
  shows "lifo_inv (signal_returns t (s\<lparr>lf_sems := (lf_sems s)(v := Suc (lf_sems s v))\<rparr>))" (is "lifo_inv ?s")
proof -
  obtain q r where s': "?s = s\<lparr>lf_sems := (lf_sems s)(v := Suc (lf_sems s v)), lf_pcs := (lf_pcs s)[t := q], lf_repeat := r\<rparr>" and q: "q = Idle \<or> q = SAdd"
    by (rule signal_returns_cases [of t "s\<lparr>lf_sems := (lf_sems s)(v := Suc (lf_sems s v))\<rparr>"]) auto
  have q': "q \<noteq> WPark" "\<not> counted_in q" "\<not> claimed q" "\<not> claims u q" "\<not> installing q" "\<not> signaling q" "\<not> looking q" "index_ok k q" for u k using q by auto
  note n = how_many_of_bool [OF t, of _ q, unfolded p]
  have v: "v < length (lf_pcs s)" using token_bounds(1) [OF inv, of v] how_many_pos [OF t, of "claims v"] p by simp
  have "tokens_ok ?s"
  proof (rule tokens_okI [OF _ t])
    show "tokens_ok s" using inv by (simp add: lifo_inv_def)
    show "lf_pcs ?s = (lf_pcs s)[t := q]" by (simp add: s')
    fix u show "how_many (\<lambda>x. x = Some u) (lf_slots ?s) + how_many (claims u) (lf_pcs ?s) + lf_sems ?s u + of_bool (lf_pcs s ! t = WPark \<and> u = t)
        = how_many (\<lambda>x. x = Some u) (lf_slots s) + how_many (claims u) (lf_pcs s) + lf_sems s u + of_bool (q = WPark \<and> u = t)"
      using n [of "claims u"] p q' unfolding s' by (cases "u = v") auto
  qed
  moreover have "waiters_ok ?s"
    using inv n [of counted_in] n [of claimed] q' unfolding s' by (simp add: lifo_inv_def waiters_ok_def)
  moreover have "covered ?s"
    using inv n [of installing] n [of signaling] n [of looking] sum_fun_upd_below [OF v, of "\<lambda>x. x" "lf_sems s" "Suc (lf_sems s v)"] q' unfolding s'
    by (auto simp: lifo_inv_def covered_def)
  ultimately show ?thesis using inv index_goto [OF inv q'(8), of t] unfolding s' by (simp add: lifo_inv_def)
qed

lemma signal_returns_inv:
  assumes inv: "lifo_inv s" and t: "t < length (lf_pcs s)" and p: "p = lf_pcs s ! t"
    and left: "\<not> counted_in p" "\<not> claimed p" "p \<noteq> WPark" "\<And>u. \<not> claims u p" "\<not> looking p"
    and exit: "\<not> signaling p \<or> lf_count s = 0 \<or> lf_waiters s = 0"
  shows "lifo_inv (signal_returns t s)"
proof -
  obtain q r where s': "signal_returns t s = s\<lparr>lf_pcs := (lf_pcs s)[t := q], lf_repeat := r\<rparr>" and q: "q = Idle \<or> q = SAdd"
    by (rule signal_returns_cases [of t s]) auto
  show ?thesis unfolding s'
    using inv q left exit by (intro move_inv [OF inv t p, where q = q]) (auto simp: lifo_inv_def)
qed

lemma next_slot_ok: "lifo_inv s \<Longrightarrow> index_ok (length (lf_slots s)) (next_slot i s) \<and> (\<exists>j. next_slot i s = WScan j)"
  by (simp add: next_slot_def lifo_inv_def)

lemma next_signal_ok: "index_ok (length (lf_slots s)) (next_signal i s) \<and> (next_signal i s = SWaiters \<or> (\<exists>j. next_signal i s = SScanWaiters j))"
  by (simp add: next_signal_def)

lemma lifo_wait_inv:
  assumes inv: "lifo_inv s" and t: "t < length (lf_pcs s)" and p: "lf_pcs s ! t = p"
  shows "lifo_inv (lifo_wait t p s)"
proof -
  have units: "lf_count s + lf_taken s = lf_added s" "0 < length (lf_slots s)" using inv by (auto simp: lifo_inv_def)
  have idx: "index_ok (length (lf_slots s)) p" using index_at [OF inv t] p by simp
  note move = move_inv [OF inv t p [symmetric]]
  have w: "0 < lf_waiters s" if "counted_in p"
    using inv how_many_pos [OF t, of counted_in] that p by (simp add: lifo_inv_def waiters_ok_def)
  show ?thesis
  proof (cases p)
    case (WCas old)
    then show ?thesis
      using units move [of "goto t WRegister s" WRegister] move [of "goto t (WCas (lf_count s)) s" "WCas (lf_count s)"]
        move [of "goto t Idle (s\<lparr>lf_count := old - 1, lf_taken := Suc (lf_taken s)\<rparr>)" Idle] by auto
  next
    case WCheck
    then show ?thesis using units w move [of "goto t (WScan 0) s" "WScan 0"] move [of "goto t WQuit s" WQuit] by auto
  next
    case (WScan i)
    then show ?thesis
      using units idx move [of "goto t (WRecheck i) s" "WRecheck i"] move [of "goto t (next_slot i s) s" "next_slot i s"] next_slot_ok [OF inv, of i] by auto
  next
    case (WRecheck i)
    then show ?thesis
      using units idx move [of "goto t (WUnregister (lf_count s)) s" "WUnregister (lf_count s)"] move [of "goto t (WInstall i) s" "WInstall i"] by auto
  next
    case (WInstall i)
    then show ?thesis
      using units install_inv [OF inv t] p move [of "goto t (next_slot i s) s" "next_slot i s"] next_slot_ok [OF inv, of i] by auto
  next
    case WPark
    then show ?thesis using inv unpark_inv [OF inv t] p by simp
  next
    case WLoad
    then show ?thesis using units move [of "goto t (WCas (lf_count s)) s" "WCas (lf_count s)"] by auto
  next
    case WRegister
    then show ?thesis using units move [of "goto t WCheck (s\<lparr>lf_waiters := Suc (lf_waiters s)\<rparr>)" WCheck] by auto
  next
    case (WUnregister old)
    then show ?thesis using units w move [of "goto t (WCas old) (s\<lparr>lf_waiters := lf_waiters s - 1\<rparr>)" "WCas old"] by auto
  next
    case WQuit
    then show ?thesis using units w move [of "goto t Idle (s\<lparr>lf_waiters := lf_waiters s - 1\<rparr>)" Idle] by auto
  qed (use inv in simp_all)
qed

lemma lifo_signal_inv:
  assumes inv: "lifo_inv s" and t: "t < length (lf_pcs s)" and p: "lf_pcs s ! t = p"
  shows "lifo_inv (lifo_signal t p s)"
proof -
  have units: "lf_count s + lf_taken s = lf_added s" "0 < length (lf_slots s)" using inv by (auto simp: lifo_inv_def)
  have idx: "index_ok (length (lf_slots s)) p" using index_at [OF inv t] p by simp
  note move = move_inv [OF inv t p [symmetric]] and return = signal_returns_inv [OF inv t p [symmetric]]
  show ?thesis
  proof (cases p)
    case SAdd
    then show ?thesis using units move [of "goto t SWaiters (s\<lparr>lf_count := Suc (lf_count s), lf_added := Suc (lf_added s)\<rparr>)" SWaiters] by auto
  next
    case SWaiters
    then show ?thesis using units return move [of "goto t SCount s" SCount] by auto
  next
    case SCount
    then show ?thesis using units return move [of "goto t (SScanWaiters 0) s" "SScanWaiters 0"] by auto
  next
    case (SScanWaiters i)
    then show ?thesis using units idx return move [of "goto t (SScanCount i) s" "SScanCount i"] by auto
  next
    case (SScanCount i)
    then show ?thesis using units idx return move [of "goto t (SSlot i) s" "SSlot i"] by auto
  next
    case (SSlot i)
    then show ?thesis
      using units idx move [of "goto t (next_signal i s) s" "next_signal i s"] next_signal_ok [of s i] move [of "goto t (SSwap i u) s" "SSwap i u" for u]
      by (cases "lf_slots s ! i") auto
  next
    case (SSwap i u)
    then show ?thesis using units claim_inv [OF inv t] p move [of "goto t (next_signal i s) s" "next_signal i s"] next_signal_ok [of s i] by auto
  next
    case (SClaimed u)
    then have "0 < lf_waiters s" using inv how_many_pos [OF t, of claimed] p by (simp add: lifo_inv_def waiters_ok_def)
    then show ?thesis using SClaimed units move [of "goto t (SPost u) (s\<lparr>lf_waiters := lf_waiters s - 1\<rparr>)" "SPost u"] by auto
  next
    case (SPost u)
    then show ?thesis using post_inv [OF inv t] p by simp
  qed (use inv in simp_all)
qed

lemma lifo_irrelevant: "lifo_inv (s\<lparr>lf_repeat := r\<rparr>) = lifo_inv s"
  by (simp add: lifo_inv_def tokens_ok_def waiters_ok_def covered_def)

lemma lifo_decomission_inv:
  assumes inv: "lifo_inv s" and t: "t < length (lf_pcs s)" and p: "lf_pcs s ! t = p"
  shows "lifo_inv (lifo_decomission t p s)"
proof (cases p)
  case DStore
  then show ?thesis
    using inv move_inv [OF inv t p [symmetric], of "goto t DLoad (s\<lparr>lf_comissioned := False\<rparr>)" DLoad] by (auto simp: lifo_inv_def)
next
  case DLoad
  then show ?thesis
    using signal_returns_inv [of "s\<lparr>lf_repeat := (lf_repeat s)(t := lf_waiters s)\<rparr>" t p] inv t p by (auto simp: lifo_irrelevant)
qed (use inv in simp_all)

lemma lifo_thread_cases:
  "lifo_thread t s = s \<or> lifo_thread t s = lifo_wait t (lf_pcs s ! t) s \<or> lifo_thread t s = lifo_signal t (lf_pcs s ! t) s
    \<or> lifo_thread t s = lifo_decomission t (lf_pcs s ! t) s"
  by (cases "lf_pcs s ! t") (simp_all add: lifo_thread_def Let_def)

lemma lifo_step_inv:
  assumes "lifo_inv s"
  shows "lifo_inv (lifo_step e s)"
proof -
  have enter: "lifo_inv (enter t p s)" if "p = WLoad \<or> p = SAdd \<or> p = DStore" for t p
  proof (cases "t < length (lf_pcs s) \<and> lf_pcs s ! t = Idle")
    case True
    have "lifo_inv (goto t p (s\<lparr>lf_repeat := (lf_repeat s)(t := 0)\<rparr>))"
      using assms that True by (intro move_inv [OF assms, where t = t and p = Idle and q = p]) (auto simp: lifo_inv_def)
    then show ?thesis using True by (simp add: enter_def)
  qed (auto simp: enter_def assms)
  show ?thesis
  proof (cases e)
    case (Step t)
    show ?thesis
    proof (cases "t < length (lf_pcs s)")
      case True
      then show ?thesis
        using lifo_thread_cases [of t s] assms lifo_wait_inv [OF assms True refl] lifo_signal_inv [OF assms True refl] lifo_decomission_inv [OF assms True refl] Step by auto
    qed (use assms Step in \<open>simp add: lifo_thread_def\<close>)
  qed (use enter in simp_all)
qed

lemma lifo_run_inv: "lifo_inv s \<Longrightarrow> lifo_inv (fold lifo_step es s)"
  by (induction es arbitrary: s) (simp_all add: lifo_step_inv)

lemma lifo_init_inv: "0 < capacity \<Longrightarrow> lifo_inv (lifo_init capacity n)"
  by (simp add: lifo_inv_def lifo_init_def tokens_ok_def waiters_ok_def covered_def how_many_replicate list_all_iff)

text \<open>The size of the array.\<close>

definition THREADS :: nat where
  "THREADS = 128"

definition resting :: "lifo \<Rightarrow> nat \<Rightarrow> bool" where
  "resting s t = (lf_pcs s ! t = Idle \<or> (lf_pcs s ! t = WPark \<and> lf_sems s t = 0))"

text \<open>C36.
  The semaphore that wakes the last waiter first loses no signal, in any interleaving of any number of threads, until it is decomissioned: when no call of \<^verbatim>\<open>signal\<close> is in progress and
  every thread in \<^verbatim>\<open>wait\<close> is blocked, then no unit is left unless no thread waits. Each \<^verbatim>\<open>wait\<close> that returns has taken one unit, each \<^verbatim>\<open>signal\<close> adds one.
  A blocked thread is always in exactly one slot, or claimed by exactly one call of \<^verbatim>\<open>signal\<close>, or its own semaphore has been posted once.
\<close>

theorem lifo_loses_no_signal:
  assumes "s = fold lifo_step es (lifo_init THREADS n)"
  shows "lf_count s + lf_taken s = lf_added s
    \<and> (\<forall>t < length (lf_pcs s). lf_pcs s ! t = WPark \<longrightarrow> how_many (\<lambda>x. x = Some t) (lf_slots s) + how_many (claims t) (lf_pcs s) + lf_sems s t = 1)
    \<and> (lf_comissioned s \<and> (\<forall>t < length (lf_pcs s). resting s t) \<longrightarrow> lf_count s = 0 \<or> (\<forall>t < length (lf_pcs s). lf_pcs s ! t = Idle))"
proof -
  have inv: "lifo_inv s" using assms lifo_run_inv [OF lifo_init_inv] by (simp add: THREADS_def)
  have token: "how_many (\<lambda>x. x = Some t) (lf_slots s) + how_many (claims t) (lf_pcs s) + lf_sems s t = of_bool (t < length (lf_pcs s) \<and> lf_pcs s ! t = WPark)" for t
    using inv by (simp add: lifo_inv_def tokens_ok_def)
  have "lf_count s = 0" if c: "lf_comissioned s" and rest: "\<And>t. t < length (lf_pcs s) \<Longrightarrow> resting s t" and t: "t < length (lf_pcs s)" "lf_pcs s ! t \<noteq> Idle" for t
  proof -
    have none: "how_many P (lf_pcs s) = 0" if "\<not> P Idle" "\<not> P WPark" for P
      using rest that unfolding how_many_0 resting_def by (metis in_set_conv_nth)
    have "lf_sems s u = 0" if "u < length (lf_pcs s)" for u
      using rest [OF that] token [of u] by (auto simp: resting_def)
    then have "(\<Sum>u < length (lf_pcs s). lf_sems s u) = 0" by simp
    moreover have "lf_pcs s ! t = WPark" "lf_sems s t = 0" using rest [OF t(1)] t(2) by (auto simp: resting_def)
    then have "how_many (\<lambda>x. x = Some t) (lf_slots s) = 1" using token [of t] none [of "claims t"] t(1) by simp
    moreover have "how_many (\<lambda>x. x = Some t) (lf_slots s) \<le> how_many (\<lambda>x. x \<noteq> None) (lf_slots s)" by (rule how_many_mono) simp
    ultimately show ?thesis using inv c none [of signaling] none [of looking] by (simp add: lifo_inv_def covered_def)
  qed
  then have "lf_count s = 0 \<or> (\<forall>t < length (lf_pcs s). lf_pcs s ! t = Idle)" if "lf_comissioned s" "\<forall>t < length (lf_pcs s). resting s t" using that by metis
  then show ?thesis using inv token by (simp add: lifo_inv_def)
qed

text \<open>Two threads wait and one signals: the one that came first is served, the other stays blocked, and no unit is left.\<close>

definition two_waiters :: "lifo_event list" where
  "two_waiters = CallWait 0 # replicate 7 (Step 0) @ CallWait 1 # replicate 8 (Step 1) @ CallSignal 2 # replicate 9 (Step 2) @ replicate 3 (Step 0)"

lemma first_waiter_is_served:
  "(let s = fold lifo_step two_waiters (lifo_init THREADS 3) in
    lf_pcs s = [Idle, WPark, Idle] \<and> lf_sems s 1 = 0 \<and> lf_comissioned s \<and> lf_taken s = 1)"
  by code_simp

theorem lifo_loses_no_signal_witness:
  "\<exists>s. s = fold lifo_step two_waiters (lifo_init THREADS 3) \<and> lf_pcs s ! 1 = WPark \<and> lf_count s = 0"
proof -
  define s where "s = fold lifo_step two_waiters (lifo_init THREADS 3)"
  have f: "lf_pcs s = [Idle, WPark, Idle]" "lf_sems s 1 = 0" "lf_comissioned s"
    using first_waiter_is_served by (simp_all add: s_def Let_def)
  then have "\<forall>t < length (lf_pcs s). resting s t" by (auto simp: resting_def less_Suc_eq nth_Cons')
  then have "lf_count s = 0 \<or> (\<forall>t < length (lf_pcs s). lf_pcs s ! t = Idle)" using lifo_loses_no_signal [OF s_def] f by blast
  then show ?thesis using f unfolding s_def [symmetric] by (auto dest: spec [of _ 1])
qed

text \<open>
  Decomissioning it does not release all waiters. A thread is blocked; \<^verbatim>\<open>decomission\<close> adds the unit that is to wake it, another thread takes that unit in \<^verbatim>\<open>wait\<close> at
  once, and \<^verbatim>\<open>signal\<close>, which finds no unit any more, returns without waking anybody. Nothing will wake the blocked thread.
\<close>

definition stolen_unit :: "lifo_event list" where
  "stolen_unit = CallWait 0 # replicate 7 (Step 0) @ CallDecomission 1 # replicate 3 (Step 1) @ CallWait 2 # replicate 2 (Step 2) @ replicate 2 (Step 1)"

lemma decomission_strands_a_waiter:
  "(let s = fold lifo_step stolen_unit (lifo_init THREADS 3) in
    lf_pcs s = [WPark, Idle, Idle] \<and> lf_sems s 0 = 0 \<and> \<not> lf_comissioned s \<and> lf_repeat s 1 = 0)"
  by code_simp

end
