(* ===== verification/Loops.thy ===== *)
theory Loops
  imports Prelude
begin

text \<open>
  \<^verbatim>\<open>loop\<close> (\<^verbatim>\<open>include/process/loop.hpp\<close>): the asynchronous loop over an \<^verbatim>\<open>iterate\<close> and a \<^verbatim>\<open>body\<close> that return futures. A future is its place in the order of the calls:
  even places are the futures of \<^verbatim>\<open>iterate\<close>, odd ones those of \<^verbatim>\<open>body\<close>. When they complete, and how, is up to the environment. \<^verbatim>\<open>run\<close> proceeds in steps as other
  threads can see it: with a \<^verbatim>\<open>pid\<close> the continuations are deferred to that process, which handles one at a time; without, they run on the thread that completes the future, even
  while an earlier call of \<^verbatim>\<open>run\<close> has not returned.
\<close>

section \<open>State\<close>

datatype ('t, 'r) loop_outcome = LItem 't | LContinue | LBreak 'r | LFailed string | LDiscarded

datatype 'r loop_result = LReady 'r | LFail string | LDiscard

datatype 't loop_call = CallIterate | CallBody 't

record ('t, 'r) loop_future =
  fu_outcome :: "('t, 'r) loop_outcome option"
  fu_discard :: bool
  fu_installed :: bool
  fu_handled :: bool

text \<open>Where a call of \<^verbatim>\<open>run\<close> is, with its current future; the callback of a discard has read the function \<^verbatim>\<open>discard\<close>, or is about to.\<close>

datatype runner = RReset nat | RLoop nat | RFlow nat | RInstall nat | RTest nat | RSet nat | RFinal nat

datatype discarder = DIdle | DRead | DInvoke "nat option"

record ('t, 'r) loop_state =
  lp_futures :: "('t, 'r) loop_future list"
  lp_calls :: "'t loop_call list"
  lp_discard :: "nat option"
  lp_has_discard :: bool
  lp_result :: "'r loop_result option"
  lp_runners :: "runner list"
  lp_discarder :: discarder

section \<open>Operations\<close>

definition new_loop_future :: "('t, 'r) loop_outcome option \<Rightarrow> ('t, 'r) loop_future" where
  "new_loop_future x = \<lparr>fu_outcome = x, fu_discard = False, fu_installed = False, fu_handled = False\<rparr>"

text \<open>\<^verbatim>\<open>start\<close>: \<^verbatim>\<open>iterate\<close> is called and \<^verbatim>\<open>run\<close> with its future, which may have completed already.\<close>

definition loop_start :: "('t, 'r) loop_outcome option \<Rightarrow> ('t, 'r) loop_state" where
  "loop_start x = \<lparr>lp_futures = [new_loop_future x], lp_calls = [CallIterate], lp_discard = None, lp_has_discard = False, lp_result = None,
     lp_runners = [RReset 0], lp_discarder = DIdle\<rparr>"

definition call_loop :: "'t loop_call \<Rightarrow> ('t, 'r) loop_outcome option \<Rightarrow> ('t, 'r) loop_state \<Rightarrow> ('t, 'r) loop_state" where
  "call_loop c x s = s\<lparr>lp_futures := lp_futures s @ [new_loop_future x], lp_calls := lp_calls s @ [c]\<rparr>"

definition loop_finish :: "'r loop_result \<Rightarrow> ('t, 'r) loop_state \<Rightarrow> ('t, 'r) loop_state" where
  "loop_finish r s = (if lp_result s = None then s\<lparr>lp_result := Some r\<rparr> else s)"

definition update_future :: "nat \<Rightarrow> (('t, 'r) loop_future \<Rightarrow> ('t, 'r) loop_future) \<Rightarrow> ('t, 'r) loop_state \<Rightarrow> ('t, 'r) loop_state" where
  "update_future k f s = s\<lparr>lp_futures := (lp_futures s)[k := f (lp_futures s ! k)]\<rparr>"

definition request_discard :: "nat \<Rightarrow> ('t, 'r) loop_state \<Rightarrow> ('t, 'r) loop_state" where
  "request_discard k s = (if fu_outcome (lp_futures s ! k) = None then update_future k (\<lambda>f. f\<lparr>fu_discard := True\<rparr>) s else s)"

text \<open>One step of \<^verbatim>\<open>run\<close>; if it calls \<^verbatim>\<open>iterate\<close> or \<^verbatim>\<open>body\<close>, \<open>x\<close> is the state of the future that returns.\<close>

fun run_step :: "runner \<Rightarrow> ('t, 'r) loop_outcome option \<Rightarrow> ('t, 'r) loop_state \<Rightarrow> ('t, 'r) loop_state \<times> runner option" where
  "run_step (RReset k) x s = (s\<lparr>lp_discard := None\<rparr>, Some (RLoop k))"
| "run_step (RLoop k) x s = (case fu_outcome (lp_futures s ! k) of
     Some (LItem v) \<Rightarrow> (call_loop (CallBody v) x s, Some (RFlow (length (lp_futures s))))
   | _ \<Rightarrow> (s, Some (RInstall k)))"
| "run_step (RFlow k) x s = (case fu_outcome (lp_futures s ! k) of
     Some LContinue \<Rightarrow> (call_loop CallIterate x s, Some (RLoop (length (lp_futures s))))
   | Some (LBreak r) \<Rightarrow> (loop_finish (LReady r) s, None)
   | _ \<Rightarrow> (s, Some (RInstall k)))"
| "run_step (RInstall k) x s = (update_future k (\<lambda>f. f\<lparr>fu_installed := True\<rparr>) s, Some (RTest k))"
| "run_step (RTest k) x s = (s, Some (if lp_has_discard s then RFinal k else RSet k))"
| "run_step (RSet k) x s = (s\<lparr>lp_discard := Some k\<rparr>, Some (RFinal k))"
| "run_step (RFinal k) x s = (if lp_has_discard s then request_discard k s else s, None)"

text \<open>The continuation of a future that has completed.\<close>

definition continuation :: "nat \<Rightarrow> ('t, 'r) loop_outcome option \<Rightarrow> ('t, 'r) loop_state \<Rightarrow> ('t, 'r) loop_state" where
  "continuation k x s0 = (let s = update_future k (\<lambda>f. f\<lparr>fu_handled := True\<rparr>) s0 in
     case fu_outcome (lp_futures s ! k) of
       Some (LItem v) \<Rightarrow> s\<lparr>lp_runners := lp_runners s @ [RReset k]\<rparr>
     | Some LContinue \<Rightarrow> (call_loop CallIterate x s)\<lparr>lp_runners := lp_runners s @ [RReset (length (lp_futures s))]\<rparr>
     | Some (LBreak r) \<Rightarrow> loop_finish (LReady r) s
     | Some (LFailed m) \<Rightarrow> loop_finish (LFail m) s
     | Some LDiscarded \<Rightarrow> loop_finish LDiscard s
     | None \<Rightarrow> s)"

text \<open>The callback that \<^verbatim>\<open>start\<close> installs on a discard of the result: it copies the function under the lock and calls it after.\<close>

definition discard_callback :: "('t, 'r) loop_state \<Rightarrow> ('t, 'r) loop_state" where
  "discard_callback s = (case lp_discarder s of
     DIdle \<Rightarrow> s
   | DRead \<Rightarrow> s\<lparr>lp_discarder := DInvoke (lp_discard s)\<rparr>
   | DInvoke None \<Rightarrow> s\<lparr>lp_discarder := DIdle\<rparr>
   | DInvoke (Some k) \<Rightarrow> (request_discard k s)\<lparr>lp_discarder := DIdle\<rparr>)"

section \<open>Runs\<close>

datatype ('t, 'r) loop_event =
    Run nat "('t, 'r) loop_outcome option"
  | Continuation nat "('t, 'r) loop_outcome option"
  | LoopCompletes nat "('t, 'r) loop_outcome"
  | DiscardLoop
  | Callback

text \<open>Futures of \<^verbatim>\<open>iterate\<close> and \<^verbatim>\<open>body\<close> have different values.\<close>

fun typed :: "nat \<Rightarrow> ('t, 'r) loop_outcome \<Rightarrow> bool" where
  "typed k (LItem _) = even k"
| "typed k LContinue = odd k"
| "typed k (LBreak _) = odd k"
| "typed k _ = True"

definition typed_option :: "nat \<Rightarrow> ('t, 'r) loop_outcome option \<Rightarrow> bool" where
  "typed_option k x = (case x of None \<Rightarrow> True | Some y \<Rightarrow> typed k y)"

fun loop_step :: "bool \<Rightarrow> ('t, 'r) loop_event \<Rightarrow> ('t, 'r) loop_state \<Rightarrow> ('t, 'r) loop_state" where
  "loop_step pid (Run i x) s =
    (if i < length (lp_runners s) \<and> typed_option (length (lp_futures s)) x
     then (case run_step (lp_runners s ! i) x s of
         (s', Some r) \<Rightarrow> s'\<lparr>lp_runners := (lp_runners s)[i := r]\<rparr>
       | (s', None) \<Rightarrow> s'\<lparr>lp_runners := take i (lp_runners s) @ drop (Suc i) (lp_runners s)\<rparr>)
     else s)"
| "loop_step pid (Continuation k x) s =
    (if k < length (lp_futures s) \<and> fu_installed (lp_futures s ! k) \<and> \<not> fu_handled (lp_futures s ! k) \<and> fu_outcome (lp_futures s ! k) \<noteq> None
        \<and> typed_option (length (lp_futures s)) x \<and> (pid \<longrightarrow> lp_runners s = [])
     then continuation k x s else s)"
| "loop_step pid (LoopCompletes k y) s =
    (if k < length (lp_futures s) \<and> fu_outcome (lp_futures s ! k) = None \<and> typed k y
     then update_future k (\<lambda>f. f\<lparr>fu_outcome := Some y\<rparr>) s else s)"
| "loop_step pid DiscardLoop s =
    (if lp_result s = None \<and> \<not> lp_has_discard s then s\<lparr>lp_has_discard := True, lp_discarder := DRead\<rparr> else s)"
| "loop_step pid Callback s = discard_callback s"

section \<open>The sequential loop\<close>

text \<open>The loop that waits for each future: the calls it makes and its result, given how the futures complete, as far as they have.\<close>

fun sequential :: "('t, 'r) loop_outcome list \<Rightarrow> 't loop_call list \<times> 'r loop_result option" where
  "sequential [] = ([CallIterate], None)"
| "sequential (LItem v # []) = ([CallIterate, CallBody v], None)"
| "sequential (LItem v # LContinue # xs) = (case sequential xs of (cs, r) \<Rightarrow> (CallIterate # CallBody v # cs, r))"
| "sequential (LItem v # LBreak r # xs) = ([CallIterate, CallBody v], Some (LReady r))"
| "sequential (LItem v # LFailed m # xs) = ([CallIterate, CallBody v], Some (LFail m))"
| "sequential (LItem v # _ # xs) = ([CallIterate, CallBody v], Some LDiscard)"
| "sequential (LFailed m # xs) = ([CallIterate], Some (LFail m))"
| "sequential (_ # xs) = ([CallIterate], Some LDiscard)"

fun ending :: "('t, 'r) loop_outcome \<Rightarrow> 'r loop_result option" where
  "ending (LBreak r) = Some (LReady r)"
| "ending (LFailed m) = Some (LFail m)"
| "ending LDiscarded = Some LDiscard"
| "ending _ = None"

lemma sequential_snoc:
  assumes "sequential xs = (cs, None)" and "length cs = Suc (length xs)" and "typed (length xs) y"
  shows "sequential (xs @ [y]) = (case y of LItem v \<Rightarrow> (cs @ [CallBody v], None) | LContinue \<Rightarrow> (cs @ [CallIterate], None) | _ \<Rightarrow> (cs, ending y))"
  using assms
proof (induction xs arbitrary: cs rule: sequential.induct)
  case 1
  then show ?case by (cases y) auto
next
  case (2 v)
  then show ?case by (cases y) auto
next
  case (3 v xs)
  then obtain cs' where "sequential xs = (cs', None)" "cs = CallIterate # CallBody v # cs'" by (auto split: prod.splits)
  then show ?case using 3 by (cases y) auto
qed auto

section \<open>Invariant\<close>

fun driver :: "runner \<Rightarrow> nat option" where
  "driver (RReset k) = Some k" | "driver (RLoop k) = Some k" | "driver (RFlow k) = Some k" | "driver (RInstall k) = Some k" | "driver _ = None"

fun tail_of :: "runner \<Rightarrow> nat option" where
  "tail_of (RTest k) = Some k" | "tail_of (RSet k) = Some k" | "tail_of (RFinal k) = Some k" | "tail_of _ = None"

text \<open>What is known of the future of the call of \<^verbatim>\<open>run\<close> that drives the loop.\<close>

fun driver_ok :: "('t, 'r) loop_future \<Rightarrow> runner \<Rightarrow> bool" where
  "driver_ok f (RReset k) = (even k \<and> (\<not> fu_installed f \<and> \<not> fu_handled f \<or> fu_handled f \<and> (\<exists>v. fu_outcome f = Some (LItem v))))"
| "driver_ok f (RLoop k) = (even k \<and> (\<not> fu_installed f \<and> \<not> fu_handled f \<or> fu_handled f \<and> (\<exists>v. fu_outcome f = Some (LItem v))))"
| "driver_ok f (RFlow k) = (odd k \<and> \<not> fu_installed f \<and> \<not> fu_handled f)"
| "driver_ok f (RInstall k) = (\<not> fu_installed f \<and> \<not> fu_handled f)"
| "driver_ok f _ = True"

text \<open>The loop is driven by a call of \<^verbatim>\<open>run\<close>, waits for the last future, or is over.\<close>

definition drivers :: "runner list \<Rightarrow> runner list" where
  "drivers rs = filter (\<lambda>r. driver r \<noteq> None) rs"

definition progress_ok :: "nat \<Rightarrow> ('t, 'r) loop_future \<Rightarrow> ('t, 'r) loop_state \<Rightarrow> bool" where
  "progress_ok n f s =
    ((\<exists>r. drivers (lp_runners s) = [r] \<and> driver r = Some n \<and> driver_ok f r \<and> lp_result s = None)
   \<or> (drivers (lp_runners s) = [] \<and> fu_installed f \<and> \<not> fu_handled f \<and> lp_result s = None)
   \<or> (drivers (lp_runners s) = [] \<and> (fu_installed f \<longrightarrow> fu_handled f) \<and> lp_result s \<noteq> None \<and> (\<exists>y. fu_outcome f = Some y \<and> lp_result s = ending y)))"

text \<open>The futures before the last, and the last.\<close>

definition loop_ok :: "('t, 'r) loop_future list \<Rightarrow> ('t, 'r) loop_future \<Rightarrow> ('t, 'r) loop_state \<Rightarrow> bool" where
  "loop_ok fs f s = (lp_futures s = fs @ [f] \<and> typed_option (length fs) (fu_outcome f)
     \<and> (\<exists>xs. map fu_outcome fs = map Some xs \<and> sequential xs = (lp_calls s, None)) \<and> length (lp_calls s) = Suc (length fs)
     \<and> list_all (\<lambda>f. fu_installed f \<longrightarrow> fu_handled f) fs \<and> progress_ok (length fs) f s)"

lemma drivers_replace:
  assumes "i < length rs"
  shows "driver (rs ! i) = None \<Longrightarrow> driver y = None \<Longrightarrow> drivers (rs[i := y]) = drivers rs"
    and "driver (rs ! i) = None \<Longrightarrow> drivers (take i rs @ drop (Suc i) rs) = drivers rs"
    and "driver (rs ! i) \<noteq> None \<Longrightarrow> drivers rs = [r] \<Longrightarrow> r = rs ! i \<and> drivers (rs[i := y]) = drivers [y] \<and> drivers (take i rs @ drop (Suc i) rs) = []"
proof -
  define as bs where "as = take i rs" and "bs = drop (Suc i) rs"
  have rs: "rs = as @ rs ! i # bs" using assms by (simp add: as_def bs_def id_take_nth_drop)
  have up: "rs[i := y] = as @ y # bs" using assms by (simp add: as_def bs_def upd_conv_take_nth_drop)
  have split: "drivers rs = drivers as @ drivers [rs ! i] @ drivers bs" by (subst rs) (simp add: drivers_def)
  show "driver (rs ! i) = None \<Longrightarrow> driver y = None \<Longrightarrow> drivers (rs[i := y]) = drivers rs"
    using split up by (simp add: drivers_def)
  show "driver (rs ! i) = None \<Longrightarrow> drivers (take i rs @ drop (Suc i) rs) = drivers rs"
    using split by (simp add: drivers_def as_def bs_def)
  show "driver (rs ! i) \<noteq> None \<Longrightarrow> drivers rs = [r] \<Longrightarrow> r = rs ! i \<and> drivers (rs[i := y]) = drivers [y] \<and> drivers (take i rs @ drop (Suc i) rs) = []"
  proof -
    assume "driver (rs ! i) \<noteq> None" "drivers rs = [r]"
    then have "[r] = drivers as @ rs ! i # drivers bs" using split by (simp add: drivers_def)
    then have "drivers as = []" "r = rs ! i" "drivers bs = []" by (cases "drivers as"; simp)+
    then show ?thesis using up by (simp add: drivers_def as_def bs_def)
  qed
qed

text \<open>A change of the requests for a discard, of \<^verbatim>\<open>discard\<close> and of the callback does not matter here.\<close>

lemma loop_ok_discard:
  assumes "loop_ok fs f s"
  obtains fs' f' where "loop_ok fs' f' (request_discard k s)" "length fs' = length fs" "fu_outcome f' = fu_outcome f" "fu_installed f' = fu_installed f" "fu_handled f' = fu_handled f"
    "fu_discard f \<Longrightarrow> fu_discard f'" "k = length fs \<Longrightarrow> fu_outcome f = None \<Longrightarrow> fu_discard f'"
proof (cases "fu_outcome (lp_futures s ! k) = None \<and> k \<le> length fs")
  case True
  have fut: "lp_futures s = fs @ [f]" using assms by (simp add: loop_ok_def)
  define f' where "f' = f\<lparr>fu_discard := True\<rparr>"
  show ?thesis
  proof (cases "k = length fs")
    case True
    then have "loop_ok fs f' (request_discard k s)"
      using assms \<open>fu_outcome (lp_futures s ! k) = None \<and> k \<le> length fs\<close> fut
      by (auto simp: loop_ok_def request_discard_def update_future_def f'_def list_update_append progress_ok_def elim!: driver_ok.elims)
    then show ?thesis using that [of fs f'] by (simp add: f'_def)
  next
    case False
    then have k: "k < length fs" using True by simp
    have "fu_outcome (fs ! k) \<noteq> None"
      using assms k unfolding loop_ok_def by (metis length_map nth_map option.distinct(1))
    then show ?thesis using True k fut by (simp add: nth_append)
  qed
next
  case False
  then have "request_discard k s = s"
    using assms by (cases s) (auto simp: request_discard_def update_future_def loop_ok_def list_update_beyond)
  moreover have "\<not> (k = length fs \<and> fu_outcome f = None)" using False assms by (auto simp: loop_ok_def)
  ultimately show ?thesis using that [of fs f] assms by auto
qed

lemma loop_ok_calls:
  assumes "loop_ok fs f s" and "fu_outcome f = Some y" and "y = LItem v \<and> c = CallBody v \<or> y = LContinue \<and> c = CallIterate"
  shows "\<exists>xs. map fu_outcome (fs @ [f]) = map Some xs \<and> sequential xs = (lp_calls s @ [c], None)"
proof -
  obtain xs where xs: "map fu_outcome fs = map Some xs" "sequential xs = (lp_calls s, None)" using assms(1) by (auto simp: loop_ok_def)
  have "length xs = length fs" using xs(1) by (metis length_map)
  then have "sequential (xs @ [y]) = (lp_calls s @ [c], None)"
    using sequential_snoc [OF xs(2), of y] assms by (auto simp: loop_ok_def typed_option_def)
  then show ?thesis using xs(1) assms(2) by (intro exI [of _ "xs @ [y]"]) simp
qed

text \<open>The driving call of \<^verbatim>\<open>run\<close> makes a step.\<close>

lemma driver_step:
  assumes ok: "loop_ok fs f s" and i: "i < length (lp_runners s)" and d: "driver (lp_runners s ! i) \<noteq> None" and x: "typed_option (length (lp_futures s)) x"
  shows "\<exists>fs' f'. loop_ok fs' f' (loop_step pid (Run i x) s)"
proof -
  let ?r = "lp_runners s ! i" and ?n = "length fs"
  have fut: "lp_futures s = fs @ [f]" "lp_futures s ! ?n = f" "length (lp_futures s) = Suc ?n" using ok by (auto simp: loop_ok_def)
  have "drivers (lp_runners s) \<noteq> []" using i d by (auto simp: drivers_def filter_empty_conv)
  then obtain r where "drivers (lp_runners s) = [r]" "driver r = Some ?n" "driver_ok f r" "lp_result s = None" using ok by (auto simp: loop_ok_def progress_ok_def)
  then have r: "driver ?r = Some ?n" "driver_ok f ?r" "lp_result s = None" and rep: "drivers ((lp_runners s)[i := y]) = drivers [y]"
      and rem: "drivers (take i (lp_runners s) @ drop (Suc i) (lp_runners s)) = []" for y
    using drivers_replace(3) [OF i d] by auto
  have typed: "typed_option ?n (fu_outcome f)" using ok by (simp add: loop_ok_def)
  show ?thesis
  proof (cases ?r)
    case (RReset k)
    then have "loop_ok fs f (loop_step pid (Run i x) s)" using ok i x r rep [of "RLoop k"] by (auto simp: loop_ok_def progress_ok_def drivers_def)
    then show ?thesis by blast
  next
    case (RLoop k)
    then have k: "k = ?n" using r by simp
    show ?thesis
    proof (cases "\<exists>v. fu_outcome f = Some (LItem v)")
      case True
      then obtain v where v: "fu_outcome f = Some (LItem v)" by blast
      have "loop_ok (fs @ [f]) (new_loop_future x) (loop_step pid (Run i x) s)"
        using ok i x r rep [of "RFlow (Suc ?n)"] RLoop k fut v loop_ok_calls [OF ok v, of v "CallBody v"]
        by (auto simp: loop_ok_def progress_ok_def drivers_def call_loop_def new_loop_future_def)
      then show ?thesis by blast
    next
      case False
      then have "run_step ?r x s = (s, Some (RInstall k))" using RLoop k fut by (auto split: option.splits loop_outcome.splits)
      then have "loop_ok fs f (loop_step pid (Run i x) s)"
        using ok i x r rep [of "RInstall k"] RLoop False by (auto simp: loop_ok_def progress_ok_def drivers_def)
      then show ?thesis by blast
    qed
  next
    case (RFlow k)
    then have k: "k = ?n" "odd k" using r by auto
    then consider "fu_outcome f = Some LContinue" | y where "fu_outcome f = Some (LBreak y)" | "run_step ?r x s = (s, Some (RInstall k))"
      using RFlow fut by (cases "fu_outcome f"; cases "the (fu_outcome f)") auto
    then show ?thesis
    proof cases
      case 1
      have "loop_ok (fs @ [f]) (new_loop_future x) (loop_step pid (Run i x) s)"
        using ok i x r rep [of "RLoop (Suc ?n)"] RFlow k fut 1 loop_ok_calls [OF ok 1, of _ CallIterate]
        by (auto simp: loop_ok_def progress_ok_def drivers_def call_loop_def new_loop_future_def)
      then show ?thesis by blast
    next
      case 2
      have "loop_ok fs f (loop_step pid (Run i x) s)"
        using ok i x r rem RFlow k fut 2 by (auto simp: loop_ok_def progress_ok_def drivers_def loop_finish_def)
      then show ?thesis by blast
    next
      case 3
      then have "loop_ok fs f (loop_step pid (Run i x) s)"
        using ok i x r rep [of "RInstall k"] RFlow by (auto simp: loop_ok_def progress_ok_def drivers_def)
      then show ?thesis by blast
    qed
  next
    case (RInstall k)
    then have "loop_ok fs (f\<lparr>fu_installed := True\<rparr>) (loop_step pid (Run i x) s)"
      using ok i x r rep [of "RTest k"] fut by (auto simp: loop_ok_def progress_ok_def drivers_def update_future_def)
    then show ?thesis by blast
  qed (use d in simp_all)
qed

lemma loop_ok_irrelevant:
  "loop_ok fs f (s\<lparr>lp_discard := a\<rparr>) = loop_ok fs f s" "loop_ok fs f (s\<lparr>lp_has_discard := b\<rparr>) = loop_ok fs f s" "loop_ok fs f (s\<lparr>lp_discarder := c\<rparr>) = loop_ok fs f s"
  "drivers rs = drivers (lp_runners s) \<Longrightarrow> loop_ok fs f (s\<lparr>lp_runners := rs\<rparr>) = loop_ok fs f s"
  by (simp_all add: loop_ok_def progress_ok_def)

lemma request_discard_runners: "lp_runners (request_discard k s) = lp_runners s"
  by (simp add: request_discard_def update_future_def)

lemma tail_step:
  assumes ok: "loop_ok fs f s" and i: "i < length (lp_runners s)" and d: "driver (lp_runners s ! i) = None"
  shows "\<exists>fs' f'. loop_ok fs' f' (loop_step pid (Run i x) s)"
proof (cases "lp_runners s ! i")
  case (RFinal k)
  obtain fs' f' where "loop_ok fs' f' (request_discard k s)" using loop_ok_discard [OF ok] by metis
  then show ?thesis
    using RFinal ok drivers_replace(2) [OF i d] by (auto simp: loop_ok_irrelevant request_discard_runners)
next
  case (RTest k)
  have "drivers ((lp_runners s)[i := if lp_has_discard s then RFinal k else RSet k]) = drivers (lp_runners s)" using drivers_replace(1) [OF i d] by simp
  then show ?thesis using ok RTest by (auto simp: loop_ok_irrelevant)
next
  case (RSet k)
  have "drivers ((lp_runners s)[i := RFinal k]) = drivers (lp_runners s)" using drivers_replace(1) [OF i d] by simp
  then show ?thesis using ok RSet by (auto simp: loop_ok_irrelevant)
qed (use d in simp_all)

lemma continuation_step:
  assumes ok: "loop_ok fs f s" and guard: "k < length (lp_futures s)" "fu_installed (lp_futures s ! k)" "\<not> fu_handled (lp_futures s ! k)" "fu_outcome (lp_futures s ! k) \<noteq> None"
    and x: "typed_option (length (lp_futures s)) x"
  shows "\<exists>fs' f'. loop_ok fs' f' (continuation k x s)"
proof -
  have fut: "lp_futures s = fs @ [f]" using ok by (simp add: loop_ok_def)
  have "\<not> k < length fs" using ok guard(2,3) fut by (auto simp: loop_ok_def list_all_length nth_append)
  then have k: "k = length fs" "lp_futures s ! k = f" using guard(1) fut by (auto simp: nth_append less_Suc_eq)
  have w: "drivers (lp_runners s) = []" "lp_result s = None" using ok guard(2,3) k by (auto simp: loop_ok_def progress_ok_def elim!: driver_ok.elims)
  let ?f = "f\<lparr>fu_handled := True\<rparr>" and ?s = "update_future k (\<lambda>f. f\<lparr>fu_handled := True\<rparr>) s"
  have upd: "lp_futures ?s = fs @ [?f]" "lp_runners ?s = lp_runners s" "lp_calls ?s = lp_calls s" "lp_result ?s = None" using fut k w by (simp_all add: update_future_def)
  obtain y where y: "fu_outcome f = Some y" using guard(4) k by auto
  have typed: "typed k y" using ok y k by (simp add: loop_ok_def typed_option_def)
  consider v where "y = LItem v" | "y = LContinue" | r where "ending y = Some r" by (cases y) auto
  then show ?thesis
  proof cases
    case 1
    then have "loop_ok fs ?f (continuation k x s)"
      using ok upd w y k typed by (auto simp: loop_ok_def continuation_def progress_ok_def drivers_def)
    then show ?thesis by blast
  next
    case 2
    then have "loop_ok (fs @ [?f]) (new_loop_future x) (continuation k x s)"
      using ok upd w y k typed x fut loop_ok_calls [OF ok y, of _ CallIterate]
      by (auto simp: loop_ok_def continuation_def progress_ok_def drivers_def call_loop_def new_loop_future_def)
    then show ?thesis by blast
  next
    case 3
    then have "continuation k x s = loop_finish r ?s" using y k upd by (cases y) (auto simp: continuation_def nth_append)
    then have "loop_ok fs ?f (continuation k x s)"
      using ok upd w y 3 by (auto simp: loop_ok_def progress_ok_def loop_finish_def)
    then show ?thesis by blast
  qed
qed

lemma completes_step:
  assumes ok: "loop_ok fs f s" and guard: "k < length (lp_futures s)" "fu_outcome (lp_futures s ! k) = None" "typed k y"
  shows "k = length fs \<and> loop_ok fs (f\<lparr>fu_outcome := Some y\<rparr>) (update_future k (\<lambda>f. f\<lparr>fu_outcome := Some y\<rparr>) s)"
proof -
  have fut: "lp_futures s = fs @ [f]" using ok by (simp add: loop_ok_def)
  have "fu_outcome (fs ! k) \<noteq> None" if "k < length fs" using ok that unfolding loop_ok_def by (metis length_map nth_map option.distinct(1))
  then have k: "k = length fs" using guard fut by (auto simp: nth_append less_Suc_eq)
  have "fu_outcome f = None" using guard(2) k fut by simp
  then show ?thesis
    using ok guard(3) k fut by (auto simp: loop_ok_def update_future_def typed_option_def progress_ok_def elim!: driver_ok.elims)
qed

lemma loop_step_ok:
  assumes ok: "loop_ok fs f s"
  shows "\<exists>fs' f'. loop_ok fs' f' (loop_step pid e s)"
proof (cases e)
  case (Run i x)
  show ?thesis
  proof (cases "i < length (lp_runners s) \<and> typed_option (length (lp_futures s)) x")
    case True
    then show ?thesis using driver_step [OF ok] tail_step [OF ok] Run by blast
  qed (use ok Run in auto)
next
  case (Continuation k x)
  then show ?thesis using ok continuation_step [OF ok, of k x] by auto
next
  case (LoopCompletes k y)
  then show ?thesis using ok completes_step [OF ok, of k y] by auto
next
  case DiscardLoop
  then show ?thesis using ok by (auto simp: loop_ok_irrelevant)
next
  case Callback
  have "\<exists>fs' f'. loop_ok fs' f' (request_discard k s)" for k using loop_ok_discard [OF ok] by metis
  then show ?thesis using Callback ok by (auto simp: discard_callback_def loop_ok_irrelevant split: discarder.splits option.splits)
qed

lemma loop_start_ok: "typed_option 0 x \<Longrightarrow> loop_ok [] (new_loop_future x) (loop_start x)"
  by (simp add: loop_ok_def loop_start_def progress_ok_def drivers_def new_loop_future_def)

lemma loop_run_ok:
  assumes "loop_ok fs f s"
  shows "\<exists>fs' f'. loop_ok fs' f' (fold (loop_step pid) es s)"
  using assms
proof (induction es arbitrary: fs f s)
  case (Cons e es)
  obtain fs1 f1 where "loop_ok fs1 f1 (loop_step pid e s)" using loop_step_ok [OF Cons.prems] by blast
  then show ?case using Cons.IH by simp
qed auto

definition at_rest :: "('t, 'r) loop_state \<Rightarrow> bool" where
  "at_rest s = (lp_runners s = [] \<and> lp_discarder s = DIdle
     \<and> list_all (\<lambda>f. fu_installed f \<and> fu_outcome f \<noteq> None \<longrightarrow> fu_handled f) (lp_futures s))"

text \<open>C33.
  The asynchronous loop does what the sequential loop does: whatever the futures of \<^verbatim>\<open>iterate\<close> and \<^verbatim>\<open>body\<close> are when they are returned and in whatever order
  completions, continuations and discards are interleaved, with or without a \<^verbatim>\<open>pid\<close>, once no call of \<^verbatim>\<open>run\<close>, no continuation and no callback is left the calls
  made and the result are those of the sequential loop on the outcomes of the futures; until it has a result, the loop waits for exactly one future, the last.
\<close>

theorem loop_is_sequential:
  assumes "typed_option 0 x" and "s = fold (loop_step pid) es (loop_start x)" and "at_rest s"
  shows "\<exists>xs. sequential xs = (lp_calls s, lp_result s)
    \<and> (if lp_result s = None then map fu_outcome (lp_futures s) = map Some xs @ [None] else map fu_outcome (lp_futures s) = map Some xs)"
proof -
  obtain fs f where ok: "loop_ok fs f s" using loop_run_ok [OF loop_start_ok [OF assms(1)]] assms(2) by blast
  have fut: "lp_futures s = fs @ [f]" using ok by (simp add: loop_ok_def)
  obtain xs where xs: "map fu_outcome fs = map Some xs" "sequential xs = (lp_calls s, None)" using ok by (auto simp: loop_ok_def)
  have len: "length xs = length fs" using xs(1) by (metis length_map)
  have "drivers (lp_runners s) = []" using assms(3) by (simp add: at_rest_def drivers_def)
  then consider "fu_installed f" "\<not> fu_handled f" "lp_result s = None" | y where "fu_outcome f = Some y" "lp_result s = ending y" "ending y \<noteq> None"
    using ok by (auto simp: loop_ok_def progress_ok_def)
  then show ?thesis
  proof cases
    case 1
    then have "fu_outcome f = None" using assms(3) fut by (auto simp: at_rest_def)
    then show ?thesis using 1 xs fut by (intro exI [of _ xs]) simp
  next
    case 2
    then have "sequential (xs @ [y]) = (lp_calls s, ending y)"
      using sequential_snoc [OF xs(2), of y] ok len by (cases y) (auto simp: loop_ok_def typed_option_def)
    then show ?thesis using 2 xs fut by (intro exI [of _ "xs @ [y]"]) auto
  qed
qed

theorem loop_is_sequential_witness:
  "\<exists>s xs. s = fold (loop_step False) [Run 0 None, Run 0 None, Run 0 None, LoopCompletes 0 (LItem (7 :: nat)), Run 0 None, Run 0 None, Run 0 None,
      Continuation 0 None, Run 0 None, Run 0 (Some (LBreak (8 :: nat))), Run 0 None] (loop_start None)
    \<and> lp_result s = Some (LReady 8) \<and> sequential xs = (lp_calls s, lp_result s)"
proof -
  define s where "s = fold (loop_step False) [Run 0 None, Run 0 None, Run 0 None, LoopCompletes 0 (LItem (7 :: nat)), Run 0 None, Run 0 None, Run 0 None,
      Continuation 0 None, Run 0 None, Run 0 (Some (LBreak (8 :: nat))), Run 0 None] (loop_start None)"
  have "at_rest s \<and> lp_result s = Some (LReady 8)" unfolding s_def by code_simp
  moreover have "typed_option 0 (None :: (nat, nat) loop_outcome option)" by (simp add: typed_option_def)
  ultimately show ?thesis using loop_is_sequential [OF _ s_def] unfolding s_def [symmetric] by blast
qed

section \<open>Discards\<close>

text \<open>With a \<^verbatim>\<open>pid\<close>, one call of \<^verbatim>\<open>run\<close> at a time.\<close>

definition serial_ok :: "('t, 'r) loop_state \<Rightarrow> bool" where
  "serial_ok s = (let n = length (lp_futures s) - 1; f = last (lp_futures s) in
     length (lp_runners s) \<le> 1
     \<and> (lp_discarder s \<noteq> DIdle \<longrightarrow> lp_has_discard s)
     \<and> (\<forall>r k. lp_runners s = [r] \<longrightarrow> tail_of r = Some k \<longrightarrow> k = n \<and> fu_installed f \<and> \<not> fu_handled f)
     \<and> (\<forall>k. lp_runners s = [RFinal k] \<longrightarrow> lp_discard s = Some k \<or> lp_has_discard s)
     \<and> (lp_runners s = [] \<and> fu_installed f \<and> \<not> fu_handled f \<and> fu_outcome f = None \<longrightarrow>
          fu_discard f \<or> (lp_discard s = Some n \<and> (lp_has_discard s \<longrightarrow> lp_discarder s = DRead)) \<or> lp_discarder s = DInvoke (Some n)))"

lemma request_discard_last:
  assumes "loop_ok fs f s"
  shows "lp_futures (request_discard k s) = (if k = length fs \<and> fu_outcome f = None then fs @ [f\<lparr>fu_discard := True\<rparr>] else fs @ [f])"
proof -
  have some: "fu_outcome (fs ! k) \<noteq> None" if "k < length fs" using assms that unfolding loop_ok_def by (metis length_map nth_map option.distinct(1))
  have fut: "lp_futures s = fs @ [f]" using assms by (simp add: loop_ok_def)
  consider "k < length fs" | "k = length fs" | "k > length fs" by linarith
  then show ?thesis
    using some fut by cases (auto simp: request_discard_def update_future_def nth_append list_update_beyond)
qed

lemma serial_run:
  assumes ok: "loop_ok fs f s" and ser: "serial_ok s" and i: "i < length (lp_runners s)" and x: "typed_option (length (lp_futures s)) x"
  shows "serial_ok (loop_step True (Run i x) s)"
proof -
  have fut: "lp_futures s = fs @ [f]" using ok by (simp add: loop_ok_def)
  have "length (lp_runners s) \<le> 1" using ser by (simp add: serial_ok_def Let_def)
  then obtain r where rs: "lp_runners s = [r]" "i = 0" using i by (cases "lp_runners s") auto
  have d: "driver r = Some k \<Longrightarrow> k = length fs \<and> driver_ok f r" for k
    using ok rs by (auto simp: loop_ok_def progress_ok_def drivers_def split: if_splits)
  have t: "tail_of r = Some k \<Longrightarrow> k = length fs \<and> fu_installed f \<and> \<not> fu_handled f" for k using ser rs fut by (simp add: serial_ok_def Let_def)
  have b: "lp_discarder s \<noteq> DIdle \<longrightarrow> lp_has_discard s" using ser by (simp add: serial_ok_def Let_def)
  show ?thesis
  proof (cases r)
    case (RLoop k)
    then show ?thesis using rs x b by (cases "fu_outcome (lp_futures s ! k)"; cases "the (fu_outcome (lp_futures s ! k))") (auto simp: serial_ok_def call_loop_def)
  next
    case (RFlow k)
    then have "\<not> fu_installed f" using d [of k] by simp
    then show ?thesis using rs x b RFlow fut
      by (cases "fu_outcome (lp_futures s ! k)"; cases "the (fu_outcome (lp_futures s ! k))") (auto simp: serial_ok_def call_loop_def loop_finish_def)
  next
    case (RInstall k)
    then show ?thesis using rs x b d [of k] fut by (auto simp: serial_ok_def update_future_def)
  next
    case (RFinal k)
    then have "lp_discard s = Some k \<or> lp_has_discard s" using ser rs by (auto simp: serial_ok_def Let_def)
    then show ?thesis
      using rs x b RFinal t [of k] fut request_discard_last [OF ok, of k] by (auto simp: serial_ok_def request_discard_def update_future_def)
  qed (use rs x b t fut in \<open>auto simp: serial_ok_def\<close>)
qed

lemma serial_continuation:
  assumes ok: "loop_ok fs f s" and ser: "serial_ok s" and guard: "k < length (lp_futures s)" "fu_installed (lp_futures s ! k)" "\<not> fu_handled (lp_futures s ! k)"
      "fu_outcome (lp_futures s ! k) \<noteq> None" and rs: "lp_runners s = []"
  shows "serial_ok (continuation k x s)"
proof -
  have fut: "lp_futures s = fs @ [f]" using ok by (simp add: loop_ok_def)
  have "\<not> k < length fs" using ok guard(2,3) fut by (auto simp: loop_ok_def list_all_length nth_append)
  then have k: "k = length fs" using guard(1) fut by auto
  have b: "lp_discarder s \<noteq> DIdle \<longrightarrow> lp_has_discard s" using ser by (simp add: serial_ok_def Let_def)
  show ?thesis
    using guard(4) rs fut k b
    by (cases "lp_result s"; cases "the (fu_outcome f)") (auto simp: serial_ok_def continuation_def update_future_def call_loop_def loop_finish_def Let_def)
qed

lemma serial_callback:
  assumes ok: "loop_ok fs f s" and ser: "serial_ok s"
  shows "serial_ok (discard_callback s)"
proof -
  have fut: "lp_futures s = fs @ [f]" using ok by (simp add: loop_ok_def)
  have frame: "lp_runners (request_discard k s) = lp_runners s" "lp_discard (request_discard k s) = lp_discard s" "lp_has_discard (request_discard k s) = lp_has_discard s" for k
    by (simp_all add: request_discard_def update_future_def)
  show ?thesis
  proof (cases "lp_discarder s")
    case (DInvoke w)
    then show ?thesis
      using ser fut request_discard_last [OF ok] frame by (cases w) (auto simp: discard_callback_def serial_ok_def Let_def)
  qed (use ser in \<open>auto simp: discard_callback_def serial_ok_def Let_def\<close>)
qed

lemma serial_step:
  assumes ok: "loop_ok fs f s" and ser: "serial_ok s"
  shows "serial_ok (loop_step True e s)"
proof (cases e)
  case (Run i x)
  show ?thesis
  proof (cases "i < length (lp_runners s) \<and> typed_option (length (lp_futures s)) x")
    case True
    then show ?thesis using serial_run [OF ok ser] Run by blast
  qed (use ser Run in auto)
next
  case (Continuation k x)
  then show ?thesis using ser serial_continuation [OF ok ser] by simp
next
  case (LoopCompletes k y)
  show ?thesis
  proof (cases "k < length (lp_futures s) \<and> fu_outcome (lp_futures s ! k) = None \<and> typed k y")
    case True
    then have "k = length fs" using completes_step [OF ok] by blast
    moreover have "lp_futures s = fs @ [f]" using ok by (simp add: loop_ok_def)
    ultimately show ?thesis using ser LoopCompletes by (auto simp: serial_ok_def Let_def update_future_def)
  qed (use ser LoopCompletes in auto)
next
  case Callback
  then show ?thesis using serial_callback [OF ok ser] by simp
qed (use ser in \<open>auto simp: serial_ok_def Let_def\<close>)

lemma serial_runs:
  assumes "loop_ok fs f s" and "serial_ok s"
  shows "serial_ok (fold (loop_step True) es s)"
  using assms
proof (induction es arbitrary: fs f s)
  case (Cons e es)
  obtain fs1 f1 where "loop_ok fs1 f1 (loop_step True e s)" using loop_step_ok [OF Cons.prems(1)] by blast
  then show ?case using Cons.IH serial_step [OF Cons.prems] by simp
qed simp

text \<open>C34.
  With a \<^verbatim>\<open>pid\<close> no discard of the loop is lost: however the discard races with \<^verbatim>\<open>run\<close>, once no call of \<^verbatim>\<open>run\<close>, no continuation and no callback is left and the loop has no
  result, a discard of the future it waits for has been requested, the one that is pending at that time.
\<close>

theorem loop_discard_arrives:
  assumes "typed_option 0 x" and "s = fold (loop_step True) es (loop_start x)" and "at_rest s" and "lp_has_discard s" and "lp_result s = None"
  shows "fu_discard (last (lp_futures s)) \<and> fu_outcome (last (lp_futures s)) = None"
proof -
  obtain fs f where ok: "loop_ok fs f s" using loop_run_ok [OF loop_start_ok [OF assms(1)]] assms(2) by blast
  have "serial_ok (loop_start x)" by (simp add: serial_ok_def loop_start_def)
  then have ser: "serial_ok s" using serial_runs [OF loop_start_ok [OF assms(1)]] assms(2) by simp
  have fut: "lp_futures s = fs @ [f]" using ok by (simp add: loop_ok_def)
  have "fu_installed f" "\<not> fu_handled f" using ok assms(3,5) by (auto simp: loop_ok_def progress_ok_def at_rest_def drivers_def)
  moreover from this have "fu_outcome f = None" using assms(3) fut by (auto simp: at_rest_def)
  ultimately show ?thesis using ser assms(3,4) fut by (auto simp: serial_ok_def at_rest_def Let_def)
qed

text \<open>The discard comes between the test and the setting of \<^verbatim>\<open>discard\<close>.\<close>

definition raced_discard :: "(nat, nat) loop_event list" where
  "raced_discard = [Run 0 None, Run 0 None, Run 0 None, Run 0 None, DiscardLoop, Callback, Run 0 None, Callback, Run 0 None]"

theorem loop_discard_arrives_witness:
  "\<exists>s. s = fold (loop_step True) raced_discard (loop_start None) \<and> lp_result s = None \<and> fu_discard (last (lp_futures s))"
proof -
  define s where "s = fold (loop_step True) raced_discard (loop_start None)"
  have "at_rest s \<and> lp_has_discard s \<and> lp_result s = None" unfolding s_def by code_simp
  then show ?thesis using loop_discard_arrives [OF _ s_def] unfolding s_def [symmetric] by (simp add: typed_option_def)
qed

text \<open>
  Without a \<^verbatim>\<open>pid\<close> a discard can be lost. The first future completes on another thread right after its continuation was installed; that thread runs the loop up to the next future and sets
  \<^verbatim>\<open>discard\<close> for it; then the first thread goes on and sets \<^verbatim>\<open>discard\<close> for the future it was waiting for, which is long completed. A later discard of the loop ends there.
\<close>

definition overtaken :: "(nat, nat) loop_event list" where
  "overtaken = [Run 0 None, Run 0 None, Run 0 None, LoopCompletes 0 (LItem 7), Continuation 0 None] @ replicate 7 (Run 1 None)
     @ [Run 0 None, Run 0 None, Run 0 None, DiscardLoop, Callback, Callback]"

lemma loop_without_pid_loses_discard:
  "(let s = fold (loop_step False) overtaken (loop_start None) in
    at_rest s \<and> lp_has_discard s \<and> lp_result s = None \<and> \<not> fu_discard (last (lp_futures s)))"
  by code_simp

end
