(* ===== verification/Serving.thy ===== *)
theory Serving
  imports Decoder_Properties Encoder_Properties
begin

text \<open>
  \<^verbatim>\<open>http::serve\<close> of \<^verbatim>\<open>src/http.cpp\<close>: the loop that receives requests, the loop that sends responses, and the queue between them. The loops and the queue behave as the
  theories of loops and channels show: the body of a loop runs when the future it waits for is ready, one iteration after the other. Requests are numbered in the
  order in which they arrive. What http-parser reports is an argument of the event that receives data; files and the clock are given by an environment.
\<close>

section \<open>Writing a response\<close>

datatype handler_future = HPending | HReady response | HFailed string | HDiscarded | HAbandoned

datatype opened = OpenFailed string | StatFailed string | IsDirectory | Opened nat nat

record serve_env =
  se_enc :: enc_libs
  se_date :: string
  se_open :: "string \<Rightarrow> opened"
  se_content :: "nat \<Rightarrow> string"

datatype outgoing = WriteData string | WriteFile nat nat | WriteStream nat

definition send_response :: "serve_env \<Rightarrow> response \<Rightarrow> request \<Rightarrow> outgoing list" where
  "send_response E resp req = [WriteData (response_encode (se_enc E) (se_date E) resp req)]"

definition sendfile :: "serve_env \<Rightarrow> response \<Rightarrow> request \<Rightarrow> outgoing list" where
  "sendfile E resp0 req = (let resp = resp0\<lparr>rs_body := []\<rparr> in case se_open E (rs_path resp) of
     OpenFailed e \<Rightarrow> send_response E (InternalServerError (''Failed to open '' @ quoted (rs_path resp) @ '': '' @ e)) req
   | StatFailed e \<Rightarrow> send_response E (InternalServerError (''Failed to fstat '' @ quoted (rs_path resp) @ '': '' @ e)) req
   | IsDirectory \<Rightarrow> send_response E (InternalServerError (quoted (rs_path resp) @ '' is a directory'')) req
   | Opened fd len \<Rightarrow> send_response E (resp\<lparr>rs_headers := headers_set ''Content-Length'' (dec len) (rs_headers resp)\<rparr>) req @ [WriteFile fd len])"

definition stream_pipe :: "serve_env \<Rightarrow> response \<Rightarrow> request \<Rightarrow> outgoing list" where
  "stream_pipe E resp0 req = (let resp = resp0\<lparr>rs_body := []\<rparr> in case rs_reader resp of
     None \<Rightarrow> send_response E (InternalServerError ''Missing data to stream'') req
   | Some p \<Rightarrow> send_response E (resp\<lparr>rs_headers := headers_set ''Transfer-Encoding'' ''chunked'' (rs_headers resp)\<rparr>) req @ [WriteStream p])"

definition reply_writes :: "serve_env \<Rightarrow> response \<Rightarrow> request \<Rightarrow> outgoing list" where
  "reply_writes E resp req = (case rs_type resp of
     RespPath \<Rightarrow> sendfile E resp req
   | RespPipe \<Rightarrow> stream_pipe E resp req
   | _ \<Rightarrow> send_response E resp req)"

definition response_of :: "handler_future \<Rightarrow> response" where
  "response_of v = (case v of
     HReady r \<Rightarrow> r
   | HFailed m \<Rightarrow> InternalServerError m
   | _ \<Rightarrow> ServiceUnavailable ''503 Service Unavailable.'')"

section \<open>State\<close>

datatype loop_end = EndReady | EndFailed string | EndDiscarded

datatype sending = AwaitItem | AwaitResponse nat | Writing nat response "outgoing list" | SendEnded loop_end

datatype serve_result = ServeReady | ServeFailed string | ServeDiscarded

text \<open>
  \<open>sv_receiving\<close> and \<open>SendEnded\<close>: how the loops ended. Recorded: what was sent in full, the readers closed, the requests deleted and the responses discarded. Ghost: the
  responses that were begun, in order, and the chunks streamed for each.
\<close>

record 'z serving =
  sv_decoder :: "'z request_decoder"
  sv_requests :: "request list"
  sv_futures :: "nat \<Rightarrow> handler_future"
  sv_pipeline :: "nat option list"
  sv_receiving :: "loop_end option"
  sv_sending :: sending
  sv_read_shut :: bool
  sv_write_shut :: bool
  sv_discard :: bool
  sv_result :: "serve_result option"
  sv_wire :: string
  sv_closed :: "nat list"
  sv_deleted :: "nat list"
  sv_discarded :: "nat list"
  sv_replies :: "response list"
  sv_chunks :: "nat \<Rightarrow> string list"

definition serve_init :: "'z serving" where
  "serve_init = \<lparr>sv_decoder = streaming_request_init, sv_requests = [], sv_futures = (\<lambda>_. HPending), sv_pipeline = [], sv_receiving = None,
     sv_sending = AwaitItem, sv_read_shut = False, sv_write_shut = False, sv_discard = False, sv_result = None, sv_wire = [], sv_closed = [],
     sv_deleted = [], sv_discarded = [], sv_replies = [], sv_chunks = (\<lambda>_. [])\<rparr>"

section \<open>The receive loop\<close>

definition end_receiving :: "loop_end \<Rightarrow> 'z serving \<Rightarrow> 'z serving" where
  "end_receiving e s = s\<lparr>sv_receiving := Some e, sv_decoder := stream_destroy (sv_decoder s), sv_pipeline := sv_pipeline s @ [None], sv_read_shut := True\<rparr>"

text \<open>The body of the loop for data that is not empty. None: a \<^verbatim>\<open>CHECK\<close> of the decoder fails.\<close>

definition receive_data :: "'z libs \<Rightarrow> parser_call list \<times> parse_end \<Rightarrow> 'z serving \<Rightarrow> 'z serving option" where
  "receive_data L inp s = (case srequest_decode L inp (sv_decoder s) of
     None \<Rightarrow> None
   | Some (d, rs) \<Rightarrow> Some (let n = length (sv_requests s); s1 = s\<lparr>sv_decoder := d\<rparr> in
       if dc_failure d \<and> rs = [] then end_receiving (EndFailed ''Decoder error while receiving'') s1
       else s1\<lparr>sv_requests := sv_requests s @ rs, sv_pipeline := sv_pipeline s @ map Some [n..<n + length rs]\<rparr>))"

section \<open>The send loop\<close>

definition end_sending :: "loop_end \<Rightarrow> 'z serving \<Rightarrow> 'z serving" where
  "end_sending e s = s\<lparr>sv_sending := SendEnded e, sv_read_shut := True, sv_write_shut := True\<rparr>"

definition take_item :: "'z serving \<Rightarrow> 'z serving" where
  "take_item s = (case sv_pipeline s of
     [] \<Rightarrow> if sv_discard s then end_sending EndDiscarded s else s
   | None # items \<Rightarrow> end_sending EndReady (s\<lparr>sv_pipeline := items\<rparr>)
   | Some i # items \<Rightarrow> s\<lparr>sv_pipeline := items, sv_sending := AwaitResponse i\<rparr>)"

text \<open>A discard of the loop ends the wait for a response, and discards it.\<close>

definition await_response :: "serve_env \<Rightarrow> nat \<Rightarrow> 'z serving \<Rightarrow> 'z serving" where
  "await_response E i s =
    (if sv_futures s i = HPending \<and> \<not> sv_discard s then s
     else let resp = response_of (sv_futures s i) in
       s\<lparr>sv_sending := Writing i resp (reply_writes E resp (sv_requests s ! i)), sv_replies := sv_replies s @ [resp],
         sv_discarded := (if sv_futures s i = HPending then sv_discarded s @ [i] else sv_discarded s)\<rparr>)"

definition close_reader :: "response \<Rightarrow> 'z serving \<Rightarrow> 'z serving" where
  "close_reader resp s = (case (rs_type resp, rs_reader resp) of (RespPipe, Some p) \<Rightarrow> s\<lparr>sv_closed := sv_closed s @ [p]\<rparr> | _ \<Rightarrow> s)"

definition persists :: "response \<Rightarrow> request \<Rightarrow> bool" where
  "persists resp req = (rq_keepAlive req \<and> headers_get ''Connection'' (rs_headers resp) \<noteq> Some ''close'')"

text \<open>The response is sent, or could not be.\<close>

definition reply_sent :: "nat \<Rightarrow> response \<Rightarrow> 'z serving \<Rightarrow> 'z serving" where
  "reply_sent i resp s0 = (let s = (close_reader resp s0)\<lparr>sv_deleted := sv_deleted s0 @ [i]\<rparr> in
     if persists resp (sv_requests s ! i) then s\<lparr>sv_sending := AwaitItem\<rparr> else end_sending EndReady s)"

definition reply_failed :: "nat \<Rightarrow> response \<Rightarrow> loop_end \<Rightarrow> 'z serving \<Rightarrow> 'z serving" where
  "reply_failed i resp e s = end_sending e ((close_reader resp s)\<lparr>sv_deleted := sv_deleted s @ [i]\<rparr>)"

definition written :: "nat \<Rightarrow> response \<Rightarrow> string \<Rightarrow> outgoing list \<Rightarrow> 'z serving \<Rightarrow> 'z serving" where
  "written i resp t ws s = (let s1 = s\<lparr>sv_wire := sv_wire s @ t\<rparr> in
     if ws = [] then reply_sent i resp s1 else s1\<lparr>sv_sending := Writing i resp ws\<rparr>)"

definition write_next :: "serve_env \<Rightarrow> 'z serving \<Rightarrow> 'z serving" where
  "write_next E s = (case sv_sending s of
     Writing i resp (WriteData t # ws) \<Rightarrow> written i resp t ws s
   | Writing i resp (WriteFile fd len # ws) \<Rightarrow> written i resp (take len (se_content E fd)) ws s
   | _ \<Rightarrow> s)"

text \<open>The body of the loop of \<^verbatim>\<open>stream\<close> for what was read from the pipe.\<close>

definition stream_next :: "string \<Rightarrow> 'z serving \<Rightarrow> 'z serving" where
  "stream_next d s = (case sv_sending s of
     Writing i resp (WriteStream p # ws) \<Rightarrow>
       if d = [] then written i resp last_chunk ws s
       else s\<lparr>sv_wire := sv_wire s @ chunk d, sv_chunks := (sv_chunks s)(i := sv_chunks s i @ [d])\<rparr>
   | _ \<Rightarrow> s)"

section \<open>serve\<close>

text \<open>The loop that empties the pipeline, up to the end marker; the boolean says that it found it.\<close>

fun drain :: "nat option list \<Rightarrow> nat list \<times> bool" where
  "drain [] = ([], False)"
| "drain (None # items) = ([], True)"
| "drain (Some i # items) = (case drain items of (is, b) \<Rightarrow> (i # is, b))"

fun serve_outcome :: "loop_end \<Rightarrow> loop_end \<Rightarrow> serve_result option" where
  "serve_outcome EndReady EndReady = Some ServeReady"
| "serve_outcome (EndFailed r) (EndFailed s) = Some (ServeFailed (''Failed to receive ('' @ r @ '') and send ('' @ s @ '')''))"
| "serve_outcome (EndFailed r) _ = Some (ServeFailed (''Failed to receive: '' @ r))"
| "serve_outcome _ (EndFailed s) = Some (ServeFailed (''Failed to send: '' @ s))"
| "serve_outcome r s = (if r = EndDiscarded \<or> s = EndDiscarded then Some ServeDiscarded else None)"

text \<open>What happens when both loops have ended. None: the \<^verbatim>\<open>CHECK\<close> fails.\<close>

definition serve_finish :: "loop_end \<Rightarrow> loop_end \<Rightarrow> 'z serving \<Rightarrow> 'z serving option" where
  "serve_finish r e s = (let is = fst (drain (sv_pipeline s));
       s1 = (if sv_pipeline s = [] then s
             else s\<lparr>sv_deleted := sv_deleted s @ is, sv_discarded := (if sv_discard s then sv_discarded s @ is else sv_discarded s),
                    sv_pipeline := dropWhile (\<lambda>x. x \<noteq> None) (sv_pipeline s)\<rparr>)
     in map_option (\<lambda>x. s1\<lparr>sv_result := Some x\<rparr>) (serve_outcome r e))"

datatype serve_event =
    ReceiveData "parser_call list \<times> parse_end"
  | ReceiveEnds loop_end
  | HandlerCompletes nat handler_future
  | SendLoop
  | StreamRead string
  | SendFails loop_end
  | DiscardServe
  | ServeFinishes

fun serve_step :: "'z libs \<Rightarrow> serve_env \<Rightarrow> serve_event \<Rightarrow> 'z serving \<Rightarrow> 'z serving option" where
  "serve_step L E (ReceiveData inp) s = (if sv_receiving s = None then receive_data L inp s else Some s)"
| "serve_step L E (ReceiveEnds e) s = Some (if sv_receiving s = None then end_receiving e s else s)"
| "serve_step L E (HandlerCompletes i v) s = Some (if sv_futures s i = HPending then s\<lparr>sv_futures := (sv_futures s)(i := v)\<rparr> else s)"
| "serve_step L E SendLoop s = Some (case sv_sending s of
     AwaitItem \<Rightarrow> take_item s
   | AwaitResponse i \<Rightarrow> await_response E i s
   | Writing _ _ _ \<Rightarrow> write_next E s
   | SendEnded _ \<Rightarrow> s)"
| "serve_step L E (StreamRead d) s = Some (stream_next d s)"
| "serve_step L E (SendFails e) s = Some (case sv_sending s of
     Writing i resp ws \<Rightarrow> if e = EndReady then s else reply_failed i resp e s
   | _ \<Rightarrow> s)"
| "serve_step L E DiscardServe s = Some (if sv_result s = None then s\<lparr>sv_discard := True\<rparr> else s)"
| "serve_step L E ServeFinishes s = (case (sv_receiving s, sv_sending s, sv_result s) of
     (Some r, SendEnded e, None) \<Rightarrow> serve_finish r e s
   | _ \<Rightarrow> Some s)"

fun serve_run :: "'z libs \<Rightarrow> serve_env \<Rightarrow> serve_event list \<Rightarrow> 'z serving \<Rightarrow> 'z serving option" where
  "serve_run L E [] s = Some s"
| "serve_run L E (e # es) s = (case serve_step L E e s of None \<Rightarrow> None | Some s' \<Rightarrow> serve_run L E es s')"

section \<open>Invariant\<close>

fun write_text :: "serve_env \<Rightarrow> string list \<Rightarrow> outgoing \<Rightarrow> string" where
  "write_text E ds (WriteData t) = t"
| "write_text E ds (WriteFile fd len) = take len (se_content E fd)"
| "write_text E ds (WriteStream p) = concat (map chunk ds) @ last_chunk"

text \<open>All that is to be written for a response, if these are the chunks of its pipe.\<close>

definition reply_text :: "serve_env \<Rightarrow> response \<Rightarrow> request \<Rightarrow> string list \<Rightarrow> string" where
  "reply_text E resp req ds = concat (map (write_text E ds) (reply_writes E resp req))"

definition full :: "serve_env \<Rightarrow> 'z serving \<Rightarrow> nat \<Rightarrow> string" where
  "full E s i = reply_text E (sv_replies s ! i) (sv_requests s ! i) (sv_chunks s i)"

text \<open>What was written of the current response, when these writes are left.\<close>

definition partial :: "serve_env \<Rightarrow> 'z serving \<Rightarrow> nat \<Rightarrow> outgoing list \<Rightarrow> string \<Rightarrow> bool" where
  "partial E s i ws t = (\<exists>pre. ws \<noteq> [] \<and> reply_writes E (sv_replies s ! i) (sv_requests s ! i) = pre @ ws
     \<and> t = concat (map (write_text E (sv_chunks s i)) pre) @ (case ws of WriteStream p # _ \<Rightarrow> concat (map chunk (sv_chunks s i)) | _ \<Rightarrow> [])
     \<and> ((\<forall>p. WriteStream p \<notin> set pre) \<and> ((\<forall>p. hd ws \<noteq> WriteStream p) \<longrightarrow> sv_chunks s i = [])))"

definition pipe_from :: "nat \<Rightarrow> 'z serving \<Rightarrow> bool" where
  "pipe_from t s = (t \<le> length (sv_requests s) \<and> sv_pipeline s = map Some [t..<length (sv_requests s)] @ (if sv_receiving s = None then [] else [None]))"

definition sent_before :: "serve_env \<Rightarrow> 'z serving \<Rightarrow> nat \<Rightarrow> string" where
  "sent_before E s k = concat (map (full E s) [0..<k])"

fun sending_ok :: "serve_env \<Rightarrow> nat \<Rightarrow> 'z serving \<Rightarrow> sending \<Rightarrow> bool" where
  "sending_ok E k s AwaitItem = (sv_deleted s = [0..<k] \<and> pipe_from k s \<and> sv_wire s = sent_before E s k)"
| "sending_ok E k s (AwaitResponse i) = (i = k \<and> sv_deleted s = [0..<k] \<and> pipe_from (Suc k) s \<and> sv_wire s = sent_before E s k)"
| "sending_ok E k s (Writing i resp ws) = (k = Suc i \<and> resp = sv_replies s ! i \<and> sv_deleted s = [0..<i] \<and> pipe_from k s
     \<and> (\<exists>t. sv_wire s = sent_before E s i @ t \<and> partial E s i ws t))"
| "sending_ok E k s (SendEnded e) = (sv_read_shut s \<and> sv_write_shut s
     \<and> (if sv_result s = None then sv_deleted s = [0..<k] \<and> (pipe_from k s \<or> (sv_pipeline s = [] \<and> k = length (sv_requests s) \<and> sv_receiving s \<noteq> None))
        else sv_deleted s = [0..<length (sv_requests s)] \<and> sv_receiving s \<noteq> None)
     \<and> (sv_wire s = sent_before E s k \<or> (\<exists>j t u. k = Suc j \<and> sv_wire s = sent_before E s j @ t \<and> full E s j = t @ u)))"

definition serve_inv :: "serve_env \<Rightarrow> 'z serving \<Rightarrow> bool" where
  "serve_inv E s = (sending_ok E (length (sv_replies s)) s (sv_sending s) \<and> length (sv_replies s) \<le> length (sv_requests s)
     \<and> (\<forall>i \<ge> length (sv_replies s). sv_chunks s i = []) \<and> ((\<forall>e. sv_sending s \<noteq> SendEnded e) \<longrightarrow> sv_result s = None)
     \<and> (\<forall>i < length (sv_replies s). (sv_futures s i \<noteq> HPending \<and> sv_replies s ! i = response_of (sv_futures s i)) \<or> (sv_discard s \<and> sv_replies s ! i = response_of HPending)))"

lemma reply_writes_shape: "reply_writes E resp req \<noteq> []" "reply_writes E resp req = pre @ WriteStream p # ws \<Longrightarrow> ws = []"
  by (auto simp: reply_writes_def sendfile_def stream_pipe_def send_response_def Let_def Cons_eq_append_conv split: response_type.splits opened.splits option.splits)

lemma sent_before_Suc: "sent_before E s (Suc k) = sent_before E s k @ full E s k"
  by (simp add: sent_before_def)

text \<open>More requests, more replies and chunks of later requests do not change what was sent.\<close>

lemma sent_before_cong:
  assumes "k \<le> length (sv_replies s)" and "length (sv_replies s) \<le> length (sv_requests s)"
    and "sv_replies s' = sv_replies s @ rs" "sv_requests s' = sv_requests s @ qs" "\<And>i. i < k \<Longrightarrow> sv_chunks s' i = sv_chunks s i"
  shows "sent_before E s' k = sent_before E s k"
  unfolding sent_before_def using assms by (intro arg_cong [where f = concat] map_cong) (auto simp: full_def nth_append)

lemma partial_prefix: "partial E s i ws t \<Longrightarrow> \<exists>u. full E s i = t @ u"
  by (auto simp: partial_def full_def reply_text_def split: list.splits outgoing.splits)

lemma partial_step:
  assumes "partial E s i (w # ws) t" and "sv_replies s' = sv_replies s" "sv_requests s' = sv_requests s" "sv_chunks s' = sv_chunks s" and "\<And>p. w \<noteq> WriteStream p"
  shows "if ws = [] then full E s i = t @ write_text E [] w else partial E s' i ws (t @ write_text E [] w)"
proof -
  obtain pre where pre: "reply_writes E (sv_replies s ! i) (sv_requests s ! i) = pre @ w # ws" "t = concat (map (write_text E (sv_chunks s i)) pre)"
      "\<forall>p. WriteStream p \<notin> set pre" "sv_chunks s i = []"
    using assms(1,5) by (cases w) (auto simp: partial_def)
  have "write_text E ds w = write_text E [] w" for ds using assms(5) by (cases w) auto
  then show ?thesis
    using pre assms(2-5) by (auto simp: full_def reply_text_def partial_def intro!: exI [of _ "pre @ [w]"] split: list.splits outgoing.splits)
qed

lemma partial_end:
  assumes "partial E s i (WriteStream p # ws) t"
  shows "ws = [] \<and> full E s i = t @ last_chunk"
  using assms reply_writes_shape(2) by (fastforce simp: partial_def full_def reply_text_def)

lemma close_reader_frame:
  "close_reader resp s = s\<lparr>sv_closed := sv_closed (close_reader resp s)\<rparr>"
  by (auto simp: close_reader_def split: response_type.splits option.splits)

lemma partial_cong:
  assumes "sv_replies s' ! i = sv_replies s ! i" and "sv_requests s' ! i = sv_requests s ! i" and "sv_chunks s' i = sv_chunks s i"
  shows "partial E s' i = partial E s i"
  by (intro ext) (unfold partial_def assms, rule refl)

lemma full_same:
  assumes "sv_replies s' = sv_replies s" and "sv_requests s' = sv_requests s" and "sv_chunks s' = sv_chunks s"
  shows "full E s' = full E s \<and> sent_before E s' = sent_before E s \<and> partial E s' = partial E s"
proof -
  have "full E s' = full E s" using assms by (simp add: full_def fun_eq_iff)
  moreover have "partial E s' = partial E s" using assms by (intro ext) (metis partial_cong)
  ultimately show ?thesis by (intro conjI ext) (simp_all add: sent_before_def)
qed

lemma reply_sent_inv:
  assumes inv: "serve_inv E s" and w: "sv_sending s = Writing i resp ws" and t: "sv_wire s @ t = sent_before E s (Suc i)"
  shows "serve_inv E (reply_sent i resp (s\<lparr>sv_wire := sv_wire s @ t\<rparr>))"
proof -
  obtain c where c: "close_reader resp (s\<lparr>sv_wire := sv_wire s @ t\<rparr>) = s\<lparr>sv_wire := sv_wire s @ t, sv_closed := c\<rparr>"
    using close_reader_frame [of resp "s\<lparr>sv_wire := sv_wire s @ t\<rparr>"] by metis
  have k: "length (sv_replies s) = Suc i" "sv_deleted s = [0..<i]" "pipe_from (Suc i) s" using inv w by (auto simp: serve_inv_def)
  let ?s = "s\<lparr>sv_wire := sv_wire s @ t, sv_closed := c, sv_deleted := sv_deleted s @ [i]\<rparr>"
  have "sent_before E (?s\<lparr>sv_sending := x\<rparr>) = sent_before E s" "sent_before E (end_sending e ?s) = sent_before E s" for x e
    using full_same [of "?s\<lparr>sv_sending := x\<rparr>" s E] full_same [of "end_sending e ?s" s E] by (simp_all add: end_sending_def)
  then show ?thesis
    using inv w k t c by (auto simp: serve_inv_def reply_sent_def Let_def pipe_from_def end_sending_def)
qed

lemma write_next_inv:
  assumes inv: "serve_inv E s" and w: "sv_sending s = Writing i resp ws"
  shows "serve_inv E (write_next E s)"
proof -
  obtain t where t: "sv_wire s = sent_before E s i @ t" "partial E s i ws t" using inv w by (auto simp: serve_inv_def)
  have k: "length (sv_replies s) = Suc i" "resp = sv_replies s ! i" "sv_deleted s = [0..<i]" "pipe_from (Suc i) s" "sv_result s = None" using inv w by (auto simp: serve_inv_def)
  then obtain x xs where ws: "ws = x # xs" using t(2) by (cases ws) (auto simp: partial_def)
  show ?thesis
  proof (cases "\<exists>p. x = WriteStream p")
    case True
    then show ?thesis using inv w ws by (auto simp: write_next_def)
  next
    case False
    let ?t = "write_text E [] x"
    have next_eq: "write_next E s = written i resp ?t xs s" using w ws False by (cases x) (auto simp: write_next_def)
    note step = partial_step [OF t(2) [unfolded ws], of "s\<lparr>sv_wire := sv_wire s @ ?t, sv_sending := Writing i resp xs\<rparr>"]
    show ?thesis
    proof (cases "xs = []")
      case True
      then have "sv_wire s @ ?t = sent_before E s (Suc i)" using step False t(1) by (simp add: sent_before_Suc)
      then show ?thesis using reply_sent_inv [OF inv w, of ?t] True next_eq by (simp add: written_def)
    next
      case xs: False
      let ?s = "s\<lparr>sv_wire := sv_wire s @ ?t, sv_sending := Writing i resp xs\<rparr>"
      have "partial E ?s i xs (t @ ?t)" using step False xs by simp
      moreover have "sent_before E ?s = sent_before E s" using full_same [of ?s s E] by simp
      ultimately have "serve_inv E ?s" using inv k t(1) by (auto simp: serve_inv_def pipe_from_def)
      then show ?thesis using next_eq xs by (simp add: written_def)
    qed
  qed
qed

lemma stream_next_inv:
  assumes inv: "serve_inv E s"
  shows "serve_inv E (stream_next d s)"
proof (cases "\<exists>i resp p ws. sv_sending s = Writing i resp (WriteStream p # ws)")
  case True
  then obtain i resp p ws where w: "sv_sending s = Writing i resp (WriteStream p # ws)" by blast
  obtain t where t: "sv_wire s = sent_before E s i @ t" "partial E s i (WriteStream p # ws) t" using inv w by (auto simp: serve_inv_def)
  have k: "length (sv_replies s) = Suc i" "length (sv_replies s) \<le> length (sv_requests s)" using inv w by (auto simp: serve_inv_def)
  show ?thesis
  proof (cases "d = []")
    case True
    have "sv_wire s @ last_chunk = sent_before E s (Suc i)" "ws = []" using partial_end [OF t(2)] t(1) by (simp_all add: sent_before_Suc)
    then show ?thesis using reply_sent_inv [OF inv w, of last_chunk] w True by (simp add: stream_next_def written_def)
  next
    case False
    let ?s = "s\<lparr>sv_wire := sv_wire s @ chunk d, sv_chunks := (sv_chunks s)(i := sv_chunks s i @ [d])\<rparr>"
    obtain pre where pre: "reply_writes E (sv_replies s ! i) (sv_requests s ! i) = pre @ WriteStream p # ws"
        "t = concat (map (write_text E (sv_chunks s i)) pre) @ concat (map chunk (sv_chunks s i))" "\<forall>p. WriteStream p \<notin> set pre"
      using t(2) by (auto simp: partial_def)
    have "write_text E (sv_chunks s i @ [d]) x = write_text E (sv_chunks s i) x" if "x \<in> set pre" for x using pre(3) that by (cases x) auto
    then have eq: "concat (map (write_text E (sv_chunks s i @ [d])) pre) = concat (map (write_text E (sv_chunks s i)) pre)" by (metis (mono_tags, lifting) map_eq_conv)
    have "partial E ?s i (WriteStream p # ws) (t @ chunk d)" unfolding partial_def using pre eq by (intro exI [of _ pre]) (simp del: map_eq_conv)
    moreover have "sent_before E ?s i = sent_before E s i" using k by (intro sent_before_cong [where rs = "[]" and qs = "[]"]) auto
    ultimately have "serve_inv E ?s" using inv w t(1) by (auto simp: serve_inv_def pipe_from_def)
    then show ?thesis using w False by (simp add: stream_next_def)
  qed
next
  case False
  then have "stream_next d s = s" by (auto simp: stream_next_def split: sending.splits list.splits outgoing.splits)
  then show ?thesis using inv by simp
qed

lemma reply_failed_inv:
  assumes inv: "serve_inv E s" and w: "sv_sending s = Writing i resp ws"
  shows "serve_inv E (reply_failed i resp e s)"
proof -
  obtain c where c: "close_reader resp s = s\<lparr>sv_closed := c\<rparr>" using close_reader_frame [of resp s] by metis
  obtain t where t: "sv_wire s = sent_before E s i @ t" "partial E s i ws t" using inv w by (auto simp: serve_inv_def)
  have k: "length (sv_replies s) = Suc i" "sv_deleted s = [0..<i]" "pipe_from (Suc i) s" using inv w by (auto simp: serve_inv_def)
  have same: "sent_before E (reply_failed i resp e s) = sent_before E s" "full E (reply_failed i resp e s) = full E s"
    using full_same [of "reply_failed i resp e s" s E] c by (simp_all add: reply_failed_def end_sending_def)
  show ?thesis
    using inv w k c t(1) partial_prefix [OF t(2)] same by (auto simp: serve_inv_def reply_failed_def end_sending_def pipe_from_def)
qed

lemma take_item_inv:
  assumes inv: "serve_inv E s" and w: "sv_sending s = AwaitItem"
  shows "serve_inv E (take_item s)"
proof -
  let ?k = "length (sv_replies s)" and ?n = "length (sv_requests s)"
  have k: "sv_deleted s = [0..<?k]" "pipe_from ?k s" "sv_wire s = sent_before E s ?k" "sv_result s = None" "?k \<le> ?n" using inv w by (auto simp: serve_inv_def)
  have same: "sent_before E (s\<lparr>sv_pipeline := p, sv_sending := x\<rparr>) = sent_before E s" "sent_before E (end_sending e (s\<lparr>sv_pipeline := p\<rparr>)) = sent_before E s"
      "sent_before E (end_sending e s) = sent_before E s" for p x e
    using full_same [of "s\<lparr>sv_pipeline := p, sv_sending := x\<rparr>" s E] full_same [of "end_sending e (s\<lparr>sv_pipeline := p\<rparr>)" s E] full_same [of "end_sending e s" s E]
    by (simp_all add: end_sending_def)
  show ?thesis
  proof (cases "?k < ?n")
    case True
    then have "sv_pipeline s = Some ?k # map Some [Suc ?k..<?n] @ (if sv_receiving s = None then [] else [None])"
      using k(2) by (simp add: pipe_from_def upt_conv_Cons)
    then show ?thesis using inv k same True by (auto simp: serve_inv_def take_item_def pipe_from_def)
  next
    case False
    then have "?k = ?n" "sv_pipeline s = (if sv_receiving s = None then [] else [None])" using k(2,5) by (auto simp: pipe_from_def)
    then show ?thesis using inv k same w by (auto simp: serve_inv_def take_item_def pipe_from_def end_sending_def)
  qed
qed

lemma await_response_inv:
  assumes inv: "serve_inv E s" and w: "sv_sending s = AwaitResponse i"
  shows "serve_inv E (await_response E i s)"
proof (cases "sv_futures s i = HPending \<and> \<not> sv_discard s")
  case False
  let ?k = "length (sv_replies s)" and ?resp = "response_of (sv_futures s i)"
  define ws where "ws = reply_writes E ?resp (sv_requests s ! i)"
  define ds where "ds = (if sv_futures s i = HPending then sv_discarded s @ [i] else sv_discarded s)"
  let ?s = "s\<lparr>sv_sending := Writing i ?resp ws, sv_replies := sv_replies s @ [?resp], sv_discarded := ds\<rparr>"
  have k: "i = ?k" "sv_deleted s = [0..<?k]" "pipe_from (Suc ?k) s" "sv_wire s = sent_before E s ?k" "sv_result s = None" "?k \<le> length (sv_requests s)" "sv_chunks s i = []"
    using inv w by (auto simp: serve_inv_def)
  have "sent_before E ?s ?k = sent_before E s ?k" using k(6) by (intro sent_before_cong [where rs = "[?resp]" and qs = "[]"]) auto
  moreover have "ws \<noteq> []" "reply_writes E ?resp (sv_requests s ! i) = [] @ ws" using reply_writes_shape(1) by (simp_all add: ws_def)
  then have "partial E ?s i ws []" using k(1,7) by (auto simp: partial_def intro!: exI [of _ "[]"] split: list.splits outgoing.splits)
  ultimately have "serve_inv E ?s"
    using inv w k False unfolding serve_inv_def by (auto simp: pipe_from_def nth_append less_Suc_eq)
  then show ?thesis using False by (auto simp: await_response_def Let_def ws_def ds_def)
qed (use inv in \<open>simp add: await_response_def\<close>)

lemma receive_inv:
  assumes inv: "serve_inv E s" and r: "sv_receiving s = None"
  shows "serve_inv E (end_receiving e (s\<lparr>sv_decoder := d\<rparr>))"
    and "serve_inv E (s\<lparr>sv_decoder := d, sv_requests := sv_requests s @ rs, sv_pipeline := sv_pipeline s @ map Some [length (sv_requests s)..<length (sv_requests s) + length rs]\<rparr>)"
proof -
  let ?k = "length (sv_replies s)" and ?n = "length (sv_requests s)"
  let ?s = "end_receiving e (s\<lparr>sv_decoder := d\<rparr>)"
  let ?t = "s\<lparr>sv_decoder := d, sv_requests := sv_requests s @ rs, sv_pipeline := sv_pipeline s @ map Some [?n..<?n + length rs]\<rparr>"
  have kn: "?k \<le> ?n" using inv by (simp add: serve_inv_def)
  have pipe: "pipe_from t s \<Longrightarrow> pipe_from t ?s" "pipe_from t s \<Longrightarrow> pipe_from t ?t" for t
    using r upt_add_eq_append [of t ?n "length rs"] by (auto simp: pipe_from_def end_receiving_def)
  have same: "sent_before E ?s = sent_before E s" "full E ?s = full E s" "partial E ?s = partial E s"
    using full_same [of ?s s E] by (simp_all add: end_receiving_def)
  show "serve_inv E ?s"
    using inv r pipe(1) same by (cases "sv_sending s") (auto simp: serve_inv_def end_receiving_def split: if_splits)
  have before: "j \<le> ?k \<Longrightarrow> sent_before E ?t j = sent_before E s j" for j using kn by (intro sent_before_cong [where rs = "[]" and qs = rs]) auto
  have at: "j < ?k \<Longrightarrow> full E ?t j = full E s j" "j < ?k \<Longrightarrow> partial E ?t j = partial E s j" for j using kn by (auto simp: full_def nth_append intro!: partial_cong)
  show "serve_inv E ?t"
    using inv r pipe(2) before at by (cases "sv_sending s") (auto simp: serve_inv_def split: if_splits)
qed

lemma drain_items: "drain (map Some xs @ [None]) = (xs, True)"
  by (induction xs) auto

lemma serve_finish_inv:
  assumes inv: "serve_inv E s" and w: "sv_receiving s = Some r" "sv_sending s = SendEnded e" "sv_result s = None"
  shows "\<exists>s'. serve_finish r e s = Some s' \<and> serve_inv E s'"
proof -
  let ?k = "length (sv_replies s)" and ?n = "length (sv_requests s)"
  obtain x where x: "serve_outcome r e = Some x" by (cases r; cases e) auto
  then obtain s' where s': "serve_finish r e s = Some s'" by (auto simp: serve_finish_def Let_def)
  have k: "sv_deleted s = [0..<?k]" "?k \<le> ?n" "pipe_from ?k s \<or> (sv_pipeline s = [] \<and> ?k = ?n)" using inv w by (auto simp: serve_inv_def)
  have del: "sv_deleted s' = [0..<?n]"
  proof (cases "sv_pipeline s = []")
    case True
    then show ?thesis using k w s' x by (auto simp: serve_finish_def Let_def pipe_from_def)
  next
    case False
    then have "sv_pipeline s = map Some [?k..<?n] @ [None]" using k(3) w(1) by (auto simp: pipe_from_def)
    then show ?thesis using k(1,2) s' x upt_add_eq_append [of 0 ?k "?n - ?k"] by (auto simp: serve_finish_def Let_def drain_items)
  qed
  have frame: "sv_replies s' = sv_replies s" "sv_requests s' = sv_requests s" "sv_chunks s' = sv_chunks s" "sv_wire s' = sv_wire s" "sv_sending s' = sv_sending s"
      "sv_receiving s' = sv_receiving s" "sv_futures s' = sv_futures s" "sv_discard s' = sv_discard s" "sv_read_shut s' = sv_read_shut s" "sv_write_shut s' = sv_write_shut s" "sv_result s' = Some x"
    using s' x by (cases "sv_pipeline s = []"; auto simp: serve_finish_def Let_def)+
  have "sent_before E s' = sent_before E s" "full E s' = full E s" using full_same [of s' s E] frame by simp_all
  then have "serve_inv E s'" using inv w del frame by (auto simp: serve_inv_def)
  then show ?thesis using s' by simp
qed

lemma serve_step_inv:
  assumes inv: "serve_inv E s" and step: "serve_step L E e s = Some s'"
  shows "serve_inv E s'"
proof (cases e)
  case (ReceiveData inp)
  then show ?thesis
    using step inv receive_inv [OF inv] by (auto simp: receive_data_def Let_def split: if_splits option.splits)
next
  case (ReceiveEnds x)
  then show ?thesis using step inv receive_inv(1) [OF inv, of x "sv_decoder s"] by (auto split: if_splits)
next
  case (HandlerCompletes i v)
  let ?s = "s\<lparr>sv_futures := (sv_futures s)(i := v)\<rparr>"
  have same: "sent_before E ?s = sent_before E s" "full E ?s = full E s" "partial E ?s = partial E s" "pipe_from t ?s = pipe_from t s" for t
    using full_same [of ?s s E] by (simp_all add: pipe_from_def)
  have "serve_inv E ?s" if "sv_futures s i = HPending"
    using inv that same by (cases "sv_sending s") (auto simp: serve_inv_def)
  then show ?thesis using step HandlerCompletes inv by (auto split: if_splits)
next
  case SendLoop
  then show ?thesis
    using step inv take_item_inv [OF inv] await_response_inv [OF inv] write_next_inv [OF inv] by (auto split: sending.splits)
next
  case (StreamRead d)
  then show ?thesis using step stream_next_inv [OF inv, of d] by simp
next
  case (SendFails x)
  then show ?thesis using step inv reply_failed_inv [OF inv] by (auto split: sending.splits if_splits)
next
  case DiscardServe
  let ?s = "s\<lparr>sv_discard := True\<rparr>"
  have same: "sent_before E ?s = sent_before E s" "full E ?s = full E s" "partial E ?s = partial E s" "pipe_from t ?s = pipe_from t s" for t
    using full_same [of ?s s E] by (simp_all add: pipe_from_def)
  have "serve_inv E ?s" using inv same by (cases "sv_sending s") (auto simp: serve_inv_def)
  then show ?thesis using step DiscardServe inv by (auto split: if_splits)
next
  case ServeFinishes
  then show ?thesis using step inv serve_finish_inv [OF inv] by (fastforce split: option.splits sending.splits)
qed

lemma serve_run_inv: "serve_inv E s \<Longrightarrow> serve_run L E es s = Some s' \<Longrightarrow> serve_inv E s'"
  by (induction es arbitrary: s) (auto split: option.splits dest: serve_step_inv)

text \<open>C27.
  A served connection answers in order. Whatever arrives, however handlers complete, writes succeed or fail and the connection is discarded: what has been sent is the complete
  responses to the first requests, one after the other, followed by the beginning of the next one at most; each is the response of the handler of that request, or the
  error response that stands for a failed, discarded or abandoned one; and when \<^verbatim>\<open>serve\<close> completes, both ends of the socket are shut down and every request received has been
  deleted, exactly once.
\<close>

theorem serve_answers_in_order:
  assumes "serve_run L E es serve_init = Some s"
  shows "(\<exists>j t u. j \<le> length (sv_replies s) \<and> sv_wire s = concat (map (full E s) [0..<j]) @ t \<and> (t = [] \<or> (Suc j = length (sv_replies s) \<and> full E s j = t @ u)))
    \<and> (\<forall>i < length (sv_replies s). (sv_futures s i \<noteq> HPending \<and> sv_replies s ! i = response_of (sv_futures s i))
          \<or> (sv_discard s \<and> sv_replies s ! i = ServiceUnavailable ''503 Service Unavailable.''))
    \<and> length (sv_replies s) \<le> length (sv_requests s)
    \<and> (sv_result s \<noteq> None \<longrightarrow> sv_deleted s = [0..<length (sv_requests s)] \<and> sv_read_shut s \<and> sv_write_shut s)"
proof -
  have "serve_inv E serve_init" by (simp add: serve_inv_def serve_init_def pipe_from_def sent_before_def)
  then have inv: "serve_inv E s" using serve_run_inv assms by blast
  have "\<exists>j t u. j \<le> length (sv_replies s) \<and> sv_wire s = sent_before E s j @ t \<and> (t = [] \<or> (Suc j = length (sv_replies s) \<and> full E s j = t @ u))"
  proof (cases "sv_sending s")
    case (Writing i resp ws)
    then obtain t where t: "sv_wire s = sent_before E s i @ t" "partial E s i ws t" "length (sv_replies s) = Suc i" using inv by (auto simp: serve_inv_def)
    then obtain u where "full E s i = t @ u" using partial_prefix by blast
    then show ?thesis using t by (intro exI [of _ i] exI [of _ t] exI [of _ u]) simp
  next
    case (SendEnded e)
    then consider "sv_wire s = sent_before E s (length (sv_replies s))" | j t u where "length (sv_replies s) = Suc j" "sv_wire s = sent_before E s j @ t" "full E s j = t @ u"
      using inv by (auto simp: serve_inv_def)
    then show ?thesis
    proof cases
      case 1
      then show ?thesis by (intro exI [of _ "length (sv_replies s)"] exI [of _ "[]"]) simp
    next
      case (2 j t u)
      then show ?thesis by (intro exI [of _ j] exI [of _ t] exI [of _ u]) simp
    qed
  qed (use inv in \<open>auto simp: serve_inv_def intro!: exI [of _ "length (sv_replies s)"]\<close>)
  moreover have "sv_result s \<noteq> None \<longrightarrow> sv_deleted s = [0..<length (sv_requests s)] \<and> sv_read_shut s \<and> sv_write_shut s"
    using inv by (cases "sv_sending s") (auto simp: serve_inv_def split: if_splits)
  ultimately show ?thesis using inv by (auto simp: serve_inv_def sent_before_def response_of_def)
qed

definition ref_env :: serve_env where
  "ref_env = \<lparr>se_enc = ref_enc_libs, se_date = ''now'', se_open = (\<lambda>_. IsDirectory), se_content = (\<lambda>_. [])\<rparr>"

text \<open>One request, whose handler fails; then the client closes the connection.\<close>

definition served_input :: "parser_call list \<times> parse_end" where
  "served_input = (calls_of sample_message, AllParsed)"

definition served_events :: "serve_event list" where
  "served_events = [ReceiveData served_input, HandlerCompletes 0 (HFailed ''no''), SendLoop, SendLoop, SendLoop, ReceiveEnds EndReady, SendLoop, ServeFinishes]"

lemma served_decode:
  "map_option (\<lambda>(d, rs). map rq_keepAlive rs) (srequest_decode ref_libs served_input streaming_request_init) = Some [True]"
  by code_simp

lemma served_eval:
  "\<exists>s. serve_run ref_libs ref_env served_events serve_init = Some s \<and> length (sv_requests s) = 1 \<and> sv_result s = Some ServeReady"
proof -
  obtain d q where d: "srequest_decode ref_libs served_input streaming_request_init = Some (d, [q])" "rq_keepAlive q" using served_decode by (auto simp: map_eq_Cons_conv)
  define r where "r = InternalServerError ''no''"
  define t where "t = response_encode ref_enc_libs ''now'' r q"
  have r: "rs_type r = RespBody" "headers_get ''Connection'' (rs_headers r) = None"
    by (simp_all add: r_def InternalServerError_def Response_body_def new_response_def CaseInsensitiveEqual_def tolower_def)
  have w: "reply_writes ref_env r q = [WriteData t]" by (simp add: reply_writes_def r send_response_def ref_env_def t_def)
  have resp: "response_of (HFailed ''no'') = r" by (simp add: response_of_def r_def)
  note defs = receive_data_def d take_item_def await_response_def resp w write_next_def written_def reply_sent_def close_reader_def r persists_def end_receiving_def end_sending_def
  show ?thesis by (simp add: served_events_def serve_init_def serve_finish_def defs)
qed

theorem serve_answers_in_order_witness:
  "\<exists>s. serve_run ref_libs ref_env served_events serve_init = Some s \<and> sv_result s = Some ServeReady \<and> sv_deleted s = [0]
    \<and> (\<exists>j t. sv_wire s = concat (map (full ref_env s) [0..<j]) @ t)"
proof -
  obtain s where s: "serve_run ref_libs ref_env served_events serve_init = Some s" "length (sv_requests s) = 1" "sv_result s = Some ServeReady"
    using served_eval by auto
  note facts = serve_answers_in_order [OF s(1)]
  have "\<exists>j t. sv_wire s = concat (map (full ref_env s) [0..<j]) @ t" using facts by blast
  moreover have "sv_deleted s = [0..<1]" using facts s(2,3) by simp
  ultimately show ?thesis using s by simp
qed

end
