(* ===== verification/Http_Server.thy ===== *)
theory Http_Server
  imports Prelude
begin

text \<open>
  \<^verbatim>\<open>StateMachine\<close> (\<^verbatim>\<open>include/process/state_machine.hpp\<close>) and the server that uses it, \<^verbatim>\<open>ServerProcess\<close> of \<^verbatim>\<open>src/http.cpp\<close>. The process handles one call or deferred callback at a
  time; the accept loop and \<^verbatim>\<open>http::serve\<close> are given by when they complete. Sockets are numbered in the order in which they are accepted.
\<close>

section \<open>StateMachine\<close>

text \<open>A promise is a number; \<open>mc_set\<close> are the promises that have been set.\<close>

record 's machine =
  mc_state :: 's
  mc_promises :: "'s \<Rightarrow> nat list"
  mc_fresh :: nat
  mc_set :: "nat list"

definition machine_new :: "'s \<Rightarrow> 's machine" where
  "machine_new initial = \<lparr>mc_state = initial, mc_promises = (\<lambda>_. []), mc_fresh = 0, mc_set = []\<rparr>"

definition transition :: "'s \<Rightarrow> 's \<Rightarrow> string option \<Rightarrow> 's machine \<Rightarrow> string + 's machine" where
  "transition from to message m =
    (if mc_state m \<noteq> from then Inl (case message of None \<Rightarrow> ''Invalid current state'' | Some t \<Rightarrow> t)
     else Inr (m\<lparr>mc_state := to, mc_set := mc_set m @ mc_promises m to, mc_promises := (mc_promises m)(to := [])\<rparr>))"

text \<open>None: the future is ready.\<close>

definition machine_when :: "'s \<Rightarrow> 's machine \<Rightarrow> 's machine \<times> nat option" where
  "machine_when s m =
    (if mc_state m \<noteq> s
     then (m\<lparr>mc_promises := (mc_promises m)(s := mc_promises m s @ [mc_fresh m]), mc_fresh := Suc (mc_fresh m)\<rparr>, Some (mc_fresh m))
     else (m, None))"

section \<open>ServerProcess\<close>

datatype server_state = INITIALIZED | RUNNING | STOPPING | STOPPED

datatype accept_end = AcceptReady | AcceptFailed string | AcceptDiscarded | AcceptAbandoned

datatype accept_loop = NotAccepting | Accepting | Accepted accept_end

text \<open>What the future that \<^verbatim>\<open>run\<close> returned waits for: the accept loop, \<^verbatim>\<open>when\<close>, or the call of \<^verbatim>\<open>stop\<close> that \<^verbatim>\<open>run\<close> made, after which it fails.\<close>

datatype run_phase = RunNot | RunAccepting | RunWhen "nat option" | RunStop string

datatype stop_phase = StopNot | StopAwait "nat list" | StopAccepting | StopDone

record server =
  hs_machine :: "server_state machine"
  hs_accepting :: accept_loop
  hs_accept_discard :: bool
  hs_shutdown :: bool
  hs_sockets :: nat
  hs_clients :: "nat list"
  hs_served :: "nat list"
  hs_discarded :: "nat list"
  hs_erase :: "nat list"
  hs_run :: run_phase
  hs_stop :: stop_phase
  hs_graced :: bool
  hs_errors :: "string list"

definition server_new :: server where
  "server_new = \<lparr>hs_machine = machine_new INITIALIZED, hs_accepting = NotAccepting, hs_accept_discard = False, hs_shutdown = False, hs_sockets = 0,
     hs_clients = [], hs_served = [], hs_discarded = [], hs_erase = [], hs_run = RunNot, hs_stop = StopNot, hs_graced = False, hs_errors = []\<rparr>"

definition server_run :: "server \<Rightarrow> server" where
  "server_run s = (case transition INITIALIZED RUNNING None (hs_machine s) of
     Inl e \<Rightarrow> s\<lparr>hs_errors := hs_errors s @ [e]\<rparr>
   | Inr m \<Rightarrow> s\<lparr>hs_machine := m, hs_accepting := Accepting, hs_run := RunAccepting\<rparr>)"

text \<open>The body of the accept loop, for the next socket.\<close>

definition server_accept :: "server \<Rightarrow> server" where
  "server_accept s =
    (if mc_state (hs_machine s) = STOPPING then s\<lparr>hs_accepting := Accepted AcceptReady\<rparr>
     else s\<lparr>hs_clients := hs_clients s @ [hs_sockets s], hs_sockets := Suc (hs_sockets s)\<rparr>)"

definition server_stop :: "server \<Rightarrow> server" where
  "server_stop s = (case transition RUNNING STOPPING (Some ''Server must be started in order to be stopped'') (hs_machine s) of
     Inl e \<Rightarrow> s\<lparr>hs_errors := hs_errors s @ [e]\<rparr>
   | Inr m \<Rightarrow> s\<lparr>hs_machine := m, hs_accept_discard := True, hs_shutdown := True, hs_stop := StopAwait (hs_clients s)\<rparr>)"

text \<open>The grace period is over.\<close>

definition server_after :: "server \<Rightarrow> server" where
  "server_after s = s\<lparr>hs_discarded := hs_discarded s @ hs_clients s, hs_stop := StopAwait (hs_clients s), hs_graced := True\<rparr>"

definition server_awaited :: "server \<Rightarrow> server" where
  "server_awaited s = s\<lparr>hs_clients := [], hs_stop := StopAccepting\<rparr>"

definition server_stopped :: "server \<Rightarrow> server" where
  "server_stopped s = (case transition STOPPING STOPPED None (hs_machine s) of
     Inl e \<Rightarrow> s\<lparr>hs_errors := hs_errors s @ [e]\<rparr>
   | Inr m \<Rightarrow> s\<lparr>hs_machine := m, hs_stop := StopDone\<rparr>)"

text \<open>How a future prints.\<close>

definition accept_print :: "bool \<Rightarrow> accept_end \<Rightarrow> string" where
  "accept_print discard e = (let suffix = (if discard then '' (with discard)'' else []) in case e of
     AcceptReady \<Rightarrow> ''Ready'' @ suffix
   | AcceptFailed m \<Rightarrow> ''Failed'' @ suffix @ '': '' @ m
   | AcceptDiscarded \<Rightarrow> ''Discarded'' @ suffix
   | AcceptAbandoned \<Rightarrow> ''Abandoned'' @ suffix)"

definition server_wait_stopped :: "server \<Rightarrow> server" where
  "server_wait_stopped s = (case machine_when STOPPED (hs_machine s) of (m, w) \<Rightarrow> s\<lparr>hs_machine := m, hs_run := RunWhen w\<rparr>)"

text \<open>The callbacks of \<^verbatim>\<open>run\<close> on the accept loop.\<close>

definition server_accepting_done :: "accept_end \<Rightarrow> server \<Rightarrow> server" where
  "server_accepting_done e s =
    (if e = AcceptReady then server_wait_stopped s
     else if mc_state (hs_machine s) = RUNNING then (server_stop s)\<lparr>hs_run := RunStop (accept_print (hs_accept_discard s) e)\<rparr>
     else server_wait_stopped s)"

definition server_finalize :: "server \<Rightarrow> server" where
  "server_finalize s = s\<lparr>hs_accept_discard := True, hs_discarded := hs_discarded s @ hs_clients s, hs_clients := []\<rparr>"

section \<open>Runs\<close>

datatype server_event =
    CallRun | CallStop | Accept | AcceptEnds accept_end | RunContinues | DiscardRun
  | ServeEnds nat | EraseClient nat | GracePeriod | StopAwaited | StopAccepted

text \<open>\<^verbatim>\<open>await\<close> completes for a future that is ready, failed or discarded; for an abandoned one it is abandoned itself.\<close>

fun server_step :: "server_event \<Rightarrow> server \<Rightarrow> server" where
  "server_step CallRun s = server_run s"
| "server_step CallStop s = server_stop s"
| "server_step Accept s = (if hs_accepting s = Accepting then server_accept s else s)"
| "server_step (AcceptEnds e) s =
    (if hs_accepting s = Accepting \<and> e \<noteq> AcceptReady \<and> (e = AcceptDiscarded \<longrightarrow> hs_accept_discard s) then s\<lparr>hs_accepting := Accepted e\<rparr> else s)"
| "server_step RunContinues s = (case (hs_run s, hs_accepting s) of (RunAccepting, Accepted e) \<Rightarrow> server_accepting_done e s | _ \<Rightarrow> s)"
| "server_step DiscardRun s = (if hs_run s = RunAccepting then s\<lparr>hs_accept_discard := True\<rparr> else s)"
| "server_step (ServeEnds i) s = (if i < hs_sockets s \<and> i \<notin> set (hs_served s) then s\<lparr>hs_served := hs_served s @ [i], hs_erase := hs_erase s @ [i]\<rparr> else s)"
| "server_step (EraseClient i) s = (if i \<in> set (hs_erase s) then s\<lparr>hs_erase := remove1 i (hs_erase s), hs_clients := removeAll i (hs_clients s)\<rparr> else s)"
| "server_step GracePeriod s = (case hs_stop s of StopAwait _ \<Rightarrow> if hs_graced s then s else server_after s | _ \<Rightarrow> s)"
| "server_step StopAwaited s = (case hs_stop s of StopAwait cs \<Rightarrow> if set cs \<subseteq> set (hs_served s) then server_awaited s else s | _ \<Rightarrow> s)"
| "server_step StopAccepted s = (case (hs_stop s, hs_accepting s) of (StopAccepting, Accepted e) \<Rightarrow> if e = AcceptAbandoned then s else server_stopped s | _ \<Rightarrow> s)"

text \<open>The result of the future that \<^verbatim>\<open>run\<close> returned.\<close>

definition run_result :: "server \<Rightarrow> (string + unit) option" where
  "run_result s = (case hs_run s of
     RunWhen None \<Rightarrow> Some (Inr ())
   | RunWhen (Some i) \<Rightarrow> if i \<in> set (mc_set (hs_machine s)) then Some (Inr ()) else None
   | RunStop m \<Rightarrow> if hs_stop s = StopDone then Some (Inl m) else None
   | _ \<Rightarrow> None)"

section \<open>Invariant\<close>

definition server_inv :: "server \<Rightarrow> bool" where
  "server_inv s = (let m = hs_machine s in
     (case mc_state m of
        INITIALIZED \<Rightarrow> hs_accepting s = NotAccepting \<and> hs_run s = RunNot \<and> hs_stop s = StopNot \<and> hs_sockets s = 0
      | RUNNING \<Rightarrow> hs_accepting s \<noteq> NotAccepting \<and> hs_run s = RunAccepting \<and> hs_stop s = StopNot \<and> (\<forall>e. hs_accepting s = Accepted e \<longrightarrow> e \<noteq> AcceptReady)
      | STOPPING \<Rightarrow> hs_accepting s \<noteq> NotAccepting \<and> hs_run s \<noteq> RunNot \<and> hs_stop s \<noteq> StopNot \<and> hs_stop s \<noteq> StopDone \<and> hs_accept_discard s \<and> hs_shutdown s
      | STOPPED \<Rightarrow> (\<exists>e. hs_accepting s = Accepted e \<and> e \<noteq> AcceptAbandoned) \<and> hs_run s \<noteq> RunNot \<and> hs_stop s = StopDone)
     \<and> (hs_run s = RunAccepting \<or> hs_run s = RunNot \<or> (\<exists>e. hs_accepting s = Accepted e))
     \<and> (\<forall>i. i < hs_sockets s \<longrightarrow> i \<in> set (hs_clients s) \<or> i \<in> set (hs_served s))
     \<and> (\<forall>cs. hs_stop s = StopAwait cs \<longrightarrow> set (hs_clients s) \<subseteq> set cs \<union> set (hs_served s))
     \<and> set (hs_clients s) \<subseteq> {..<hs_sockets s} \<and> (\<forall>cs. hs_stop s = StopAwait cs \<longrightarrow> set cs \<subseteq> {..<hs_sockets s})
     \<and> set (hs_erase s) \<subseteq> set (hs_served s)
     \<and> (hs_graced s \<longrightarrow> hs_stop s \<noteq> StopNot \<and> (\<forall>cs. hs_stop s = StopAwait cs \<longrightarrow> set cs \<subseteq> set (hs_discarded s)))
     \<and> (hs_stop s = StopAccepting \<or> hs_stop s = StopDone \<longrightarrow> hs_clients s = [] \<and> {..<hs_sockets s} \<subseteq> set (hs_served s))
     \<and> (\<forall>i. hs_run s = RunWhen (Some i) \<longrightarrow> (mc_state m \<noteq> STOPPED \<and> i \<in> set (mc_promises m STOPPED)) \<or> (mc_state m = STOPPED \<and> i \<in> set (mc_set m)))
     \<and> (hs_run s = RunWhen None \<longrightarrow> mc_state m = STOPPED))"

lemmas server_defs = server_inv_def Let_def transition_def machine_when_def

lemma server_run_inv: "server_inv s \<Longrightarrow> server_inv (server_run s)"
  by (auto simp: server_defs server_run_def split: server_state.splits)

lemma server_stop_inv:
  assumes "server_inv s"
  shows "server_inv (server_stop s)" and "mc_state (hs_machine s) = RUNNING \<Longrightarrow> hs_accepting s = Accepted e \<Longrightarrow> server_inv ((server_stop s)\<lparr>hs_run := RunStop m\<rparr>)"
  using assms by (auto simp: server_defs server_stop_def split: server_state.splits)

lemma server_accept_inv: "server_inv s \<Longrightarrow> hs_accepting s = Accepting \<Longrightarrow> server_inv (server_accept s)"
  by (auto simp: server_defs server_accept_def less_Suc_eq split: server_state.splits)

lemma server_wait_inv: "server_inv s \<Longrightarrow> hs_run s = RunAccepting \<Longrightarrow> hs_accepting s = Accepted e \<Longrightarrow> mc_state (hs_machine s) \<noteq> RUNNING \<Longrightarrow> server_inv (server_wait_stopped s)"
  by (auto simp: server_defs server_wait_stopped_def split: server_state.splits)

lemma server_done_inv:
  assumes "server_inv s" and "hs_run s = RunAccepting" and "hs_accepting s = Accepted e"
  shows "server_inv (server_accepting_done e s)"
proof (cases "mc_state (hs_machine s) = RUNNING")
  case True
  then have "e \<noteq> AcceptReady" using assms by (auto simp: server_inv_def Let_def)
  then show ?thesis using True server_stop_inv(2) [OF assms(1) True assms(3)] by (simp add: server_accepting_done_def)
qed (use server_wait_inv [OF assms] in \<open>simp add: server_accepting_done_def\<close>)

lemma server_after_inv: "server_inv s \<Longrightarrow> hs_stop s = StopAwait cs \<Longrightarrow> server_inv (server_after s)"
  by (auto simp: server_defs server_after_def split: server_state.splits)

lemma server_awaited_inv: "server_inv s \<Longrightarrow> hs_stop s = StopAwait cs \<Longrightarrow> set cs \<subseteq> set (hs_served s) \<Longrightarrow> server_inv (server_awaited s)"
  by (auto simp: server_defs server_awaited_def split: server_state.splits)

lemma server_stopped_inv: "server_inv s \<Longrightarrow> hs_stop s = StopAccepting \<Longrightarrow> hs_accepting s = Accepted e \<Longrightarrow> e \<noteq> AcceptAbandoned \<Longrightarrow> server_inv (server_stopped s)"
  by (auto simp: server_defs server_stopped_def split: server_state.splits)

lemma server_serve_inv: "server_inv s \<Longrightarrow> server_inv (s\<lparr>hs_served := hs_served s @ [i], hs_erase := hs_erase s @ [i]\<rparr>)"
  by (auto simp: server_defs split: server_state.splits)

lemma server_erase_inv: "server_inv s \<Longrightarrow> i \<in> set (hs_erase s) \<Longrightarrow> server_inv (s\<lparr>hs_erase := remove1 i (hs_erase s), hs_clients := removeAll i (hs_clients s)\<rparr>)"
  using set_remove1_subset [of i "hs_erase s"] by (auto simp: server_defs split: server_state.splits)

lemma server_step_inv:
  assumes "server_inv s"
  shows "server_inv (server_step e s)"
proof (cases e)
  case (AcceptEnds x)
  have "server_inv (s\<lparr>hs_accepting := Accepted x\<rparr>)" if "hs_accepting s = Accepting" "x \<noteq> AcceptReady"
    using assms that by (auto simp: server_defs split: server_state.splits)
  then show ?thesis using assms AcceptEnds by simp
next
  case DiscardRun
  have "server_inv (s\<lparr>hs_accept_discard := True\<rparr>)" using assms by (auto simp: server_defs split: server_state.splits)
  then show ?thesis using assms DiscardRun by simp
next
  case RunContinues
  then show ?thesis using assms server_done_inv [OF assms] by (auto split: run_phase.splits accept_loop.splits)
next
  case StopAccepted
  then show ?thesis using assms server_stopped_inv [OF assms] by (auto split: stop_phase.splits accept_loop.splits)
next
  case GracePeriod
  then show ?thesis using assms server_after_inv [OF assms] by (auto split: stop_phase.splits)
next
  case StopAwaited
  then show ?thesis using assms server_awaited_inv [OF assms] by (auto split: stop_phase.splits)
qed (use assms server_run_inv server_stop_inv(1) server_accept_inv server_serve_inv server_erase_inv in auto)

lemma server_fold_inv: "server_inv s \<Longrightarrow> server_inv (fold server_step es s)"
  by (induction es arbitrary: s) (simp_all add: server_step_inv)

lemma server_new_inv: "server_inv server_new"
  by (simp add: server_inv_def server_new_def machine_new_def Let_def)

lemma stopping_progress:
  assumes "server_inv s" and "mc_state (hs_machine s) = STOPPING" and "hs_accepting s \<noteq> Accepted AcceptAbandoned"
  shows "(\<exists>i < hs_sockets s. i \<notin> set (hs_served s) \<and> (hs_graced s \<longrightarrow> i \<in> set (hs_discarded s))) \<or> (hs_accepting s = Accepting \<and> hs_accept_discard s)
    \<or> server_step StopAwaited s \<noteq> s \<or> server_step StopAccepted s \<noteq> s"
proof (cases "hs_stop s")
  case (StopAwait cs)
  show ?thesis
  proof (cases "set cs \<subseteq> set (hs_served s)")
    case True
    then have "hs_stop (server_step StopAwaited s) \<noteq> hs_stop s" using StopAwait by (simp add: server_awaited_def)
    then show ?thesis by metis
  next
    case False
    then obtain i where "i \<in> set cs" "i \<notin> set (hs_served s)" by blast
    then show ?thesis using assms(1) StopAwait unfolding server_inv_def Let_def by blast
  qed
next
  case StopAccepting
  then show ?thesis
  proof (cases "hs_accepting s")
    case (Accepted e)
    then have "hs_stop (server_step StopAccepted s) \<noteq> hs_stop s" using StopAccepting assms(2,3) by (simp add: server_stopped_def transition_def)
    then show ?thesis by metis
  qed (use assms in \<open>auto simp: server_inv_def Let_def\<close>)
qed (use assms in \<open>auto simp: server_inv_def Let_def\<close>)

lemma stopping_sockets:
  assumes "server_inv s" and "mc_state (hs_machine s) = STOPPING \<or> mc_state (hs_machine s) = STOPPED"
  shows "hs_sockets (server_step e s) = hs_sockets s"
proof (cases e)
  case Accept
  then show ?thesis using assms by (auto simp: server_accept_def server_inv_def Let_def)
qed (use assms(2) in \<open>auto simp: server_run_def server_stop_def server_accepting_done_def server_wait_stopped_def server_after_def server_awaited_def server_stopped_def
       transition_def machine_when_def split: run_phase.splits accept_loop.splits stop_phase.splits\<close>)

text \<open>C28.
  In every order of calls, connections, completions and deferred callbacks: when the server is stopped every connection it accepted has been served to its end and none is kept, the accept
  loop has completed, and the future of \<^verbatim>\<open>run\<close> is complete as soon as its callback has run; from the call of \<^verbatim>\<open>stop\<close> on no connection is accepted; and unless the accept loop was abandoned, stopping is never stuck:
  a connection is still being served, which has been discarded once the grace period is over, or the accept loop has not ended though it was discarded, or a callback is about to run.
  When the process ends instead, every connection that is still served is discarded.
\<close>

theorem server_stops_cleanly:
  assumes "s = fold server_step es server_new"
  shows "(mc_state (hs_machine s) = STOPPED \<longrightarrow> hs_clients s = [] \<and> {..<hs_sockets s} \<subseteq> set (hs_served s) \<and> (\<exists>e. hs_accepting s = Accepted e \<and> e \<noteq> AcceptAbandoned)
        \<and> (run_result s = None \<longrightarrow> hs_run s = RunAccepting \<and> run_result (server_step RunContinues s) = Some (Inr ())))
    \<and> (mc_state (hs_machine s) = STOPPING \<or> mc_state (hs_machine s) = STOPPED \<longrightarrow> (\<forall>e. hs_sockets (server_step e s) = hs_sockets s))
    \<and> (mc_state (hs_machine s) = STOPPING \<and> hs_accepting s \<noteq> Accepted AcceptAbandoned \<longrightarrow>
        (\<exists>i < hs_sockets s. i \<notin> set (hs_served s) \<and> (hs_graced s \<longrightarrow> i \<in> set (hs_discarded s))) \<or> (hs_accepting s = Accepting \<and> hs_accept_discard s)
        \<or> server_step StopAwaited s \<noteq> s \<or> server_step StopAccepted s \<noteq> s)
    \<and> (\<forall>i < hs_sockets s. i \<in> set (hs_served s) \<or> i \<in> set (hs_discarded (server_finalize s)))"
proof -
  have inv: "server_inv s" using assms server_fold_inv [OF server_new_inv] by simp
  have "hs_run s = RunAccepting \<and> run_result (server_step RunContinues s) = Some (Inr ())" if "mc_state (hs_machine s) = STOPPED" "run_result s = None"
  proof -
    have "hs_run s = RunAccepting"
      using inv that by (cases "hs_run s") (auto simp: server_inv_def run_result_def Let_def split: option.splits if_splits)
    then show ?thesis using inv that(1) by (auto simp: server_inv_def Let_def server_accepting_done_def server_wait_stopped_def machine_when_def run_result_def)
  qed
  then show ?thesis
    using inv stopping_progress [OF inv] stopping_sockets [OF inv] by (auto simp: server_inv_def Let_def server_finalize_def)
qed

definition stopped_run :: "server_event list" where
  "stopped_run = [CallRun, Accept, Accept, ServeEnds 0, CallStop, CallStop, Accept, EraseClient 0, GracePeriod, ServeEnds 1, StopAwaited, StopAccepted, RunContinues]"

theorem server_stops_cleanly_witness:
  "\<exists>s. s = fold server_step stopped_run server_new \<and> mc_state (hs_machine s) = STOPPED \<and> hs_sockets s = 2 \<and> {..<2} \<subseteq> set (hs_served s)
    \<and> hs_errors s = [''Server must be started in order to be stopped''] \<and> run_result s = Some (Inr ())"
proof -
  define s where "s = fold server_step stopped_run server_new"
  have e: "mc_state (hs_machine s) = STOPPED" "hs_sockets s = 2" "hs_errors s = [''Server must be started in order to be stopped'']" "run_result s = Some (Inr ())" 
    unfolding s_def by code_simp+
  then show ?thesis using server_stops_cleanly [OF s_def] unfolding s_def [symmetric] by simp
qed

text \<open>An accept loop that was abandoned: \<^verbatim>\<open>run\<close> stops the server by itself, but no event ever leads from \<^verbatim>\<open>STOPPING\<close> to \<^verbatim>\<open>STOPPED\<close>.\<close>

lemma abandoned_stays:
  assumes "hs_accepting s = Accepted AcceptAbandoned" and "mc_state (hs_machine s) = STOPPING"
  shows "hs_accepting (server_step e s) = Accepted AcceptAbandoned \<and> mc_state (hs_machine (server_step e s)) = STOPPING"
  using assms by (cases e) (auto simp: server_run_def server_stop_def server_accepting_done_def server_wait_stopped_def server_after_def server_awaited_def
       transition_def machine_when_def split: run_phase.splits stop_phase.splits)

lemma abandoned_accept_never_stops:
  "mc_state (hs_machine (fold server_step es (fold server_step [CallRun, AcceptEnds AcceptAbandoned, RunContinues] server_new))) = STOPPING"
proof -
  have run: "hs_accepting (fold server_step es s) = Accepted AcceptAbandoned \<and> mc_state (hs_machine (fold server_step es s)) = STOPPING"
    if "hs_accepting s = Accepted AcceptAbandoned" "mc_state (hs_machine s) = STOPPING" for s using that by (induction es arbitrary: s) (simp_all add: abandoned_stays)
  have "hs_accepting (fold server_step [CallRun, AcceptEnds AcceptAbandoned, RunContinues] server_new) = Accepted AcceptAbandoned"
    "mc_state (hs_machine (fold server_step [CallRun, AcceptEnds AcceptAbandoned, RunContinues] server_new)) = STOPPING" by code_simp+
  then show ?thesis using run by blast
qed

end
