(* ===== verification/Authentication.thy ===== *)
theory Authentication
  imports Routing "HOL-Library.Word"
begin

unbundle bit_operations_syntax

text \<open>
  The authenticators (\<^verbatim>\<open>src/authenticator.cpp\<close>, \<^verbatim>\<open>src/jwt_authenticator.cpp\<close>) and the web tokens they read (\<^verbatim>\<open>src/jwt.cpp\<close>). Parameters: the string, base64 and JSON
  functions of stout, and the cryptographic functions of OpenSSL. An object and a value of JSON are known through the operations the code uses.
\<close>

section \<open>Parameters\<close>

datatype 'v found = Found 'v | Missing | Wrong string

record ('o, 'v, 'k) jwt_libs =
  jl_split :: "string \<Rightarrow> char \<Rightarrow> string list"
  jl_decode :: "string \<Rightarrow> string + string"
  jl_decode_url :: "string \<Rightarrow> string + string"
  jl_encode_url :: "string \<Rightarrow> string"
  jl_parse :: "string \<Rightarrow> string + 'o"
  jl_print :: "'o \<Rightarrow> string"
  jl_object :: "(string \<times> string) list \<Rightarrow> 'o"
  jl_find :: "'o \<Rightarrow> string \<Rightarrow> 'v found"
  jl_members :: "'o \<Rightarrow> (string \<times> 'v) list"
  jl_string :: "'v \<Rightarrow> string option"
  jl_number :: "'v \<Rightarrow> int option"
  jl_print_value :: "'v \<Rightarrow> string"
  jl_hmac :: "string \<Rightarrow> string \<Rightarrow> string option"
  jl_sha256 :: "string \<Rightarrow> string"
  jl_rsa_sign :: "'k \<Rightarrow> string \<Rightarrow> string option"
  jl_rsa_verify :: "'k \<Rightarrow> string \<Rightarrow> string \<Rightarrow> bool"
  jl_reason :: "string option"

section \<open>Signatures\<close>

definition ssl_reason :: "('o, 'v, 'k) jwt_libs \<Rightarrow> string" where
  "ssl_reason L = (case jl_reason L of None \<Rightarrow> [] | Some r \<Rightarrow> '': '' @ r)"

definition generate_hmac_sha256 :: "('o, 'v, 'k) jwt_libs \<Rightarrow> string \<Rightarrow> string \<Rightarrow> string + string" where
  "generate_hmac_sha256 L message key = (case jl_hmac L key message of None \<Rightarrow> Inl (''HMAC failed'' @ ssl_reason L) | Some x \<Rightarrow> Inr x)"

definition sign_rsa_sha256 :: "('o, 'v, 'k) jwt_libs \<Rightarrow> string \<Rightarrow> 'k \<Rightarrow> string + string" where
  "sign_rsa_sha256 L message key = (case jl_rsa_sign L key (jl_sha256 L message) of
     None \<Rightarrow> Inl (''Failed to sign the message'' @ ssl_reason L) | Some x \<Rightarrow> Inr x)"

definition verify_rsa_sha256 :: "('o, 'v, 'k) jwt_libs \<Rightarrow> string \<Rightarrow> string \<Rightarrow> 'k \<Rightarrow> string + unit" where
  "verify_rsa_sha256 L message signature key =
    (if jl_rsa_verify L key (jl_sha256 L message) signature then Inr () else Inl (''Failed to verify message signature'' @ ssl_reason L))"

text \<open>A character is a signed byte, promoted to \<^verbatim>\<open>int\<close>; the differences are collected in an \<^verbatim>\<open>unsigned\<close>.\<close>

definition promoted :: "char \<Rightarrow> 32 word" where
  "promoted c = scast (of_char c :: 8 word)"

fun differences :: "32 word \<Rightarrow> string \<Rightarrow> string \<Rightarrow> 32 word" where
  "differences valid (a # as) (b # bs) = differences (valid OR (promoted a XOR promoted b)) as bs"
| "differences valid _ _ = valid"

definition constantTimeEquals :: "string \<Rightarrow> string \<Rightarrow> bool" where
  "constantTimeEquals left right = (if length left \<noteq> length right then False else differences 0 left right = 0)"

section \<open>Web tokens\<close>

datatype jwt_alg = AlgNone | HS256 | RS256

datatype jwt_error_type = INVALID_TOKEN | UNKNOWN

type_synonym jwt_error = "jwt_error_type \<times> string"

record jwt_header =
  jh_alg :: jwt_alg
  jh_typ :: "string option"

record 'o jwt =
  jw_header :: jwt_header
  jw_payload :: 'o
  jw_signature :: "string option"

fun alg_print :: "jwt_alg \<Rightarrow> string" where
  "alg_print AlgNone = ''none''" | "alg_print HS256 = ''HS256''" | "alg_print RS256 = ''RS256''"

definition component_decode :: "('o, 'v, 'k) jwt_libs \<Rightarrow> string \<Rightarrow> string + 'o" where
  "component_decode L component = (case jl_decode_url L component of
     Inl e \<Rightarrow> Inl (''Failed to base64url-decode: '' @ e)
   | Inr d \<Rightarrow> (case jl_parse L d of Inl e \<Rightarrow> Inl (''Failed to parse into JSON: '' @ e) | Inr j \<Rightarrow> Inr j))"

definition header_typ :: "('o, 'v, 'k) jwt_libs \<Rightarrow> 'o \<Rightarrow> string + string option" where
  "header_typ L obj = (case jl_find L obj ''typ'' of
     Found v \<Rightarrow> (case jl_string L v of None \<Rightarrow> Inl ''Token 'typ' is not a string'' | Some t \<Rightarrow> Inr (Some t))
   | _ \<Rightarrow> Inr None)"

definition header_alg :: "('o, 'v, 'k) jwt_libs \<Rightarrow> 'o \<Rightarrow> string + jwt_alg" where
  "header_alg L obj = (case jl_find L obj ''alg'' of
     Missing \<Rightarrow> Inl ''Failed to locate 'alg' in token JSON header''
   | Wrong e \<Rightarrow> Inl (''Error when extracting 'alg' field from token JSON header: '' @ e)
   | Found v \<Rightarrow> (case jl_string L v of
       None \<Rightarrow> Inl ''Token 'alg' field is not a string''
     | Some a \<Rightarrow> if a = ''none'' then Inr AlgNone else if a = ''HS256'' then Inr HS256 else if a = ''RS256'' then Inr RS256
         else Inl (''Unsupported token algorithm: '' @ a)))"

definition parse_header :: "('o, 'v, 'k) jwt_libs \<Rightarrow> string \<Rightarrow> string + jwt_header" where
  "parse_header L component = (case component_decode L component of
     Inl e \<Rightarrow> Inl (''Failed to decode token header: '' @ e)
   | Inr obj \<Rightarrow> (case header_typ L obj of
       Inl e \<Rightarrow> Inl e
     | Inr typ \<Rightarrow> (case header_alg L obj of
         Inl e \<Rightarrow> Inl e
       | Inr alg \<Rightarrow> (case jl_find L obj ''crit'' of
           Found _ \<Rightarrow> Inl ''Token 'crit' field is unsupported''
         | _ \<Rightarrow> Inr \<lparr>jh_alg = alg, jh_typ = typ\<rparr>))))"

text \<open>\<open>now\<close> is the time in seconds.\<close>

definition parse_payload :: "('o, 'v, 'k) jwt_libs \<Rightarrow> int \<Rightarrow> string \<Rightarrow> string + 'o" where
  "parse_payload L now component = (case component_decode L component of
     Inl e \<Rightarrow> Inl (''Failed to decode token payload: '' @ e)
   | Inr obj \<Rightarrow> (case jl_find L obj ''exp'' of
       Wrong e \<Rightarrow> Inl (''Error when extracting 'exp' field from token JSON payload: '' @ e)
     | Missing \<Rightarrow> Inr obj
     | Found v \<Rightarrow> (case jl_number L v of
         None \<Rightarrow> Inl ''JSON payload 'exp' field is not a number''
       | Some x \<Rightarrow> if x < now then Inl (''Token has expired: exp('' @ int_print x @ '') < now('' @ int_print now @ '')'') else Inr obj)))"

text \<open>What the three functions \<^verbatim>\<open>parse\<close> have in common, up to the signature.\<close>

definition parse_components :: "('o, 'v, 'k) jwt_libs \<Rightarrow> int \<Rightarrow> jwt_alg \<Rightarrow> string \<Rightarrow> jwt_error + jwt_header \<times> 'o \<times> string list" where
  "parse_components L now alg token = (let components = jl_split L token CHR ''.'' in
     if length components \<noteq> 3 then Inl (INVALID_TOKEN, ''Expected 3 components in token, got '' @ dec (length components))
     else case parse_header L (components ! 0) of
       Inl e \<Rightarrow> Inl (INVALID_TOKEN, e)
     | Inr header \<Rightarrow>
         if jh_alg header \<noteq> alg
         then Inl (INVALID_TOKEN, ''Token 'alg' value \"'' @ alg_print (jh_alg header) @ ''\" does not match, expected \"'' @ alg_print alg @ ''\"'')
         else (case parse_payload L now (components ! 1) of
           Inl e \<Rightarrow> Inl (INVALID_TOKEN, e)
         | Inr payload \<Rightarrow> Inr (header, payload, components)))"

definition jwt_parse_unsecured :: "('o, 'v, 'k) jwt_libs \<Rightarrow> int \<Rightarrow> string \<Rightarrow> jwt_error + 'o jwt" where
  "jwt_parse_unsecured L now token = (case parse_components L now AlgNone token of
     Inl e \<Rightarrow> Inl e
   | Inr (header, payload, components) \<Rightarrow>
       if components ! 2 \<noteq> [] then Inl (INVALID_TOKEN, ''Unsecured JWT contains a signature'')
       else Inr \<lparr>jw_header = header, jw_payload = payload, jw_signature = None\<rparr>)"

definition jwt_parse_hs256 :: "('o, 'v, 'k) jwt_libs \<Rightarrow> int \<Rightarrow> string \<Rightarrow> string \<Rightarrow> jwt_error + 'o jwt" where
  "jwt_parse_hs256 L now token secret = (case parse_components L now HS256 token of
     Inl e \<Rightarrow> Inl e
   | Inr (header, payload, components) \<Rightarrow> (case jl_decode_url L (components ! 2) of
       Inl e \<Rightarrow> Inl (INVALID_TOKEN, ''Failed to base64url-decode token signature: '' @ e)
     | Inr signature \<Rightarrow> (case generate_hmac_sha256 L (components ! 0 @ ''.'' @ components ! 1) secret of
         Inl e \<Rightarrow> Inl (UNKNOWN, ''Failed to generate HMAC signature: '' @ e)
       | Inr hmac \<Rightarrow>
           if \<not> constantTimeEquals hmac signature then Inl (INVALID_TOKEN, ''Token signature does not match'')
           else Inr \<lparr>jw_header = header, jw_payload = payload, jw_signature = Some signature\<rparr>)))"

definition jwt_parse_rs256 :: "('o, 'v, 'k) jwt_libs \<Rightarrow> int \<Rightarrow> string \<Rightarrow> 'k \<Rightarrow> jwt_error + 'o jwt" where
  "jwt_parse_rs256 L now token publicKey = (case parse_components L now RS256 token of
     Inl e \<Rightarrow> Inl e
   | Inr (header, payload, components) \<Rightarrow> (case jl_decode_url L (components ! 2) of
       Inl e \<Rightarrow> Inl (INVALID_TOKEN, ''Failed to base64url-decode token signature: '' @ e)
     | Inr signature \<Rightarrow> (case verify_rsa_sha256 L (components ! 0 @ ''.'' @ components ! 1) signature publicKey of
         Inl e \<Rightarrow> Inl (INVALID_TOKEN, ''Failed to verify token: '' @ e)
       | Inr _ \<Rightarrow> Inr \<lparr>jw_header = header, jw_payload = payload, jw_signature = Some signature\<rparr>)))"

definition header_print :: "('o, 'v, 'k) jwt_libs \<Rightarrow> jwt_header \<Rightarrow> string" where
  "header_print L h = jl_print L (jl_object L ((''alg'', alg_print (jh_alg h)) # (case jh_typ h of None \<Rightarrow> [] | Some t \<Rightarrow> [(''typ'', t)])))"

definition signed_part :: "('o, 'v, 'k) jwt_libs \<Rightarrow> jwt_header \<Rightarrow> 'o \<Rightarrow> string" where
  "signed_part L h payload = jl_encode_url L (header_print L h) @ ''.'' @ jl_encode_url L (jl_print L payload)"

definition jwt_create_unsecured :: "'o \<Rightarrow> jwt_error + 'o jwt" where
  "jwt_create_unsecured payload = Inr \<lparr>jw_header = \<lparr>jh_alg = AlgNone, jh_typ = Some ''JWT''\<rparr>, jw_payload = payload, jw_signature = None\<rparr>"

definition jwt_create_hs256 :: "('o, 'v, 'k) jwt_libs \<Rightarrow> 'o \<Rightarrow> string \<Rightarrow> jwt_error + 'o jwt" where
  "jwt_create_hs256 L payload secret = (let header = \<lparr>jh_alg = HS256, jh_typ = Some ''JWT''\<rparr> in
     case generate_hmac_sha256 L (signed_part L header payload) secret of
       Inl e \<Rightarrow> Inl (UNKNOWN, ''Failed to generate HMAC signature: '' @ e)
     | Inr hmac \<Rightarrow> Inr \<lparr>jw_header = header, jw_payload = payload, jw_signature = Some (jl_encode_url L hmac)\<rparr>)"

definition jwt_create_rs256 :: "('o, 'v, 'k) jwt_libs \<Rightarrow> 'o \<Rightarrow> 'k \<Rightarrow> jwt_error + 'o jwt" where
  "jwt_create_rs256 L payload privateKey = (let header = \<lparr>jh_alg = RS256, jh_typ = Some ''JWT''\<rparr> in
     case sign_rsa_sha256 L (signed_part L header payload) privateKey of
       Inl e \<Rightarrow> Inl (UNKNOWN, ''Failed to generate RSA signature: '' @ e)
     | Inr signature \<Rightarrow> Inr \<lparr>jw_header = header, jw_payload = payload, jw_signature = Some (jl_encode_url L signature)\<rparr>)"

definition jwt_print :: "('o, 'v, 'k) jwt_libs \<Rightarrow> 'o jwt \<Rightarrow> string" where
  "jwt_print L j = signed_part L (jw_header j) (jw_payload j) @ ''.'' @ (case jw_signature j of None \<Rightarrow> [] | Some s \<Rightarrow> s)"

section \<open>Authenticators\<close>

definition Unauthorized :: "string \<Rightarrow> response" where
  "Unauthorized challenge = (let r = Response_body ''401 Unauthorized.'' 401 text_plain in
     r\<lparr>rs_headers := headers_set ''WWW-Authenticate'' challenge (rs_headers r)\<rparr>)"

definition unauthorized_result :: "string \<Rightarrow> authentication_result" where
  "unauthorized_result challenge = \<lparr>au_principal = None, au_unauthorized = Some (Unauthorized challenge), au_forbidden = None\<rparr>"

definition principal_result :: "principal \<Rightarrow> authentication_result" where
  "principal_result p = \<lparr>au_principal = Some p, au_unauthorized = None, au_forbidden = None\<rparr>"

definition basic_authenticate :: "('o, 'v, 'k) jwt_libs \<Rightarrow> string \<Rightarrow> (string \<rightharpoonup> string) \<Rightarrow> request \<Rightarrow> string + authentication_result" where
  "basic_authenticate L realm credentials r = Inr (let unauthorized = unauthorized_result (''Basic realm=\"'' @ realm @ ''\"'') in
     case headers_get ''Authorization'' (rq_headers r) of
       None \<Rightarrow> unauthorized
     | Some h \<Rightarrow> let components = jl_split L h CHR '' '' in
         if length components \<noteq> 2 \<or> components ! 0 \<noteq> ''Basic'' then unauthorized
         else (case jl_decode L (components ! 1) of
           Inl _ \<Rightarrow> unauthorized
         | Inr decoded \<Rightarrow> let credential = jl_split L decoded CHR '':'' in
             if length credential \<noteq> 2 \<or> credentials (credential ! 0) = None \<or> credentials (credential ! 0) \<noteq> Some (credential ! 1) then unauthorized
             else principal_result \<lparr>pr_value = Some (credential ! 0), pr_claims = []\<rparr>))"

definition bearer_error :: "string \<Rightarrow> string \<Rightarrow> authentication_result" where
  "bearer_error realm description = unauthorized_result
     (''Bearer realm=\"'' @ realm @ ''\", error=\"invalid_token\", error_description=\"'' @ description @ ''\"'')"

definition claims_of :: "('o, 'v, 'k) jwt_libs \<Rightarrow> 'o \<Rightarrow> (string \<times> string) list" where
  "claims_of L obj = map (\<lambda>(k, v). (k, case jl_string L v of Some s \<Rightarrow> s | None \<Rightarrow> jl_print_value L v)) (jl_members L obj)"

definition jwt_authenticate :: "('o, 'v, 'k) jwt_libs \<Rightarrow> int \<Rightarrow> string \<Rightarrow> string \<Rightarrow> request \<Rightarrow> string + authentication_result" where
  "jwt_authenticate L now realm secret r = (case headers_get ''Authorization'' (rq_headers r) of
     None \<Rightarrow> Inr (unauthorized_result (''Bearer realm=\"'' @ realm @ ''\"''))
   | Some h \<Rightarrow> let token = jl_split L h CHR '' '' in
       if length token \<noteq> 2 then Inr (bearer_error realm ''Malformed 'Authorization' header'')
       else if token ! 0 \<noteq> ''Bearer'' then Inr (bearer_error realm (''Scheme '' @ quoted (token ! 0) @ '' unsupported''))
       else (case jwt_parse_hs256 L now (token ! 1) secret of
         Inl (INVALID_TOKEN, m) \<Rightarrow> Inr (bearer_error realm (''Invalid JWT: '' @ m))
       | Inl (UNKNOWN, m) \<Rightarrow> Inl m
       | Inr j \<Rightarrow>
           if jl_members L (jw_payload j) = [] then Inr (bearer_error realm ''JWT claims missing'')
           else Inr (principal_result \<lparr>pr_value = None, pr_claims = claims_of L (jw_payload j)\<rparr>)))"

section \<open>The laws of the parameters\<close>

fun pieces :: "char \<Rightarrow> string list \<Rightarrow> string" where
  "pieces c [] = []"
| "pieces c [x] = x"
| "pieces c (x # y # ys) = x @ c # pieces c (y # ys)"

definition plain_text :: "string \<Rightarrow> bool" where
  "plain_text s = (\<forall>c\<in>set s. 32 \<le> (of_char c :: nat) \<and> (of_char c :: nat) < 127)"

text \<open>
  \<^verbatim>\<open>strings::split\<close> returns the pieces between the delimiters, base64url reads what it prints and uses no dot, an object whose members are strings of printable
  characters is parsed back from its text (numbers are not: they are printed with a limited precision), and \<^verbatim>\<open>find\<close> looks up what an object was given.
\<close>

locale jwt_library =
  fixes L :: "('o, 'v, 'k) jwt_libs"
  assumes split_pieces: "xs \<noteq> [] \<Longrightarrow> (\<And>x. x \<in> set xs \<Longrightarrow> c \<notin> set x) \<Longrightarrow> jl_split L (pieces c xs) c = xs"
    and decode_encode_url: "jl_decode_url L (jl_encode_url L x) = Inr x"
    and encode_url_no_dot: "CHR ''.'' \<notin> set (jl_encode_url L x)"
    and parse_strings: "(\<And>k s. (k, s) \<in> set kvs \<Longrightarrow> plain_text k \<and> plain_text s) \<Longrightarrow> jl_parse L (jl_print L (jl_object L kvs)) = Inr (jl_object L kvs)"
    and find_member: "distinct (map fst kvs) \<Longrightarrow> map_of kvs k = Some s \<Longrightarrow> set k \<inter> set ''.['' = {} \<Longrightarrow> \<exists>v. jl_find L (jl_object L kvs) k = Found v \<and> jl_string L v = Some s"
    and find_missing: "map_of kvs k = None \<Longrightarrow> set k \<inter> set ''.['' = {} \<Longrightarrow> jl_find L (jl_object L kvs) k = Missing"
begin

lemma split_exists: "\<exists>xs. xs \<noteq> [] \<and> (\<forall>x\<in>set xs. c \<notin> set x) \<and> pieces c xs = s"
proof (induction s)
  case Nil
  show ?case by (rule exI [of _ "[[]]"]) simp
next
  case (Cons a s)
  then obtain x xs where xs: "\<forall>y\<in>set (x # xs). c \<notin> set y" "pieces c (x # xs) = s" by (metis neq_Nil_conv)
  show ?case
  proof (cases "a = c")
    case True
    then show ?thesis using xs by (intro exI [of _ "[] # x # xs"]) simp
  next
    case False
    then show ?thesis using xs by (cases xs) (auto intro!: exI [of _ "(a # x) # xs"])
  qed
qed

lemma split_iff: "jl_split L s c = xs \<longleftrightarrow> xs \<noteq> [] \<and> (\<forall>x\<in>set xs. c \<notin> set x) \<and> pieces c xs = s"
  using split_exists [of c s] split_pieces [of _ c] by metis

lemma split_two_iff: "jl_split L s c = [a, b] \<longleftrightarrow> c \<notin> set a \<and> c \<notin> set b \<and> s = a @ c # b"
  by (auto simp: split_iff)

lemma split_three_iff: "jl_split L s c = [a, b, d] \<longleftrightarrow> c \<notin> set a \<and> c \<notin> set b \<and> c \<notin> set d \<and> s = a @ c # b @ c # d"
  by (auto simp: split_iff)

end

lemma length_two: "length xs = 2 \<longleftrightarrow> (\<exists>a b. xs = [a, b])"
  by (cases xs; cases "tl xs") auto

lemma length_three: "length xs = 3 \<longleftrightarrow> (\<exists>a b c. xs = [a, b, c])"
  by (cases xs; cases "tl xs"; cases "tl (tl xs)") auto

section \<open>Comparison in constant time\<close>

lemma unat_byte: "unat (of_char c :: 8 word) = of_char c"
proof -
  have "(of_char c :: 8 word) = of_nat (of_char c)" by (rule of_nat_of_char [symmetric])
  moreover have "(of_char c :: nat) < 2 ^ 8" using byte [of c] by simp
  ultimately show ?thesis by (simp only: unat_of_nat) (simp add: take_bit_nat_eq_self)
qed

lemma promoted_inject: "promoted a = promoted b \<longleftrightarrow> a = b"
proof
  assume "promoted a = promoted b"
  moreover have "scast (promoted c) = (of_char c :: 8 word)" for c unfolding promoted_def by (rule scast_up_scast_id) (simp add: is_up)
  ultimately have w: "(of_char a :: 8 word) = of_char b" by metis
  have "(of_char a :: nat) = of_char b" unfolding unat_byte [symmetric] w ..
  then show "a = b" by (simp only: of_char_eq_iff)
qed simp

lemma xor_zero: "(x XOR y = 0) = (x = (y :: 32 word))"
  by (auto simp: bit_eq_iff bit_xor_iff)

lemma differences_zero: "length as = length bs \<Longrightarrow> differences v as bs = 0 \<longleftrightarrow> v = 0 \<and> as = bs"
proof (induction v as bs rule: differences.induct)
  case (1 v a as b bs)
  then show ?case using promoted_inject [of a b] by (auto simp: or_eq_0_iff xor_zero)
qed auto

lemma constantTimeEquals_iff: "constantTimeEquals left right \<longleftrightarrow> left = right"
  by (auto simp: constantTimeEquals_def differences_zero)

section \<open>Tokens\<close>

definition unexpired :: "('o, 'v, 'k) jwt_libs \<Rightarrow> int \<Rightarrow> 'o \<Rightarrow> bool" where
  "unexpired L now obj = (case jl_find L obj ''exp'' of
     Missing \<Rightarrow> True
   | Wrong _ \<Rightarrow> False
   | Found v \<Rightarrow> (case jl_number L v of None \<Rightarrow> False | Some x \<Rightarrow> now \<le> x))"

lemma parse_payload_iff: "parse_payload L now c = Inr obj \<longleftrightarrow> component_decode L c = Inr obj \<and> unexpired L now obj"
  by (auto simp: parse_payload_def unexpired_def split: sum.splits found.splits option.splits)

lemma parse_components_iff:
  assumes "jwt_library L"
  shows "parse_components L now alg token = Inr (h, obj, cs) \<longleftrightarrow> (\<exists>a b d. token = a @ ''.'' @ b @ ''.'' @ d \<and> CHR ''.'' \<notin> set (a @ b @ d) \<and> cs = [a, b, d]
    \<and> parse_header L a = Inr h \<and> jh_alg h = alg \<and> parse_payload L now b = Inr obj)"
proof -
  have "parse_components L now alg token = Inr (h, obj, cs) \<longleftrightarrow> (\<exists>a b d. jl_split L token CHR ''.'' = [a, b, d] \<and> cs = [a, b, d]
      \<and> parse_header L a = Inr h \<and> jh_alg h = alg \<and> parse_payload L now b = Inr obj)"
  proof (cases "\<exists>a b d. jl_split L token CHR ''.'' = [a, b, d]")
    case True
    then obtain a b d where "jl_split L token CHR ''.'' = [a, b, d]" by blast
    then show ?thesis by (auto simp: parse_components_def Let_def split: sum.splits if_splits)
  next
    case False
    then have "length (jl_split L token CHR ''.'') \<noteq> 3" by (simp add: length_three)
    then have "isl (parse_components L now alg token)" by (simp add: parse_components_def)
    then show ?thesis using False by auto
  qed
  also have "\<dots> \<longleftrightarrow> (\<exists>a b d. token = a @ ''.'' @ b @ ''.'' @ d \<and> CHR ''.'' \<notin> set (a @ b @ d) \<and> cs = [a, b, d]
      \<and> parse_header L a = Inr h \<and> jh_alg h = alg \<and> parse_payload L now b = Inr obj)"
    unfolding jwt_library.split_three_iff [OF assms] by (intro ex_cong1) auto
  finally show ?thesis .
qed

text \<open>
  What a token is, in terms of the parameters only: the object that a component stands for, a header that names the algorithm HS256, has no \<^verbatim>\<open>crit\<close> member and whose
  \<^verbatim>\<open>typ\<close> is a string if there is one, and the three components with the signature that the third one encodes.
\<close>

definition stands_for :: "('o, 'v, 'k) jwt_libs \<Rightarrow> string \<Rightarrow> 'o \<Rightarrow> bool" where
  "stands_for L component obj = (\<exists>x. jl_decode_url L component = Inr x \<and> jl_parse L x = Inr obj)"

definition member_string :: "('o, 'v, 'k) jwt_libs \<Rightarrow> 'o \<Rightarrow> string \<Rightarrow> string \<Rightarrow> bool" where
  "member_string L obj k s = (\<exists>v. jl_find L obj k = Found v \<and> jl_string L v = Some s)"

definition has_member :: "('o, 'v, 'k) jwt_libs \<Rightarrow> 'o \<Rightarrow> string \<Rightarrow> bool" where
  "has_member L obj k = (\<exists>v. jl_find L obj k = Found v)"

definition hs256_token :: "('o, 'v, 'k) jwt_libs \<Rightarrow> int \<Rightarrow> string \<Rightarrow> string \<Rightarrow> string \<Rightarrow> 'o jwt \<Rightarrow> bool" where
  "hs256_token L now token a b j = (\<exists>d sig obj. token = a @ ''.'' @ b @ ''.'' @ d \<and> CHR ''.'' \<notin> set (a @ b @ d)
     \<and> stands_for L a obj \<and> member_string L obj ''alg'' ''HS256'' \<and> \<not> has_member L obj ''crit''
     \<and> jh_alg (jw_header j) = HS256 \<and> (case jh_typ (jw_header j) of None \<Rightarrow> \<not> has_member L obj ''typ'' | Some t \<Rightarrow> member_string L obj ''typ'' t)
     \<and> stands_for L b (jw_payload j) \<and> unexpired L now (jw_payload j) \<and> jl_decode_url L d = Inr sig \<and> jw_signature j = Some sig)"

lemma component_decode_iff: "component_decode L c = Inr obj \<longleftrightarrow> stands_for L c obj"
  by (auto simp: component_decode_def stands_for_def split: sum.splits)

lemma header_alg_hs256: "header_alg L obj = Inr HS256 \<longleftrightarrow> member_string L obj ''alg'' ''HS256''"
  by (auto simp: header_alg_def member_string_def split: found.splits option.splits)

lemma header_typ_iff: "header_typ L obj = Inr t \<longleftrightarrow> (case t of None \<Rightarrow> \<not> has_member L obj ''typ'' | Some x \<Rightarrow> member_string L obj ''typ'' x)"
  by (auto simp: header_typ_def member_string_def has_member_def split: found.splits option.splits)

lemma parse_header_hs256:
  "parse_header L a = Inr h \<and> jh_alg h = HS256 \<longleftrightarrow> (\<exists>obj. stands_for L a obj \<and> member_string L obj ''alg'' ''HS256'' \<and> \<not> has_member L obj ''crit''
     \<and> jh_alg h = HS256 \<and> (case jh_typ h of None \<Rightarrow> \<not> has_member L obj ''typ'' | Some t \<Rightarrow> member_string L obj ''typ'' t))"
proof -
  have "parse_header L a = Inr h \<longleftrightarrow> (\<exists>obj. component_decode L a = Inr obj \<and> header_typ L obj = Inr (jh_typ h) \<and> header_alg L obj = Inr (jh_alg h) \<and> \<not> has_member L obj ''crit'')"
    by (cases h) (auto simp: parse_header_def has_member_def split: sum.splits found.splits)
  then show ?thesis unfolding component_decode_iff header_typ_iff header_alg_hs256 [symmetric] by auto
qed

lemma parse_hs256_components:
  assumes "jwt_library L"
  shows "(\<exists>d sig. parse_components L now HS256 token = Inr (jw_header j, jw_payload j, [a, b, d]) \<and> jl_decode_url L d = Inr sig \<and> jw_signature j = Some sig)
    \<longleftrightarrow> hs256_token L now token a b j"
  unfolding parse_components_iff [OF assms] parse_payload_iff component_decode_iff hs256_token_def using parse_header_hs256 [of L a "jw_header j"] by auto

lemma parse_hs256_iff:
  assumes "jwt_library L"
  shows "jwt_parse_hs256 L now token secret = Inr j \<longleftrightarrow> (\<exists>a b. hs256_token L now token a b j \<and> jl_hmac L secret (a @ ''.'' @ b) = jw_signature j)"
proof -
  have "jwt_parse_hs256 L now token secret = Inr j \<longleftrightarrow> (\<exists>a b d sig. parse_components L now HS256 token = Inr (jw_header j, jw_payload j, [a, b, d])
      \<and> jl_decode_url L d = Inr sig \<and> jw_signature j = Some sig \<and> jl_hmac L secret (a @ ''.'' @ b) = Some sig)" (is "?l = ?r")
  proof
    assume ?l
    then obtain h obj cs where c: "parse_components L now HS256 token = Inr (h, obj, cs)" by (auto simp: jwt_parse_hs256_def split: sum.splits)
    then obtain a b d where "cs = [a, b, d]" unfolding parse_components_iff [OF assms] by blast
    then show ?r using \<open>?l\<close> c by (auto simp: jwt_parse_hs256_def generate_hmac_sha256_def constantTimeEquals_iff split: sum.splits option.splits if_splits)
  next
    assume ?r
    then show ?l by (auto simp: jwt_parse_hs256_def generate_hmac_sha256_def constantTimeEquals_iff)
  qed
  then show ?thesis unfolding parse_hs256_components [OF assms, symmetric] by (auto split: option.splits)
qed

lemma parse_hs256_unknown:
  assumes "jwt_library L"
  shows "(\<exists>m. jwt_parse_hs256 L now token secret = Inl (UNKNOWN, m)) \<longleftrightarrow> (\<exists>a b j. hs256_token L now token a b j \<and> jl_hmac L secret (a @ ''.'' @ b) = None)" (is "?l = ?r")
proof
  assume ?l
  have "fst e = INVALID_TOKEN" if "parse_components L now HS256 token = Inl e" for e
    using that by (auto simp: parse_components_def Let_def split: sum.splits if_splits)
  then obtain h obj cs where c: "parse_components L now HS256 token = Inr (h, obj, cs)" using \<open>?l\<close> by (auto simp: jwt_parse_hs256_def split: sum.splits)
  then obtain a b d where "cs = [a, b, d]" unfolding parse_components_iff [OF assms] by blast
  then obtain sig where s: "jl_decode_url L d = Inr sig" "jl_hmac L secret (a @ ''.'' @ b) = None"
    using \<open>?l\<close> c by (auto simp: jwt_parse_hs256_def generate_hmac_sha256_def split: sum.splits option.splits if_splits)
  have "hs256_token L now token a b \<lparr>jw_header = h, jw_payload = obj, jw_signature = Some sig\<rparr>"
    unfolding parse_hs256_components [OF assms, symmetric] using c \<open>cs = _\<close> s by simp
  then show ?r using s by blast
next
  assume ?r
  then show ?l unfolding parse_hs256_components [OF assms, symmetric] by (auto simp: jwt_parse_hs256_def generate_hmac_sha256_def)
qed

text \<open>C23.
  A token is accepted under a secret exactly if it consists of three components of which the first stands for an object whose \<^verbatim>\<open>alg\<close> is the string HS256, which has no member
  \<^verbatim>\<open>crit\<close>, and whose \<^verbatim>\<open>typ\<close> is a string if there is one, the second for a payload that has not expired, and the third for the HMAC of the first two under that secret.
  Then the header, payload and signature of the result are those.
\<close>

theorem accepted_tokens_are_signed:
  assumes "jwt_library L"
  shows "jwt_parse_hs256 L now token secret = Inr j \<longleftrightarrow>
    (\<exists>a b d sig obj x y. token = a @ ''.'' @ b @ ''.'' @ d \<and> CHR ''.'' \<notin> set (a @ b @ d)
      \<and> jl_hmac L secret (a @ ''.'' @ b) = Some sig \<and> jl_decode_url L d = Inr sig \<and> jw_signature j = Some sig
      \<and> jl_decode_url L a = Inr x \<and> jl_parse L x = Inr obj
      \<and> (\<exists>v. jl_find L obj ''alg'' = Found v \<and> jl_string L v = Some ''HS256'') \<and> (\<nexists>v. jl_find L obj ''crit'' = Found v)
      \<and> (case jl_find L obj ''typ'' of Found v \<Rightarrow> jl_string L v \<noteq> None \<and> jw_header j = \<lparr>jh_alg = HS256, jh_typ = jl_string L v\<rparr> | _ \<Rightarrow> jw_header j = \<lparr>jh_alg = HS256, jh_typ = None\<rparr>)
      \<and> jl_decode_url L b = Inr y \<and> jl_parse L y = Inr (jw_payload j)
      \<and> (case jl_find L (jw_payload j) ''exp'' of Found v \<Rightarrow> (\<exists>t. jl_number L v = Some t \<and> now \<le> t) | Missing \<Rightarrow> True | Wrong _ \<Rightarrow> False))"
proof -
  have typ_ok: "jh_alg h = HS256 \<and> (case jh_typ h of None \<Rightarrow> \<not> has_member L obj ''typ'' | Some t \<Rightarrow> member_string L obj ''typ'' t)
    \<longleftrightarrow> (case jl_find L obj ''typ'' of Found v \<Rightarrow> jl_string L v \<noteq> None \<and> h = \<lparr>jh_alg = HS256, jh_typ = jl_string L v\<rparr> | _ \<Rightarrow> h = \<lparr>jh_alg = HS256, jh_typ = None\<rparr>)"
    for h obj by (cases h) (auto simp: has_member_def member_string_def split: found.splits option.splits)
  have exp_ok: "unexpired L now obj \<longleftrightarrow> (case jl_find L obj ''exp'' of Found v \<Rightarrow> (\<exists>t. jl_number L v = Some t \<and> now \<le> t) | Missing \<Rightarrow> True | Wrong _ \<Rightarrow> False)" for obj
    by (auto simp: unexpired_def split: found.splits option.splits)
  show ?thesis unfolding parse_hs256_iff [OF assms] hs256_token_def exp_ok [symmetric] typ_ok [symmetric] stands_for_def member_string_def [of L _ "''alg''"] has_member_def [of L _ "''crit''"]
    by (intro iffI; elim exE conjE) (rule exI conjI | assumption | simp)+
qed

lemma component_print:
  assumes "jwt_library L" and "jl_parse L (jl_print L obj) = Inr obj"
  shows "component_decode L (jl_encode_url L (jl_print L obj)) = Inr obj"
  using assms by (simp add: component_decode_def jwt_library.decode_encode_url)

lemma parse_header_print:
  assumes "jwt_library L" and "case jh_typ h of None \<Rightarrow> True | Some t \<Rightarrow> plain_text t"
  shows "parse_header L (jl_encode_url L (header_print L h)) = Inr h"
proof -
  define kvs where "kvs = (''alg'', alg_print (jh_alg h)) # (case jh_typ h of None \<Rightarrow> [] | Some t \<Rightarrow> [(''typ'', t)])"
  have kvs: "distinct (map fst kvs)" "map_of kvs ''alg'' = Some (alg_print (jh_alg h))" "map_of kvs ''typ'' = jh_typ h" "map_of kvs ''crit'' = None"
    by (auto simp: kvs_def split: option.splits)
  have "plain_text (alg_print alg)" for alg by (cases alg) (simp_all add: plain_text_def)
  then have plain: "plain_text k \<and> plain_text s" if "(k, s) \<in> set kvs" for k s
    using that assms(2) by (auto simp: kvs_def plain_text_def split: option.splits)
  from plain have parsed: "jl_parse L (jl_print L (jl_object L kvs)) = Inr (jl_object L kvs)" by (rule jwt_library.parse_strings [OF assms(1)])
  have "header_alg L (jl_object L kvs) = Inr (jh_alg h)"
    using jwt_library.find_member [OF assms(1) kvs(1,2)] by (cases "jh_alg h") (auto simp: header_alg_def)
  moreover have "header_typ L (jl_object L kvs) = Inr (jh_typ h)"
    using jwt_library.find_member [OF assms(1) kvs(1), of "''typ''"] jwt_library.find_missing [OF assms(1), of kvs "''typ''"] kvs(3)
    by (cases "jh_typ h") (auto simp: header_typ_def)
  moreover have "jl_find L (jl_object L kvs) ''crit'' = Missing" using jwt_library.find_missing [OF assms(1) kvs(4)] by simp
  moreover have "header_print L h = jl_print L (jl_object L kvs)" by (simp add: header_print_def kvs_def)
  ultimately show ?thesis using component_print [OF assms(1) parsed] by (simp add: parse_header_def)
qed

lemma parse_components_print:
  assumes "jwt_library L" and "unexpired L now (jw_payload j)" and "case jw_signature j of None \<Rightarrow> True | Some s \<Rightarrow> CHR ''.'' \<notin> set s"
    and "case jh_typ (jw_header j) of None \<Rightarrow> True | Some t \<Rightarrow> plain_text t" and "jl_parse L (jl_print L (jw_payload j)) = Inr (jw_payload j)"
  shows "parse_components L now alg (jwt_print L j) =
    (if alg = jh_alg (jw_header j)
     then Inr (jw_header j, jw_payload j, [jl_encode_url L (header_print L (jw_header j)), jl_encode_url L (jl_print L (jw_payload j)), case jw_signature j of None \<Rightarrow> [] | Some s \<Rightarrow> s])
     else Inl (INVALID_TOKEN, ''Token 'alg' value \"'' @ alg_print (jh_alg (jw_header j)) @ ''\" does not match, expected \"'' @ alg_print alg @ ''\"''))"
proof -
  let ?a = "jl_encode_url L (header_print L (jw_header j))" and ?b = "jl_encode_url L (jl_print L (jw_payload j))" and ?d = "case jw_signature j of None \<Rightarrow> [] | Some s \<Rightarrow> s"
  have "CHR ''.'' \<notin> set ?a" "CHR ''.'' \<notin> set ?b" "CHR ''.'' \<notin> set ?d" using assms(1,3) jwt_library.encode_url_no_dot by (auto split: option.splits)
  then have "jl_split L (jwt_print L j) CHR ''.'' = [?a, ?b, ?d]" by (simp add: jwt_library.split_three_iff [OF assms(1)] jwt_print_def signed_part_def)
  moreover have "parse_payload L now ?b = Inr (jw_payload j)" using component_print [OF assms(1,5)] assms(2) by (simp add: parse_payload_iff)
  ultimately show ?thesis using parse_header_print [OF assms(1,4)] by (simp add: parse_components_def)
qed

lemma parse_created:
  assumes "jwt_library L" and "jwt_create_hs256 L payload secret = Inr j" and "unexpired L now payload" and "jl_parse L (jl_print L payload) = Inr payload"
  obtains sig where "jl_hmac L secret (signed_part L (jw_header j) payload) = Some sig" "jw_header j = \<lparr>jh_alg = HS256, jh_typ = Some ''JWT''\<rparr>"
    "jwt_print L j = signed_part L (jw_header j) payload @ ''.'' @ jl_encode_url L sig"
    "\<And>other. jwt_parse_hs256 L now (jwt_print L j) other = (case jl_hmac L other (signed_part L (jw_header j) payload) of
        None \<Rightarrow> Inl (UNKNOWN, ''Failed to generate HMAC signature: HMAC failed'' @ ssl_reason L)
      | Some x \<Rightarrow> if x \<noteq> sig then Inl (INVALID_TOKEN, ''Token signature does not match'') else Inr \<lparr>jw_header = jw_header j, jw_payload = payload, jw_signature = Some sig\<rparr>)"
    "isl (jwt_parse_unsecured L now (jwt_print L j))" "\<And>key. isl (jwt_parse_rs256 L now (jwt_print L j) key)"
proof -
  obtain sig where sig: "jl_hmac L secret (signed_part L (jw_header j) payload) = Some sig" and j: "jw_header j = \<lparr>jh_alg = HS256, jh_typ = Some ''JWT''\<rparr>" "jw_payload j = payload"
      "jw_signature j = Some (jl_encode_url L sig)"
    using assms(2) by (auto simp: jwt_create_hs256_def generate_hmac_sha256_def Let_def split: option.splits)
  have "unexpired L now (jw_payload j)" "case jw_signature j of None \<Rightarrow> True | Some s \<Rightarrow> CHR ''.'' \<notin> set s"
    "case jh_typ (jw_header j) of None \<Rightarrow> True | Some t \<Rightarrow> plain_text t" "jl_parse L (jl_print L (jw_payload j)) = Inr (jw_payload j)"
    using assms(3,4) j jwt_library.encode_url_no_dot [OF assms(1)] by (simp_all add: plain_text_def)
  note parts = parse_components_print [OF assms(1) this]
  note dec = jwt_library.decode_encode_url [OF assms(1)]
  have "jwt_parse_hs256 L now (jwt_print L j) other = (case jl_hmac L other (signed_part L (jw_header j) payload) of
      None \<Rightarrow> Inl (UNKNOWN, ''Failed to generate HMAC signature: HMAC failed'' @ ssl_reason L)
    | Some x \<Rightarrow> if x \<noteq> sig then Inl (INVALID_TOKEN, ''Token signature does not match'') else Inr \<lparr>jw_header = jw_header j, jw_payload = payload, jw_signature = Some sig\<rparr>)" for other
    unfolding jwt_parse_hs256_def parts using j dec by (auto simp: generate_hmac_sha256_def signed_part_def constantTimeEquals_iff split: option.splits)
  moreover have "isl (jwt_parse_unsecured L now (jwt_print L j))" "isl (jwt_parse_rs256 L now (jwt_print L j) key)" for key
    unfolding jwt_parse_unsecured_def jwt_parse_rs256_def parts using j by simp_all
  ultimately show ?thesis using that sig j by (simp add: jwt_print_def)
qed

text \<open>
  A token that was created with a secret from a payload that JSON reads as it prints it is read back, with its header, payload and signature, under that secret, for as long as it has not expired; under another secret it is rejected
  unless the signatures agree, and it is never accepted as an unsecured or RSA token.
\<close>

theorem created_tokens_are_accepted:
  assumes "jwt_library L" and "jwt_create_hs256 L payload secret = Inr j" and "unexpired L now payload" and "jl_parse L (jl_print L payload) = Inr payload"
  shows "(\<exists>sig. jl_hmac L secret (signed_part L (jw_header j) payload) = Some sig
      \<and> jwt_parse_hs256 L now (jwt_print L j) secret = Inr \<lparr>jw_header = jw_header j, jw_payload = payload, jw_signature = Some sig\<rparr>)
    \<and> (\<forall>other. jl_hmac L other (signed_part L (jw_header j) payload) \<noteq> jl_hmac L secret (signed_part L (jw_header j) payload) \<longrightarrow> isl (jwt_parse_hs256 L now (jwt_print L j) other))
    \<and> isl (jwt_parse_unsecured L now (jwt_print L j)) \<and> (\<forall>key. isl (jwt_parse_rs256 L now (jwt_print L j) key))"
  by (rule parse_created [OF assms]) (auto split: option.splits)

text \<open>\<^verbatim>\<open>parse\<close> keeps the decoded signature where \<^verbatim>\<open>create\<close> keeps the encoded one: a token that was read does not print as it was.\<close>

lemma parsed_token_prints_raw_signature:
  assumes "jwt_library L" and "jwt_create_hs256 L payload secret = Inr j" and "unexpired L now payload" and "jl_parse L (jl_print L payload) = Inr payload"
    and "jwt_parse_hs256 L now (jwt_print L j) secret = Inr j'"
  shows "\<exists>sig. jl_hmac L secret (signed_part L (jw_header j) payload) = Some sig \<and> (jwt_print L j' = jwt_print L j \<longleftrightarrow> jl_encode_url L sig = sig)"
  by (rule parse_created [OF assms(1-4)]) (use assms(5) in \<open>auto simp: jwt_print_def split: if_splits\<close>)

section \<open>Endpoints\<close>

text \<open>What it is to present a name and a password, and a token: the name ends at the first colon, the password may contain more of them.\<close>

definition presents :: "('o, 'v, 'k) jwt_libs \<Rightarrow> request \<Rightarrow> string \<Rightarrow> string \<Rightarrow> bool" where
  "presents L r user password = (\<exists>b. headers_get ''Authorization'' (rq_headers r) = Some (''Basic '' @ b) \<and> CHR '' '' \<notin> set b
     \<and> jl_decode L b = Inr (user @ '':'' @ password) \<and> CHR '':'' \<notin> set user)"

definition bears :: "request \<Rightarrow> string \<Rightarrow> bool" where
  "bears r token = (headers_get ''Authorization'' (rq_headers r) = Some (''Bearer '' @ token) \<and> CHR '' '' \<notin> set token)"

lemma split_scheme:
  assumes "jwt_library L" and "CHR '' '' \<notin> set w"
  shows "(\<exists>b. h = w @ '' '' @ b \<and> CHR '' '' \<notin> set b \<and> P b) \<longleftrightarrow> length (jl_split L h CHR '' '') = 2 \<and> jl_split L h CHR '' '' ! 0 = w \<and> P (jl_split L h CHR '' '' ! 1)"
proof
  assume "\<exists>b. h = w @ '' '' @ b \<and> CHR '' '' \<notin> set b \<and> P b"
  then obtain b where "jl_split L h CHR '' '' = [w, b]" "P b" using jwt_library.split_two_iff [OF assms(1), of h "CHR '' ''" w] assms(2) by auto
  then show "length (jl_split L h CHR '' '') = 2 \<and> jl_split L h CHR '' '' ! 0 = w \<and> P (jl_split L h CHR '' '' ! 1)" by simp
next
  assume r: "length (jl_split L h CHR '' '') = 2 \<and> jl_split L h CHR '' '' ! 0 = w \<and> P (jl_split L h CHR '' '' ! 1)"
  then obtain b where "jl_split L h CHR '' '' = [w, b]" "P b" by (auto simp: length_two)
  then show "\<exists>b. h = w @ '' '' @ b \<and> CHR '' '' \<notin> set b \<and> P b" using jwt_library.split_two_iff [OF assms(1), of h "CHR '' ''" w b] by auto
qed

lemma presents_iff:
  assumes "jwt_library L" and "headers_get ''Authorization'' (rq_headers r) = Some h"
  shows "presents L r user password \<and> CHR '':'' \<notin> set password \<longleftrightarrow> length (jl_split L h CHR '' '') = 2 \<and> jl_split L h CHR '' '' ! 0 = ''Basic''
    \<and> (\<exists>d. jl_decode L (jl_split L h CHR '' '' ! 1) = Inr d \<and> jl_split L d CHR '':'' = [user, password])"
proof -
  have "presents L r user password \<and> CHR '':'' \<notin> set password \<longleftrightarrow> (\<exists>b. h = ''Basic'' @ '' '' @ b \<and> CHR '' '' \<notin> set b \<and> (\<exists>d. jl_decode L b = Inr d \<and> jl_split L d CHR '':'' = [user, password]))"
    using assms(2) by (auto simp: presents_def jwt_library.split_two_iff [OF assms(1)])
  also have "\<dots> \<longleftrightarrow> length (jl_split L h CHR '' '') = 2 \<and> jl_split L h CHR '' '' ! 0 = ''Basic''
      \<and> (\<exists>d. jl_decode L (jl_split L h CHR '' '' ! 1) = Inr d \<and> jl_split L d CHR '':'' = [user, password])"
    by (rule split_scheme [OF assms(1)]) simp
  finally show ?thesis .
qed

lemma basic_accepts:
  assumes "jwt_library L" and "presents L r user password" and "CHR '':'' \<notin> set password" and "credentials user = Some password"
  shows "basic_authenticate L realm credentials r = Inr (principal_result \<lparr>pr_value = Some user, pr_claims = []\<rparr>)"
proof -
  obtain h where h: "headers_get ''Authorization'' (rq_headers r) = Some h" using assms(2) by (auto simp: presents_def)
  then show ?thesis using presents_iff [OF assms(1) h, of user password] assms(2-4) by (auto simp: basic_authenticate_def Let_def)
qed

lemma basic_rejects:
  assumes "jwt_library L" and "\<nexists>user password. presents L r user password \<and> CHR '':'' \<notin> set password \<and> credentials user = Some password"
  shows "basic_authenticate L realm credentials r = Inr (unauthorized_result (''Basic realm=\"'' @ realm @ ''\"''))"
proof (cases "headers_get ''Authorization'' (rq_headers r)")
  case (Some h)
  let ?c = "jl_split L h CHR '' ''"
  have no: "credentials u \<noteq> Some p" if "length ?c = 2" "?c ! 0 = ''Basic''" "jl_decode L (?c ! 1) = Inr d" "jl_split L d CHR '':'' = [u, p]" for d u p
    using assms(2) presents_iff [OF assms(1) Some, of u p] that by blast
  show ?thesis
  proof (cases "length ?c \<noteq> 2 \<or> ?c ! 0 \<noteq> ''Basic''")
    case True
    then show ?thesis using Some by (auto simp: basic_authenticate_def Let_def)
  next
    case False
    then show ?thesis
    proof (cases "jl_decode L (?c ! 1)")
      case (Inr d)
      have "length (jl_split L d CHR '':'') \<noteq> 2 \<or> credentials (jl_split L d CHR '':'' ! 0) \<noteq> Some (jl_split L d CHR '':'' ! 1)"
      proof (cases "length (jl_split L d CHR '':'') = 2")
        case True
        then obtain u p where "jl_split L d CHR '':'' = [u, p]" by (auto simp: length_two)
        then show ?thesis using no [of d u p] False Inr by simp
      qed simp
      then show ?thesis using Some False Inr by (auto simp: basic_authenticate_def Let_def)
    qed (use Some False in \<open>simp add: basic_authenticate_def Let_def\<close>)
  qed
qed (simp add: basic_authenticate_def)

lemma validate_results:
  "validate (unauthorized_result c) = Inr (unauthorized_result c)"
  "pr_value p \<noteq> None \<or> pr_claims p \<noteq> [] \<Longrightarrow> validate (principal_result p) = Inr (principal_result p)"
  by (auto simp: validate_def unauthorized_result_def principal_result_def split: option.splits)

lemma endpoint_results:
  assumes "ep_realm e = Some realm" and "as realm = Some f"
  shows "f r = Inr (unauthorized_result c) \<Longrightarrow> consume_endpoint as e authorize r = AuthReply (Unauthorized c)"
    and "f r = Inr (principal_result p) \<Longrightarrow> pr_value p \<noteq> None \<or> pr_claims p \<noteq> [] \<Longrightarrow>
      consume_endpoint as e authorize r = (if \<forall>g. authorize = Some g \<longrightarrow> g r (Some p) then CallAuthenticated (ep_handler e) (Some p) else AuthReply (Forbidden ''403 Forbidden.''))"
    and "f r = Inl m \<Longrightarrow> consume_endpoint as e authorize r = AuthFailed m"
proof -
  show "f r = Inr (unauthorized_result c) \<Longrightarrow> consume_endpoint as e authorize r = AuthReply (Unauthorized c)"
    using assms by (simp add: consume_endpoint_def authenticate_def validate_results) (simp add: unauthorized_result_def)
  show "f r = Inr (principal_result p) \<Longrightarrow> pr_value p \<noteq> None \<or> pr_claims p \<noteq> [] \<Longrightarrow>
      consume_endpoint as e authorize r = (if \<forall>g. authorize = Some g \<longrightarrow> g r (Some p) then CallAuthenticated (ep_handler e) (Some p) else AuthReply (Forbidden ''403 Forbidden.''))"
    using assms validate_results(2) [of p]
    by (simp add: consume_endpoint_def authenticate_def) (auto simp: principal_result_def authorize_and_call_def split: option.splits)
  show "f r = Inl m \<Longrightarrow> consume_endpoint as e authorize r = AuthFailed m"
    using assms by (simp add: consume_endpoint_def authenticate_def)
qed

lemma unauthorized_code: "rs_code (Unauthorized c) = Some 401" "rs_code (Forbidden b) = Some 403"
  by (simp_all add: Unauthorized_def Forbidden_def Response_body_def Let_def)

lemma bearer_results:
  assumes "bears r token"
    and "jl_split L (''Bearer '' @ token) CHR '' '' = [''Bearer'', token]"
  shows "jwt_parse_hs256 L now token secret = Inl (INVALID_TOKEN, m) \<Longrightarrow> \<exists>c. jwt_authenticate L now realm secret r = Inr (unauthorized_result c)"
    and "jwt_parse_hs256 L now token secret = Inl (UNKNOWN, m) \<Longrightarrow> jwt_authenticate L now realm secret r = Inl m"
    and "jwt_parse_hs256 L now token secret = Inr j \<Longrightarrow> jl_members L (jw_payload j) = [] \<Longrightarrow> \<exists>c. jwt_authenticate L now realm secret r = Inr (unauthorized_result c)"
    and "jwt_parse_hs256 L now token secret = Inr j \<Longrightarrow> jl_members L (jw_payload j) \<noteq> [] \<Longrightarrow>
      jwt_authenticate L now realm secret r = Inr (principal_result \<lparr>pr_value = None, pr_claims = claims_of L (jw_payload j)\<rparr>)"
  using assms by (auto simp: bears_def jwt_authenticate_def bearer_error_def)

lemma no_bearer:
  assumes "jwt_library L" and "\<nexists>token. bears r token"
  shows "\<exists>c. jwt_authenticate L now realm secret r = Inr (unauthorized_result c)"
proof (cases "headers_get ''Authorization'' (rq_headers r)")
  case (Some h)
  then have "\<not> (length (jl_split L h CHR '' '') = 2 \<and> jl_split L h CHR '' '' ! 0 = ''Bearer'')"
    using split_scheme [OF assms(1), of "''Bearer''" h "\<lambda>_. True"] assms(2) by (auto simp: bears_def)
  then show ?thesis using Some by (auto simp: jwt_authenticate_def Let_def bearer_error_def)
qed (auto simp: jwt_authenticate_def)

text \<open>
  What an endpoint has to do for a request whose sender is known, or not: nobody is answered with 401, a principal that the callback allows (or for whom there is no callback)
  reaches the handler, and one that it denies is answered with 403.
\<close>

definition endpoint_outcome :: "'h endpoint \<Rightarrow> (request \<Rightarrow> principal option \<Rightarrow> bool) option \<Rightarrow> request \<Rightarrow> principal option \<Rightarrow> 'h auth_outcome \<Rightarrow> bool" where
  "endpoint_outcome e authorize r who out = (case who of
     None \<Rightarrow> (\<exists>resp. out = AuthReply resp \<and> rs_code resp = Some 401)
   | Some p \<Rightarrow> if (case authorize of None \<Rightarrow> True | Some g \<Rightarrow> g r (Some p)) then out = CallAuthenticated (ep_handler e) (Some p)
       else (\<exists>resp. out = AuthReply resp \<and> rs_code resp = Some 403))"

lemma endpoint_outcomes:
  assumes "ep_realm e = Some realm" and "as realm = Some f"
  shows "f r = Inr (unauthorized_result c) \<Longrightarrow> endpoint_outcome e authorize r None (consume_endpoint as e authorize r)"
    and "f r = Inr (principal_result p) \<Longrightarrow> pr_value p \<noteq> None \<or> pr_claims p \<noteq> [] \<Longrightarrow> endpoint_outcome e authorize r (Some p) (consume_endpoint as e authorize r)"
  using endpoint_results [where as = as and f = f, OF assms] by (auto simp: endpoint_outcome_def unauthorized_code split: option.splits)

text \<open>
  The endpoint behind each of the two authenticators. A password with a colon never authenticates, whatever the configuration says.
\<close>

lemma basic_endpoint:
  assumes "jwt_library L" and "ep_realm e = Some realm" and "as realm = Some (basic_authenticate L name credentials)"
  shows "presents L r user password \<Longrightarrow> CHR '':'' \<notin> set password \<Longrightarrow> credentials user = Some password \<Longrightarrow>
      endpoint_outcome e authorize r (Some \<lparr>pr_value = Some user, pr_claims = []\<rparr>) (consume_endpoint as e authorize r)"
    and "\<nexists>user password. presents L r user password \<and> CHR '':'' \<notin> set password \<and> credentials user = Some password \<Longrightarrow>
      endpoint_outcome e authorize r None (consume_endpoint as e authorize r)"
  using endpoint_outcomes [where as = as and f = "basic_authenticate L name credentials", OF assms(2,3)]
    basic_accepts [where credentials = credentials, OF assms(1)] basic_rejects [where credentials = credentials, OF assms(1)] by auto

lemma bears_unique: "bears r token \<Longrightarrow> bears r token' \<Longrightarrow> token = token'"
  by (simp add: bears_def)

lemma bearer_endpoint:
  assumes "jwt_library L" and "ep_realm e = Some realm" and "as realm = Some (jwt_authenticate L now name secret)"
  shows "bears r token \<Longrightarrow> jwt_parse_hs256 L now token secret = Inr j \<Longrightarrow> jl_members L (jw_payload j) \<noteq> [] \<Longrightarrow>
      endpoint_outcome e authorize r (Some \<lparr>pr_value = None, pr_claims = claims_of L (jw_payload j)\<rparr>) (consume_endpoint as e authorize r)"
    and "bears r token \<Longrightarrow> jwt_parse_hs256 L now token secret = Inl (UNKNOWN, m) \<Longrightarrow> consume_endpoint as e authorize r = AuthFailed m"
    and "\<nexists>token. bears r token \<and> ((\<exists>j. jwt_parse_hs256 L now token secret = Inr j \<and> jl_members L (jw_payload j) \<noteq> []) \<or> (\<exists>m. jwt_parse_hs256 L now token secret = Inl (UNKNOWN, m))) \<Longrightarrow>
      endpoint_outcome e authorize r None (consume_endpoint as e authorize r)"
proof -
  note out = endpoint_outcomes [where as = as and f = "jwt_authenticate L now name secret", OF assms(2,3)] endpoint_results(3) [where as = as and f = "jwt_authenticate L now name secret", OF assms(2,3)]
  have split: "jl_split L (''Bearer '' @ token) CHR '' '' = [''Bearer'', token]" if "bears r token" for token
    using that jwt_library.split_two_iff [OF assms(1), of "''Bearer '' @ token" "CHR '' ''" "''Bearer''" token] by (simp add: bears_def)
  show "bears r token \<Longrightarrow> jwt_parse_hs256 L now token secret = Inr j \<Longrightarrow> jl_members L (jw_payload j) \<noteq> [] \<Longrightarrow>
      endpoint_outcome e authorize r (Some \<lparr>pr_value = None, pr_claims = claims_of L (jw_payload j)\<rparr>) (consume_endpoint as e authorize r)"
    using out(2) bearer_results(4) [OF _ split] by (auto simp: claims_of_def)
  show "bears r token \<Longrightarrow> jwt_parse_hs256 L now token secret = Inl (UNKNOWN, m) \<Longrightarrow> consume_endpoint as e authorize r = AuthFailed m"
    using out(3) bearer_results(2) [OF _ split] by auto
  assume no: "\<nexists>token. bears r token \<and> ((\<exists>j. jwt_parse_hs256 L now token secret = Inr j \<and> jl_members L (jw_payload j) \<noteq> []) \<or> (\<exists>m. jwt_parse_hs256 L now token secret = Inl (UNKNOWN, m)))"
  have "\<exists>c. jwt_authenticate L now name secret r = Inr (unauthorized_result c)"
  proof (cases "\<exists>token. bears r token")
    case True
    then obtain token where t: "bears r token" by blast
    show ?thesis
    proof (cases "jwt_parse_hs256 L now token secret")
      case (Inl e)
      then obtain m where "jwt_parse_hs256 L now token secret = Inl (INVALID_TOKEN, m)" using no t by (cases e; cases "fst e") auto
      then show ?thesis using bearer_results(1) [OF t split] t by blast
    next
      case (Inr j)
      then show ?thesis using bearer_results(3) [OF t split] no t by blast
    qed
  qed (use no_bearer [OF assms(1)] in blast)
  then show "endpoint_outcome e authorize r None (consume_endpoint as e authorize r)" using out(1) by blast
qed

text \<open>C24.
  What an endpoint does behind each of the two authenticators. With basic authentication a request that presents the name and the password of a credential (the password
  without a colon: the code splits at every colon, so others never authenticate) reaches the handler with that principal if the authorization callback is absent or allows it, and is answered with
  403 if the callback denies it; every other request is answered with 401. With tokens it is the same for requests that bear a token with header HS256, an unexpired payload with at least
  one claim and the right signature; a token of that form for which OpenSSL cannot compute the HMAC makes the request fail, with no 401 and no 403, and every other request is answered with 401.
\<close>

theorem endpoints_require_credentials:
  assumes "jwt_library L" and "ep_realm e = Some realm" and "as realm = Some (basic_authenticate L name credentials)" and "as' realm = Some (jwt_authenticate L now name secret)"
  shows "(\<forall>user password. presents L r user password \<and> CHR '':'' \<notin> set password \<and> credentials user = Some password \<longrightarrow>
      endpoint_outcome e authorize r (Some \<lparr>pr_value = Some user, pr_claims = []\<rparr>) (consume_endpoint as e authorize r))
  \<and> ((\<nexists>user password. presents L r user password \<and> CHR '':'' \<notin> set password \<and> credentials user = Some password) \<longrightarrow>
      endpoint_outcome e authorize r None (consume_endpoint as e authorize r))
  \<and> (\<forall>token a b j. bears r token \<and> hs256_token L now token a b j \<and> jl_hmac L secret (a @ ''.'' @ b) = jw_signature j \<and> jl_members L (jw_payload j) \<noteq> [] \<longrightarrow>
      endpoint_outcome e authorize r (Some \<lparr>pr_value = None, pr_claims = claims_of L (jw_payload j)\<rparr>) (consume_endpoint as' e authorize r))
  \<and> (\<forall>token a b j. bears r token \<and> hs256_token L now token a b j \<and> jl_hmac L secret (a @ ''.'' @ b) = None \<longrightarrow> (\<exists>m. consume_endpoint as' e authorize r = AuthFailed m))
  \<and> ((\<nexists>token a b j. bears r token \<and> hs256_token L now token a b j \<and> (jl_hmac L secret (a @ ''.'' @ b) = None \<or> jl_hmac L secret (a @ ''.'' @ b) = jw_signature j \<and> jl_members L (jw_payload j) \<noteq> [])) \<longrightarrow>
      endpoint_outcome e authorize r None (consume_endpoint as' e authorize r))"
proof -
  note basic = basic_endpoint [where as = as and credentials = credentials, OF assms(1,2,3)] and bearer = bearer_endpoint [where as = as', OF assms(1,2,4)]
  note ok = parse_hs256_iff [OF assms(1), of now _ secret] and unknown = parse_hs256_unknown [OF assms(1), of now _ secret]
  have "\<exists>m. consume_endpoint as' e authorize r = AuthFailed m" if "bears r token" "hs256_token L now token a b j" "jl_hmac L secret (a @ ''.'' @ b) = None" for token a b j
    using that unknown [of token] bearer(2) [OF that(1)] by blast
  moreover have "endpoint_outcome e authorize r (Some \<lparr>pr_value = None, pr_claims = claims_of L (jw_payload j)\<rparr>) (consume_endpoint as' e authorize r)"
    if "bears r token" "hs256_token L now token a b j" "jl_hmac L secret (a @ ''.'' @ b) = jw_signature j" "jl_members L (jw_payload j) \<noteq> []" for token a b j
    using that ok [of token j] bearer(1) [OF that(1) _ that(4)] by blast
  moreover have "endpoint_outcome e authorize r None (consume_endpoint as' e authorize r)"
    if "\<nexists>token a b j. bears r token \<and> hs256_token L now token a b j \<and> (jl_hmac L secret (a @ ''.'' @ b) = None \<or> jl_hmac L secret (a @ ''.'' @ b) = jw_signature j \<and> jl_members L (jw_payload j) \<noteq> [])"
    by (rule bearer(3)) (use that ok unknown in blast)
  ultimately show ?thesis using basic by blast
qed

section \<open>Concrete parameters\<close>

text \<open>Percent-encoding in place of base64, objects as lists of members that are written one after the other, and a signature that contains the message.\<close>

fun ref_split :: "char \<Rightarrow> string \<Rightarrow> string list" where
  "ref_split c [] = [[]]"
| "ref_split c (x # xs) = (if x = c then [] # ref_split c xs else (case ref_split c xs of [] \<Rightarrow> [[x]] | y # ys \<Rightarrow> (x # y) # ys))"

type_synonym ref_value = "char \<times> string"

definition ref_print :: "(string \<times> ref_value) list \<Rightarrow> string" where
  "ref_print kvs = concat (map (\<lambda>(k, t, v). http_encode [] k @ '';'' @ http_encode [] (t # v) @ '';'') kvs)"

fun ref_members :: "string list \<Rightarrow> string + (string \<times> ref_value) list" where
  "ref_members (k # v # rest) = (case (http_decode k, http_decode v, ref_members rest) of
     (Inr k', Inr (t # v'), Inr kvs) \<Rightarrow> Inr ((k', t, v') # kvs) | _ \<Rightarrow> Inl ''bad member'')"
| "ref_members [[]] = Inr []"
| "ref_members _ = Inl ''bad object''"

definition ref_jwt :: "((string \<times> ref_value) list, ref_value, string) jwt_libs" where
  "ref_jwt = \<lparr>
     jl_split = (\<lambda>s c. ref_split c s),
     jl_decode = (\<lambda>s. case http_decode s of Inl _ \<Rightarrow> Inl ''malformed'' | Inr x \<Rightarrow> Inr x),
     jl_decode_url = (\<lambda>s. case http_decode s of Inl _ \<Rightarrow> Inl ''malformed'' | Inr x \<Rightarrow> Inr x),
     jl_encode_url = http_encode ''.'',
     jl_parse = (\<lambda>s. ref_members (ref_split CHR '';'' s)),
     jl_print = ref_print,
     jl_object = map (\<lambda>(k, v). (k, CHR ''s'', v)),
     jl_find = (\<lambda>obj k. case map_of obj k of None \<Rightarrow> Missing | Some v \<Rightarrow> Found v),
     jl_members = (\<lambda>obj. obj),
     jl_string = (\<lambda>(t, v). if t = CHR ''s'' then Some v else None),
     jl_number = (\<lambda>(t, v). if t = CHR ''n'' then Some (int (undec v)) else None),
     jl_print_value = snd,
     jl_hmac = (\<lambda>k m. Some (k @ '':'' @ m)),
     jl_sha256 = (\<lambda>m. m),
     jl_rsa_sign = (\<lambda>k m. Some (k @ '':'' @ m)),
     jl_rsa_verify = (\<lambda>k m s. s = k @ '':'' @ m),
     jl_reason = None\<rparr>"

lemma ref_split_clean: "c \<notin> set x \<Longrightarrow> ref_split c x = [x]" "c \<notin> set x \<Longrightarrow> ref_split c (x @ c # s) = x # ref_split c s"
  by (induction x) auto

lemma ref_split_pieces: "xs \<noteq> [] \<Longrightarrow> (\<And>x. x \<in> set xs \<Longrightarrow> c \<notin> set x) \<Longrightarrow> ref_split c (pieces c xs) = xs"
  by (induction c xs rule: pieces.induct) (auto simp: ref_split_clean)

lemma encode_no_semicolon: "CHR '';'' \<notin> set (http_encode [] s)"
  using encode_clean [of "CHR '';''" "[]" s] by (auto simp: reserved_def)

lemma encode_no_dot: "CHR ''.'' \<notin> set (http_encode ''.'' s)"
proof -
  have "hex_digit n \<noteq> CHR ''.''" if "n < 16" for n
  proof -
    have "\<forall>n\<in>set [0..<16]. hex_digit n \<noteq> CHR ''.''" by code_simp
    then show ?thesis using that by simp
  qed
  moreover have "(of_char c :: nat) div 16 < 16" for c using byte [of c] by (simp add: less_mult_imp_div_less)
  ultimately have "hex_digit (of_char c div 16) \<noteq> CHR ''.''" "hex_digit (of_char c mod 16) \<noteq> CHR ''.''" for c by simp_all
  then have "CHR ''.'' \<notin> set (encode_char ''.'' c)" for c by (simp add: encode_char_def escape_def not_sym)
  then show ?thesis by (simp add: http_encode_def)
qed

lemma ref_members_print: "ref_members (ref_split CHR '';'' (ref_print kvs)) = Inr kvs"
proof (induction kvs)
  case (Cons m kvs)
  obtain k t v where "m = (k, t, v)" by (cases m)
  then show ?case using Cons encode_no_semicolon [of k] encode_no_semicolon [of "t # v"] by (simp add: ref_print_def ref_split_clean decode_encode)
qed (simp add: ref_print_def)

interpretation rj: jwt_library ref_jwt
proof unfold_locales
  fix xs :: "string list" and c
  assume "xs \<noteq> []" "\<And>x. x \<in> set xs \<Longrightarrow> c \<notin> set x"
  then show "jl_split ref_jwt (pieces c xs) c = xs" using ref_split_pieces by (simp add: ref_jwt_def)
next
  fix kvs :: "(string \<times> string) list" and k s :: string
  have m: "map_of (map (\<lambda>(k, v). (k, CHR ''s'', v)) kvs) k = map_option (Pair CHR ''s'') (map_of kvs k)" by (induction kvs) auto
  then show "map_of kvs k = Some s \<Longrightarrow> \<exists>v. jl_find ref_jwt (jl_object ref_jwt kvs) k = Found v \<and> jl_string ref_jwt v = Some s" by (simp add: ref_jwt_def)
  show "map_of kvs k = None \<Longrightarrow> jl_find ref_jwt (jl_object ref_jwt kvs) k = Missing" using m by (simp add: ref_jwt_def)
qed (simp_all add: ref_jwt_def decode_encode encode_no_dot ref_members_print)

definition sample_payload :: "(string \<times> ref_value) list" where
  "sample_payload = [(''sub'', CHR ''s'', ''me''), (''exp'', CHR ''n'', ''9'')]"

lemma ref_hmac: "jl_hmac ref_jwt k m = Some (k @ '':'' @ m)"
  by (simp add: ref_jwt_def)

lemma sample_created: "\<exists>j. jwt_create_hs256 ref_jwt sample_payload ''key'' = Inr j"
  by (simp add: jwt_create_hs256_def generate_hmac_sha256_def ref_hmac Let_def)

lemma sample_unexpired: "unexpired ref_jwt 5 sample_payload"
  by code_simp

lemma sample_parsed: "jl_parse ref_jwt (jl_print ref_jwt sample_payload) = Inr sample_payload"
  using ref_members_print [of sample_payload] by (simp add: ref_jwt_def)

theorem created_tokens_are_accepted_witness:
  "\<exists>j. jwt_create_hs256 ref_jwt sample_payload ''key'' = Inr j \<and> \<not> isl (jwt_parse_hs256 ref_jwt 5 (jwt_print ref_jwt j) ''key'') \<and> isl (jwt_parse_unsecured ref_jwt 5 (jwt_print ref_jwt j))"
proof -
  obtain j where j: "jwt_create_hs256 ref_jwt sample_payload ''key'' = Inr j" using sample_created by blast
  then show ?thesis using created_tokens_are_accepted [OF rj.jwt_library_axioms j sample_unexpired sample_parsed] by auto
qed

theorem accepted_tokens_are_signed_witness:
  "\<exists>j token a b d. jwt_parse_hs256 ref_jwt 5 token ''key'' = Inr j \<and> token = a @ ''.'' @ b @ ''.'' @ d \<and> jl_decode_url ref_jwt d = Inr (''key:'' @ a @ ''.'' @ b)"
proof -
  obtain j where j: "jwt_create_hs256 ref_jwt sample_payload ''key'' = Inr j" using sample_created by blast
  obtain j' where "jwt_parse_hs256 ref_jwt 5 (jwt_print ref_jwt j) ''key'' = Inr j'" by (rule parse_created [OF rj.jwt_library_axioms j sample_unexpired sample_parsed]) simp
  then show ?thesis using accepted_tokens_are_signed [OF rj.jwt_library_axioms, of 5 "jwt_print ref_jwt j" "''key''" j'] unfolding ref_hmac
    by (elim iffD1 [elim_format] exE conjE) (auto intro!: exI [of _ j'])
qed

definition basic_request :: request where
  "basic_request = demo_request\<lparr>rq_headers := [(''Authorization'', ''Basic me%3Apw'')]\<rparr>"

definition private_endpoint :: "bool endpoint" where
  "private_endpoint = \<lparr>ep_realm = Some ''r'', ep_handler = True, ep_streaming = False\<rparr>"

lemma basic_request_presents: "presents ref_jwt basic_request ''me'' ''pw''"
proof -
  have "jl_decode ref_jwt ''me%3Apw'' = Inr ''me:pw''" "headers_get ''Authorization'' (rq_headers basic_request) = Some ''Basic me%3Apw''" by code_simp+
  then show ?thesis unfolding presents_def by (intro exI [of _ "''me%3Apw''"]) simp
qed

theorem endpoints_require_credentials_witness:
  "consume_endpoint [''r'' \<mapsto> basic_authenticate ref_jwt ''r'' [''me'' \<mapsto> ''pw'']] private_endpoint None basic_request = CallAuthenticated True (Some \<lparr>pr_value = Some ''me'', pr_claims = []\<rparr>)
    \<and> (\<exists>resp. consume_endpoint [''r'' \<mapsto> basic_authenticate ref_jwt ''r'' [''me'' \<mapsto> ''pw'']] private_endpoint (Some (\<lambda>r p. False)) basic_request = AuthReply resp \<and> rs_code resp = Some 403)"
proof -
  let ?as = "[''r'' \<mapsto> basic_authenticate ref_jwt ''r'' [''me'' \<mapsto> ''pw'']]" and ?bs = "[''r'' \<mapsto> jwt_authenticate ref_jwt 5 ''r'' ''key'']"
  have a: "ep_realm private_endpoint = Some ''r''" "?as ''r'' = Some (basic_authenticate ref_jwt ''r'' [''me'' \<mapsto> ''pw''])" "?bs ''r'' = Some (jwt_authenticate ref_jwt 5 ''r'' ''key'')"
    by (simp_all add: private_endpoint_def)
  have "endpoint_outcome private_endpoint authorize basic_request (Some \<lparr>pr_value = Some ''me'', pr_claims = []\<rparr>) (consume_endpoint ?as private_endpoint authorize basic_request)" for authorize
    using endpoints_require_credentials [where as = ?as and as' = ?bs and authorize = authorize and r = basic_request, OF rj.jwt_library_axioms a] basic_request_presents by simp
  from this [of None] this [of "Some (\<lambda>r p. False)"] show ?thesis by (simp add: endpoint_outcome_def private_endpoint_def)
qed

text \<open>A password with a colon can be configured but is never accepted.\<close>

lemma password_with_colon_is_rejected:
  "basic_authenticate ref_jwt ''r'' [''me'' \<mapsto> ''p:w''] (demo_request\<lparr>rq_headers := [(''Authorization'', ''Basic me%3Ap%3Aw'')]\<rparr>)
    = Inr (unauthorized_result ''Basic realm=\"r\"'')"
  by code_simp

end
