(* ===== verification/Memory_Profiling.thy ===== *)
theory Memory_Profiling
  imports Http_Messages
begin

text \<open>
  The memory profiler (\<^verbatim>\<open>src/memory_profiler.cpp\<close>): the endpoints that start and stop a run of jemalloc's heap profiler and serve the files made from it. What the system answers to
  a call (jemalloc, the file system, \<^verbatim>\<open>jeprof\<close>, the clock) is the environment of that call. A timer is armed, dispatched to the process, or gone. Files hold the data of a run,
  by its number, or something else.
\<close>

section \<open>State\<close>

datatype disk_file = Absent | Unusable | Data nat

record profiler_env =
  pe_write_active :: "bool \<Rightarrow> string option"
  pe_read_active :: "string option"
  pe_mkdtemp :: "string + string"
  pe_os_write :: "string option"
  pe_stat_size :: "string + int"
  pe_dump :: "string option"
  pe_jeprof :: bool
  pe_parse_duration :: "string \<Rightarrow> string + int"
  pe_print_duration :: "int \<Rightarrow> string"
  pe_now :: int
  pe_remaining :: string

record profiling_run =
  rn_id :: int
  rn_timer :: nat
  rn_no :: nat

record artifact =
  ar_path :: string
  ar_id :: int
  ar_no :: nat

record profiler =
  mp_run :: "profiling_run option"
  mp_raw :: "string + artifact"
  mp_symbolized :: "string + artifact"
  mp_graph :: "string + artifact"
  mp_tmpdir :: "string option"
  mp_active :: bool
  mp_armed :: "nat list"
  mp_dispatched :: "nat list"
  mp_timers :: nat
  mp_files :: "string \<Rightarrow> disk_file"
  mp_ids :: "int list"

definition profiler_new :: "bool \<Rightarrow> profiler" where
  "profiler_new active = \<lparr>mp_run = None, mp_raw = Inl ''Not yet generated'', mp_symbolized = Inl ''Not yet generated'', mp_graph = Inl ''Not yet generated'', mp_tmpdir = None,
     mp_active = active, mp_armed = [], mp_dispatched = [], mp_timers = 0, mp_files = (\<lambda>_. Absent), mp_ids = []\<rparr>"

section \<open>jemalloc, timers and files\<close>

definition text_lines :: "string list \<Rightarrow> string" where
  "text_lines ls = concat (map (\<lambda>l. CHR 0x0A # l) ls)"

definition JEMALLOC_NOT_DETECTED_MESSAGE :: string where
  "JEMALLOC_NOT_DETECTED_MESSAGE = text_lines [''The current binary doesn't seem to be linked against jemalloc,'',
     ''or the currently used jemalloc library was compiled without'', ''support for statistics collection.'', [],
     ''If the current binary was not compiled against jemalloc,'', ''consider adding the path to libjemalloc to the LD_PRELOAD'',
     ''environment variable, for example LD_PRELOAD=/usr/lib/libjemalloc.so'', [], ''If you're running a mesos binary and want to have it linked'',
     ''against jemalloc by default, consider using the'', ''--enable-jemalloc-allocator configuration option'']"

definition JEMALLOC_PROFILING_NOT_ENABLED_MESSAGE :: string where
  "JEMALLOC_PROFILING_NOT_ENABLED_MESSAGE = text_lines [''The current process seems to be using jemalloc, but profiling'', ''couldn't be enabled.'', [],
     ''If you're using a custom version of libjemalloc, make sure that'', ''MALLOC_CONF=\"prof:true\" is part of the environment. (The '/state'' @ [CHR 0x27],
     ''endpoint can be used to double-check the current malloc'', ''configuration).'', [], ''If the environment looks correct, make sure jemalloc was built'',
     ''with the --enable-stats and --enable-prof options enabled.'', [], ''If you're running a mesos binary that was built with the'',
     ''--enable-memory-profiling option enabled and you're still seeing'', ''this message, please consider filing a bug report'']"

definition newline :: string where
  "newline = [CHR ''.'', CHR 0x0A]"

definition readJemallocSetting :: "bool \<Rightarrow> profiler_env \<Rightarrow> profiler \<Rightarrow> string + bool" where
  "readJemallocSetting det E st =
    (if \<not> det then Inl JEMALLOC_NOT_DETECTED_MESSAGE
     else case pe_read_active E of Some e \<Rightarrow> Inl (''Couldn't read option prof.active: '' @ e) | None \<Rightarrow> Inr (mp_active st))"

definition updateJemallocSetting :: "bool \<Rightarrow> profiler_env \<Rightarrow> bool \<Rightarrow> profiler \<Rightarrow> (string + bool) \<times> profiler" where
  "updateJemallocSetting det E b st =
    (if \<not> det then (Inl JEMALLOC_NOT_DETECTED_MESSAGE, st)
     else case pe_write_active E b of
       Some e \<Rightarrow> (Inl (''Couldn't write value '' @ (if b then ''true'' else ''false'') @ '' for option prof.active: '' @ e), st)
     | None \<Rightarrow> (Inr (mp_active st), st\<lparr>mp_active := b\<rparr>))"

definition delay_stop :: "profiler \<Rightarrow> profiler" where
  "delay_stop st = st\<lparr>mp_armed := mp_armed st @ [mp_timers st], mp_timers := Suc (mp_timers st)\<rparr>"

definition cancel_timer :: "nat \<Rightarrow> profiler \<Rightarrow> profiler" where
  "cancel_timer t st = st\<lparr>mp_armed := removeAll t (mp_armed st)\<rparr>"

definition new_run :: "int \<Rightarrow> profiler \<Rightarrow> profiler" where
  "new_run i st = (delay_stop st)\<lparr>mp_run := Some \<lparr>rn_id = i, rn_timer = mp_timers st, rn_no = length (mp_ids st)\<rparr>, mp_ids := mp_ids st @ [i]\<rparr>"

definition extend_run :: "profiling_run \<Rightarrow> profiler \<Rightarrow> profiler" where
  "extend_run r st = (delay_stop (cancel_timer (rn_timer r) st))\<lparr>mp_run := Some (r\<lparr>rn_timer := mp_timers st\<rparr>)\<rparr>"

definition getTemporaryDirectoryPath :: "profiler_env \<Rightarrow> profiler \<Rightarrow> (string + string) \<times> profiler" where
  "getTemporaryDirectoryPath E st = (case mp_tmpdir st of
     Some d \<Rightarrow> (Inr d, st)
   | None \<Rightarrow> (case pe_mkdtemp E of Inl e \<Rightarrow> (Inl e, st) | Inr d \<Rightarrow> (Inr d, st\<lparr>mp_tmpdir := Some d\<rparr>)))"

type_synonym files = "string \<Rightarrow> disk_file"

definition artifact_create ::
    "(string \<Rightarrow> string \<Rightarrow> string) \<Rightarrow> profiler_env \<Rightarrow> string \<Rightarrow> int \<Rightarrow> nat \<Rightarrow> (string \<Rightarrow> files \<Rightarrow> (string + unit) \<times> files) \<Rightarrow> profiler \<Rightarrow> (string + artifact) \<times> profiler" where
  "artifact_create join E filename i no generator st = (case getTemporaryDirectoryPath E st of
     (Inl e, st1) \<Rightarrow> (Inl (''Could not determine target path: '' @ e), st1)
   | (Inr d, st1) \<Rightarrow> (case generator (join d filename) (mp_files st1) of
       (Inl e, fs) \<Rightarrow> (Inl (''Failed to create artifact: '' @ e), st1\<lparr>mp_files := fs\<rparr>)
     | (Inr _, fs) \<Rightarrow> (Inr \<lparr>ar_path = join d filename, ar_id = i, ar_no = no\<rparr>, st1\<lparr>mp_files := fs\<rparr>)))"

definition DUMMY_FILE_SIZE :: int where
  "DUMMY_FILE_SIZE = 64 * 1024"

definition raw_generator :: "profiler_env \<Rightarrow> nat \<Rightarrow> string \<Rightarrow> files \<Rightarrow> (string + unit) \<times> files" where
  "raw_generator E no outputPath fs = (case pe_os_write E of
     Some e \<Rightarrow> (Inl e, fs(outputPath := Unusable))
   | None \<Rightarrow>
       if pe_stat_size E \<noteq> Inr DUMMY_FILE_SIZE then (Inl (''Couldn't verify integrity of dump file '' @ outputPath), fs(outputPath := Unusable))
       else (case pe_dump E of
         Some e \<Rightarrow> (Inl (''Couldn't write value '' @ outputPath @ '' for option prof.dump: '' @ e), fs(outputPath := Unusable))
       | None \<Rightarrow> (Inr (), fs(outputPath := Data no))))"

text \<open>\<^verbatim>\<open>jeprof\<close> fails on a file that is not a profile.\<close>

definition generateJeprofFile :: "profiler_env \<Rightarrow> string \<Rightarrow> string \<Rightarrow> files \<Rightarrow> (string + unit) \<times> files" where
  "generateJeprofFile E inputPath outputPath fs = (case fs inputPath of
     Data n \<Rightarrow> if pe_jeprof E then (Inr (), fs(outputPath := Data n)) else (Inl ''Error trying to run jeprof. Please make sure that jeprof is installed and that the input file contains data. For more information, please consult the log files of this process'', fs(outputPath := Unusable))
   | _ \<Rightarrow> (Inl ''Error trying to run jeprof. Please make sure that jeprof is installed and that the input file contains data. For more information, please consult the log files of this process'', fs(outputPath := Unusable)))"

definition RAW_PROFILE_FILENAME :: string where
  "RAW_PROFILE_FILENAME = ''profile.dump''"

definition SYMBOLIZED_PROFILE_FILENAME :: string where
  "SYMBOLIZED_PROFILE_FILENAME = ''symbolized-profile.dump''"

definition GRAPH_FILENAME :: string where
  "GRAPH_FILENAME = ''profile.svg''"

section \<open>Stopping a run\<close>

text \<open>None: a \<^verbatim>\<open>CHECK\<close> or \<^verbatim>\<open>ASSERT\<close> fails.\<close>

definition stopAndGenerateRawProfile :: "(string \<Rightarrow> string \<Rightarrow> string) \<Rightarrow> bool \<Rightarrow> profiler_env \<Rightarrow> profiler \<Rightarrow> profiler option" where
  "stopAndGenerateRawProfile join det E st =
    (if \<not> det then None
     else case mp_run st of
       None \<Rightarrow> Some st
     | Some r \<Rightarrow> (case updateJemallocSetting det E False st of
         (Inl e, st1) \<Rightarrow> Some (extend_run r st1)
       | (Inr stopped, st1) \<Rightarrow>
           if readJemallocSetting det E st1 = Inr True then None
           else let st2 = (cancel_timer (rn_timer r) st1)\<lparr>mp_run := None\<rparr> in
             if \<not> stopped then Some st2
             else (case artifact_create join E RAW_PROFILE_FILENAME (rn_id r) (rn_no r) (raw_generator E (rn_no r)) st2 of
               (a, st3) \<Rightarrow> Some (st3\<lparr>mp_raw := a\<rparr>))))"

section \<open>Endpoints\<close>

text \<open>A JSON response is the list of its members.\<close>

datatype profiler_reply = Reply response | ReplyJson "(string \<times> string) list"

definition Conflict :: "string \<Rightarrow> response" where
  "Conflict body = Response_body body 409 text_plain"

definition MINIMUM_COLLECTION_TIME :: int where
  "MINIMUM_COLLECTION_TIME = 1000000000"

definition DEFAULT_COLLECTION_TIME :: int where
  "DEFAULT_COLLECTION_TIME = 5 * 60 * 1000000000"

definition MAXIMUM_COLLECTION_TIME :: int where
  "MAXIMUM_COLLECTION_TIME = 24 * 60 * 60 * 1000000000"

definition start_duration :: "profiler_env \<Rightarrow> request \<Rightarrow> string + int" where
  "start_duration E r = (case rq_query r ''duration'' of
     None \<Rightarrow> Inr DEFAULT_COLLECTION_TIME
   | Some p \<Rightarrow> (case pe_parse_duration E p of Inl e \<Rightarrow> Inl (''Could not parse parameter 'duration': '' @ e @ newline) | Inr d \<Rightarrow> Inr d))"

definition profiler_start :: "bool \<Rightarrow> profiler_env \<Rightarrow> request \<Rightarrow> profiler \<Rightarrow> profiler_reply \<times> profiler" where
  "profiler_start det E r st =
    (if \<not> det then (Reply (BadRequest (JEMALLOC_NOT_DETECTED_MESSAGE @ newline)), st)
     else case start_duration E r of
       Inl e \<Rightarrow> (Reply (BadRequest e), st)
     | Inr d \<Rightarrow>
         if d < MINIMUM_COLLECTION_TIME \<or> d > MAXIMUM_COLLECTION_TIME
         then (Reply (BadRequest (''Duration '' @ quoted (pe_print_duration E d) @ '' must be between '' @ pe_print_duration E MINIMUM_COLLECTION_TIME @ '' and ''
                @ pe_print_duration E MAXIMUM_COLLECTION_TIME @ newline)), st)
         else (case updateJemallocSetting det E True st of
           (Inl _, st1) \<Rightarrow> (Reply (BadRequest (JEMALLOC_PROFILING_NOT_ENABLED_MESSAGE @ newline)), st1)
         | (Inr wasActive, st1) \<Rightarrow> let st2 = (if wasActive then st1 else new_run (pe_now E) st1) in
             (case mp_run st2 of
               None \<Rightarrow> (Reply (Conflict (''Heap profiling was started externally'' @ newline)), st2)
             | Some c \<Rightarrow> (ReplyJson [(''remaining_seconds'', pe_remaining E),
                 (''message'', (if wasActive then ''Heap profiling is already active.'' else ''Successfully started new heap profiling run.'')
                    @ '' After the remaining time elapses, download the generated profile at '/memory-profiler/download/raw?id='' @ int_print (rn_id c)
                    @ [CHR 0x27] @ ''. Visit '/memory-profiler/stop' to stop collection earlier.''),
                 (''id'', int_print (rn_id c))], st2))))"

definition profiler_stop :: "(string \<Rightarrow> string \<Rightarrow> string) \<Rightarrow> bool \<Rightarrow> profiler_env \<Rightarrow> profiler \<Rightarrow> (profiler_reply \<times> profiler) option" where
  "profiler_stop join det E st =
    (if \<not> det then Some (Reply (BadRequest (JEMALLOC_NOT_DETECTED_MESSAGE @ newline)), st)
     else case readJemallocSetting det E st of
       Inl e \<Rightarrow> Some (Reply (BadRequest (''Error interfacing with jemalloc: '' @ e @ newline)), st)
     | Inr active \<Rightarrow>
         if mp_run st = None \<and> active
         then Some (Reply (BadRequest (''Profiling is active, but was not started by libprocess. Accessing the raw profile through libprocess is currently not supported'' @ newline)), st)
         else (case stopAndGenerateRawProfile join det E st of
           None \<Rightarrow> None
         | Some st1 \<Rightarrow> (case mp_raw st1 of
             Inl e \<Rightarrow> Some (Reply (BadRequest (e @ newline)), st1)
           | Inr a \<Rightarrow>
               if readJemallocSetting det E st1 = Inr True then None
               else Some (ReplyJson [(''id'', int_print (ar_id a)),
                 (''message'', ''Successfully stopped memory profiling run. Use one of the provided URLs to download results. Note that in order to generate graphs or symbolized profiles, jeprof must be installed on the host machine and generation of these files can take several minutes.''),
                 (''url_raw_profile'', ''/memory-profiler/download/raw?id='' @ int_print (ar_id a)),
                 (''url_graph_profile'', ''/memory-profiler/download/graph?id='' @ int_print (ar_id a)),
                 (''url_symbolized_profile'', ''/memory-profiler/download/text?id='' @ int_print (ar_id a))], st1))))"

text \<open>\<^verbatim>\<open>strtoll\<close> in base 10: the value, or the error that it is out of range, and what is left of the string.\<close>

definition is_space :: "char \<Rightarrow> bool" where
  "is_space c = (let n = of_char c :: nat in (9 \<le> n \<and> n \<le> 13) \<or> n = 32)"

definition is_digit :: "char \<Rightarrow> bool" where
  "is_digit c = (let n = of_char c :: nat in 48 \<le> n \<and> n \<le> 57)"

definition strtoll :: "string \<Rightarrow> (string + int) \<times> string" where
  "strtoll s = (let t = dropWhile is_space s;
       neg = (take 1 t = ''-'');
       u = (if take 1 t = ''-'' \<or> take 1 t = ''+'' then drop 1 t else t);
       ds = takeWhile is_digit u;
       v = (if neg then - int (undec ds) else int (undec ds))
     in if ds = [] then (Inr 0, s)
        else (if v < - (2 ^ 63) \<or> v \<ge> 2 ^ 63 then Inl ''Numerical result out of range'' else Inr v, dropWhile is_digit u))"

definition extractIdFromRequest :: "request \<Rightarrow> string + int option" where
  "extractIdFromRequest r = (case rq_query r ''id'' of
     None \<Rightarrow> Inr None
   | Some p \<Rightarrow> (case strtoll p of
       (Inl e, _) \<Rightarrow> Inl e
     | (Inr v, rest) \<Rightarrow> if rest \<noteq> [] then Inl ''Garbage after parsed id'' else Inr (Some v)))"

definition artifact_http :: "files \<Rightarrow> artifact \<Rightarrow> response" where
  "artifact_http fs a =
    (if fs (ar_path a) = Absent then BadRequest (''Requested file was deleted from local disk'' @ newline)
     else (Response_code 200)\<lparr>rs_type := RespPath, rs_path := ar_path a,
       rs_headers := headers_set ''Content-Disposition'' (''attachment; filename='' @ ar_path a) (headers_set ''Content-Type'' ''application/octet-stream'' [])\<rparr>)"

text \<open>The checks before a download: the raw profile, or a reply. \<open>what\<close> begins the message when there is none.\<close>

definition requested_profile :: "string \<Rightarrow> request \<Rightarrow> profiler \<Rightarrow> response + artifact" where
  "requested_profile what r st = (case extractIdFromRequest r of
     Inl e \<Rightarrow> Inl (BadRequest (''Invalid parameter 'id': '' @ e @ newline))
   | Inr i \<Rightarrow>
       if mp_run st \<noteq> None \<and> i = None
       then Inl (BadRequest (''A profiling run is currently in progress. To download results of the previous run, please pass an 'id' explicitly'' @ newline))
       else (case mp_raw st of
         Inl e \<Rightarrow> Inl (BadRequest (what @ e @ newline))
       | Inr a \<Rightarrow> if i \<noteq> None \<and> i \<noteq> Some (ar_id a) then Inl (BadRequest (''Cannot serve requested id #'' @ int_print (the i) @ newline)) else Inr a))"

definition downloadRawProfile :: "request \<Rightarrow> profiler \<Rightarrow> response" where
  "downloadRawProfile r st = (case requested_profile ''Cannot access raw profile: '' r st of
     Inl resp \<Rightarrow> resp
   | Inr a \<Rightarrow> artifact_http (mp_files st) a)"

definition stale :: "string + artifact \<Rightarrow> artifact \<Rightarrow> bool" where
  "stale x a = (case x of Inl _ \<Rightarrow> True | Inr b \<Rightarrow> ar_id b \<noteq> ar_id a)"

definition artifact_reply :: "string + artifact \<Rightarrow> profiler \<Rightarrow> response" where
  "artifact_reply x st = (case x of
     Inr b \<Rightarrow> artifact_http (mp_files st) b
   | Inl e \<Rightarrow> BadRequest (''Cannot generate file: '' @ e @ newline))"

definition downloadSymbolizedProfile :: "(string \<Rightarrow> string \<Rightarrow> string) \<Rightarrow> profiler_env \<Rightarrow> request \<Rightarrow> profiler \<Rightarrow> response \<times> profiler" where
  "downloadSymbolizedProfile join E r st = (case requested_profile ''No source profile exists: '' r st of
     Inl resp \<Rightarrow> (resp, st)
   | Inr a \<Rightarrow> let st1 = (if stale (mp_symbolized st) a
         then (case artifact_create join E SYMBOLIZED_PROFILE_FILENAME (ar_id a) (ar_no a) (generateJeprofFile E (ar_path a)) st of (x, st') \<Rightarrow> st'\<lparr>mp_symbolized := x\<rparr>)
         else st)
       in (artifact_reply (mp_symbolized st1) st1, st1))"

definition downloadGraphProfile :: "(string \<Rightarrow> string \<Rightarrow> string) \<Rightarrow> profiler_env \<Rightarrow> request \<Rightarrow> profiler \<Rightarrow> response \<times> profiler" where
  "downloadGraphProfile join E r st = (case requested_profile ''No source profile exists: '' r st of
     Inl resp \<Rightarrow> (resp, st)
   | Inr a \<Rightarrow> let st1 = (if stale (mp_graph st) a
         then (case artifact_create join E GRAPH_FILENAME (ar_id a) (ar_no a) (generateJeprofFile E (ar_path a)) st of (x, st') \<Rightarrow> st'\<lparr>mp_graph := x\<rparr>)
         else st)
       in (artifact_reply (mp_graph st1) st1, st1))"

section \<open>Runs\<close>

datatype profiler_event =
    StartRequest profiler_env request
  | StopRequest profiler_env
  | SymbolizedRequest profiler_env request
  | GraphRequest profiler_env request
  | TimerFires nat
  | TimerCall profiler_env
  | SetExternally bool
  | DeleteFile string

text \<open>The request for the raw profile does not change the state.\<close>

fun profiler_step :: "(string \<Rightarrow> string \<Rightarrow> string) \<Rightarrow> bool \<Rightarrow> profiler_event \<Rightarrow> profiler \<Rightarrow> profiler option" where
  "profiler_step join det (StartRequest E r) st = Some (snd (profiler_start det E r st))"
| "profiler_step join det (StopRequest E) st = map_option snd (profiler_stop join det E st)"
| "profiler_step join det (SymbolizedRequest E r) st = Some (snd (downloadSymbolizedProfile join E r st))"
| "profiler_step join det (GraphRequest E r) st = Some (snd (downloadGraphProfile join E r st))"
| "profiler_step join det (TimerFires t) st = Some (if t \<in> set (mp_armed st) then st\<lparr>mp_armed := removeAll t (mp_armed st), mp_dispatched := mp_dispatched st @ [t]\<rparr> else st)"
| "profiler_step join det (TimerCall E) st = (case mp_dispatched st of
     [] \<Rightarrow> Some st
   | t # ts \<Rightarrow> stopAndGenerateRawProfile join det E (st\<lparr>mp_dispatched := ts\<rparr>))"
| "profiler_step join det (SetExternally b) st = Some (st\<lparr>mp_active := b\<rparr>)"
| "profiler_step join det (DeleteFile p) st = Some (st\<lparr>mp_files := (mp_files st)(p := Absent)\<rparr>)"

fun profiler_run :: "(string \<Rightarrow> string \<Rightarrow> string) \<Rightarrow> bool \<Rightarrow> profiler_event list \<Rightarrow> profiler \<Rightarrow> profiler option" where
  "profiler_run join det [] st = Some st"
| "profiler_run join det (e # es) st = (case profiler_step join det e st of None \<Rightarrow> None | Some st' \<Rightarrow> profiler_run join det es st')"

section \<open>Files hold what their artifacts say\<close>

definition artifact_ok :: "(string \<Rightarrow> string \<Rightarrow> string) \<Rightarrow> profiler \<Rightarrow> string \<Rightarrow> string + artifact \<Rightarrow> bool" where
  "artifact_ok join st filename x = (case x of
     Inl _ \<Rightarrow> True
   | Inr a \<Rightarrow> (\<exists>d. mp_tmpdir st = Some d \<and> ar_path a = join d filename) \<and> ar_no a < length (mp_ids st) \<and> ar_id a = mp_ids st ! ar_no a
       \<and> (mp_files st (ar_path a) = Absent \<or> mp_files st (ar_path a) = Data (ar_no a)))"

definition files_inv :: "(string \<Rightarrow> string \<Rightarrow> string) \<Rightarrow> profiler \<Rightarrow> bool" where
  "files_inv join st = (artifact_ok join st RAW_PROFILE_FILENAME (mp_raw st) \<and> artifact_ok join st SYMBOLIZED_PROFILE_FILENAME (mp_symbolized st)
     \<and> artifact_ok join st GRAPH_FILENAME (mp_graph st)
     \<and> (\<forall>r. mp_run st = Some r \<longrightarrow> rn_no r < length (mp_ids st) \<and> rn_id r = mp_ids st ! rn_no r))"

text \<open>A step that keeps the directory and the files, or only deletes one, and may add an id.\<close>

lemma artifact_ok_frame:
  assumes "artifact_ok join st filename x" and "mp_tmpdir st' = mp_tmpdir st" and "mp_ids st' = mp_ids st @ new"
    and "\<And>p. mp_files st' p = mp_files st p \<or> mp_files st' p = Absent"
  shows "artifact_ok join st' filename x"
proof (cases x)
  case (Inr a)
  then show ?thesis using assms(1-3) assms(4) [of "ar_path a"] by (auto simp: artifact_ok_def nth_append)
qed (simp add: artifact_ok_def)

lemma artifact_create_fields:
  assumes "artifact_create join E filename i no generator st = (x, st')"
  shows "mp_run st' = mp_run st" "mp_raw st' = mp_raw st" "mp_symbolized st' = mp_symbolized st" "mp_graph st' = mp_graph st" "mp_ids st' = mp_ids st"
    "mp_active st' = mp_active st" "mp_armed st' = mp_armed st" "mp_dispatched st' = mp_dispatched st"
  using assms by (auto simp: artifact_create_def getTemporaryDirectoryPath_def split: option.splits sum.splits prod.splits)

lemma artifact_create_result:
  assumes "artifact_create join E filename i no generator st = (x, st')" and "no < length (mp_ids st)" and "i = mp_ids st ! no"
    and "\<And>p u fs. generator p (mp_files st) = (Inr u, fs) \<Longrightarrow> fs p = Data no"
  shows "artifact_ok join st' filename x"
  using assms by (auto simp: artifact_create_def getTemporaryDirectoryPath_def artifact_ok_def split: option.splits sum.splits prod.splits)

lemma artifact_create_others:
  assumes c: "artifact_create join E filename i no generator st = (x, st')" and ok: "artifact_ok join st other y" and inj: "\<And>d f g. join d f = join d g \<Longrightarrow> f = g" and ne: "other \<noteq> filename"
    and gen: "\<And>p q fs. q \<noteq> p \<Longrightarrow> snd (generator p fs) q = fs q"
  shows "artifact_ok join st' other y"
proof (cases y)
  case (Inr a)
  then obtain d where d: "mp_tmpdir st = Some d" "ar_path a = join d other" using ok by (auto simp: artifact_ok_def)
  have "join d other \<noteq> join d filename" using inj ne by blast
  then have "mp_files st' (ar_path a) = mp_files st (ar_path a)" "mp_tmpdir st' = Some d"
    using c d gen [of "ar_path a" "join d filename" "mp_files st"]
    by (auto simp: artifact_create_def getTemporaryDirectoryPath_def split: sum.splits prod.splits)
  then show ?thesis using ok Inr d artifact_create_fields(5) [OF c] by (simp add: artifact_ok_def)
qed (simp add: artifact_ok_def)

lemma raw_generator_ok:
  "raw_generator E no p fs = (Inr u, fs') \<Longrightarrow> fs' p = Data no"
  "q \<noteq> p \<Longrightarrow> snd (raw_generator E no p fs) q = fs q"
  by (auto simp: raw_generator_def split: option.splits if_splits)

lemma jeprof_ok:
  "generateJeprofFile E i p fs = (Inr u, fs') \<Longrightarrow> \<exists>n. fs i = Data n \<and> fs' p = Data n"
  "q \<noteq> p \<Longrightarrow> snd (generateJeprofFile E i p fs) q = fs q"
  by (auto simp: generateJeprofFile_def split: disk_file.splits if_splits)

lemma filenames_differ:
  "RAW_PROFILE_FILENAME \<noteq> SYMBOLIZED_PROFILE_FILENAME" "RAW_PROFILE_FILENAME \<noteq> GRAPH_FILENAME" "SYMBOLIZED_PROFILE_FILENAME \<noteq> GRAPH_FILENAME"
  by (simp_all add: RAW_PROFILE_FILENAME_def SYMBOLIZED_PROFILE_FILENAME_def GRAPH_FILENAME_def)

lemma files_inv_frame:
  assumes "files_inv join st" and "mp_tmpdir st' = mp_tmpdir st" and "mp_ids st' = mp_ids st @ new" and "\<And>p. mp_files st' p = mp_files st p \<or> mp_files st' p = Absent"
    and "mp_raw st' = mp_raw st" "mp_symbolized st' = mp_symbolized st" "mp_graph st' = mp_graph st"
    and "\<And>r. mp_run st' = Some r \<Longrightarrow> rn_no r < length (mp_ids st') \<and> rn_id r = mp_ids st' ! rn_no r"
  shows "files_inv join st'"
  using assms(1,5-8) artifact_ok_frame [OF _ assms(2-4)] by (simp add: files_inv_def)

lemma artifact_ok_set [simp]:
  "artifact_ok join (st\<lparr>mp_raw := a\<rparr>) f x = artifact_ok join st f x" "artifact_ok join (st\<lparr>mp_symbolized := a\<rparr>) f x = artifact_ok join st f x"
  "artifact_ok join (st\<lparr>mp_graph := a\<rparr>) f x = artifact_ok join st f x"
  by (simp_all add: artifact_ok_def split: sum.splits)

lemma update_active_only:
  assumes "updateJemallocSetting det E v st = (x, st')"
  shows "st' = st\<lparr>mp_active := (if isl x then mp_active st else v)\<rparr>" and "\<not> isl x \<Longrightarrow> x = Inr (mp_active st)"
  using assms by (auto simp: updateJemallocSetting_def split: if_splits option.splits)

lemma stop_files:
  assumes inv: "files_inv join st" and join: "\<And>d f g. join d f = join d g \<Longrightarrow> f = g" and s: "stopAndGenerateRawProfile join det E st = Some st'"
  shows "files_inv join st'"
proof (cases "mp_run st")
  case (Some r)
  have r: "rn_no r < length (mp_ids st)" "rn_id r = mp_ids st ! rn_no r" using inv Some by (auto simp: files_inv_def)
  obtain x st1 where u: "updateJemallocSetting det E False st = (x, st1)" by force
  note st1 = update_active_only(1) [OF u]
  let ?st2 = "(cancel_timer (rn_timer r) st1)\<lparr>mp_run := None\<rparr>"
  have inv2: "files_inv join ?st2" by (rule files_inv_frame [OF inv, of _ "[]"]) (simp_all add: st1 cancel_timer_def)
  have ext: "files_inv join (extend_run r st1)"
    by (rule files_inv_frame [OF inv, of _ "[]"]) (use r in \<open>auto simp: st1 extend_run_def delay_stop_def cancel_timer_def\<close>)
  obtain a st3 where c: "artifact_create join E RAW_PROFILE_FILENAME (rn_id r) (rn_no r) (raw_generator E (rn_no r)) ?st2 = (a, st3)" by force
  have ids: "mp_ids ?st2 = mp_ids st" by (simp add: st1 cancel_timer_def)
  note others = artifact_create_others [OF c _ join _ raw_generator_ok(2)]
  have "artifact_ok join st3 RAW_PROFILE_FILENAME a"
    by (rule artifact_create_result [OF c]) (use r ids raw_generator_ok(1) in auto)
  moreover have "artifact_ok join st3 SYMBOLIZED_PROFILE_FILENAME (mp_symbolized st3)"
    using others [of SYMBOLIZED_PROFILE_FILENAME "mp_symbolized ?st2"] inv2 filenames_differ artifact_create_fields(3) [OF c] by (simp add: files_inv_def)
  moreover have "artifact_ok join st3 GRAPH_FILENAME (mp_graph st3)"
    using others [of GRAPH_FILENAME "mp_graph ?st2"] inv2 filenames_differ artifact_create_fields(4) [OF c] by (simp add: files_inv_def)
  ultimately have "files_inv join (st3\<lparr>mp_raw := a\<rparr>)" using artifact_create_fields(1) [OF c] by (simp add: files_inv_def)
  then show ?thesis using s Some u inv2 ext c by (auto simp: stopAndGenerateRawProfile_def Let_def split: if_splits sum.splits)
qed (use assms in \<open>auto simp: stopAndGenerateRawProfile_def split: if_splits\<close>)

text \<open>Making a file from the raw profile, and what the reply then serves.\<close>

lemma derived_artifact:
  assumes inv: "files_inv join st" and join: "\<And>d f g. join d f = join d g \<Longrightarrow> f = g" and a: "mp_raw st = Inr a" and f: "filename \<noteq> RAW_PROFILE_FILENAME"
    and c: "artifact_create join E filename (ar_id a) (ar_no a) (generateJeprofFile E (ar_path a)) st = (x, st')"
  shows "artifact_ok join st' filename x" and "artifact_ok join st other y \<Longrightarrow> other \<noteq> filename \<Longrightarrow> artifact_ok join st' other y"
    and "x = Inr b \<Longrightarrow> ar_no b = ar_no a"
proof -
  have raw: "artifact_ok join st RAW_PROFILE_FILENAME (Inr a)" using inv a by (simp add: files_inv_def)
  show "artifact_ok join st' filename x"
  proof (rule artifact_create_result [OF c])
    fix p u fs assume "generateJeprofFile E (ar_path a) p (mp_files st) = (Inr u, fs)"
    then obtain n where "mp_files st (ar_path a) = Data n" "fs p = Data n" using jeprof_ok(1) by blast
    then show "fs p = Data (ar_no a)" using raw by (simp add: artifact_ok_def)
  qed (use raw in \<open>simp_all add: artifact_ok_def\<close>)
  show "artifact_ok join st other y \<Longrightarrow> other \<noteq> filename \<Longrightarrow> artifact_ok join st' other y"
    by (rule artifact_create_others [OF c]) (auto simp: jeprof_ok(2) dest: join)
  show "x = Inr b \<Longrightarrow> ar_no b = ar_no a"
    using c by (auto simp: artifact_create_def split: sum.splits prod.splits)
qed

lemma requested_is_raw: "requested_profile what r st = Inr a \<Longrightarrow> mp_raw st = Inr a"
  by (auto simp: requested_profile_def split: sum.splits if_splits)

lemma symbolized_files:
  assumes inv: "files_inv join st" and join: "\<And>d f g. join d f = join d g \<Longrightarrow> f = g"
  shows "files_inv join (snd (downloadSymbolizedProfile join E r st))"
proof (cases "requested_profile ''No source profile exists: '' r st")
  case (Inr a)
  obtain x st' where c: "artifact_create join E SYMBOLIZED_PROFILE_FILENAME (ar_id a) (ar_no a) (generateJeprofFile E (ar_path a)) st = (x, st')" by force
  note d = derived_artifact [OF inv join requested_is_raw [OF Inr] _ c]
  have "files_inv join (st'\<lparr>mp_symbolized := x\<rparr>)"
    using inv d(1) d(2) filenames_differ artifact_create_fields [OF c] by (simp add: files_inv_def)
  then show ?thesis using Inr c inv by (simp add: downloadSymbolizedProfile_def Let_def)
qed (use inv in \<open>simp add: downloadSymbolizedProfile_def\<close>)

lemma graph_files:
  assumes inv: "files_inv join st" and join: "\<And>d f g. join d f = join d g \<Longrightarrow> f = g"
  shows "files_inv join (snd (downloadGraphProfile join E r st))"
proof (cases "requested_profile ''No source profile exists: '' r st")
  case (Inr a)
  obtain x st' where c: "artifact_create join E GRAPH_FILENAME (ar_id a) (ar_no a) (generateJeprofFile E (ar_path a)) st = (x, st')" by force
  note d = derived_artifact [OF inv join requested_is_raw [OF Inr] _ c]
  have "files_inv join (st'\<lparr>mp_graph := x\<rparr>)"
    using inv d(1) d(2) filenames_differ artifact_create_fields [OF c] by (simp add: files_inv_def)
  then show ?thesis using Inr c inv by (simp add: downloadGraphProfile_def Let_def)
qed (use inv in \<open>simp add: downloadGraphProfile_def\<close>)

lemma start_files:
  assumes "files_inv join st"
  shows "files_inv join (snd (profiler_start det E r st))"
proof -
  have st: "files_inv join (st\<lparr>mp_active := b\<rparr>)" for b by (rule files_inv_frame [OF assms, of _ "[]"]) (use assms in \<open>auto simp: files_inv_def\<close>)
  have new: "files_inv join (new_run i (st\<lparr>mp_active := b\<rparr>))" for i b
    by (rule files_inv_frame [OF assms, of _ "[i]"]) (auto simp: new_run_def delay_stop_def)
  show ?thesis using assms st new
    by (auto simp: profiler_start_def updateJemallocSetting_def Let_def split: sum.splits if_splits option.splits)
qed

lemma profiler_step_files:
  assumes inv: "files_inv join st" and join: "\<And>d f g. join d f = join d g \<Longrightarrow> f = g" and s: "profiler_step join det e st = Some st'"
  shows "files_inv join st'"
proof -
  have frame: "files_inv join (st\<lparr>mp_armed := as, mp_dispatched := ds\<rparr>)" "files_inv join (st\<lparr>mp_dispatched := ds\<rparr>)" "files_inv join (st\<lparr>mp_active := b\<rparr>)"
    "files_inv join (st\<lparr>mp_files := (mp_files st)(p := Absent)\<rparr>)" for as ds b p
    by (rule files_inv_frame [OF inv, of _ "[]"]; use inv in \<open>simp add: files_inv_def\<close>)+
  show ?thesis
  proof (cases e)
    case (StopRequest E)
    then show ?thesis using s inv stop_files [OF inv join] by (auto simp: profiler_stop_def split: if_splits sum.splits option.splits)
  next
    case (TimerCall E)
    then show ?thesis using s inv stop_files [OF frame(2) join] by (auto split: list.splits)
  qed (use s inv frame start_files [OF inv] symbolized_files [OF inv join] graph_files [OF inv join] in \<open>auto split: if_splits\<close>)
qed

lemma profiler_run_files:
  assumes "files_inv join st" and "\<And>d f g. join d f = join d g \<Longrightarrow> f = g" and "profiler_run join det es st = Some st'"
  shows "files_inv join st'"
  using assms(1,3) by (induction es arbitrary: st) (auto split: option.splits dest: profiler_step_files [OF _ assms(2)])

lemma profiler_new_files: "files_inv join (profiler_new b)"
  by (simp add: files_inv_def profiler_new_def artifact_ok_def)

section \<open>What is downloaded\<close>

text \<open>A response serves the data of the run that was dumped last, and that run has the id that was asked for.\<close>

definition serves :: "request \<Rightarrow> profiler \<Rightarrow> files \<Rightarrow> response \<Rightarrow> bool" where
  "serves r st fs resp = (\<exists>a. mp_raw st = Inr a \<and> fs (rs_path resp) = Data (ar_no a)
     \<and> (case extractIdFromRequest r of Inl _ \<Rightarrow> False | Inr None \<Rightarrow> mp_run st = None | Inr (Some i) \<Rightarrow> mp_ids st ! ar_no a = i))"

lemma bad_request_type: "rs_type (BadRequest b) = RespBody"
  by (simp add: BadRequest_def Response_body_def)

lemma artifact_http_path:
  assumes "rs_type (artifact_http (mp_files st) b) = RespPath" and "artifact_ok join st f (Inr b)"
  shows "rs_path (artifact_http (mp_files st) b) = ar_path b \<and> mp_files st (ar_path b) = Data (ar_no b)"
  using assms by (auto simp: artifact_http_def artifact_ok_def bad_request_type split: if_splits)

lemma requested_profile_bad: "requested_profile what r st = Inl resp \<Longrightarrow> rs_type resp = RespBody"
  by (auto simp: requested_profile_def bad_request_type split: sum.splits if_splits)

lemma requested_profile_id:
  assumes "requested_profile what r st = Inr a" and "files_inv join st"
  shows "case extractIdFromRequest r of Inl _ \<Rightarrow> False | Inr None \<Rightarrow> mp_run st = None | Inr (Some i) \<Rightarrow> mp_ids st ! ar_no a = i"
proof -
  have "mp_raw st = Inr a" using requested_is_raw [OF assms(1)] .
  then have "ar_id a = mp_ids st ! ar_no a" using assms(2) by (simp add: files_inv_def artifact_ok_def)
  then show ?thesis using assms(1) by (auto simp: requested_profile_def split: sum.splits if_splits option.splits)
qed

lemma derived_serves:
  assumes inv: "files_inv join st" and q: "requested_profile what r st = Inr a" and b: "\<And>b. x = Inr b \<Longrightarrow> ar_no b = ar_no a" and ok: "artifact_ok join st' f x"
    and t: "rs_type (artifact_reply x st') = RespPath"
  shows "serves r st (mp_files st') (artifact_reply x st')"
proof -
  obtain b' where x: "x = Inr b'" using t by (cases x) (auto simp: artifact_reply_def bad_request_type)
  then have "mp_files st' (rs_path (artifact_reply x st')) = Data (ar_no a)" using artifact_http_path [of st' b' join f] t ok b by (simp add: artifact_reply_def)
  then show ?thesis using requested_is_raw [OF q] requested_profile_id [OF q inv] by (auto simp: serves_def)
qed

lemma same_id_same_run:
  assumes "files_inv join st" and "distinct (mp_ids st)" and "mp_raw st = Inr a" and "artifact_ok join st f (Inr b)" and "ar_id b = ar_id a"
  shows "ar_no b = ar_no a"
proof -
  have a: "ar_no a < length (mp_ids st)" "ar_id a = mp_ids st ! ar_no a" using assms(1,3) by (simp_all add: files_inv_def artifact_ok_def)
  have b: "ar_no b < length (mp_ids st)" "ar_id b = mp_ids st ! ar_no b" using assms(4) by (simp_all add: artifact_ok_def)
  have "mp_ids st ! ar_no b = mp_ids st ! ar_no a" using a(2) b(2) assms(5) by metis
  then show ?thesis using nth_eq_iff_index_eq [OF assms(2) b(1) a(1)] by blast
qed

lemma symbolized_serves:
  assumes inv: "files_inv join st" and join: "\<And>d f g. join d f = join d g \<Longrightarrow> f = g" and ids: "distinct (mp_ids st)"
    and d: "downloadSymbolizedProfile join E r st = (resp, st')" and t: "rs_type resp = RespPath"
  shows "serves r st (mp_files st') resp"
proof (cases "requested_profile ''No source profile exists: '' r st")
  case (Inr a)
  obtain x st1 where c: "artifact_create join E SYMBOLIZED_PROFILE_FILENAME (ar_id a) (ar_no a) (generateJeprofFile E (ar_path a)) st = (x, st1)" by force
  note made = derived_artifact [OF inv join requested_is_raw [OF Inr] _ c]
  have ok: "artifact_ok join st SYMBOLIZED_PROFILE_FILENAME (mp_symbolized st)" using inv by (simp add: files_inv_def)
  show ?thesis
  proof (cases "stale (mp_symbolized st) a")
    case True
    then have "st' = st1\<lparr>mp_symbolized := x\<rparr>" "resp = artifact_reply x st'" using d Inr c by (auto simp: downloadSymbolizedProfile_def Let_def)
    then show ?thesis using derived_serves [OF inv Inr, where x = x and st' = st' and f = SYMBOLIZED_PROFILE_FILENAME] made(1,3) t filenames_differ by simp
  next
    case False
    then have st': "st' = st" "resp = artifact_reply (mp_symbolized st) st" using d Inr by (auto simp: downloadSymbolizedProfile_def)
    have "ar_no b = ar_no a" if "mp_symbolized st = Inr b" for b
      using same_id_same_run [OF inv ids requested_is_raw [OF Inr], of SYMBOLIZED_PROFILE_FILENAME b] ok that False by (simp add: stale_def)
    then show ?thesis using derived_serves [OF inv Inr _ ok] st' t by auto
  qed
qed (use d t requested_profile_bad in \<open>auto simp: downloadSymbolizedProfile_def\<close>)

lemma graph_serves:
  assumes inv: "files_inv join st" and join: "\<And>d f g. join d f = join d g \<Longrightarrow> f = g" and ids: "distinct (mp_ids st)"
    and d: "downloadGraphProfile join E r st = (resp, st')" and t: "rs_type resp = RespPath"
  shows "serves r st (mp_files st') resp"
proof (cases "requested_profile ''No source profile exists: '' r st")
  case (Inr a)
  obtain x st1 where c: "artifact_create join E GRAPH_FILENAME (ar_id a) (ar_no a) (generateJeprofFile E (ar_path a)) st = (x, st1)" by force
  note made = derived_artifact [OF inv join requested_is_raw [OF Inr] _ c]
  have ok: "artifact_ok join st GRAPH_FILENAME (mp_graph st)" using inv by (simp add: files_inv_def)
  show ?thesis
  proof (cases "stale (mp_graph st) a")
    case True
    then have "st' = st1\<lparr>mp_graph := x\<rparr>" "resp = artifact_reply x st'" using d Inr c by (auto simp: downloadGraphProfile_def Let_def)
    then show ?thesis using derived_serves [OF inv Inr, where x = x and st' = st' and f = GRAPH_FILENAME] made(1,3) t filenames_differ by simp
  next
    case False
    then have st': "st' = st" "resp = artifact_reply (mp_graph st) st" using d Inr by (auto simp: downloadGraphProfile_def)
    have "ar_no b = ar_no a" if "mp_graph st = Inr b" for b
      using same_id_same_run [OF inv ids requested_is_raw [OF Inr], of GRAPH_FILENAME b] ok that False by (simp add: stale_def)
    then show ?thesis using derived_serves [OF inv Inr _ ok] st' t by auto
  qed
qed (use d t requested_profile_bad in \<open>auto simp: downloadGraphProfile_def\<close>)

text \<open>C40.
  Whatever requests, timers, failures of jemalloc, of the file system and of \<^verbatim>\<open>jeprof\<close>, external changes and deletions of files happened: a response that serves a file serves, from
  that file, the data of the run that was dumped last, and this run has the id that was asked for, or no run is in progress if none was. For files made by \<^verbatim>\<open>jeprof\<close> this needs
  that no two runs began in the same second.
\<close>

theorem profiles_are_current:
  assumes "\<And>d f g. join d f = join d g \<Longrightarrow> f = g" and "profiler_run join det es (profiler_new b) = Some st"
  shows "(rs_type (downloadRawProfile r st) = RespPath \<longrightarrow> serves r st (mp_files st) (downloadRawProfile r st))
    \<and> (distinct (mp_ids st) \<longrightarrow>
        (case downloadSymbolizedProfile join E r st of (resp, st') \<Rightarrow> rs_type resp = RespPath \<longrightarrow> serves r st (mp_files st') resp)
      \<and> (case downloadGraphProfile join E r st of (resp, st') \<Rightarrow> rs_type resp = RespPath \<longrightarrow> serves r st (mp_files st') resp))"
proof -
  have inv: "files_inv join st" using profiler_run_files [OF profiler_new_files assms] .
  have "serves r st (mp_files st) (downloadRawProfile r st)" if t: "rs_type (downloadRawProfile r st) = RespPath"
  proof (cases "requested_profile ''Cannot access raw profile: '' r st")
    case (Inr a)
    then have "downloadRawProfile r st = artifact_reply (Inr a) st" by (simp add: downloadRawProfile_def artifact_reply_def)
    then show ?thesis
      using derived_serves [OF inv Inr, where x = "Inr a" and st' = st and f = RAW_PROFILE_FILENAME] t inv requested_is_raw [OF Inr] by (simp add: files_inv_def)
  qed (use t requested_profile_bad in \<open>auto simp: downloadRawProfile_def\<close>)
  then show ?thesis using symbolized_serves [OF inv assms(1)] graph_serves [OF inv assms(1)] by (auto split: prod.splits)
qed

section \<open>Runs are stopped\<close>

definition timers_inv :: "bool \<Rightarrow> profiler \<Rightarrow> bool" where
  "timers_inv det st = ((\<forall>r. mp_run st = Some r \<longrightarrow> rn_timer r \<in> set (mp_armed st) \<union> set (mp_dispatched st))
     \<and> (\<not> det \<longrightarrow> mp_run st = None \<and> mp_armed st = [] \<and> mp_dispatched st = []))"

definition active_inv :: "profiler \<Rightarrow> bool" where
  "active_inv st = (mp_active st \<longleftrightarrow> mp_run st \<noteq> None)"

fun external :: "profiler_event \<Rightarrow> bool" where
  "external (SetExternally _) = True" | "external _ = False"

fun stop_refused :: "profiler_event \<Rightarrow> bool" where
  "stop_refused (StopRequest E) = (pe_write_active E False \<noteq> None)" | "stop_refused _ = False"

lemma stop_cases:
  assumes "stopAndGenerateRawProfile join det E st = Some st'"
  obtains (idle) "det" "mp_run st = None" "st' = st"
    | (refused) r where "det" "mp_run st = Some r" "pe_write_active E False \<noteq> None" "st' = extend_run r st"
    | (stopped) r where "det" "mp_run st = Some r" "mp_run st' = None" "\<not> mp_active st'" "mp_dispatched st' = mp_dispatched st"
proof (cases "mp_run st")
  case None
  then show ?thesis using assms that(1) by (auto simp: stopAndGenerateRawProfile_def split: if_splits)
next
  case (Some r)
  show ?thesis
  proof (cases "pe_write_active E False")
    case None
    let ?st2 = "(cancel_timer (rn_timer r) (st\<lparr>mp_active := False\<rparr>))\<lparr>mp_run := None\<rparr>"
    obtain a st3 where c: "artifact_create join E RAW_PROFILE_FILENAME (rn_id r) (rn_no r) (raw_generator E (rn_no r)) ?st2 = (a, st3)" by force
    have "det" "st' = ?st2 \<or> st' = st3\<lparr>mp_raw := a\<rparr>"
      using assms Some None c by (auto simp: stopAndGenerateRawProfile_def updateJemallocSetting_def Let_def split: if_splits)
    then show ?thesis using that(3) [OF _ Some] artifact_create_fields [OF c] by (auto simp: cancel_timer_def)
  next
    case (Some e)
    then have "det" "st' = extend_run r st" using assms \<open>mp_run st = Some r\<close> by (auto simp: stopAndGenerateRawProfile_def updateJemallocSetting_def split: if_splits)
    then show ?thesis using that(2) Some \<open>mp_run st = Some r\<close> by simp
  qed
qed

text \<open>After the call there is no run, or it has got a new timer.\<close>

lemma stop_outcome:
  assumes "stopAndGenerateRawProfile join det E st = Some st'"
  shows "mp_dispatched st' = mp_dispatched st" and "\<And>r. mp_run st' = Some r \<Longrightarrow> rn_timer r \<in> set (mp_armed st')" and "active_inv st \<Longrightarrow> active_inv st'" and "det"
    and "pe_write_active E False = None \<Longrightarrow> mp_run st' = None"
  by (rule stop_cases [OF assms]; auto simp: extend_run_def delay_stop_def cancel_timer_def active_inv_def)+

lemma stop_total:
  assumes "det"
  shows "\<exists>st'. stopAndGenerateRawProfile join det E st = Some st'"
proof -
  obtain x st1 where u: "updateJemallocSetting det E False st = (x, st1)" by force
  have "\<not> isl x \<Longrightarrow> readJemallocSetting det E st1 \<noteq> Inr True" using update_active_only [OF u] by (simp add: readJemallocSetting_def split: option.splits)
  then show ?thesis using assms u by (auto simp: stopAndGenerateRawProfile_def Let_def split: option.splits sum.splits prod.splits)
qed

lemma start_inv:
  assumes "timers_inv det st"
  shows "timers_inv det (snd (profiler_start det E r st))" and "active_inv st \<Longrightarrow> active_inv (snd (profiler_start det E r st))"
  using assms by (auto simp: profiler_start_def updateJemallocSetting_def Let_def new_run_def delay_stop_def timers_inv_def active_inv_def split: sum.splits if_splits option.splits)

lemma symbolized_frame [simp]:
  "mp_run (snd (downloadSymbolizedProfile join E r st)) = mp_run st"
  "mp_armed (snd (downloadSymbolizedProfile join E r st)) = mp_armed st"
  "mp_dispatched (snd (downloadSymbolizedProfile join E r st)) = mp_dispatched st"
  "mp_active (snd (downloadSymbolizedProfile join E r st)) = mp_active st"
  by (auto simp: downloadSymbolizedProfile_def Let_def dest: artifact_create_fields split: sum.splits prod.splits if_splits)

lemma graph_frame [simp]:
  "mp_run (snd (downloadGraphProfile join E r st)) = mp_run st"
  "mp_armed (snd (downloadGraphProfile join E r st)) = mp_armed st"
  "mp_dispatched (snd (downloadGraphProfile join E r st)) = mp_dispatched st"
  "mp_active (snd (downloadGraphProfile join E r st)) = mp_active st"
  by (auto simp: downloadGraphProfile_def Let_def dest: artifact_create_fields split: sum.splits prod.splits if_splits)

lemma stop_request:
  assumes "profiler_stop join det E st = Some (reply, st')"
  shows "st' = st \<or> stopAndGenerateRawProfile join det E st = Some st'"
  using assms by (auto simp: profiler_stop_def split: if_splits sum.splits option.splits)

lemma timers_step:
  assumes inv: "timers_inv det st" and s: "profiler_step join det e st = Some st'"
  shows "timers_inv det st'"
proof (cases e)
  case (StopRequest E)
  then obtain reply where "profiler_stop join det E st = Some (reply, st')" using s by auto
  then consider "st' = st" | "stopAndGenerateRawProfile join det E st = Some st'" using stop_request by blast
  then show ?thesis
  proof cases
    case 2
    then show ?thesis using stop_outcome(2,4) [OF 2] by (simp add: timers_inv_def)
  qed (use inv in simp)
next
  case (TimerCall E)
  show ?thesis
  proof (cases "mp_dispatched st")
    case (Cons t ts)
    then show ?thesis using s TimerCall stop_outcome [of join det E "st\<lparr>mp_dispatched := ts\<rparr>" st'] unfolding timers_inv_def by auto
  qed (use s inv TimerCall in simp)
next
  case (SymbolizedRequest E r)
  then show ?thesis using s inv by (auto simp: timers_inv_def)
next
  case (GraphRequest E r)
  then show ?thesis using s inv by (auto simp: timers_inv_def)
qed (use s inv start_inv(1) [OF inv] in \<open>auto simp: timers_inv_def\<close>)

lemma active_step:
  assumes inv: "timers_inv det st" "active_inv st" and s: "profiler_step join det e st = Some st'" and e: "\<not> external e"
  shows "active_inv st'"
proof (cases e)
  case (StopRequest E)
  then obtain reply where "profiler_stop join det E st = Some (reply, st')" using s by auto
  then consider "st' = st" | "stopAndGenerateRawProfile join det E st = Some st'" using stop_request by blast
  then show ?thesis
  proof cases
    case 2
    then show ?thesis using stop_outcome(3) [OF 2] inv(2) by simp
  qed (use inv in simp)
next
  case (TimerCall E)
  have "active_inv (st\<lparr>mp_dispatched := ts\<rparr>)" for ts using inv by (simp add: active_inv_def)
  then show ?thesis using s TimerCall inv stop_outcome(3) by (auto split: list.splits)
next
  case (SymbolizedRequest E r)
  then show ?thesis using s inv by (auto simp: active_inv_def)
next
  case (GraphRequest E r)
  then show ?thesis using s inv by (auto simp: active_inv_def)
qed (use s inv e start_inv(2) [OF inv(1)] in \<open>auto simp: active_inv_def split: if_splits\<close>)

lemma no_check_step:
  assumes inv: "timers_inv det st" "active_inv st" and e: "\<not> stop_refused e"
  shows "\<exists>st'. profiler_step join det e st = Some st'"
proof (cases e)
  case (StopRequest E)
  show ?thesis
  proof (cases det)
    case True
    obtain st1 where st1: "stopAndGenerateRawProfile join det E st = Some st1" using stop_total [OF True] by blast
    then have "\<not> mp_active st1" using stop_outcome(3,5) [OF st1] inv(2) e StopRequest by (simp add: active_inv_def)
    then have "readJemallocSetting det E st1 \<noteq> Inr True" by (simp add: readJemallocSetting_def split: option.splits)
    then show ?thesis using StopRequest st1 by (auto simp: profiler_stop_def split: sum.splits)
  qed (use StopRequest in \<open>simp add: profiler_stop_def\<close>)
next
  case (TimerCall E)
  then show ?thesis using inv stop_total [of det join E] by (cases det; cases "mp_dispatched st") (auto simp: timers_inv_def)
qed auto

lemma profiler_run_inv:
  assumes "timers_inv det st" and "profiler_run join det es st = Some st'"
  shows "timers_inv det st'"
  using assms by (induction es arbitrary: st) (auto split: option.splits dest: timers_step)

lemma profiler_run_active:
  assumes "timers_inv det st" and "active_inv st" and "\<forall>e\<in>set es. \<not> external e" and "profiler_run join det es st = Some st'"
  shows "active_inv st'"
  using assms by (induction es arbitrary: st) (auto split: option.splits dest: timers_step active_step)

lemma profiler_run_checks:
  assumes "timers_inv det st" and "active_inv st" and "\<forall>e\<in>set es. \<not> external e \<and> \<not> stop_refused e"
  shows "profiler_run join det es st \<noteq> None"
  using assms
proof (induction es arbitrary: st)
  case (Cons e es)
  obtain st' where "profiler_step join det e st = Some st'" using no_check_step [OF Cons.prems(1,2), of e join] Cons.prems(3) by auto
  then show ?case using Cons timers_step active_step by fastforce
qed simp

text \<open>
  A run of the profiler always ends: while one is in progress, a timer that stops it is armed or its call is under way. If nobody else turns profiling on or off it is active exactly while a
  run is in progress, and if jemalloc also never refuses to stop on a request, none of the \<^verbatim>\<open>CHECK\<close>s fails.
\<close>

theorem profiling_runs_end:
  "(\<forall>st r. profiler_run join det es (profiler_new b) = Some st \<and> mp_run st = Some r \<longrightarrow> rn_timer r \<in> set (mp_armed st) \<union> set (mp_dispatched st))
    \<and> ((\<forall>e\<in>set es. \<not> external e) \<longrightarrow> (\<forall>st. profiler_run join det es (profiler_new False) = Some st \<longrightarrow> (mp_active st \<longleftrightarrow> mp_run st \<noteq> None)))
    \<and> ((\<forall>e\<in>set es. \<not> external e \<and> \<not> stop_refused e) \<longrightarrow> profiler_run join det es (profiler_new False) \<noteq> None)"
proof -
  have t: "timers_inv det (profiler_new b)" and a: "active_inv (profiler_new False)" for b by (simp_all add: timers_inv_def active_inv_def profiler_new_def)
  have "rn_timer r \<in> set (mp_armed st) \<union> set (mp_dispatched st)" if "profiler_run join det es (profiler_new b) = Some st" "mp_run st = Some r" for st r
    using profiler_run_inv [OF t that(1)] that(2) by (simp add: timers_inv_def)
  moreover have "mp_active st \<longleftrightarrow> mp_run st \<noteq> None" if "\<forall>e\<in>set es. \<not> external e" "profiler_run join det es (profiler_new False) = Some st" for st
    using profiler_run_active [OF t a that] by (simp add: active_inv_def)
  ultimately show ?thesis using profiler_run_checks [OF t a] by blast
qed

section \<open>Examples\<close>

definition good_env :: "int \<Rightarrow> profiler_env" where
  "good_env now = \<lparr>pe_write_active = (\<lambda>_. None), pe_read_active = None, pe_mkdtemp = Inr ''/tmp/libprocess.a'', pe_os_write = None, pe_stat_size = Inr DUMMY_FILE_SIZE, pe_dump = None,
     pe_jeprof = True, pe_parse_duration = (\<lambda>_. Inl ''unknown unit''), pe_print_duration = (\<lambda>_. ''5mins''), pe_now = now, pe_remaining = ''300''\<rparr>"

definition plain_join :: "string \<Rightarrow> string \<Rightarrow> string" where
  "plain_join d f = d @ ''/'' @ f"

definition id_request :: "string \<Rightarrow> request" where
  "id_request i = new_request\<lparr>rq_query := [''id'' \<mapsto> i]\<rparr>"

lemma plain_join_inject: "plain_join d f = plain_join d g \<Longrightarrow> f = g"
  by (simp add: plain_join_def)

definition two_runs :: "profiler_event list" where
  "two_runs = [StartRequest (good_env 7) new_request, StopRequest (good_env 8), SymbolizedRequest (good_env 8) (id_request ''7''), StartRequest (good_env 9) new_request, TimerFires 1,
     TimerCall (good_env 309)]"

lemma two_runs_eval:
  "map_option (\<lambda>st. (mp_ids st, rs_type (fst (downloadSymbolizedProfile plain_join (good_env 310) (id_request ''9'') st)))) (profiler_run plain_join True two_runs (profiler_new False))
    = Some ([7, 9], RespPath)"
  by code_simp

theorem profiles_are_current_witness:
  "\<exists>st resp st'. profiler_run plain_join True two_runs (profiler_new False) = Some st \<and> downloadSymbolizedProfile plain_join (good_env 310) (id_request ''9'') st = (resp, st')
    \<and> serves (id_request ''9'') st (mp_files st') resp"
proof -
  obtain st where st: "profiler_run plain_join True two_runs (profiler_new False) = Some st" "mp_ids st = [7, 9]"
      "rs_type (fst (downloadSymbolizedProfile plain_join (good_env 310) (id_request ''9'') st)) = RespPath"
    using two_runs_eval by auto
  obtain resp st' where d: "downloadSymbolizedProfile plain_join (good_env 310) (id_request ''9'') st = (resp, st')" by force
  then show ?thesis
    using profiles_are_current [where join = plain_join and r = "id_request ''9''" and E = "good_env 310", OF plain_join_inject st(1)] st by auto
qed

theorem profiling_runs_end_witness:
  "\<exists>st. profiler_run plain_join True two_runs (profiler_new False) = Some st \<and> (mp_active st \<longleftrightarrow> mp_run st \<noteq> None)
    \<and> (\<forall>st r. profiler_run plain_join True [StartRequest (good_env 7) new_request] (profiler_new True) = Some st \<and> mp_run st = Some r \<longrightarrow> rn_timer r \<in> set (mp_armed st) \<union> set (mp_dispatched st))"
proof -
  have e: "\<forall>e\<in>set two_runs. \<not> external e \<and> \<not> stop_refused e" by (simp add: two_runs_def good_env_def)
  then obtain st where "profiler_run plain_join True two_runs (profiler_new False) = Some st" using profiling_runs_end [of plain_join True two_runs False] by auto
  then show ?thesis using profiling_runs_end [of plain_join True two_runs False] profiling_runs_end [of plain_join True "[StartRequest (good_env 7) new_request]" True] e by blast
qed

text \<open>A request to stop that jemalloc refuses aborts the process if an earlier run was dumped.\<close>

lemma refused_stop_aborts:
  "profiler_run plain_join True [StartRequest (good_env 7) new_request, StopRequest (good_env 8), StartRequest (good_env 9) new_request,
      StopRequest ((good_env 10)\<lparr>pe_write_active := (\<lambda>_. Some ''Resource temporarily unavailable'')\<rparr>)] (profiler_new False) = None"
  by code_simp

text \<open>The call of a timer that was cancelled too late stops the next run.\<close>

lemma late_timer_stops_next_run:
  "map_option (\<lambda>st. (mp_run st, mp_ids st)) (profiler_run plain_join True [StartRequest (good_env 7) new_request, TimerFires 0, StopRequest (good_env 8), StartRequest (good_env 9) new_request,
      TimerCall (good_env 9)] (profiler_new False)) = Some (None, [7, 9])"
  by code_simp

text \<open>Two runs that began in the same second have the same id, and the profile of the first is served for the second.\<close>

lemma same_second_serves_old_profile:
  "map_option (\<lambda>st. case downloadSymbolizedProfile plain_join (good_env 9) (id_request ''7'') st of (resp, st') \<Rightarrow> (mp_files st' (rs_path resp), map_sum id ar_no (mp_raw st')))
    (profiler_run plain_join True [StartRequest (good_env 7) new_request, StopRequest (good_env 7), SymbolizedRequest (good_env 7) (id_request ''7''), StartRequest (good_env 7) new_request,
      StopRequest (good_env 8)] (profiler_new False)) = Some (Data 0, Inr 1)"
  by code_simp

end
