(* ===== verification/Ownership.thy ===== *)
theory Ownership
  imports Prelude
begin

text \<open>
  \<^verbatim>\<open>Owned\<close> and \<^verbatim>\<open>Shared\<close> (\<^verbatim>\<open>include/process/owned.hpp\<close>, \<^verbatim>\<open>include/process/shared.hpp\<close>). An object and a block of data are numbers; a handle is one instance of either class, in a list of all
  that were made. \<^verbatim>\<open>shared_ptr\<close> counts the handles to a block. The functions that hand over an object run in steps, as their atomic operations divide them; a handle is used by one call at a time.
\<close>

section \<open>State\<close>

datatype handle = Null | OwnedRef nat | SharedRef nat

record shared_data =
  sc_t :: nat
  sc_owned :: bool
  sc_promise :: "nat option"

datatype transfer = InOwn | InShare nat | InRelease nat

text \<open>
  \<open>os_owned\<close> and \<open>os_shared\<close> are the blocks (the first hold a pointer that may be null), \<open>os_calls\<close> the calls under way, by handle, with the pointer they have taken. Recorded: the objects made,
  deleted and released, and the results of \<^verbatim>\<open>own\<close> (whether it got the future of a block).
\<close>

record ownership =
  os_handles :: "handle list"
  os_owned :: "nat option list"
  os_shared :: "shared_data list"
  os_calls :: "(nat \<times> transfer) list"
  os_objects :: nat
  os_deleted :: "nat list"
  os_released :: "nat list"
  os_owns :: "(nat \<times> bool) list"

definition ownership_new :: ownership where
  "ownership_new = \<lparr>os_handles = [], os_owned = [], os_shared = [], os_calls = [], os_objects = 0, os_deleted = [], os_released = [], os_owns = []\<rparr>"

definition refs :: "handle \<Rightarrow> ownership \<Rightarrow> nat" where
  "refs r s = how_many (\<lambda>h. h = r) (os_handles s)"

section \<open>Operations\<close>

definition make_owned :: "nat \<Rightarrow> ownership \<Rightarrow> ownership" where
  "make_owned t s = s\<lparr>os_handles := os_handles s @ [OwnedRef (length (os_owned s))], os_owned := os_owned s @ [Some t]\<rparr>"

definition make_shared :: "nat \<Rightarrow> ownership \<Rightarrow> ownership" where
  "make_shared t s = s\<lparr>os_handles := os_handles s @ [SharedRef (length (os_shared s))], os_shared := os_shared s @ [\<lparr>sc_t = t, sc_owned = False, sc_promise = None\<rparr>]\<rparr>"

text \<open>The destructors of the two kinds of block.\<close>

definition destroy_owned :: "nat \<Rightarrow> ownership \<Rightarrow> ownership" where
  "destroy_owned c s = (case os_owned s ! c of
     None \<Rightarrow> s
   | Some t \<Rightarrow> s\<lparr>os_owned := (os_owned s)[c := None], os_deleted := os_deleted s @ [t]\<rparr>)"

definition destroy_shared :: "nat \<Rightarrow> ownership \<Rightarrow> ownership" where
  "destroy_shared c s = (let d = os_shared s ! c in
     if sc_owned d then make_owned (sc_t d) (s\<lparr>os_shared := (os_shared s)[c := d\<lparr>sc_promise := Some (length (os_handles s))\<rparr>]\<rparr>)
     else s\<lparr>os_deleted := os_deleted s @ [sc_t d]\<rparr>)"

text \<open>\<^verbatim>\<open>data.reset()\<close>.\<close>

definition data_reset :: "nat \<Rightarrow> ownership \<Rightarrow> ownership" where
  "data_reset h s = (let s1 = s\<lparr>os_handles := (os_handles s)[h := Null]\<rparr> in
     case os_handles s ! h of
       Null \<Rightarrow> s1
     | OwnedRef c \<Rightarrow> if refs (OwnedRef c) s1 = 0 then destroy_owned c s1 else s1
     | SharedRef c \<Rightarrow> if refs (SharedRef c) s1 = 0 then destroy_shared c s1 else s1)"

text \<open>\<^verbatim>\<open>swap\<close>, and \<^verbatim>\<open>reset\<close> with a new object: \<^verbatim>\<open>shared_ptr\<close> swaps the handle with a temporary one.\<close>

definition handle_swap :: "nat \<Rightarrow> nat \<Rightarrow> ownership \<Rightarrow> ownership" where
  "handle_swap h k s = s\<lparr>os_handles := (os_handles s)[h := os_handles s ! k, k := os_handles s ! h]\<rparr>"

definition owned_reset_to :: "nat \<Rightarrow> nat \<Rightarrow> ownership \<Rightarrow> ownership" where
  "owned_reset_to h t s = (let n = length (os_handles s) in data_reset n (handle_swap h n (make_owned t s)))"

definition shared_reset_to :: "nat \<Rightarrow> nat \<Rightarrow> ownership \<Rightarrow> ownership" where
  "shared_reset_to h t s = (let n = length (os_handles s) in data_reset n (handle_swap h n (make_shared t s)))"

text \<open>The first part of \<^verbatim>\<open>own\<close>, \<^verbatim>\<open>share\<close> and \<^verbatim>\<open>release\<close>.\<close>

definition own_begin :: "nat \<Rightarrow> ownership \<Rightarrow> ownership" where
  "own_begin h s = (case os_handles s ! h of
     SharedRef c \<Rightarrow>
       if sc_owned (os_shared s ! c) then s\<lparr>os_owns := os_owns s @ [(c, False)]\<rparr>
       else s\<lparr>os_shared := (os_shared s)[c := (os_shared s ! c)\<lparr>sc_owned := True\<rparr>], os_calls := os_calls s @ [(h, InOwn)], os_owns := os_owns s @ [(c, True)]\<rparr>
   | _ \<Rightarrow> s)"

definition exchange_begin :: "(nat \<Rightarrow> transfer) \<Rightarrow> nat \<Rightarrow> ownership \<Rightarrow> ownership" where
  "exchange_begin f h s = (case os_handles s ! h of
     OwnedRef c \<Rightarrow> (case os_owned s ! c of
       None \<Rightarrow> s
     | Some t \<Rightarrow> s\<lparr>os_owned := (os_owned s)[c := None], os_calls := os_calls s @ [(h, f t)]\<rparr>)
   | _ \<Rightarrow> s)"

text \<open>The rest of a call.\<close>

definition transfer_end :: "nat \<Rightarrow> transfer \<Rightarrow> ownership \<Rightarrow> ownership" where
  "transfer_end h f s = (let s1 = (data_reset h s)\<lparr>os_calls := remove1 (h, f) (os_calls s)\<rparr> in
     case f of
       InOwn \<Rightarrow> s1
     | InShare t \<Rightarrow> make_shared t s1
     | InRelease t \<Rightarrow> s1\<lparr>os_released := os_released s1 @ [t]\<rparr>)"

text \<open>\<^verbatim>\<open>get\<close> of both classes, null being None; \<open>Inl\<close>: the \<^verbatim>\<open>CHECK\<close> fails.\<close>

definition handle_get :: "nat \<Rightarrow> ownership \<Rightarrow> unit + nat option" where
  "handle_get h s = (case os_handles s ! h of
     Null \<Rightarrow> Inr None
   | SharedRef c \<Rightarrow> Inr (Some (sc_t (os_shared s ! c)))
   | OwnedRef c \<Rightarrow> (case os_owned s ! c of None \<Rightarrow> Inl () | Some t \<Rightarrow> Inr (Some t)))"

section \<open>Runs\<close>

text \<open>A superset of the typed runs: a handle may change its class by a swap or a reset.\<close>

datatype ownership_event = NewOwned | NewShared | CopyHandle nat | ResetHandle nat | SwapHandles nat nat | ResetOwnedTo nat | ResetSharedTo nat | BeginOwn nat | BeginShare nat | BeginRelease nat | EndCall nat transfer

definition free_handle :: "nat \<Rightarrow> ownership \<Rightarrow> bool" where
  "free_handle h s = (h < length (os_handles s) \<and> h \<notin> fst ` set (os_calls s))"

fun ownership_step :: "ownership_event \<Rightarrow> ownership \<Rightarrow> ownership" where
  "ownership_step NewOwned s = make_owned (os_objects s) (s\<lparr>os_objects := Suc (os_objects s)\<rparr>)"
| "ownership_step NewShared s = make_shared (os_objects s) (s\<lparr>os_objects := Suc (os_objects s)\<rparr>)"
| "ownership_step (CopyHandle h) s = (if free_handle h s then s\<lparr>os_handles := os_handles s @ [os_handles s ! h]\<rparr> else s)"
| "ownership_step (ResetHandle h) s = (if free_handle h s then data_reset h s else s)"
| "ownership_step (SwapHandles h k) s = (if free_handle h s \<and> free_handle k s then handle_swap h k s else s)"
| "ownership_step (ResetOwnedTo h) s = (if free_handle h s then owned_reset_to h (os_objects s) (s\<lparr>os_objects := Suc (os_objects s)\<rparr>) else s)"
| "ownership_step (ResetSharedTo h) s = (if free_handle h s then shared_reset_to h (os_objects s) (s\<lparr>os_objects := Suc (os_objects s)\<rparr>) else s)"
| "ownership_step (BeginOwn h) s = (if free_handle h s then own_begin h s else s)"
| "ownership_step (BeginShare h) s = (if free_handle h s then exchange_begin InShare h s else s)"
| "ownership_step (BeginRelease h) s = (if free_handle h s then exchange_begin InRelease h s else s)"
| "ownership_step (EndCall h f) s = (if (h, f) \<in> set (os_calls s) then transfer_end h f s else s)"

section \<open>Invariant\<close>

text \<open>The places that hold an object.\<close>

fun taken :: "nat \<times> transfer \<Rightarrow> nat option" where
  "taken (h, InOwn) = None" | "taken (h, InShare t) = Some t" | "taken (h, InRelease t) = Some t"

definition live_shared :: "ownership \<Rightarrow> nat \<Rightarrow> bool" where
  "live_shared s c = (refs (SharedRef c) s > 0)"

definition shared_places :: "nat \<Rightarrow> ownership \<Rightarrow> nat" where
  "shared_places t s = (\<Sum>c < length (os_shared s). of_bool (live_shared s c \<and> sc_t (os_shared s ! c) = t))"

definition places :: "nat \<Rightarrow> ownership \<Rightarrow> nat" where
  "places t s = how_many (\<lambda>x. x = Some t) (os_owned s) + shared_places t s + how_many (\<lambda>x. taken x = Some t) (os_calls s)
     + how_many (\<lambda>x. x = t) (os_deleted s) + how_many (\<lambda>x. x = t) (os_released s)"

fun handle_ok :: "ownership \<Rightarrow> handle \<Rightarrow> bool" where
  "handle_ok s Null = True"
| "handle_ok s (OwnedRef c) = (c < length (os_owned s))"
| "handle_ok s (SharedRef c) = (c < length (os_shared s))"

definition blocks_inv :: "ownership \<Rightarrow> bool" where
  "blocks_inv s = (list_all (handle_ok s) (os_handles s)
     \<and> (\<forall>x\<in>set (os_calls s). fst x < length (os_handles s))
     \<and> (\<forall>c < length (os_owned s). os_owned s ! c \<noteq> None \<longrightarrow> refs (OwnedRef c) s > 0)
     \<and> (\<forall>c < length (os_shared s). how_many (\<lambda>x. x = (c, True)) (os_owns s) = of_bool (sc_owned (os_shared s ! c))
          \<and> (sc_promise (os_shared s ! c) \<noteq> None \<longleftrightarrow> sc_owned (os_shared s ! c) \<and> \<not> live_shared s c))
     \<and> (\<forall>c b. (c, b) \<in> set (os_owns s) \<longrightarrow> c < length (os_shared s) \<and> sc_owned (os_shared s ! c)))"

lemma how_many_append [simp]: "how_many P (xs @ ys) = how_many P xs + how_many P ys"
  by (simp add: how_many_def)

lemma how_many_Nil [simp]: "how_many P [] = 0"
  by (simp add: how_many_def)

lemma how_many_single [simp]: "how_many P [x] = of_bool (P x)"
  by (simp add: how_many_def)

lemma how_many_remove1: "x \<in> set xs \<Longrightarrow> how_many P (remove1 x xs) + of_bool (P x) = how_many P xs"
  by (induction xs) (auto simp: how_many_def)

lemma sum_change_one:
  fixes f g :: "nat \<Rightarrow> nat"
  assumes "c < n" and "\<And>x. x < n \<Longrightarrow> x \<noteq> c \<Longrightarrow> f x = g x"
  shows "(\<Sum>x < n. f x) + g c = (\<Sum>x < n. g x) + f c"
proof -
  have "sum f {..<n} = f c + sum f ({..<n} - {c})" "sum g {..<n} = g c + sum g ({..<n} - {c})" using assms(1) by (simp_all add: sum.remove)
  moreover have "sum f ({..<n} - {c}) = sum g ({..<n} - {c})" using assms(2) by (intro sum.cong) auto
  ultimately show ?thesis by simp
qed

lemma no_future_ref:
  assumes "blocks_inv s"
  shows "refs (OwnedRef (length (os_owned s))) s = 0" and "refs (SharedRef (length (os_shared s))) s = 0"
  using assms by (auto simp: blocks_inv_def refs_def how_many_0 list_all_iff)

lemma handle_ok_more:
  assumes "handle_ok s h" and "length (os_owned s) \<le> length (os_owned s')" and "length (os_shared s) \<le> length (os_shared s')"
  shows "handle_ok s' h"
  using assms by (cases h) auto

text \<open>A new block of either kind.\<close>

lemma make_owned_inv:
  assumes inv: "blocks_inv s"
  shows "blocks_inv (make_owned t s)" and "places u (make_owned t s) = places u s + of_bool (u = t)"
proof -
  let ?s = "make_owned t s"
  have refs: "refs r ?s = refs r s + of_bool (r = OwnedRef (length (os_owned s)))" for r by (auto simp: refs_def make_owned_def)
  have live: "live_shared ?s c = live_shared s c" for c using refs by (simp add: live_shared_def)
  have "list_all (handle_ok ?s) (os_handles ?s)"
    using inv handle_ok_more [of s _ ?s] by (auto simp: blocks_inv_def list_all_iff make_owned_def)
  moreover have "\<forall>c < length (os_owned ?s). os_owned ?s ! c \<noteq> None \<longrightarrow> refs (OwnedRef c) ?s > 0"
    using inv refs by (auto simp: blocks_inv_def make_owned_def nth_append less_Suc_eq)
  ultimately show "blocks_inv ?s" using inv live by (auto simp: blocks_inv_def make_owned_def)
  show "places u ?s = places u s + of_bool (u = t)" using live by (auto simp: places_def shared_places_def make_owned_def)
qed

lemma make_shared_inv:
  assumes inv: "blocks_inv s"
  shows "blocks_inv (make_shared t s)" and "places u (make_shared t s) = places u s + of_bool (u = t)"
proof -
  let ?s = "make_shared t s" and ?n = "length (os_shared s)"
  have refs: "refs r ?s = refs r s + of_bool (r = SharedRef ?n)" for r by (auto simp: refs_def make_shared_def)
  have live: "live_shared ?s c = (c = ?n \<or> live_shared s c)" for c using refs no_future_ref(2) [OF inv] by (auto simp: live_shared_def)
  have own: "how_many (\<lambda>x. x = (?n, True)) (os_owns s) = 0" using inv unfolding how_many_0 blocks_inv_def by auto
  have "list_all (handle_ok ?s) (os_handles ?s)"
    using inv handle_ok_more [of s _ ?s] by (auto simp: blocks_inv_def list_all_iff make_shared_def)
  moreover have "\<forall>c < length (os_shared ?s). how_many (\<lambda>x. x = (c, True)) (os_owns ?s) = of_bool (sc_owned (os_shared ?s ! c))
      \<and> (sc_promise (os_shared ?s ! c) \<noteq> None \<longleftrightarrow> sc_owned (os_shared ?s ! c) \<and> \<not> live_shared ?s c)"
    using inv live own by (auto simp: blocks_inv_def make_shared_def nth_append less_Suc_eq)
  ultimately show "blocks_inv ?s" using inv refs by (auto simp: blocks_inv_def make_shared_def nth_append)
  have "shared_places u ?s = shared_places u s + of_bool (u = t)"
    using live by (simp add: shared_places_def make_shared_def nth_append)
  then show "places u ?s = places u s + of_bool (u = t)" by (simp add: places_def make_shared_def)
qed

text \<open>A handle is reset: the last one to a block of either kind, or another.\<close>

lemma refs_null:
  assumes "h < length (os_handles s)"
  shows "refs r (s\<lparr>os_handles := (os_handles s)[h := Null]\<rparr>) + of_bool (os_handles s ! h = r) = refs r s + of_bool (r = Null)"
  using how_many_update [OF assms, of "\<lambda>x. x = r" Null] by (auto simp: refs_def of_bool_def eq_commute)

lemma null_handles_ok: "list_all (handle_ok s) (os_handles s) \<Longrightarrow> handle_ok s' = handle_ok s \<Longrightarrow> list_all (handle_ok s') ((os_handles s)[h := Null])"
  using set_update_subset_insert [of "os_handles s" h Null] by (auto simp: list_all_iff)

lemma handle_ok_cong: "length (os_owned s') = length (os_owned s) \<Longrightarrow> length (os_shared s') = length (os_shared s) \<Longrightarrow> handle_ok s' = handle_ok s"
  by (rule ext) (metis handle.exhaust handle_ok.simps)

lemma reset_owned:
  assumes inv: "blocks_inv s" and h: "h < length (os_handles s)" and c: "os_handles s ! h = OwnedRef c"
  shows "blocks_inv (data_reset h s)" and "places u (data_reset h s) = places u s"
proof -
  define s1 where "s1 = s\<lparr>os_handles := (os_handles s)[h := Null]\<rparr>"
  have refs: "refs r s1 + of_bool (r = OwnedRef c) = refs r s + of_bool (r = Null)" for r using refs_null [OF h, of r] c by (simp add: s1_def eq_commute)
  have cb: "c < length (os_owned s)" using inv h c by (auto simp: blocks_inv_def list_all_length)
  define last where "last = (refs (OwnedRef c) s1 = 0)"
  define t where "t = os_owned s ! c"
  define s2 where "s2 = data_reset h s"
  have null: "t = None \<Longrightarrow> (os_owned s)[c := None] = os_owned s" unfolding t_def by (metis list_update_id)
  note defs = s2_def data_reset_def Let_def s1_def last_def destroy_owned_def t_def
  have s2: "os_owned s2 = (if last then (os_owned s)[c := None] else os_owned s)" "os_deleted s2 = os_deleted s @ (if last then (case t of None \<Rightarrow> [] | Some x \<Rightarrow> [x]) else [])"
    using c null by (auto simp: defs split: option.splits)
  have same: "os_shared s2 = os_shared s" "os_owns s2 = os_owns s" "os_calls s2 = os_calls s" "os_handles s2 = (os_handles s)[h := Null]" "length (os_owned s2) = length (os_owned s)"
    "os_released s2 = os_released s" using c by (auto simp: defs split: option.splits)
  have refs2: "refs r s2 = refs r s1" for r by (simp add: refs_def same s1_def)
  have live: "live_shared s2 x = live_shared s x" for x using refs [of "SharedRef x"] by (simp add: live_shared_def refs2)
  have "refs (OwnedRef x) s2 > 0" if "x < length (os_owned s)" "os_owned s2 ! x \<noteq> None" for x
  proof (cases "x = c")
    case True
    then show ?thesis using that cb last_def refs2 by (auto simp: s2 split: if_splits)
  next
    case False
    then have "os_owned s ! x \<noteq> None" using that by (auto simp: s2 split: if_splits)
    then have "refs (OwnedRef x) s > 0" using inv that(1) by (simp add: blocks_inv_def)
    then show ?thesis using refs [of "OwnedRef x"] False refs2 by simp
  qed
  moreover have "list_all (handle_ok s2) (os_handles s2)" using inv null_handles_ok [of s s2 h] handle_ok_cong [of s2 s] same by (simp add: blocks_inv_def)
  ultimately show "blocks_inv (data_reset h s)" using inv live unfolding s2_def [symmetric] blocks_inv_def same by simp
  have "how_many (\<lambda>x. x = Some u) (os_owned s2) + how_many (\<lambda>x. x = u) (os_deleted s2) = how_many (\<lambda>x. x = Some u) (os_owned s) + how_many (\<lambda>x. x = u) (os_deleted s)"
    using how_many_update [OF cb, of "\<lambda>x. x = Some u" None] by (auto simp: s2 t_def split: option.splits if_splits)
  then show "places u (data_reset h s) = places u s" using live same unfolding s2_def [symmetric] by (simp add: places_def shared_places_def)
qed

lemma reset_shared:
  assumes inv: "blocks_inv s" and h: "h < length (os_handles s)" and c: "os_handles s ! h = SharedRef c"
  shows "blocks_inv (data_reset h s)" and "places u (data_reset h s) = places u s"
proof -
  define s1 where "s1 = s\<lparr>os_handles := (os_handles s)[h := Null]\<rparr>"
  define d where "d = os_shared s ! c"
  have refs: "refs r s1 + of_bool (r = SharedRef c) = refs r s + of_bool (r = Null)" for r using refs_null [OF h, of r] c by (simp add: s1_def eq_commute)
  have cb: "c < length (os_shared s)" using inv h c by (auto simp: blocks_inv_def list_all_length)
  have was: "live_shared s c" using refs [of "SharedRef c"] by (simp add: live_shared_def)
  have other: "live_shared s1 x = live_shared s x" if "x \<noteq> c" for x using refs [of "SharedRef x"] that by (simp add: live_shared_def)
  have owned: "refs (OwnedRef x) s1 = refs (OwnedRef x) s" for x using refs [of "OwnedRef x"] by simp
  define s2 where "s2 = (if sc_owned d \<and> \<not> live_shared s1 c then s1\<lparr>os_shared := (os_shared s)[c := d\<lparr>sc_promise := Some (length (os_handles s))\<rparr>]\<rparr> else s1)"
  have none: "sc_promise d = None" using inv cb was unfolding blocks_inv_def d_def by blast
  have live2: "live_shared s2 x = live_shared s1 x" and refs2: "refs r s2 = refs r s1" for x r by (simp_all add: live_shared_def refs_def s2_def)
  have nth: "os_shared s2 ! x = (if x = c \<and> sc_owned d \<and> \<not> live_shared s1 c then d\<lparr>sc_promise := Some (length (os_handles s))\<rparr> else os_shared s ! x)" if "x < length (os_shared s)" for x
    using that cb by (simp add: s2_def s1_def)
  have same: "os_owned s2 = os_owned s" "os_owns s2 = os_owns s" "os_calls s2 = os_calls s" "os_handles s2 = (os_handles s)[h := Null]" "length (os_shared s2) = length (os_shared s)"
    "os_deleted s2 = os_deleted s" "os_released s2 = os_released s" by (auto simp: s2_def s1_def)
  have shared: "how_many (\<lambda>y. y = (x, True)) (os_owns s2) = of_bool (sc_owned (os_shared s2 ! x)) \<and> (sc_promise (os_shared s2 ! x) \<noteq> None \<longleftrightarrow> sc_owned (os_shared s2 ! x) \<and> \<not> live_shared s2 x)"
    if "x < length (os_shared s)" for x
  proof (cases "x = c")
    case True
    then show ?thesis using inv that cb nth [OF that] live2 none was by (auto simp: blocks_inv_def same d_def)
  next
    case False
    then show ?thesis using inv that nth [OF that] live2 other [of x] by (auto simp: blocks_inv_def same)
  qed
  have ownsc: "sc_owned (os_shared s2 ! x) = sc_owned (os_shared s ! x)" if "x < length (os_shared s)" for x using nth [OF that] by (simp add: d_def)
  have inv2: "blocks_inv s2"
  proof -
    have "list_all (handle_ok s2) (os_handles s2)" using inv null_handles_ok [of s s2 h] handle_ok_cong [of s2 s] same by (simp add: blocks_inv_def)
    then show ?thesis using inv shared ownsc owned refs2 unfolding blocks_inv_def same by auto
  qed
  have "shared_places u s2 + of_bool (\<not> live_shared s1 c \<and> sc_t d = u) = shared_places u s"
  proof -
    let ?f = "\<lambda>x. of_bool (live_shared s2 x \<and> sc_t (os_shared s2 ! x) = u) :: nat" and ?g = "\<lambda>x. of_bool (live_shared s x \<and> sc_t (os_shared s ! x) = u) :: nat"
    have "?f x = ?g x" if "x < length (os_shared s)" "x \<noteq> c" for x using nth [OF that(1)] live2 other that(2) by simp
    from sum_change_one [OF cb, of ?f ?g, OF this] show ?thesis using nth [OF cb] live2 was by (auto simp: shared_places_def same d_def)
  qed
  then have count: "places u s2 + of_bool (\<not> live_shared s1 c \<and> sc_t d = u) = places u s" by (simp add: places_def same)
  have last: "refs (SharedRef c) s1 = 0 \<longleftrightarrow> \<not> live_shared s1 c" by (simp add: live_shared_def)
  consider "live_shared s1 c" | "\<not> live_shared s1 c" "sc_owned d" | "\<not> live_shared s1 c" "\<not> sc_owned d" by blast
  then show "blocks_inv (data_reset h s)" and "places u (data_reset h s) = places u s"
  proof (atomize (full), cases)
    case 1
    then have "data_reset h s = s2" using c last by (simp add: data_reset_def Let_def s1_def [symmetric] s2_def)
    then show "blocks_inv (data_reset h s) \<and> places u (data_reset h s) = places u s" using inv2 count 1 by simp
  next
    case 2
    then have "data_reset h s = make_owned (sc_t d) s2" using c last by (simp add: data_reset_def Let_def s1_def [symmetric] destroy_shared_def s2_def) (simp add: s1_def d_def)
    then show "blocks_inv (data_reset h s) \<and> places u (data_reset h s) = places u s" using make_owned_inv [OF inv2] count 2 by auto
  next
    case 3
    then have e: "data_reset h s = s2\<lparr>os_deleted := os_deleted s2 @ [sc_t d]\<rparr>"
      using c last by (simp add: data_reset_def Let_def s1_def [symmetric] destroy_shared_def s2_def) (simp add: s1_def d_def)
    have "blocks_inv (s2\<lparr>os_deleted := os_deleted s2 @ [sc_t d]\<rparr>)" using inv2 handle_ok_cong [of "s2\<lparr>os_deleted := os_deleted s2 @ [sc_t d]\<rparr>" s2]
      by (simp add: blocks_inv_def refs_def live_shared_def)
    then show "blocks_inv (data_reset h s) \<and> places u (data_reset h s) = places u s" using count 3 unfolding e by (auto simp: places_def shared_places_def live_shared_def refs_def)
  qed
qed

lemma data_reset_inv:
  assumes "blocks_inv s" and "h < length (os_handles s)"
  shows "blocks_inv (data_reset h s)" and "places u (data_reset h s) = places u s"
proof -
  have "data_reset h s = s" if "os_handles s ! h = Null"
    using that list_update_id [of "os_handles s" h] by (simp add: data_reset_def)
  then show "blocks_inv (data_reset h s)" and "places u (data_reset h s) = places u s"
    using assms reset_owned [OF assms] reset_shared [OF assms] by (cases "os_handles s ! h"; simp)+
qed

lemma data_reset_frame:
  "os_calls (data_reset h s) = os_calls s" "os_objects (data_reset h s) = os_objects s" "length (os_handles s) \<le> length (os_handles (data_reset h s))"
  by (auto simp: data_reset_def destroy_owned_def destroy_shared_def make_owned_def Let_def split: handle.splits option.splits)

lemma calls_inv:
  assumes "blocks_inv s" and "set cs \<subseteq> set (os_calls s)"
  shows "blocks_inv (s\<lparr>os_calls := cs\<rparr>)"
proof -
  have "handle_ok (s\<lparr>os_calls := cs\<rparr>) = handle_ok s" by (rule handle_ok_cong) simp_all
  then show ?thesis using assms by (auto simp: blocks_inv_def refs_def live_shared_def)
qed

lemma places_calls: "places u (s\<lparr>os_calls := cs\<rparr>) + how_many (\<lambda>x. taken x = Some u) (os_calls s) = places u s + how_many (\<lambda>x. taken x = Some u) cs"
  by (simp add: places_def shared_places_def live_shared_def refs_def)

lemma own_begin_inv:
  assumes inv: "blocks_inv s" and h: "h < length (os_handles s)"
  shows "blocks_inv (own_begin h s)" and "places u (own_begin h s) = places u s"
proof (atomize (full), cases "os_handles s ! h")
  case (SharedRef c)
  have c: "c < length (os_shared s)" using inv h SharedRef by (auto simp: blocks_inv_def list_all_length)
  have live: "live_shared s c" using how_many_pos [OF h, of "\<lambda>x. x = SharedRef c"] SharedRef by (simp add: live_shared_def refs_def)
  let ?d = "(os_shared s ! c)\<lparr>sc_owned := True\<rparr>"
  show "blocks_inv (own_begin h s) \<and> places u (own_begin h s) = places u s"
  proof (cases "sc_owned (os_shared s ! c)")
    case True
    then have e: "own_begin h s = s\<lparr>os_owns := os_owns s @ [(c, False)]\<rparr>" using SharedRef by (simp add: own_begin_def)
    have "handle_ok (s\<lparr>os_owns := os_owns s @ [(c, False)]\<rparr>) = handle_ok s" by (rule handle_ok_cong) simp_all
    then show ?thesis using inv c True unfolding e by (auto simp: blocks_inv_def refs_def live_shared_def places_def shared_places_def)
  next
    case False
    define s2 where "s2 = s\<lparr>os_shared := (os_shared s)[c := ?d], os_calls := os_calls s @ [(h, InOwn)], os_owns := os_owns s @ [(c, True)]\<rparr>"
    have e: "own_begin h s = s2" using SharedRef False by (simp add: own_begin_def s2_def)
    have ok: "handle_ok s2 = handle_ok s" by (rule handle_ok_cong) (simp_all add: s2_def)
    have live2: "live_shared s2 x = live_shared s x" and refs2: "refs r s2 = refs r s" for x r by (simp_all add: live_shared_def refs_def s2_def)
    have nth: "os_shared s2 ! x = (if x = c then ?d else os_shared s ! x)" if "x < length (os_shared s)" for x using that by (simp add: s2_def)
    have same: "os_handles s2 = os_handles s" "os_owned s2 = os_owned s" "length (os_shared s2) = length (os_shared s)" "os_calls s2 = os_calls s @ [(h, InOwn)]" "os_owns s2 = os_owns s @ [(c, True)]"
      "os_deleted s2 = os_deleted s" "os_released s2 = os_released s" by (simp_all add: s2_def)
    have "blocks_inv s2" using inv ok live2 refs2 nth c h live False unfolding blocks_inv_def same by auto
    moreover have "shared_places u s2 = shared_places u s" unfolding shared_places_def same by (rule sum.cong) (auto simp: live2 nth)
    then have "places u s2 = places u s" by (simp add: places_def same)
    ultimately show ?thesis using e by simp
  qed
qed (use inv in \<open>simp_all add: own_begin_def\<close>)

lemma exchange_begin_inv:
  assumes inv: "blocks_inv s" and h: "h < length (os_handles s)" and f: "\<And>t. taken (h, f t) = Some t"
  shows "blocks_inv (exchange_begin f h s)" and "places u (exchange_begin f h s) = places u s"
proof (atomize (full), cases "os_handles s ! h")
  case (OwnedRef c)
  have c: "c < length (os_owned s)" using inv h OwnedRef by (auto simp: blocks_inv_def list_all_length)
  show "blocks_inv (exchange_begin f h s) \<and> places u (exchange_begin f h s) = places u s"
  proof (cases "os_owned s ! c")
    case (Some t)
    let ?s = "s\<lparr>os_owned := (os_owned s)[c := None], os_calls := os_calls s @ [(h, f t)]\<rparr>"
    have e: "exchange_begin f h s = ?s" using OwnedRef Some by (simp add: exchange_begin_def)
    have ok: "handle_ok ?s = handle_ok s" by (rule handle_ok_cong) simp_all
    have keep: "(os_owned s)[c := None] ! x \<noteq> None \<Longrightarrow> os_owned s ! x \<noteq> None" for x using c by (cases "x = c") auto
    have "blocks_inv ?s" using inv ok h keep by (simp add: blocks_inv_def refs_def live_shared_def)
    moreover have "places u ?s = places u s"
      using how_many_update [OF c, of "\<lambda>x. x = Some u" None] Some f by (auto simp: places_def shared_places_def live_shared_def refs_def of_bool_def split: if_splits)
    ultimately show ?thesis using e by simp
  qed (use inv OwnedRef in \<open>simp add: exchange_begin_def\<close>)
qed (use inv in \<open>simp_all add: exchange_begin_def\<close>)

lemma transfer_end_inv:
  assumes inv: "blocks_inv s" and m: "(h, f) \<in> set (os_calls s)"
  shows "blocks_inv (transfer_end h f s)" and "places u (transfer_end h f s) = places u s"
proof -
  have h: "h < length (os_handles s)" using inv m by (fastforce simp: blocks_inv_def)
  define s1 where "s1 = (data_reset h s)\<lparr>os_calls := remove1 (h, f) (os_calls s)\<rparr>"
  have "set (remove1 (h, f) (os_calls s)) \<subseteq> set (os_calls (data_reset h s))" using set_remove1_subset data_reset_frame(1) by fastforce
  then have inv1: "blocks_inv s1" using calls_inv [OF data_reset_inv(1) [OF inv h]] by (simp add: s1_def)
  have count: "places u s1 + of_bool (taken (h, f) = Some u) = places u s"
    using places_calls [where s = "data_reset h s" and cs = "remove1 (h, f) (os_calls s)" and u = u] how_many_remove1 [OF m, of "\<lambda>x. taken x = Some u"] data_reset_inv(2) [OF inv h, of u]
    by (simp add: s1_def data_reset_frame)
  show "blocks_inv (transfer_end h f s)" and "places u (transfer_end h f s) = places u s"
  proof (atomize (full), cases f)
    case InOwn
    then show "blocks_inv (transfer_end h f s) \<and> places u (transfer_end h f s) = places u s" using inv1 count by (simp add: transfer_end_def s1_def)
  next
    case (InShare t)
    then have "transfer_end h f s = make_shared t s1" by (simp add: transfer_end_def s1_def Let_def)
    then show "blocks_inv (transfer_end h f s) \<and> places u (transfer_end h f s) = places u s" using make_shared_inv [OF inv1] count InShare by auto
  next
    case (InRelease t)
    then have e: "transfer_end h f s = s1\<lparr>os_released := os_released s1 @ [t]\<rparr>" by (simp add: transfer_end_def s1_def Let_def)
    have "handle_ok (s1\<lparr>os_released := os_released s1 @ [t]\<rparr>) = handle_ok s1" by (rule handle_ok_cong) simp_all
    then have "blocks_inv (s1\<lparr>os_released := os_released s1 @ [t]\<rparr>)" using inv1 by (simp add: blocks_inv_def refs_def live_shared_def)
    then show "blocks_inv (transfer_end h f s) \<and> places u (transfer_end h f s) = places u s"
      using count InRelease unfolding e by (auto simp: places_def shared_places_def live_shared_def refs_def)
  qed
qed

lemma handle_swap_inv:
  assumes inv: "blocks_inv s" and h: "h < length (os_handles s)" and k: "k < length (os_handles s)"
  shows "blocks_inv (handle_swap h k s)" and "places u (handle_swap h k s) = places u s"
proof -
  let ?s = "handle_swap h k s"
  have m: "mset (os_handles ?s) = mset (os_handles s)" using mset_swap [OF k h] by (simp add: handle_swap_def)
  have count: "how_many P xs = size (filter_mset P (mset xs))" for P and xs :: "handle list" by (simp add: how_many_def flip: mset_filter)
  have refs: "refs r ?s = refs r s" for r unfolding refs_def count m ..
  have ok: "handle_ok ?s = handle_ok s" by (rule handle_ok_cong) (simp_all add: handle_swap_def)
  have live: "live_shared ?s = live_shared s" using refs by (auto simp: live_shared_def)
  have same: "os_owned ?s = os_owned s" "os_shared ?s = os_shared s" "os_calls ?s = os_calls s" "os_owns ?s = os_owns s" "os_deleted ?s = os_deleted s" "os_released ?s = os_released s"
    by (simp_all add: handle_swap_def)
  have "set (os_handles ?s) = set (os_handles s)" "length (os_handles ?s) = length (os_handles s)" using m mset_eq_setD mset_eq_length by blast+
  then show "blocks_inv ?s" using inv unfolding blocks_inv_def list_all_iff same ok refs live by simp
  show "places u ?s = places u s" by (simp add: places_def shared_places_def same live)
qed

lemma reset_to_inv:
  assumes inv: "blocks_inv s" and h: "h < length (os_handles s)"
  shows "blocks_inv (owned_reset_to h t s)" and "places u (owned_reset_to h t s) = places u s + of_bool (u = t)"
    and "blocks_inv (shared_reset_to h t s)" and "places u (shared_reset_to h t s) = places u s + of_bool (u = t)"
proof -
  let ?n = "length (os_handles s)"
  have lo: "?n < length (os_handles (make_owned t s))" "h < length (os_handles (make_owned t s))" "?n < length (os_handles (handle_swap h ?n (make_owned t s)))"
    and ls: "?n < length (os_handles (make_shared t s))" "h < length (os_handles (make_shared t s))" "?n < length (os_handles (handle_swap h ?n (make_shared t s)))"
    using h by (simp_all add: make_owned_def make_shared_def handle_swap_def)
  note o = handle_swap_inv [OF make_owned_inv(1) [OF inv] lo(2,1)] and sh = handle_swap_inv [OF make_shared_inv(1) [OF inv] ls(2,1)]
  show "blocks_inv (owned_reset_to h t s)" and "places u (owned_reset_to h t s) = places u s + of_bool (u = t)"
    using data_reset_inv [OF o(1) lo(3)] o(2) make_owned_inv(2) [OF inv] by (simp_all add: owned_reset_to_def Let_def)
  show "blocks_inv (shared_reset_to h t s)" and "places u (shared_reset_to h t s) = places u s + of_bool (u = t)"
    using data_reset_inv [OF sh(1) ls(3)] sh(2) make_shared_inv(2) [OF inv] by (simp_all add: shared_reset_to_def Let_def)
qed

definition ownership_inv :: "ownership \<Rightarrow> bool" where
  "ownership_inv s = (blocks_inv s \<and> (\<forall>t. places t s = of_bool (t < os_objects s)))"

lemma frames:
  "os_objects (own_begin h s) = os_objects s" "os_objects (exchange_begin f h s) = os_objects s" "os_objects (transfer_end h g s) = os_objects s"
  by (auto simp: own_begin_def exchange_begin_def transfer_end_def Let_def make_shared_def data_reset_frame split: handle.splits option.splits transfer.splits)

lemma ownership_step_inv:
  assumes inv: "ownership_inv s"
  shows "ownership_inv (ownership_step e s)"
proof -
  have b: "blocks_inv s" and pl: "places t s = of_bool (t < os_objects s)" for t using inv by (simp_all add: ownership_inv_def)
  let ?n = "s\<lparr>os_objects := Suc (os_objects s)\<rparr>"
  have "handle_ok ?n = handle_ok s" by (rule handle_ok_cong) simp_all
  then have bn: "blocks_inv ?n" and pn: "places t ?n = places t s" for t
    using b by (simp_all add: blocks_inv_def refs_def live_shared_def places_def shared_places_def)
  show ?thesis
  proof (cases e)
    case NewOwned
    have "os_objects (make_owned (os_objects s) ?n) = Suc (os_objects s)" by (simp add: make_owned_def)
    then have "ownership_inv (make_owned (os_objects s) ?n)" using make_owned_inv [OF bn] pn pl by (auto simp: ownership_inv_def of_bool_def less_Suc_eq)
    then show ?thesis using NewOwned by simp
  next
    case NewShared
    have "os_objects (make_shared (os_objects s) ?n) = Suc (os_objects s)" by (simp add: make_shared_def)
    then have "ownership_inv (make_shared (os_objects s) ?n)" using make_shared_inv [OF bn] pn pl by (auto simp: ownership_inv_def of_bool_def less_Suc_eq)
    then show ?thesis using NewShared by simp
  next
    case (CopyHandle h)
    let ?s = "s\<lparr>os_handles := os_handles s @ [os_handles s ! h]\<rparr>"
    have "ownership_inv ?s" if h: "h < length (os_handles s)"
    proof -
      have ok: "handle_ok ?s = handle_ok s" by (rule handle_ok_cong) simp_all
      have refs: "refs r ?s > 0 \<longleftrightarrow> refs r s > 0" for r using how_many_pos [OF h, of "\<lambda>x. x = r"] by (auto simp: refs_def)
      then have live: "live_shared ?s = live_shared s" by (auto simp: live_shared_def)
      have "blocks_inv ?s" using b ok refs live h by (auto simp: blocks_inv_def list_all_length nth_append)
      moreover have "places t ?s = places t s" for t using live by (simp add: places_def shared_places_def)
      ultimately show ?thesis using pl by (simp add: ownership_inv_def)
    qed
    then show ?thesis using inv CopyHandle by (auto simp: free_handle_def)
  next
    case (ResetHandle h)
    then show ?thesis using inv data_reset_inv [OF b] pl data_reset_frame(2) by (auto simp: ownership_inv_def free_handle_def)
  next
    case (SwapHandles h k)
    then show ?thesis using inv handle_swap_inv [OF b, of h k] pl by (auto simp: ownership_inv_def free_handle_def) (simp_all add: handle_swap_def)
  next
    case (ResetOwnedTo h)
    have "os_objects (owned_reset_to h t ?n) = Suc (os_objects s)" for t by (simp add: owned_reset_to_def Let_def data_reset_frame handle_swap_def make_owned_def)
    then have "ownership_inv (owned_reset_to h (os_objects s) ?n)" if "h < length (os_handles s)"
      using reset_to_inv(1,2) [OF bn, of h] pn pl that by (auto simp: ownership_inv_def of_bool_def less_Suc_eq)
    then show ?thesis using inv ResetOwnedTo by (simp add: free_handle_def)
  next
    case (ResetSharedTo h)
    have "os_objects (shared_reset_to h t ?n) = Suc (os_objects s)" for t by (simp add: shared_reset_to_def Let_def data_reset_frame handle_swap_def make_shared_def)
    then have "ownership_inv (shared_reset_to h (os_objects s) ?n)" if "h < length (os_handles s)"
      using reset_to_inv(3,4) [OF bn, of h] pn pl that by (auto simp: ownership_inv_def of_bool_def less_Suc_eq)
    then show ?thesis using inv ResetSharedTo by (simp add: free_handle_def)
  next
    case (BeginOwn h)
    then show ?thesis using inv own_begin_inv [OF b] pl frames by (auto simp: ownership_inv_def free_handle_def)
  next
    case (BeginShare h)
    then show ?thesis using inv exchange_begin_inv [OF b, of h InShare] pl frames by (auto simp: ownership_inv_def free_handle_def)
  next
    case (BeginRelease h)
    then show ?thesis using inv exchange_begin_inv [OF b, of h InRelease] pl frames by (auto simp: ownership_inv_def free_handle_def)
  next
    case (EndCall h f)
    then show ?thesis using inv transfer_end_inv [OF b] pl frames by (auto simp: ownership_inv_def)
  qed
qed

lemma ownership_run_inv: "ownership_inv s \<Longrightarrow> ownership_inv (fold ownership_step es s)"
  by (induction es arbitrary: s) (simp_all add: ownership_step_inv)

lemma ownership_new_inv: "ownership_inv ownership_new"
  by (simp add: ownership_inv_def blocks_inv_def ownership_new_def places_def shared_places_def)

text \<open>Where a handle leads.\<close>

lemma handle_get_places:
  assumes inv: "blocks_inv s" and h: "h < length (os_handles s)" and g: "handle_get h s = Inr (Some t)"
  shows "how_many (\<lambda>x. x = Some t) (os_owned s) + shared_places t s > 0"
proof (cases "os_handles s ! h")
  case (OwnedRef c)
  then have "c < length (os_owned s)" "os_owned s ! c = Some t" using inv h g by (auto simp: blocks_inv_def list_all_length handle_get_def split: option.splits)
  then show ?thesis using how_many_pos [of c "os_owned s" "\<lambda>x. x = Some t"] by simp
next
  case (SharedRef c)
  then have c: "c < length (os_shared s)" "sc_t (os_shared s ! c) = t" using inv h g by (auto simp: blocks_inv_def list_all_length handle_get_def)
  have "live_shared s c" using how_many_pos [OF h, of "\<lambda>x. x = SharedRef c"] SharedRef by (simp add: live_shared_def refs_def)
  then have "shared_places t s \<noteq> 0" using c unfolding shared_places_def by (auto simp: sum_eq_0_iff)
  then show ?thesis by simp
qed (use g in \<open>simp add: handle_get_def\<close>)

lemma places_handle_get:
  assumes inv: "blocks_inv s" and p: "how_many (\<lambda>x. x = Some t) (os_owned s) + shared_places t s > 0"
  shows "\<exists>h < length (os_handles s). handle_get h s = Inr (Some t)"
proof -
  have at: "\<exists>h < length (os_handles s). os_handles s ! h = r" if "refs r s > 0" for r
    using that how_many_0 [of "\<lambda>x. x = r" "os_handles s"] by (auto simp: refs_def in_set_conv_nth)
  show ?thesis
  proof (cases "how_many (\<lambda>x. x = Some t) (os_owned s) = 0")
    case False
    then obtain c where c: "c < length (os_owned s)" "os_owned s ! c = Some t" unfolding how_many_0 by (auto simp: in_set_conv_nth)
    then have "refs (OwnedRef c) s > 0" using inv by (simp add: blocks_inv_def)
    then obtain h where "h < length (os_handles s)" "os_handles s ! h = OwnedRef c" using at by blast
    then show ?thesis using c by (auto simp: handle_get_def intro: exI [of _ h])
  next
    case True
    then have "shared_places t s \<noteq> 0" using p by simp
    then obtain c where "c < length (os_shared s)" "live_shared s c" "sc_t (os_shared s ! c) = t" unfolding shared_places_def by (auto simp: sum_eq_0_iff)
    then show ?thesis using at [of "SharedRef c"] by (fastforce simp: live_shared_def handle_get_def)
  qed
qed

text \<open>C19.
  Every object has exactly one owner, in every interleaving: it is held by one block, or by one call of \<^verbatim>\<open>share\<close> or \<^verbatim>\<open>release\<close> under way, or was released once, or deleted once. So no handle leads
  to an object that was deleted or released, and nothing leaks: an object that was neither is reached from a handle or about to be handed over. Of the calls of \<^verbatim>\<open>own\<close> for a block at most one
  succeeds, and its future is set exactly when no handle to the block is left.
\<close>

theorem one_owner:
  assumes "s = fold ownership_step es ownership_new"
  shows "(\<forall>t. places t s = of_bool (t < os_objects s))
    \<and> (\<forall>h < length (os_handles s). \<forall>t. handle_get h s = Inr (Some t) \<longrightarrow> t \<notin> set (os_deleted s) \<and> t \<notin> set (os_released s))
    \<and> (\<forall>t < os_objects s. t \<in> set (os_deleted s) \<or> t \<in> set (os_released s) \<or> (\<exists>x\<in>set (os_calls s). taken x = Some t) \<or> (\<exists>h < length (os_handles s). handle_get h s = Inr (Some t)))
    \<and> (\<forall>c < length (os_shared s). how_many (\<lambda>x. x = (c, True)) (os_owns s) \<le> 1
        \<and> (sc_promise (os_shared s ! c) \<noteq> None \<longleftrightarrow> (c, True) \<in> set (os_owns s) \<and> SharedRef c \<notin> set (os_handles s)))"
proof -
  have "ownership_inv s" using assms ownership_run_inv [OF ownership_new_inv] by simp
  then have b: "blocks_inv s" and pl: "places t s = of_bool (t < os_objects s)" for t by (simp_all add: ownership_inv_def)
  have gone: "how_many (\<lambda>x. x = t) xs = 0 \<longleftrightarrow> t \<notin> set xs" for t :: nat and xs unfolding how_many_0 by blast
  have "t \<notin> set (os_deleted s) \<and> t \<notin> set (os_released s)" if "h < length (os_handles s)" "handle_get h s = Inr (Some t)" for h t
    using handle_get_places [OF b that] pl [of t] unfolding gone [symmetric] places_def by (auto simp: of_bool_def split: if_splits)
  moreover have "t \<in> set (os_deleted s) \<or> t \<in> set (os_released s) \<or> (\<exists>x\<in>set (os_calls s). taken x = Some t) \<or> (\<exists>h < length (os_handles s). handle_get h s = Inr (Some t))"
    if t: "t < os_objects s" for t
  proof (rule ccontr)
    assume n: "\<not> ?thesis"
    then have "how_many (\<lambda>x. taken x = Some t) (os_calls s) = 0" unfolding how_many_0 by blast
    then have "how_many (\<lambda>x. x = Some t) (os_owned s) + shared_places t s > 0" using n pl [of t] t gone [of t "os_deleted s"] gone [of t "os_released s"] by (simp add: places_def)
    from places_handle_get [OF b this] show False using n by blast
  qed
  moreover have "how_many (\<lambda>x. x = (c, True)) (os_owns s) \<le> 1 \<and> (sc_promise (os_shared s ! c) \<noteq> None \<longleftrightarrow> (c, True) \<in> set (os_owns s) \<and> SharedRef c \<notin> set (os_handles s))"
    if c: "c < length (os_shared s)" for c
  proof -
    have o: "how_many (\<lambda>x. x = (c, True)) (os_owns s) = of_bool (sc_owned (os_shared s ! c))"
      and p: "sc_promise (os_shared s ! c) \<noteq> None \<longleftrightarrow> sc_owned (os_shared s ! c) \<and> \<not> live_shared s c" using b c by (simp_all add: blocks_inv_def)
    have "(c, True) \<in> set (os_owns s) \<longleftrightarrow> sc_owned (os_shared s ! c)" using o how_many_0 [of "\<lambda>x. x = (c, True)" "os_owns s"] by (auto simp: of_bool_def split: if_splits)
    moreover have "live_shared s c \<longleftrightarrow> SharedRef c \<in> set (os_handles s)" using how_many_0 [of "\<lambda>x. x = SharedRef c" "os_handles s"] by (auto simp: live_shared_def refs_def)
    ultimately show ?thesis using o p by simp
  qed
  ultimately show ?thesis using pl by blast
qed

text \<open>An object is shared, two handles ask for it, one gets it when the other is gone.\<close>

definition handover :: "ownership_event list" where
  "handover = [NewOwned, BeginShare 0, EndCall 0 (InShare 0), CopyHandle 1, BeginOwn 1, BeginOwn 2, EndCall 1 InOwn, ResetHandle 2]"

theorem one_owner_witness:
  "\<exists>s. s = fold ownership_step handover ownership_new \<and> os_owns s = [(0, True), (0, False)] \<and> sc_promise (os_shared s ! 0) = Some 3 \<and> handle_get 3 s = Inr (Some 0) \<and> 0 \<notin> set (os_deleted s)"
proof -
  define s where "s = fold ownership_step handover ownership_new"
  have e: "os_owns s = [(0, True), (0, False)]" "sc_promise (os_shared s ! 0) = Some 3" "handle_get 3 s = Inr (Some 0)" "length (os_handles s) = 4" unfolding s_def by code_simp+
  have "\<forall>h < length (os_handles s). \<forall>t. handle_get h s = Inr (Some t) \<longrightarrow> t \<notin> set (os_deleted s) \<and> t \<notin> set (os_released s)" using one_owner [OF s_def] by blast
  from this [rule_format, of 3 0] have "0 \<notin> set (os_deleted s)" using e by simp
  then show ?thesis using e unfolding s_def [symmetric] by blast
qed

text \<open>A call of \<^verbatim>\<open>own\<close> that fails leaves its pointer as it is, so the call that succeeded has to wait for it.\<close>

lemma failed_own_keeps_its_reference:
  "(let s = fold ownership_step [NewShared, CopyHandle 0, BeginOwn 0, EndCall 0 InOwn, BeginOwn 1] ownership_new in
    os_owns s = [(0, True), (0, False)] \<and> os_handles s = [Null, SharedRef 0] \<and> sc_promise (os_shared s ! 0) = None)"
  by code_simp

end
