(* ===== verification/Ssl_Sockets.thy ===== *)
theory Ssl_Sockets
  imports Prelude
begin

text \<open>
  \<^verbatim>\<open>LibeventSSLSocketImpl\<close> (\<^verbatim>\<open>src/posix/libevent/libevent_ssl_socket.cpp\<close>) and \<^verbatim>\<open>run_in_event_loop\<close> (\<^verbatim>\<open>src/posix/libevent/libevent.cpp\<close>). Calls come from any thread, each of them hands a function
  to the event loop some time later; the event loop runs those functions and the callbacks of libevent one after the other. What libevent and OpenSSL answer are arguments of the operations.
\<close>

section \<open>State\<close>

text \<open>
  A bufferevent: its two buffers, whether the callbacks for reading and writing are due, whether the callbacks were set, whether it is connected. libevent makes the read callback due when data arrives,
  the write callback when the output has been transmitted.
\<close>

record bufferevent =
  be_input :: string
  be_output :: string
  be_read :: bool
  be_write :: bool
  be_set :: bool
  be_connected :: bool

definition bufferevent_read :: "bufferevent \<Rightarrow> nat \<Rightarrow> string \<times> bufferevent" where
  "bufferevent_read b n = (take n (be_input b), b\<lparr>be_input := drop n (be_input b)\<rparr>)"

datatype loop_function = RunConnect | RunRecv | RunDiscard | RunSend string | RunSendfile string | RunShutdown | RunDestroy

datatype ssl_result = ConnectDone | RecvDone string | SendDone nat | SslFailed string | SslDiscarded

text \<open>
  Requests have the number of their promise and their size. \<open>sk_calls\<close> are the functions of calls that are about to hand them to the event loop. Recorded: the results of all futures, the bytes
  that arrived, were accepted by \<^verbatim>\<open>send\<close> and were transmitted, and whether the connection failed, a call of \<^verbatim>\<open>sendfile\<close> failed early, the connection was shut down, or a \<^verbatim>\<open>CHECK\<close> failed or
  a null bufferevent was used.
\<close>

record ssl_socket =
  sk_bev :: "bufferevent option"
  sk_recv :: "(nat \<times> nat) option"
  sk_send :: "(nat \<times> nat) option"
  sk_connect :: "nat option"
  sk_eof :: bool
  sk_config :: "bool option"
  sk_calls :: "loop_function list"
  sk_functions :: "loop_function list"
  sk_alive :: bool
  sk_next :: nat
  sk_results :: "(nat \<times> ssl_result) list"
  sk_arrived :: string
  sk_accepted :: string
  sk_wire :: string
  sk_failed :: bool
  sk_stuck :: bool
  sk_shut :: bool
  sk_closed :: nat
  sk_crashed :: bool

definition ssl_new :: ssl_socket where
  "ssl_new = \<lparr>sk_bev = None, sk_recv = None, sk_send = None, sk_connect = None, sk_eof = False, sk_config = None, sk_calls = [], sk_functions = [], sk_alive = True, sk_next = 0, sk_results = [],
     sk_arrived = [], sk_accepted = [], sk_wire = [], sk_failed = False, sk_stuck = False, sk_shut = False, sk_closed = 0, sk_crashed = False\<rparr>"

text \<open>The constructor for an accepted connection, whose callbacks are set at once.\<close>

definition ssl_accepted :: ssl_socket where
  "ssl_accepted = ssl_new\<lparr>sk_bev := Some \<lparr>be_input = [], be_output = [], be_read = False, be_write = False, be_set = True, be_connected = True\<rparr>\<rparr>"

definition crash :: "ssl_socket \<Rightarrow> ssl_socket" where
  "crash s = s\<lparr>sk_crashed := True\<rparr>"

definition ssl_complete :: "nat \<Rightarrow> ssl_result \<Rightarrow> ssl_socket \<Rightarrow> ssl_socket" where
  "ssl_complete i r s = s\<lparr>sk_results := sk_results s @ [(i, r)]\<rparr>"

text \<open>\<^verbatim>\<open>run_in_event_loop\<close>: the call is past its lock and will hand over the function; then the function is in the queue.\<close>

definition begin_call :: "loop_function \<Rightarrow> ssl_socket \<Rightarrow> ssl_socket" where
  "begin_call f s = s\<lparr>sk_calls := sk_calls s @ [f]\<rparr>"

definition run_in_event_loop :: "loop_function \<Rightarrow> ssl_socket \<Rightarrow> ssl_socket" where
  "run_in_event_loop f s = s\<lparr>sk_calls := remove1 f (sk_calls s), sk_functions := sk_functions s @ [f]\<rparr>"

section \<open>Calls\<close>

text \<open>What OpenSSL, libevent and the configuration answer in \<^verbatim>\<open>connect\<close>; a second \<^verbatim>\<open>connect\<close> is not called concurrently.\<close>

record connect_env =
  ce_ctx :: bool
  ce_ssl :: bool
  ce_configured :: "string option"
  ce_bev :: bool
  ce_verify :: bool

definition ssl_connect :: "connect_env \<Rightarrow> ssl_socket \<Rightarrow> ssl_socket" where
  "ssl_connect E s0 = (let i = sk_next s0; s = s0\<lparr>sk_next := Suc i\<rparr> in
     if sk_bev s \<noteq> None then ssl_complete i (SslFailed ''Socket is already connected'') s
     else if sk_connect s \<noteq> None then ssl_complete i (SslFailed ''Socket is already connecting'') s
     else if \<not> ce_ctx E then ssl_complete i (SslFailed ''Invalid SSL context'') s
     else if \<not> ce_ssl E then ssl_complete i (SslFailed ''Failed to connect: SSL_new'') s
     else (let s1 = s\<lparr>sk_config := Some (ce_verify E)\<rparr> in
       case ce_configured E of
         Some e \<Rightarrow> ssl_complete i (SslFailed (''Failed to configure socket: '' @ e)) s1
       | None \<Rightarrow>
           if \<not> ce_bev E then ssl_complete i (SslFailed ''Failed to connect: bufferevent_openssl_socket_new'') s1
           else begin_call RunConnect (s1\<lparr>sk_connect := Some i,
             sk_bev := Some \<lparr>be_input = [], be_output = [], be_read = False, be_write = False, be_set = False, be_connected = False\<rparr>\<rparr>)))"

definition ssl_recv :: "nat \<Rightarrow> ssl_socket \<Rightarrow> ssl_socket" where
  "ssl_recv n s0 = (let i = sk_next s0; s = s0\<lparr>sk_next := Suc i\<rparr> in
     if sk_recv s \<noteq> None then ssl_complete i (SslFailed ''Socket is already receiving'') s
     else begin_call RunRecv (s\<lparr>sk_recv := Some (i, n)\<rparr>))"

text \<open>The callback for a discard of the future of \<^verbatim>\<open>recv\<close>: the request is pending.\<close>

definition ssl_discard :: "ssl_socket \<Rightarrow> ssl_socket" where
  "ssl_discard s = (if sk_recv s \<noteq> None then begin_call RunDiscard s else s)"

definition ssl_send :: "string \<Rightarrow> ssl_socket \<Rightarrow> ssl_socket" where
  "ssl_send d s0 = (let i = sk_next s0; s = s0\<lparr>sk_next := Suc i\<rparr> in
     if sk_send s \<noteq> None then ssl_complete i (SslFailed ''Socket is already sending'') s
     else begin_call (RunSend d) (s\<lparr>sk_send := Some (i, length d), sk_accepted := sk_accepted s @ d\<rparr>))"

text \<open>\<^verbatim>\<open>sendfile\<close> of the bytes \<open>d\<close> of a file, with the error of \<^verbatim>\<open>dup\<close>, \<^verbatim>\<open>cloexec\<close> or \<^verbatim>\<open>nonblock\<close>, if any. After such an error the promise of the request is another than the future returned.\<close>

definition ssl_sendfile :: "string option \<Rightarrow> string \<Rightarrow> ssl_socket \<Rightarrow> ssl_socket" where
  "ssl_sendfile err d s0 = (let i = sk_next s0; s = s0\<lparr>sk_next := Suc i\<rparr> in
     if sk_send s \<noteq> None then ssl_complete i (SslFailed ''Socket is already sending'') s
     else (let s1 = s\<lparr>sk_send := Some (i, length d)\<rparr> in
       case err of
         Some e \<Rightarrow> ssl_complete (Suc i) (SslFailed e) (s1\<lparr>sk_stuck := True, sk_next := Suc (Suc i)\<rparr>)
       | None \<Rightarrow> begin_call (RunSendfile d) (s1\<lparr>sk_accepted := sk_accepted s @ d\<rparr>)))"

definition ssl_shutdown :: "ssl_socket \<Rightarrow> ssl_socket" where
  "ssl_shutdown s =
    (if sk_bev s = None then (if sk_connect s \<noteq> None \<or> sk_recv s \<noteq> None \<or> sk_send s \<noteq> None then crash s else s)
     else begin_call RunShutdown s)"

text \<open>The destructor; the functions of the other calls keep the socket alive.\<close>

definition ssl_destroy :: "ssl_socket \<Rightarrow> ssl_socket" where
  "ssl_destroy s = (if sk_alive s \<and> sk_calls s = [] \<and> sk_functions s = [] then s\<lparr>sk_alive := False, sk_functions := [RunDestroy]\<rparr> else s)"

section \<open>The event loop\<close>

text \<open>A request that was swapped out gets what is in the buffer; \<open>check\<close>: it must not be nothing.\<close>

definition recv_answer :: "bool \<Rightarrow> nat \<times> nat \<Rightarrow> bufferevent \<Rightarrow> ssl_socket \<Rightarrow> ssl_socket" where
  "recv_answer check r b s = (let (x, b') = bufferevent_read b (snd r); s1 = s\<lparr>sk_bev := Some b'\<rparr> in
     if check \<and> x = [] then crash s1 else ssl_complete (fst r) (RecvDone x) s1)"

definition recv_callback :: "ssl_socket \<Rightarrow> ssl_socket" where
  "recv_callback s = (case sk_bev s of
     None \<Rightarrow> crash s
   | Some b \<Rightarrow>
       if be_input b \<noteq> [] \<or> sk_eof s then
         (case sk_recv s of
            None \<Rightarrow> s
          | Some r \<Rightarrow> let s1 = s\<lparr>sk_recv := None\<rparr> in
              if be_input b \<noteq> [] then recv_answer True r b s1 else ssl_complete (fst r) (RecvDone []) s1)
       else s)"

definition send_callback :: "ssl_socket \<Rightarrow> ssl_socket" where
  "send_callback s = (case sk_send s of None \<Rightarrow> s | Some (i, n) \<Rightarrow> ssl_complete i (SendDone n) (s\<lparr>sk_send := None\<rparr>))"

text \<open>\<open>EventConnected\<close> comes with the result of the verification, \<open>EventError\<close> with the error number and its text.\<close>

datatype bev_event = EventEof | EventConnected "string option" | EventError nat string

definition fail_connect :: "string \<Rightarrow> nat option \<Rightarrow> ssl_socket \<Rightarrow> ssl_socket" where
  "fail_connect m c s = (case c of
     None \<Rightarrow> s
   | Some i \<Rightarrow> if sk_bev s = None then crash s else ssl_complete i (SslFailed m) (s\<lparr>sk_bev := None\<rparr>))"

definition fail_request :: "string \<Rightarrow> (nat \<times> nat) option \<Rightarrow> ssl_socket \<Rightarrow> ssl_socket" where
  "fail_request m r s = (case r of None \<Rightarrow> s | Some (i, n) \<Rightarrow> ssl_complete i (SslFailed m) s)"

definition event_closed :: "ssl_socket \<Rightarrow> ssl_socket" where
  "event_closed s = (let s1 = s\<lparr>sk_recv := None, sk_send := None, sk_connect := None, sk_eof := True, sk_failed := True\<rparr>;
     s2 = (case sk_recv s of
       None \<Rightarrow> s1
     | Some r \<Rightarrow> (case sk_bev s of
         None \<Rightarrow> crash s1
       | Some b \<Rightarrow> if be_input b \<noteq> [] then recv_answer True r b s1 else ssl_complete (fst r) (RecvDone []) s1)) in
     fail_connect ''Failed connect: connection closed'' (sk_connect s) (fail_request ''Failed send: connection closed'' (sk_send s) s2))"

definition event_error :: "string \<Rightarrow> ssl_socket \<Rightarrow> ssl_socket" where
  "event_error m s = (let s1 = s\<lparr>sk_recv := None, sk_send := None, sk_connect := None, sk_failed := True\<rparr> in
     fail_connect (''Failed connect, connection error: '' @ m) (sk_connect s)
       (fail_request (''Failed send, connection error: '' @ m) (sk_send s) (fail_request (''Failed recv, connection error: '' @ m) (sk_recv s) s1)))"

definition event_connected :: "string option \<Rightarrow> ssl_socket \<Rightarrow> ssl_socket" where
  "event_connected verify s = (let s1 = s\<lparr>sk_recv := None, sk_send := None, sk_connect := None\<rparr> in
     case (sk_connect s, sk_bev s, sk_config s) of
       (Some i, Some b, Some v) \<Rightarrow>
         if sk_recv s \<noteq> None \<or> sk_send s \<noteq> None then crash s1
         else (case if v then verify else None of
           Some e \<Rightarrow> ssl_complete i (SslFailed e) (s1\<lparr>sk_bev := None\<rparr>)
         | None \<Rightarrow> ssl_complete i ConnectDone (s1\<lparr>sk_bev := Some (b\<lparr>be_connected := True\<rparr>)\<rparr>))
     | _ \<Rightarrow> crash s1)"

definition event_callback :: "bev_event \<Rightarrow> ssl_socket \<Rightarrow> ssl_socket" where
  "event_callback ev s = (case ev of
     EventEof \<Rightarrow> event_closed s
   | EventConnected v \<Rightarrow> event_connected v s
   | EventError e m \<Rightarrow> if e = 0 then event_closed s else event_error m s)"

text \<open>The functions handed to the loop; \<open>ok\<close> is the result of \<^verbatim>\<open>bufferevent_socket_connect\<close>.\<close>

definition run_connect :: "bool \<Rightarrow> ssl_socket \<Rightarrow> ssl_socket" where
  "run_connect ok s = (case sk_bev s of
     None \<Rightarrow> crash s
   | Some b \<Rightarrow>
       if ok then s\<lparr>sk_bev := Some (b\<lparr>be_set := True\<rparr>)\<rparr>
       else (case sk_connect s of
         None \<Rightarrow> crash (s\<lparr>sk_bev := None\<rparr>)
       | Some i \<Rightarrow> ssl_complete i (SslFailed ''Failed to connect: bufferevent_socket_connect'') (s\<lparr>sk_bev := None, sk_connect := None\<rparr>)))"

definition run_recv :: "ssl_socket \<Rightarrow> ssl_socket" where
  "run_recv s = (if sk_recv s \<noteq> None then (case sk_bev s of None \<Rightarrow> crash s | Some b \<Rightarrow> if be_input b \<noteq> [] \<or> sk_eof s then recv_callback s else s) else s)"

definition run_discard :: "ssl_socket \<Rightarrow> ssl_socket" where
  "run_discard s = (case sk_recv s of None \<Rightarrow> s | Some (i, n) \<Rightarrow> ssl_complete i SslDiscarded (s\<lparr>sk_recv := None\<rparr>))"

definition run_send :: "string \<Rightarrow> ssl_socket \<Rightarrow> ssl_socket" where
  "run_send d s = (if sk_send s \<noteq> None then (case sk_bev s of None \<Rightarrow> crash s | Some b \<Rightarrow> s\<lparr>sk_bev := Some (b\<lparr>be_output := be_output b @ d\<rparr>)\<rparr>) else s)"

definition run_shutdown :: "ssl_socket \<Rightarrow> ssl_socket" where
  "run_shutdown s = (case sk_bev s of
     None \<Rightarrow> crash s
   | Some b \<Rightarrow> (case sk_recv s of None \<Rightarrow> s\<lparr>sk_shut := True\<rparr> | Some r \<Rightarrow> recv_answer False r b (s\<lparr>sk_recv := None, sk_shut := True\<rparr>)))"

definition run_function :: "bool \<Rightarrow> loop_function \<Rightarrow> ssl_socket \<Rightarrow> ssl_socket" where
  "run_function ok f s = (case f of
     RunConnect \<Rightarrow> run_connect ok s
   | RunRecv \<Rightarrow> run_recv s
   | RunDiscard \<Rightarrow> run_discard s
   | RunSend d \<Rightarrow> run_send d s
   | RunSendfile d \<Rightarrow> run_send d s
   | RunShutdown \<Rightarrow> run_shutdown s
   | RunDestroy \<Rightarrow> s\<lparr>sk_bev := None, sk_closed := Suc (sk_closed s)\<rparr>)"

text \<open>\<^verbatim>\<open>async_function\<close>, one function at a time.\<close>

definition async_function :: "bool \<Rightarrow> ssl_socket \<Rightarrow> ssl_socket" where
  "async_function ok s = (case sk_functions s of [] \<Rightarrow> s | f # fs \<Rightarrow> run_function ok f (s\<lparr>sk_functions := fs\<rparr>))"

section \<open>Runs\<close>

text \<open>The events after \<open>CallDestroy\<close> are those of the loop and of libevent.\<close>

datatype ssl_event = CallConnect connect_env | CallRecv nat | CallDiscard | CallSend string | CallSendfile "string option" string | CallShutdown | CallDestroy
  | HandOver loop_function | RunFunction bool | Arrive string | Transmit nat | ReadDue | WriteDue | BevEvent bev_event

text \<open>The static callbacks: nothing is done when the socket is gone.\<close>

definition when_alive :: "(ssl_socket \<Rightarrow> ssl_socket) \<Rightarrow> ssl_socket \<Rightarrow> ssl_socket" where
  "when_alive f s = (if sk_alive s then f s else s)"

definition on_bev :: "(bufferevent \<Rightarrow> bool) \<Rightarrow> (bufferevent \<Rightarrow> ssl_socket \<Rightarrow> ssl_socket) \<Rightarrow> ssl_socket \<Rightarrow> ssl_socket" where
  "on_bev P f s = (case sk_bev s of None \<Rightarrow> s | Some b \<Rightarrow> if P b then f b s else s)"

fun bev_event_due :: "bev_event \<Rightarrow> bufferevent \<Rightarrow> bool" where
  "bev_event_due (EventConnected v) b = (be_set b \<and> \<not> be_connected b)"
| "bev_event_due _ b = be_set b"

fun ssl_step :: "ssl_event \<Rightarrow> ssl_socket \<Rightarrow> ssl_socket" where
  "ssl_step (CallConnect E) s = when_alive (ssl_connect E) s"
| "ssl_step (CallRecv n) s = when_alive (ssl_recv n) s"
| "ssl_step CallDiscard s = when_alive ssl_discard s"
| "ssl_step (CallSend d) s = when_alive (ssl_send d) s"
| "ssl_step (CallSendfile e d) s = when_alive (ssl_sendfile e d) s"
| "ssl_step CallShutdown s = when_alive ssl_shutdown s"
| "ssl_step CallDestroy s = ssl_destroy s"
| "ssl_step (HandOver f) s = (if f \<in> set (sk_calls s) then run_in_event_loop f s else s)"
| "ssl_step (RunFunction ok) s = async_function ok s"
| "ssl_step (Arrive x) s = on_bev be_connected (\<lambda>b s. s\<lparr>sk_bev := Some (b\<lparr>be_input := be_input b @ x, be_read := True\<rparr>), sk_arrived := sk_arrived s @ x\<rparr>) s"
| "ssl_step (Transmit n) s = on_bev (\<lambda>b. be_connected b \<and> be_output b \<noteq> [])
     (\<lambda>b s. s\<lparr>sk_bev := Some (b\<lparr>be_output := drop n (be_output b), be_write := be_write b \<or> drop n (be_output b) = []\<rparr>), sk_wire := sk_wire s @ take n (be_output b)\<rparr>) s"
| "ssl_step ReadDue s = on_bev be_read (\<lambda>b s. when_alive recv_callback (s\<lparr>sk_bev := Some (b\<lparr>be_read := False\<rparr>)\<rparr>)) s"
| "ssl_step WriteDue s = on_bev be_write (\<lambda>b s. when_alive send_callback (s\<lparr>sk_bev := Some (b\<lparr>be_write := False\<rparr>)\<rparr>)) s"
| "ssl_step (BevEvent ev) s = on_bev (bev_event_due ev) (\<lambda>b s. when_alive (event_callback ev) s) s"

text \<open>What the callers have to respect: nothing is received, sent or shut down before the connection is made, and buffers are not empty.\<close>

fun up :: "bufferevent option \<Rightarrow> bool" where
  "up None = False" | "up (Some b) = be_connected b"

fun proper :: "ssl_event \<Rightarrow> ssl_socket \<Rightarrow> bool" where
  "proper (CallRecv n) s = (n > 0 \<and> up (sk_bev s))"
| "proper (CallSend d) s = (d \<noteq> [] \<and> up (sk_bev s))"
| "proper (CallSendfile e d) s = (d \<noteq> [] \<and> up (sk_bev s))"
| "proper CallShutdown s = (up (sk_bev s) \<or> sk_bev s = None)"
| "proper _ s = True"

fun proper_run :: "ssl_event list \<Rightarrow> ssl_socket \<Rightarrow> bool" where
  "proper_run [] s = True"
| "proper_run (e # es) s = (proper e s \<and> proper_run es (ssl_step e s))"

definition bytes_received :: "ssl_socket \<Rightarrow> string" where
  "bytes_received s = concat (map (\<lambda>(i, r). case r of RecvDone x \<Rightarrow> x | _ \<Rightarrow> []) (sk_results s))"

section \<open>Invariant\<close>

definition under_way :: "ssl_socket \<Rightarrow> loop_function multiset" where
  "under_way s = mset (sk_calls s) + mset (sk_functions s)"

fun sent_data :: "loop_function \<Rightarrow> string option" where
  "sent_data (RunSend d) = Some d"
| "sent_data (RunSendfile d) = Some d"
| "sent_data _ = None"

definition sends :: "ssl_socket \<Rightarrow> loop_function multiset" where
  "sends s = filter_mset (\<lambda>f. sent_data f \<noteq> None) (under_way s)"

text \<open>The state of the connection and the functions under way.\<close>

definition idle_bev :: "bufferevent \<Rightarrow> bool" where
  "idle_bev b = (be_input b = [] \<and> be_output b = [] \<and> \<not> be_read b \<and> \<not> be_write b)"

fun bev_ok :: "bufferevent option \<Rightarrow> nat option \<Rightarrow> nat \<Rightarrow> bool" where
  "bev_ok None c k = (c = None \<and> k = 0)"
| "bev_ok (Some b) c k = ((c = None) = be_connected b \<and> (be_connected b \<longrightarrow> be_set b) \<and> (be_connected b \<or> idle_bev b) \<and> k = (if be_set b then 0 else 1))"

definition shape_inv :: "ssl_socket \<Rightarrow> bool" where
  "shape_inv s = (\<not> sk_crashed s \<and> bev_ok (sk_bev s) (sk_connect s) (count (under_way s) RunConnect)
     \<and> (sk_recv s \<noteq> None \<or> sk_send s \<noteq> None \<or> RunRecv \<in># under_way s \<or> RunShutdown \<in># under_way s \<or> sends s \<noteq> {#} \<longrightarrow> up (sk_bev s))
     \<and> (sk_connect s = None \<or> sk_config s \<noteq> None)
     \<and> RunDestroy \<notin># under_way s \<and> (\<forall>r\<in>set_option (sk_recv s). snd r > 0))"

definition ssl_pending :: "ssl_socket \<Rightarrow> nat list" where
  "ssl_pending s = (case sk_recv s of None \<Rightarrow> [] | Some r \<Rightarrow> [fst r]) @ (case sk_send s of None \<Rightarrow> [] | Some r \<Rightarrow> [fst r]) @ (case sk_connect s of None \<Rightarrow> [] | Some i \<Rightarrow> [i])"

definition ids :: "ssl_socket \<Rightarrow> nat list" where
  "ids s = ssl_pending s @ map fst (sk_results s)"

definition ids_inv :: "ssl_socket \<Rightarrow> bool" where
  "ids_inv s = (distinct (ids s) \<and> (\<forall>i\<in>set (ids s). i < sk_next s))"

fun bev_in :: "bufferevent option \<Rightarrow> string" where
  "bev_in None = []" | "bev_in (Some b) = be_input b"

fun bev_out :: "bufferevent option \<Rightarrow> string" where
  "bev_out None = []" | "bev_out (Some b) = be_output b"

fun bev_read :: "bufferevent option \<Rightarrow> bool" where
  "bev_read None = False" | "bev_read (Some b) = be_read b"

fun bev_write :: "bufferevent option \<Rightarrow> bool" where
  "bev_write None = False" | "bev_write (Some b) = be_write b"

definition bytes_inv :: "ssl_socket \<Rightarrow> bool" where
  "bytes_inv s = (sk_arrived s = bytes_received s @ bev_in (sk_bev s))"

definition wait_inv :: "ssl_socket \<Rightarrow> bool" where
  "wait_inv s = (sk_recv s \<noteq> None \<and> (bev_in (sk_bev s) \<noteq> [] \<or> sk_eof s) \<longrightarrow> RunRecv \<in># under_way s \<or> bev_read (sk_bev s))"

definition recv_inv :: "ssl_socket \<Rightarrow> bool" where
  "recv_inv s = (bytes_inv s \<and> wait_inv s)"

definition zero_inv :: "ssl_socket \<Rightarrow> bool" where
  "zero_inv s = ((\<exists>i. (i, RecvDone []) \<in> set (sk_results s)) \<longrightarrow> sk_eof s \<or> sk_shut s)"

definition send_ok :: "bool \<Rightarrow> loop_function multiset \<Rightarrow> string \<Rightarrow> bool \<Rightarrow> string \<Rightarrow> string \<Rightarrow> bool" where
  "send_ok idle fs out write wire accepted =
    (if idle then fs = {#} \<and> out = [] \<and> \<not> write \<and> wire = accepted
     else (\<exists>f d. fs = {#f#} \<and> sent_data f = Some d \<and> d \<noteq> [] \<and> out = [] \<and> \<not> write \<and> accepted = wire @ d)
       \<or> (fs = {#} \<and> (out = []) = write \<and> accepted = wire @ out))"

definition send_inv :: "ssl_socket \<Rightarrow> bool" where
  "send_inv s = (sk_failed s \<or> sk_stuck s \<or>
     send_ok (sk_send s = None) (sends s) (bev_out (sk_bev s)) (bev_write (sk_bev s)) (sk_wire s) (sk_accepted s))"

definition core_inv :: "ssl_socket \<Rightarrow> bool" where
  "core_inv s = (shape_inv s \<and> ids_inv s \<and> bytes_inv s \<and> zero_inv s \<and> send_inv s \<and> sk_alive s \<and> sk_closed s = 0)"

definition ssl_inv :: "ssl_socket \<Rightarrow> bool" where
  "ssl_inv s = (shape_inv s \<and> ids_inv s \<and> recv_inv s \<and> zero_inv s \<and> send_inv s \<and> sk_alive s \<and> sk_closed s = 0)"

lemma core_iff: "ssl_inv s \<longleftrightarrow> core_inv s \<and> wait_inv s"
  by (auto simp: ssl_inv_def core_inv_def recv_inv_def)

lemma ids_of: "ssl_inv s \<Longrightarrow> ids_inv s" "core_inv s \<Longrightarrow> ids_inv s"
  by (simp_all add: ssl_inv_def core_inv_def)

lemma received_complete: "bytes_received (ssl_complete i r s) = bytes_received s @ (case r of RecvDone x \<Rightarrow> x | _ \<Rightarrow> [])"
  by (simp add: bytes_received_def ssl_complete_def)

lemma work_simps [simp]:
  "under_way (ssl_complete i r s) = under_way s" "under_way (begin_call f s) = add_mset f (under_way s)" "sends (ssl_complete i r s) = sends s"
  "sends (begin_call f s) = (if sent_data f = None then sends s else add_mset f (sends s))"
  by (auto simp: under_way_def sends_def ssl_complete_def begin_call_def)

lemma work_updates [simp]:
  "under_way (s\<lparr>sk_bev := b\<rparr>) = under_way s" "under_way (s\<lparr>sk_recv := r\<rparr>) = under_way s" "under_way (s\<lparr>sk_send := q\<rparr>) = under_way s" "under_way (s\<lparr>sk_connect := c\<rparr>) = under_way s"
  "under_way (s\<lparr>sk_eof := e\<rparr>) = under_way s" "under_way (s\<lparr>sk_config := g\<rparr>) = under_way s" "under_way (s\<lparr>sk_next := n\<rparr>) = under_way s" "under_way (s\<lparr>sk_arrived := x\<rparr>) = under_way s"
  "under_way (s\<lparr>sk_accepted := x\<rparr>) = under_way s" "under_way (s\<lparr>sk_wire := x\<rparr>) = under_way s" "under_way (s\<lparr>sk_failed := e\<rparr>) = under_way s" "under_way (s\<lparr>sk_stuck := e\<rparr>) = under_way s" "under_way (s\<lparr>sk_shut := e\<rparr>) = under_way s"
  by (simp_all add: under_way_def)

lemma sends_updates [simp]:
  "sends (s\<lparr>sk_bev := b\<rparr>) = sends s" "sends (s\<lparr>sk_recv := r\<rparr>) = sends s" "sends (s\<lparr>sk_send := q\<rparr>) = sends s" "sends (s\<lparr>sk_connect := c\<rparr>) = sends s"
  "sends (s\<lparr>sk_eof := e\<rparr>) = sends s" "sends (s\<lparr>sk_config := g\<rparr>) = sends s" "sends (s\<lparr>sk_next := n\<rparr>) = sends s" "sends (s\<lparr>sk_arrived := x\<rparr>) = sends s"
  "sends (s\<lparr>sk_accepted := x\<rparr>) = sends s" "sends (s\<lparr>sk_wire := x\<rparr>) = sends s" "sends (s\<lparr>sk_failed := e\<rparr>) = sends s" "sends (s\<lparr>sk_stuck := e\<rparr>) = sends s" "sends (s\<lparr>sk_shut := e\<rparr>) = sends s"
  by (simp_all add: sends_def)

lemma received_updates [simp]:
  "bytes_received (s\<lparr>sk_bev := b\<rparr>) = bytes_received s" "bytes_received (s\<lparr>sk_recv := r\<rparr>) = bytes_received s" "bytes_received (s\<lparr>sk_send := q\<rparr>) = bytes_received s" "bytes_received (s\<lparr>sk_connect := c\<rparr>) = bytes_received s"
  "bytes_received (s\<lparr>sk_eof := e\<rparr>) = bytes_received s" "bytes_received (s\<lparr>sk_config := g\<rparr>) = bytes_received s" "bytes_received (s\<lparr>sk_next := n\<rparr>) = bytes_received s" "bytes_received (s\<lparr>sk_arrived := x\<rparr>) = bytes_received s"
  "bytes_received (s\<lparr>sk_accepted := x\<rparr>) = bytes_received s" "bytes_received (s\<lparr>sk_wire := x\<rparr>) = bytes_received s" "bytes_received (s\<lparr>sk_failed := e\<rparr>) = bytes_received s" "bytes_received (s\<lparr>sk_stuck := e\<rparr>) = bytes_received s"
  "bytes_received (s\<lparr>sk_shut := e\<rparr>) = bytes_received s" "bytes_received (begin_call f s) = bytes_received s"
  by (simp_all add: bytes_received_def begin_call_def)

lemma complete_fields [simp]:
  "sk_bev (ssl_complete i r s) = sk_bev s" "sk_recv (ssl_complete i r s) = sk_recv s" "sk_send (ssl_complete i r s) = sk_send s" "sk_connect (ssl_complete i r s) = sk_connect s"
  "sk_eof (ssl_complete i r s) = sk_eof s" "sk_config (ssl_complete i r s) = sk_config s" "sk_next (ssl_complete i r s) = sk_next s" "sk_results (ssl_complete i r s) = sk_results s @ [(i, r)]"
  "sk_arrived (ssl_complete i r s) = sk_arrived s" "sk_accepted (ssl_complete i r s) = sk_accepted s" "sk_wire (ssl_complete i r s) = sk_wire s" "sk_failed (ssl_complete i r s) = sk_failed s"
  "sk_stuck (ssl_complete i r s) = sk_stuck s" "sk_shut (ssl_complete i r s) = sk_shut s" "sk_closed (ssl_complete i r s) = sk_closed s" "sk_crashed (ssl_complete i r s) = sk_crashed s"
  "sk_alive (ssl_complete i r s) = sk_alive s"
  by (simp_all add: ssl_complete_def)

lemma begin_call_fields [simp]:
  "sk_bev (begin_call f s) = sk_bev s" "sk_recv (begin_call f s) = sk_recv s" "sk_send (begin_call f s) = sk_send s" "sk_connect (begin_call f s) = sk_connect s"
  "sk_eof (begin_call f s) = sk_eof s" "sk_config (begin_call f s) = sk_config s" "sk_next (begin_call f s) = sk_next s" "sk_results (begin_call f s) = sk_results s"
  "sk_arrived (begin_call f s) = sk_arrived s" "sk_accepted (begin_call f s) = sk_accepted s" "sk_wire (begin_call f s) = sk_wire s" "sk_failed (begin_call f s) = sk_failed s"
  "sk_stuck (begin_call f s) = sk_stuck s" "sk_shut (begin_call f s) = sk_shut s" "sk_closed (begin_call f s) = sk_closed s" "sk_crashed (begin_call f s) = sk_crashed s"
  "sk_alive (begin_call f s) = sk_alive s"
  by (simp_all add: begin_call_def)

subsection \<open>Calls\<close>


lemma ssl_invI:
  assumes "shape_inv s" and "ids_inv s" and "recv_inv s" and "zero_inv s" and "send_inv s" and "sk_alive s \<and> sk_closed s = 0"
  shows "ssl_inv s"
  using assms by (simp add: ssl_inv_def)

lemma ids_keep:
  assumes "ids_inv s" and "mset (ids s') = mset (ids s)" and "sk_next s' = sk_next s"
  shows "ids_inv s'"
  using assms mset_eq_imp_distinct_iff [OF assms(2)] mset_eq_setD [OF assms(2)] by (simp add: ids_inv_def)

lemma ids_add:
  assumes "ids_inv s" and "mset (ids s') = mset (sk_next s # ids s)" and "sk_next s' = Suc (sk_next s)"
  shows "ids_inv s'"
proof -
  have "distinct (sk_next s # ids s)" "\<forall>i\<in>set (sk_next s # ids s). i < Suc (sk_next s)" using assms(1) by (auto simp: ids_inv_def)
  then show ?thesis using assms(3) mset_eq_imp_distinct_iff [OF assms(2)] mset_eq_setD [OF assms(2)] by (simp add: ids_inv_def)
qed

lemma failed_now_inv:
  assumes "ssl_inv s"
  shows "ssl_inv (ssl_complete (sk_next s) (SslFailed m) (s\<lparr>sk_next := Suc (sk_next s)\<rparr>))" (is "ssl_inv ?s")
proof (rule ssl_invI)
  show "shape_inv ?s" using assms by (simp add: ssl_inv_def shape_inv_def)
  show "ids_inv ?s" by (rule ids_add [OF ids_of(1) [OF assms]]) (simp_all add: ids_def ssl_pending_def)
  show "recv_inv ?s" using assms by (simp add: ssl_inv_def recv_inv_def bytes_inv_def wait_inv_def received_complete)
  show "zero_inv ?s" using assms by (auto simp: ssl_inv_def zero_inv_def)
  show "send_inv ?s" using assms by (simp add: ssl_inv_def send_inv_def)
qed (use assms in \<open>simp add: ssl_inv_def\<close>)

lemma ssl_recv_inv:
  assumes inv: "ssl_inv s" and e: "up (sk_bev s)" and n: "n > 0"
  shows "ssl_inv (ssl_recv n s)"
proof (cases "sk_recv s")
  case None
  let ?s = "ssl_recv n s"
  have d: "?s = begin_call RunRecv (s\<lparr>sk_next := Suc (sk_next s), sk_recv := Some (sk_next s, n)\<rparr>)" using None by (simp add: ssl_recv_def Let_def)
  show ?thesis
  proof (rule ssl_invI)
    show "shape_inv ?s" using inv e n unfolding d by (simp add: ssl_inv_def shape_inv_def)
    show "ids_inv ?s" unfolding d by (rule ids_add [OF ids_of(1) [OF inv]]) (simp_all add: ids_def ssl_pending_def None)
    show "recv_inv ?s" using inv unfolding d by (simp add: ssl_inv_def recv_inv_def bytes_inv_def wait_inv_def)
    show "zero_inv ?s" using inv unfolding d by (simp add: ssl_inv_def zero_inv_def)
    show "send_inv ?s" using inv unfolding d by (simp add: ssl_inv_def send_inv_def)
  qed (use inv in \<open>simp add: d ssl_inv_def\<close>)
next
  case (Some r)
  then show ?thesis using failed_now_inv [OF inv] by (simp add: ssl_recv_def Let_def)
qed

lemma ssl_send_inv:
  assumes inv: "ssl_inv s" and e: "up (sk_bev s)" and n: "d \<noteq> []"
  shows "ssl_inv (ssl_send d s)"
proof (cases "sk_send s")
  case None
  let ?s = "ssl_send d s"
  have d: "?s = begin_call (RunSend d) (s\<lparr>sk_next := Suc (sk_next s), sk_send := Some (sk_next s, length d), sk_accepted := sk_accepted s @ d\<rparr>)"
    using None by (simp add: ssl_send_def Let_def)
  show ?thesis
  proof (rule ssl_invI)
    show "shape_inv ?s" using inv e unfolding d by (simp add: ssl_inv_def shape_inv_def)
    show "ids_inv ?s" unfolding d by (rule ids_add [OF ids_of(1) [OF inv]]) (simp_all add: ids_def ssl_pending_def None)
    show "recv_inv ?s" using inv unfolding d by (simp add: ssl_inv_def recv_inv_def bytes_inv_def wait_inv_def)
    show "zero_inv ?s" using inv unfolding d by (simp add: ssl_inv_def zero_inv_def)
    show "send_inv ?s" using inv n None unfolding d by (auto simp: ssl_inv_def send_inv_def send_ok_def)
  qed (use inv in \<open>simp add: d ssl_inv_def\<close>)
next
  case (Some r)
  then show ?thesis using failed_now_inv [OF inv] by (simp add: ssl_send_def Let_def)
qed

lemma ssl_sendfile_inv:
  assumes inv: "ssl_inv s" and e: "up (sk_bev s)" and n: "d \<noteq> []"
  shows "ssl_inv (ssl_sendfile err d s)"
proof (cases "sk_send s")
  case None
  let ?s = "ssl_sendfile err d s"
  show ?thesis
  proof (cases err)
    case err: None
    have d: "?s = begin_call (RunSendfile d) (s\<lparr>sk_next := Suc (sk_next s), sk_send := Some (sk_next s, length d), sk_accepted := sk_accepted s @ d\<rparr>)"
      using None err by (simp add: ssl_sendfile_def Let_def)
    show ?thesis
    proof (rule ssl_invI)
      show "shape_inv ?s" using inv e unfolding d by (simp add: ssl_inv_def shape_inv_def)
      show "ids_inv ?s" unfolding d by (rule ids_add [OF ids_of(1) [OF inv]]) (simp_all add: ids_def ssl_pending_def None)
      show "recv_inv ?s" using inv unfolding d by (simp add: ssl_inv_def recv_inv_def bytes_inv_def wait_inv_def)
      show "zero_inv ?s" using inv unfolding d by (simp add: ssl_inv_def zero_inv_def)
      show "send_inv ?s" using inv n None unfolding d by (auto simp: ssl_inv_def send_inv_def send_ok_def)
    qed (use inv in \<open>simp add: d ssl_inv_def\<close>)
  next
    case (Some m)
    let ?s1 = "s\<lparr>sk_next := Suc (sk_next s), sk_send := Some (sk_next s, length d), sk_stuck := True\<rparr>"
    have d: "?s = ssl_complete (sk_next ?s1) (SslFailed m) (?s1\<lparr>sk_next := Suc (sk_next ?s1)\<rparr>)" using None Some by (simp add: ssl_sendfile_def Let_def)
    have "ssl_inv ?s1"
    proof (rule ssl_invI)
      show "shape_inv ?s1" using inv e by (simp add: ssl_inv_def shape_inv_def)
      show "ids_inv ?s1" by (rule ids_add [OF ids_of(1) [OF inv]]) (simp_all add: ids_def ssl_pending_def None)
      show "recv_inv ?s1" using inv by (simp add: ssl_inv_def recv_inv_def bytes_inv_def wait_inv_def)
      show "zero_inv ?s1" using inv by (simp add: ssl_inv_def zero_inv_def)
      show "send_inv ?s1" by (simp add: send_inv_def)
    qed (use inv in \<open>simp add: ssl_inv_def\<close>)
    from failed_now_inv [OF this, of m] show ?thesis unfolding d .
  qed
next
  case (Some r)
  then show ?thesis using failed_now_inv [OF inv] by (simp add: ssl_sendfile_def Let_def)
qed

lemma ssl_connect_inv:
  assumes inv: "ssl_inv s"
  shows "ssl_inv (ssl_connect E s)"
proof -
  let ?n = "s\<lparr>sk_next := Suc (sk_next s)\<rparr>" and ?v = "s\<lparr>sk_config := Some (ce_verify E)\<rparr>"
  have c: "ssl_inv ?v"
  proof (rule ssl_invI)
    show "ids_inv ?v" by (rule ids_keep [OF ids_of(1) [OF inv]]) (simp_all add: ids_def ssl_pending_def)
  qed (use inv in \<open>simp_all add: ssl_inv_def shape_inv_def recv_inv_def bytes_inv_def wait_inv_def zero_inv_def send_inv_def\<close>)
  show ?thesis
  proof (cases "sk_bev s = None \<and> sk_connect s = None \<and> ce_ctx E \<and> ce_ssl E \<and> ce_configured E = None \<and> ce_bev E")
    case True
    let ?s = "ssl_connect E s"
    have d: "?s = begin_call RunConnect (s\<lparr>sk_next := Suc (sk_next s), sk_config := Some (ce_verify E), sk_connect := Some (sk_next s),
        sk_bev := Some \<lparr>be_input = [], be_output = [], be_read = False, be_write = False, be_set = False, be_connected = False\<rparr>\<rparr>)"
      using True by (simp add: ssl_connect_def Let_def)
    show ?thesis
    proof (rule ssl_invI)
      show "shape_inv ?s" using inv True unfolding d by (auto simp: ssl_inv_def shape_inv_def idle_bev_def)
      show "ids_inv ?s" unfolding d by (rule ids_add [OF ids_of(1) [OF inv]]) (simp_all add: ids_def ssl_pending_def True)
      show "recv_inv ?s" using inv True unfolding d by (auto simp: ssl_inv_def recv_inv_def bytes_inv_def wait_inv_def shape_inv_def)
      show "zero_inv ?s" using inv unfolding d by (simp add: ssl_inv_def zero_inv_def)
      show "send_inv ?s" using inv True unfolding d by (simp add: ssl_inv_def send_inv_def)
    qed (use inv in \<open>simp add: d ssl_inv_def\<close>)
  next
    case False
    have swap: "s\<lparr>sk_config := x, sk_next := n\<rparr> = s\<lparr>sk_next := n, sk_config := x\<rparr>" for n x by (cases s) simp
    have "ssl_inv (ssl_complete (sk_next s) (SslFailed m) (s\<lparr>sk_next := Suc (sk_next s), sk_config := Some (ce_verify E)\<rparr>))" for m
      using failed_now_inv [OF c, of m] by (simp add: swap)
    then show ?thesis using False failed_now_inv [OF inv] unfolding ssl_connect_def Let_def by (cases "ce_configured E") (simp_all, auto)
  qed
qed

text \<open>Steps that change only the functions under way.\<close>

lemma work_only_inv:
  assumes inv: "ssl_inv s" and "s' = s\<lparr>sk_calls := cs, sk_functions := fs\<rparr>"
    and same: "count (under_way s') RunConnect = count (under_way s) RunConnect" "RunRecv \<in># under_way s' \<longleftrightarrow> RunRecv \<in># under_way s" "RunShutdown \<in># under_way s' \<longrightarrow> up (sk_bev s)" "sends s' = sends s" "RunDestroy \<notin># under_way s'"
  shows "ssl_inv s'"
proof (rule ssl_invI)
  have r: "bytes_received s' = bytes_received s" by (simp add: assms(2) bytes_received_def)
  have f: "sk_bev s' = sk_bev s" "sk_connect s' = sk_connect s" "sk_recv s' = sk_recv s" "sk_send s' = sk_send s" "sk_eof s' = sk_eof s" "sk_config s' = sk_config s" "sk_crashed s' = sk_crashed s"
    by (simp_all add: assms(2))
  show "shape_inv s'" using inv same by (simp add: ssl_inv_def shape_inv_def f)
  show "ids_inv s'" by (rule ids_keep [OF ids_of(1) [OF inv]]) (simp_all add: ids_def ssl_pending_def assms(2))
  show "recv_inv s'" using inv same by (simp add: ssl_inv_def recv_inv_def bytes_inv_def wait_inv_def f r) (simp add: assms(2))
  show "zero_inv s'" using inv by (simp add: ssl_inv_def zero_inv_def assms(2))
  show "send_inv s'" using inv same by (simp add: ssl_inv_def send_inv_def f) (simp add: assms(2))
qed (use inv in \<open>simp add: ssl_inv_def assms(2)\<close>)

lemma ssl_discard_inv:
  assumes inv: "ssl_inv s"
  shows "ssl_inv (ssl_discard s)"
proof (cases "sk_recv s")
  case (Some r)
  then have d: "ssl_discard s = begin_call RunDiscard s" by (simp add: ssl_discard_def)
  show ?thesis
    by (rule work_only_inv [OF inv, where cs = "sk_calls s @ [RunDiscard]" and fs = "sk_functions s"]) (use inv in \<open>simp_all add: d, simp_all add: begin_call_def ssl_inv_def shape_inv_def\<close>)
qed (use inv in \<open>simp add: ssl_discard_def\<close>)

lemma ssl_shutdown_inv:
  assumes inv: "ssl_inv s" and p: "up (sk_bev s) \<or> sk_bev s = None"
  shows "ssl_inv (ssl_shutdown s)"
proof (cases "sk_bev s")
  case (Some b)
  then have d: "ssl_shutdown s = begin_call RunShutdown s" by (simp add: ssl_shutdown_def)
  show ?thesis
    by (rule work_only_inv [OF inv, where cs = "sk_calls s @ [RunShutdown]" and fs = "sk_functions s"]) (use inv p Some in \<open>simp_all add: d, simp_all add: begin_call_def ssl_inv_def shape_inv_def\<close>)
qed (use inv in \<open>auto simp: ssl_shutdown_def ssl_inv_def shape_inv_def\<close>)

lemma hand_over_inv:
  assumes inv: "ssl_inv s" and f: "f \<in> set (sk_calls s)"
  shows "ssl_inv (run_in_event_loop f s)"
proof -
  have w: "under_way (run_in_event_loop f s) = under_way s" using f by (simp add: under_way_def run_in_event_loop_def)
  then have "sends (run_in_event_loop f s) = sends s" by (simp add: sends_def)
  with w inv show ?thesis
    by (intro work_only_inv [OF inv, where cs = "remove1 f (sk_calls s)" and fs = "sk_functions s @ [f]"]) (simp_all add: run_in_event_loop_def ssl_inv_def shape_inv_def)
qed

subsection \<open>The event loop\<close>

text \<open>A pending request for data is answered.\<close>

lemma recv_done_inv:
  assumes inv: "core_inv s" and r: "sk_recv s = Some r" and b: "sk_bev s = Some b"
    and z: "take (snd r) (be_input b) = [] \<longrightarrow> sk_eof s \<or> sk_shut s"
  shows "ssl_inv (ssl_complete (fst r) (RecvDone (take (snd r) (be_input b))) (s\<lparr>sk_recv := None, sk_bev := Some (b\<lparr>be_input := drop (snd r) (be_input b)\<rparr>)\<rparr>))" (is "ssl_inv ?s")
proof (rule ssl_invI)
  have c: "be_connected b" using inv r b by (simp add: core_inv_def shape_inv_def)
  then show "shape_inv ?s" using inv b by (simp add: core_inv_def shape_inv_def)
  show "ids_inv ?s" by (rule ids_keep [OF ids_of(2) [OF inv]]) (simp_all add: ids_def ssl_pending_def r)
  show "recv_inv ?s" using inv b by (simp add: core_inv_def recv_inv_def bytes_inv_def wait_inv_def received_complete)
  show "zero_inv ?s" using inv z by (auto simp: core_inv_def zero_inv_def)
  show "send_inv ?s" using inv b by (simp add: core_inv_def send_inv_def)
qed (use inv in \<open>simp add: core_inv_def\<close>)

lemma recv_ended_inv:
  assumes inv: "core_inv s" and r: "sk_recv s = Some r" and x: "x = SslDiscarded \<or> (\<exists>m. x = SslFailed m) \<or> (x = RecvDone [] \<and> sk_eof s)"
  shows "ssl_inv (ssl_complete (fst r) x (s\<lparr>sk_recv := None\<rparr>))" (is "ssl_inv ?s")
proof (rule ssl_invI)
  show "shape_inv ?s" using inv by (simp add: core_inv_def shape_inv_def)
  show "ids_inv ?s" by (rule ids_keep [OF ids_of(2) [OF inv]]) (simp_all add: ids_def ssl_pending_def r)
  show "recv_inv ?s" using inv x by (auto simp: core_inv_def recv_inv_def bytes_inv_def wait_inv_def received_complete)
  show "zero_inv ?s" using inv x by (auto simp: core_inv_def zero_inv_def)
  show "send_inv ?s" using inv by (simp add: core_inv_def send_inv_def)
qed (use inv in \<open>simp add: core_inv_def\<close>)

lemma recv_callback_inv:
  assumes inv: "core_inv s" and b: "sk_bev s = Some b" and w: "be_input b \<noteq> [] \<or> sk_eof s \<or> wait_inv s"
  shows "ssl_inv (recv_callback s)"
proof (cases "sk_recv s")
  case (Some r)
  have n: "snd r > 0" using inv Some by (simp add: core_inv_def shape_inv_def)
  show ?thesis
  proof (cases "be_input b = []")
    case True
    then show ?thesis using inv b w Some recv_ended_inv [OF inv Some, of "RecvDone []"] by (auto simp: recv_callback_def core_iff)
  next
    case False
    then have t: "take (snd r) (be_input b) \<noteq> []" using n by simp
    then have "recv_callback s = ssl_complete (fst r) (RecvDone (take (snd r) (be_input b))) (s\<lparr>sk_recv := None, sk_bev := Some (b\<lparr>be_input := drop (snd r) (be_input b)\<rparr>)\<rparr>)"
      using b Some False by (simp add: recv_callback_def recv_answer_def bufferevent_read_def Let_def)
    then show ?thesis using recv_done_inv [OF inv Some b] t by simp
  qed
qed (use inv b in \<open>simp add: recv_callback_def core_iff wait_inv_def\<close>)

lemma write_due_inv:
  assumes inv: "ssl_inv s" and b: "sk_bev s = Some b" "be_write b"
  shows "ssl_inv (send_callback (s\<lparr>sk_bev := Some (b\<lparr>be_write := False\<rparr>)\<rparr>))"
proof -
  let ?s = "s\<lparr>sk_bev := Some (b\<lparr>be_write := False\<rparr>)\<rparr>"
  have o: "sk_failed s \<or> sk_stuck s \<or> (sends s = {#} \<and> be_output b = [] \<and> sk_accepted s = sk_wire s \<and> sk_send s \<noteq> None)"
    using inv b by (auto simp: ssl_inv_def send_inv_def send_ok_def split: if_splits)
  show ?thesis
  proof (cases "sk_send s")
    case None
    then have "send_callback ?s = ?s" by (simp add: send_callback_def)
    moreover have "ssl_inv ?s"
    proof (rule ssl_invI)
      show "ids_inv ?s" by (rule ids_keep [OF ids_of(1) [OF inv]]) (simp_all add: ids_def ssl_pending_def)
      show "send_inv ?s" using o None by (auto simp: send_inv_def)
    qed (use inv b in \<open>simp_all add: ssl_inv_def shape_inv_def idle_bev_def recv_inv_def bytes_inv_def wait_inv_def zero_inv_def\<close>)
    ultimately show ?thesis by simp
  next
    case (Some q)
    let ?t = "ssl_complete (fst q) (SendDone (snd q)) (?s\<lparr>sk_send := None\<rparr>)"
    have d: "send_callback ?s = ?t" using Some by (simp add: send_callback_def split: prod.splits)
    show ?thesis unfolding d
    proof (rule ssl_invI)
      show "shape_inv ?t" using inv b by (simp add: ssl_inv_def shape_inv_def idle_bev_def)
      show "ids_inv ?t" by (rule ids_keep [OF ids_of(1) [OF inv]]) (simp_all add: ids_def ssl_pending_def Some)
      show "recv_inv ?t" using inv b by (simp add: ssl_inv_def recv_inv_def bytes_inv_def wait_inv_def received_complete)
      show "zero_inv ?t" using inv by (auto simp: ssl_inv_def zero_inv_def)
      show "send_inv ?t" using o by (auto simp: send_inv_def send_ok_def)
    qed (use inv in \<open>simp add: ssl_inv_def\<close>)
  qed
qed

text \<open>The functions that the loop takes from its queue.\<close>

lemma pop_inv:
  assumes inv: "ssl_inv s" and f: "sk_functions s = f # fs" and k: "f \<noteq> RunConnect" "f \<noteq> RunRecv" "sent_data f = None"
  shows "ssl_inv (s\<lparr>sk_functions := fs\<rparr>)"
proof -
  have w: "under_way s = add_mset f (under_way (s\<lparr>sk_functions := fs\<rparr>))" using f by (simp add: under_way_def)
  then have "sends (s\<lparr>sk_functions := fs\<rparr>) = sends s" using k by (simp add: sends_def)
  with w k inv show ?thesis
    by (intro work_only_inv [OF inv, where cs = "sk_calls s" and fs = fs]) (auto simp: ssl_inv_def shape_inv_def)
qed

lemma run_connect_inv:
  assumes inv: "ssl_inv s" and f: "sk_functions s = RunConnect # fs"
  shows "ssl_inv (run_connect ok (s\<lparr>sk_functions := fs\<rparr>))"
proof -
  let ?s = "s\<lparr>sk_functions := fs\<rparr>"
  have w: "under_way s = add_mset RunConnect (under_way ?s)" using f by (simp add: under_way_def)
  then have sd: "sends ?s = sends s" by (simp add: sends_def)
  obtain b i where b: "sk_bev s = Some b" "\<not> be_set b" "\<not> be_connected b" "idle_bev b" and i: "sk_connect s = Some i" and c: "count (under_way ?s) RunConnect = 0"
    using inv w by (cases "sk_bev s") (auto simp: ssl_inv_def shape_inv_def split: if_splits)
  have r: "bytes_received ?s = bytes_received s" by (simp add: bytes_received_def)
  show ?thesis
  proof (cases ok)
    case True
    then have d: "run_connect ok ?s = ?s\<lparr>sk_bev := Some (b\<lparr>be_set := True\<rparr>)\<rparr>" using b by (simp add: run_connect_def)
    show ?thesis unfolding d
    proof (rule ssl_invI)
      show "shape_inv (?s\<lparr>sk_bev := Some (b\<lparr>be_set := True\<rparr>)\<rparr>)" using inv b i c w sd by (auto simp: ssl_inv_def shape_inv_def idle_bev_def)
      show "ids_inv (?s\<lparr>sk_bev := Some (b\<lparr>be_set := True\<rparr>)\<rparr>)" by (rule ids_keep [OF ids_of(1) [OF inv]]) (simp_all add: ids_def ssl_pending_def)
      show "recv_inv (?s\<lparr>sk_bev := Some (b\<lparr>be_set := True\<rparr>)\<rparr>)" using inv b w by (auto simp: ssl_inv_def recv_inv_def bytes_inv_def wait_inv_def r)
      show "zero_inv (?s\<lparr>sk_bev := Some (b\<lparr>be_set := True\<rparr>)\<rparr>)" using inv by (simp add: ssl_inv_def zero_inv_def)
      show "send_inv (?s\<lparr>sk_bev := Some (b\<lparr>be_set := True\<rparr>)\<rparr>)" using inv b sd by (simp add: ssl_inv_def send_inv_def)
    qed (use inv in \<open>simp add: ssl_inv_def\<close>)
  next
    case False
    let ?t = "ssl_complete i (SslFailed ''Failed to connect: bufferevent_socket_connect'') (?s\<lparr>sk_bev := None, sk_connect := None\<rparr>)"
    have d: "run_connect ok ?s = ?t" using b i False by (simp add: run_connect_def)
    show ?thesis unfolding d
    proof (rule ssl_invI)
      show "shape_inv ?t" using inv b i c w sd by (auto simp: ssl_inv_def shape_inv_def)
      show "ids_inv ?t" by (rule ids_keep [OF ids_of(1) [OF inv]]) (simp_all add: ids_def ssl_pending_def i)
      show "recv_inv ?t" using inv b w by (auto simp: ssl_inv_def recv_inv_def bytes_inv_def wait_inv_def shape_inv_def r received_complete idle_bev_def)
      show "zero_inv ?t" using inv by (auto simp: ssl_inv_def zero_inv_def)
      show "send_inv ?t" using inv b sd by (simp add: ssl_inv_def send_inv_def idle_bev_def)
    qed (use inv in \<open>simp add: ssl_inv_def\<close>)
  qed
qed

lemma run_recv_inv:
  assumes inv: "ssl_inv s" and f: "sk_functions s = RunRecv # fs"
  shows "ssl_inv (run_recv (s\<lparr>sk_functions := fs\<rparr>))"
proof -
  let ?s = "s\<lparr>sk_functions := fs\<rparr>"
  have w: "under_way s = add_mset RunRecv (under_way ?s)" using f by (simp add: under_way_def)
  then have sd: "sends ?s = sends s" by (simp add: sends_def)
  have r: "bytes_received ?s = bytes_received s" by (simp add: bytes_received_def)
  have c: "core_inv ?s" unfolding core_inv_def
  proof (intro conjI)
    show "shape_inv ?s" using inv w sd by (auto simp: ssl_inv_def shape_inv_def)
    show "ids_inv ?s" by (rule ids_keep [OF ids_of(1) [OF inv]]) (simp_all add: ids_def ssl_pending_def)
    show "bytes_inv ?s" using inv by (simp add: ssl_inv_def recv_inv_def bytes_inv_def r)
    show "zero_inv ?s" using inv by (simp add: ssl_inv_def zero_inv_def)
    show "send_inv ?s" using inv sd by (simp add: ssl_inv_def send_inv_def)
  qed (use inv in \<open>simp_all add: ssl_inv_def\<close>)
  obtain b where b: "sk_bev s = Some b" using inv w by (cases "sk_bev s") (auto simp: ssl_inv_def shape_inv_def)
  then show ?thesis using c recv_callback_inv [OF c, of b] by (auto simp: run_recv_def core_iff wait_inv_def)
qed

lemma run_send_inv:
  assumes inv: "ssl_inv s" and f: "sk_functions s = g # fs" and g: "sent_data g = Some d"
  shows "ssl_inv (run_send d (s\<lparr>sk_functions := fs\<rparr>))"
proof -
  let ?s = "s\<lparr>sk_functions := fs\<rparr>"
  have w: "under_way s = add_mset g (under_way ?s)" using f by (simp add: under_way_def)
  then have sd: "sends s = add_mset g (sends ?s)" using g by (simp add: sends_def)
  have k: "g \<noteq> RunConnect" "g \<noteq> RunRecv" "g \<noteq> RunDestroy" "g \<noteq> RunShutdown" using g by auto
  have r: "bytes_received ?s = bytes_received s" by (simp add: bytes_received_def)
  obtain b where b: "sk_bev s = Some b" "be_connected b" using inv sd by (cases "sk_bev s") (auto simp: ssl_inv_def shape_inv_def)
  have o: "sk_failed s \<or> sk_stuck s \<or> (sends ?s = {#} \<and> be_output b = [] \<and> \<not> be_write b \<and> d \<noteq> [] \<and> sk_accepted s = sk_wire s @ d \<and> sk_send s \<noteq> None)"
    using inv b sd g by (auto simp: ssl_inv_def send_inv_def send_ok_def split: if_splits)
  define t where "t = (if sk_send s \<noteq> None then ?s\<lparr>sk_bev := Some (b\<lparr>be_output := be_output b @ d\<rparr>)\<rparr> else ?s)"
  have d: "run_send d ?s = t" using b by (simp add: run_send_def t_def)
  show ?thesis unfolding d
  proof (rule ssl_invI)
    show "shape_inv t" using inv b w sd k by (auto simp: t_def ssl_inv_def shape_inv_def)
    show "ids_inv t" by (rule ids_keep [OF ids_of(1) [OF inv]]) (simp_all add: t_def ids_def ssl_pending_def)
    show "recv_inv t" using inv b w k by (auto simp: t_def ssl_inv_def recv_inv_def bytes_inv_def wait_inv_def r)
    show "zero_inv t" using inv by (simp add: t_def ssl_inv_def zero_inv_def)
    show "send_inv t" using o by (auto simp: t_def send_inv_def send_ok_def)
  qed (use inv in \<open>simp add: t_def ssl_inv_def\<close>)
qed

lemma run_shutdown_inv:
  assumes inv: "ssl_inv s" and b: "sk_bev s = Some b"
  shows "ssl_inv (run_shutdown s)"
proof -
  let ?s = "s\<lparr>sk_shut := True\<rparr>"
  have i: "ssl_inv ?s"
  proof (rule ssl_invI)
    show "ids_inv ?s" by (rule ids_keep [OF ids_of(1) [OF inv]]) (simp_all add: ids_def ssl_pending_def)
  qed (use inv in \<open>simp_all add: ssl_inv_def shape_inv_def recv_inv_def bytes_inv_def wait_inv_def zero_inv_def send_inv_def\<close>)
  show ?thesis
  proof (cases "sk_recv s")
    case (Some r)
    have "run_shutdown s = ssl_complete (fst r) (RecvDone (take (snd r) (be_input b))) (?s\<lparr>sk_recv := None, sk_bev := Some (b\<lparr>be_input := drop (snd r) (be_input b)\<rparr>)\<rparr>)"
      using Some b by (simp add: run_shutdown_def recv_answer_def bufferevent_read_def Let_def) (cases s, simp)
    then show ?thesis using recv_done_inv [of ?s] i Some b by (simp add: core_iff)
  qed (use i b in \<open>simp add: run_shutdown_def\<close>)
qed

subsection \<open>Events\<close>

lemma event_connected_inv:
  assumes inv: "ssl_inv s" and b: "sk_bev s = Some b" "be_set b" "\<not> be_connected b"
  shows "ssl_inv (event_connected v s)"
proof -
  obtain i g where i: "sk_connect s = Some i" and g: "sk_config s = Some g" using inv b by (auto simp: ssl_inv_def shape_inv_def)
  have n: "sk_recv s = None" "sk_send s = None" using inv b by (cases "sk_recv s"; cases "sk_send s"; auto simp: ssl_inv_def shape_inv_def)+
  have idle: "idle_bev b" using inv b by (simp add: ssl_inv_def shape_inv_def)
  let ?s = "s\<lparr>sk_recv := None, sk_send := None, sk_connect := None\<rparr>"
  show ?thesis
  proof (cases "if g then v else None")
    case (Some e)
    let ?t = "ssl_complete i (SslFailed e) (?s\<lparr>sk_bev := None\<rparr>)"
    have d: "event_connected v s = ?t" using Some i g b n by (simp add: event_connected_def Let_def)
    show ?thesis unfolding d
    proof (rule ssl_invI)
      show "shape_inv ?t" using inv b i by (auto simp: ssl_inv_def shape_inv_def)
      show "ids_inv ?t" by (rule ids_keep [OF ids_of(1) [OF inv]]) (simp_all add: ids_def ssl_pending_def i n)
      show "recv_inv ?t" using inv b idle by (simp add: ssl_inv_def recv_inv_def bytes_inv_def wait_inv_def received_complete idle_bev_def)
      show "zero_inv ?t" using inv by (auto simp: ssl_inv_def zero_inv_def)
      show "send_inv ?t" using inv b n idle by (simp add: ssl_inv_def send_inv_def idle_bev_def)
    qed (use inv in \<open>simp add: ssl_inv_def\<close>)
  next
    case None
    let ?t = "ssl_complete i ConnectDone (?s\<lparr>sk_bev := Some (b\<lparr>be_connected := True\<rparr>)\<rparr>)"
    have d: "event_connected v s = ?t" using None i g b n by (simp add: event_connected_def Let_def)
    show ?thesis unfolding d
    proof (rule ssl_invI)
      show "shape_inv ?t" using inv b i by (auto simp: ssl_inv_def shape_inv_def)
      show "ids_inv ?t" by (rule ids_keep [OF ids_of(1) [OF inv]]) (simp_all add: ids_def ssl_pending_def i n)
      show "recv_inv ?t" using inv b n by (simp add: ssl_inv_def recv_inv_def bytes_inv_def wait_inv_def received_complete)
      show "zero_inv ?t" using inv by (auto simp: ssl_inv_def zero_inv_def)
      show "send_inv ?t" using inv b n by (simp add: ssl_inv_def send_inv_def)
    qed (use inv in \<open>simp add: ssl_inv_def\<close>)
  qed
qed

text \<open>After an event the other two requests fail.\<close>

lemma clear_inv:
  assumes inv: "ssl_inv t" and b: "sk_bev t = Some b" "be_set b" and f: "sk_recv t = None" "sk_failed t"
  shows "ssl_inv (fail_connect m (sk_connect t) (fail_request m' (sk_send t) (t\<lparr>sk_send := None, sk_connect := None\<rparr>)))"
proof (cases "sk_connect t")
  case (Some i)
  then have n: "sk_send t = None" and c: "\<not> be_connected b" and idle: "idle_bev b" using inv b by (cases "sk_send t"; auto simp: ssl_inv_def shape_inv_def)+
  let ?t = "ssl_complete i (SslFailed m) (t\<lparr>sk_send := None, sk_connect := None, sk_bev := None\<rparr>)"
  have d: "fail_connect m (sk_connect t) (fail_request m' (sk_send t) (t\<lparr>sk_send := None, sk_connect := None\<rparr>)) = ?t" using Some b n by (simp add: fail_connect_def fail_request_def)
  show ?thesis unfolding d
  proof (rule ssl_invI)
    show "shape_inv ?t" using inv b c f by (auto simp: ssl_inv_def shape_inv_def)
    show "ids_inv ?t" by (rule ids_keep [OF ids_of(1) [OF inv]]) (simp_all add: ids_def ssl_pending_def Some n)
    show "recv_inv ?t" using inv b idle f by (simp add: ssl_inv_def recv_inv_def bytes_inv_def wait_inv_def received_complete idle_bev_def)
    show "zero_inv ?t" using inv by (auto simp: ssl_inv_def zero_inv_def)
    show "send_inv ?t" using f by (simp add: send_inv_def)
  qed (use inv in \<open>simp add: ssl_inv_def\<close>)
next
  case None
  define u where "u = (case sk_send t of None \<Rightarrow> t | Some q \<Rightarrow> ssl_complete (fst q) (SslFailed m') (t\<lparr>sk_send := None\<rparr>))"
  have k: "t\<lparr>sk_connect := None\<rparr> = t" "t\<lparr>sk_send := None, sk_connect := None\<rparr> = t\<lparr>sk_send := None\<rparr>" using None by (cases t; simp)+
  have d: "fail_connect m (sk_connect t) (fail_request m' (sk_send t) (t\<lparr>sk_send := None, sk_connect := None\<rparr>)) = u"
    using None k by (cases "sk_send t"; cases t) (auto simp: fail_connect_def fail_request_def u_def)
  show ?thesis unfolding d
  proof (rule ssl_invI)
    show "shape_inv u" using inv by (simp add: u_def ssl_inv_def shape_inv_def split: option.splits)
    show "ids_inv u" by (rule ids_keep [OF ids_of(1) [OF inv]]) (simp_all add: u_def ids_def ssl_pending_def split: option.splits)
    show "recv_inv u" using inv by (simp add: u_def ssl_inv_def recv_inv_def bytes_inv_def wait_inv_def received_complete split: option.splits)
    show "zero_inv u" using inv by (auto simp: u_def ssl_inv_def zero_inv_def split: option.splits)
    show "send_inv u" using f by (simp add: u_def send_inv_def split: option.splits)
  qed (use inv in \<open>simp add: u_def ssl_inv_def split: option.splits\<close>)
qed

lemma event_error_inv:
  assumes inv: "ssl_inv s" and b: "sk_bev s = Some b" "be_set b"
  shows "ssl_inv (event_error m s)"
proof -
  let ?s = "s\<lparr>sk_failed := True\<rparr>"
  have i: "ssl_inv ?s"
  proof (rule ssl_invI)
    show "ids_inv ?s" by (rule ids_keep [OF ids_of(1) [OF inv]]) (simp_all add: ids_def ssl_pending_def)
  qed (use inv in \<open>simp_all add: ssl_inv_def shape_inv_def recv_inv_def bytes_inv_def wait_inv_def zero_inv_def send_inv_def\<close>)
  define t where "t = (case sk_recv s of None \<Rightarrow> ?s | Some r \<Rightarrow> ssl_complete (fst r) (SslFailed (''Failed recv, connection error: '' @ m)) (?s\<lparr>sk_recv := None\<rparr>))"
  have t: "ssl_inv t" "sk_bev t = Some b" "sk_recv t = None" "sk_failed t" "sk_connect t = sk_connect s" "sk_send t = sk_send s"
    using i b recv_ended_inv [of ?s] by (auto simp: t_def core_iff split: option.splits)
  have "fail_request (''Failed recv, connection error: '' @ m) (sk_recv s) (s\<lparr>sk_recv := None, sk_send := None, sk_connect := None, sk_failed := True\<rparr>) = t\<lparr>sk_send := None, sk_connect := None\<rparr>"
    by (cases s; cases "sk_recv s") (auto simp: t_def fail_request_def ssl_complete_def)
  then have "event_error m s = fail_connect (''Failed connect, connection error: '' @ m) (sk_connect t)
      (fail_request (''Failed send, connection error: '' @ m) (sk_send t) (t\<lparr>sk_send := None, sk_connect := None\<rparr>))"
    using t(5,6) by (simp add: event_error_def Let_def)
  then show ?thesis using clear_inv [OF t(1,2) b(2) t(3,4)] by simp
qed

lemma event_closed_inv:
  assumes inv: "ssl_inv s" and b: "sk_bev s = Some b" "be_set b"
  shows "ssl_inv (event_closed s)"
proof -
  let ?s = "s\<lparr>sk_eof := True, sk_failed := True\<rparr>"
  have c: "core_inv ?s" unfolding core_inv_def
  proof (intro conjI)
    show "ids_inv ?s" by (rule ids_keep [OF ids_of(1) [OF inv]]) (simp_all add: ids_def ssl_pending_def)
  qed (use inv in \<open>simp_all add: ssl_inv_def shape_inv_def recv_inv_def bytes_inv_def zero_inv_def send_inv_def\<close>)
  define t where "t = recv_callback ?s"
  have t: "ssl_inv t" "sk_recv t = None" "sk_failed t" "sk_connect t = sk_connect s" "sk_send t = sk_send s" and bt: "\<exists>b'. sk_bev t = Some b' \<and> be_set b'"
    using recv_callback_inv [OF c] b unfolding t_def by (auto simp: recv_callback_def recv_answer_def bufferevent_read_def crash_def Let_def split: option.splits)
  have "event_closed s = fail_connect ''Failed connect: connection closed'' (sk_connect t)
      (fail_request ''Failed send: connection closed'' (sk_send t) (t\<lparr>sk_send := None, sk_connect := None\<rparr>))"
    using b t(4,5) by (cases s; cases "sk_recv s")
      (auto simp: event_closed_def t_def recv_callback_def recv_answer_def bufferevent_read_def crash_def ssl_complete_def Let_def)
  moreover obtain b' where "sk_bev t = Some b'" "be_set b'" using bt by blast
  ultimately show ?thesis using clear_inv [OF t(1) _ _ t(2,3)] by simp
qed

subsection \<open>The network\<close>

lemma arrive_inv:
  assumes inv: "ssl_inv s" and b: "sk_bev s = Some b" "be_connected b"
  shows "ssl_inv (s\<lparr>sk_bev := Some (b\<lparr>be_input := be_input b @ x, be_read := True\<rparr>), sk_arrived := sk_arrived s @ x\<rparr>)" (is "ssl_inv ?s")
proof (rule ssl_invI)
  show "ids_inv ?s" by (rule ids_keep [OF ids_of(1) [OF inv]]) (simp_all add: ids_def ssl_pending_def)
qed (use inv b in \<open>simp_all add: ssl_inv_def shape_inv_def recv_inv_def bytes_inv_def wait_inv_def zero_inv_def send_inv_def\<close>)

lemma transmit_inv:
  assumes inv: "ssl_inv s" and b: "sk_bev s = Some b" "be_connected b" "be_output b \<noteq> []"
  shows "ssl_inv (s\<lparr>sk_bev := Some (b\<lparr>be_output := drop n (be_output b), be_write := be_write b \<or> drop n (be_output b) = []\<rparr>), sk_wire := sk_wire s @ take n (be_output b)\<rparr>)" (is "ssl_inv ?s")
proof (rule ssl_invI)
  show "ids_inv ?s" by (rule ids_keep [OF ids_of(1) [OF inv]]) (simp_all add: ids_def ssl_pending_def)
  show "send_inv ?s" using inv b by (auto simp: ssl_inv_def send_inv_def send_ok_def)
qed (use inv b in \<open>simp_all add: ssl_inv_def shape_inv_def recv_inv_def bytes_inv_def wait_inv_def zero_inv_def\<close>)

lemma read_due_inv:
  assumes inv: "ssl_inv s" and b: "sk_bev s = Some b"
  shows "ssl_inv (recv_callback (s\<lparr>sk_bev := Some (b\<lparr>be_read := False\<rparr>)\<rparr>))"
proof -
  let ?s = "s\<lparr>sk_bev := Some (b\<lparr>be_read := False\<rparr>)\<rparr>"
  have c: "core_inv ?s" unfolding core_inv_def
  proof (intro conjI)
    show "ids_inv ?s" by (rule ids_keep [OF ids_of(1) [OF inv]]) (simp_all add: ids_def ssl_pending_def)
    show "shape_inv ?s" using inv b by (auto simp: ssl_inv_def shape_inv_def idle_bev_def)
  qed (use inv b in \<open>simp_all add: ssl_inv_def recv_inv_def bytes_inv_def zero_inv_def send_inv_def\<close>)
  then show ?thesis using recv_callback_inv [OF c, of "b\<lparr>be_read := False\<rparr>"] by (auto simp: wait_inv_def)
qed

section \<open>Runs\<close>

definition gone_inv :: "ssl_socket \<Rightarrow> bool" where
  "gone_inv s = (\<not> sk_alive s \<and> \<not> sk_crashed s \<and> distinct (map fst (sk_results s)) \<and> (\<exists>rest. sk_arrived s = bytes_received s @ rest) \<and> zero_inv s \<and> sk_calls s = []
     \<and> (sk_functions s = [RunDestroy] \<and> sk_closed s = 0 \<or> sk_functions s = [] \<and> sk_bev s = None \<and> sk_closed s = 1))"

lemma destroy_gone:
  assumes inv: "ssl_inv s" and e: "sk_calls s = []" "sk_functions s = []"
  shows "gone_inv (ssl_destroy s)"
proof -
  have d: "ssl_destroy s = s\<lparr>sk_alive := False, sk_functions := [RunDestroy]\<rparr>" using inv e by (simp add: ssl_destroy_def ssl_inv_def)
  have "bytes_received (s\<lparr>sk_alive := False, sk_functions := [RunDestroy]\<rparr>) = bytes_received s" by (simp add: bytes_received_def)
  then show ?thesis using inv e unfolding d by (auto simp: gone_inv_def ssl_inv_def ids_inv_def ids_def recv_inv_def bytes_inv_def zero_inv_def shape_inv_def)
qed

lemma function_inv:
  assumes inv: "ssl_inv s" and f: "sk_functions s = f # fs"
  shows "ssl_inv (run_function ok f (s\<lparr>sk_functions := fs\<rparr>))"
proof (cases f)
  case RunConnect
  then show ?thesis using run_connect_inv [OF inv] f by (simp add: run_function_def)
next
  case RunRecv
  then show ?thesis using run_recv_inv [OF inv] f by (simp add: run_function_def)
next
  case RunDiscard
  then have p: "ssl_inv (s\<lparr>sk_functions := fs\<rparr>)" using pop_inv [OF inv f] by simp
  then show ?thesis using RunDiscard recv_ended_inv [of "s\<lparr>sk_functions := fs\<rparr>"] by (auto simp: run_function_def run_discard_def core_iff split: option.splits)
next
  case (RunSend d)
  then show ?thesis using run_send_inv [OF inv f] by (simp add: run_function_def)
next
  case (RunSendfile d)
  then show ?thesis using run_send_inv [OF inv f] by (simp add: run_function_def)
next
  case RunShutdown
  then have p: "ssl_inv (s\<lparr>sk_functions := fs\<rparr>)" using pop_inv [OF inv f] by simp
  have "RunShutdown \<in># under_way s" using f RunShutdown by (simp add: under_way_def)
  then obtain b where "sk_bev s = Some b" using inv by (cases "sk_bev s") (auto simp: ssl_inv_def shape_inv_def)
  then show ?thesis using RunShutdown run_shutdown_inv [OF p] by (simp add: run_function_def)
next
  case RunDestroy
  then have "RunDestroy \<in># under_way s" using f by (simp add: under_way_def)
  then show ?thesis using inv by (simp add: ssl_inv_def shape_inv_def)
qed

lemma live_step:
  assumes inv: "ssl_inv s" and p: "proper e s"
  shows "ssl_inv (ssl_step e s) \<or> gone_inv (ssl_step e s)"
proof -
  have a: "sk_alive s" using inv by (simp add: ssl_inv_def)
  show ?thesis
  proof (cases e)
    case (CallSend d)
    then show ?thesis using a p ssl_send_inv [OF inv] by (simp add: when_alive_def)
  next
    case (CallSendfile m d)
    then show ?thesis using a p ssl_sendfile_inv [OF inv] by (simp add: when_alive_def)
  next
    case CallDestroy
    then show ?thesis using inv a destroy_gone [OF inv] by (auto simp: ssl_destroy_def)
  next
    case (RunFunction ok)
    then show ?thesis using inv function_inv [OF inv] by (auto simp: async_function_def split: list.splits)
  next
    case (Arrive x)
    then show ?thesis using inv arrive_inv [OF inv] by (auto simp: on_bev_def split: option.splits)
  next
    case (Transmit n)
    then show ?thesis using inv transmit_inv [OF inv] by (auto simp: on_bev_def split: option.splits)
  next
    case ReadDue
    then show ?thesis using inv a read_due_inv [OF inv] by (auto simp: on_bev_def when_alive_def split: option.splits)
  next
    case WriteDue
    then show ?thesis using inv a write_due_inv [OF inv] by (auto simp: on_bev_def when_alive_def split: option.splits)
  next
    case (BevEvent ev)
    have "ssl_inv (event_callback ev s)" if "sk_bev s = Some b" "bev_event_due ev b" for b
      using that event_closed_inv [OF inv] event_error_inv [OF inv] event_connected_inv [OF inv] by (cases ev) (auto simp: event_callback_def)
    then show ?thesis using BevEvent inv a by (auto simp: on_bev_def when_alive_def split: option.splits)
  qed (use a p inv ssl_connect_inv ssl_recv_inv ssl_discard_inv ssl_shutdown_inv hand_over_inv in \<open>auto simp: when_alive_def\<close>)
qed

lemma gone_step:
  assumes inv: "gone_inv s"
  shows "gone_inv (ssl_step e s)"
proof -
  have a: "\<not> sk_alive s" using inv by (simp add: gone_inv_def)
  have r: "bytes_received (s\<lparr>sk_functions := [], sk_bev := None, sk_closed := n\<rparr>) = bytes_received s" for n by (simp add: bytes_received_def)
  show ?thesis
  proof (cases e)
    case (RunFunction ok)
    show ?thesis
    proof (cases "sk_functions s")
      case (Cons f fs)
      then have "ssl_step e s = s\<lparr>sk_functions := [], sk_bev := None, sk_closed := Suc (sk_closed s)\<rparr>"
        using inv RunFunction by (auto simp: gone_inv_def async_function_def run_function_def)
      then show ?thesis using inv Cons by (auto simp: gone_inv_def zero_inv_def r)
    qed (use inv RunFunction in \<open>simp add: async_function_def\<close>)
  qed (use a inv in \<open>auto simp: when_alive_def ssl_destroy_def gone_inv_def on_bev_def zero_inv_def split: option.splits\<close>)
qed

lemma ssl_run_inv: "ssl_inv s \<or> gone_inv s \<Longrightarrow> proper_run es s \<Longrightarrow> ssl_inv (fold ssl_step es s) \<or> gone_inv (fold ssl_step es s)"
proof (induction es arbitrary: s)
  case (Cons e es)
  then have "ssl_inv (ssl_step e s) \<or> gone_inv (ssl_step e s)" using live_step gone_step by auto
  then show ?case using Cons by simp
qed simp

lemma ssl_start_inv: "ssl_inv ssl_new" "ssl_inv ssl_accepted"
  by (auto simp: ssl_inv_def ssl_new_def ssl_accepted_def shape_inv_def under_way_def sends_def ids_inv_def ids_def ssl_pending_def recv_inv_def bytes_inv_def wait_inv_def bytes_received_def zero_inv_def
      send_inv_def send_ok_def)

text \<open>C29.
  In every interleaving of the calls with the event loop in which nothing is received, sent or shut down before the connection is made and no buffer is empty: no \<^verbatim>\<open>CHECK\<close> fails and no null bufferevent is used; every
  future gets at most one result; what the receives returned is what arrived, in order and without loss; a receive returns nothing only after the end of the stream or a shutdown; a receive that
  waits while the loop has nothing to do waits for data. Until the connection fails or a call of \<^verbatim>\<open>sendfile\<close> cannot duplicate its descriptor, what was transmitted is what was accepted for sending, in order; when no send is pending, all of it; and a send
  that waits has data left to transmit. The descriptor is closed once, after the socket is gone.
\<close>

theorem ssl_streams:
  assumes "s0 = ssl_new \<or> s0 = ssl_accepted" and "proper_run es s0" and "s = fold ssl_step es s0"
  shows "\<not> sk_crashed s \<and> distinct (map fst (sk_results s)) \<and> (\<exists>rest. sk_arrived s = bytes_received s @ rest)
    \<and> ((\<exists>i. (i, RecvDone []) \<in> set (sk_results s)) \<longrightarrow> sk_eof s \<or> sk_shut s)
    \<and> (sk_alive s \<longrightarrow> sk_arrived s = bytes_received s @ bev_in (sk_bev s)
        \<and> (sk_recv s \<noteq> None \<and> sk_calls s = [] \<and> sk_functions s = [] \<and> \<not> bev_read (sk_bev s) \<longrightarrow> bev_in (sk_bev s) = [] \<and> \<not> sk_eof s))
    \<and> (sk_alive s \<and> \<not> sk_failed s \<and> \<not> sk_stuck s \<longrightarrow> (\<exists>rest. sk_accepted s = sk_wire s @ rest) \<and> (sk_send s = None \<longrightarrow> sk_wire s = sk_accepted s)
        \<and> (sk_send s \<noteq> None \<and> sk_calls s = [] \<and> sk_functions s = [] \<and> \<not> bev_write (sk_bev s) \<longrightarrow> bev_out (sk_bev s) \<noteq> []))
    \<and> sk_closed s = (if sk_alive s \<or> sk_functions s \<noteq> [] then 0 else 1)"
proof -
  have "ssl_inv s \<or> gone_inv s" using ssl_run_inv assms ssl_start_inv by blast
  then show ?thesis
  proof
    assume inv: "ssl_inv s"
    have idle: "under_way s = {#} \<and> sends s = {#}" if "sk_calls s = []" "sk_functions s = []" using that by (simp add: under_way_def sends_def)
    have "(\<exists>rest. sk_accepted s = sk_wire s @ rest) \<and> (sk_send s = None \<longrightarrow> sk_wire s = sk_accepted s)
        \<and> (sk_send s \<noteq> None \<and> sk_calls s = [] \<and> sk_functions s = [] \<and> \<not> bev_write (sk_bev s) \<longrightarrow> bev_out (sk_bev s) \<noteq> [])" if "\<not> sk_failed s" "\<not> sk_stuck s"
      using inv that idle by (auto simp: ssl_inv_def send_inv_def send_ok_def split: if_splits)
    moreover have "\<not> sk_crashed s" "distinct (map fst (sk_results s))" "sk_arrived s = bytes_received s @ bev_in (sk_bev s)" "sk_alive s" "sk_closed s = 0"
      using inv by (simp_all add: ssl_inv_def ids_inv_def ids_def recv_inv_def bytes_inv_def shape_inv_def)
    moreover have "(\<exists>i. (i, RecvDone []) \<in> set (sk_results s)) \<longrightarrow> sk_eof s \<or> sk_shut s" using inv by (simp add: ssl_inv_def zero_inv_def)
    moreover have "sk_recv s \<noteq> None \<and> sk_calls s = [] \<and> sk_functions s = [] \<and> \<not> bev_read (sk_bev s) \<longrightarrow> bev_in (sk_bev s) = [] \<and> \<not> sk_eof s"
      using inv idle by (cases "sk_recv s") (auto simp: ssl_inv_def recv_inv_def wait_inv_def)
    ultimately show ?thesis by simp
  next
    assume "gone_inv s"
    then have "\<not> sk_alive s" "\<not> sk_crashed s" "distinct (map fst (sk_results s))" "\<exists>rest. sk_arrived s = bytes_received s @ rest" "zero_inv s" "sk_closed s = (if sk_functions s \<noteq> [] then 0 else 1)"
      by (auto simp: gone_inv_def)
    then show ?thesis by (simp add: zero_inv_def)
  qed
qed

text \<open>A client connects, sends, receives in two parts and sees the end of the stream.\<close>

definition good_connect :: connect_env where
  "good_connect = \<lparr>ce_ctx = True, ce_ssl = True, ce_configured = None, ce_bev = True, ce_verify = True\<rparr>"

definition client_run :: "ssl_event list" where
  "client_run = [CallConnect good_connect, HandOver RunConnect, RunFunction True, BevEvent (EventConnected None), CallSend ''hi'', CallRecv 2, HandOver RunRecv, HandOver (RunSend ''hi''),
     RunFunction True, RunFunction True, Transmit 1, Transmit 1, WriteDue, Arrive ''abc'', ReadDue, CallRecv 2, HandOver RunRecv, RunFunction True, CallRecv 2, HandOver RunRecv, RunFunction True, BevEvent EventEof]"

theorem ssl_streams_witness:
  "\<exists>s. s = fold ssl_step client_run ssl_new \<and> sk_results s = [(0, ConnectDone), (1, SendDone 2), (2, RecvDone ''ab''), (3, RecvDone ''c''), (4, RecvDone [])]
     \<and> sk_eof s \<and> \<not> sk_crashed s \<and> sk_arrived s = bytes_received s @ bev_in (sk_bev s)"
proof -
  define s where "s = fold ssl_step client_run ssl_new"
  have p: "proper_run client_run ssl_new" and e: "sk_results s = [(0, ConnectDone), (1, SendDone 2), (2, RecvDone ''ab''), (3, RecvDone ''c''), (4, RecvDone [])]" "sk_eof s" "sk_alive s"
    unfolding s_def by code_simp+
  have "\<not> sk_crashed s" "sk_alive s \<longrightarrow> sk_arrived s = bytes_received s @ bev_in (sk_bev s)" using ssl_streams [OF _ p s_def] by simp_all
  then show ?thesis using e unfolding s_def [symmetric] by blast
qed

text \<open>A discard that comes too late for its own receive discards the next one.\<close>

lemma late_discard_hits_next_recv:
  "sk_results (fold ssl_step [CallRecv 5, HandOver RunRecv, RunFunction True, CallDiscard, Arrive ''a'', ReadDue, CallRecv 5, HandOver RunDiscard, RunFunction True] ssl_accepted)
     = [(0, RecvDone ''a''), (1, SslDiscarded)]"
  by code_simp

text \<open>After a \<^verbatim>\<open>sendfile\<close> that fails to duplicate its descriptor every send fails, although nothing is being sent.\<close>

lemma failed_sendfile_blocks_sending:
  "(let s = fold ssl_step [CallSendfile (Some ''dup'') ''x'', CallSend ''y''] ssl_accepted in
     sk_results s = [(1, SslFailed ''dup''), (2, SslFailed ''Socket is already sending'')] \<and> sk_calls s = [] \<and> sk_functions s = [] \<and> bev_out (sk_bev s) = [])"
  by code_simp

text \<open>A shutdown during a connect that fails aborts.\<close>

lemma shutdown_while_connecting_aborts:
  "sk_crashed (fold ssl_step [CallConnect good_connect, HandOver RunConnect, CallShutdown, HandOver RunShutdown, RunFunction False, RunFunction True] ssl_new)"
  by code_simp

end
