(* ===== verification/Ssl_Accept.thy ===== *)
theory Ssl_Accept
  imports Prelude
begin

text \<open>
  The accepting side of \<^verbatim>\<open>LibeventSSLSocketImpl\<close>: \<^verbatim>\<open>listen\<close>, the test for a handshake (\<^verbatim>\<open>peek_callback\<close>), \<^verbatim>\<open>accept_SSL_callback\<close> and the callback that waits for the end of the handshake.
  All of it runs in the event loop. What system calls, OpenSSL and libevent answer are arguments.
\<close>

section \<open>Is it a handshake?\<close>

text \<open>The codes of OpenSSL.\<close>

definition SSL2_MT_CLIENT_HELLO :: nat where
  "SSL2_MT_CLIENT_HELLO = 1"

definition SSL3_RT_HANDSHAKE :: nat where
  "SSL3_RT_HANDSHAKE = 22"

definition SSL3_VERSION_MAJOR :: nat where
  "SSL3_VERSION_MAJOR = 3"

definition SSL3_MT_CLIENT_HELLO :: nat where
  "SSL3_MT_CLIENT_HELLO = 1"

text \<open>The array \<^verbatim>\<open>data\<close>: the bytes that \<^verbatim>\<open>recv\<close> returned, then what was on the stack. An error of \<^verbatim>\<open>recv\<close> returns a negative size, here none.\<close>

definition peek_data :: "nat list \<Rightarrow> string \<Rightarrow> nat list" where
  "peek_data garbage message = (let x = map of_char (take 6 message) in x @ drop (length x) garbage)"

definition is_handshake :: "nat list \<Rightarrow> string \<Rightarrow> bool" where
  "is_handshake garbage message = (let data = peek_data garbage message in
     if length (take 6 message) < 2 then False
     else if data ! 0 \<ge> 128 \<and> data ! 2 = SSL2_MT_CLIENT_HELLO then True
     else data ! 0 = SSL3_RT_HANDSHAKE \<and> data ! 1 = SSL3_VERSION_MAJOR \<and> data ! 5 = SSL3_MT_CLIENT_HELLO)"

section \<open>State\<close>

datatype accept_phase = Peeking | Handshaking | Finished | Dropped

datatype accept_outcome = AcceptedSSL | AcceptedPoll | AcceptFailed string

text \<open>
  Connections are numbered; \<open>ls_requests\<close> is what became of them, \<open>ls_queue\<close> what was put into \<^verbatim>\<open>accept_queue\<close>. \<open>ls_downgrade\<close> is the flag \<^verbatim>\<open>support_downgrade\<close>. Recorded: the sockets closed, the
  bufferevents made and freed, and the handshakes that ended with a certificate that was verified.
\<close>

record listener =
  ls_listening :: bool
  ls_alive :: bool
  ls_downgrade :: bool
  ls_requests :: "accept_phase list"
  ls_queue :: "(nat \<times> accept_outcome) list"
  ls_closed :: "nat list"
  ls_made :: "nat list"
  ls_freed :: "nat list"
  ls_verified :: "nat list"

definition listener_new :: "bool \<Rightarrow> listener" where
  "listener_new downgrade = \<lparr>ls_listening = False, ls_alive = True, ls_downgrade = downgrade, ls_requests = [], ls_queue = [], ls_closed = [], ls_made = [], ls_freed = [], ls_verified = []\<rparr>"

text \<open>
  \<^verbatim>\<open>listen\<close>; the first argument is the result of \<^verbatim>\<open>evconnlistener_new\<close>. A socket that listens has no bufferevent, as its \<^verbatim>\<open>CHECK\<close> demands: the listener of this model is never connected.
\<close>

definition ssl_listen :: "bool \<Rightarrow> listener \<Rightarrow> (string + unit) \<times> listener" where
  "ssl_listen ok s =
    (if ls_listening s then (Inl ''Socket is already listening'', s)
     else if \<not> ok then (Inl ''Failed to listen on socket'', s)
     else (Inr (), s\<lparr>ls_listening := True\<rparr>))"

text \<open>The promise of a request is completed and its callback puts the result into the queue; the request is deleted.\<close>

definition finish_accept :: "nat \<Rightarrow> accept_outcome \<Rightarrow> listener \<Rightarrow> listener" where
  "finish_accept i r s = s\<lparr>ls_requests := (ls_requests s)[i := Finished], ls_queue := ls_queue s @ [(i, r)]\<rparr>"

definition close_accepted :: "nat \<Rightarrow> listener \<Rightarrow> listener" where
  "close_accepted i s = s\<lparr>ls_closed := ls_closed s @ [i], ls_freed := ls_freed s @ [i]\<rparr>"

section \<open>Operations\<close>

record accept_env =
  ae_cloexec :: "string option"
  ae_ssl :: bool
  ae_peer :: bool
  ae_configured :: "string option"
  ae_bev :: bool

definition accept_SSL_callback :: "accept_env \<Rightarrow> nat \<Rightarrow> listener \<Rightarrow> listener" where
  "accept_SSL_callback E i s =
    (if \<not> ae_ssl E then finish_accept i (AcceptFailed ''Accept failed, SSL_new'') s
     else if \<not> ae_peer E then finish_accept i (AcceptFailed ''Could not determine peer IP for connection.'') s
     else case ae_configured E of
       Some e \<Rightarrow> finish_accept i (AcceptFailed (''Could not configure socket: '' @ e)) s
     | None \<Rightarrow>
         if \<not> ae_bev E then finish_accept i (AcceptFailed ''Accept failed: bufferevent_openssl_socket_new'') s
         else s\<lparr>ls_requests := (ls_requests s)[i := Handshaking], ls_made := ls_made s @ [i]\<rparr>)"

definition accept_callback :: "accept_env \<Rightarrow> nat \<Rightarrow> listener \<Rightarrow> listener" where
  "accept_callback E i s = (if ls_downgrade s then s\<lparr>ls_requests := (ls_requests s)[i := Peeking]\<rparr> else accept_SSL_callback E i s)"

text \<open>The callback of the listener: a connection was accepted.\<close>

definition connection_accepted :: "accept_env \<Rightarrow> listener \<Rightarrow> listener" where
  "connection_accepted E s0 = (let i = length (ls_requests s0); s = s0\<lparr>ls_requests := ls_requests s0 @ [Dropped]\<rparr> in
     case ae_cloexec E of
       Some e \<Rightarrow> (let s1 = (if ls_alive s then finish_accept i (AcceptFailed (''Failed to accept, cloexec: '' @ e)) s else s) in s1\<lparr>ls_closed := ls_closed s1 @ [i]\<rparr>)
     | None \<Rightarrow> if ls_alive s then accept_callback E i s else s)"

text \<open>\<open>created\<close> is the error of \<^verbatim>\<open>PollSocketImpl::create\<close>.\<close>

definition peek_callback :: "accept_env \<Rightarrow> string option \<Rightarrow> nat list \<Rightarrow> string \<Rightarrow> nat \<Rightarrow> listener \<Rightarrow> listener" where
  "peek_callback E created garbage message i s =
    (if is_handshake garbage message then accept_SSL_callback E i s
     else case created of
       Some e \<Rightarrow> finish_accept i (AcceptFailed e) s
     | None \<Rightarrow> finish_accept i AcceptedPoll s)"

datatype handshake_event = HandshakeEof | HandshakeConnected "string option" | HandshakeError string

definition handshake_callback :: "handshake_event \<Rightarrow> nat \<Rightarrow> listener \<Rightarrow> listener" where
  "handshake_callback ev i s = (case ev of
     HandshakeEof \<Rightarrow> finish_accept i (AcceptFailed ''Failed accept: connection closed'') s
   | HandshakeConnected (Some e) \<Rightarrow> close_accepted i (finish_accept i (AcceptFailed e) s)
   | HandshakeConnected None \<Rightarrow> finish_accept i AcceptedSSL (s\<lparr>ls_verified := ls_verified s @ [i]\<rparr>)
   | HandshakeError m \<Rightarrow> finish_accept i (AcceptFailed (''Failed accept: connection error: '' @ m)) (close_accepted i s))"

section \<open>Runs\<close>

datatype listener_event = Listen bool | NewConnection accept_env | Readable accept_env "string option" "nat list" string nat | Handshake handshake_event nat | DestroyListener

definition in_phase :: "accept_phase \<Rightarrow> nat \<Rightarrow> listener \<Rightarrow> bool" where
  "in_phase p i s = (i < length (ls_requests s) \<and> ls_requests s ! i = p)"

fun listener_step :: "listener_event \<Rightarrow> listener \<Rightarrow> listener" where
  "listener_step (Listen ok) s = snd (ssl_listen ok s)"
| "listener_step (NewConnection E) s = (if ls_listening s then connection_accepted E s else s)"
| "listener_step (Readable E c g m i) s = (if in_phase Peeking i s then peek_callback E c g m i s else s)"
| "listener_step (Handshake ev i) s = (if in_phase Handshaking i s then handshake_callback ev i s else s)"
| "listener_step DestroyListener s = s\<lparr>ls_alive := False\<rparr>"

text \<open>A connection is of interest here in its phase, its results, and whether it was closed.\<close>

definition results_of :: "nat \<Rightarrow> listener \<Rightarrow> accept_outcome list" where
  "results_of i s = map snd (filter (\<lambda>x. fst x = i) (ls_queue s))"

fun connection_ok :: "bool \<Rightarrow> accept_phase \<Rightarrow> accept_outcome list \<Rightarrow> nat \<Rightarrow> nat \<Rightarrow> nat \<Rightarrow> bool \<Rightarrow> bool" where
  "connection_ok d Peeking rs c m f v = (d \<and> rs = [] \<and> c = 0 \<and> m = 0 \<and> f = 0)"
| "connection_ok d Handshaking rs c m f v = (rs = [] \<and> c = 0 \<and> m = 1 \<and> f = 0)"
| "connection_ok d Dropped rs c m f v = (rs = [] \<and> c \<le> 1 \<and> m = 0 \<and> f = 0)"
| "connection_ok d Finished rs c m f v = (c \<le> 1 \<and> f \<le> c \<and> f \<le> m \<and> m \<le> 1
     \<and> (rs = [AcceptedSSL] \<and> v \<and> c = 0 \<and> m = 1 \<or> rs = [AcceptedPoll] \<and> d \<and> c = 0 \<and> m = 0 \<or> (\<exists>e. rs = [AcceptFailed e])))"

definition listener_inv :: "listener \<Rightarrow> bool" where
  "listener_inv s = ((\<forall>i < length (ls_requests s). connection_ok (ls_downgrade s) (ls_requests s ! i) (results_of i s)
       (count_list (ls_closed s) i) (count_list (ls_made s) i) (count_list (ls_freed s) i) (i \<in> set (ls_verified s)))
     \<and> (\<forall>i \<ge> length (ls_requests s). results_of i s = [] \<and> count_list (ls_closed s) i = 0 \<and> count_list (ls_made s) i = 0 \<and> count_list (ls_freed s) i = 0))"

lemma results_of_finish: "results_of j (finish_accept i r s) = results_of j s @ (if j = i then [r] else [])"
  by (simp add: results_of_def finish_accept_def)

lemma results_of_same: "ls_queue s' = ls_queue s \<Longrightarrow> results_of i s' = results_of i s"
  by (simp add: results_of_def)

text \<open>An operation on connection \<open>i\<close> leaves the others alone.\<close>

lemma one_connection:
  assumes inv: "listener_inv s" and i: "i < length (ls_requests s)" and l: "length (ls_requests s') = length (ls_requests s)" "ls_downgrade s' = ls_downgrade s"
    and others: "\<And>j. j \<noteq> i \<Longrightarrow> ls_requests s' ! j = ls_requests s ! j \<and> results_of j s' = results_of j s \<and> count_list (ls_closed s') j = count_list (ls_closed s) j
      \<and> count_list (ls_made s') j = count_list (ls_made s) j \<and> count_list (ls_freed s') j = count_list (ls_freed s) j \<and> (j \<in> set (ls_verified s') \<longleftrightarrow> j \<in> set (ls_verified s))"
    and this_one: "connection_ok (ls_downgrade s) (ls_requests s' ! i) (results_of i s') (count_list (ls_closed s') i) (count_list (ls_made s') i) (count_list (ls_freed s') i) (i \<in> set (ls_verified s'))"
  shows "listener_inv s'"
  unfolding listener_inv_def
proof (intro conjI allI impI)
  fix j
  assume j: "j < length (ls_requests s')"
  show "connection_ok (ls_downgrade s') (ls_requests s' ! j) (results_of j s') (count_list (ls_closed s') j) (count_list (ls_made s') j) (count_list (ls_freed s') j) (j \<in> set (ls_verified s'))"
    using inv this_one others [of j] j l by (cases "j = i") (auto simp: listener_inv_def)
next
  fix j
  assume "length (ls_requests s') \<le> j"
  then show "results_of j s' = []" "count_list (ls_closed s') j = 0" "count_list (ls_made s') j = 0" "count_list (ls_freed s') j = 0"
    using inv others [of j] l i by (auto simp: listener_inv_def)
qed

lemmas accept_simps = finish_accept_def close_accepted_def results_of_def

lemma accept_SSL_inv:
  assumes inv: "listener_inv s" and i: "i < length (ls_requests s)" and p: "ls_requests s ! i = Peeking \<or> ls_requests s ! i = Dropped \<and> count_list (ls_closed s) i = 0"
  shows "listener_inv (accept_SSL_callback E i s)"
proof -
  have z: "results_of i s = []" "count_list (ls_closed s) i = 0" "count_list (ls_made s) i = 0" "count_list (ls_freed s) i = 0" using inv i p by (auto simp: listener_inv_def)
  then have q: "filter (\<lambda>x. fst x = i) (ls_queue s) = []" by (simp add: results_of_def)
  have f: "listener_inv (finish_accept i (AcceptFailed e) s)" for e
    by (rule one_connection [OF inv i]) (use i z q in \<open>simp_all add: accept_simps\<close>)
  have h: "listener_inv (s\<lparr>ls_requests := (ls_requests s)[i := Handshaking], ls_made := ls_made s @ [i]\<rparr>)"
    by (rule one_connection [OF inv i]) (use i z q in \<open>simp_all add: accept_simps\<close>)
  show ?thesis using f h by (auto simp: accept_SSL_callback_def split: option.splits)
qed

lemma connection_accepted_inv:
  assumes inv: "listener_inv s"
  shows "listener_inv (connection_accepted E s)"
proof -
  let ?i = "length (ls_requests s)" and ?s = "s\<lparr>ls_requests := ls_requests s @ [Dropped]\<rparr>"
  have z: "results_of ?i s = []" "count_list (ls_closed s) ?i = 0" "count_list (ls_made s) ?i = 0" "count_list (ls_freed s) ?i = 0" using inv by (auto simp: listener_inv_def)
  then have q: "filter (\<lambda>x. fst x = ?i) (ls_queue s) = []" by (simp add: results_of_def)
  have n: "listener_inv ?s" using inv z by (auto simp: listener_inv_def results_of_def nth_append less_Suc_eq)
  have i: "?i < length (ls_requests ?s)" by simp
  have c: "listener_inv (t\<lparr>ls_closed := ls_closed t @ [?i]\<rparr>)" if "t = ?s \<or> t = finish_accept ?i (AcceptFailed e) ?s" for t e
    by (rule one_connection [OF n i]) (use that z q in \<open>auto simp: accept_simps nth_append\<close>)
  have p: "listener_inv (?s\<lparr>ls_requests := (ls_requests ?s)[?i := Peeking]\<rparr>)" if "ls_downgrade s"
    by (rule one_connection [OF n i]) (use that z q in \<open>auto simp: accept_simps nth_append\<close>)
  have "ls_requests ?s ! ?i = Dropped \<and> count_list (ls_closed ?s) ?i = 0" using z by simp
  then have "listener_inv (accept_callback E ?i ?s)" using accept_SSL_inv [OF n i] p by (auto simp: accept_callback_def)
  then show ?thesis using n c c [of ?s] by (auto simp: connection_accepted_def Let_def split: option.splits)
qed

lemma peek_inv:
  assumes inv: "listener_inv s" and p: "in_phase Peeking i s"
  shows "listener_inv (peek_callback E created g m i s)"
proof -
  have i: "i < length (ls_requests s)" "ls_requests s ! i = Peeking" using p by (auto simp: in_phase_def)
  have z: "results_of i s = []" "count_list (ls_closed s) i = 0" "count_list (ls_made s) i = 0" "count_list (ls_freed s) i = 0" "ls_downgrade s" using inv i by (auto simp: listener_inv_def)
  then have q: "filter (\<lambda>x. fst x = i) (ls_queue s) = []" by (simp add: results_of_def)
  have "listener_inv (finish_accept i r s)" if "r = AcceptedPoll \<or> r = AcceptFailed e" for r e
    by (rule one_connection [OF inv i(1)]) (use i z q that in \<open>auto simp: accept_simps\<close>)
  then show ?thesis using accept_SSL_inv [OF inv i(1)] i by (auto simp: peek_callback_def split: option.splits)
qed

lemma handshake_inv:
  assumes inv: "listener_inv s" and p: "in_phase Handshaking i s"
  shows "listener_inv (handshake_callback ev i s)"
proof -
  have i: "i < length (ls_requests s)" "ls_requests s ! i = Handshaking" using p by (auto simp: in_phase_def)
  have z: "results_of i s = []" "count_list (ls_closed s) i = 0" "count_list (ls_made s) i = 1" "count_list (ls_freed s) i = 0" using inv i by (auto simp: listener_inv_def)
  then have q: "filter (\<lambda>x. fst x = i) (ls_queue s) = []" by (simp add: results_of_def)
  show ?thesis
    by (rule one_connection [OF inv i(1)]) (use i z q in \<open>auto simp: handshake_callback_def accept_simps split: handshake_event.splits option.splits\<close>)
qed

lemma listener_step_inv:
  assumes inv: "listener_inv s"
  shows "listener_inv (listener_step e s)"
proof (cases e)
  case (Listen ok)
  then show ?thesis using inv by (auto simp: ssl_listen_def listener_inv_def results_of_def)
next
  case DestroyListener
  then show ?thesis using inv by (auto simp: listener_inv_def results_of_def)
qed (use inv connection_accepted_inv peek_inv handshake_inv in auto)

lemma listener_run_inv: "listener_inv s \<Longrightarrow> listener_inv (fold listener_step es s)"
  by (induction es arbitrary: s) (simp_all add: listener_step_inv)

lemma listener_new_inv: "listener_inv (listener_new d)"
  by (simp add: listener_inv_def listener_new_def results_of_def)

lemma dropped_step:
  assumes "ls_alive (listener_step e s)" and "Dropped \<notin> set (ls_requests s)"
  shows "Dropped \<notin> set (ls_requests (listener_step e s))"
proof -
  have u: "Dropped \<notin> set (xs[i := p])" if "Dropped \<notin> set xs" "p \<noteq> Dropped" for xs i and p using that set_update_subset_insert [of xs i p] by auto
  show ?thesis
    using assms u by (cases e) (auto simp: ssl_listen_def connection_accepted_def accept_callback_def accept_SSL_callback_def peek_callback_def handshake_callback_def finish_accept_def close_accepted_def Let_def
      split: option.splits handshake_event.splits if_splits)
qed

lemma alive_step: "ls_alive (listener_step e s) \<Longrightarrow> ls_alive s"
  by (cases e) (auto simp: ssl_listen_def connection_accepted_def accept_callback_def accept_SSL_callback_def peek_callback_def handshake_callback_def finish_accept_def close_accepted_def Let_def
      split: option.splits handshake_event.splits if_splits)

lemma alive_run: "ls_alive (fold listener_step es s) \<Longrightarrow> ls_alive s"
  by (induction es arbitrary: s) (auto dest: alive_step)

lemma dropped_run: "ls_alive (fold listener_step es s) \<Longrightarrow> Dropped \<notin> set (ls_requests s) \<Longrightarrow> Dropped \<notin> set (ls_requests (fold listener_step es s))"
proof (induction es arbitrary: s)
  case (Cons e es)
  then have "ls_alive (listener_step e s)" using alive_run [of es] by simp
  then show ?case using Cons dropped_step [of e s] by simp
qed simp

text \<open>Which messages are taken for a handshake.\<close>

lemma plain_text_is_no_handshake:
  assumes "m \<noteq> []" and "of_char (hd m) < (128 :: nat)" and "of_char (hd m) \<noteq> (22 :: nat)"
  shows "\<not> is_handshake g m"
  using assms by (cases m) (auto simp: is_handshake_def peek_data_def SSL3_RT_HANDSHAKE_def)

lemma whole_prefix_decides: "6 \<le> length m \<Longrightarrow> is_handshake g m = is_handshake g' m"
  by (simp add: is_handshake_def peek_data_def nth_append)

text \<open>
  Whatever libevent, OpenSSL and the system answer: every connection that is accepted while the listener exists gets at most one result, exactly one once its request is deleted, and waits for
  data or for the end of its handshake until then. A connection is handed out as a secure one only after its handshake ended and its certificate was verified, and as a plain one only if
  downgrading is allowed. A socket is closed at most once and never when it was handed out, a bufferevent is freed at most once. What begins with a printable character is no handshake.
\<close>

theorem connections_accepted_once:
  assumes "s = fold listener_step es (listener_new d)" and "i < length (ls_requests s)"
  shows "length (results_of i s) = (if ls_requests s ! i = Finished then 1 else 0)
    \<and> (AcceptedSSL \<in> set (results_of i s) \<longrightarrow> i \<in> set (ls_verified s) \<and> i \<notin> set (ls_closed s) \<and> i \<notin> set (ls_freed s))
    \<and> (AcceptedPoll \<in> set (results_of i s) \<longrightarrow> d \<and> i \<notin> set (ls_closed s))
    \<and> count_list (ls_closed s) i \<le> 1 \<and> count_list (ls_freed s) i \<le> count_list (ls_made s) i \<and> count_list (ls_made s) i \<le> 1
    \<and> (ls_alive s \<longrightarrow> ls_requests s ! i \<noteq> Dropped)
    \<and> (\<forall>g m. m \<noteq> [] \<and> of_char (hd m) \<in> {32..<127 :: nat} \<longrightarrow> \<not> is_handshake g m)"
proof -
  have down: "ls_downgrade (listener_step e t) = ls_downgrade t" for e t
    by (cases e) (auto simp: ssl_listen_def connection_accepted_def accept_callback_def accept_SSL_callback_def peek_callback_def handshake_callback_def finish_accept_def close_accepted_def Let_def
      split: option.splits handshake_event.splits)
  have "ls_downgrade (fold listener_step es t) = ls_downgrade t" for t by (induction es arbitrary: t) (simp_all add: down)
  then have d: "ls_downgrade s = d" using assms(1) by (simp add: listener_new_def)
  have inv: "listener_inv s" using assms(1) listener_run_inv [OF listener_new_inv] by simp
  then have ok: "connection_ok d (ls_requests s ! i) (results_of i s) (count_list (ls_closed s) i) (count_list (ls_made s) i) (count_list (ls_freed s) i) (i \<in> set (ls_verified s))"
    using assms(2) d by (simp add: listener_inv_def)
  have zero: "count_list xs i = 0 \<longleftrightarrow> i \<notin> set xs" for xs by (rule count_list_0_iff)
  have "length (results_of i s) = (if ls_requests s ! i = Finished then 1 else 0)" using ok by (cases "ls_requests s ! i") auto
  moreover have "AcceptedSSL \<in> set (results_of i s) \<longrightarrow> i \<in> set (ls_verified s) \<and> i \<notin> set (ls_closed s) \<and> i \<notin> set (ls_freed s)"
    "AcceptedPoll \<in> set (results_of i s) \<longrightarrow> d \<and> i \<notin> set (ls_closed s)"
    using ok by (cases "ls_requests s ! i"; auto simp flip: zero)+
  moreover have "count_list (ls_closed s) i \<le> 1" "count_list (ls_freed s) i \<le> count_list (ls_made s) i" "count_list (ls_made s) i \<le> 1" using ok by (cases "ls_requests s ! i"; auto)+
  moreover have "ls_alive s \<longrightarrow> ls_requests s ! i \<noteq> Dropped"
    using dropped_run [of es "listener_new d"] nth_mem [OF assms(2)] unfolding assms(1) [symmetric] by (auto simp: listener_new_def)
  moreover have "\<forall>g m. m \<noteq> [] \<and> of_char (hd m) \<in> {32..<127 :: nat} \<longrightarrow> \<not> is_handshake g m" using plain_text_is_no_handshake by auto
  ultimately show ?thesis by blast
qed

definition good_accept :: accept_env where
  "good_accept = \<lparr>ae_cloexec = None, ae_ssl = True, ae_peer = True, ae_configured = None, ae_bev = True\<rparr>"

text \<open>Two connections with downgrading: one of each kind.\<close>

definition both_kinds :: "listener_event list" where
  "both_kinds = [Listen True, NewConnection good_accept, NewConnection good_accept, Readable good_accept None [0, 0, 0, 0, 0, 0] ''GET /'' 0,
     Readable good_accept None [0, 0, 0, 0, 0, 0] [CHR 0x16, CHR 0x03, CHR 0x01, CHR 0x02, CHR 0x00, CHR 0x01] 1, Handshake (HandshakeConnected None) 1]"

theorem connections_accepted_once_witness:
  "\<exists>s. s = fold listener_step both_kinds (listener_new True) \<and> ls_queue s = [(0, AcceptedPoll), (1, AcceptedSSL)] \<and> length (results_of 1 s) = 1 \<and> 1 \<in> set (ls_verified s)"
proof -
  define s where "s = fold listener_step both_kinds (listener_new True)"
  have e: "ls_queue s = [(0, AcceptedPoll), (1, AcceptedSSL)]" "1 < length (ls_requests s)" "results_of 1 s = [AcceptedSSL]" unfolding s_def by code_simp+
  then have "1 \<in> set (ls_verified s)" using connections_accepted_once [OF s_def, of 1] by simp
  then show ?thesis using e unfolding s_def [symmetric] by simp
qed

text \<open>With two bytes the decision depends on what was on the stack.\<close>

lemma peek_reads_uninitialized: "is_handshake [0, 0, 1, 0, 0, 0] [CHR 0x80, CHR 0x00] \<and> \<not> is_handshake [0, 0, 0, 0, 0, 0] [CHR 0x80, CHR 0x00]"
  by code_simp

text \<open>A connection that is closed during its handshake keeps its descriptor and its bufferevent.\<close>

lemma closed_handshake_leaks:
  "(let s = fold listener_step [Listen True, NewConnection good_accept, Handshake HandshakeEof 0] (listener_new False) in
     ls_queue s = [(0, AcceptFailed ''Failed accept: connection closed'')] \<and> ls_closed s = [] \<and> ls_made s = [0] \<and> ls_freed s = [])"
  by code_simp

end
