(* ===== verification/Spec2Isabelle.thy ===== *)
theory Spec2Isabelle
  imports Future_Properties Locks Clock Process_Properties Socket_Properties Channels Http_Url Time_Series Message_Passing Routing Http_Proxy Connections Mpsc_Queue Gathering Pacing Semaphores Loops Serving Http_Server Authentication Memory_Profiling Ownership Ssl_Sockets Ssl_Accept
begin

text \<open>
  \<^bold>\<open>libprocess\<close>

  libprocess is an actor library. A \<^emph>\<open>process\<close> has a queue of events and is run by one of a pool of worker threads; processes on the same node or on others exchange messages, link to each
  other and are told when a linked process exits. Asynchronous results are \<^emph>\<open>futures\<close>, completed through \<^emph>\<open>promises\<close>, on which callbacks are registered. A \<^emph>\<open>clock\<close>, which tests can pause and
  advance, delivers timers. A \<^emph>\<open>socket manager\<close> keeps the connections to other nodes, whose bytes are made by \<^emph>\<open>encoders\<close> and read by \<^emph>\<open>decoders\<close>; requests are routed to processes, which
  authenticate and answer them. Locks, queues, pipes, loops and gatherings of futures are built on top.

  In the models a critical section or an atomic operation is one step, the steps of all threads interleave in every order (a step relation, or a function that is folded over an arbitrary sequence of
  calls and completions), a failing \<^verbatim>\<open>CHECK\<close> is a value of its own, and what other libraries answer are arguments.

  \<^bold>\<open>Futures\<close>

  \<^item> \<^verbatim>\<open>Futures\<close>, \<^verbatim>\<open>Future_Combinators\<close>: \<^verbatim>\<open>include/process/future.hpp\<close>. A store maps identifiers to the record \<^verbatim>\<open>Future::Data\<close>; every critical section of \<^verbatim>\<open>set\<close>, \<^verbatim>\<open>fail\<close>,
    \<^verbatim>\<open>discard\<close>, \<^verbatim>\<open>abandon\<close>, \<^verbatim>\<open>associate\<close> and of the registration of callbacks is one function on the store that returns the tasks the code runs after releasing the lock; \<open>exec\<close> runs one
    task. \<^verbatim>\<open>then\<close>, \<^verbatim>\<open>repair\<close>, \<^verbatim>\<open>recover\<close>, \<^verbatim>\<open>after\<close>, \<^verbatim>\<open>undiscardable\<close> and \<^verbatim>\<open>select\<close> are built from these tasks. The callables of clients are parameters.
    \<^verbatim>\<open>Future_Invariants\<close>, \<^verbatim>\<open>Future_Reach\<close> (with the locale \<open>conf_invariant\<close>), \<^verbatim>\<open>Future_Checks\<close>, \<^verbatim>\<open>Future_Association\<close>, \<^verbatim>\<open>Future_Termination\<close> and \<^verbatim>\<open>Future_Once\<close> prove
    the invariants for every interleaving; \<^verbatim>\<open>Future_Properties\<close> states the results: a completed future is final, exactly one completion succeeds, association forwards every completion,
    no \<^verbatim>\<open>CHECK\<close> fails, and the callbacks terminate if the client callables have budgets, which they have when they nest without a cycle.

  \<^item> \<^verbatim>\<open>Promise_Interface\<close>: the locale \<open>promise_store\<close>, the laws of promises that \<^verbatim>\<open>Locks\<close> (\<^verbatim>\<open>mutex.hpp\<close>, \<^verbatim>\<open>rwlock.hpp\<close>) and \<^verbatim>\<open>Channels\<close> (\<^verbatim>\<open>queue.hpp\<close>, the \<^verbatim>\<open>Pipe\<close> of \<^verbatim>\<open>http.cpp\<close>) rely
    on, interpreted on the future store: first-in first-out granting, exclusion, and that what is received is what was sent.

  \<^item> \<^verbatim>\<open>Gathering\<close> (\<^verbatim>\<open>collect.hpp\<close>, with the locale \<open>gathering\<close> for what \<^verbatim>\<open>collect\<close> and \<^verbatim>\<open>await\<close> share), \<^verbatim>\<open>Loops\<close> (\<^verbatim>\<open>loop.hpp\<close>: it refines the sequential loop, and a discard arrives at the future it
    waits for), \<^verbatim>\<open>Pacing\<close> (\<^verbatim>\<open>limiter.hpp\<close>, \<^verbatim>\<open>sequence.hpp\<close>, \<^verbatim>\<open>count_down_latch.hpp\<close>), \<^verbatim>\<open>Ownership\<close> (\<^verbatim>\<open>owned.hpp\<close>, \<^verbatim>\<open>shared.hpp\<close>: one owner, one deletion).

  \<^bold>\<open>Processes\<close>

  \<^item> \<^verbatim>\<open>Clock\<close>: \<^verbatim>\<open>src/clock.cpp\<close>: the timers, the scheduled ticks, the paused clock and the clocks of the processes. No timer is lost.

  \<^item> \<^verbatim>\<open>Processes\<close>: the actor core of \<^verbatim>\<open>src/process.cpp\<close> with \<^verbatim>\<open>event_queue.hpp\<close>, \<^verbatim>\<open>run_queue.hpp\<close> and \<^verbatim>\<open>gate.hpp\<close>. Every atomic action of \<^verbatim>\<open>ProcessBase::enqueue\<close>,
    \<^verbatim>\<open>ProcessManager::resume\<close>, \<^verbatim>\<open>cleanup\<close>, \<^verbatim>\<open>spawn\<close>, \<^verbatim>\<open>deliver\<close>, \<^verbatim>\<open>wait\<close> is a step of a frame (the program point of a call); the multiset of frames is interleaved arbitrarily.
    \<^verbatim>\<open>Process_Invariants\<close> proves an invariant per process; \<^verbatim>\<open>Process_Properties\<close> shows that no wake-up is lost, one thread at a time runs a process, events are handled in order, no \<^verbatim>\<open>CHECK\<close>
    fails and no deleted process is used.

  \<^item> \<^verbatim>\<open>Mpsc_Queue\<close> (\<^verbatim>\<open>mpsc_linked_queue.hpp\<close>: the loads and stores of producers and consumer on an explicit heap refine a queue; the locale \<open>fifo\<close> is interpreted on it and on the queue with a lock) and
    \<^verbatim>\<open>Semaphores\<close> (\<^verbatim>\<open>semaphore.hpp\<close>: no signal is lost), the parts of the lock-free run and event queues.

  \<^bold>\<open>Nodes and connections\<close>

  \<^item> \<^verbatim>\<open>Links\<close>: the three maps of \<^verbatim>\<open>SocketManager::links\<close> refine one relation between linkers and linkees.

  \<^item> \<^verbatim>\<open>Socket_Manager\<close>: every method of \<^verbatim>\<open>SocketManager\<close>, and the asynchronous computations that continue them (connecting, downgrading from SSL, sending, receiving) as frames; a step that is not possible
    in a state leaves it unchanged, so that \<open>net_run\<close> ranges over all interleavings. \<^verbatim>\<open>Socket_Invariants\<close> has the invariant of the maps, \<^verbatim>\<open>Socket_Reach\<close> that of the frames. \<^verbatim>\<open>Socket_Properties\<close>:
    no \<^verbatim>\<open>CHECK\<close> fails, messages are transmitted in order by exactly one sender, the loss of a linked connection is always notified, finalization leaves nothing.

  \<^item> \<^verbatim>\<open>Ssl_Sockets\<close>, \<^verbatim>\<open>Ssl_Accept\<close>: \<^verbatim>\<open>LibeventSSLSocketImpl\<close>, whose calls hand functions to the event loop, in every interleaving with the loop and the callbacks of libevent: the bytes received and sent are those that
    arrived and were accepted, in order, every future gets at most one result, connections are handed out once.

  \<^item> \<^verbatim>\<open>Pids\<close>, \<^verbatim>\<open>Message_Passing\<close>: addresses, process identifiers and messages; a message that is encoded, cut into pieces, decoded and parsed is the message that was sent.

  \<^bold>\<open>HTTP\<close>

  \<^item> \<^verbatim>\<open>Http_Encoding\<close>, \<^verbatim>\<open>Http_Url\<close>, \<^verbatim>\<open>Http_Messages\<close>: percent-encoding, queries and URLs with round trips, headers, responses.

  \<^item> \<^verbatim>\<open>Decoders\<close>, \<^verbatim>\<open>Decoder_Interface\<close> (the locales \<open>decoder_callbacks\<close> and \<open>header_callbacks\<close>, each interpreted on all four decoders), \<^verbatim>\<open>Decoder_Properties\<close>: \<^verbatim>\<open>src/decoder.hpp\<close> as callbacks of
    http-parser: whatever the fragments, the requests come out in order and complete. \<^verbatim>\<open>Encoders\<close>, \<^verbatim>\<open>Encoder_Properties\<close>: \<^verbatim>\<open>src/encoder.hpp\<close> and the loop that sends them.

  \<^item> \<^verbatim>\<open>Routing\<close>: the way of a request to its handler (\<^verbatim>\<open>ProcessManager::handle\<close>, \<^verbatim>\<open>ProcessBase::consume\<close>), \<^verbatim>\<open>Authentication\<close>: both authenticators and web tokens. \<^verbatim>\<open>Http_Proxy\<close>, \<^verbatim>\<open>Serving\<close>, \<^verbatim>\<open>Http_Server\<close>:
    responses in the order of the requests, and the states of a server. \<^verbatim>\<open>Connections\<close>: the client's end.

  \<^bold>\<open>Others\<close>

  \<^item> \<^verbatim>\<open>Prelude\<close>: shared lemmas and collections. \<^verbatim>\<open>Time_Series\<close>: \<^verbatim>\<open>timeseries.hpp\<close>. \<^verbatim>\<open>Memory_Profiling\<close>: \<^verbatim>\<open>src/memory_profiler.cpp\<close>.

  \<^bold>\<open>Parameters\<close>

  Other libraries are parameters with their laws as locales or named hypotheses: the string functions of stout (\<open>stout_strings\<close>), base64, JSON and OpenSSL (\<open>jwt_library\<close>), http-parser (the order of its calls, and what its
  URL parser finds), zlib, the printing of addresses, libevent, jemalloc and the system calls. Each locale of laws is also interpreted on concrete functions, which the witnesses use.

  \<^bold>\<open>Hypotheses of the properties\<close>

  File descriptors of new sockets are different from those of sockets that are still referenced. The filter of a test passes terminate events. Client callables of futures have budgets (termination only). A socket that
  is being connected for a first message is not closed by \<^verbatim>\<open>finalize\<close>. Ids and names of messages consist of the characters for which the encoding is the identity. The delegate of a node is not empty, has no
  slash and decodes to itself, and no process has an empty id. Requests for \<^verbatim>\<open>DataDecoder\<close> have headers, no trailers and no compressed body. The server's accept loop is not abandoned. An SSL socket is used after it is connected. Where one of these is
  violated, a lemma in the same theory shows for most of them what the code then does.

  \<^bold>\<open>Bounds and fuel\<close>

  Loops are structural recursion or recursion with a termination proof. Only \<open>run_tasks\<close>, which runs the tasks of one thread, has fuel, and the termination theorem says how much is enough. The sending loops take the list of
  what the socket accepts in each round; enough rounds transmit everything. Times are integers; the saturation of durations is not modelled. Sizes are natural numbers, except where the code can wrap around or
  overflow: \<^verbatim>\<open>TimeSeries::truncate\<close>, the sizes of files, the characters of \<^verbatim>\<open>constantTimeEquals\<close> and the \<^verbatim>\<open>char\<close> that holds the length of a decompressed body.

  Some steps are coarser or finer than the code, without a change of what is stated: \<^verbatim>\<open>after\<close> starts its timer and stores it in one step; \<^verbatim>\<open>serve\<close> may still write a response after a discard, which the code does not.

  \<^bold>\<open>Not modelled\<close>

  Poll sockets and the other event loops, subprocesses and reaping, the Windows port, gRPC, the CPU profiler, help pages and logging call the system or third-party libraries and keep little state of their own. Metrics are
  counters, statistics floating point. The templates of \<^verbatim>\<open>dispatch\<close>, \<^verbatim>\<open>defer\<close> and \<^verbatim>\<open>async\<close> only package calls as events.
\<close>

end
